(* ===== verification/Prelude.thy ===== *)
theory Prelude
  imports Main "HOL-Library.Word"
begin

text \<open>
  Shared vocabulary of the development: Rust's fixed-width integers as words, the
  \<open>Vec\<close> operations the sources use (indexed removal, insertion, fallible
  indexing), release-profile shifts and saturating arithmetic, and the list and word
  lemmas the component theories rely on.
\<close>

unbundle bit_operations_syntax

type_synonym u8 = "8 word"
type_synonym u32 = "32 word"
type_synonym u64 = "64 word"
type_synonym usize = nat

named_theorems vec_simps \<open>rewriting \<open>Vec\<close> operations\<close>
named_theorems rust_arith \<open>unfolding the integer operations of the sources\<close>

subsection \<open>Rust integer operations\<close>

text \<open>
  Shifts of the release profile take the shift amount modulo the width; a shift by the
  width or more aborts in a debug build. All call sites except the zero-size corner of
  \<open>all_ones_mask\<close> keep the amount below 64.
\<close>

definition shr64 :: "u64 \<Rightarrow> nat \<Rightarrow> u64" where
  "shr64 x n = drop_bit (n mod 64) x"

definition shl64 :: "u64 \<Rightarrow> nat \<Rightarrow> u64" where
  "shl64 x n = push_bit (n mod 64) x"

text \<open>\<open>i64\<close> arithmetic right shift of the bit pattern \<open>x\<close>.\<close>

definition sar64 :: "u64 \<Rightarrow> nat \<Rightarrow> u64" where
  "sar64 x n = signed_drop_bit (n mod 64) x"

definition saturating_mul_u32 :: "u32 \<Rightarrow> u32 \<Rightarrow> u32" where
  "saturating_mul_u32 a b =
     (if uint a * uint b < 2 ^ 32 then a * b else 0xFFFFFFFF)"

definition saturating_add_u64 :: "u64 \<Rightarrow> u64 \<Rightarrow> u64" where
  "saturating_add_u64 a b = (if uint a + uint b < 2 ^ 64 then a + b else 0xFFFFFFFFFFFFFFFF)"

definition saturating_sub_u64 :: "u64 \<Rightarrow> u64 \<Rightarrow> u64" where
  "saturating_sub_u64 a b = (if a < b then 0 else a - b)"

lemma unat_saturating_mul_u32:
  "unat (saturating_mul_u32 a b) = min (unat a * unat b) (2 ^ 32 - 1)"
proof -
  have "uint a * uint b < 2 ^ 32 \<longleftrightarrow> int (unat a * unat b) < 2 ^ 32"
    by simp
  also have "\<dots> \<longleftrightarrow> unat a * unat b < 2 ^ 32"
    by (simp only: of_nat_less_numeral_power_cancel_iff)
  finally show ?thesis
    by (auto simp: saturating_mul_u32_def unat_word_ariths)
qed

lemma unat_saturating_add_u64:
  "unat (saturating_add_u64 a b) = min (unat a + unat b) (2 ^ 64 - 1)"
proof -
  have "uint a + uint b < 2 ^ 64 \<longleftrightarrow> int (unat a + unat b) < 2 ^ 64"
    by simp
  also have "\<dots> \<longleftrightarrow> unat a + unat b < 2 ^ 64"
    by (simp only: of_nat_less_numeral_power_cancel_iff)
  finally show ?thesis
    by (auto simp: saturating_add_u64_def unat_word_ariths)
qed

lemma unat_saturating_sub_u64:
  "unat (saturating_sub_u64 a b) = unat a - unat b"
  by (auto simp: saturating_sub_u64_def word_less_nat_alt unat_sub_if')

subsection \<open>Vectors\<close>

text \<open>\<open>Vec::remove\<close>; the sources call it with an index in range only.\<close>

definition vec_remove :: "nat \<Rightarrow> 'a list \<Rightarrow> 'a list" where
  "vec_remove i xs = take i xs @ drop (Suc i) xs"

definition vec_insert :: "nat \<Rightarrow> 'a \<Rightarrow> 'a list \<Rightarrow> 'a list" where
  "vec_insert i x xs = take i xs @ x # drop i xs"

text \<open>\<open>slice::get\<close>.\<close>

definition vec_get :: "'a list \<Rightarrow> nat \<Rightarrow> 'a option" where
  "vec_get xs i = (if i < length xs then Some (xs ! i) else None)"

lemma vec_get_Some [vec_simps]:
  "vec_get xs i = Some x \<longleftrightarrow> i < length xs \<and> xs ! i = x"
  by (auto simp: vec_get_def)

lemma vec_get_None [vec_simps]: "vec_get xs i = None \<longleftrightarrow> length xs \<le> i"
  by (auto simp: vec_get_def)

lemma length_vec_remove [simp]:
  "i < length xs \<Longrightarrow> length (vec_remove i xs) = length xs - 1"
  by (simp add: vec_remove_def)

lemma length_vec_insert [simp]:
  "i \<le> length xs \<Longrightarrow> length (vec_insert i x xs) = Suc (length xs)"
  by (simp add: vec_insert_def)

lemma set_vec_remove: "set (vec_remove i xs) \<subseteq> set xs"
  using set_take_subset[of i xs] set_drop_subset[of "Suc i" xs]
  by (auto simp: vec_remove_def)

lemma set_vec_insert [vec_simps]: "set (vec_insert i x xs) = insert x (set xs)"
  by (metis append_take_drop_id list.simps(15) set_append Un_insert_right vec_insert_def)

lemma vec_remove_append [vec_simps]:
  "i = length xs \<Longrightarrow> vec_remove i (xs @ y # ys) = xs @ ys"
  by (simp add: vec_remove_def)

lemma split_at: "i < length xs \<Longrightarrow> xs = take i xs @ xs ! i # drop (Suc i) xs"
  by (rule id_take_nth_drop)

text \<open>Two positions of a vector, the first before the second.\<close>

lemma split_at2:
  assumes "i < j" "j < length xs"
  shows "xs = take i xs @ xs ! i # take (j - Suc i) (drop (Suc i) xs) @ xs ! j # drop (Suc j) xs"
proof -
  have "drop (Suc i) xs = take (j - Suc i) (drop (Suc i) xs) @ drop (Suc i) xs ! (j - Suc i) #
      drop (Suc (j - Suc i)) (drop (Suc i) xs)"
    by (rule split_at) (use assms in simp)
  moreover have "drop (Suc i) xs ! (j - Suc i) = xs ! j"
    using assms by simp
  moreover have "drop (Suc (j - Suc i)) (drop (Suc i) xs) = drop (Suc j) xs"
    using assms by simp
  ultimately show ?thesis
    using split_at[of i xs] assms by simp
qed

end
