(* ===== verification/Pcode.thy ===== *)
theory Pcode
  imports Prelude
begin

text \<open>
  The P-code intermediate representation of \<^verbatim>\<open>pcode-ir/src/lib.rs\<close>: address
  spaces, varnodes, the operation type with the constructors of the source, and the
  structural accessors (output, reads, in-place rewriting of either). Every accessor is
  one \<^theory_text>\<open>primrec\<close> with one equation per constructor, in the order of the
  source's enum.
\<close>

subsection \<open>Address spaces and varnodes\<close>

datatype AddressSpaceId = Register | Ram | Unique | Const

record Varnode =
  space :: AddressSpaceId
  offset :: u64
  vsize :: u32

definition register :: "u64 \<Rightarrow> u32 \<Rightarrow> Varnode" where
  "register off sz = \<lparr>space = Register, offset = off, vsize = sz\<rparr>"

definition unique :: "u64 \<Rightarrow> u32 \<Rightarrow> Varnode" where
  "unique off sz = \<lparr>space = Unique, offset = off, vsize = sz\<rparr>"

definition ram :: "u64 \<Rightarrow> u32 \<Rightarrow> Varnode" where
  "ram off sz = \<lparr>space = Ram, offset = off, vsize = sz\<rparr>"

definition constant_vn :: "u64 \<Rightarrow> u32 \<Rightarrow> Varnode" where
  "constant_vn value sz = \<lparr>space = Const, offset = value, vsize = sz\<rparr>"

lemmas varnode_ctors = register_def unique_def ram_def constant_vn_def

lemma varnode_ctor_sel [simp]:
  "space (register a n) = Register" "offset (register a n) = a" "vsize (register a n) = n"
  "space (unique a n) = Unique" "offset (unique a n) = a" "vsize (unique a n) = n"
  "space (ram a n) = Ram" "offset (ram a n) = a" "vsize (ram a n) = n"
  "space (constant_vn a n) = Const" "offset (constant_vn a n) = a" "vsize (constant_vn a n) = n"
  by (simp_all add: varnode_ctors)

subsection \<open>Operations and instructions\<close>

datatype (plugins only: code size) PcodeOp =
    Copy Varnode Varnode
  | Load Varnode AddressSpaceId Varnode
  | Store AddressSpaceId Varnode Varnode
  | Branch Varnode
  | CBranch Varnode Varnode
  | BranchInd Varnode
  | Call Varnode
  | CallInd Varnode
  | Return Varnode
  | IntAdd Varnode Varnode Varnode
  | IntSub Varnode Varnode Varnode
  | IntMult Varnode Varnode Varnode
  | IntDiv Varnode Varnode Varnode
  | IntSDiv Varnode Varnode Varnode
  | IntRem Varnode Varnode Varnode
  | IntSRem Varnode Varnode Varnode
  | IntNeg Varnode Varnode
  | IntEq Varnode Varnode Varnode
  | IntNotEq Varnode Varnode Varnode
  | IntLess Varnode Varnode Varnode
  | IntLessEq Varnode Varnode Varnode
  | IntSLess Varnode Varnode Varnode
  | IntSLessEq Varnode Varnode Varnode
  | IntAnd Varnode Varnode Varnode
  | IntOr Varnode Varnode Varnode
  | IntXor Varnode Varnode Varnode
  | IntNot Varnode Varnode
  | IntLsl Varnode Varnode Varnode
  | IntLsr Varnode Varnode Varnode
  | IntAsr Varnode Varnode Varnode
  | IntZext Varnode Varnode
  | IntSext Varnode Varnode
  | Subpiece Varnode Varnode u32
  | IntCarry Varnode Varnode Varnode
  | IntSCarry Varnode Varnode Varnode
  | IntSBorrow Varnode Varnode Varnode
  | BoolAnd Varnode Varnode Varnode
  | BoolOr Varnode Varnode Varnode
  | BoolXor Varnode Varnode Varnode
  | BoolNot Varnode Varnode
  | FloatAdd Varnode Varnode Varnode
  | FloatSub Varnode Varnode Varnode
  | FloatMult Varnode Varnode Varnode
  | FloatDiv Varnode Varnode Varnode
  | FloatNeg Varnode Varnode
  | FloatAbs Varnode Varnode
  | FloatSqrt Varnode Varnode
  | FloatEq Varnode Varnode Varnode
  | FloatNotEq Varnode Varnode Varnode
  | FloatLess Varnode Varnode Varnode
  | FloatLessEq Varnode Varnode Varnode
  | FloatNan Varnode Varnode
  | Int2Float Varnode Varnode
  | Float2Float Varnode Varnode
  | Trunc Varnode Varnode
  | FloatCeil Varnode Varnode
  | FloatFloor Varnode Varnode
  | FloatRound Varnode Varnode
  | Popcount Varnode Varnode
  | Lzcount Varnode Varnode
  | CallOther "Varnode option" u64 "Varnode list"

record ConstructorSpan =
  constructor_id :: u32
  table_id :: u32
  source :: string

record Instruction =
  inst_len :: u64
  disassembly :: string
  inst_ops :: "PcodeOp list"
  constructor :: "ConstructorSpan option"

definition new_instruction :: "u64 \<Rightarrow> string \<Rightarrow> PcodeOp list \<Rightarrow> Instruction" where
  "new_instruction l d p = \<lparr>inst_len = l, disassembly = d, inst_ops = p, constructor = None\<rparr>"

datatype DecodeError = UnknownInstruction

definition fmt_DecodeError :: "DecodeError \<Rightarrow> string" where
  "fmt_DecodeError e = (case e of UnknownInstruction \<Rightarrow> ''unknown instruction encoding'')"

subsection \<open>Outputs\<close>

primrec get_output :: "PcodeOp \<Rightarrow> Varnode option" where
  "get_output (Copy out input) = Some out"
| "get_output (Load out sp ptr) = Some out"
| "get_output (Store sp ptr val) = None"
| "get_output (Branch dest) = None"
| "get_output (CBranch dest cond) = None"
| "get_output (BranchInd dest) = None"
| "get_output (Call dest) = None"
| "get_output (CallInd dest) = None"
| "get_output (Return dest) = None"
| "get_output (IntAdd out left right) = Some out"
| "get_output (IntSub out left right) = Some out"
| "get_output (IntMult out left right) = Some out"
| "get_output (IntDiv out left right) = Some out"
| "get_output (IntSDiv out left right) = Some out"
| "get_output (IntRem out left right) = Some out"
| "get_output (IntSRem out left right) = Some out"
| "get_output (IntNeg out input) = Some out"
| "get_output (IntEq out left right) = Some out"
| "get_output (IntNotEq out left right) = Some out"
| "get_output (IntLess out left right) = Some out"
| "get_output (IntLessEq out left right) = Some out"
| "get_output (IntSLess out left right) = Some out"
| "get_output (IntSLessEq out left right) = Some out"
| "get_output (IntAnd out left right) = Some out"
| "get_output (IntOr out left right) = Some out"
| "get_output (IntXor out left right) = Some out"
| "get_output (IntNot out input) = Some out"
| "get_output (IntLsl out left right) = Some out"
| "get_output (IntLsr out left right) = Some out"
| "get_output (IntAsr out left right) = Some out"
| "get_output (IntZext out input) = Some out"
| "get_output (IntSext out input) = Some out"
| "get_output (Subpiece out input lsb) = Some out"
| "get_output (IntCarry out left right) = Some out"
| "get_output (IntSCarry out left right) = Some out"
| "get_output (IntSBorrow out left right) = Some out"
| "get_output (BoolAnd out left right) = Some out"
| "get_output (BoolOr out left right) = Some out"
| "get_output (BoolXor out left right) = Some out"
| "get_output (BoolNot out input) = Some out"
| "get_output (FloatAdd out left right) = Some out"
| "get_output (FloatSub out left right) = Some out"
| "get_output (FloatMult out left right) = Some out"
| "get_output (FloatDiv out left right) = Some out"
| "get_output (FloatNeg out input) = Some out"
| "get_output (FloatAbs out input) = Some out"
| "get_output (FloatSqrt out input) = Some out"
| "get_output (FloatEq out left right) = Some out"
| "get_output (FloatNotEq out left right) = Some out"
| "get_output (FloatLess out left right) = Some out"
| "get_output (FloatLessEq out left right) = Some out"
| "get_output (FloatNan out input) = Some out"
| "get_output (Int2Float out input) = Some out"
| "get_output (Float2Float out input) = Some out"
| "get_output (Trunc out input) = Some out"
| "get_output (FloatCeil out input) = Some out"
| "get_output (FloatFloor out input) = Some out"
| "get_output (FloatRound out input) = Some out"
| "get_output (Popcount out input) = Some out"
| "get_output (Lzcount out input) = Some out"
| "get_output (CallOther out func_id inputs) = None"

text \<open>The mutable accessor: \<open>f\<close> is what the caller does to the output it is handed.\<close>

primrec get_output_mut :: "(Varnode \<Rightarrow> Varnode) \<Rightarrow> PcodeOp \<Rightarrow> PcodeOp" where
  "get_output_mut f (Copy out input) = Copy (f out) input"
| "get_output_mut f (Load out sp ptr) = Load (f out) sp ptr"
| "get_output_mut f (Store sp ptr val) = Store sp ptr val"
| "get_output_mut f (Branch dest) = Branch dest"
| "get_output_mut f (CBranch dest cond) = CBranch dest cond"
| "get_output_mut f (BranchInd dest) = BranchInd dest"
| "get_output_mut f (Call dest) = Call dest"
| "get_output_mut f (CallInd dest) = CallInd dest"
| "get_output_mut f (Return dest) = Return dest"
| "get_output_mut f (IntAdd out left right) = IntAdd (f out) left right"
| "get_output_mut f (IntSub out left right) = IntSub (f out) left right"
| "get_output_mut f (IntMult out left right) = IntMult (f out) left right"
| "get_output_mut f (IntDiv out left right) = IntDiv (f out) left right"
| "get_output_mut f (IntSDiv out left right) = IntSDiv (f out) left right"
| "get_output_mut f (IntRem out left right) = IntRem (f out) left right"
| "get_output_mut f (IntSRem out left right) = IntSRem (f out) left right"
| "get_output_mut f (IntNeg out input) = IntNeg (f out) input"
| "get_output_mut f (IntEq out left right) = IntEq (f out) left right"
| "get_output_mut f (IntNotEq out left right) = IntNotEq (f out) left right"
| "get_output_mut f (IntLess out left right) = IntLess (f out) left right"
| "get_output_mut f (IntLessEq out left right) = IntLessEq (f out) left right"
| "get_output_mut f (IntSLess out left right) = IntSLess (f out) left right"
| "get_output_mut f (IntSLessEq out left right) = IntSLessEq (f out) left right"
| "get_output_mut f (IntAnd out left right) = IntAnd (f out) left right"
| "get_output_mut f (IntOr out left right) = IntOr (f out) left right"
| "get_output_mut f (IntXor out left right) = IntXor (f out) left right"
| "get_output_mut f (IntNot out input) = IntNot (f out) input"
| "get_output_mut f (IntLsl out left right) = IntLsl (f out) left right"
| "get_output_mut f (IntLsr out left right) = IntLsr (f out) left right"
| "get_output_mut f (IntAsr out left right) = IntAsr (f out) left right"
| "get_output_mut f (IntZext out input) = IntZext (f out) input"
| "get_output_mut f (IntSext out input) = IntSext (f out) input"
| "get_output_mut f (Subpiece out input lsb) = Subpiece (f out) input lsb"
| "get_output_mut f (IntCarry out left right) = IntCarry (f out) left right"
| "get_output_mut f (IntSCarry out left right) = IntSCarry (f out) left right"
| "get_output_mut f (IntSBorrow out left right) = IntSBorrow (f out) left right"
| "get_output_mut f (BoolAnd out left right) = BoolAnd (f out) left right"
| "get_output_mut f (BoolOr out left right) = BoolOr (f out) left right"
| "get_output_mut f (BoolXor out left right) = BoolXor (f out) left right"
| "get_output_mut f (BoolNot out input) = BoolNot (f out) input"
| "get_output_mut f (FloatAdd out left right) = FloatAdd (f out) left right"
| "get_output_mut f (FloatSub out left right) = FloatSub (f out) left right"
| "get_output_mut f (FloatMult out left right) = FloatMult (f out) left right"
| "get_output_mut f (FloatDiv out left right) = FloatDiv (f out) left right"
| "get_output_mut f (FloatNeg out input) = FloatNeg (f out) input"
| "get_output_mut f (FloatAbs out input) = FloatAbs (f out) input"
| "get_output_mut f (FloatSqrt out input) = FloatSqrt (f out) input"
| "get_output_mut f (FloatEq out left right) = FloatEq (f out) left right"
| "get_output_mut f (FloatNotEq out left right) = FloatNotEq (f out) left right"
| "get_output_mut f (FloatLess out left right) = FloatLess (f out) left right"
| "get_output_mut f (FloatLessEq out left right) = FloatLessEq (f out) left right"
| "get_output_mut f (FloatNan out input) = FloatNan (f out) input"
| "get_output_mut f (Int2Float out input) = Int2Float (f out) input"
| "get_output_mut f (Float2Float out input) = Float2Float (f out) input"
| "get_output_mut f (Trunc out input) = Trunc (f out) input"
| "get_output_mut f (FloatCeil out input) = FloatCeil (f out) input"
| "get_output_mut f (FloatFloor out input) = FloatFloor (f out) input"
| "get_output_mut f (FloatRound out input) = FloatRound (f out) input"
| "get_output_mut f (Popcount out input) = Popcount (f out) input"
| "get_output_mut f (Lzcount out input) = Lzcount (f out) input"
| "get_output_mut f (CallOther out func_id inputs) = CallOther out func_id inputs"

primrec writes_to :: "PcodeOp \<Rightarrow> Varnode \<Rightarrow> bool" where
  "writes_to (Copy out input) = (\<lambda>target. out = target)"
| "writes_to (Load out sp ptr) = (\<lambda>target. out = target)"
| "writes_to (Store sp ptr val) = (\<lambda>target. False)"
| "writes_to (Branch dest) = (\<lambda>target. False)"
| "writes_to (CBranch dest cond) = (\<lambda>target. False)"
| "writes_to (BranchInd dest) = (\<lambda>target. False)"
| "writes_to (Call dest) = (\<lambda>target. False)"
| "writes_to (CallInd dest) = (\<lambda>target. False)"
| "writes_to (Return dest) = (\<lambda>target. False)"
| "writes_to (IntAdd out left right) = (\<lambda>target. out = target)"
| "writes_to (IntSub out left right) = (\<lambda>target. out = target)"
| "writes_to (IntMult out left right) = (\<lambda>target. out = target)"
| "writes_to (IntDiv out left right) = (\<lambda>target. out = target)"
| "writes_to (IntSDiv out left right) = (\<lambda>target. out = target)"
| "writes_to (IntRem out left right) = (\<lambda>target. out = target)"
| "writes_to (IntSRem out left right) = (\<lambda>target. out = target)"
| "writes_to (IntNeg out input) = (\<lambda>target. out = target)"
| "writes_to (IntEq out left right) = (\<lambda>target. out = target)"
| "writes_to (IntNotEq out left right) = (\<lambda>target. out = target)"
| "writes_to (IntLess out left right) = (\<lambda>target. out = target)"
| "writes_to (IntLessEq out left right) = (\<lambda>target. out = target)"
| "writes_to (IntSLess out left right) = (\<lambda>target. out = target)"
| "writes_to (IntSLessEq out left right) = (\<lambda>target. out = target)"
| "writes_to (IntAnd out left right) = (\<lambda>target. out = target)"
| "writes_to (IntOr out left right) = (\<lambda>target. out = target)"
| "writes_to (IntXor out left right) = (\<lambda>target. out = target)"
| "writes_to (IntNot out input) = (\<lambda>target. out = target)"
| "writes_to (IntLsl out left right) = (\<lambda>target. out = target)"
| "writes_to (IntLsr out left right) = (\<lambda>target. out = target)"
| "writes_to (IntAsr out left right) = (\<lambda>target. out = target)"
| "writes_to (IntZext out input) = (\<lambda>target. out = target)"
| "writes_to (IntSext out input) = (\<lambda>target. out = target)"
| "writes_to (Subpiece out input lsb) = (\<lambda>target. out = target)"
| "writes_to (IntCarry out left right) = (\<lambda>target. out = target)"
| "writes_to (IntSCarry out left right) = (\<lambda>target. out = target)"
| "writes_to (IntSBorrow out left right) = (\<lambda>target. out = target)"
| "writes_to (BoolAnd out left right) = (\<lambda>target. out = target)"
| "writes_to (BoolOr out left right) = (\<lambda>target. out = target)"
| "writes_to (BoolXor out left right) = (\<lambda>target. out = target)"
| "writes_to (BoolNot out input) = (\<lambda>target. out = target)"
| "writes_to (FloatAdd out left right) = (\<lambda>target. out = target)"
| "writes_to (FloatSub out left right) = (\<lambda>target. out = target)"
| "writes_to (FloatMult out left right) = (\<lambda>target. out = target)"
| "writes_to (FloatDiv out left right) = (\<lambda>target. out = target)"
| "writes_to (FloatNeg out input) = (\<lambda>target. out = target)"
| "writes_to (FloatAbs out input) = (\<lambda>target. out = target)"
| "writes_to (FloatSqrt out input) = (\<lambda>target. out = target)"
| "writes_to (FloatEq out left right) = (\<lambda>target. out = target)"
| "writes_to (FloatNotEq out left right) = (\<lambda>target. out = target)"
| "writes_to (FloatLess out left right) = (\<lambda>target. out = target)"
| "writes_to (FloatLessEq out left right) = (\<lambda>target. out = target)"
| "writes_to (FloatNan out input) = (\<lambda>target. out = target)"
| "writes_to (Int2Float out input) = (\<lambda>target. out = target)"
| "writes_to (Float2Float out input) = (\<lambda>target. out = target)"
| "writes_to (Trunc out input) = (\<lambda>target. out = target)"
| "writes_to (FloatCeil out input) = (\<lambda>target. out = target)"
| "writes_to (FloatFloor out input) = (\<lambda>target. out = target)"
| "writes_to (FloatRound out input) = (\<lambda>target. out = target)"
| "writes_to (Popcount out input) = (\<lambda>target. out = target)"
| "writes_to (Lzcount out input) = (\<lambda>target. out = target)"
| "writes_to (CallOther out func_id inputs) = (\<lambda>target. out = Some target)"

subsection \<open>Reads\<close>

text \<open>The varnodes \<open>visit_reads\<close> passes to its visitor, in order.\<close>

primrec visit_reads :: "PcodeOp \<Rightarrow> Varnode list" where
  "visit_reads (Copy out input) = [input]"
| "visit_reads (Load out sp ptr) = [ptr]"
| "visit_reads (Store sp ptr val) = [ptr, val]"
| "visit_reads (Branch dest) = [dest]"
| "visit_reads (CBranch dest cond) = [dest, cond]"
| "visit_reads (BranchInd dest) = [dest]"
| "visit_reads (Call dest) = [dest]"
| "visit_reads (CallInd dest) = [dest]"
| "visit_reads (Return dest) = [dest]"
| "visit_reads (IntAdd out left right) = [left, right]"
| "visit_reads (IntSub out left right) = [left, right]"
| "visit_reads (IntMult out left right) = [left, right]"
| "visit_reads (IntDiv out left right) = [left, right]"
| "visit_reads (IntSDiv out left right) = [left, right]"
| "visit_reads (IntRem out left right) = [left, right]"
| "visit_reads (IntSRem out left right) = [left, right]"
| "visit_reads (IntNeg out input) = [input]"
| "visit_reads (IntEq out left right) = [left, right]"
| "visit_reads (IntNotEq out left right) = [left, right]"
| "visit_reads (IntLess out left right) = [left, right]"
| "visit_reads (IntLessEq out left right) = [left, right]"
| "visit_reads (IntSLess out left right) = [left, right]"
| "visit_reads (IntSLessEq out left right) = [left, right]"
| "visit_reads (IntAnd out left right) = [left, right]"
| "visit_reads (IntOr out left right) = [left, right]"
| "visit_reads (IntXor out left right) = [left, right]"
| "visit_reads (IntNot out input) = [input]"
| "visit_reads (IntLsl out left right) = [left, right]"
| "visit_reads (IntLsr out left right) = [left, right]"
| "visit_reads (IntAsr out left right) = [left, right]"
| "visit_reads (IntZext out input) = [input]"
| "visit_reads (IntSext out input) = [input]"
| "visit_reads (Subpiece out input lsb) = [input]"
| "visit_reads (IntCarry out left right) = [left, right]"
| "visit_reads (IntSCarry out left right) = [left, right]"
| "visit_reads (IntSBorrow out left right) = [left, right]"
| "visit_reads (BoolAnd out left right) = [left, right]"
| "visit_reads (BoolOr out left right) = [left, right]"
| "visit_reads (BoolXor out left right) = [left, right]"
| "visit_reads (BoolNot out input) = [input]"
| "visit_reads (FloatAdd out left right) = [left, right]"
| "visit_reads (FloatSub out left right) = [left, right]"
| "visit_reads (FloatMult out left right) = [left, right]"
| "visit_reads (FloatDiv out left right) = [left, right]"
| "visit_reads (FloatNeg out input) = [input]"
| "visit_reads (FloatAbs out input) = [input]"
| "visit_reads (FloatSqrt out input) = [input]"
| "visit_reads (FloatEq out left right) = [left, right]"
| "visit_reads (FloatNotEq out left right) = [left, right]"
| "visit_reads (FloatLess out left right) = [left, right]"
| "visit_reads (FloatLessEq out left right) = [left, right]"
| "visit_reads (FloatNan out input) = [input]"
| "visit_reads (Int2Float out input) = [input]"
| "visit_reads (Float2Float out input) = [input]"
| "visit_reads (Trunc out input) = [input]"
| "visit_reads (FloatCeil out input) = [input]"
| "visit_reads (FloatFloor out input) = [input]"
| "visit_reads (FloatRound out input) = [input]"
| "visit_reads (Popcount out input) = [input]"
| "visit_reads (Lzcount out input) = [input]"
| "visit_reads (CallOther out func_id inputs) = inputs"

text \<open>The mutable visitor: \<open>f\<close> is the replacement the visitor assigns.\<close>

primrec visit_reads_mut :: "(Varnode \<Rightarrow> Varnode) \<Rightarrow> PcodeOp \<Rightarrow> PcodeOp" where
  "visit_reads_mut f (Copy out input) = Copy out (f input)"
| "visit_reads_mut f (Load out sp ptr) = Load out sp (f ptr)"
| "visit_reads_mut f (Store sp ptr val) = Store sp (f ptr) (f val)"
| "visit_reads_mut f (Branch dest) = Branch (f dest)"
| "visit_reads_mut f (CBranch dest cond) = CBranch (f dest) (f cond)"
| "visit_reads_mut f (BranchInd dest) = BranchInd (f dest)"
| "visit_reads_mut f (Call dest) = Call (f dest)"
| "visit_reads_mut f (CallInd dest) = CallInd (f dest)"
| "visit_reads_mut f (Return dest) = Return (f dest)"
| "visit_reads_mut f (IntAdd out left right) = IntAdd out (f left) (f right)"
| "visit_reads_mut f (IntSub out left right) = IntSub out (f left) (f right)"
| "visit_reads_mut f (IntMult out left right) = IntMult out (f left) (f right)"
| "visit_reads_mut f (IntDiv out left right) = IntDiv out (f left) (f right)"
| "visit_reads_mut f (IntSDiv out left right) = IntSDiv out (f left) (f right)"
| "visit_reads_mut f (IntRem out left right) = IntRem out (f left) (f right)"
| "visit_reads_mut f (IntSRem out left right) = IntSRem out (f left) (f right)"
| "visit_reads_mut f (IntNeg out input) = IntNeg out (f input)"
| "visit_reads_mut f (IntEq out left right) = IntEq out (f left) (f right)"
| "visit_reads_mut f (IntNotEq out left right) = IntNotEq out (f left) (f right)"
| "visit_reads_mut f (IntLess out left right) = IntLess out (f left) (f right)"
| "visit_reads_mut f (IntLessEq out left right) = IntLessEq out (f left) (f right)"
| "visit_reads_mut f (IntSLess out left right) = IntSLess out (f left) (f right)"
| "visit_reads_mut f (IntSLessEq out left right) = IntSLessEq out (f left) (f right)"
| "visit_reads_mut f (IntAnd out left right) = IntAnd out (f left) (f right)"
| "visit_reads_mut f (IntOr out left right) = IntOr out (f left) (f right)"
| "visit_reads_mut f (IntXor out left right) = IntXor out (f left) (f right)"
| "visit_reads_mut f (IntNot out input) = IntNot out (f input)"
| "visit_reads_mut f (IntLsl out left right) = IntLsl out (f left) (f right)"
| "visit_reads_mut f (IntLsr out left right) = IntLsr out (f left) (f right)"
| "visit_reads_mut f (IntAsr out left right) = IntAsr out (f left) (f right)"
| "visit_reads_mut f (IntZext out input) = IntZext out (f input)"
| "visit_reads_mut f (IntSext out input) = IntSext out (f input)"
| "visit_reads_mut f (Subpiece out input lsb) = Subpiece out (f input) lsb"
| "visit_reads_mut f (IntCarry out left right) = IntCarry out (f left) (f right)"
| "visit_reads_mut f (IntSCarry out left right) = IntSCarry out (f left) (f right)"
| "visit_reads_mut f (IntSBorrow out left right) = IntSBorrow out (f left) (f right)"
| "visit_reads_mut f (BoolAnd out left right) = BoolAnd out (f left) (f right)"
| "visit_reads_mut f (BoolOr out left right) = BoolOr out (f left) (f right)"
| "visit_reads_mut f (BoolXor out left right) = BoolXor out (f left) (f right)"
| "visit_reads_mut f (BoolNot out input) = BoolNot out (f input)"
| "visit_reads_mut f (FloatAdd out left right) = FloatAdd out (f left) (f right)"
| "visit_reads_mut f (FloatSub out left right) = FloatSub out (f left) (f right)"
| "visit_reads_mut f (FloatMult out left right) = FloatMult out (f left) (f right)"
| "visit_reads_mut f (FloatDiv out left right) = FloatDiv out (f left) (f right)"
| "visit_reads_mut f (FloatNeg out input) = FloatNeg out (f input)"
| "visit_reads_mut f (FloatAbs out input) = FloatAbs out (f input)"
| "visit_reads_mut f (FloatSqrt out input) = FloatSqrt out (f input)"
| "visit_reads_mut f (FloatEq out left right) = FloatEq out (f left) (f right)"
| "visit_reads_mut f (FloatNotEq out left right) = FloatNotEq out (f left) (f right)"
| "visit_reads_mut f (FloatLess out left right) = FloatLess out (f left) (f right)"
| "visit_reads_mut f (FloatLessEq out left right) = FloatLessEq out (f left) (f right)"
| "visit_reads_mut f (FloatNan out input) = FloatNan out (f input)"
| "visit_reads_mut f (Int2Float out input) = Int2Float out (f input)"
| "visit_reads_mut f (Float2Float out input) = Float2Float out (f input)"
| "visit_reads_mut f (Trunc out input) = Trunc out (f input)"
| "visit_reads_mut f (FloatCeil out input) = FloatCeil out (f input)"
| "visit_reads_mut f (FloatFloor out input) = FloatFloor out (f input)"
| "visit_reads_mut f (FloatRound out input) = FloatRound out (f input)"
| "visit_reads_mut f (Popcount out input) = Popcount out (f input)"
| "visit_reads_mut f (Lzcount out input) = Lzcount out (f input)"
| "visit_reads_mut f (CallOther out func_id inputs) = CallOther out func_id (map f inputs)"

definition count_reads :: "PcodeOp \<Rightarrow> Varnode \<Rightarrow> nat" where
  "count_reads op target = length (filter (\<lambda>v. v = target) (visit_reads op))"

definition reads_varnode :: "PcodeOp \<Rightarrow> Varnode \<Rightarrow> bool" where
  "reads_varnode op target \<longleftrightarrow> count_reads op target > 0"

text \<open>The rewritten operation and whether a read was found.\<close>

definition replace_reads :: "PcodeOp \<Rightarrow> Varnode \<Rightarrow> Varnode \<Rightarrow> PcodeOp \<times> bool" where
  "replace_reads op target replacement =
     (visit_reads_mut (\<lambda>v. if v = target then replacement else v) op,
      target \<in> set (visit_reads op))"

definition offset_unique_varnodes :: "PcodeOp \<Rightarrow> u64 \<Rightarrow> PcodeOp" where
  "offset_unique_varnodes op off =
     (let bump = (\<lambda>v. if space v = Unique then v\<lparr>offset := offset v + off\<rparr> else v)
      in visit_reads_mut bump (get_output_mut bump op))"

end
