(* ===== verification/PcodeSem.thy ===== *)
theory PcodeSem
  imports Pcode
begin

text \<open>
  The reference semantics of P-code that the optimiser and the folder are judged
  against, after Ghidra's P-code reference. A machine state is a store and the list of
  observable events. Varnodes denote little-endian byte ranges of an address space, so
  overlapping varnodes (\<open>RAX\<close> and \<open>EAX\<close>) really alias; \<open>Load\<close> and
  \<open>Store\<close> address a varnode computed at run time. What the reference leaves open
  (floating point, division by zero, user operations) is the parameter \<open>ext\<close> or
  \<open>usr\<close>, which sees an operation only through its kind, its operand sizes and the
  operand values. The store is an interface (\<open>varnode_store\<close>) with its laws; the
  byte store below is its instance.
\<close>

subsection \<open>Values\<close>

definition bits :: "Varnode \<Rightarrow> nat" where
  "bits v = 8 * unat (vsize v)"

definition const_val :: "Varnode \<Rightarrow> int" where
  "const_val v = take_bit (bits v) (uint (offset v))"

text \<open>Two's complement reading of an operand value at the operand's width.\<close>

definition signed :: "Varnode \<Rightarrow> int \<Rightarrow> int" where
  "signed v x = signed_take_bit (bits v - 1) x"

definition trunc_div :: "int \<Rightarrow> int \<Rightarrow> int" where
  "trunc_div a b = sgn a * sgn b * (\<bar>a\<bar> div \<bar>b\<bar>)"

definition trunc_rem :: "int \<Rightarrow> int \<Rightarrow> int" where
  "trunc_rem a b = a - trunc_div a b * b"

text \<open>An operand reduced to its size, and an operation reduced to kind and sizes.\<close>

definition erase :: "Varnode \<Rightarrow> Varnode" where
  "erase v = v\<lparr>space := Unique, offset := 0\<rparr>"

definition shape :: "PcodeOp \<Rightarrow> PcodeOp" where
  "shape op = visit_reads_mut erase (get_output_mut erase op)"

primrec op_value :: "(PcodeOp \<Rightarrow> int list \<Rightarrow> int) \<Rightarrow> PcodeOp \<Rightarrow> int list \<Rightarrow> int" where
  "op_value ext (Copy out input) = (\<lambda>vs. vs ! 0)"
| "op_value ext (Load out sp ptr) = (\<lambda>vs. 0)"
| "op_value ext (Store sp ptr val) = (\<lambda>vs. 0)"
| "op_value ext (Branch dest) = (\<lambda>vs. 0)"
| "op_value ext (CBranch dest cond) = (\<lambda>vs. 0)"
| "op_value ext (BranchInd dest) = (\<lambda>vs. 0)"
| "op_value ext (Call dest) = (\<lambda>vs. 0)"
| "op_value ext (CallInd dest) = (\<lambda>vs. 0)"
| "op_value ext (Return dest) = (\<lambda>vs. 0)"
| "op_value ext (IntAdd out left right) = (\<lambda>vs. vs ! 0 + vs ! 1)"
| "op_value ext (IntSub out left right) = (\<lambda>vs. vs ! 0 - vs ! 1)"
| "op_value ext (IntMult out left right) = (\<lambda>vs. vs ! 0 * vs ! 1)"
| "op_value ext (IntDiv out left right) = (\<lambda>vs. if vs ! 1 = 0 then ext (shape (IntDiv out left right)) vs else vs ! 0 div vs ! 1)"
| "op_value ext (IntSDiv out left right) = (\<lambda>vs. if vs ! 1 = 0 then ext (shape (IntSDiv out left right)) vs
      else trunc_div (signed left (vs ! 0)) (signed right (vs ! 1)))"
| "op_value ext (IntRem out left right) = (\<lambda>vs. if vs ! 1 = 0 then ext (shape (IntRem out left right)) vs else vs ! 0 mod vs ! 1)"
| "op_value ext (IntSRem out left right) = (\<lambda>vs. if vs ! 1 = 0 then ext (shape (IntSRem out left right)) vs
      else trunc_rem (signed left (vs ! 0)) (signed right (vs ! 1)))"
| "op_value ext (IntNeg out input) = (\<lambda>vs. - (vs ! 0))"
| "op_value ext (IntEq out left right) = (\<lambda>vs. of_bool (vs ! 0 = vs ! 1))"
| "op_value ext (IntNotEq out left right) = (\<lambda>vs. of_bool (vs ! 0 \<noteq> vs ! 1))"
| "op_value ext (IntLess out left right) = (\<lambda>vs. of_bool (vs ! 0 < vs ! 1))"
| "op_value ext (IntLessEq out left right) = (\<lambda>vs. of_bool (vs ! 0 \<le> vs ! 1))"
| "op_value ext (IntSLess out left right) = (\<lambda>vs. of_bool (signed left (vs ! 0) < signed right (vs ! 1)))"
| "op_value ext (IntSLessEq out left right) = (\<lambda>vs. of_bool (signed left (vs ! 0) \<le> signed right (vs ! 1)))"
| "op_value ext (IntAnd out left right) = (\<lambda>vs. vs ! 0 AND vs ! 1)"
| "op_value ext (IntOr out left right) = (\<lambda>vs. vs ! 0 OR vs ! 1)"
| "op_value ext (IntXor out left right) = (\<lambda>vs. vs ! 0 XOR vs ! 1)"
| "op_value ext (IntNot out input) = (\<lambda>vs. NOT (vs ! 0))"
| "op_value ext (IntLsl out left right) = (\<lambda>vs. if vs ! 1 < int (bits out) then push_bit (nat (vs ! 1)) (vs ! 0) else 0)"
| "op_value ext (IntLsr out left right) = (\<lambda>vs. if vs ! 1 < int (bits out) then drop_bit (nat (vs ! 1)) (vs ! 0) else 0)"
| "op_value ext (IntAsr out left right) = (\<lambda>vs. if vs ! 1 < int (bits left) then drop_bit (nat (vs ! 1)) (signed left (vs ! 0))
      else - of_bool (signed left (vs ! 0) < 0))"
| "op_value ext (IntZext out input) = (\<lambda>vs. vs ! 0)"
| "op_value ext (IntSext out input) = (\<lambda>vs. signed input (vs ! 0))"
| "op_value ext (Subpiece out input lsb) = (\<lambda>vs. drop_bit (8 * unat lsb) (vs ! 0))"
| "op_value ext (IntCarry out left right) = (\<lambda>vs. of_bool (2 ^ bits left \<le> vs ! 0 + vs ! 1))"
| "op_value ext (IntSCarry out left right) = (\<lambda>vs. of_bool (signed left (vs ! 0 + vs ! 1) \<noteq> signed left (vs ! 0) + signed right (vs ! 1)))"
| "op_value ext (IntSBorrow out left right) = (\<lambda>vs. of_bool (signed left (vs ! 0 - vs ! 1) \<noteq> signed left (vs ! 0) - signed right (vs ! 1)))"
| "op_value ext (BoolAnd out left right) = (\<lambda>vs. of_bool (vs ! 0 \<noteq> 0 \<and> vs ! 1 \<noteq> 0))"
| "op_value ext (BoolOr out left right) = (\<lambda>vs. of_bool (vs ! 0 \<noteq> 0 \<or> vs ! 1 \<noteq> 0))"
| "op_value ext (BoolXor out left right) = (\<lambda>vs. of_bool ((vs ! 0 \<noteq> 0) \<noteq> (vs ! 1 \<noteq> 0)))"
| "op_value ext (BoolNot out input) = (\<lambda>vs. of_bool (vs ! 0 = 0))"
| "op_value ext (FloatAdd out left right) = (\<lambda>vs. ext (shape (FloatAdd out left right)) vs)"
| "op_value ext (FloatSub out left right) = (\<lambda>vs. ext (shape (FloatSub out left right)) vs)"
| "op_value ext (FloatMult out left right) = (\<lambda>vs. ext (shape (FloatMult out left right)) vs)"
| "op_value ext (FloatDiv out left right) = (\<lambda>vs. ext (shape (FloatDiv out left right)) vs)"
| "op_value ext (FloatNeg out input) = (\<lambda>vs. ext (shape (FloatNeg out input)) vs)"
| "op_value ext (FloatAbs out input) = (\<lambda>vs. ext (shape (FloatAbs out input)) vs)"
| "op_value ext (FloatSqrt out input) = (\<lambda>vs. ext (shape (FloatSqrt out input)) vs)"
| "op_value ext (FloatEq out left right) = (\<lambda>vs. ext (shape (FloatEq out left right)) vs)"
| "op_value ext (FloatNotEq out left right) = (\<lambda>vs. ext (shape (FloatNotEq out left right)) vs)"
| "op_value ext (FloatLess out left right) = (\<lambda>vs. ext (shape (FloatLess out left right)) vs)"
| "op_value ext (FloatLessEq out left right) = (\<lambda>vs. ext (shape (FloatLessEq out left right)) vs)"
| "op_value ext (FloatNan out input) = (\<lambda>vs. ext (shape (FloatNan out input)) vs)"
| "op_value ext (Int2Float out input) = (\<lambda>vs. ext (shape (Int2Float out input)) vs)"
| "op_value ext (Float2Float out input) = (\<lambda>vs. ext (shape (Float2Float out input)) vs)"
| "op_value ext (Trunc out input) = (\<lambda>vs. ext (shape (Trunc out input)) vs)"
| "op_value ext (FloatCeil out input) = (\<lambda>vs. ext (shape (FloatCeil out input)) vs)"
| "op_value ext (FloatFloor out input) = (\<lambda>vs. ext (shape (FloatFloor out input)) vs)"
| "op_value ext (FloatRound out input) = (\<lambda>vs. ext (shape (FloatRound out input)) vs)"
| "op_value ext (Popcount out input) = (\<lambda>vs. int (length (filter (bit (vs ! 0)) [0..<bits input])))"
| "op_value ext (Lzcount out input) = (\<lambda>vs. int (length (takeWhile (\<lambda>k. \<not> bit (vs ! 0) k) (rev [0..<bits input]))))"
| "op_value ext (CallOther out func_id inputs) = (\<lambda>vs. 0)"

text \<open>Operand sizes the reference prescribes for each operation.\<close>

primrec well_sized :: "PcodeOp \<Rightarrow> bool" where
  "well_sized (Copy out input) = (vsize input = vsize out)"
| "well_sized (Load out sp ptr) = True"
| "well_sized (Store sp ptr val) = True"
| "well_sized (Branch dest) = True"
| "well_sized (CBranch dest cond) = True"
| "well_sized (BranchInd dest) = True"
| "well_sized (Call dest) = True"
| "well_sized (CallInd dest) = True"
| "well_sized (Return dest) = True"
| "well_sized (IntAdd out left right) = (vsize left = vsize out \<and> vsize right = vsize out)"
| "well_sized (IntSub out left right) = (vsize left = vsize out \<and> vsize right = vsize out)"
| "well_sized (IntMult out left right) = (vsize left = vsize out \<and> vsize right = vsize out)"
| "well_sized (IntDiv out left right) = (vsize left = vsize out \<and> vsize right = vsize out)"
| "well_sized (IntSDiv out left right) = (vsize left = vsize out \<and> vsize right = vsize out)"
| "well_sized (IntRem out left right) = (vsize left = vsize out \<and> vsize right = vsize out)"
| "well_sized (IntSRem out left right) = (vsize left = vsize out \<and> vsize right = vsize out)"
| "well_sized (IntNeg out input) = (vsize input = vsize out)"
| "well_sized (IntEq out left right) = (vsize left = vsize right \<and> 1 \<le> vsize out)"
| "well_sized (IntNotEq out left right) = (vsize left = vsize right \<and> 1 \<le> vsize out)"
| "well_sized (IntLess out left right) = (vsize left = vsize right \<and> 1 \<le> vsize out)"
| "well_sized (IntLessEq out left right) = (vsize left = vsize right \<and> 1 \<le> vsize out)"
| "well_sized (IntSLess out left right) = (vsize left = vsize right \<and> 1 \<le> vsize out)"
| "well_sized (IntSLessEq out left right) = (vsize left = vsize right \<and> 1 \<le> vsize out)"
| "well_sized (IntAnd out left right) = (vsize left = vsize out \<and> vsize right = vsize out)"
| "well_sized (IntOr out left right) = (vsize left = vsize out \<and> vsize right = vsize out)"
| "well_sized (IntXor out left right) = (vsize left = vsize out \<and> vsize right = vsize out)"
| "well_sized (IntNot out input) = (vsize input = vsize out)"
| "well_sized (IntLsl out left right) = (vsize left = vsize out)"
| "well_sized (IntLsr out left right) = (vsize left = vsize out)"
| "well_sized (IntAsr out left right) = (vsize left = vsize out)"
| "well_sized (IntZext out input) = (vsize input \<le> vsize out)"
| "well_sized (IntSext out input) = (vsize input \<le> vsize out)"
| "well_sized (Subpiece out input lsb) = True"
| "well_sized (IntCarry out left right) = (vsize left = vsize right \<and> 1 \<le> vsize out)"
| "well_sized (IntSCarry out left right) = (vsize left = vsize right \<and> 1 \<le> vsize out)"
| "well_sized (IntSBorrow out left right) = (vsize left = vsize right \<and> 1 \<le> vsize out)"
| "well_sized (BoolAnd out left right) = (vsize left = vsize right \<and> vsize left = vsize out)"
| "well_sized (BoolOr out left right) = (vsize left = vsize right \<and> vsize left = vsize out)"
| "well_sized (BoolXor out left right) = (vsize left = vsize right \<and> vsize left = vsize out)"
| "well_sized (BoolNot out input) = (vsize input = vsize out)"
| "well_sized (FloatAdd out left right) = (vsize left = vsize out \<and> vsize right = vsize out)"
| "well_sized (FloatSub out left right) = (vsize left = vsize out \<and> vsize right = vsize out)"
| "well_sized (FloatMult out left right) = (vsize left = vsize out \<and> vsize right = vsize out)"
| "well_sized (FloatDiv out left right) = (vsize left = vsize out \<and> vsize right = vsize out)"
| "well_sized (FloatNeg out input) = (vsize input = vsize out)"
| "well_sized (FloatAbs out input) = (vsize input = vsize out)"
| "well_sized (FloatSqrt out input) = (vsize input = vsize out)"
| "well_sized (FloatEq out left right) = (vsize left = vsize right \<and> 1 \<le> vsize out)"
| "well_sized (FloatNotEq out left right) = (vsize left = vsize right \<and> 1 \<le> vsize out)"
| "well_sized (FloatLess out left right) = (vsize left = vsize right \<and> 1 \<le> vsize out)"
| "well_sized (FloatLessEq out left right) = (vsize left = vsize right \<and> 1 \<le> vsize out)"
| "well_sized (FloatNan out input) = True"
| "well_sized (Int2Float out input) = True"
| "well_sized (Float2Float out input) = True"
| "well_sized (Trunc out input) = True"
| "well_sized (FloatCeil out input) = (vsize input = vsize out)"
| "well_sized (FloatFloor out input) = (vsize input = vsize out)"
| "well_sized (FloatRound out input) = (vsize input = vsize out)"
| "well_sized (Popcount out input) = True"
| "well_sized (Lzcount out input) = True"
| "well_sized (CallOther out func_id inputs) = True"

subsection \<open>Effects and events\<close>

datatype effect =
    Assigns Varnode
  | LoadsFrom Varnode AddressSpaceId Varnode
  | StoresTo AddressSpaceId Varnode Varnode
  | UserOp "Varnode option" u64 "Varnode list"
  | Controls

primrec op_effect :: "PcodeOp \<Rightarrow> effect" where
  "op_effect (Copy out input) = Assigns out"
| "op_effect (Load out sp ptr) = LoadsFrom out sp ptr"
| "op_effect (Store sp ptr val) = StoresTo sp ptr val"
| "op_effect (Branch dest) = Controls"
| "op_effect (CBranch dest cond) = Controls"
| "op_effect (BranchInd dest) = Controls"
| "op_effect (Call dest) = Controls"
| "op_effect (CallInd dest) = Controls"
| "op_effect (Return dest) = Controls"
| "op_effect (IntAdd out left right) = Assigns out"
| "op_effect (IntSub out left right) = Assigns out"
| "op_effect (IntMult out left right) = Assigns out"
| "op_effect (IntDiv out left right) = Assigns out"
| "op_effect (IntSDiv out left right) = Assigns out"
| "op_effect (IntRem out left right) = Assigns out"
| "op_effect (IntSRem out left right) = Assigns out"
| "op_effect (IntNeg out input) = Assigns out"
| "op_effect (IntEq out left right) = Assigns out"
| "op_effect (IntNotEq out left right) = Assigns out"
| "op_effect (IntLess out left right) = Assigns out"
| "op_effect (IntLessEq out left right) = Assigns out"
| "op_effect (IntSLess out left right) = Assigns out"
| "op_effect (IntSLessEq out left right) = Assigns out"
| "op_effect (IntAnd out left right) = Assigns out"
| "op_effect (IntOr out left right) = Assigns out"
| "op_effect (IntXor out left right) = Assigns out"
| "op_effect (IntNot out input) = Assigns out"
| "op_effect (IntLsl out left right) = Assigns out"
| "op_effect (IntLsr out left right) = Assigns out"
| "op_effect (IntAsr out left right) = Assigns out"
| "op_effect (IntZext out input) = Assigns out"
| "op_effect (IntSext out input) = Assigns out"
| "op_effect (Subpiece out input lsb) = Assigns out"
| "op_effect (IntCarry out left right) = Assigns out"
| "op_effect (IntSCarry out left right) = Assigns out"
| "op_effect (IntSBorrow out left right) = Assigns out"
| "op_effect (BoolAnd out left right) = Assigns out"
| "op_effect (BoolOr out left right) = Assigns out"
| "op_effect (BoolXor out left right) = Assigns out"
| "op_effect (BoolNot out input) = Assigns out"
| "op_effect (FloatAdd out left right) = Assigns out"
| "op_effect (FloatSub out left right) = Assigns out"
| "op_effect (FloatMult out left right) = Assigns out"
| "op_effect (FloatDiv out left right) = Assigns out"
| "op_effect (FloatNeg out input) = Assigns out"
| "op_effect (FloatAbs out input) = Assigns out"
| "op_effect (FloatSqrt out input) = Assigns out"
| "op_effect (FloatEq out left right) = Assigns out"
| "op_effect (FloatNotEq out left right) = Assigns out"
| "op_effect (FloatLess out left right) = Assigns out"
| "op_effect (FloatLessEq out left right) = Assigns out"
| "op_effect (FloatNan out input) = Assigns out"
| "op_effect (Int2Float out input) = Assigns out"
| "op_effect (Float2Float out input) = Assigns out"
| "op_effect (Trunc out input) = Assigns out"
| "op_effect (FloatCeil out input) = Assigns out"
| "op_effect (FloatFloor out input) = Assigns out"
| "op_effect (FloatRound out input) = Assigns out"
| "op_effect (Popcount out input) = Assigns out"
| "op_effect (Lzcount out input) = Assigns out"
| "op_effect (CallOther out func_id inputs) = UserOp out func_id inputs"

datatype event = Control PcodeOp "int list" | User u64 "int list"

text \<open>
  What a control operation shows: direct targets by name, indirect ones by value. An
  indirect jump through a \<open>Ram\<close> varnode shows both readings the lifter uses, the
  memory slot at that address and the unique of the same offset that holds the address.
\<close>

definition ind_reads :: "Varnode \<Rightarrow> Varnode list" where
  "ind_reads dest = (if space dest = Ram then [dest, dest\<lparr>space := Unique\<rparr>] else [dest])"

definition ctl_reads :: "PcodeOp \<Rightarrow> Varnode list" where
  "ctl_reads op = (case op of
     Branch dest \<Rightarrow> []
   | CBranch dest cond \<Rightarrow> [cond]
   | BranchInd dest \<Rightarrow> ind_reads dest
   | Call dest \<Rightarrow> []
   | CallInd dest \<Rightarrow> ind_reads dest
   | Return dest \<Rightarrow> [dest]
   | _ \<Rightarrow> [])"

definition ctl_kind :: "PcodeOp \<Rightarrow> PcodeOp" where
  "ctl_kind op = (case op of
     Branch dest \<Rightarrow> Branch dest
   | CBranch dest cond \<Rightarrow> CBranch dest (erase cond)
   | BranchInd dest \<Rightarrow> BranchInd (if space dest = Ram then dest else erase dest)
   | Call dest \<Rightarrow> Call dest
   | CallInd dest \<Rightarrow> CallInd (if space dest = Ram then dest else erase dest)
   | Return dest \<Rightarrow> Return (erase dest)
   | _ \<Rightarrow> op)"

definition mem_loc :: "AddressSpaceId \<Rightarrow> int \<Rightarrow> u32 \<Rightarrow> Varnode" where
  "mem_loc sp a n = \<lparr>space = sp, offset = word_of_int a, vsize = n\<rparr>"

text \<open>
  A machine: the store and the trace. A control operation and a user operation may look
  at everything the program keeps, so the trace records each with the store it saw;
  running past a conditional branch is the fall-through.
\<close>

type_synonym 's mach = "'s \<times> (event \<times> 's) list"

definition exec_op ::
  "('s \<Rightarrow> Varnode \<Rightarrow> int) \<Rightarrow> ('s \<Rightarrow> Varnode \<Rightarrow> int \<Rightarrow> 's) \<Rightarrow>
   (PcodeOp \<Rightarrow> int list \<Rightarrow> int) \<Rightarrow> (u64 \<Rightarrow> int list \<Rightarrow> event list \<Rightarrow> int) \<Rightarrow>
   PcodeOp \<Rightarrow> 's mach \<Rightarrow> 's mach" where
  "exec_op rd wr ext usr op m = (case m of (s, tr) \<Rightarrow>
     (case op_effect op of
        Assigns out \<Rightarrow> (wr s out (op_value ext op (map (rd s) (visit_reads op))), tr)
      | LoadsFrom out sp ptr \<Rightarrow> (wr s out (rd s (mem_loc sp (rd s ptr) (vsize out))), tr)
      | StoresTo sp ptr val \<Rightarrow> (wr s (mem_loc sp (rd s ptr) (vsize val)) (rd s val), tr)
      | UserOp out f ins \<Rightarrow>
          ((case out of None \<Rightarrow> s | Some v \<Rightarrow> wr s v (usr f (map (rd s) ins) (map fst tr))),
           tr @ [(User f (map (rd s) ins), s)])
      | Controls \<Rightarrow> (s, tr @ [(Control (ctl_kind op) (map (rd s) (ctl_reads op)), s)])))"

primrec run_ops ::
  "('s \<Rightarrow> Varnode \<Rightarrow> int) \<Rightarrow> ('s \<Rightarrow> Varnode \<Rightarrow> int \<Rightarrow> 's) \<Rightarrow>
   (PcodeOp \<Rightarrow> int list \<Rightarrow> int) \<Rightarrow> (u64 \<Rightarrow> int list \<Rightarrow> event list \<Rightarrow> int) \<Rightarrow>
   PcodeOp list \<Rightarrow> 's mach \<Rightarrow> 's mach" where
  "run_ops rd wr ext usr [] m = m"
| "run_ops rd wr ext usr (op # ops) m = run_ops rd wr ext usr ops (exec_op rd wr ext usr op m)"

lemma run_ops_append [simp]:
  "run_ops rd wr ext usr (xs @ ys) m = run_ops rd wr ext usr ys (run_ops rd wr ext usr xs m)"
  by (induction xs arbitrary: m) auto

subsection \<open>The store interface\<close>

text \<open>
  Two varnodes share no byte. Offsets wrap modulo \<open>2 ^ 64\<close>, so the distance is taken
  in both directions; constants occupy no storage.
\<close>

definition vdisjoint :: "Varnode \<Rightarrow> Varnode \<Rightarrow> bool" where
  "vdisjoint v w \<longleftrightarrow> space v = Const \<or> space w = Const \<or> space v \<noteq> space w \<or> vsize v = 0 \<or> vsize w = 0 \<or>
     (uint (vsize v) \<le> uint (offset w - offset v) \<and> uint (vsize w) \<le> uint (offset v - offset w))"

lemma vdisjoint_alt:
  "vdisjoint v w \<longleftrightarrow> space v = Const \<or> space w = Const \<or> space v \<noteq> space w \<or> vsize v = 0 \<or> vsize w = 0 \<or>
     (unat (vsize v) \<le> unat (offset w - offset v) \<and> unat (vsize w) \<le> unat (offset v - offset w))"
  by (simp only: vdisjoint_def uint_nat of_nat_le_iff)

lemma vdisjoint_sym: "vdisjoint v w \<longleftrightarrow> vdisjoint w v"
  by (auto simp: vdisjoint_alt)

lemma vdisjoint_Const [simp]: "space w = Const \<Longrightarrow> vdisjoint v w"
  "space v = Const \<Longrightarrow> vdisjoint v w"
  by (auto simp: vdisjoint_alt)

lemma vdisjoint_space: "space v \<noteq> space w \<Longrightarrow> vdisjoint v w"
  by (auto simp: vdisjoint_alt)

locale varnode_store =
  fixes rd :: "'s \<Rightarrow> Varnode \<Rightarrow> int"
    and wr :: "'s \<Rightarrow> Varnode \<Rightarrow> int \<Rightarrow> 's"
  assumes rd_const: "space v = Const \<Longrightarrow> rd s v = const_val v"
    and rd_bounded: "take_bit (bits v) (rd s v) = rd s v"
    and rd_wr: "space v \<noteq> Const \<Longrightarrow> rd (wr s v x) v = take_bit (bits v) x"
    and rd_wr_disjoint: "vdisjoint v w \<Longrightarrow> rd (wr s v x) w = rd s w"
    and wr_cong: "\<lbrakk>\<And>u. vdisjoint v u \<Longrightarrow> (\<And>a. a \<in> K \<Longrightarrow> vdisjoint a u) \<Longrightarrow> rd s u = rd t u;
        take_bit (bits v) x = take_bit (bits v) y; \<And>a. a \<in> K \<Longrightarrow> vdisjoint a w\<rbrakk>
      \<Longrightarrow> rd (wr s v x) w = rd (wr t v y) w"
    and wr_id: "rd (wr s v (rd s v)) w = rd s w"

subsection \<open>The byte store\<close>

type_synonym bytes = "AddressSpaceId \<Rightarrow> u64 \<Rightarrow> u8"

primrec le_read :: "(u64 \<Rightarrow> u8) \<Rightarrow> nat \<Rightarrow> u64 \<Rightarrow> int" where
  "le_read b 0 a = 0"
| "le_read b (Suc n) a = uint (b a) + 256 * le_read b n (a + 1)"

definition byte_rd :: "bytes \<Rightarrow> Varnode \<Rightarrow> int" where
  "byte_rd b v =
     (if space v = Const then const_val v
      else le_read (b (space v)) (unat (vsize v)) (offset v))"

definition byte_wr :: "bytes \<Rightarrow> Varnode \<Rightarrow> int \<Rightarrow> bytes" where
  "byte_wr b v x = b(space v := (\<lambda>a.
     if unat (a - offset v) < unat (vsize v)
     then word_of_int (drop_bit (8 * unat (a - offset v)) x) else b (space v) a))"

subsection \<open>The byte store satisfies the interface\<close>

lemma le_read_bounds: "0 \<le> le_read b n a \<and> le_read b n a < 256 ^ n"
proof (induction n arbitrary: a)
  case 0
  show ?case by simp
next
  case (Suc n)
  have "uint (b a) < 256" "0 \<le> uint (b a)"
    using uint_lt2p[of "b a"] by simp_all
  with Suc[of "a + 1"] show ?case by simp
qed

lemma le_read_take_bit: "take_bit (8 * n) (le_read b n a) = le_read b n a"
proof -
  have "(2::int) ^ (8 * n) = 256 ^ n"
    by (simp add: power_mult)
  with le_read_bounds[of b n a] show ?thesis
    by (simp add: take_bit_int_eq_self)
qed

lemma le_read_cong:
  "(\<And>k. k < n \<Longrightarrow> b (a + of_nat k) = c (a + of_nat k)) \<Longrightarrow> le_read b n a = le_read c n a"
proof (induction n arbitrary: a)
  case 0
  show ?case by simp
next
  case (Suc n)
  have "b a = c a"
    using Suc.prems[of 0] by simp
  moreover have "le_read b n (a + 1) = le_read c n (a + 1)"
  proof (rule Suc.IH)
    fix k assume "k < n"
    then show "b (a + 1 + of_nat k) = c (a + 1 + of_nat k)"
      using Suc.prems[of "Suc k"] by (simp add: add.assoc)
  qed
  ultimately show ?case by simp
qed

lemma le_read_bytes_of:
  "(\<And>k. k < n \<Longrightarrow> b (a + of_nat k) = word_of_int (drop_bit (8 * k) x)) \<Longrightarrow>
   le_read b n a = take_bit (8 * n) x"
proof (induction n arbitrary: a x)
  case 0
  show ?case by simp
next
  case (Suc n)
  have "uint (b a) = take_bit 8 x"
    using Suc.prems[of 0] by (simp add: unsigned_of_int)
  moreover have "le_read b n (a + 1) = take_bit (8 * n) (drop_bit 8 x)"
  proof (rule Suc.IH)
    fix k assume "k < n"
    then show "b (a + 1 + of_nat k) = word_of_int (drop_bit (8 * k) (drop_bit 8 x))"
      using Suc.prems[of "Suc k"] by (simp add: ac_simps)
  qed
  moreover have "take_bit (8 * Suc n) x = take_bit 8 x + 256 * take_bit (8 * n) (drop_bit 8 x)"
    using zmod_zmult2_eq[of "2 ^ (8 * n)" x 256]
    by (simp add: take_bit_eq_mod drop_bit_eq_div power_add)
  ultimately show ?case by simp
qed

lemma byte_of_le_read:
  "k < n \<Longrightarrow> word_of_int (drop_bit (8 * k) (le_read b n a)) = b (a + of_nat k)"
proof (induction n arbitrary: a k)
  case 0
  then show ?case by simp
next
  case (Suc n)
  have byte: "take_bit 8 (uint (b a)) = uint (b a)"
    by (rule take_bit_int_eq_self) (use uint_lt2p[of "b a"] in simp_all)
  show ?case
  proof (cases k)
    case 0
    have "take_bit 8 (uint (b a) + 256 * le_read b n (a + 1)) = take_bit 8 (uint (b a))"
      using byte by (simp add: take_bit_eq_mod)
    then have "(word_of_int (uint (b a) + 256 * le_read b n (a + 1)) :: u8) = word_of_int (uint (b a))"
      by (subst word_of_int_eq_iff) (simp del: take_bit_add)
    with 0 show ?thesis by simp
  next
    case (Suc j)
    have "drop_bit 8 (uint (b a) + 256 * le_read b n (a + 1)) = le_read b n (a + 1)"
      using uint_lt2p[of "b a"] by (simp add: drop_bit_eq_div)
    then have "drop_bit (8 * k) (le_read b (Suc n) a) = drop_bit (8 * j) (le_read b n (a + 1))"
      by (metis Suc add.commute drop_bit_drop_bit le_read.simps(2) mult_Suc_right)
    with Suc.IH[of j "a + 1"] Suc.prems Suc show ?thesis
      by (simp add: add.assoc)
  qed
qed



lemma offset_in_range:
  "unat (a - (off :: u64)) < n \<longleftrightarrow> (\<exists>k < n. k < 2 ^ 64 \<and> a = off + of_nat k)"
proof
  assume "unat (a - off) < n"
  moreover have "a = off + of_nat (unat (a - off))"
    by simp
  moreover have "unat (a - off) < 2 ^ 64"
    using unsigned_less[of "a - off"] by simp
  ultimately show "\<exists>k < n. k < 2 ^ 64 \<and> a = off + of_nat k"
    by blast
next
  assume "\<exists>k < n. k < 2 ^ 64 \<and> a = off + of_nat k"
  then obtain k where "k < n" "k < 2 ^ 64" "a = off + of_nat k"
    by blast
  then show "unat (a - off) < n"
    by (simp add: unat_of_nat take_bit_nat_eq_self)
qed

lemma vsize_lt32: "unat (vsize v) < 2 ^ 32"
  using unsigned_less[where 'a=nat, of "vsize v"] by simp

lemma vsize_lt: "unat (vsize v) < 2 ^ 64"
  using vsize_lt32[of v] by simp

lemma vdisjoint_byte:
  assumes "vdisjoint v w" "space v = space w" "space v \<noteq> Const" "k < unat (vsize w)"
  shows "\<not> unat (offset w + of_nat k - offset v) < unat (vsize v)"
proof
  assume "unat (offset w + of_nat k - offset v) < unat (vsize v)"
  then obtain j where j: "j < unat (vsize v)" "offset w + of_nat k = offset v + of_nat j"
    using offset_in_range by blast
  have lt: "j < 2 ^ 32" "k < 2 ^ 32"
    using j(1) assms(4) vsize_lt32[of v] vsize_lt32[of w] by simp_all
  have d: "offset w - offset v = of_nat j - (of_nat k :: u64)"
    "offset v - offset w = of_nat k - (of_nat j :: u64)"
    using j(2) by (simp_all add: algebra_simps)
  show False
  proof (cases "k \<le> j")
    case True
    then have "unat (offset w - offset v) = j - k"
      using lt d by (simp add: unat_of_nat take_bit_nat_eq_self flip: of_nat_diff)
    then show False
      using assms j(1) True by (auto simp: vdisjoint_alt)
  next
    case False
    then have "unat (offset v - offset w) = k - j"
      using lt d by (simp add: unat_of_nat take_bit_nat_eq_self flip: of_nat_diff)
    then show False
      using assms j(1) False by (auto simp: vdisjoint_alt)
  qed
qed

text \<open>A single byte outside \<open>v\<close> is a varnode of size one.\<close>

lemma vdisjoint_single:
  assumes "sp \<noteq> space v \<or> \<not> unat (a - offset v) < unat (vsize v)" "sp \<noteq> Const"
  shows "vdisjoint v \<lparr>space = sp, offset = a, vsize = 1\<rparr>"
proof (cases "sp = space v")
  case True
  then have n: "unat (vsize v) \<le> unat (a - offset v)"
    using assms by simp
  show ?thesis
  proof (cases "a = offset v")
    case True
    then show ?thesis using n by (simp add: vdisjoint_alt unat_eq_zero)
  next
    case False
    then have "1 \<le> unat (offset v - a)"
      by (metis One_nat_def Suc_leI gr_zeroI right_minus_eq unat_eq_zero)
    with n show ?thesis by (simp add: vdisjoint_alt)
  qed
next
  case False
  then show ?thesis by (simp add: vdisjoint_alt)
qed

lemma byte_rd_wr:
  "space v \<noteq> Const \<Longrightarrow> byte_rd (byte_wr s v x) v = take_bit (bits v) x"
proof -
  assume v: "space v \<noteq> Const"
  have "le_read (byte_wr s v x (space v)) (unat (vsize v)) (offset v) = take_bit (8 * unat (vsize v)) x"
  proof (rule le_read_bytes_of)
    fix k assume "k < unat (vsize v)"
    moreover from this have "k < 2 ^ 64"
      using vsize_lt less_trans by blast
    ultimately show "byte_wr s v x (space v) (offset v + of_nat k) = word_of_int (drop_bit (8 * k) x)"
      by (simp add: byte_wr_def unat_of_nat take_bit_nat_eq_self)
  qed
  with v show ?thesis by (simp add: byte_rd_def bits_def)
qed

lemma byte_rd_wr_disjoint:
  assumes "vdisjoint v w"
  shows "byte_rd (byte_wr s v x) w = byte_rd s w"
proof (cases "space w = Const \<or> space v \<noteq> space w")
  case True
  then show ?thesis by (auto simp: byte_rd_def byte_wr_def)
next
  case False
  then have "le_read (byte_wr s v x (space w)) (unat (vsize w)) (offset w) =
      le_read (s (space w)) (unat (vsize w)) (offset w)"
    using vdisjoint_byte[OF assms] by (intro le_read_cong) (auto simp: byte_wr_def)
  with False show ?thesis by (simp add: byte_rd_def)
qed

lemma le_byte:
  "take_bit (8 * n) x = take_bit (8 * n) y \<Longrightarrow> k < n \<Longrightarrow>
   (word_of_int (drop_bit (8 * k) x) :: u8) = word_of_int (drop_bit (8 * k) y)"
proof -
  assume xy: "take_bit (8 * n) x = take_bit (8 * n) y" and k: "k < n"
  have "take_bit 8 (drop_bit (8 * k) x) = take_bit 8 (drop_bit (8 * k) y)"
  proof (rule bit_eqI)
    fix i
    show "bit (take_bit 8 (drop_bit (8 * k) x)) i = bit (take_bit 8 (drop_bit (8 * k) y)) i"
      using arg_cong[OF xy, of "\<lambda>z. bit z (8 * k + i)"] k by (auto simp: bit_simps)
  qed
  then show ?thesis by (simp add: word_of_int_eq_iff)
qed

lemma byte_wr_cong:
  assumes st: "\<And>u. vdisjoint v u \<Longrightarrow> (\<And>a. a \<in> K \<Longrightarrow> vdisjoint a u) \<Longrightarrow> byte_rd s u = byte_rd t u"
    and xy: "take_bit (bits v) x = take_bit (bits v) y" and w: "\<And>a. a \<in> K \<Longrightarrow> vdisjoint a w"
  shows "byte_rd (byte_wr s v x) w = byte_rd (byte_wr t v y) w"
proof (cases "space w = Const")
  case True
  then show ?thesis by (simp add: byte_rd_def)
next
  case False
  have "byte_wr s v x (space w) (offset w + of_nat k) = byte_wr t v y (space w) (offset w + of_nat k)"
    if k: "k < unat (vsize w)" for k
  proof (cases "space w = space v \<and> unat (offset w + of_nat k - offset v) < unat (vsize v)")
    case True
    then show ?thesis
      using le_byte[OF xy[unfolded bits_def]] by (simp add: byte_wr_def)
  next
    case False
    let ?b = "\<lparr>space = space w, offset = offset w + of_nat k, vsize = 1\<rparr> :: Varnode"
    have "vdisjoint a ?b" if "a \<in> K" for a
    proof (cases "space a = space w")
      case True
      then show ?thesis
        using vdisjoint_byte[OF w[OF that] True _ k] \<open>space w \<noteq> Const\<close>
        by (intro vdisjoint_single) auto
    qed (simp add: vdisjoint_alt)
    moreover have "vdisjoint v ?b"
      using False \<open>space w \<noteq> Const\<close> by (intro vdisjoint_single) auto
    ultimately have "byte_rd s ?b = byte_rd t ?b"
      by (intro st) auto
    then have "s (space w) (offset w + of_nat k) = t (space w) (offset w + of_nat k)"
      using \<open>space w \<noteq> Const\<close> by (simp add: byte_rd_def word_uint_eq_iff)
    with False show ?thesis by (auto simp: byte_wr_def)
  qed
  with False show ?thesis by (simp add: byte_rd_def cong: le_read_cong)
qed

lemma byte_wr_id: "byte_rd (byte_wr s v (byte_rd s v)) w = byte_rd s w"
proof -
  have "byte_wr s v (byte_rd s v) sp a = s sp a" if "sp \<noteq> Const" for sp a
    using that by (auto simp: byte_wr_def byte_rd_def byte_of_le_read)
  then show ?thesis by (simp add: byte_rd_def cong: le_read_cong)
qed

interpretation byte: varnode_store byte_rd byte_wr
proof
  show "take_bit (bits v) (byte_rd s v) = byte_rd s v" for s v
    by (simp add: byte_rd_def const_val_def le_read_take_bit bits_def)
  show "byte_rd s v = const_val v" if "space v = Const" for s v
    using that by (simp add: byte_rd_def)
  show "byte_rd (byte_wr s v x) w = byte_rd (byte_wr t v y) w"
    if "\<And>u. vdisjoint v u \<Longrightarrow> (\<And>a. a \<in> K \<Longrightarrow> vdisjoint a u) \<Longrightarrow> byte_rd s u = byte_rd t u"
      "take_bit (bits v) x = take_bit (bits v) y" "\<And>a. a \<in> K \<Longrightarrow> vdisjoint a w"
    for K s t v w x y
    using that by (rule byte_wr_cong)
qed (simp_all add: byte_rd_wr byte_rd_wr_disjoint byte_wr_id)

end
