(* ===== verification/PcodeFold.thy ===== *)
theory PcodeFold
  imports PcodeSem
begin

text \<open>
  The constant folder of \<^verbatim>\<open>pcode-ir/src/lib.rs\<close>: masks and sign extension on
  \<open>u64\<close>-backed constants, \<open>const_fold_op\<close>, and the per-operation part of the
  peephole pass (passes 0, 1 and 1b of \<open>optimize_once\<close>). The lemmas show that a fold
  computes what the reference semantics prescribes and that every operation these passes
  rewrite keeps its effect on every store.
\<close>

subsection \<open>Masks and widths\<close>

definition all_ones_mask :: "u32 \<Rightarrow> u64" where
  "all_ones_mask size_bytes =
     (let b = saturating_mul_u32 size_bytes 8
      in if 64 \<le> b then 0xFFFFFFFFFFFFFFFF
         else shr64 0xFFFFFFFFFFFFFFFF (unat (64 - b)))"

definition mask_to_size :: "u64 \<Rightarrow> u32 \<Rightarrow> u64" where
  "mask_to_size value size_bytes = value AND all_ones_mask size_bytes"

definition bits_for_size :: "u32 \<Rightarrow> u32" where
  "bits_for_size size_bytes = saturating_mul_u32 size_bytes 8"

definition foldable_width :: "u32 \<Rightarrow> bool" where
  "foldable_width size_bytes \<longleftrightarrow> 1 \<le> size_bytes \<and> size_bytes \<le> 8"

text \<open>The \<open>i64\<close> result as its bit pattern; comparisons read it with \<open>sint\<close>.\<close>

definition signed_value :: "u64 \<Rightarrow> u32 \<Rightarrow> u64" where
  "signed_value value size_bytes =
     (let b = bits_for_size size_bytes
      in if 64 \<le> b then value
         else let shift = 64 - b in sar64 (shl64 value (unat shift)) (unat shift))"

definition sign_extend_to_size :: "u64 \<Rightarrow> u32 \<Rightarrow> u32 \<Rightarrow> u64" where
  "sign_extend_to_size value input_size output_size =
     (if \<not> foldable_width input_size \<or> \<not> foldable_width output_size then value
      else mask_to_size (signed_value value input_size) output_size)"

subsection \<open>Folding one operation\<close>

definition fold_unary_const ::
  "Varnode \<Rightarrow> Varnode \<Rightarrow> (u64 \<Rightarrow> u32 \<Rightarrow> u64) \<Rightarrow> (Varnode \<times> u64) option" where
  "fold_unary_const out input f =
     (if \<not> foldable_width (vsize out) \<or> \<not> foldable_width (vsize input) then None
      else Some (out, mask_to_size
        (f (mask_to_size (offset input) (vsize input)) (vsize input)) (vsize out)))"

definition fold_binary_const ::
  "Varnode \<Rightarrow> Varnode \<Rightarrow> Varnode \<Rightarrow> (u64 \<Rightarrow> u64 \<Rightarrow> u32 \<Rightarrow> u64) \<Rightarrow> (Varnode \<times> u64) option" where
  "fold_binary_const out left right f =
     (if \<not> foldable_width (vsize out) \<or> \<not> foldable_width (vsize left) \<or> \<not> foldable_width (vsize right)
      then None
      else let sz = max (vsize left) (vsize right);
               value = f (mask_to_size (offset left) (vsize left))
                         (mask_to_size (offset right) (vsize right)) sz
           in Some (out, mask_to_size value (vsize out)))"

definition fold_shift_const ::
  "Varnode \<Rightarrow> Varnode \<Rightarrow> Varnode \<Rightarrow> (u64 \<Rightarrow> u32 \<Rightarrow> u32 \<Rightarrow> u64) \<Rightarrow> (Varnode \<times> u64) option" where
  "fold_shift_const out left right f =
     (if \<not> foldable_width (vsize out) \<or> \<not> foldable_width (vsize left) \<or> \<not> foldable_width (vsize right)
      then None
      else let shift = ucast (min (offset right) 0xFFFFFFFF)
           in Some (out, mask_to_size
                (f (mask_to_size (offset left) (vsize left)) shift (vsize left)) (vsize out)))"

definition fold_compare_const ::
  "Varnode \<Rightarrow> Varnode \<Rightarrow> Varnode \<Rightarrow> (u64 \<Rightarrow> u64 \<Rightarrow> u32 \<Rightarrow> bool) \<Rightarrow> (Varnode \<times> u64) option" where
  "fold_compare_const out left right f =
     (if \<not> foldable_width (vsize out) \<or> \<not> foldable_width (vsize left) \<or> \<not> foldable_width (vsize right)
      then None
      else let sz = max (vsize left) (vsize right);
               result = f (mask_to_size (offset left) (vsize left))
                          (mask_to_size (offset right) (vsize right)) sz
           in Some (out, of_bool result))"

primrec const_fold_op :: "PcodeOp \<Rightarrow> (Varnode \<times> u64) option" where
  "const_fold_op (Copy out input) = None"
| "const_fold_op (Load out sp ptr) = None"
| "const_fold_op (Store sp ptr val) = None"
| "const_fold_op (Branch dest) = None"
| "const_fold_op (CBranch dest cond) = None"
| "const_fold_op (BranchInd dest) = None"
| "const_fold_op (Call dest) = None"
| "const_fold_op (CallInd dest) = None"
| "const_fold_op (Return dest) = None"
| "const_fold_op (IntAdd out left right) = (if space left = Const \<and> space right = Const
     then fold_binary_const out left right (\<lambda>a b sz. (a + b) AND all_ones_mask sz) else None)"
| "const_fold_op (IntSub out left right) = (if space left = Const \<and> space right = Const
     then fold_binary_const out left right (\<lambda>a b sz. (a - b) AND all_ones_mask sz) else None)"
| "const_fold_op (IntMult out left right) = (if space left = Const \<and> space right = Const
     then fold_binary_const out left right (\<lambda>a b sz. (a * b) AND all_ones_mask sz) else None)"
| "const_fold_op (IntDiv out left right) = None"
| "const_fold_op (IntSDiv out left right) = None"
| "const_fold_op (IntRem out left right) = None"
| "const_fold_op (IntSRem out left right) = None"
| "const_fold_op (IntNeg out input) = (if space input = Const
     then fold_unary_const out input (\<lambda>value sz. - value AND all_ones_mask sz) else None)"
| "const_fold_op (IntEq out left right) = (if space left = Const \<and> space right = Const
     then fold_compare_const out left right (\<lambda>a b _. a = b) else None)"
| "const_fold_op (IntNotEq out left right) = (if space left = Const \<and> space right = Const
     then fold_compare_const out left right (\<lambda>a b _. a \<noteq> b) else None)"
| "const_fold_op (IntLess out left right) = (if space left = Const \<and> space right = Const
     then fold_compare_const out left right (\<lambda>a b _. a < b) else None)"
| "const_fold_op (IntLessEq out left right) = (if space left = Const \<and> space right = Const
     then fold_compare_const out left right (\<lambda>a b _. a \<le> b) else None)"
| "const_fold_op (IntSLess out left right) = (if space left = Const \<and> space right = Const
     then fold_compare_const out left right (\<lambda>a b sz.
       sint (signed_value a sz) < sint (signed_value b sz)) else None)"
| "const_fold_op (IntSLessEq out left right) = (if space left = Const \<and> space right = Const
     then fold_compare_const out left right (\<lambda>a b sz.
       sint (signed_value a sz) \<le> sint (signed_value b sz)) else None)"
| "const_fold_op (IntAnd out left right) = (if space left = Const \<and> space right = Const
     then fold_binary_const out left right (\<lambda>a b sz. (a AND b) AND all_ones_mask sz) else None)"
| "const_fold_op (IntOr out left right) = (if space left = Const \<and> space right = Const
     then fold_binary_const out left right (\<lambda>a b sz. (a OR b) AND all_ones_mask sz) else None)"
| "const_fold_op (IntXor out left right) = (if space left = Const \<and> space right = Const
     then fold_binary_const out left right (\<lambda>a b sz. (a XOR b) AND all_ones_mask sz) else None)"
| "const_fold_op (IntNot out input) = (if space input = Const
     then fold_unary_const out input (\<lambda>value sz. NOT value AND all_ones_mask sz) else None)"
| "const_fold_op (IntLsl out left right) = (if space left = Const \<and> space right = Const
     then fold_shift_const out left right (\<lambda>value shift sz.
       if bits_for_size sz \<le> shift then 0 else shl64 value (unat shift) AND all_ones_mask sz) else None)"
| "const_fold_op (IntLsr out left right) = (if space left = Const \<and> space right = Const
     then fold_shift_const out left right (\<lambda>value shift sz.
       if bits_for_size sz \<le> shift then 0 else shr64 value (unat shift) AND all_ones_mask sz) else None)"
| "const_fold_op (IntAsr out left right) = (if space left = Const \<and> space right = Const
     then fold_shift_const out left right (\<lambda>value shift sz.
       if bits_for_size sz \<le> shift
       then of_bool (sint (signed_value value sz) < 0) * all_ones_mask sz
       else mask_to_size (sar64 (signed_value value sz) (unat shift)) sz) else None)"
| "const_fold_op (IntZext out input) = (if space input = Const then fold_unary_const out input (\<lambda>value _. value) else None)"
| "const_fold_op (IntSext out input) = (if space input = Const then
       if foldable_width (vsize input) \<and> foldable_width (vsize out)
       then Some (out, sign_extend_to_size (offset input) (vsize input) (vsize out)) else None
     else None)"
| "const_fold_op (Subpiece out input lsb) = None"
| "const_fold_op (IntCarry out left right) = None"
| "const_fold_op (IntSCarry out left right) = None"
| "const_fold_op (IntSBorrow out left right) = None"
| "const_fold_op (BoolAnd out left right) = (if space left = Const \<and> space right = Const
     then fold_binary_const out left right (\<lambda>a b _. of_bool (a \<noteq> 0 \<and> b \<noteq> 0)) else None)"
| "const_fold_op (BoolOr out left right) = (if space left = Const \<and> space right = Const
     then fold_binary_const out left right (\<lambda>a b _. of_bool (a \<noteq> 0 \<or> b \<noteq> 0)) else None)"
| "const_fold_op (BoolXor out left right) = (if space left = Const \<and> space right = Const
     then fold_binary_const out left right (\<lambda>a b _. of_bool ((a \<noteq> 0) \<noteq> (b \<noteq> 0))) else None)"
| "const_fold_op (BoolNot out input) = (if space input = Const
     then fold_unary_const out input (\<lambda>value _. of_bool (value = 0)) else None)"
| "const_fold_op (FloatAdd out left right) = None"
| "const_fold_op (FloatSub out left right) = None"
| "const_fold_op (FloatMult out left right) = None"
| "const_fold_op (FloatDiv out left right) = None"
| "const_fold_op (FloatNeg out input) = None"
| "const_fold_op (FloatAbs out input) = None"
| "const_fold_op (FloatSqrt out input) = None"
| "const_fold_op (FloatEq out left right) = None"
| "const_fold_op (FloatNotEq out left right) = None"
| "const_fold_op (FloatLess out left right) = None"
| "const_fold_op (FloatLessEq out left right) = None"
| "const_fold_op (FloatNan out input) = None"
| "const_fold_op (Int2Float out input) = None"
| "const_fold_op (Float2Float out input) = None"
| "const_fold_op (Trunc out input) = None"
| "const_fold_op (FloatCeil out input) = None"
| "const_fold_op (FloatFloor out input) = None"
| "const_fold_op (FloatRound out input) = None"
| "const_fold_op (Popcount out input) = None"
| "const_fold_op (Lzcount out input) = None"
| "const_fold_op (CallOther out func_id inputs) = None"

subsection \<open>Passes 0, 1 and 1b: one operation at a time\<close>

text \<open>The match that pass 0 falls through to when nothing was folded.\<close>

definition pass0_match :: "PcodeOp \<Rightarrow> PcodeOp" where
  "pass0_match op = (case op of
     IntZext out input \<Rightarrow>
       if space input = Const
       then Copy out (constant_vn (mask_to_size (offset input) (vsize out)) (vsize out)) else op
   | IntSext out input \<Rightarrow>
       if space input = Const
       then Copy out (constant_vn (sign_extend_to_size (offset input) (vsize input) (vsize out)) (vsize out))
       else op
   | IntLsr out left right \<Rightarrow> if space right = Const \<and> offset right = 0 then Copy out left else op
   | IntLsl out left right \<Rightarrow> if space right = Const \<and> offset right = 0 then Copy out left else op
   | IntAsr out left right \<Rightarrow> if space right = Const \<and> offset right = 0 then Copy out left else op
   | IntOr out left right \<Rightarrow>
       if space right = Const \<and> offset right = 0 then Copy out left
       else if space left = Const \<and> offset left = 0 then Copy out right else op
   | IntAnd out left right \<Rightarrow>
       if space right = Const \<and> offset right = all_ones_mask (vsize out) then Copy out left else op
   | _ \<Rightarrow> op)"

definition pass0_op :: "PcodeOp \<Rightarrow> PcodeOp" where
  "pass0_op op = (case const_fold_op op of
     Some (out, value) \<Rightarrow> Copy out (constant_vn value (vsize out))
   | None \<Rightarrow> pass0_match op)"

definition pass1_op :: "PcodeOp \<Rightarrow> PcodeOp" where
  "pass1_op op = (case op of
     Subpiece out input lsb \<Rightarrow> if lsb = 0 \<and> vsize out = vsize input then Copy out input else op
   | _ \<Rightarrow> op)"

definition pass1b_op :: "PcodeOp \<Rightarrow> PcodeOp" where
  "pass1b_op op = (case op of
     Subpiece out input lsb \<Rightarrow>
       if lsb = 0 \<and> space input = Const \<and> vsize out < vsize input
       then let mask = (if 8 \<le> vsize out then 0xFFFFFFFFFFFFFFFF
                        else shl64 1 (unat (vsize out) * 8) - 1)
            in Copy out (constant_vn (offset input AND mask) (vsize out))
       else op
   | _ \<Rightarrow> op)"

subsection \<open>Masks are truncation\<close>

lemma foldable_width_unat: "foldable_width sz \<longleftrightarrow> 1 \<le> unat sz \<and> unat sz \<le> 8"
  by (simp add: foldable_width_def word_le_nat_alt)

lemma unat_bits_for_size: "unat (bits_for_size sz) = min (8 * unat sz) (2 ^ 32 - 1)"
  by (simp add: bits_for_size_def unat_saturating_mul_u32 mult.commute)

lemma bits_for_size_64:
  "64 \<le> bits_for_size sz \<longleftrightarrow> 8 \<le> unat sz"
  "unat sz < 8 \<Longrightarrow> unat (64 - bits_for_size sz) = 64 - 8 * unat sz"
  by (simp_all add: word_le_nat_alt unat_bits_for_size unat_sub_if')

lemma all_ones_mask_eq:
  assumes "sz \<noteq> 0"
  shows "all_ones_mask sz = mask (8 * unat sz)"
proof -
  have n: "1 \<le> unat sz"
    using assms by (simp add: Suc_le_eq unat_gt_0)
  have full: "(0xFFFFFFFFFFFFFFFF :: u64) = mask 64"
    by (simp add: mask_eq_exp_minus_1)
  show ?thesis
  proof (cases "unat sz < 8")
    case True
    then have "all_ones_mask sz = drop_bit (64 - 8 * unat sz) (mask 64 :: u64)"
      using n by (simp add: all_ones_mask_def Let_def shr64_def full bits_for_size_64 flip: bits_for_size_def)
    moreover have "drop_bit (64 - 8 * unat sz) (mask 64 :: u64) = mask (8 * unat sz)"
      using True by (intro bit_word_eqI) (auto simp: bit_simps)
    ultimately show ?thesis by simp
  next
    case False
    then have "all_ones_mask sz = mask 64"
      by (simp add: all_ones_mask_def Let_def full bits_for_size_64 flip: bits_for_size_def)
    moreover have "(mask (8 * unat sz) :: u64) = mask 64"
      using False by (intro bit_word_eqI) (simp add: bit_mask_iff)
    ultimately show ?thesis by simp
  qed
qed

lemma uint_and_mask: "uint ((w :: u64) AND mask n) = take_bit n (uint w)"
  by (metis take_bit_eq_mask unsigned_take_bit_eq)

lemma uint_and_all_ones:
  "sz \<noteq> 0 \<Longrightarrow> uint (w AND all_ones_mask sz) = take_bit (8 * unat sz) (uint w)"
  by (simp add: all_ones_mask_eq uint_and_mask)

lemma uint_mask_to_size:
  "sz \<noteq> 0 \<Longrightarrow> uint (mask_to_size w sz) = take_bit (8 * unat sz) (uint w)"
  by (simp add: mask_to_size_def uint_and_all_ones)

lemma u64_rels:
  fixes a b :: u64
  shows "a = b \<longleftrightarrow> uint a = uint b" "a < b \<longleftrightarrow> uint a < uint b" "a \<le> b \<longleftrightarrow> uint a \<le> uint b"
  by (simp_all add: word_uint_eq_iff word_less_def word_le_def)

lemma uint_u64_ariths:
  fixes a b :: u64
  shows "uint (a + b) = take_bit 64 (uint a + uint b)"
    "uint (a - b) = take_bit 64 (uint a - uint b)"
    "uint (a * b) = take_bit 64 (uint a * uint b)"
    "uint (- a) = take_bit 64 (- uint a)"
    "uint (NOT a) = take_bit 64 (NOT (uint a))"
  by (simp_all add: uint_word_ariths take_bit_eq_mod unsigned_not_eq)

lemma take_bit_uint64: "take_bit 64 (uint (a :: u64)) = uint a"
  by (rule take_bit_int_eq_self) (use uint_lt2p[of a] in simp_all)

lemma sint_signed_value:
  assumes "foldable_width sz"
  shows "sint (signed_value w sz) = signed_take_bit (8 * unat sz - 1) (uint w)"
proof (cases "unat sz = 8")
  case True
  then show ?thesis
    by (simp add: signed_value_def Let_def bits_for_size_64 sint_uint)
next
  case False
  define s where "s = 64 - 8 * unat sz"
  have n: "1 \<le> unat sz" "unat sz < 8"
    using assms False by (auto simp: foldable_width_unat)
  then have s: "0 < s" "s < 64" "63 - s = 8 * unat sz - 1"
    by (auto simp: s_def)
  have "signed_value w sz = signed_drop_bit s (push_bit s w)"
    using n s by (simp add: signed_value_def Let_def bits_for_size_64 sar64_def shl64_def s_def)
  then have "sint (signed_value w sz) = drop_bit s (sint (push_bit s w))"
    by (simp add: sint_signed_drop_bit_eq)
  also have "sint (push_bit s w) = signed_take_bit 63 (uint (push_bit s w))"
    by (simp add: sint_uint)
  also have "uint (push_bit s w) = take_bit 64 (push_bit s (uint w))"
    by (simp add: unsigned_push_bit_eq)
  also have "drop_bit s (signed_take_bit 63 (take_bit 64 (push_bit s (uint w)))) = signed_take_bit (63 - s) (uint w)"
    using s by (intro bit_eqI) (auto simp: bit_simps min_def)
  finally show ?thesis using s by simp
qed

subsection \<open>A fold computes the reference value\<close>

text \<open>Constants whose offset fits their size, as the lifter emits them.\<close>

definition canonical :: "Varnode \<Rightarrow> bool" where
  "canonical v \<longleftrightarrow> (space v = Const \<longrightarrow> uint (offset v) < 2 ^ bits v)"

lemma canonical_const_val: "space v = Const \<Longrightarrow> canonical v \<Longrightarrow> const_val v = uint (offset v)"
  by (simp add: canonical_def const_val_def take_bit_int_eq_self)

lemma foldable_bits: "foldable_width (vsize v) \<Longrightarrow> 8 \<le> bits v \<and> bits v \<le> 64 \<and> vsize v \<noteq> 0"
  by (auto simp: foldable_width_unat bits_def)

lemma uint_mask_const: "vsize v \<noteq> 0 \<Longrightarrow> uint (mask_to_size (offset v) (vsize v)) = const_val v"
  by (simp add: uint_mask_to_size const_val_def bits_def)

lemma uint_mask_out: "vsize v \<noteq> 0 \<Longrightarrow> uint (mask_to_size w (vsize v)) = take_bit (bits v) (uint w)"
  by (simp add: uint_mask_to_size bits_def)

lemma uint_and_all_ones_bits: "vsize v \<noteq> 0 \<Longrightarrow> uint (w AND all_ones_mask (vsize v)) = take_bit (bits v) (uint w)"
  by (simp add: uint_and_all_ones bits_def)

lemma sint_signed_const:
  "foldable_width (vsize v) \<Longrightarrow> sint (signed_value (mask_to_size (offset v) (vsize v)) (vsize v)) = signed v (const_val v)"
  by (simp add: sint_signed_value uint_mask_const foldable_bits signed_def bits_def)

lemma take_bit_of_bool: "0 < n \<Longrightarrow> take_bit n (of_bool b :: int) = of_bool b"
  by (cases n) simp_all

lemma fold_binary_value:
  assumes "fold_binary_const out left right f = Some (o', v)" "vsize left = vsize out" "vsize right = vsize out"
  obtains a b where "o' = out" "foldable_width (vsize out)" "vsize out \<noteq> 0"
    "uint a = const_val left" "uint b = const_val right"
    "uint v = take_bit (bits out) (uint (f a b (vsize out)))"
proof (rule that[of "mask_to_size (offset left) (vsize left)" "mask_to_size (offset right) (vsize right)"])
qed (use assms foldable_bits[of out] in
  \<open>auto simp: fold_binary_const_def Let_def uint_mask_to_size const_val_def bits_def split: if_splits\<close>)

lemma fold_unary_value:
  assumes "fold_unary_const out input f = Some (o', v)"
  obtains a where "o' = out" "foldable_width (vsize out)" "foldable_width (vsize input)"
    "uint a = const_val input" "uint v = take_bit (bits out) (uint (f a (vsize input)))"
proof (rule that[of "mask_to_size (offset input) (vsize input)"])
qed (use assms foldable_bits[of out] foldable_bits[of input] in
  \<open>auto simp: fold_unary_const_def uint_mask_to_size const_val_def bits_def split: if_splits\<close>)

lemma fold_compare_value:
  assumes "fold_compare_const out left right f = Some (o', v)" "vsize left = vsize right"
  obtains a b where "o' = out" "foldable_width (vsize right)"
    "uint a = const_val left" "uint b = const_val right"
    "uint v = take_bit (bits out) (of_bool (f a b (vsize right)))"
proof (rule that[of "mask_to_size (offset left) (vsize left)" "mask_to_size (offset right) (vsize right)"])
qed (use assms foldable_bits[of out] foldable_bits[of right] in
  \<open>auto simp: fold_compare_const_def Let_def uint_mask_to_size const_val_def bits_def take_bit_of_bool split: if_splits\<close>)

text \<open>The shift amount is clamped to \<open>u32::MAX\<close>, which is past every foldable width.\<close>

lemma shift_amount:
  assumes "canonical right" "space right = Const"
  shows "unat (ucast (min (offset right) 0xFFFFFFFF) :: u32) = min (nat (const_val right)) (2 ^ 32 - 1)"
proof -
  have "unat (ucast (min (offset right) 0xFFFFFFFF) :: u32) = unat (min (offset right) 0xFFFFFFFF)"
    by (simp add: unsigned_ucast_eq take_bit_nat_eq_self min_def word_le_nat_alt)
  also have "\<dots> = min (unat (offset right)) (2 ^ 32 - 1)"
    by (simp add: min_def word_le_nat_alt)
  finally show ?thesis
    using canonical_const_val[OF assms(2,1)] by simp
qed

lemma fold_shift_value:
  "fold_shift_const out left right f = Some (o', v) \<Longrightarrow> vsize left = vsize out \<Longrightarrow>
   o' = out \<and> foldable_width (vsize out) \<and> uint v = take_bit (bits out)
     (uint (f (mask_to_size (offset left) (vsize left)) (ucast (min (offset right) 0xFFFFFFFF)) (vsize left)))"
  using foldable_bits[of out]
  by (auto simp: fold_shift_const_def Let_def uint_mask_out split: if_splits)

lemma unat_less_shift:
  "foldable_width sz \<Longrightarrow> unat k = min n (2 ^ 32 - 1) \<Longrightarrow> bits_for_size sz \<le> k \<longleftrightarrow> 8 * unat sz \<le> n"
  by (auto simp: word_le_nat_alt unat_bits_for_size foldable_width_unat)

definition shift_fits :: "PcodeOp \<Rightarrow> bool" where
  "shift_fits op = (case op of
     IntLsl out left right \<Rightarrow> canonical right
   | IntLsr out left right \<Rightarrow> canonical right
   | IntAsr out left right \<Rightarrow> canonical right
   | _ \<Rightarrow> True)"

definition fold_ok :: "PcodeOp \<Rightarrow> bool" where
  "fold_ok op \<longleftrightarrow> well_sized op \<and> shift_fits op"

lemma const_val_nonneg [simp]: "0 \<le> const_val v"
  by (simp add: const_val_def)

lemma const_val_less: "const_val v < 2 ^ bits v"
  by (simp add: const_val_def take_bit_int_less_exp)

lemma bin_arith_fold:
  fixes a b :: u64
  assumes "foldable_width (vsize v)"
  shows "take_bit (bits v) (uint ((a + b) AND all_ones_mask (vsize v))) = take_bit (bits v) (uint a + uint b)"
    "take_bit (bits v) (uint ((a - b) AND all_ones_mask (vsize v))) = take_bit (bits v) (uint a - uint b)"
    "take_bit (bits v) (uint ((a * b) AND all_ones_mask (vsize v))) = take_bit (bits v) (uint a * uint b)"
    "take_bit (bits v) (uint ((a AND b) AND all_ones_mask (vsize v))) = take_bit (bits v) (uint a AND uint b)"
    "take_bit (bits v) (uint ((a OR b) AND all_ones_mask (vsize v))) = take_bit (bits v) (uint a OR uint b)"
    "take_bit (bits v) (uint ((a XOR b) AND all_ones_mask (vsize v))) = take_bit (bits v) (uint a XOR uint b)"
    "take_bit (bits v) (uint (- a AND all_ones_mask (vsize v))) = take_bit (bits v) (- uint a)"
    "take_bit (bits v) (uint (NOT a AND all_ones_mask (vsize v))) = take_bit (bits v) (NOT (uint a))"
  unfolding uint_and_all_ones_bits[OF foldable_bits[OF assms, THEN conjunct2, THEN conjunct2]]
  using foldable_bits[OF assms]
  by (simp_all add: uint_u64_ariths min_def unsigned_or_eq unsigned_and_eq unsigned_xor_eq)

lemma lsl_fold:
  fixes left right out :: Varnode
  assumes w: "foldable_width (vsize left)" "vsize left = vsize out"
    and k: "unat k = min (nat (const_val right)) (2 ^ 32 - 1)"
  shows "take_bit (bits out) (uint (if bits_for_size (vsize left) \<le> k then 0
       else shl64 a (unat k) AND all_ones_mask (vsize left))) =
     take_bit (bits out) (if const_val right < int (bits out) then push_bit (nat (const_val right)) (uint a) else 0)"
proof (cases "const_val right < int (bits out)")
  case True
  have b: "bits left = bits out" "bits out \<le> 64" "vsize left \<noteq> 0"
    using w foldable_bits[of left] by (auto simp: bits_def)
  have "nat (const_val right) < bits out"
    using True by (simp add: nat_less_iff)
  then have lt: "unat k = nat (const_val right)" "unat k < 64" "\<not> bits_for_size (vsize left) \<le> k"
    using k b unat_less_shift[OF w(1) k] w(2) by (auto simp: bits_def)
  then show ?thesis
    using True b uint_and_all_ones_bits[OF b(3), of "push_bit (unat k) a"]
    by (simp add: shl64_def unsigned_push_bit_eq min_def)
next
  case False
  then have "bits_for_size (vsize left) \<le> k"
    using unat_less_shift[OF w(1) k] w(2) by (simp add: bits_def le_nat_iff)
  with False show ?thesis by simp
qed

lemma lsr_fold:
  fixes left right out :: Varnode
  assumes w: "foldable_width (vsize left)" "vsize left = vsize out"
    and k: "unat k = min (nat (const_val right)) (2 ^ 32 - 1)"
  shows "take_bit (bits out) (uint (if bits_for_size (vsize left) \<le> k then 0
       else shr64 a (unat k) AND all_ones_mask (vsize left))) =
     take_bit (bits out) (if const_val right < int (bits out) then drop_bit (nat (const_val right)) (uint a) else 0)"
proof (cases "const_val right < int (bits out)")
  case True
  have b: "bits left = bits out" "bits out \<le> 64" "vsize left \<noteq> 0"
    using w foldable_bits[of left] by (auto simp: bits_def)
  have "nat (const_val right) < bits out"
    using True by (simp add: nat_less_iff)
  then have lt: "unat k = nat (const_val right)" "unat k < 64" "\<not> bits_for_size (vsize left) \<le> k"
    using k b unat_less_shift[OF w(1) k] w(2) by (auto simp: bits_def)
  then show ?thesis
    using True b uint_and_all_ones_bits[OF b(3), of "drop_bit (unat k) a"]
    by (simp add: shr64_def unsigned_drop_bit_eq min_def take_bit_uint64)
next
  case False
  then have "bits_for_size (vsize left) \<le> k"
    using unat_less_shift[OF w(1) k] w(2) by (simp add: bits_def le_nat_iff)
  with False show ?thesis by simp
qed

lemma asr_fold:
  fixes left right out :: Varnode
  assumes w: "foldable_width (vsize left)" "vsize left = vsize out"
    and k: "unat k = min (nat (const_val right)) (2 ^ 32 - 1)"
    and a: "a = mask_to_size (offset left) (vsize left)"
  shows "take_bit (bits out) (uint (if bits_for_size (vsize left) \<le> k
       then of_bool (sint (signed_value a (vsize left)) < 0) * all_ones_mask (vsize left)
       else mask_to_size (sar64 (signed_value a (vsize left)) (unat k)) (vsize left))) =
     take_bit (bits out) (if const_val right < int (bits left)
       then drop_bit (nat (const_val right)) (signed left (const_val left))
       else - of_bool (signed left (const_val left) < 0))"
proof -
  have b: "bits left = bits out" "bits out \<le> 64" "vsize left \<noteq> 0"
    using w foldable_bits[of left] by (auto simp: bits_def)
  have sv: "sint (signed_value a (vsize left)) = signed left (const_val left)"
    using sint_signed_const[OF w(1)] a by simp
  show ?thesis
  proof (cases "const_val right < int (bits left)")
    case True
    then have "nat (const_val right) < bits out"
      using b by (simp add: nat_less_iff)
    then have lt: "unat k = nat (const_val right)" "unat k < 64" "\<not> bits_for_size (vsize left) \<le> k"
      using k b unat_less_shift[OF w(1) k] w(2) by (auto simp: bits_def)
    have "uint (signed_drop_bit (unat k) (signed_value a (vsize left))) =
        take_bit 64 (drop_bit (unat k) (signed left (const_val left)))"
      using sv uint_sint[of "signed_drop_bit (unat k) (signed_value a (vsize left))"]
      by (simp add: sint_signed_drop_bit_eq)
    then show ?thesis
      using True lt b uint_mask_out[of left]
      by (simp add: sar64_def min_def)
  next
    case False
    then have ge: "bits_for_size (vsize left) \<le> k"
      using unat_less_shift[OF w(1) k] w(2) b by (simp add: bits_def le_nat_iff)
    have "uint (all_ones_mask (vsize left)) = take_bit (bits out) (uint (- 1 :: u64))"
      using uint_and_all_ones_bits[OF b(3), of "- 1"] b(1) by simp
    also have "\<dots> = take_bit (bits out) (- 1)"
      using b(2) by (intro bit_eqI) (auto simp: bit_simps)
    finally have "uint (all_ones_mask (vsize left)) = take_bit (bits out) (- 1)" .
    with False ge sv b show ?thesis by simp
  qed
qed

definition folds_to :: "(PcodeOp \<Rightarrow> int list \<Rightarrow> int) \<Rightarrow> PcodeOp \<Rightarrow> Varnode \<Rightarrow> u64 \<Rightarrow> bool" where
  "folds_to ext op out v \<longleftrightarrow> get_output op = Some out \<and> op_effect op = Assigns out \<and>
    (\<forall>u \<in> set (visit_reads op). space u = Const) \<and>
    uint v = take_bit (bits out) (op_value ext op (map const_val (visit_reads op)))"

lemma fold_binary_cases:
  assumes "const_fold_op op = Some (out, v)" "fold_ok op"
    "op \<in> {IntAdd a b c, IntSub a b c, IntMult a b c, IntAnd a b c, IntOr a b c, IntXor a b c}"
  shows "folds_to ext op out v"
  using assms
  by (elim insertE emptyE)
    (auto simp: folds_to_def fold_ok_def bin_arith_fold elim!: fold_binary_value split: if_splits)

lemma fold_bool_cases:
  assumes "const_fold_op op = Some (out, v)" "fold_ok op"
    "op \<in> {BoolAnd a b c, BoolOr a b c, BoolXor a b c}"
  shows "folds_to ext op out v"
  using assms
  by (elim insertE emptyE)
    (auto simp: folds_to_def fold_ok_def u64_rels elim!: fold_binary_value split: if_splits)

lemma fold_unary_cases:
  assumes "const_fold_op op = Some (out, v)" "fold_ok op"
    "op \<in> {IntZext a b, IntNeg a b, IntNot a b, BoolNot a b}"
  shows "folds_to ext op out v"
  using assms
  by (elim insertE emptyE)
    (auto simp: folds_to_def fold_ok_def bin_arith_fold u64_rels elim!: fold_unary_value split: if_splits)

lemma signed_bits: "vsize v = vsize w \<Longrightarrow> signed v x = signed w x"
  by (simp add: signed_def bits_def)

lemma fold_compare_cases:
  assumes "const_fold_op op = Some (out, v)" "fold_ok op"
    "op \<in> {IntEq a b c, IntNotEq a b c, IntLess a b c, IntLessEq a b c, IntSLess a b c, IntSLessEq a b c}"
  shows "folds_to ext op out v"
  using assms
  by (elim insertE emptyE)
    (auto simp: folds_to_def fold_ok_def u64_rels sint_signed_value
      signed_def bits_def elim!: fold_compare_value split: if_splits)

lemma fold_shift_cases:
  assumes "const_fold_op op = Some (out, v)" "fold_ok op" "op \<in> {IntLsl a b c, IntLsr a b c, IntAsr a b c}"
  shows "folds_to ext op out v"
proof -
  from assms have c: "canonical c" "space c = Const" "space b = Const" "vsize b = vsize a"
    by (auto simp: fold_ok_def shift_fits_def split: if_splits)
  note k = shift_amount[OF c(1,2)]
  have ok: "foldable_width (vsize b)"
    using assms c by (auto simp: fold_shift_const_def split: if_splits)
  have u: "uint (mask_to_size (offset b) (vsize b)) = const_val b"
    using ok c foldable_bits uint_mask_const by metis
  from assms(3) consider "op = IntLsl a b c" | "op = IntLsr a b c" | "op = IntAsr a b c"
    by auto
  then show ?thesis
  proof cases
    case 1
    with assms(1) c show ?thesis
      using lsl_fold[OF ok c(4) k, of "mask_to_size (offset b) (vsize b)"] u
      by (simp add: folds_to_def) (drule fold_shift_value, simp_all)
  next
    case 2
    with assms(1) c show ?thesis
      using lsr_fold[OF ok c(4) k, of "mask_to_size (offset b) (vsize b)"] u
      by (simp add: folds_to_def) (drule fold_shift_value, simp_all)
  next
    case 3
    with assms(1) c show ?thesis
      using asr_fold[OF ok c(4) k refl]
      by (simp add: folds_to_def) (drule fold_shift_value, simp_all)
  qed
qed

lemma fold_sext_case:
  assumes "const_fold_op (IntSext a b) = Some (out, v)"
  shows "folds_to ext (IntSext a b) out v"
proof -
  from assms have w: "space b = Const" "foldable_width (vsize b)" "foldable_width (vsize out)" "a = out"
    and v: "v = mask_to_size (signed_value (offset b) (vsize b)) (vsize out)"
    by (auto simp: sign_extend_to_size_def split: if_splits)
  have "uint v = take_bit (bits out) (uint (signed_value (offset b) (vsize b)))"
    using v w foldable_bits uint_mask_out by metis
  also have "uint (signed_value (offset b) (vsize b)) = take_bit 64 (sint (signed_value (offset b) (vsize b)))"
    by (simp add: uint_sint)
  also have "sint (signed_value (offset b) (vsize b)) = signed b (const_val b)"
    using w foldable_bits[of b]
    by (auto simp: sint_signed_value signed_def const_val_def bits_def signed_take_bit_take_bit)
  finally show ?thesis
    using w foldable_bits[of out] by (simp add: folds_to_def min_def)
qed

lemma const_fold_correct:
  assumes "const_fold_op op = Some (out, v)" "fold_ok op"
  shows "folds_to ext op out v"
  using assms fold_binary_cases[OF assms] fold_bool_cases[OF assms] fold_unary_cases[OF assms]
    fold_compare_cases[OF assms] fold_shift_cases[OF assms] fold_sext_case
  by (cases op) (simp, blast?)+

subsection \<open>Rewriting an operation to a copy\<close>

text \<open>How a store reads operands: constants read as themselves, values fit their size.\<close>

definition reading :: "(Varnode \<Rightarrow> int) \<Rightarrow> bool" where
  "reading r \<longleftrightarrow> (\<forall>v. (space v = Const \<longrightarrow> r v = const_val v) \<and> take_bit (bits v) (r v) = r v)"

text \<open>
  \<open>op'\<close> is a copy that assigns the value \<open>op\<close> computes, whatever the operands
  hold, and reads no storage that \<open>op\<close> does not read.
\<close>

definition copy_of :: "(PcodeOp \<Rightarrow> int list \<Rightarrow> int) \<Rightarrow> PcodeOp \<Rightarrow> PcodeOp \<Rightarrow> bool" where
  "copy_of ext op op' \<longleftrightarrow> (\<exists>out src. op' = Copy out src \<and> op_effect op = Assigns out \<and> vsize src = vsize out \<and>
     (space src = Const \<and> canonical src \<or> src \<in> set (visit_reads op)) \<and>
     (\<forall>r. reading r \<longrightarrow>
        take_bit (bits out) (op_value ext op (map r (visit_reads op))) = take_bit (bits out) (r src)))"

text \<open>
  Operands the rewriting is right for: the sizes of the reference, shift amounts that fit
  their size, and, where a width is not that of a \<open>u64\<close>, no constant that the pass
  reads all ones or a sign off, and none that is extended from outside its size.
\<close>

definition wide_ok :: "PcodeOp \<Rightarrow> bool" where
  "wide_ok op = (case op of
     IntAnd out left right \<Rightarrow> space right = Const \<longrightarrow> foldable_width (vsize out)
   | IntSext out input \<Rightarrow> space input = Const \<longrightarrow> foldable_width (vsize input) \<and> foldable_width (vsize out)
   | IntZext out input \<Rightarrow> foldable_width (vsize input) \<and> foldable_width (vsize out) \<or> canonical input
   | _ \<Rightarrow> True)"

definition op_ok :: "PcodeOp \<Rightarrow> bool" where
  "op_ok op \<longleftrightarrow> fold_ok op \<and> wide_ok op"

lemma reading_const: "reading r \<Longrightarrow> space v = Const \<Longrightarrow> r v = const_val v"
  by (simp add: reading_def)

lemma reading_bounded: "reading r \<Longrightarrow> take_bit (bits v) (r v) = r v"
  by (simp add: reading_def)

lemma const_val_constant: "const_val (constant_vn v n) = take_bit (8 * unat n) (uint v)"
  by (simp add: const_val_def bits_def)

lemma canonical_constant: "uint v < 2 ^ (8 * unat n) \<Longrightarrow> canonical (constant_vn v n)"
  by (simp add: canonical_def bits_def)

lemma copy_of_fold:
  assumes "const_fold_op op = Some (out, v)" "op_ok op"
  shows "copy_of ext op (Copy out (constant_vn v (vsize out)))"
proof -
  have f: "folds_to ext op out v"
    using assms const_fold_correct by (simp add: op_ok_def)
  have *: "op_value ext op (map r (visit_reads op)) = op_value ext op (map const_val (visit_reads op))"
    if "reading r" for r
  proof (rule arg_cong[where f = "op_value ext op"])
    show "map r (visit_reads op) = map const_val (visit_reads op)"
      using f that by (auto simp: folds_to_def reading_const)
  qed
  have "uint v < 2 ^ bits out"
    using f by (simp add: folds_to_def take_bit_int_less_exp)
  with f show ?thesis
    by (auto simp: copy_of_def folds_to_def reading_const const_val_constant bits_def canonical_constant *)
qed

lemma signed_take_bit_same: "8 \<le> bits v \<Longrightarrow> take_bit (bits v) (signed v x) = take_bit (bits v) x"
  by (simp add: signed_def take_bit_signed_take_bit)

lemma and_all_ones:
  assumes "reading r" "offset v = all_ones_mask (vsize v)" "space v = Const" "foldable_width (vsize v)" "vsize u = vsize v"
  shows "r u AND r v = r u"
proof -
  have n: "vsize v \<noteq> 0" "bits v \<le> 64" "bits u = bits v"
    using foldable_bits[OF assms(4)] assms(5) by (auto simp: bits_def)
  have "r v = take_bit (bits v) (uint (mask (bits v) :: u64))"
    using assms n by (simp add: reading_const const_val_def all_ones_mask_eq bits_def)
  also have "\<dots> = mask (bits v)"
    using n(2) by (intro bit_eqI) (auto simp: bit_simps)
  finally show ?thesis
    using reading_bounded[OF assms(1), of u] n(3) by (simp add: take_bit_eq_mask)
qed

lemma mask_to_size_0: "mask_to_size w 0 = w"
proof -
  have "(0xFFFFFFFFFFFFFFFF :: u64) = - 1" by simp
  then have "all_ones_mask 0 = - 1"
    by (simp only: all_ones_mask_def saturating_mul_u32_def shr64_def) simp
  then show ?thesis by (simp add: mask_to_size_def)
qed

lemma copy_of_pass0_match:
  assumes "op_ok op" "const_fold_op op = None" "pass0_match op \<noteq> op"
  shows "copy_of ext op (pass0_match op)"
proof (cases op)
  case (IntZext out input)
  with assms have c: "space input = Const" "canonical input" "vsize input \<le> vsize out"
    by (auto simp: pass0_match_def op_ok_def fold_ok_def wide_ok_def fold_unary_const_def split: if_splits)
  have "bits input \<le> bits out"
    using c(3) by (simp add: bits_def word_le_nat_alt)
  then have lt: "uint (offset input) < 2 ^ bits out"
    using c less_le_trans[OF _ power_increasing[of "bits input" "bits out" "2::int"]]
    by (simp add: canonical_def)
  have "mask_to_size (offset input) (vsize out) = offset input"
    using lt by (cases "vsize out = 0")
      (simp_all add: u64_rels uint_mask_out take_bit_int_eq_self mask_to_size_0)
  with IntZext c lt canonical_const_val[OF c(1,2)] show ?thesis
    by (auto simp: pass0_match_def copy_of_def reading_const const_val_constant canonical_constant bits_def)
next
  case (IntOr out left right)
  with assms show ?thesis
    by (auto simp: copy_of_def pass0_match_def op_ok_def fold_ok_def reading_const const_val_def split: if_splits)
next
  case (IntAnd out left right)
  with assms show ?thesis
    by (auto simp: copy_of_def pass0_match_def op_ok_def fold_ok_def wide_ok_def and_all_ones simp del: take_bit_and split: if_splits)
next
  case (IntSext out input)
  with assms show ?thesis
    by (auto simp: pass0_match_def op_ok_def wide_ok_def split: if_splits)
next
  case (IntLsl out left right)
  with assms show ?thesis
    by (cases "bits out = 0")
      (auto simp: copy_of_def pass0_match_def op_ok_def fold_ok_def reading_const const_val_def split: if_splits)
next
  case (IntLsr out left right)
  with assms show ?thesis
    by (cases "bits out = 0")
      (auto simp: copy_of_def pass0_match_def op_ok_def fold_ok_def reading_const const_val_def split: if_splits)
next
  case (IntAsr out left right)
  have "bits left = bits out"
    using assms(1) IntAsr by (simp add: op_ok_def fold_ok_def bits_def)
  then have "take_bit (bits out) (signed left x) = take_bit (bits out) x" if "bits out \<noteq> 0" for x
    using that signed_take_bit_same[of left x] by (simp add: bits_def)
  with IntAsr assms \<open>bits left = bits out\<close> show ?thesis
    by (cases "bits out = 0")
      (auto simp: copy_of_def pass0_match_def op_ok_def fold_ok_def reading_const const_val_def split: if_splits)
qed (use assms in \<open>simp_all add: pass0_match_def\<close>)

lemma copy_of_pass0:
  assumes "op_ok op" "pass0_op op \<noteq> op"
  shows "copy_of ext op (pass0_op op)"
proof (cases "const_fold_op op")
  case None
  with assms show ?thesis
    using copy_of_pass0_match by (simp add: pass0_op_def)
next
  case (Some p)
  with assms(1) show ?thesis
    using copy_of_fold by (cases p) (simp add: pass0_op_def)
qed

lemma copy_of_pass1:
  assumes "pass1_op op \<noteq> op"
  shows "copy_of ext op (pass1_op op)"
  using assms by (cases op) (auto simp: pass1_op_def copy_of_def split: if_splits)

lemma pass1b_mask:
  fixes out :: Varnode
  assumes "m = (if 8 \<le> vsize out then 0xFFFFFFFFFFFFFFFF else shl64 1 (unat (vsize out) * 8) - 1)"
  shows "uint (w AND m) = take_bit (bits out) (uint (w :: u64))"
proof -
  have "m = mask (bits out)"
  proof (cases "8 \<le> vsize out")
    case True
    then have "m = (mask 64 :: u64)"
      using assms by (simp add: mask_eq_exp_minus_1)
    moreover have "(mask 64 :: u64) = mask (bits out)"
      using True by (intro bit_word_eqI) (simp add: bit_mask_iff bits_def word_le_nat_alt)
    ultimately show ?thesis by simp
  next
    case False
    then have "unat (vsize out) * 8 < 64"
      by (simp add: word_le_nat_alt)
    with False show ?thesis
      using assms by (simp add: shl64_def mask_eq_exp_minus_1 bits_def mult.commute push_bit_eq_mult)
  qed
  then show ?thesis by (simp add: uint_and_mask)
qed

lemma copy_of_pass1b:
  assumes "pass1b_op op \<noteq> op"
  shows "copy_of ext op (pass1b_op op)"
proof (cases op)
  case (Subpiece out input lsb)
  define m :: u64 where "m = (if 8 \<le> vsize out then 0xFFFFFFFFFFFFFFFF else shl64 1 (unat (vsize out) * 8) - 1)"
  from assms Subpiece have c: "lsb = 0" "space input = Const" "vsize out < vsize input"
    and p: "pass1b_op op = Copy out (constant_vn (offset input AND m) (vsize out))"
    by (auto simp: pass1b_op_def Let_def m_def split: if_splits)
  have "bits out \<le> bits input"
    using c(3) by (simp add: bits_def word_less_nat_alt)
  with p Subpiece c pass1b_mask[OF m_def, of "offset input"] show ?thesis
    by (auto simp: copy_of_def reading_const const_val_constant const_val_def canonical_def bits_def min_def
        take_bit_int_less_exp)
qed (use assms in \<open>simp_all add: pass1b_op_def\<close>)

end
