(* ===== verification/Peephole.thy ===== *)
theory Peephole
  imports PcodeFold
begin

text \<open>
  The peephole optimiser \<open>optimize\<close> of \<^verbatim>\<open>pcode-ir/src/lib.rs\<close>: the backward
  analysis of unique outputs and the passes of \<open>optimize_once\<close> in their order. Each
  \<open>while\<close> loop is a recursive function over the index, the operation vector and the
  cached analysis, with the remaining length as its measure. This theory also shows
  what the analysis means and that the cached copy is never stale when it is used.
\<close>

subsection \<open>Analysis of unique outputs\<close>

datatype NextAccess = Read usize | Write

record UniqueOutputInfo =
  future_reads :: usize
  next_access :: "NextAccess option"

definition unique_output :: "PcodeOp \<Rightarrow> Varnode option" where
  "unique_output op = (case get_output op of
     Some out \<Rightarrow> if space out = Unique then Some out else None
   | None \<Rightarrow> None)"

definition cbranch_indices :: "PcodeOp list \<Rightarrow> nat list" where
  "cbranch_indices ops =
     filter (\<lambda>i. case ops ! i of CBranch dest _ \<Rightarrow> space dest = Const | _ \<Rightarrow> False) [0..<length ops]"

definition cbranch_protected :: "PcodeOp list \<Rightarrow> Varnode list" where
  "cbranch_protected ops = concat (map (\<lambda>cb_idx.
     let written_before = List.map_filter unique_output (take cb_idx ops);
         written_after = List.map_filter unique_output (drop (Suc cb_idx) ops)
     in filter (\<lambda>v. v \<in> set written_after) written_before) (cbranch_indices ops))"

definition ram_dest_uniques :: "PcodeOp list \<Rightarrow> u64 list" where
  "ram_dest_uniques ops = List.map_filter (\<lambda>op. case op of
     BranchInd dest \<Rightarrow> if space dest = Ram then Some (offset dest) else None
   | CallInd dest \<Rightarrow> if space dest = Ram then Some (offset dest) else None
   | _ \<Rightarrow> None) ops"

type_synonym reads_map = "Varnode \<rightharpoonup> usize"
type_synonym access_map = "Varnode \<rightharpoonup> NextAccess"

definition note_read :: "usize \<Rightarrow> Varnode \<Rightarrow> reads_map \<times> access_map \<Rightarrow> reads_map \<times> access_map" where
  "note_read idx v m = (case m of (fr, na) \<Rightarrow>
     if space v = Unique
     then (fr(v \<mapsto> (case fr v of None \<Rightarrow> 0 | Some n \<Rightarrow> n) + 1), na(v \<mapsto> Read idx))
     else (fr, na))"

definition analyze_step ::
  "Varnode list \<Rightarrow> u64 list \<Rightarrow> nat \<times> PcodeOp \<Rightarrow>
   (reads_map \<times> access_map) \<times> UniqueOutputInfo option list \<Rightarrow>
   (reads_map \<times> access_map) \<times> UniqueOutputInfo option list" where
  "analyze_step protected ram_dests p st = (case p of (idx, op) \<Rightarrow> case st of ((fr, na), res) \<Rightarrow>
     let (entry, m) = (case unique_output op of
           None \<Rightarrow> (None, (fr, na))
         | Some out \<Rightarrow>
             if out \<in> set protected \<or> offset out \<in> set ram_dests then (None, (fr, na))
             else (Some \<lparr>future_reads = (case fr out of None \<Rightarrow> 0 | Some n \<Rightarrow> n), next_access = na out\<rparr>,
                   (fr(out := None), na(out \<mapsto> Write))))
     in (fold (note_read idx) (visit_reads op) m, entry # res))"

definition analyze_unique_outputs :: "PcodeOp list \<Rightarrow> UniqueOutputInfo option list" where
  "analyze_unique_outputs ops =
     snd (foldr (analyze_step (cbranch_protected ops) (ram_dest_uniques ops))
            (enumerate 0 ops) ((Map.empty, Map.empty), []))"

subsection \<open>Pass 1a: repeated masks\<close>

definition pass1a_collapse :: "PcodeOp list \<Rightarrow> UniqueOutputInfo option list \<Rightarrow> nat \<Rightarrow> Varnode option" where
  "pass1a_collapse ops analysis i = (case ops ! i of
     IntAnd out1 _ mask1 \<Rightarrow>
       if space out1 = Unique \<and> space mask1 = Const then
         (case ops ! (i + 1) of
            IntAnd out2 in2 mask2 \<Rightarrow>
              if in2 = out1 \<and> mask2 = mask1 then
                (let total_reads = (case vec_get analysis i of
                     Some (Some info) \<Rightarrow> future_reads info
                   | _ \<Rightarrow> 2 ^ 64 - 1)
                 in if total_reads = 1 then Some out2 else None)
              else None
          | _ \<Rightarrow> None)
       else None
   | _ \<Rightarrow> None)"

definition set_and_output :: "Varnode \<Rightarrow> PcodeOp \<Rightarrow> PcodeOp" where
  "set_and_output new_out op = (case op of IntAnd _ l r \<Rightarrow> IntAnd new_out l r | _ \<Rightarrow> op)"

type_synonym opt_state = "PcodeOp list \<times> UniqueOutputInfo option list"

function pass1a :: "nat \<Rightarrow> PcodeOp list \<Rightarrow> UniqueOutputInfo option list \<Rightarrow> opt_state" where
  "pass1a i ops analysis =
     (if i + 1 < length ops then
        (case pass1a_collapse ops analysis i of
           Some new_out \<Rightarrow>
             let ops' = vec_remove (i + 1) (ops[i := set_and_output new_out (ops ! i)])
             in pass1a i ops' (analyze_unique_outputs ops')
         | None \<Rightarrow> pass1a (i + 1) ops analysis)
      else (ops, analysis))"
  by pat_completeness auto
termination
  by (relation "measure (\<lambda>(i, ops, analysis). length ops - i)") auto

subsection \<open>Pass 2: forward substitution of copies\<close>

definition pass2_target :: "PcodeOp list \<Rightarrow> UniqueOutputInfo option list \<Rightarrow> nat \<Rightarrow> (Varnode \<times> Varnode \<times> nat) option" where
  "pass2_target ops analysis i = (case ops ! i of
     Copy out input \<Rightarrow>
       if space out = Unique then
         (case vec_get analysis i of
            Some (Some info) \<Rightarrow>
              (case next_access info of
                 Some (Read read_idx) \<Rightarrow>
                   if future_reads info = 1 then Some (out, input, read_idx) else None
               | _ \<Rightarrow> None)
          | _ \<Rightarrow> None)
       else None
   | _ \<Rightarrow> None)"

function pass2 :: "nat \<Rightarrow> PcodeOp list \<Rightarrow> UniqueOutputInfo option list \<Rightarrow> opt_state" where
  "pass2 i ops analysis =
     (if i < length ops then
        (case pass2_target ops analysis i of
           Some (target, replacement, read_idx) \<Rightarrow>
             let ops' = vec_remove i (ops[read_idx := fst (replace_reads (ops ! read_idx) target replacement)])
             in pass2 i ops' (analyze_unique_outputs ops')
         | None \<Rightarrow> pass2 (i + 1) ops analysis)
      else (ops, analysis))"
  by pat_completeness auto
termination
  by (relation "measure (\<lambda>(i, ops, analysis). length ops - i)") auto

subsection \<open>Passes 2b and 3: dead and overwritten outputs\<close>

definition dead_entry :: "UniqueOutputInfo option \<Rightarrow> bool" where
  "dead_entry e = (case e of
     Some info \<Rightarrow> future_reads info = 0 \<or> next_access info = Some Write
   | None \<Rightarrow> False)"

definition pass3 :: "PcodeOp list \<Rightarrow> UniqueOutputInfo option list \<Rightarrow> PcodeOp list" where
  "pass3 ops analysis =
     (let to_remove = filter (\<lambda>i. dead_entry (analysis ! i)) [0..<length analysis]
      in fold vec_remove (rev to_remove) ops)"

subsection \<open>Pass 4: sinking outputs into copies\<close>

definition pass4_sink :: "PcodeOp list \<Rightarrow> UniqueOutputInfo option list \<Rightarrow> nat \<Rightarrow> (nat \<times> Varnode) option" where
  "pass4_sink ops analysis i = (case (get_output (ops ! i), vec_get analysis i) of
     (Some out, Some (Some info)) \<Rightarrow>
       (case next_access info of
          Some (Read copy_idx) \<Rightarrow>
            if future_reads info = 1 \<and> space out = Unique then
              (case ops ! copy_idx of
                 Copy copy_dest copy_src \<Rightarrow>
                   if copy_src = out then
                     (let d = copy_dest;
                          safe = list_all (\<lambda>k. count_reads (ops ! k) d = 0 \<and> \<not> writes_to (ops ! k) d)
                                   [i + 1..<copy_idx]
                      in if safe then Some (copy_idx, d) else None)
                   else None
               | _ \<Rightarrow> None)
            else None
        | _ \<Rightarrow> None)
   | _ \<Rightarrow> None)"

function pass4 :: "nat \<Rightarrow> PcodeOp list \<Rightarrow> UniqueOutputInfo option list \<Rightarrow> PcodeOp list" where
  "pass4 i ops analysis =
     (if i < length ops then
        (case pass4_sink ops analysis i of
           Some (copy_idx, new_dest) \<Rightarrow>
             if copy_idx < length ops then
               let ops' = vec_remove copy_idx (ops[i := get_output_mut (\<lambda>_. new_dest) (ops ! i)])
               in pass4 i ops' (analyze_unique_outputs ops')
             else ops
         | None \<Rightarrow> pass4 (i + 1) ops analysis)
      else ops)"
  by pat_completeness auto
termination
  by (relation "measure (\<lambda>(i, ops, analysis). length ops - i)") auto

subsection \<open>The driver\<close>

definition optimize_once :: "PcodeOp list \<Rightarrow> PcodeOp list" where
  "optimize_once ops =
     (let ops = map pass1b_op (map pass1_op (map pass0_op ops));
          (ops, analysis) = pass1a 0 ops (analyze_unique_outputs ops);
          (ops, analysis) = pass2 0 ops analysis;
          ops = pass3 ops analysis
      in pass4 0 ops (analyze_unique_outputs ops))"

primrec optimize_rounds :: "nat \<Rightarrow> PcodeOp list \<Rightarrow> PcodeOp list" where
  "optimize_rounds 0 ops = ops"
| "optimize_rounds (Suc rounds) ops =
     (let ops' = optimize_once ops
      in if length ops' = length ops then ops' else optimize_rounds rounds ops')"

definition optimize :: "PcodeOp list \<Rightarrow> PcodeOp list" where
  "optimize ops = optimize_rounds 4 ops"

declare pass1a.simps [simp del] pass2.simps [simp del] pass4.simps [simp del]

subsection \<open>What the analysis means\<close>

text \<open>
  Reads of \<open>v\<close> before it is next written, and the first access to it: the forward
  reading of what the code computes backwards.
\<close>

primrec live_reads :: "Varnode \<Rightarrow> PcodeOp list \<Rightarrow> nat" where
  "live_reads v [] = 0"
| "live_reads v (op # ops) = count_reads op v + (if get_output op = Some v then 0 else live_reads v ops)"

primrec first_access :: "Varnode \<Rightarrow> nat \<Rightarrow> PcodeOp list \<Rightarrow> NextAccess option" where
  "first_access v k [] = None"
| "first_access v k (op # ops) =
     (if 0 < count_reads op v then Some (Read k)
      else if get_output op = Some v then Some Write
      else first_access v (Suc k) ops)"

definition touchable :: "PcodeOp list \<Rightarrow> Varnode \<Rightarrow> bool" where
  "touchable ops v \<longleftrightarrow> space v = Unique \<and> v \<notin> set (cbranch_protected ops) \<and> offset v \<notin> set (ram_dest_uniques ops)"

abbreviation reads_of :: "reads_map \<Rightarrow> Varnode \<Rightarrow> nat" where
  "reads_of fr v \<equiv> (case fr v of None \<Rightarrow> 0 | Some n \<Rightarrow> n)"

lemma note_read_pair:
  "note_read idx u (fr, na) =
     (if space u = Unique then (fr(u \<mapsto> reads_of fr u + 1), na(u \<mapsto> Read idx)) else (fr, na))"
  by (simp add: note_read_def)

lemma fold_note_read:
  "fold (note_read idx) vs (fr, na) = (fr', na') \<Longrightarrow> space v = Unique \<Longrightarrow>
   reads_of fr' v = reads_of fr v + length (filter (\<lambda>u. u = v) vs) \<and>
   na' v = (if v \<in> set vs then Some (Read idx) else na v)"
proof (induction vs arbitrary: fr na)
  case Nil
  then show ?case by simp
next
  case (Cons u vs)
  show ?case
  proof (cases "space u = Unique")
    case True
    with Cons.prems(1) have "fold (note_read idx) vs (fr(u \<mapsto> reads_of fr u + 1), na(u \<mapsto> Read idx)) = (fr', na')"
      by (simp add: note_read_pair)
    from Cons.IH[OF this Cons.prems(2)] show ?thesis by auto
  next
    case False
    with Cons show ?thesis by (auto simp: note_read_pair)
  qed
qed

definition analysis_inv ::
  "Varnode list \<Rightarrow> u64 list \<Rightarrow> nat \<Rightarrow> PcodeOp list \<Rightarrow> (reads_map \<times> access_map) \<Rightarrow> bool" where
  "analysis_inv P R k ops m \<longleftrightarrow> (\<forall>v. space v = Unique \<longrightarrow> v \<notin> set P \<longrightarrow> offset v \<notin> set R \<longrightarrow>
     reads_of (fst m) v = live_reads v ops \<and> snd m v = first_access v k ops)"

definition entry_of :: "Varnode list \<Rightarrow> u64 list \<Rightarrow> nat \<Rightarrow> PcodeOp \<Rightarrow> PcodeOp list \<Rightarrow> UniqueOutputInfo option" where
  "entry_of P R k op rest = (case unique_output op of
     None \<Rightarrow> None
   | Some out \<Rightarrow> if out \<in> set P \<or> offset out \<in> set R then None
       else Some \<lparr>future_reads = live_reads out rest, next_access = first_access out (Suc k) rest\<rparr>)"

lemma unique_output_Some: "unique_output op = Some v \<longleftrightarrow> get_output op = Some v \<and> space v = Unique"
  by (auto simp: unique_output_def split: option.splits)

lemma count_reads_pos: "0 < count_reads op v \<longleftrightarrow> v \<in> set (visit_reads op)"
  by (auto simp: count_reads_def filter_empty_conv)

lemma analyze_step_inv:
  assumes "analysis_inv P R (Suc k) ops m" "analyze_step P R (k, op) (m, res) = (m', res')"
  shows "analysis_inv P R k (op # ops) m' \<and> res' = entry_of P R k op ops # res"
proof -
  obtain fr na where m: "m = (fr, na)" by (cases m)
  define n where "n = (case unique_output op of
      None \<Rightarrow> (fr, na)
    | Some out \<Rightarrow> if out \<in> set P \<or> offset out \<in> set R then (fr, na) else (fr(out := None), na(out \<mapsto> Write)))"
  have m': "m' = fold (note_read k) (visit_reads op) n"
    and res': "res' = entry_of P R k op ops # res"
    using assms m by (auto simp: analyze_step_def n_def entry_of_def analysis_inv_def
        dest: unique_output_Some[THEN iffD1] split: option.splits if_splits)
  have "reads_of (fst m') v = live_reads v (op # ops) \<and> snd m' v = first_access v k (op # ops)"
    if v: "space v = Unique" "v \<notin> set P" "offset v \<notin> set R" for v
  proof -
    have old: "reads_of fr v = live_reads v ops" "na v = first_access v (Suc k) ops"
      using assms(1) v m by (auto simp: analysis_inv_def)
    have n_v: "reads_of (fst n) v = (if get_output op = Some v then 0 else live_reads v ops)"
      "snd n v = (if get_output op = Some v then Some Write else first_access v (Suc k) ops)"
      using v old by (auto simp: n_def unique_output_def split: option.splits if_splits)
    have "reads_of (fst m') v = reads_of (fst n) v + count_reads op v"
      "snd m' v = (if v \<in> set (visit_reads op) then Some (Read k) else snd n v)"
      using fold_note_read[of k "visit_reads op" "fst n" "snd n" "fst m'" "snd m'" v] v(1) m'
      by (simp_all add: count_reads_def)
    with n_v show ?thesis by (simp add: count_reads_pos)
  qed
  then show ?thesis using res' by (simp add: analysis_inv_def)
qed

lemma analyze_foldr:
  "foldr (analyze_step P R) (enumerate k ops) ((Map.empty, Map.empty), []) = (m, res) \<Longrightarrow>
   analysis_inv P R k ops m \<and> res = map (\<lambda>i. entry_of P R (k + i) (ops ! i) (drop (Suc i) ops)) [0..<length ops]"
proof (induction ops arbitrary: k m res)
  case Nil
  then show ?case by (auto simp: analysis_inv_def)
next
  case (Cons op ops)
  obtain m1 res1 where r: "foldr (analyze_step P R) (enumerate (Suc k) ops) ((Map.empty, Map.empty), []) = (m1, res1)"
    by (metis surj_pair)
  from Cons.IH[OF r] have IH: "analysis_inv P R (Suc k) ops m1"
    "res1 = map (\<lambda>i. entry_of P R (Suc k + i) (ops ! i) (drop (Suc i) ops)) [0..<length ops]"
    by auto
  have "analyze_step P R (k, op) (m1, res1) = (m, res)"
    using Cons.prems r by simp
  from analyze_step_inv[OF IH(1) this] IH(2) show ?case
    by (simp add: upt_conv_Cons comp_def flip: map_Suc_upt del: upt_Suc)
qed

lemma length_analysis [simp]: "length (analyze_unique_outputs ops) = length ops"
  using analyze_foldr[of "cbranch_protected ops" "ram_dest_uniques ops" 0 ops]
  by (cases "foldr (analyze_step (cbranch_protected ops) (ram_dest_uniques ops)) (enumerate 0 ops) ((Map.empty, Map.empty), [])")
    (simp add: analyze_unique_outputs_def)

lemma analysis_nth:
  assumes "i < length ops"
  shows "analyze_unique_outputs ops ! i =
    entry_of (cbranch_protected ops) (ram_dest_uniques ops) i (ops ! i) (drop (Suc i) ops)"
  using assms analyze_foldr[of "cbranch_protected ops" "ram_dest_uniques ops" 0 ops]
  by (cases "foldr (analyze_step (cbranch_protected ops) (ram_dest_uniques ops)) (enumerate 0 ops) ((Map.empty, Map.empty), [])")
    (simp add: analyze_unique_outputs_def)

lemma analysis_entry:
  assumes "vec_get (analyze_unique_outputs ops) i = Some (Some info)"
  obtains out where "i < length ops" "get_output (ops ! i) = Some out" "touchable ops out"
    "future_reads info = live_reads out (drop (Suc i) ops)"
    "next_access info = first_access out (Suc i) (drop (Suc i) ops)"
  using assms
  by (auto simp: vec_get_Some analysis_nth entry_of_def touchable_def unique_output_Some split: option.splits if_splits)

lemma first_access_Read:
  "first_access v k ops = Some (Read j) \<Longrightarrow>
   k \<le> j \<and> j < k + length ops \<and> v \<in> set (visit_reads (ops ! (j - k))) \<and>
   (\<forall>i < j - k. v \<notin> set (visit_reads (ops ! i)) \<and> get_output (ops ! i) \<noteq> Some v)"
proof (induction ops arbitrary: k)
  case Nil
  then show ?case by simp
next
  case (Cons op ops)
  show ?case
  proof (cases "v \<in> set (visit_reads op)")
    case True
    with Cons.prems show ?thesis by (simp add: count_reads_pos)
  next
    case False
    with Cons.prems have g: "get_output op \<noteq> Some v" and f: "first_access v (Suc k) ops = Some (Read j)"
      by (auto simp: count_reads_pos split: if_splits)
    from Cons.IH[OF f] have IH: "Suc k \<le> j" "j < Suc k + length ops" "v \<in> set (visit_reads (ops ! (j - Suc k)))"
      "\<forall>i < j - Suc k. v \<notin> set (visit_reads (ops ! i)) \<and> get_output (ops ! i) \<noteq> Some v"
      by auto
    have j: "j - k = Suc (j - Suc k)"
      using IH(1) by simp
    have "v \<notin> set (visit_reads ((op # ops) ! i)) \<and> get_output ((op # ops) ! i) \<noteq> Some v" if "i < j - k" for i
      using that IH(4) j g False by (cases i) auto
    with IH j show ?thesis by simp
  qed
qed

lemma first_access_Write: "first_access v k ops = Some Write \<Longrightarrow> live_reads v ops = 0"
  by (induction ops arbitrary: k) (auto split: if_splits)

end
