(* ===== verification/PeepholeSound.thy ===== *)
theory PeepholeSound
  imports Peephole
begin

text \<open>
  The peephole optimiser preserves behaviour: the optimised operations leave every
  register and memory varnode with the same value at the end and at every control or
  user operation, and show the same events. The well-formedness the passes rely on is
  \<open>wf_ops\<close>; what passes 2 and 4 do not check themselves is \<open>subst_safe\<close> and
  \<open>sink_safe\<close>. The proof is done once against the store interface, in the locale
  \<open>pcode_machine\<close>, and interpreted on the byte store.
\<close>

subsection \<open>What an operation touches\<close>

definition op_writes :: "PcodeOp \<Rightarrow> Varnode option" where
  "op_writes op = (case op_effect op of
     Assigns out \<Rightarrow> Some out
   | LoadsFrom out _ _ \<Rightarrow> Some out
   | StoresTo _ _ _ \<Rightarrow> None
   | UserOp out _ _ \<Rightarrow> out
   | Controls \<Rightarrow> None)"

definition mem_space :: "PcodeOp \<Rightarrow> AddressSpaceId option" where
  "mem_space op = (case op_effect op of
     LoadsFrom _ sp _ \<Rightarrow> Some sp
   | StoresTo sp _ _ \<Rightarrow> Some sp
   | _ \<Rightarrow> None)"

definition sem_reads :: "PcodeOp \<Rightarrow> Varnode list" where
  "sem_reads op = visit_reads op @ ctl_reads op"

definition op_vns :: "PcodeOp \<Rightarrow> Varnode list" where
  "op_vns op = sem_reads op @ (case op_writes op of None \<Rightarrow> [] | Some v \<Rightarrow> [v])"

text \<open>An operation that shows the store: a control or a user operation.\<close>

definition observes :: "PcodeOp \<Rightarrow> bool" where
  "observes op = (case op_effect op of UserOp _ _ _ \<Rightarrow> True | Controls \<Rightarrow> True | _ \<Rightarrow> False)"

subsection \<open>Well-formed operation lists\<close>

text \<open>
  Branches relative to the operation list itself (a constant destination) are left out:
  the list is read as straight-line code whose conditional branches exit it.
\<close>

definition wf_op :: "PcodeOp \<Rightarrow> bool" where
  "wf_op op \<longleftrightarrow> well_sized op \<and> mem_space op \<noteq> Some Unique \<and>
     (case op_writes op of None \<Rightarrow> True | Some v \<Rightarrow> space v \<noteq> Const) \<and>
     (case op of
        Branch dest \<Rightarrow> space dest \<noteq> Unique \<and> space dest \<noteq> Const
      | CBranch dest _ \<Rightarrow> space dest \<noteq> Unique \<and> space dest \<noteq> Const
      | Call dest \<Rightarrow> space dest \<noteq> Unique
      | _ \<Rightarrow> True)"

text \<open>
  Unique varnodes are equal or share no byte with any other operand, and the output of a
  user operation is not a unique another operation assigns.
\<close>

definition uniques_apart :: "PcodeOp list \<Rightarrow> bool" where
  "uniques_apart ops \<longleftrightarrow>
     (\<forall>v \<in> set (concat (map op_vns ops)). space v = Unique \<longrightarrow>
        (\<forall>w \<in> set (concat (map op_vns ops)). v = w \<or> vdisjoint v w))"

definition user_outputs_apart :: "PcodeOp list \<Rightarrow> bool" where
  "user_outputs_apart ops \<longleftrightarrow>
     (\<forall>op \<in> set ops. case op_effect op of
        UserOp (Some v) _ _ \<Rightarrow> (\<forall>op' \<in> set ops. get_output op' \<noteq> Some v)
      | _ \<Rightarrow> True)"

definition wf_ops :: "PcodeOp list \<Rightarrow> bool" where
  "wf_ops ops \<longleftrightarrow> list_all wf_op ops \<and> uniques_apart ops \<and> user_outputs_apart ops"

subsection \<open>Operations under renaming of operands\<close>

primrec map_effect :: "(Varnode \<Rightarrow> Varnode) \<Rightarrow> effect \<Rightarrow> effect" where
  "map_effect f (Assigns out) = Assigns out"
| "map_effect f (LoadsFrom out sp ptr) = LoadsFrom out sp (f ptr)"
| "map_effect f (StoresTo sp ptr val) = StoresTo sp (f ptr) (f val)"
| "map_effect f (UserOp out g ins) = UserOp out g (map f ins)"
| "map_effect f Controls = Controls"

lemma visit_reads_mut_reads: "visit_reads (visit_reads_mut f op) = map f (visit_reads op)"
  by (cases op) simp_all

lemma visit_reads_mut_effect: "op_effect (visit_reads_mut f op) = map_effect f (op_effect op)"
  by (cases op) simp_all

lemma erase_cong: "vsize v = vsize w \<Longrightarrow> erase v = erase w"
  by (simp add: erase_def)

lemma op_value_reads_mut:
  assumes "\<And>v. vsize (f v) = vsize v"
  shows "op_value ext (visit_reads_mut f op) vs = op_value ext op vs"
proof -
  have "erase (f v) = erase v" "bits (f v) = bits v" "signed (f v) x = signed v x" for v x
    using assms by (simp_all add: erase_def bits_def signed_def)
  then show ?thesis
    by (cases op) (simp_all add: shape_def)
qed

lemma well_sized_reads_mut:
  assumes "\<And>v. vsize (f v) = vsize v"
  shows "well_sized (visit_reads_mut f op) = well_sized op"
  by (cases op) (simp_all add: assms)

lemma get_output_effect:
  "get_output op = (case op_effect op of Assigns out \<Rightarrow> Some out | LoadsFrom out _ _ \<Rightarrow> Some out | _ \<Rightarrow> None)"
  by (cases op) simp_all

lemma get_output_mut_reads: "visit_reads (get_output_mut f op) = visit_reads op"
  by (cases op) simp_all

lemma get_output_mut_effect:
  "op_effect (get_output_mut f op) = (case op_effect op of
     Assigns out \<Rightarrow> Assigns (f out) | LoadsFrom out sp ptr \<Rightarrow> LoadsFrom (f out) sp ptr | e \<Rightarrow> e)"
  by (cases op) simp_all

lemma op_value_output_mut:
  assumes "get_output op = Some u" "vsize d = vsize u"
  shows "op_value ext (get_output_mut (\<lambda>_. d) op) vs = op_value ext op vs"
proof -
  have "erase d = erase u" "bits d = bits u"
    using assms(2) by (simp_all add: erase_def bits_def)
  then show ?thesis
    using assms(1) by (cases op) (simp_all add: shape_def)
qed

lemma well_sized_output_mut:
  assumes "get_output op = Some u" "vsize d = vsize u"
  shows "well_sized (get_output_mut (\<lambda>_. d) op) = well_sized op"
  using assms by (cases op) simp_all

lemma ctl_reads_effect: "op_effect op \<noteq> Controls \<Longrightarrow> ctl_reads op = []"
  by (cases op) (simp_all add: ctl_reads_def)

lemma ctl_reads_cases:
  "set (ctl_reads op) \<subseteq> set (visit_reads op) \<union>
     {v. \<exists>dest \<in> set (visit_reads op). space dest = Ram \<and> v = dest\<lparr>space := Unique\<rparr> \<and> (op = BranchInd dest \<or> op = CallInd dest)}"
  by (cases op) (auto simp: ctl_reads_def ind_reads_def)

text \<open>Running \<open>op\<close> leaves \<open>x\<close> alone, and does not look at it.\<close>

definition keeps :: "PcodeOp \<Rightarrow> Varnode \<Rightarrow> bool" where
  "keeps op x \<longleftrightarrow> (case op_effect op of
     Assigns out \<Rightarrow> vdisjoint out x
   | LoadsFrom out _ _ \<Rightarrow> vdisjoint out x
   | StoresTo sp _ _ \<Rightarrow> sp \<noteq> space x
   | UserOp (Some out) _ _ \<Rightarrow> vdisjoint out x
   | _ \<Rightarrow> True)"

definition ignores :: "PcodeOp \<Rightarrow> Varnode \<Rightarrow> bool" where
  "ignores op x \<longleftrightarrow> list_all (vdisjoint x) (sem_reads op) \<and> mem_space op \<noteq> Some (space x) \<and>
     (observes op \<longrightarrow> space x = Unique)"

lemma visit_reads_mut_id [simp]: "visit_reads_mut (\<lambda>v. v) op = op"
  by (cases op) simp_all

lemma ram_dest_uniques_mono: "set ops \<subseteq> set ops' \<Longrightarrow> set (ram_dest_uniques ops) \<subseteq> set (ram_dest_uniques ops')"
  by (force simp: ram_dest_uniques_def map_filter_def)

text \<open>\<open>v\<close> is a unique the analysis may touch in \<open>ops\<close>, read whole or not at all.\<close>

definition separate :: "Varnode \<Rightarrow> PcodeOp list \<Rightarrow> bool" where
  "separate v ops \<longleftrightarrow> space v = Unique \<and> offset v \<notin> set (ram_dest_uniques ops) \<and>
     (\<forall>op \<in> set ops. wf_op op \<and> (\<forall>w \<in> set (sem_reads op). w = v \<or> vdisjoint v w))"

lemma separate_mono: "separate v ops \<Longrightarrow> set ops' \<subseteq> set ops \<Longrightarrow> separate v ops'"
  using ram_dest_uniques_mono[of ops' ops] by (auto simp: separate_def)

lemma ctl_reads_not_ram_dest:
  assumes "space v = Unique" "v \<notin> set (visit_reads op)" "offset v \<notin> set (ram_dest_uniques (op # ops))"
  shows "v \<notin> set (ctl_reads op)"
  using assms by (cases op) (auto simp: ctl_reads_def ind_reads_def ram_dest_uniques_def map_filter_simps split: if_splits)

lemma Controls_cases:
  assumes "op_effect op = Controls"
  obtains (Branch) dest where "op = Branch dest"
  | (CBranch) dest cond where "op = CBranch dest cond"
  | (BranchInd) dest where "op = BranchInd dest"
  | (Call) dest where "op = Call dest"
  | (CallInd) dest where "op = CallInd dest"
  | (Return) dest where "op = Return dest"
  using assms by (cases op) simp_all

lemma ctl_simps:
  "ctl_reads (Branch d) = []" "ctl_kind (Branch d) = Branch d"
  "ctl_reads (CBranch d c) = [c]" "ctl_kind (CBranch d c) = CBranch d (erase c)"
  "ctl_reads (BranchInd d) = ind_reads d" "ctl_kind (BranchInd d) = BranchInd (if space d = Ram then d else erase d)"
  "ctl_reads (Call d) = []" "ctl_kind (Call d) = Call d"
  "ctl_reads (CallInd d) = ind_reads d" "ctl_kind (CallInd d) = CallInd (if space d = Ram then d else erase d)"
  "ctl_reads (Return d) = [d]" "ctl_kind (Return d) = Return (erase d)"
  by (simp_all add: ctl_reads_def ctl_kind_def)

lemma ctl_rename:
  assumes "op_effect r = Controls" "wf_op r" "space U = Unique" "vsize B = vsize U" "space B \<noteq> Ram"
    "offset U \<notin> set (ram_dest_uniques (r # post))"
    "p U = q B" "\<And>v. v \<in> set (sem_reads r) \<Longrightarrow> v \<noteq> U \<Longrightarrow> p v = q v"
  shows "ctl_kind (visit_reads_mut (\<lambda>v. if v = U then B else v) r) = ctl_kind r \<and>
    map p (ctl_reads r) = map q (ctl_reads (visit_reads_mut (\<lambda>v. if v = U then B else v) r))"
proof -
  have [simp]: "erase B = erase U"
    by (rule erase_cong) (rule assms(4))
  have ind: "map p (ind_reads dest) = map q (ind_reads (if dest = U then B else dest))"
    if "r = BranchInd dest \<or> r = CallInd dest" for dest
  proof (cases "dest = U")
    case True
    with assms show ?thesis by (simp add: ind_reads_def)
  next
    case False
    have "offset dest \<in> set (ram_dest_uniques (r # post))" if "space dest = Ram"
      using \<open>r = BranchInd dest \<or> r = CallInd dest\<close> that by (auto simp: ram_dest_uniques_def map_filter_simps)
    with assms(6) have "dest\<lparr>space := Unique\<rparr> \<noteq> U" if "space dest = Ram"
      using that by auto
    moreover have "set (ind_reads dest) \<subseteq> set (sem_reads r)"
      using \<open>r = BranchInd dest \<or> r = CallInd dest\<close> by (auto simp: sem_reads_def ctl_reads_def)
    ultimately show ?thesis
      using False assms(8)[of dest] assms(8)[of "dest\<lparr>space := Unique\<rparr>"]
      by (auto simp: ind_reads_def split: if_splits)
  qed
  have kind: "(if space (if d = U then B else d) = Ram then if d = U then B else d else erase (if d = U then B else d)) =
      (if space d = Ram then d else erase d)" for d
    using assms(3,5) by simp
  show ?thesis
    using assms(1)
  proof (cases rule: Controls_cases)
    case (CBranch dest cond)
    with assms show ?thesis by (auto simp: ctl_simps wf_op_def sem_reads_def)
  next
    case (BranchInd dest)
    with ind[of dest] kind[of dest] show ?thesis
      by (simp only: ctl_simps visit_reads_mut.simps) simp
  next
    case (CallInd dest)
    with ind[of dest] kind[of dest] show ?thesis
      by (simp only: ctl_simps visit_reads_mut.simps) simp
  next
    case (Return dest)
    with assms show ?thesis by (auto simp: ctl_simps sem_reads_def)
  qed (use assms in \<open>auto simp: ctl_simps wf_op_def\<close>)
qed

subsection \<open>Two runs that differ on a set of varnodes\<close>

locale pcode_machine = varnode_store rd wr
  for rd :: "'s \<Rightarrow> Varnode \<Rightarrow> int" and wr :: "'s \<Rightarrow> Varnode \<Rightarrow> int \<Rightarrow> 's" +
  fixes ext :: "PcodeOp \<Rightarrow> int list \<Rightarrow> int"
    and usr :: "u64 \<Rightarrow> int list \<Rightarrow> event list \<Rightarrow> int"
begin

abbreviation exec :: "PcodeOp \<Rightarrow> 's mach \<Rightarrow> 's mach" where
  "exec \<equiv> exec_op rd wr ext usr"

abbreviation run :: "PcodeOp list \<Rightarrow> 's mach \<Rightarrow> 's mach" where
  "run \<equiv> run_ops rd wr ext usr"

definition agree :: "Varnode set \<Rightarrow> 's \<Rightarrow> 's \<Rightarrow> bool" where
  "agree K s t \<longleftrightarrow> (\<forall>u. (\<forall>a \<in> K. vdisjoint a u) \<longrightarrow> rd s u = rd t u)"

definition obs :: "'s \<Rightarrow> 's \<Rightarrow> bool" where
  "obs s t \<longleftrightarrow> (\<forall>u. space u \<noteq> Unique \<longrightarrow> rd s u = rd t u)"

definition same_trace :: "(event \<times> 's) list \<Rightarrow> (event \<times> 's) list \<Rightarrow> bool" where
  "same_trace = list_all2 (\<lambda>(e, s) (e', t). e = e' \<and> obs s t)"

definition sim :: "Varnode set \<Rightarrow> 's mach \<Rightarrow> 's mach \<Rightarrow> bool" where
  "sim K m n \<longleftrightarrow> agree K (fst m) (fst n) \<and> same_trace (snd m) (snd n)"

lemma agree_rd: "agree K s t \<Longrightarrow> (\<And>a. a \<in> K \<Longrightarrow> vdisjoint a u) \<Longrightarrow> rd s u = rd t u"
  by (auto simp: agree_def)

lemma agree_mono: "agree K s t \<Longrightarrow> K \<subseteq> L \<Longrightarrow> agree L s t"
  by (auto simp: agree_def)

lemma agree_refl [simp]: "agree K s s"
  by (simp add: agree_def)

lemma agree_trans: "agree K s t \<Longrightarrow> agree K t u \<Longrightarrow> agree K s u"
  by (simp add: agree_def)

lemma agree_sym: "agree K s t \<Longrightarrow> agree K t s"
  by (simp add: agree_def)

lemma agree_obs: "agree K s t \<Longrightarrow> (\<And>a. a \<in> K \<Longrightarrow> space a = Unique) \<Longrightarrow> obs s t"
  unfolding agree_def obs_def by (metis vdisjoint_space)

lemma agree_wr:
  assumes "agree (insert v K) s t" "take_bit (bits v) x = take_bit (bits v) y"
  shows "agree K (wr s v x) (wr t v y)"
  unfolding agree_def
proof (intro allI impI)
  fix w assume "\<forall>a \<in> K. vdisjoint a w"
  then show "rd (wr s v x) w = rd (wr t v y) w"
    using assms by (intro wr_cong[of v K]) (auto simp: agree_def)
qed

lemma agree_write_one: "agree {v} (wr s v x) s"
  by (simp add: agree_def rd_wr_disjoint)

lemma agree_wr_id: "agree K (wr s v (rd s v)) s"
  by (simp add: agree_def wr_id)

lemma same_trace_refl [simp]: "same_trace tr tr"
  by (auto simp: same_trace_def obs_def list_all2_same)

lemma same_trace_events: "same_trace tr tr' \<Longrightarrow> map fst tr = map fst tr'"
  unfolding same_trace_def by (induction rule: list_all2_induct) auto

lemma same_trace_snoc: "same_trace tr tr' \<Longrightarrow> obs s t \<Longrightarrow> same_trace (tr @ [(e, s)]) (tr' @ [(e, t)])"
  by (simp add: same_trace_def list_all2_appendI)

lemma same_trace_trans: "same_trace a b \<Longrightarrow> same_trace b c \<Longrightarrow> same_trace a c"
  unfolding same_trace_def by (erule (1) list_all2_trans[rotated]) (auto simp: obs_def)

lemma sim_refl [simp]: "sim K m m"
  by (simp add: sim_def)

lemma sim_trans: "sim K l m \<Longrightarrow> sim K m n \<Longrightarrow> sim K l n"
  by (auto simp: sim_def intro: agree_trans same_trace_trans)

lemma sim_mono: "sim K m n \<Longrightarrow> K \<subseteq> L \<Longrightarrow> sim L m n"
  by (auto simp: sim_def intro: agree_mono)

subsection \<open>One operation in two machines\<close>

text \<open>
  \<open>op'\<close> does in the second machine what \<open>op\<close> does in the first: it is \<open>op\<close>
  with its reads renamed by \<open>f\<close>, and reads the same values.
\<close>

lemma exec_rename:
  assumes mn: "sim K m n"
    and f: "\<And>v. vsize (f v) = vsize v"
    and reads: "\<And>v. v \<in> set (visit_reads op) \<Longrightarrow> rd (fst m) v = rd (fst n) (f v)"
    and ctl: "op_effect op = Controls \<Longrightarrow> ctl_kind (visit_reads_mut f op) = ctl_kind op \<and>
        map (rd (fst m)) (ctl_reads op) = map (rd (fst n)) (ctl_reads (visit_reads_mut f op))"
    and mem: "\<And>a sp. a \<in> K \<Longrightarrow> mem_space op = Some sp \<Longrightarrow> space a \<noteq> sp"
    and vis: "\<And>a. a \<in> K \<Longrightarrow> observes op \<Longrightarrow> space a = Unique"
  shows "sim (K - set_option (op_writes op)) (exec op m) (exec (visit_reads_mut f op) n)"
proof -
  obtain s tr where m: "m = (s, tr)" by (cases m)
  obtain t tr' where n: "n = (t, tr')" by (cases n)
  have st: "agree K s t" and tr: "same_trace tr tr'"
    using mn by (simp_all add: sim_def m n)
  have ins: "map (rd t \<circ> f) (visit_reads op) = map (rd s) (visit_reads op)"
    using reads by (simp add: m n)
  have w: "agree (K - {v}) (wr s v x) (wr t v x)" for v x
    using st by (intro agree_wr) (auto intro: agree_mono)
  have w0: "agree K (wr s v x) (wr t v x)" for v x
    using st by (intro agree_wr) (auto intro: agree_mono)
  have far: "rd s (mem_loc sp a k) = rd t (mem_loc sp a k)" if "mem_space op = Some sp" for sp a k
    using agree_rd[OF st] mem[OF _ that] by (auto simp: mem_loc_def vdisjoint_space)
  have seen: "obs s t" if "observes op"
    using agree_obs[OF st] vis[OF _ that] by blast
  show ?thesis
  proof (cases "op_effect op")
    case (Assigns out)
    then show ?thesis
      using w tr by (simp add: ins sim_def exec_op_def m n visit_reads_mut_effect visit_reads_mut_reads
          op_value_reads_mut[OF f] op_writes_def)
  next
    case (LoadsFrom out sp ptr)
    then have "ptr \<in> set (visit_reads op)"
      by (cases op) auto
    with LoadsFrom reads[of ptr] far[of sp] show ?thesis
      using w tr by (simp add: sim_def exec_op_def m n visit_reads_mut_effect op_writes_def mem_space_def)
  next
    case (StoresTo sp ptr val)
    then have "ptr \<in> set (visit_reads op)" "val \<in> set (visit_reads op)"
      by (cases op; auto)+
    with StoresTo reads show ?thesis
      using w0 tr by (simp add: sim_def exec_op_def m n visit_reads_mut_effect op_writes_def f)
  next
    case (UserOp out g args)
    then have "visit_reads op = args" by (cases op) auto
    with ins have args: "map (rd t \<circ> f) args = map (rd s) args" by simp
    from UserOp seen same_trace_events[OF tr] show ?thesis
      using w tr st by (cases out) (auto simp: args sim_def exec_op_def m n visit_reads_mut_effect op_writes_def
          observes_def same_trace_snoc)
  next
    case Controls
    with ctl seen show ?thesis
      using tr st by (simp add: sim_def exec_op_def m n visit_reads_mut_effect op_writes_def
          observes_def same_trace_snoc)
  qed
qed

lemma exec_agree:
  assumes mn: "sim K m n"
    and reads: "\<And>a v. a \<in> K \<Longrightarrow> v \<in> set (sem_reads op) \<Longrightarrow> vdisjoint a v"
    and mem: "\<And>a sp. a \<in> K \<Longrightarrow> mem_space op = Some sp \<Longrightarrow> space a \<noteq> sp"
    and vis: "\<And>a. a \<in> K \<Longrightarrow> observes op \<Longrightarrow> space a = Unique"
  shows "sim (K - set_option (op_writes op)) (exec op m) (exec op n)"
proof -
  have r: "rd (fst m) v = rd (fst n) v" if "v \<in> set (sem_reads op)" for v
    using mn reads[OF _ that] by (intro agree_rd) (auto simp: sim_def)
  have "sim (K - set_option (op_writes op)) (exec op m) (exec (visit_reads_mut (\<lambda>v. v) op) n)"
    using r by (intro exec_rename assms) (auto simp: sem_reads_def visit_reads_mut_id)
  then show ?thesis by (simp add: visit_reads_mut_id)
qed

lemma run_agree_all: "sim {} m n \<Longrightarrow> sim {} (run ops m) (run ops n)"
proof (induction ops arbitrary: m n)
  case (Cons op ops)
  then show ?case
    using exec_agree[of "{}" m n op] by simp
qed simp

text \<open>
  Running on while a dead unique \<open>v\<close> differs: it is not read before it is assigned
  again, so everything else comes out equal.
\<close>

lemma run_dead:
  assumes "sim {v} m n" "live_reads v ops = 0" "separate v ops"
  shows "sim {v} (run ops m) (run ops n)"
  using assms
proof (induction ops arbitrary: m n)
  case (Cons op ops)
  have v: "v \<notin> set (visit_reads op)"
    using Cons.prems(2) by (simp add: count_reads_pos[symmetric])
  then have far: "vdisjoint v w" if "w \<in> set (sem_reads op)" for w
    using Cons.prems(3) that ctl_reads_not_ram_dest[of v op ops]
    by (auto simp: sem_reads_def separate_def)
  have step: "sim ({v} - set_option (op_writes op)) (exec op m) (exec op n)"
    using Cons.prems(3) far
    by (intro exec_agree Cons.prems(1)) (auto simp: separate_def wf_op_def)
  show ?case
  proof (cases "op_writes op = Some v")
    case True
    with step have "sim {} (exec op m) (exec op n)" by simp
    then have "sim {} (run (op # ops) m) (run (op # ops) n)"
      by (simp add: run_agree_all)
    then show ?thesis by (rule sim_mono) simp
  next
    case False
    then have "get_output op \<noteq> Some v"
      by (auto simp: get_output_effect op_writes_def split: effect.splits)
    then have "live_reads v ops = 0"
      using Cons.prems(2) by simp
    moreover have "sim {v} (exec op m) (exec op n)"
      using step by (rule sim_mono) blast
    ultimately show ?thesis
      using Cons.IH[of "exec op m" "exec op n"] separate_mono[OF Cons.prems(3), of ops] by auto
  qed
qed simp

text \<open>The same after an operation that may have assigned \<open>v\<close>.\<close>

lemma run_after_kill:
  assumes "sim ({v} - set_option (op_writes op)) m n" "get_output op = Some v \<or> live_reads v ops = 0"
    "separate v ops"
  shows "\<exists>K. sim K (run ops m) (run ops n) \<and> (\<forall>a \<in> K. space a = Unique)"
proof (cases "op_writes op = Some v")
  case True
  with assms(1) have "sim {} m n" by simp
  then have "sim {} (run ops m) (run ops n)"
    by (rule run_agree_all)
  then show ?thesis by (intro exI[of _ "{}"]) simp
next
  case False
  then have "live_reads v ops = 0"
    using assms(2) by (auto simp: get_output_effect op_writes_def split: effect.splits)
  moreover have "sim {v} m n"
    using assms(1) by (rule sim_mono) blast
  ultimately have "sim {v} (run ops m) (run ops n)"
    using assms(3) by (intro run_dead)
  then show ?thesis
    using assms(3) by (intro exI[of _ "{v}"]) (simp add: separate_def)
qed

subsection \<open>Stretches that do not see a difference\<close>

lemma run_ignores:
  assumes "sim K m n" "\<And>op a. op \<in> set ops \<Longrightarrow> a \<in> K \<Longrightarrow> ignores op a"
  shows "sim K (run ops m) (run ops n)"
  using assms
proof (induction ops arbitrary: m n)
  case (Cons op ops)
  have i: "ignores op a" if "a \<in> K" for a
    using Cons.prems(2) that by simp
  have "sim (K - set_option (op_writes op)) (exec op m) (exec op n)"
    by (intro exec_agree Cons.prems(1)) (use i in \<open>auto simp: ignores_def list_all_iff\<close>)
  then have "sim K (exec op m) (exec op n)"
    by (rule sim_mono) blast
  with Cons show ?case by simp
qed simp

lemma exec_keeps: "keeps op x \<Longrightarrow> rd (fst (exec op m)) x = rd (fst m) x"
  by (cases m; cases "op_effect op")
    (auto simp: exec_op_def keeps_def rd_wr_disjoint mem_loc_def vdisjoint_space split: option.splits)

lemma run_keeps: "(\<And>op. op \<in> set ops \<Longrightarrow> keeps op x) \<Longrightarrow> rd (fst (run ops m)) x = rd (fst m) x"
  by (induction ops arbitrary: m) (simp_all add: exec_keeps)

definition equiv_ops :: "PcodeOp list \<Rightarrow> PcodeOp list \<Rightarrow> bool" where
  "equiv_ops ops ops' \<longleftrightarrow> (\<forall>m. obs (fst (run ops m)) (fst (run ops' m)) \<and> same_trace (snd (run ops m)) (snd (run ops' m)))"

lemma equiv_ops_refl [simp]: "equiv_ops ops ops"
  by (simp add: equiv_ops_def obs_def)

lemma equiv_ops_trans [trans]: "equiv_ops a b \<Longrightarrow> equiv_ops b c \<Longrightarrow> equiv_ops a c"
  unfolding equiv_ops_def obs_def by (metis same_trace_trans)

lemma equiv_opsI:
  assumes "\<And>m. \<exists>K. sim K (run ops m) (run ops' m) \<and> (\<forall>a \<in> K. space a = Unique)"
  shows "equiv_ops ops ops'"
  using assms agree_obs unfolding equiv_ops_def sim_def by meson

lemma equiv_after:
  assumes "\<And>m. \<exists>K. sim K (run ops m) (run ops' m) \<and> (\<forall>a \<in> K. space a = Unique)"
  shows "equiv_ops (pre @ ops) (pre @ ops')"
  using assms by (intro equiv_opsI) simp

subsection \<open>The rewriting steps\<close>

lemma reading_rd: "reading (rd s)"
  by (simp add: reading_def rd_const rd_bounded)

lemma exec_copy_of:
  assumes "copy_of ext op op'"
  shows "sim {} (exec op m) (exec op' m)"
proof (cases m)
  case (Pair s tr)
  with assms reading_rd[of s] show ?thesis
    by (auto simp: copy_of_def exec_op_def sim_def intro!: agree_wr)
qed

lemma map_copy_of:
  assumes "\<And>op. op \<in> set ops \<Longrightarrow> g op = op \<or> copy_of ext op (g op)"
  shows "equiv_ops ops (map g ops)"
proof -
  have "sim {} (run ops m) (run (map g ops) n)" if "sim {} m n" for m n
    using assms that
  proof (induction ops arbitrary: m n)
    case (Cons op ops)
    have "sim {} (exec op m) (exec op n)"
      using Cons.prems(2) run_agree_all[of m n "[op]"] by simp
    then have "sim {} (exec op m) (exec (g op) n)"
      using Cons.prems(1)[of op] exec_copy_of sim_trans by fastforce
    with Cons show ?case by simp
  qed simp
  then show ?thesis by (intro equiv_opsI exI[of _ "{}"]) simp
qed

lemma subst_step:
  assumes U: "vsize B = vsize U" "separate U (r # post)"
    and mid: "\<And>op. op \<in> set mid \<Longrightarrow> ignores op U \<and> keeps op U \<and> keeps op B"
    and ctl: "op_effect r = Controls \<Longrightarrow> space B \<noteq> Ram"
    and dead: "get_output r = Some U \<or> live_reads U post = 0"
  shows "equiv_ops (pre @ Copy U B # mid @ r # post)
    (pre @ mid @ visit_reads_mut (\<lambda>v. if v = U then B else v) r # post)"
proof (rule equiv_after)
  fix m :: "'s mach"
  let ?f = "\<lambda>v. if v = U then B else v"
  obtain s tr where m: "m = (s, tr)" by (cases m)
  define m1 where "m1 = run mid (exec (Copy U B) m)"
  define n1 where "n1 = run mid m"
  have s0: "sim {U} (exec (Copy U B) m) m"
    by (simp add: m exec_op_def sim_def agree_write_one)
  have s1: "sim {U} m1 n1"
    unfolding m1_def n1_def by (rule run_ignores[OF s0]) (use mid in auto)
  have U': "space U = Unique" "offset U \<notin> set (ram_dest_uniques (r # post))" "wf_op r"
    using U(2) by (auto simp: separate_def)
  have "rd (fst m1) U = rd s B"
    using run_keeps[of mid U "exec (Copy U B) m"] mid U U'
    by (simp add: m1_def m exec_op_def rd_wr) (metis bits_def rd_bounded)
  moreover have "rd (fst n1) B = rd s B"
    using run_keeps[of mid B m] mid by (simp add: n1_def m)
  ultimately have eq: "rd (fst m1) U = rd (fst n1) B" by simp
  have rest: "rd (fst m1) v = rd (fst n1) v" if "v \<in> set (sem_reads r)" "v \<noteq> U" for v
    using s1 U(2) that by (auto simp: sim_def separate_def intro: agree_rd)
  have s2: "sim ({U} - set_option (op_writes r)) (exec r m1) (exec (visit_reads_mut ?f r) n1)"
  proof (rule exec_rename[OF s1])
    show "rd (fst m1) v = rd (fst n1) (?f v)" if "v \<in> set (visit_reads r)" for v
      using that eq rest by (auto simp: sem_reads_def)
    show "ctl_kind (visit_reads_mut ?f r) = ctl_kind r \<and>
        map (rd (fst m1)) (ctl_reads r) = map (rd (fst n1)) (ctl_reads (visit_reads_mut ?f r))"
      if "op_effect r = Controls"
      by (rule ctl_rename[OF that U'(3,1) U(1) ctl[OF that] U'(2) eq rest])
  qed (use U U' in \<open>auto simp: wf_op_def\<close>)
  have "separate U post"
    using U(2) by (rule separate_mono) auto
  from run_after_kill[OF s2 dead this]
  show "\<exists>K. sim K (run (Copy U B # mid @ r # post) m) (run (mid @ visit_reads_mut ?f r # post) m) \<and>
      (\<forall>a \<in> K. space a = Unique)"
    by (simp add: m1_def n1_def)
qed

lemma remove_step:
  assumes "get_output op = Some U" "live_reads U post = 0" "separate U post"
  shows "equiv_ops (pre @ op # post) (pre @ post)"
proof (rule equiv_after)
  fix m :: "'s mach"
  have "sim {U} (exec op m) m"
    using assms(1) by (cases m) (auto simp: exec_op_def sim_def agree_write_one get_output_effect split: effect.splits)
  from run_dead[OF this assms(2,3)] assms(3)
  show "\<exists>K. sim K (run (op # post) m) (run post m) \<and> (\<forall>a \<in> K. space a = Unique)"
    by (intro exI[of _ "{U}"]) (simp add: separate_def)
qed

lemma and_step:
  assumes "space k = Const" "vsize U = vsize D" "D = U \<or> live_reads U post = 0" "separate U post"
  shows "equiv_ops (pre @ IntAnd U x k # IntAnd D U k # post) (pre @ IntAnd D x k # post)"
proof (rule equiv_after)
  fix m :: "'s mach"
  obtain s tr where m: "m = (s, tr)" by (cases m)
  let ?a = "rd s x AND rd s k"
  have U: "space U = Unique"
    using assms(4) by (simp add: separate_def)
  have "rd (wr s U ?a) U AND rd (wr s U ?a) k = take_bit (bits U) ?a AND rd s k"
    using U assms(1) by (simp add: rd_wr rd_const)
  then have eq: "take_bit (bits D) (rd (wr s U ?a) U AND rd (wr s U ?a) k) = take_bit (bits D) ?a"
    using assms(2) by (simp add: bits_def and.assoc)
  have "agree ({U} - {D}) (wr (wr s U ?a) D (rd (wr s U ?a) U AND rd (wr s U ?a) k)) (wr s D ?a)"
    using eq by (intro agree_wr agree_mono[OF agree_write_one]) auto
  then have s2: "sim ({U} - set_option (op_writes (IntAnd D U k)))
      (exec (IntAnd D U k) (exec (IntAnd U x k) m)) (exec (IntAnd D x k) m)"
    by (simp add: m exec_op_def sim_def op_writes_def)
  from run_after_kill[OF s2 _ assms(4)] assms(3)
  show "\<exists>K. sim K (run (IntAnd U x k # IntAnd D U k # post) m) (run (IntAnd D x k # post) m) \<and>
      (\<forall>a \<in> K. space a = Unique)"
    by simp
qed

lemma sink_step:
  assumes "get_output op = Some U" "vsize U = vsize D" "space D \<noteq> Const" "separate U post"
    and mid: "\<And>op. op \<in> set mid \<Longrightarrow> ignores op U \<and> keeps op U \<and> ignores op D \<and> keeps op D"
    and dead: "D = U \<or> live_reads U post = 0"
  shows "equiv_ops (pre @ op # mid @ Copy D U # post) (pre @ get_output_mut (\<lambda>_. D) op # mid @ post)"
proof (rule equiv_after)
  fix m :: "'s mach"
  obtain s tr where m: "m = (s, tr)" by (cases m)
  let ?op' = "get_output_mut (\<lambda>_. D) op"
  have U: "space U = Unique"
    using assms(4) by (simp add: separate_def)
  obtain x where x: "exec op m = (wr s U x, tr)" "exec ?op' m = (wr s D x, tr)"
    using assms(1,2) op_value_output_mut[OF assms(1) assms(2)[symmetric]]
    by (auto simp: m exec_op_def get_output_effect get_output_mut_effect get_output_mut_reads split: effect.splits)
  have s1: "sim {U, D} (wr s U x, tr) (wr s D x, tr)"
    unfolding sim_def fst_conv snd_conv
    by (intro conjI agree_trans[OF agree_mono[OF agree_write_one] agree_sym[OF agree_mono[OF agree_write_one]]]) auto
  define m2 where "m2 = run mid (wr s U x, tr)"
  define n2 where "n2 = run mid (wr s D x, tr)"
  have s2: "sim {U, D} m2 n2"
    unfolding m2_def n2_def by (rule run_ignores[OF s1]) (use mid in auto)
  have eq: "rd (fst m2) U = rd (fst n2) D"
    using run_keeps[of mid U] run_keeps[of mid D] mid U assms(2,3)
    by (simp add: m2_def n2_def rd_wr bits_def)
  have "agree ({U} - {D}) (wr (fst m2) D (rd (fst m2) U)) (wr (fst n2) D (rd (fst n2) D))"
    using s2 eq by (intro agree_wr) (auto simp: sim_def intro: agree_mono)
  then have "agree ({U} - {D}) (wr (fst m2) D (rd (fst m2) U)) (fst n2)"
    by (rule agree_trans) (rule agree_wr_id)
  with s2 have s3: "sim ({U} - set_option (op_writes (Copy D U))) (exec (Copy D U) m2) n2"
    by (cases m2) (simp add: exec_op_def sim_def op_writes_def)
  from run_after_kill[OF s3 _ assms(4)] dead
  show "\<exists>K. sim K (run (op # mid @ Copy D U # post) m) (run (?op' # mid @ post) m) \<and>
      (\<forall>a \<in> K. space a = Unique)"
    by (simp add: x m2_def n2_def)
qed

end

end
