(* ===== verification/PeepholeCorrect.thy ===== *)
theory PeepholeCorrect
  imports PeepholeSound
begin

text \<open>
  The passes of the optimiser as sequences of the rewriting steps of
  \<open>PeepholeSound\<close>: every pass keeps operation lists well formed, the cached analysis
  is the analysis of the current list whenever it is used, and a whole run of
  \<open>optimize\<close> is equivalent to the list it started from wherever the checks that
  passes 2 and 4 leave out hold.
\<close>

subsection \<open>What the passes do not check\<close>

text \<open>
  Pass 2 moves the read of the copied varnode down to the reader; pass 4 moves the
  assignment of the copy's destination up to the producer. Neither looks for
  overlapping accesses in between (pass 4 compares destinations by equality only).
\<close>

definition subst_ok :: "PcodeOp list \<Rightarrow> nat \<Rightarrow> Varnode \<Rightarrow> nat \<Rightarrow> bool" where
  "subst_ok ops i replacement read_idx \<longleftrightarrow>
     list_all (\<lambda>k. keeps (ops ! k) replacement) [i + 1..<read_idx] \<and>
     (op_effect (ops ! read_idx) = Controls \<longrightarrow> space replacement \<noteq> Ram)"

definition sink_ok :: "PcodeOp list \<Rightarrow> nat \<Rightarrow> Varnode \<Rightarrow> nat \<Rightarrow> bool" where
  "sink_ok ops i new_dest copy_idx \<longleftrightarrow>
     list_all (\<lambda>k. keeps (ops ! k) new_dest \<and> ignores (ops ! k) new_dest) [i + 1..<copy_idx]"

function subst_safe :: "nat \<Rightarrow> PcodeOp list \<Rightarrow> bool" where
  "subst_safe i ops =
     (if i < length ops then
        (case pass2_target ops (analyze_unique_outputs ops) i of
           Some (target, replacement, read_idx) \<Rightarrow>
             subst_ok ops i replacement read_idx \<and>
             subst_safe i (vec_remove i (ops[read_idx := fst (replace_reads (ops ! read_idx) target replacement)]))
         | None \<Rightarrow> subst_safe (i + 1) ops)
      else True)"
  by pat_completeness auto
termination
  by (relation "measure (\<lambda>(i, ops). length ops - i)") auto

function sink_safe :: "nat \<Rightarrow> PcodeOp list \<Rightarrow> bool" where
  "sink_safe i ops =
     (if i < length ops then
        (case pass4_sink ops (analyze_unique_outputs ops) i of
           Some (copy_idx, new_dest) \<Rightarrow>
             copy_idx < length ops \<longrightarrow>
             sink_ok ops i new_dest copy_idx \<and>
             sink_safe i (vec_remove copy_idx (ops[i := get_output_mut (\<lambda>_. new_dest) (ops ! i)]))
         | None \<Rightarrow> sink_safe (i + 1) ops)
      else True)"
  by pat_completeness auto
termination
  by (relation "measure (\<lambda>(i, ops). length ops - i)") auto

definition round_safe :: "PcodeOp list \<Rightarrow> bool" where
  "round_safe ops \<longleftrightarrow> list_all op_ok ops \<and>
     (let ops = map pass1b_op (map pass1_op (map pass0_op ops));
          (ops, analysis) = pass1a 0 ops (analyze_unique_outputs ops);
          (ops', analysis') = pass2 0 ops analysis
      in subst_safe 0 ops \<and> sink_safe 0 (pass3 ops' analysis'))"

primrec optimize_safe :: "nat \<Rightarrow> PcodeOp list \<Rightarrow> bool" where
  "optimize_safe 0 ops \<longleftrightarrow> True"
| "optimize_safe (Suc rounds) ops \<longleftrightarrow> round_safe ops \<and>
     (let ops' = optimize_once ops
      in length ops' = length ops \<or> optimize_safe rounds ops')"

declare subst_safe.simps [simp del] sink_safe.simps [simp del]

subsection \<open>Deriving operations keeps well-formedness\<close>

definition all_vns :: "PcodeOp list \<Rightarrow> Varnode set" where
  "all_vns ops = (\<Union>op \<in> set ops. set (op_vns op))"

definition outs :: "PcodeOp list \<Rightarrow> Varnode set" where
  "outs ops = {v. \<exists>op \<in> set ops. get_output op = Some v}"

definition user_outs :: "PcodeOp list \<Rightarrow> Varnode set" where
  "user_outs ops = {v. \<exists>op \<in> set ops. \<exists>f ins. op_effect op = UserOp (Some v) f ins}"

lemma op_vns_read: "v \<in> set (visit_reads op) \<Longrightarrow> v \<in> set (op_vns op)"
  "v \<in> set (sem_reads op) \<Longrightarrow> v \<in> set (op_vns op)"
  by (auto simp: op_vns_def sem_reads_def)

lemma op_vns_output: "get_output op = Some v \<Longrightarrow> v \<in> set (op_vns op)"
  "op_writes op = Some v \<Longrightarrow> v \<in> set (op_vns op)"
  by (auto simp: op_vns_def op_writes_def get_output_effect split: effect.splits)

lemma all_vnsI: "op \<in> set ops \<Longrightarrow> v \<in> set (op_vns op) \<Longrightarrow> v \<in> all_vns ops"
  by (auto simp: all_vns_def)

lemma outsI: "op \<in> set ops \<Longrightarrow> get_output op = Some v \<Longrightarrow> v \<in> outs ops"
  by (auto simp: outs_def)

lemma wf_ops_alt:
  "wf_ops ops \<longleftrightarrow> (\<forall>op \<in> set ops. wf_op op) \<and>
     (\<forall>v \<in> all_vns ops. space v = Unique \<longrightarrow> (\<forall>w \<in> all_vns ops. v = w \<or> vdisjoint v w)) \<and>
     user_outs ops \<inter> outs ops = {}"
proof -
  have "user_outputs_apart ops \<longleftrightarrow> user_outs ops \<inter> outs ops = {}"
    by (auto simp: user_outputs_apart_def user_outs_def outs_def split: effect.splits option.splits)
  then show ?thesis
    by (simp add: wf_ops_def list_all_iff uniques_apart_def all_vns_def)
qed

definition derived :: "PcodeOp list \<Rightarrow> PcodeOp \<Rightarrow> bool" where
  "derived ops op \<longleftrightarrow> wf_op op \<and> (\<forall>v \<in> set (op_vns op). space v = Const \<or> v \<in> all_vns ops) \<and>
     (\<forall>v. get_output op = Some v \<longrightarrow> v \<in> outs ops) \<and>
     (\<forall>v f ins. op_effect op = UserOp (Some v) f ins \<longrightarrow> v \<in> user_outs ops)"

lemma derived_same: "wf_ops ops \<Longrightarrow> op \<in> set ops \<Longrightarrow> derived ops op"
  by (auto simp: derived_def wf_ops_alt all_vns_def outs_def user_outs_def)

lemma wf_ops_derived:
  assumes "wf_ops ops" "\<And>op. op \<in> set ops' \<Longrightarrow> derived ops op"
  shows "wf_ops ops'"
proof -
  have "all_vns ops' \<subseteq> all_vns ops \<union> {v. space v = Const}" "outs ops' \<subseteq> outs ops" "user_outs ops' \<subseteq> user_outs ops"
    using assms(2) by (fastforce simp: derived_def all_vns_def outs_def user_outs_def)+
  moreover have "wf_op op" if "op \<in> set ops'" for op
    using assms(2)[OF that] by (simp add: derived_def)
  ultimately show ?thesis
    using assms(1) vdisjoint_Const unfolding wf_ops_alt by blast
qed

lemma wf_ops_subset: "wf_ops ops \<Longrightarrow> set ops' \<subseteq> set ops \<Longrightarrow> wf_ops ops'"
  by (rule wf_ops_derived) (auto intro: derived_same)

lemma wf_ops_insert: "wf_ops ops \<Longrightarrow> derived ops op \<Longrightarrow> set ops' \<subseteq> insert op (set ops) \<Longrightarrow> wf_ops ops'"
  by (rule wf_ops_derived) (auto intro: derived_same)

lemma derived_copy_of:
  assumes "wf_ops ops" "op \<in> set ops" "copy_of ext op op'"
  shows "derived ops op'"
proof -
  obtain out src where c: "op' = Copy out src" "op_effect op = Assigns out" "vsize src = vsize out"
    "space src = Const \<or> src \<in> set (visit_reads op)"
    using assms(3) by (auto simp: copy_of_def)
  have "wf_op op" using assms(1,2) by (simp add: wf_ops_alt)
  with c assms(2) show ?thesis
    by (auto simp: derived_def wf_op_def op_writes_def mem_space_def op_vns_def sem_reads_def ctl_reads_effect
        all_vns_def outs_def get_output_effect intro!: bexI[of _ op])
qed

lemma rename_writes [simp]: "op_writes (visit_reads_mut f op) = op_writes op"
  "mem_space (visit_reads_mut f op) = mem_space op"
  by (simp_all add: op_writes_def mem_space_def visit_reads_mut_effect split: effect.split)

lemma rename_ctl_reads:
  assumes "wf_op r" "space U = Unique" "r = BranchInd U \<or> r = CallInd U \<longrightarrow> space B \<noteq> Ram"
  shows "set (ctl_reads (visit_reads_mut (\<lambda>v. if v = U then B else v) r)) \<subseteq> insert B (set (ctl_reads r))"
proof (cases "op_effect r = Controls")
  case True
  then show ?thesis
    using assms by (cases rule: Controls_cases) (auto simp: ctl_simps ind_reads_def)
next
  case False
  then have "op_effect (visit_reads_mut (\<lambda>v. if v = U then B else v) r) \<noteq> Controls"
    by (simp add: visit_reads_mut_effect split: effect.split) (cases "op_effect r"; simp)
  then show ?thesis by (simp add: ctl_reads_effect)
qed

lemma derived_rename:
  assumes "wf_ops ops" "r \<in> set ops" "Copy U B \<in> set ops" "space U = Unique"
    "r = BranchInd U \<or> r = CallInd U \<longrightarrow> space B \<noteq> Ram"
  shows "derived ops (visit_reads_mut (\<lambda>v. if v = U then B else v) r)" (is "derived ops ?r")
proof -
  have wf: "wf_op r" "wf_op (Copy U B)"
    using assms(1-3) by (auto simp: wf_ops_alt)
  have "wf_op ?r"
    using wf assms(4) by (cases r) (auto simp: wf_op_def well_sized_reads_mut op_writes_def mem_space_def)
  moreover have "set (op_vns ?r) \<subseteq> insert B (set (op_vns r))"
    using rename_ctl_reads[OF wf(1) assms(4,5)]
    by (auto simp: op_vns_def sem_reads_def visit_reads_mut_reads)
  moreover have "B \<in> all_vns ops"
    using assms(3) by (rule all_vnsI) (simp add: op_vns_read)
  moreover have "get_output ?r = get_output r"
    by (simp add: get_output_effect visit_reads_mut_effect split: effect.split)
  moreover have "v \<in> user_outs ops" if "op_effect ?r = UserOp (Some v) f ins" for v f ins
  proof -
    from that obtain ins' where "op_effect r = UserOp (Some v) f ins'"
      by (simp add: visit_reads_mut_effect) (cases "op_effect r"; simp)
    with assms(2) show ?thesis by (auto simp: user_outs_def)
  qed
  ultimately show ?thesis
    using all_vnsI[OF assms(2)] outsI[OF assms(2)] by (auto simp: derived_def)
qed

lemma derived_output:
  assumes "wf_ops ops" "op \<in> set ops" "Copy D U \<in> set ops" "get_output op = Some U"
  shows "derived ops (get_output_mut (\<lambda>_. D) op)" (is "derived ops ?op")
proof -
  have wf: "wf_op op" "wf_op (Copy D U)"
    using assms(1-3) by (auto simp: wf_ops_alt)
  then have D: "vsize D = vsize U" "space D \<noteq> Const"
    by (simp_all add: wf_op_def op_writes_def)
  have "wf_op ?op"
    using wf(1) D well_sized_output_mut[OF assms(4) D(1)] assms(4)
    by (cases op) (auto simp: wf_op_def op_writes_def mem_space_def)
  moreover have "set (op_vns ?op) \<subseteq> insert D (set (op_vns op))" "get_output ?op = Some D"
    using assms(4) by (auto simp: op_vns_def sem_reads_def get_output_mut_reads get_output_mut_effect
        get_output_effect op_writes_def ctl_reads_effect split: effect.splits)
  moreover have "D \<in> all_vns ops" "D \<in> outs ops"
    using all_vnsI[OF assms(3)] outsI[OF assms(3)] by (simp_all add: op_vns_output)
  moreover have "op_effect ?op \<noteq> UserOp out f ins" for out f ins
    using assms(4) by (auto simp: get_output_mut_effect get_output_effect split: effect.splits)
  ultimately show ?thesis
    using all_vnsI[OF assms(2)] by (auto simp: derived_def)
qed

lemma derived_and:
  assumes "wf_ops ops" "IntAnd U x k \<in> set ops" "IntAnd D U k \<in> set ops"
  shows "derived ops (IntAnd D x k)"
proof -
  have "wf_op (IntAnd U x k)" "wf_op (IntAnd D U k)"
    using assms by (auto simp: wf_ops_alt)
  then have "wf_op (IntAnd D x k)"
    by (auto simp: wf_op_def op_writes_def mem_space_def)
  moreover have "D \<in> all_vns ops" "D \<in> outs ops" "x \<in> all_vns ops" "k \<in> all_vns ops"
    using all_vnsI[OF assms(2)] all_vnsI[OF assms(3)] outsI[OF assms(3)]
    by (simp_all add: op_vns_read op_vns_output)
  ultimately show ?thesis
    by (auto simp: derived_def op_vns_def sem_reads_def op_writes_def ctl_reads_def)
qed

lemma live_reads_skip:
  "(\<And>op. op \<in> set xs \<Longrightarrow> count_reads op v = 0 \<and> get_output op \<noteq> Some v) \<Longrightarrow> live_reads v (xs @ ys) = live_reads v ys"
  by (induction xs) auto

subsection \<open>What an analysis entry allows\<close>

lemma wf_separate:
  assumes "wf_ops ops" "op \<in> set ops" "get_output op = Some U" "touchable ops U"
  shows "separate U ops"
proof -
  have "U \<in> all_vns ops"
    using all_vnsI[OF assms(2)] op_vns_output(1)[OF assms(3)] .
  moreover have "w \<in> all_vns ops" if "op' \<in> set ops" "w \<in> set (sem_reads op')" for op' w
    using that by (simp add: all_vnsI op_vns_read)
  ultimately show ?thesis
    using assms(1,4) unfolding separate_def touchable_def wf_ops_alt by metis
qed

lemma wf_keeps:
  assumes "wf_ops ops" "op0 \<in> set ops" "get_output op0 = Some U" "space U = Unique"
    "op \<in> set ops" "get_output op \<noteq> Some U"
  shows "keeps op U"
proof -
  have U: "U \<in> all_vns ops" "U \<in> outs ops"
    using assms(2,3) by (auto intro: all_vnsI outsI op_vns_output)
  have w: "v \<in> all_vns ops" if "op_writes op = Some v" for v
    using assms(5) that by (simp add: all_vnsI op_vns_output)
  have apart: "vdisjoint v U" if "op_writes op = Some v" "v \<noteq> U" for v
    using assms(1,4) U(1) w[OF that(1)] that(2) unfolding wf_ops_alt by (metis vdisjoint_sym)
  have user: "v \<noteq> U" if "op_effect op = UserOp (Some v) f ins" for v f ins
    using assms(1,5) U(2) that unfolding wf_ops_alt user_outs_def by blast
  have "mem_space op \<noteq> Some Unique"
    using assms(1,5) by (auto simp: wf_ops_alt wf_op_def)
  then show ?thesis
    using apart user assms(4,6)
    by (cases "op_effect op") (auto simp: keeps_def op_writes_def mem_space_def get_output_effect split: option.splits)
qed

lemma separate_ignores:
  assumes "separate U ops" "op \<in> set ops" "U \<notin> set (visit_reads op)"
  shows "ignores op U"
proof -
  have "U \<notin> set (ctl_reads op)"
    using separate_mono[OF assms(1), of "[op]"] assms(2,3)
    by (intro ctl_reads_not_ram_dest[of U op "[]"]) (auto simp: separate_def)
  with assms show ?thesis
    by (auto simp: ignores_def list_all_iff sem_reads_def separate_def wf_op_def)
qed

text \<open>
  A unique with exactly one read left, at \<open>j\<close>: nothing between the two positions
  touches it, and after the reader it is dead.
\<close>

lemma read_once:
  assumes wf: "wf_ops ops" and out: "get_output (ops ! i) = Some U"
    and entry: "vec_get (analyze_unique_outputs ops) i = Some (Some info)"
    and once: "future_reads info = 1" "next_access info = Some (Read j)"
  obtains mid post where "i < j" "j < length ops" "ops = take i ops @ ops ! i # mid @ ops ! j # post"
    "mid = take (j - Suc i) (drop (Suc i) ops)" "post = drop (Suc j) ops"
    "separate U ops" "\<And>op. op \<in> set mid \<Longrightarrow> ignores op U \<and> keeps op U"
    "U \<in> set (visit_reads (ops ! j))" "get_output (ops ! j) = Some U \<or> live_reads U post = 0"
proof -
  from entry out have e: "i < length ops" "touchable ops U"
    "future_reads info = live_reads U (drop (Suc i) ops)"
    "next_access info = first_access U (Suc i) (drop (Suc i) ops)"
    by (auto elim!: analysis_entry)
  have fa: "first_access U (Suc i) (drop (Suc i) ops) = Some (Read j)"
    using e once by simp
  define mid where "mid = take (j - Suc i) (drop (Suc i) ops)"
  define post where "post = drop (Suc j) ops"
  have j: "i < j" "j < length ops" "U \<in> set (visit_reads (ops ! j))"
    using first_access_Read[OF fa] e(1) by auto
  have mid: "U \<notin> set (visit_reads op) \<and> get_output op \<noteq> Some U" if "op \<in> set mid" for op
  proof -
    from that obtain k where "k < j - Suc i" "op = drop (Suc i) ops ! k"
      by (auto simp: mid_def in_set_conv_nth)
    then show ?thesis using first_access_Read[OF fa] by simp
  qed
  have split: "ops = take i ops @ ops ! i # mid @ ops ! j # post"
    unfolding mid_def post_def by (rule split_at2) (rule j)+
  have sub: "set mid \<subseteq> set ops"
    by (auto simp: mid_def dest: in_set_takeD in_set_dropD)
  have sep: "separate U ops"
    using wf e(1,2) out by (intro wf_separate[of ops "ops ! i"]) auto
  have "drop (Suc i) ops = mid @ ops ! j # post"
    using split e(1) by (metis append_eq_conv_conj drop_Suc_Cons length_take min.absorb4 same_append_eq id_take_nth_drop list.inject)
  then have "live_reads U (mid @ ops ! j # post) = 1"
    using e once by simp
  then have "live_reads U (ops ! j # post) = 1"
    using live_reads_skip[of mid U "ops ! j # post"] mid by (simp add: count_reads_pos[symmetric])
  moreover have "0 < count_reads (ops ! j) U"
    using j(3) by (simp add: count_reads_pos)
  ultimately have dead: "get_output (ops ! j) = Some U \<or> live_reads U post = 0"
    by (auto split: if_splits)
  have "ignores op U \<and> keeps op U" if "op \<in> set mid" for op
    using that sub mid[OF that] separate_ignores[OF sep] e(1,2) out
    by (auto intro!: wf_keeps[OF wf, of "ops ! i"] simp: touchable_def)
  then show ?thesis
    using that[of mid post] j split sep dead by (simp add: mid_def post_def)
qed

subsection \<open>The shape of each rewrite\<close>

lemma vec_rewrite:
  assumes "ops = pre @ a # mid @ b # post" "i = length pre" "j = length pre + Suc (length mid)"
  shows "vec_remove i (ops[j := b']) = pre @ mid @ b' # post"
    "vec_remove j (ops[i := a']) = pre @ a' # mid @ post"
  using assms by (simp_all add: vec_remove_def list_update_append)

lemma pass2_rewrite:
  assumes "wf_ops ops" "pass2_target ops (analyze_unique_outputs ops) i = Some (U, B, j)"
    "i < length ops"
  obtains pre mid post where "ops = pre @ Copy U B # mid @ ops ! j # post" "length pre = i"
    "mid = take (j - Suc i) (drop (Suc i) ops)" "i < j"
    "vec_remove i (ops[j := fst (replace_reads (ops ! j) U B)]) =
       pre @ mid @ visit_reads_mut (\<lambda>v. if v = U then B else v) (ops ! j) # post"
    "separate U ops" "\<And>op. op \<in> set mid \<Longrightarrow> ignores op U \<and> keeps op U"
    "get_output (ops ! j) = Some U \<or> live_reads U post = 0"
proof -
  from assms(2) obtain info where i: "ops ! i = Copy U B"
    "vec_get (analyze_unique_outputs ops) i = Some (Some info)" "future_reads info = 1"
    "next_access info = Some (Read j)"
    by (auto simp: pass2_target_def split: PcodeOp.splits option.splits if_splits NextAccess.splits)
  then have "get_output (ops ! i) = Some U" by simp
  from read_once[OF assms(1) this i(2-4)] obtain mid post where r:
    "i < j" "j < length ops" "ops = take i ops @ ops ! i # mid @ ops ! j # post"
    "mid = take (j - Suc i) (drop (Suc i) ops)" "post = drop (Suc j) ops" "separate U ops"
    "\<And>op. op \<in> set mid \<Longrightarrow> ignores op U \<and> keeps op U"
    "get_output (ops ! j) = Some U \<or> live_reads U post = 0"
    by blast
  have l: "length (take i ops) = i" "j = length (take i ops) + Suc (length mid)"
    using r(1,2,4) assms(3) by simp_all
  show ?thesis
    using that[of "take i ops" mid post] r i(1) l(1) vec_rewrite(1)[OF r(3) l(1)[symmetric] l(2)]
    by (simp add: replace_reads_def)
qed

lemma pass4_rewrite:
  assumes "wf_ops ops" "pass4_sink ops (analyze_unique_outputs ops) i = Some (j, D)" "i < length ops"
  obtains pre mid post U where "ops = pre @ ops ! i # mid @ Copy D U # post" "length pre = i"
    "mid = take (j - Suc i) (drop (Suc i) ops)" "i < j" "j < length ops"
    "vec_remove j (ops[i := get_output_mut (\<lambda>_. D) (ops ! i)]) = pre @ get_output_mut (\<lambda>_. D) (ops ! i) # mid @ post"
    "get_output (ops ! i) = Some U"
    "separate U ops" "\<And>op. op \<in> set mid \<Longrightarrow> ignores op U \<and> keeps op U" "D = U \<or> live_reads U post = 0"
proof -
  from assms(2) obtain info U where i: "get_output (ops ! i) = Some U" "ops ! j = Copy D U"
    "vec_get (analyze_unique_outputs ops) i = Some (Some info)" "future_reads info = 1"
    "next_access info = Some (Read j)"
    by (auto simp: pass4_sink_def Let_def split: PcodeOp.splits option.splits if_splits NextAccess.splits)
  from read_once[OF assms(1) i(1,3-5)] obtain mid post where r:
    "i < j" "j < length ops" "ops = take i ops @ ops ! i # mid @ ops ! j # post"
    "mid = take (j - Suc i) (drop (Suc i) ops)" "post = drop (Suc j) ops" "separate U ops"
    "\<And>op. op \<in> set mid \<Longrightarrow> ignores op U \<and> keeps op U"
    "get_output (ops ! j) = Some U \<or> live_reads U post = 0"
    by blast
  have l: "length (take i ops) = i" "j = length (take i ops) + Suc (length mid)"
    using r(1,2,4) assms(3) by simp_all
  show ?thesis
    using that[of "take i ops" mid U post] r i(1,2) l(1) vec_rewrite(2)[OF r(3) l(1)[symmetric] l(2)]
    by simp
qed

lemma pass1a_rewrite:
  assumes "wf_ops ops" "pass1a_collapse ops (analyze_unique_outputs ops) i = Some D" "i + 1 < length ops"
  obtains pre post U x k where "ops = pre @ IntAnd U x k # IntAnd D U k # post" "length pre = i"
    "vec_remove (i + 1) (ops[i := set_and_output D (ops ! i)]) = pre @ IntAnd D x k # post"
    "space k = Const" "vsize U = vsize D" "separate U ops" "D = U \<or> live_reads U post = 0"
proof -
  from assms(2) obtain U x k info where i: "ops ! i = IntAnd U x k" "ops ! (i + 1) = IntAnd D U k" "space k = Const"
    "vec_get (analyze_unique_outputs ops) i = Some (Some info)" "future_reads info = 1"
    by (auto simp: pass1a_collapse_def Let_def split: PcodeOp.splits option.splits if_splits)
  define post where "post = drop (i + 2) ops"
  have d: "drop (Suc i) ops = ops ! (i + 1) # post"
    using assms(3) by (simp add: post_def Cons_nth_drop_Suc)
  have split: "ops = take i ops @ ops ! i # [] @ ops ! (i + 1) # post"
    using assms(3) d id_take_nth_drop[of i ops] by simp
  from i have e: "touchable ops U" "live_reads U (ops ! (i + 1) # post) = 1"
    by (auto elim!: analysis_entry simp: d)
  have k: "U \<noteq> k"
    using i(3) e(1) by (auto simp: touchable_def)
  have "wf_op (IntAnd D U k)"
    using assms(1,3) i(2) nth_mem[of "i + 1" ops] by (simp add: wf_ops_alt)
  then have sz: "vsize U = vsize D"
    by (simp add: wf_op_def)
  have sep: "separate U ops"
    using assms(1,3) e(1) i(1) nth_mem[of i ops] by (intro wf_separate[of ops "ops ! i"]) auto
  have dead: "D = U \<or> live_reads U post = 0"
    using e(2) k i(2) by (auto simp: count_reads_def split: if_splits)
  have l: "length (take i ops) = i" "i + 1 = length (take i ops) + Suc (length ([] :: PcodeOp list))"
    using assms(3) by simp_all
  show ?thesis
    using that[of "take i ops" U x k post] split i(1-3) l(1) sz sep dead vec_rewrite(2)[OF split l(1)[symmetric] l(2)]
    by (simp add: set_and_output_def)
qed

subsection \<open>The passes keep lists well formed and the analysis fresh\<close>

lemma wf_pass1a_step:
  assumes "wf_ops ops" "pass1a_collapse ops (analyze_unique_outputs ops) i = Some D" "i + 1 < length ops"
  shows "wf_ops (vec_remove (i + 1) (ops[i := set_and_output D (ops ! i)]))"
proof -
  obtain pre post U x k where
    r: "ops = pre @ IntAnd U x k # IntAnd D U k # post"
    "vec_remove (i + 1) (ops[i := set_and_output D (ops ! i)]) = pre @ IntAnd D x k # post"
    by (rule pass1a_rewrite[OF assms]) (rule that; assumption)
  have sub: "IntAnd U x k \<in> set ops" "IntAnd D U k \<in> set ops" "set (pre @ post) \<subseteq> set ops"
    using arg_cong[where f = set, OF r(1)] by auto
  with assms(1) have "derived ops (IntAnd D x k)"
    by (intro derived_and)
  then show ?thesis
    by (rule wf_ops_insert[OF assms(1)]) (use r(2) sub(3) in auto)
qed

lemma wf_pass2_step:
  assumes "wf_ops ops" "pass2_target ops (analyze_unique_outputs ops) i = Some (U, B, j)" "i < length ops"
    "ops ! j = BranchInd U \<or> ops ! j = CallInd U \<longrightarrow> space B \<noteq> Ram"
  shows "wf_ops (vec_remove i (ops[j := fst (replace_reads (ops ! j) U B)]))"
proof -
  obtain pre mid post where
    r: "ops = pre @ Copy U B # mid @ ops ! j # post"
    "vec_remove i (ops[j := fst (replace_reads (ops ! j) U B)]) =
       pre @ mid @ visit_reads_mut (\<lambda>v. if v = U then B else v) (ops ! j) # post" "separate U ops"
    by (rule pass2_rewrite[OF assms(1-3)]) (rule that; assumption)
  have sub: "ops ! j \<in> set ops" "Copy U B \<in> set ops" "set (pre @ mid @ post) \<subseteq> set ops"
    using arg_cong[where f = set, OF r(1)] by auto
  have "derived ops (visit_reads_mut (\<lambda>v. if v = U then B else v) (ops ! j))"
    using assms(1,4) sub r(3) by (intro derived_rename) (auto simp: separate_def)
  then show ?thesis
    by (rule wf_ops_insert[OF assms(1)]) (use r(2) sub(3) in auto)
qed

lemma subst_ok_dest:
  "subst_ok ops i B j \<Longrightarrow> ops ! j = BranchInd U \<or> ops ! j = CallInd U \<longrightarrow> space B \<noteq> Ram"
  by (auto simp: subst_ok_def)

lemma wf_pass4_step:
  assumes "wf_ops ops" "pass4_sink ops (analyze_unique_outputs ops) i = Some (j, D)" "i < length ops"
  shows "wf_ops (vec_remove j (ops[i := get_output_mut (\<lambda>_. D) (ops ! i)]))"
proof -
  obtain pre mid post U where
    r: "ops = pre @ ops ! i # mid @ Copy D U # post"
    "vec_remove j (ops[i := get_output_mut (\<lambda>_. D) (ops ! i)]) = pre @ get_output_mut (\<lambda>_. D) (ops ! i) # mid @ post"
    "get_output (ops ! i) = Some U"
    by (rule pass4_rewrite[OF assms]) (rule that; assumption)
  have sub: "ops ! i \<in> set ops" "Copy D U \<in> set ops" "set (pre @ mid @ post) \<subseteq> set ops"
    using arg_cong[where f = set, OF r(1)] by auto
  have "derived ops (get_output_mut (\<lambda>_. D) (ops ! i))"
    using assms(1) sub r(3) by (intro derived_output)
  then show ?thesis
    by (rule wf_ops_insert[OF assms(1)]) (use r(2) sub(3) in auto)
qed

text \<open>The analysis each loop carries is the analysis of the list it carries.\<close>

lemma pass1a_fresh:
  "snd (pass1a i ops (analyze_unique_outputs ops)) = analyze_unique_outputs (fst (pass1a i ops (analyze_unique_outputs ops)))"
proof (induction i ops "analyze_unique_outputs ops" rule: pass1a.induct)
  case (1 i ops)
  then show ?case
    by (subst (1 2) pass1a.simps) (auto simp: Let_def split: option.splits)
qed

lemma pass2_fresh:
  "snd (pass2 i ops (analyze_unique_outputs ops)) = analyze_unique_outputs (fst (pass2 i ops (analyze_unique_outputs ops)))"
proof (induction i ops "analyze_unique_outputs ops" rule: pass2.induct)
  case (1 i ops)
  then show ?case
    by (subst (1 2) pass2.simps) (auto simp: Let_def split: option.splits)
qed

lemma pass1a_wf:
  "wf_ops ops \<Longrightarrow> wf_ops (fst (pass1a i ops (analyze_unique_outputs ops)))"
proof (induction i ops "analyze_unique_outputs ops" rule: pass1a.induct)
  case (1 i ops)
  then show ?case
    using wf_pass1a_step[of ops i]
    by (subst pass1a.simps) (auto simp: Let_def split: option.splits)
qed

lemma pass2_wf:
  "wf_ops ops \<Longrightarrow> subst_safe i ops \<Longrightarrow> wf_ops (fst (pass2 i ops (analyze_unique_outputs ops)))"
proof (induction i ops "analyze_unique_outputs ops" rule: pass2.induct)
  case (1 i ops)
  from 1(3,4) show ?case
    using wf_pass2_step[of ops i, OF _ _ _ subst_ok_dest] 1(1,2) subst_safe.simps[of i ops]
    by (subst pass2.simps) (auto simp: Let_def split: option.splits if_splits)
qed

lemma pass4_wf:
  "wf_ops ops \<Longrightarrow> wf_ops (pass4 i ops (analyze_unique_outputs ops))"
proof (induction i ops "analyze_unique_outputs ops" rule: pass4.induct)
  case (1 i ops)
  then show ?case
    using wf_pass4_step[of ops i]
    by (subst pass4.simps) (auto simp: Let_def split: option.splits)
qed

lemma wf_no_protected: "wf_ops ops \<Longrightarrow> cbranch_protected ops = []"
proof -
  assume "wf_ops ops"
  then have "wf_op (ops ! i)" if "i < length ops" for i
    using that by (simp add: wf_ops_alt)
  then have "space d \<noteq> Const" if "i < length ops" "ops ! i = CBranch d c" for i d c
    using that by (fastforce simp: wf_op_def)
  then have "cbranch_indices ops = []"
    by (auto simp: cbranch_indices_def filter_empty_conv split: PcodeOp.splits)
  then show ?thesis by (simp add: cbranch_protected_def)
qed

subsection \<open>Removing dead outputs from the back\<close>

definition dead_at :: "PcodeOp list \<Rightarrow> nat \<Rightarrow> bool" where
  "dead_at ops i \<longleftrightarrow> i < length ops \<and> (\<exists>U. get_output (ops ! i) = Some U \<and> touchable ops U \<and>
     live_reads U (drop (Suc i) ops) = 0)"

lemma dead_entry_dead_at:
  assumes "i < length ops" "dead_entry (analyze_unique_outputs ops ! i)"
  shows "dead_at ops i"
proof -
  from assms obtain info where "vec_get (analyze_unique_outputs ops) i = Some (Some info)"
    "future_reads info = 0 \<or> next_access info = Some Write"
    by (auto simp: dead_entry_def vec_get_def split: option.splits)
  then show ?thesis
    by (elim analysis_entry) (auto simp: dead_at_def dest: first_access_Write)
qed

lemma live_reads_remove:
  assumes "live_reads v (xs @ op # ys) = 0" "get_output op = Some u" "live_reads u ys = 0"
  shows "live_reads v (xs @ ys) = 0"
  using assms by (induction xs) (auto split: if_splits)

lemma touchable_mono: "touchable ops v \<Longrightarrow> wf_ops ops' \<Longrightarrow> set ops' \<subseteq> set ops \<Longrightarrow> touchable ops' v"
  using ram_dest_uniques_mono[of ops' ops] wf_no_protected[of ops'] by (auto simp: touchable_def)

lemma dead_at_remove:
  assumes "wf_ops ops" "dead_at ops i" "dead_at ops j" "j < i"
  shows "dead_at (vec_remove i ops) j"
proof -
  obtain U V where U: "get_output (ops ! i) = Some U" "live_reads U (drop (Suc i) ops) = 0" "i < length ops"
    and V: "get_output (ops ! j) = Some V" "touchable ops V" "live_reads V (drop (Suc j) ops) = 0"
    using assms(2,3) by (auto simp: dead_at_def)
  let ?mid = "take (i - Suc j) (drop (Suc j) ops)"
  have "drop (Suc j) ops = take (i - Suc j) (drop (Suc j) ops) @ drop (Suc j) ops ! (i - Suc j) #
      drop (Suc (i - Suc j)) (drop (Suc j) ops)"
    by (rule id_take_nth_drop) (use assms(4) U(3) in simp)
  moreover have "drop (Suc j) ops ! (i - Suc j) = ops ! i" "drop (Suc (i - Suc j)) (drop (Suc j) ops) = drop (Suc i) ops"
    using assms(4) U(3) by simp_all
  ultimately have "live_reads V (?mid @ ops ! i # drop (Suc i) ops) = 0"
    using V(3) by metis
  then have "live_reads V (?mid @ drop (Suc i) ops) = 0"
    using U(1,2) by (rule live_reads_remove)
  moreover have "drop (Suc j) (vec_remove i ops) = ?mid @ drop (Suc i) ops"
    using assms(4) U(3) by (simp add: vec_remove_def drop_take)
  moreover have "vec_remove i ops ! j = ops ! j"
    using assms(4) U(3) by (simp add: vec_remove_def nth_append)
  moreover have "touchable (vec_remove i ops) V"
    using V(2) wf_ops_subset[OF assms(1) set_vec_remove] set_vec_remove by (rule touchable_mono)
  ultimately show ?thesis
    using V(1) assms(4) U(3) by (auto simp: dead_at_def)
qed

subsection \<open>The passes preserve behaviour\<close>

context pcode_machine
begin

lemma pass1a_step_equiv:
  assumes "wf_ops ops" "pass1a_collapse ops (analyze_unique_outputs ops) i = Some D" "i + 1 < length ops"
  shows "equiv_ops ops (vec_remove (i + 1) (ops[i := set_and_output D (ops ! i)]))"
proof (rule pass1a_rewrite[OF assms])
  fix pre post U x k
  assume r: "ops = pre @ IntAnd U x k # IntAnd D U k # post"
    "vec_remove (i + 1) (ops[i := set_and_output D (ops ! i)]) = pre @ IntAnd D x k # post"
    "space k = Const" "vsize U = vsize D" "separate U ops" "D = U \<or> live_reads U post = 0"
  have "separate U post"
    using r(5) by (rule separate_mono) (simp add: r(1) subset_iff)
  from and_step[OF r(3,4,6) this, of pre x] show ?thesis
    using r(1,2) by simp
qed

lemma pass2_step_equiv:
  assumes "wf_ops ops" "pass2_target ops (analyze_unique_outputs ops) i = Some (U, B, j)" "i < length ops"
    "subst_ok ops i B j"
  shows "equiv_ops ops (vec_remove i (ops[j := fst (replace_reads (ops ! j) U B)]))"
proof (rule pass2_rewrite[OF assms(1-3)])
  fix pre mid post
  assume r: "ops = pre @ Copy U B # mid @ ops ! j # post" "length pre = i"
    "mid = take (j - Suc i) (drop (Suc i) ops)" "i < j"
    "vec_remove i (ops[j := fst (replace_reads (ops ! j) U B)]) =
       pre @ mid @ visit_reads_mut (\<lambda>v. if v = U then B else v) (ops ! j) # post"
    "separate U ops" "\<And>op. op \<in> set mid \<Longrightarrow> ignores op U \<and> keeps op U"
    "get_output (ops ! j) = Some U \<or> live_reads U post = 0"
  have sub: "Copy U B \<in> set ops" "set (ops ! j # post) \<subseteq> set ops"
    using arg_cong[where f = set, OF r(1)] by auto
  have "keeps op B" if "op \<in> set mid" for op
    using assms(4) that r(3) by (auto simp: subst_ok_def list_all_iff in_set_conv_nth)
  moreover have "vsize B = vsize U"
    using assms(1) sub(1) by (auto simp: wf_ops_alt wf_op_def)
  moreover have "separate U (ops ! j # post)"
    using r(6) sub(2) by (rule separate_mono)
  moreover have "op_effect (ops ! j) = Controls \<Longrightarrow> space B \<noteq> Ram"
    using assms(4) by (simp add: subst_ok_def)
  ultimately have "equiv_ops (pre @ Copy U B # mid @ ops ! j # post)
      (pre @ mid @ visit_reads_mut (\<lambda>v. if v = U then B else v) (ops ! j) # post)"
    using r(7,8) by (intro subst_step) auto
  then show ?thesis
    by (subst r(5)) (subst r(1))
qed

lemma pass4_step_equiv:
  assumes "wf_ops ops" "pass4_sink ops (analyze_unique_outputs ops) i = Some (j, D)" "i < length ops"
    "sink_ok ops i D j"
  shows "equiv_ops ops (vec_remove j (ops[i := get_output_mut (\<lambda>_. D) (ops ! i)]))"
proof (rule pass4_rewrite[OF assms(1-3)])
  fix pre mid post U
  assume r: "ops = pre @ ops ! i # mid @ Copy D U # post" "length pre = i"
    "mid = take (j - Suc i) (drop (Suc i) ops)" "i < j" "j < length ops"
    "vec_remove j (ops[i := get_output_mut (\<lambda>_. D) (ops ! i)]) = pre @ get_output_mut (\<lambda>_. D) (ops ! i) # mid @ post"
    "get_output (ops ! i) = Some U"
    "separate U ops" "\<And>op. op \<in> set mid \<Longrightarrow> ignores op U \<and> keeps op U" "D = U \<or> live_reads U post = 0"
  have sub: "Copy D U \<in> set ops" "set post \<subseteq> set ops"
    using arg_cong[where f = set, OF r(1)] by auto
  have "keeps op D \<and> ignores op D" if "op \<in> set mid" for op
    using assms(4) that r(3) by (auto simp: sink_ok_def list_all_iff in_set_conv_nth)
  moreover have "vsize U = vsize D" "space D \<noteq> Const"
    using assms(1) sub(1) by (auto simp: wf_ops_alt wf_op_def op_writes_def)
  moreover have "separate U post"
    using r(8) sub(2) by (rule separate_mono)
  ultimately have "equiv_ops (pre @ ops ! i # mid @ Copy D U # post)
      (pre @ get_output_mut (\<lambda>_. D) (ops ! i) # mid @ post)"
    using r(7,9,10) by (intro sink_step[of _ U]) auto
  then show ?thesis
    by (subst r(6)) (subst r(1))
qed

lemma pass1a_equiv: "wf_ops ops \<Longrightarrow> equiv_ops ops (fst (pass1a i ops (analyze_unique_outputs ops)))"
proof (induction i ops "analyze_unique_outputs ops" rule: pass1a.induct)
  case (1 i ops)
  then show ?case
    using wf_pass1a_step[of ops i] pass1a_step_equiv[of ops i]
    by (subst pass1a.simps) (auto simp: Let_def split: option.splits intro: equiv_ops_trans)
qed

lemma pass2_equiv:
  "wf_ops ops \<Longrightarrow> subst_safe i ops \<Longrightarrow> equiv_ops ops (fst (pass2 i ops (analyze_unique_outputs ops)))"
proof (induction i ops "analyze_unique_outputs ops" rule: pass2.induct)
  case (1 i ops)
  from 1(3,4) show ?case
    using wf_pass2_step[of ops i, OF _ _ _ subst_ok_dest] pass2_step_equiv[of ops i] 1(1,2) subst_safe.simps[of i ops]
    by (subst pass2.simps) (auto simp: Let_def split: option.splits if_splits intro: equiv_ops_trans)
qed

lemma pass4_equiv:
  "wf_ops ops \<Longrightarrow> sink_safe i ops \<Longrightarrow> equiv_ops ops (pass4 i ops (analyze_unique_outputs ops))"
proof (induction i ops "analyze_unique_outputs ops" rule: pass4.induct)
  case (1 i ops)
  from 1(3,4) show ?case
    using wf_pass4_step[of ops i] pass4_step_equiv[of ops i] 1(1,2) sink_safe.simps[of i ops]
    by (subst pass4.simps) (auto simp: Let_def split: option.splits if_splits intro: equiv_ops_trans)
qed

lemma remove_dead_equiv:
  assumes "wf_ops ops" "sorted_wrt (>) is" "\<And>i. i \<in> set is \<Longrightarrow> dead_at ops i"
  shows "equiv_ops ops (fold vec_remove is ops)"
  using assms
proof (induction "is" arbitrary: ops)
  case (Cons i "is")
  have "dead_at ops i" using Cons.prems(3) by simp
  then obtain U where U: "i < length ops" "get_output (ops ! i) = Some U" "touchable ops U"
    "live_reads U (drop (Suc i) ops) = 0"
    by (auto simp: dead_at_def)
  have "separate U ops"
    using wf_separate[OF Cons.prems(1) nth_mem[OF U(1)] U(2,3)] .
  then have "separate U (drop (Suc i) ops)"
    by (rule separate_mono) (rule set_drop_subset)
  from remove_step[OF U(2,4) this, of "take i ops"] have "equiv_ops ops (vec_remove i ops)"
    by (simp add: vec_remove_def id_take_nth_drop[OF U(1), symmetric])
  moreover have "wf_ops (vec_remove i ops)"
    using Cons.prems(1) set_vec_remove by (rule wf_ops_subset)
  moreover have "dead_at (vec_remove i ops) j" if "j \<in> set is" for j
    using Cons.prems that by (intro dead_at_remove) auto
  ultimately show ?case
    using Cons.IH[of "vec_remove i ops"] Cons.prems(2) by (auto intro: equiv_ops_trans)
qed simp

lemma pass3_equiv:
  assumes "wf_ops ops"
  shows "equiv_ops ops (pass3 ops (analyze_unique_outputs ops))"
proof -
  have "sorted_wrt (>) (rev (filter P [0..<n]))" for P and n :: nat
    by (simp add: sorted_wrt_rev sorted_wrt_filter)
  then show ?thesis
    using assms unfolding pass3_def Let_def
    by (intro remove_dead_equiv) (auto intro: dead_entry_dead_at)
qed

end

lemma pass3_subset: "set (pass3 ops analysis) \<subseteq> set ops"
proof -
  have "set (fold vec_remove is ops) \<subseteq> set ops" for "is" :: "nat list"
    by (induction "is" arbitrary: ops) (auto dest: subsetD[OF set_vec_remove])
  then show ?thesis by (simp add: pass3_def Let_def)
qed

lemma wf_map:
  assumes "wf_ops ops" "\<And>op. op \<in> set ops \<Longrightarrow> g op = op \<or> copy_of ext op (g op)"
  shows "wf_ops (map g ops)"
  using assms(1) by (rule wf_ops_derived)
    (use assms derived_same[OF assms(1)] derived_copy_of[OF assms(1)] in \<open>fastforce\<close>)

text \<open>The list after passes 0, 1 and 1b, and after 1a, 2 and 3.\<close>

definition peeled :: "PcodeOp list \<Rightarrow> PcodeOp list" where
  "peeled ops = map pass1b_op (map pass1_op (map pass0_op ops))"

definition masked :: "PcodeOp list \<Rightarrow> PcodeOp list" where
  "masked ops = fst (pass1a 0 (peeled ops) (analyze_unique_outputs (peeled ops)))"

definition forwarded :: "PcodeOp list \<Rightarrow> PcodeOp list" where
  "forwarded ops = fst (pass2 0 (masked ops) (analyze_unique_outputs (masked ops)))"

definition pruned :: "PcodeOp list \<Rightarrow> PcodeOp list" where
  "pruned ops = pass3 (forwarded ops) (analyze_unique_outputs (forwarded ops))"

lemma optimize_once_stages:
  "optimize_once ops = pass4 0 (pruned ops) (analyze_unique_outputs (pruned ops))"
  using pass1a_fresh[of 0 "peeled ops"] pass2_fresh[of 0 "masked ops"]
  by (simp add: optimize_once_def pruned_def forwarded_def masked_def peeled_def Let_def case_prod_beta)

lemma round_safe_stages:
  "round_safe ops \<longleftrightarrow> list_all op_ok ops \<and> subst_safe 0 (masked ops) \<and> sink_safe 0 (pruned ops)"
  using pass1a_fresh[of 0 "peeled ops"] pass2_fresh[of 0 "masked ops"]
  by (simp add: round_safe_def pruned_def forwarded_def masked_def peeled_def Let_def case_prod_beta)

lemma peeled_copies:
  assumes "list_all op_ok ops" "op \<in> set ops"
  shows "pass0_op op = op \<or> copy_of ext op (pass0_op op)"
  using assms copy_of_pass0[of op ext] by (auto simp: list_all_iff)

lemma peeled_copies1: "pass1_op op = op \<or> copy_of ext op (pass1_op op)"
  "pass1b_op op = op \<or> copy_of ext op (pass1b_op op)"
  using copy_of_pass1[of op ext] copy_of_pass1b[of op ext] by blast+

lemma peeled_wf: "wf_ops ops \<Longrightarrow> list_all op_ok ops \<Longrightarrow> wf_ops (peeled ops)"
  unfolding peeled_def by (intro wf_map peeled_copies1 peeled_copies)

lemma round_wf:
  assumes "wf_ops ops" "round_safe ops"
  shows "wf_ops (masked ops)" "wf_ops (forwarded ops)" "wf_ops (pruned ops)" "wf_ops (optimize_once ops)"
proof -
  show m: "wf_ops (masked ops)"
    unfolding masked_def using assms by (intro pass1a_wf peeled_wf) (auto simp: round_safe_stages)
  show f: "wf_ops (forwarded ops)"
    unfolding forwarded_def using m assms(2) by (intro pass2_wf) (auto simp: round_safe_stages)
  show p: "wf_ops (pruned ops)"
    unfolding pruned_def using f pass3_subset by (rule wf_ops_subset)
  show "wf_ops (optimize_once ops)"
    unfolding optimize_once_stages using p by (rule pass4_wf)
qed

context pcode_machine
begin

lemma peeled_equiv:
  assumes "list_all op_ok ops"
  shows "equiv_ops ops (peeled ops)"
  unfolding peeled_def
  by (intro equiv_ops_trans[OF map_copy_of equiv_ops_trans[OF map_copy_of map_copy_of]]
      peeled_copies1 peeled_copies[OF assms])

lemma optimize_once_equiv:
  assumes "wf_ops ops" "round_safe ops"
  shows "equiv_ops ops (optimize_once ops)"
proof -
  have s: "list_all op_ok ops" "subst_safe 0 (masked ops)" "sink_safe 0 (pruned ops)"
    using assms(2) by (simp_all add: round_safe_stages)
  have "equiv_ops ops (peeled ops)"
    by (rule peeled_equiv) (rule s)
  also have "equiv_ops (peeled ops) (masked ops)"
    unfolding masked_def by (intro pass1a_equiv peeled_wf assms s)
  also have "equiv_ops (masked ops) (forwarded ops)"
    unfolding forwarded_def by (intro pass2_equiv round_wf assms s)
  also have "equiv_ops (forwarded ops) (pruned ops)"
    unfolding pruned_def by (intro pass3_equiv round_wf assms)
  also have "equiv_ops (pruned ops) (optimize_once ops)"
    unfolding optimize_once_stages by (intro pass4_equiv round_wf assms s)
  finally show ?thesis .
qed

lemma optimize_rounds_equiv:
  "wf_ops ops \<Longrightarrow> optimize_safe n ops \<Longrightarrow> equiv_ops ops (optimize_rounds n ops)"
proof (induction n arbitrary: ops)
  case (Suc n)
  then have "equiv_ops ops (optimize_once ops)" "wf_ops (optimize_once ops)"
    by (simp_all add: optimize_once_equiv round_wf)
  with Suc show ?case
    by (auto simp: Let_def intro: equiv_ops_trans)
qed simp

end

end
