(* ===== verification/PeepholeWf.thy ===== *)
theory PeepholeWf
  imports PeepholeCorrect
begin

text \<open>
  Every pass keeps operation lists well formed, with no condition on the values of constants
  or on what lies between a producer and its reader. Only an indirect branch through a unique
  that is a copy from memory could leave the form; the locale \<open>kept_by_passes\<close> carries a
  condition on single operations that excludes it through all passes, and is interpreted on
  the two conditions of the property.
\<close>

subsection \<open>Rewriting to a copy, without regard to values\<close>

definition becomes_copy :: "PcodeOp \<Rightarrow> PcodeOp \<Rightarrow> bool" where
  "becomes_copy op op' \<longleftrightarrow> (\<exists>out src. op' = Copy out src \<and> op_effect op = Assigns out \<and> vsize src = vsize out \<and>
     (space src = Const \<or> src \<in> set (visit_reads op)))"

lemma derived_becomes_copy:
  assumes "wf_ops ops" "op \<in> set ops" "becomes_copy op op'"
  shows "derived ops op'"
proof -
  obtain out src where c: "op' = Copy out src" "op_effect op = Assigns out" "vsize src = vsize out"
    "space src = Const \<or> src \<in> set (visit_reads op)"
    using assms(3) by (auto simp: becomes_copy_def)
  have "wf_op op" using assms(1,2) by (simp add: wf_ops_alt)
  with c assms(2) show ?thesis
    by (auto simp: derived_def wf_op_def op_writes_def mem_space_def op_vns_def sem_reads_def ctl_reads_effect
        all_vns_def outs_def get_output_effect intro!: bexI[of _ op])
qed

lemma const_fold_output: "const_fold_op op = Some (out, v) \<Longrightarrow> op_effect op = Assigns out"
  by (cases op)
    (auto simp: fold_unary_const_def fold_binary_const_def fold_shift_const_def fold_compare_const_def Let_def
      split: if_splits)

lemma becomes_copy_pass0:
  assumes "well_sized op" "pass0_op op \<noteq> op"
  shows "becomes_copy op (pass0_op op)"
proof (cases "const_fold_op op")
  case None
  with assms show ?thesis
    by (cases op) (auto simp: pass0_op_def pass0_match_def becomes_copy_def split: if_splits)
next
  case (Some p)
  then show ?thesis
    using const_fold_output[of op] by (cases p) (auto simp: pass0_op_def becomes_copy_def)
qed

lemma becomes_copy_pass1: "pass1_op op \<noteq> op \<Longrightarrow> becomes_copy op (pass1_op op)"
  "pass1b_op op \<noteq> op \<Longrightarrow> becomes_copy op (pass1b_op op)"
  using copy_of_pass1[of op undefined] copy_of_pass1b[of op undefined]
  by (auto simp: copy_of_def becomes_copy_def)

subsection \<open>A condition on single operations that all passes keep\<close>

locale kept_by_passes =
  fixes P :: "PcodeOp \<Rightarrow> bool"
  assumes copied: "P op \<Longrightarrow> becomes_copy op op' \<Longrightarrow> P op'"
    and renamed: "P r \<Longrightarrow> P (Copy U B) \<Longrightarrow> space U = Unique \<Longrightarrow> P (visit_reads_mut (\<lambda>v. if v = U then B else v) r)"
    and retargeted: "P op \<Longrightarrow> get_output op = Some U \<Longrightarrow> space U = Unique \<Longrightarrow> P (get_output_mut (\<lambda>_. D) op)"
    and masked_once: "P (IntAnd U x k) \<Longrightarrow> space U = Unique \<Longrightarrow> P (IntAnd D x k)"
    and no_memory_dest: "P (Copy U B) \<Longrightarrow> P r \<Longrightarrow> r = BranchInd U \<or> r = CallInd U \<Longrightarrow> space U = Unique \<Longrightarrow> space B \<noteq> Ram"
begin

definition ok :: "PcodeOp list \<Rightarrow> bool" where
  "ok ops \<longleftrightarrow> wf_ops ops \<and> list_all P ops"

lemma ok_map:
  assumes "ok ops" "\<And>op. op \<in> set ops \<Longrightarrow> g op \<noteq> op \<Longrightarrow> becomes_copy op (g op)"
  shows "ok (map g ops)"
proof -
  have wf: "wf_ops ops" and p: "P op" if "op \<in> set ops" for op
    using assms(1) that by (auto simp: ok_def list_all_iff)
  have "derived ops (g op) \<and> P (g op)" if op: "op \<in> set ops" for op
  proof (cases "g op = op")
    case True
    with op show ?thesis using derived_same[OF wf[OF op] op] p[OF op] by simp
  next
    case False
    from assms(2)[OF op this] op show ?thesis
      using derived_becomes_copy[OF wf[OF op] op] copied[OF p[OF op]] by simp
  qed
  then show ?thesis
    using assms(1) wf_ops_derived[of ops "map g ops"] by (auto simp: ok_def list_all_iff)
qed

lemma ok_peeled: "ok ops \<Longrightarrow> ok (peeled ops)"
proof -
  assume "ok ops"
  then have "well_sized op" if "op \<in> set ops" for op
    using that by (auto simp: ok_def wf_ops_alt wf_op_def)
  then have "ok (map pass0_op ops)"
    using ok_map[OF \<open>ok ops\<close>] becomes_copy_pass0 by blast
  then show ?thesis
    unfolding peeled_def by (rule ok_map[OF ok_map[OF _ becomes_copy_pass1(1)] becomes_copy_pass1(2)])
qed

lemma ok_insert: "ok ops \<Longrightarrow> wf_ops ops' \<Longrightarrow> set ops' \<subseteq> insert op (set ops) \<Longrightarrow> P op \<Longrightarrow> ok ops'"
  by (auto simp: ok_def list_all_iff)

lemma ok_mem: "ok ops \<Longrightarrow> op \<in> set ops \<Longrightarrow> P op"
  by (simp add: ok_def list_all_iff)

lemma ok_pass1a_step:
  assumes "ok ops" "pass1a_collapse ops (analyze_unique_outputs ops) i = Some D" "i + 1 < length ops"
  shows "ok (vec_remove (i + 1) (ops[i := set_and_output D (ops ! i)]))"
proof -
  have wf: "wf_ops ops" using assms(1) by (simp add: ok_def)
  obtain pre post U x k where
    r: "ops = pre @ IntAnd U x k # IntAnd D U k # post"
    "vec_remove (i + 1) (ops[i := set_and_output D (ops ! i)]) = pre @ IntAnd D x k # post" "separate U ops"
    by (rule pass1a_rewrite[OF wf assms(2,3)]) (rule that; assumption)
  have sub: "IntAnd U x k \<in> set ops" "set (pre @ post) \<subseteq> set ops"
    using arg_cong[where f = set, OF r(1)] by auto
  have "P (IntAnd D x k)"
    using masked_once[OF ok_mem[OF assms(1) sub(1)]] r(3) by (simp add: separate_def)
  then show ?thesis
    by (rule ok_insert[OF assms(1) wf_pass1a_step[OF wf assms(2,3)], rotated]) (use r(2) sub(2) in auto)
qed

lemma ok_pass2_step:
  assumes "ok ops" "pass2_target ops (analyze_unique_outputs ops) i = Some (U, B, j)" "i < length ops"
  shows "ok (vec_remove i (ops[j := fst (replace_reads (ops ! j) U B)]))"
proof -
  have wf: "wf_ops ops" using assms(1) by (simp add: ok_def)
  obtain pre mid post where
    r: "ops = pre @ Copy U B # mid @ ops ! j # post"
    "vec_remove i (ops[j := fst (replace_reads (ops ! j) U B)]) =
       pre @ mid @ visit_reads_mut (\<lambda>v. if v = U then B else v) (ops ! j) # post" "separate U ops"
    by (rule pass2_rewrite[OF wf assms(2,3)]) (rule that; assumption)
  have sub: "ops ! j \<in> set ops" "Copy U B \<in> set ops" "set (pre @ mid @ post) \<subseteq> set ops"
    using arg_cong[where f = set, OF r(1)] by auto
  note p = ok_mem[OF assms(1) sub(1)] ok_mem[OF assms(1) sub(2)]
  have U: "space U = Unique" using r(3) by (simp add: separate_def)
  have "ops ! j = BranchInd U \<or> ops ! j = CallInd U \<longrightarrow> space B \<noteq> Ram"
    using no_memory_dest[OF p(2,1) _ U] by blast
  note w = wf_pass2_step[OF wf assms(2,3) this]
  show ?thesis
    by (rule ok_insert[OF assms(1) w _ renamed[OF p U]]) (use r(2) sub(3) in auto)
qed

lemma ok_pass4_step:
  assumes "ok ops" "pass4_sink ops (analyze_unique_outputs ops) i = Some (j, D)" "i < length ops"
  shows "ok (vec_remove j (ops[i := get_output_mut (\<lambda>_. D) (ops ! i)]))"
proof -
  have wf: "wf_ops ops" using assms(1) by (simp add: ok_def)
  obtain pre mid post U where
    r: "ops = pre @ ops ! i # mid @ Copy D U # post"
    "vec_remove j (ops[i := get_output_mut (\<lambda>_. D) (ops ! i)]) = pre @ get_output_mut (\<lambda>_. D) (ops ! i) # mid @ post"
    "get_output (ops ! i) = Some U" "separate U ops"
    by (rule pass4_rewrite[OF wf assms(2,3)]) (rule that; assumption)
  have sub: "ops ! i \<in> set ops" "set (pre @ mid @ post) \<subseteq> set ops"
    using arg_cong[where f = set, OF r(1)] by auto
  have "P (get_output_mut (\<lambda>_. D) (ops ! i))"
    using retargeted[OF ok_mem[OF assms(1) sub(1)] r(3)] r(4) by (simp add: separate_def)
  then show ?thesis
    by (rule ok_insert[OF assms(1) wf_pass4_step[OF wf assms(2,3)], rotated]) (use r(2) sub(2) in auto)
qed

lemma ok_pass1a: "ok ops \<Longrightarrow> ok (fst (pass1a i ops (analyze_unique_outputs ops)))"
proof (induction i ops "analyze_unique_outputs ops" rule: pass1a.induct)
  case (1 i ops)
  then show ?case
    using ok_pass1a_step[of ops i]
    by (subst pass1a.simps) (auto simp: Let_def split: option.splits)
qed

lemma ok_pass2: "ok ops \<Longrightarrow> ok (fst (pass2 i ops (analyze_unique_outputs ops)))"
proof (induction i ops "analyze_unique_outputs ops" rule: pass2.induct)
  case (1 i ops)
  then show ?case
    using ok_pass2_step[of ops i]
    by (subst pass2.simps) (auto simp: Let_def split: option.splits)
qed

lemma ok_pass4: "ok ops \<Longrightarrow> ok (pass4 i ops (analyze_unique_outputs ops))"
proof (induction i ops "analyze_unique_outputs ops" rule: pass4.induct)
  case (1 i ops)
  then show ?case
    using ok_pass4_step[of ops i]
    by (subst pass4.simps) (auto simp: Let_def split: option.splits)
qed

lemma ok_pass3: "ok ops \<Longrightarrow> ok (pass3 ops analysis)"
  using pass3_subset[of ops analysis] wf_ops_subset[of ops] by (auto simp: ok_def list_all_iff)

lemma ok_optimize_once: "ok ops \<Longrightarrow> ok (optimize_once ops)"
  unfolding optimize_once_stages pruned_def forwarded_def masked_def
  by (intro ok_pass4 ok_pass3 ok_pass2 ok_pass1a ok_peeled)

lemma ok_optimize: "ok ops \<Longrightarrow> ok (optimize ops)"
proof -
  have "ok ops \<Longrightarrow> ok (optimize_rounds n ops)" for n
    by (induction n arbitrary: ops) (simp_all add: Let_def ok_optimize_once)
  then show "ok ops \<Longrightarrow> ok (optimize ops)" by (simp add: optimize_def)
qed

lemma optimize_wf: "wf_ops ops \<Longrightarrow> list_all P ops \<Longrightarrow> wf_ops (optimize ops)"
  using ok_optimize[of ops] by (simp add: ok_def)

end

subsection \<open>The two conditions\<close>

text \<open>No branch or call goes through a unique; no unique is computed from memory operands.\<close>

definition dest_not_unique :: "PcodeOp \<Rightarrow> bool" where
  "dest_not_unique op = (case op of
     BranchInd dest \<Rightarrow> space dest \<noteq> Unique
   | CallInd dest \<Rightarrow> space dest \<noteq> Unique
   | _ \<Rightarrow> True)"

definition unique_not_from_memory :: "PcodeOp \<Rightarrow> bool" where
  "unique_not_from_memory op = (case get_output op of
     Some out \<Rightarrow> space out = Unique \<longrightarrow> list_all (\<lambda>v. space v \<noteq> Ram) (visit_reads op)
   | None \<Rightarrow> True)"

interpretation plain_dests: kept_by_passes dest_not_unique
proof
  fix r :: PcodeOp and U B :: Varnode assume "dest_not_unique r" "space U = Unique"
  then show "dest_not_unique (visit_reads_mut (\<lambda>v. if v = U then B else v) r)"
    by (cases r) (auto simp: dest_not_unique_def)
next
  fix op :: PcodeOp and U D :: Varnode assume "get_output op = Some U"
  then show "dest_not_unique (get_output_mut (\<lambda>_. D) op)"
    by (cases op) (auto simp: dest_not_unique_def)
qed (auto simp: dest_not_unique_def becomes_copy_def)

lemma get_output_reads_mut: "get_output (visit_reads_mut f op) = get_output op"
  by (cases op) simp_all

lemma get_output_mut_const: "get_output (get_output_mut (\<lambda>_. D) op) = (if get_output op = None then None else Some D)"
  by (cases op) simp_all

interpretation plain_uniques: kept_by_passes unique_not_from_memory
proof
  fix op op' assume "unique_not_from_memory op" "becomes_copy op op'"
  then show "unique_not_from_memory op'"
    by (auto simp: unique_not_from_memory_def becomes_copy_def get_output_effect list_all_iff)
qed (auto simp: unique_not_from_memory_def get_output_reads_mut visit_reads_mut_reads get_output_mut_const
    get_output_mut_reads list_all_iff split: option.splits)

end
