(* ===== verification/PeepholeProps.thy ===== *)
theory PeepholeProps
  imports PeepholeWf
begin


subsection \<open>The optimiser\<close>


text \<open>An addition of an immediate, the flag it sets and the branch on it.\<close>

definition add_jump :: "PcodeOp list" where
  "add_jump = [
     Copy (unique 0x100 8) (constant_vn 5 8),
     IntAdd (unique 0x200 8) (register 0 8) (unique 0x100 8),
     Copy (register 0 8) (unique 0x200 8),
     IntEq (unique 0x300 1) (register 0 8) (constant_vn 0 8),
     Copy (register 0x206 1) (unique 0x300 1),
     CBranch (ram 0x401000 8) (register 0x206 1)]"




text \<open>
  C33. The optimiser keeps a list well formed, whether or not it preserves what the list
  does: no condition on its constants, and none on what passes 2 and 4 step over. The list
  may have indirect branches through uniques, or uniques computed from memory operands, but
  not both.
\<close>

theorem optimize_keeps_wf:
  assumes "wf_ops ops" "list_all dest_not_unique ops \<or> list_all unique_not_from_memory ops"
  shows "wf_ops (optimize ops)"
  using plain_dests.optimize_wf[OF assms(1)] plain_uniques.optimize_wf[OF assms(1)] assms(2) by blast

text \<open>An exchange of two registers, which is optimised although its behaviour changes.\<close>

definition swap :: "PcodeOp list" where
  "swap = [Copy (unique 0 8) (register 0 8), Copy (register 0 8) (register 8 8), Copy (register 8 8) (unique 0 8)]"

lemma swap_facts:
  "optimize swap = [Copy (register 0 8) (register 8 8), Copy (register 8 8) (register 0 8)]"
  "wf_ops swap" "\<not> optimize_safe 4 swap" "list_all dest_not_unique swap"
  by code_simp+

theorem optimize_keeps_wf_witness:
  "wf_ops [Copy (register 0 8) (register 8 8), Copy (register 8 8) (register 0 8)]"
  using optimize_keeps_wf[OF swap_facts(2)] swap_facts(1,4) by simp

lemma pass1a_length: "length (fst (pass1a i ops analysis)) \<le> length ops"
proof (induction i ops analysis rule: pass1a.induct)
  case (1 i ops analysis)
  then show ?case
    by (subst pass1a.simps) (force simp: Let_def split: option.splits)
qed

lemma pass2_length: "length (fst (pass2 i ops analysis)) \<le> length ops"
proof (induction i ops analysis rule: pass2.induct)
  case (1 i ops analysis)
  then show ?case
    by (subst pass2.simps) (force simp: Let_def split: option.splits)
qed

lemma pass4_length: "length (pass4 i ops analysis) \<le> length ops"
proof (induction i ops analysis rule: pass4.induct)
  case (1 i ops analysis)
  then show ?case
    by (subst pass4.simps) (force simp: Let_def split: option.splits)
qed

lemma pass3_length: "length (pass3 ops analysis) \<le> length ops"
proof -
  have "length (fold vec_remove is ops) \<le> length ops" for "is" :: "nat list"
  proof (induction "is" arbitrary: ops)
    case (Cons i "is")
    have "length (vec_remove i ops) \<le> length ops"
      by (simp add: vec_remove_def)
    with Cons[of "vec_remove i ops"] show ?case by simp
  qed simp
  then show ?thesis by (simp add: pass3_def Let_def)
qed

lemma optimize_once_length: "length (optimize_once ops) \<le> length ops"
proof -
  have "length (optimize_once ops) \<le> length (pruned ops)"
    by (simp add: optimize_once_stages pass4_length)
  also have "\<dots> \<le> length (forwarded ops)"
    by (simp add: pruned_def pass3_length)
  also have "\<dots> \<le> length (masked ops)"
    by (simp add: forwarded_def pass2_length)
  also have "\<dots> \<le> length (peeled ops)"
    by (simp add: masked_def pass1a_length)
  finally show ?thesis by (simp add: peeled_def)
qed

text \<open>Optimising never lengthens a list, on any input.\<close>

theorem optimize_length: "length (optimize ops) \<le> length ops"
proof -
  have "length (optimize_rounds n ops) \<le> length ops" for n
  proof (induction n arbitrary: ops)
    case (Suc n)
    show ?case
      using optimize_once_length[of ops] Suc[of "optimize_once ops"] by (simp add: Let_def)
  qed simp
  then show ?thesis by (simp add: optimize_def)
qed

text \<open>
  C31. The backward analysis computes the forward reading: the entry of an operation that
  assigns a unique it may touch counts the reads of that unique before its next
  assignment and names the first access to it; every other entry is empty.
\<close>

theorem analysis_meaning:
  assumes "i < length ops"
  shows "analyze_unique_outputs ops ! i = (case get_output (ops ! i) of
      Some out \<Rightarrow>
        if touchable ops out
        then Some \<lparr>future_reads = live_reads out (drop (Suc i) ops),
                   next_access = first_access out (Suc i) (drop (Suc i) ops)\<rparr>
        else None
    | None \<Rightarrow> None)"
  using assms by (simp add: analysis_nth entry_of_def unique_output_def touchable_def split: option.split)

theorem analysis_meaning_witness:
  "analyze_unique_outputs add_jump ! 1 = Some \<lparr>future_reads = 1, next_access = Some (Read 2)\<rparr>"
proof -
  have "1 < length add_jump" by (simp add: add_jump_def)
  from analysis_meaning[OF this] show ?thesis
    by simp code_simp
qed

lemma entry_read_in_range:
  assumes "vec_get (analyze_unique_outputs ops) i = Some (Some info)" "next_access info = Some (Read j)"
  shows "i < j \<and> j < length ops"
  using assms by (elim analysis_entry) (auto dest!: first_access_Read)

lemma pass2_target_entry:
  assumes "pass2_target ops analysis i = Some (target, replacement, j)"
  shows "\<exists>info. vec_get analysis i = Some (Some info) \<and> next_access info = Some (Read j)"
  using assms
  by (auto simp: pass2_target_def split: PcodeOp.splits option.splits if_splits NextAccess.splits)

lemma pass4_sink_entry:
  assumes "pass4_sink ops analysis i = Some (j, d)"
  shows "\<exists>info. vec_get analysis i = Some (Some info) \<and> next_access info = Some (Read j)"
  using assms
  by (auto simp: pass4_sink_def Let_def split: PcodeOp.splits option.splits if_splits NextAccess.splits)

text \<open>
  C32. The rewriting passes never index out of range: the positions passes 2 and 4 take
  from the analysis lie after the producer and inside the list, so the removals and
  updates of both loops are in bounds.
\<close>

theorem rewrite_in_range:
  "(pass2_target ops (analyze_unique_outputs ops) i = Some (target, replacement, j) \<longrightarrow> i < j \<and> j < length ops) \<and>
   (pass4_sink ops (analyze_unique_outputs ops) i = Some (k, d) \<longrightarrow> i < k \<and> k < length ops)"
  using entry_read_in_range[of ops i] pass2_target_entry[of ops _ i] pass4_sink_entry[of ops _ i]
  by blast

theorem rewrite_in_range_witness:
  "pass4_sink add_jump (analyze_unique_outputs add_jump) 1 = Some (2, register 0 8) \<and> (2::nat) < length add_jump"
  using rewrite_in_range[of add_jump 1 undefined undefined 0 2 "register 0 8"]
  by (simp add: add_jump_def) code_simp

subsection \<open>The constant folder\<close>

text \<open>
  C12. A folded operation whose operands have the sizes the reference prescribes, and whose
  shift amount, if it is a shift, fits its size, has the value the reference semantics gives
  it: all its operands are constants, and the folded word is the operation's result
  truncated to the output. The other constants may be wider than their size (a sign-extended
  displacement is); they count modulo it.
\<close>

theorem const_fold_value:
  assumes "const_fold_op op = Some (out, v)" "fold_ok op"
  shows "get_output op = Some out \<and> (\<forall>u \<in> set (visit_reads op). space u = Const) \<and>
    uint v = take_bit (bits out) (op_value ext op (map const_val (visit_reads op)))"
  using const_fold_correct[OF assms, of ext] by (simp add: folds_to_def)

text \<open>A sign-extended byte shifted by four.\<close>

theorem const_fold_value_witness:
  "take_bit 8 (op_value (\<lambda>_ _. 0) (IntAsr (register 0 1) (constant_vn 0xFFFFFFFFFFFFFF80 1) (constant_vn 4 1)) [0x80, 4]) = 0xf8"
proof -
  let ?op = "IntAsr (register 0 1) (constant_vn 0xFFFFFFFFFFFFFF80 1) (constant_vn 4 1)"
  have "const_fold_op ?op = Some (register 0 1, 0xf8)" "fold_ok ?op"
    by code_simp+
  from const_fold_value[OF this, of "\<lambda>_ _. 0"] show ?thesis
    by (simp add: bits_def const_val_def)
qed

subsection \<open>Replacing operands\<close>

text \<open>
  Replacing a varnode removes every read of it, reports whether there was one, and
  touches nothing else: no other operand, not the output, not the number of operands.
\<close>

theorem replace_reads_complete:
  assumes "replacement \<noteq> target"
  shows "\<not> reads_varnode (fst (replace_reads op target replacement)) target \<and>
    (snd (replace_reads op target replacement) \<longleftrightarrow> reads_varnode op target) \<and>
    get_output (fst (replace_reads op target replacement)) = get_output op \<and>
    visit_reads (fst (replace_reads op target replacement)) =
      map (\<lambda>v. if v = target then replacement else v) (visit_reads op)"
proof -
  have "get_output (visit_reads_mut f op) = get_output op" for f
    by (simp add: get_output_effect visit_reads_mut_effect split: effect.split)
  with assms show ?thesis
    by (auto simp: replace_reads_def reads_varnode_def count_reads_pos visit_reads_mut_reads)
qed

theorem replace_reads_complete_witness:
  "visit_reads (fst (replace_reads (IntAdd (unique 0 4) (unique 8 4) (unique 8 4)) (unique 8 4) (register 0 4))) =
     [register 0 4, register 0 4]"
  using replace_reads_complete[of "register 0 4" "unique 8 4" "IntAdd (unique 0 4) (unique 8 4) (unique 8 4)"]
  by (simp add: register_def unique_def)

subsection \<open>Sequences on which the optimiser changes behaviour\<close>

definition cmov :: "PcodeOp list" where
  "cmov = [Load (unique 0 8) Ram (register 0x10 8), CBranch (ram 0x1000 8) (register 0x206 1),
     Copy (register 0 8) (unique 0 8)]"

lemma cmov_facts:
  "optimize cmov = [Load (register 0 8) Ram (register 0x10 8), CBranch (ram 0x1000 8) (register 0x206 1)]"
  "wf_ops cmov" "\<not> optimize_safe 4 cmov"
  by code_simp+

lemma apart_facts:
  "vdisjoint (register 0 8) (register 8 8)" "vdisjoint (register 8 8) (register 0 8)"
  "vdisjoint (unique 0 8) (register 0 8)" "vdisjoint (unique 0 8) (register 8 8)"
  "vdisjoint (register 0 8) (unique 0 8)" "vdisjoint (register 8 8) (unique 0 8)"
  by code_simp+

text \<open>
  An exchange of two registers through a temporary is well formed, but pass 2 forwards
  the first register past its own overwrite: the second register ends with its old value
  instead of the first one's.
\<close>

theorem optimize_loses_swap:
  "byte_rd (fst (run_ops byte_rd byte_wr ext usr swap (s, tr))) (register 8 8) = byte_rd s (register 0 8) \<and>
   byte_rd (fst (run_ops byte_rd byte_wr ext usr (optimize swap) (s, tr))) (register 8 8) = byte_rd s (register 8 8)"
proof -
  have b: "bits (register 0 8) = bits (register 8 8)" "bits (unique 0 8) = bits (register 8 8)"
    by (simp_all add: bits_def)
  have "take_bit (bits (register 8 8)) (byte_rd s (register 0 8)) = byte_rd s (register 0 8)"
    using byte.rd_bounded[of "register 0 8" s] b by simp
  with b show ?thesis
    unfolding swap_facts(1)
    by (simp add: swap_def exec_op_def byte.rd_wr byte.rd_wr_disjoint apart_facts byte.rd_bounded)
qed

text \<open>
  A conditional move from memory: before, the branch that skips the move sees the
  register as it was; pass 4 loads into the register before the branch, so the move
  happens whether or not the branch is taken.
\<close>

theorem optimize_hoists_cmov:
  "map (\<lambda>(e, t). byte_rd t (register 0 8)) (snd (run_ops byte_rd byte_wr ext usr cmov (s, []))) =
     [byte_rd s (register 0 8)] \<and>
   map (\<lambda>(e, t). byte_rd t (register 0 8)) (snd (run_ops byte_rd byte_wr ext usr (optimize cmov) (s, []))) =
     [byte_rd s (mem_loc Ram (byte_rd s (register 0x10 8)) 8)]"
proof -
  have "take_bit (bits (register 0 8)) (byte_rd s (mem_loc Ram a 8)) = byte_rd s (mem_loc Ram a 8)" for a
    using byte.rd_bounded[of "mem_loc Ram a 8" s] by (simp add: bits_def mem_loc_def)
  then show ?thesis
    unfolding cmov_facts(1)
    by (simp add: cmov_def exec_op_def byte.rd_wr byte.rd_wr_disjoint apart_facts)
qed

text \<open>
  Two operations folded at the wrong width. The amount of a shift is not reduced to its size:
  shifting one to the left by a byte constant 1 that carries a higher bit gives 0 instead of
  2. A sign extension to sixteen bytes leaves the constant as it is, so that the byte 0x80
  becomes 0x80.
\<close>

lemma fold_shift_amount_unmasked:
  "const_fold_op (IntLsl (register 0 1) (constant_vn 1 1) (constant_vn 0x101 1)) = Some (register 0 1, 0)"
  "op_value ext (IntLsl (register 0 1) (constant_vn 1 1) (constant_vn 0x101 1))
     (map const_val [constant_vn 1 1, constant_vn 0x101 1]) = 2"
  "well_sized (IntLsl (register 0 1) (constant_vn 1 1) (constant_vn 0x101 1))"
  by (code_simp, simp_all add: const_val_def bits_def)

lemma sign_extension_lost:
  "optimize [IntSext (register 0 16) (constant_vn 0x80 1)] = [Copy (register 0 16) (constant_vn 0x80 16)]"
  "op_value ext (IntSext (register 0 16) (constant_vn 0x80 1)) [const_val (constant_vn 0x80 1)] = - 0x80"
  "wf_ops [IntSext (register 0 16) (constant_vn 0x80 1)]"
  by (code_simp, simp add: const_val_def bits_def signed_def, code_simp)

text \<open>The output of a user operation keeps its offset when the uniques are shifted.\<close>

lemma offset_unique_misses_user_output:
  "offset_unique_varnodes (CallOther (Some (unique 0x10 8)) 1 [unique 0x20 8]) 0x100 =
     CallOther (Some (unique 0x10 8)) 1 [unique 0x120 8]"
  by code_simp

end
