(* ===== verification/Ir.thy ===== *)
theory Ir
  imports Pcode
begin

text \<open>
  The decompiler's intermediate representation, \<^verbatim>\<open>rsleigh-decompile/src/ir.rs\<close>, with the
  evidence types of \<^verbatim>\<open>provenance.rs\<close> and \<^verbatim>\<open>memory.rs\<close> its records carry. Block and
  variable identifiers are the numbers the newtypes wrap (\<open>usize\<close> as \<open>nat\<close>,
  \<open>u32\<close> as a 32-bit word); constructors that share a name with a P-code operation get a
  prefix. The operations are the type lattice, the bounds-checked variable lookups with
  their out-of-range counter, and the growing lookup \<open>var_mut\<close>.
\<close>

subsection \<open>Identifiers and diagnostics\<close>

type_synonym BlockId = usize
type_synonym VarId = u32

datatype Severity = Info | Warn | Error

datatype DiagKind =
    OobVarId
  | UnresolvedBranchTarget
  | UnknownPcodeOp
  | DynamicValueMissing
  | ContextNotWired
  | StackAliasingUnknown
  | UnresolvedIndirectCall
  | StaleReturnInherited
  | TailCall
  | UnrecoveredIndirectJump
  | StackCookieCheck

record Diagnostic =
  severity :: Severity
  diag_kind :: DiagKind
  diag_addr :: "u64 option"
  detail :: string

subsection \<open>Evidence\<close>

record OperationOrigin =
  instruction_address :: u64
  operation_index :: usize

record Origins =
  operations :: "OperationOrigin list"
  truncated :: bool
  synthetic :: bool

definition default_origins :: Origins where
  "default_origins = \<lparr>operations = [], truncated = False, synthetic = True\<rparr>"

datatype Boundary =
    UnmodeledMemory
  | AmbiguousAlias
  | OverlappingStore
  | UnsupportedSideEffects
  | UnsupportedAddressSpace
  | MemoryStateLimit
  | MemoryTraversalLimit

primrec boundary_as_str :: "Boundary \<Rightarrow> string" where
  "boundary_as_str UnmodeledMemory = ''unmodeled_memory''"
| "boundary_as_str AmbiguousAlias = ''ambiguous_alias''"
| "boundary_as_str OverlappingStore = ''overlapping_store''"
| "boundary_as_str UnsupportedSideEffects = ''unsupported_side_effects''"
| "boundary_as_str UnsupportedAddressSpace = ''unsupported_address_space''"
| "boundary_as_str MemoryStateLimit = ''memory_state_limit''"
| "boundary_as_str MemoryTraversalLimit = ''memory_traversal_limit''"

datatype Access =
    StoreAccess AddressSpaceId
  | LoadAccess AddressSpaceId "VarId list" "Boundary option"

subsection \<open>Control flow graphs\<close>

datatype CallTarget = Direct u64 | IndirectTarget Varnode

datatype Terminator =
    TFallthrough BlockId
  | TBranch BlockId
  | TCBranch Varnode BlockId BlockId
  | TCall CallTarget BlockId
  | TReturn
  | TIndirect Varnode

record BasicBlock =
  block_id :: BlockId
  block_addr :: u64
  block_ops :: "(u64 \<times> PcodeOp) list"
  terminator :: Terminator
  terminator_origin :: "OperationOrigin option"

record Cfg =
  blocks :: "BasicBlock list"
  entry :: BlockId
  diagnostics :: "Diagnostic list"

datatype CfgEdgeKind = Tree | Back | Forward | Cross

record CfgEdge =
  edge_from :: BlockId
  edge_to :: BlockId
  edge_kind :: CfgEdgeKind

subsection \<open>SSA form\<close>

datatype BinOpKind =
    BAdd | BSub | BMult | BDiv | BSDiv | BRem | BSRem | BAnd | BOr | BXor | BLsl | BLsr | BAsr
  | BEq | BNotEq | BLess | BLessEq | BSLess | BSLessEq | BCarry | BSCarry | BSBorrow
  | BBoolAnd | BBoolOr | BBoolXor
  | BFloatAdd | BFloatSub | BFloatMult | BFloatDiv | BFloatEq | BFloatNotEq | BFloatLess | BFloatLessEq

datatype UnaryOpKind =
    UNeg | UNot | UZext | USext | UBoolNot | UFloatNeg | UFloatAbs | UFloatSqrt | UFloatNan
  | UInt2Float | UFloat2Float | UTrunc | UFloatCeil | UFloatFloor | UFloatRound | UPopcount | ULzcount

datatype Expr =
    EVar VarId
  | EConst u64 u32
  | EBinOp BinOpKind VarId VarId
  | EUnaryOp UnaryOpKind VarId
  | ELoad VarId
  | EFieldAccess VarId u64
  | EPhi "VarId list"
  | ETernary VarId VarId VarId
  | EUserOp u64 "VarId list"
  | EUnknown

datatype InferredType = UnknownT | UnsignedT | SignedT | FloatT | PointerT | BoolT

definition merge_type :: "InferredType \<Rightarrow> InferredType \<Rightarrow> InferredType" where
  "merge_type self other =
     (if self = other then self
      else case (self, other) of
        (UnknownT, t) \<Rightarrow> t
      | (t, UnknownT) \<Rightarrow> t
      | (SignedT, UnsignedT) \<Rightarrow> SignedT
      | (UnsignedT, SignedT) \<Rightarrow> SignedT
      | _ \<Rightarrow> self)"

record VarDef =
  var_id :: VarId
  varnode :: Varnode
  expr :: Expr
  origins :: Origins
  memory :: "Access option"
  var_size :: u32
  use_count :: u32
  param_name :: "string option"
  call_return :: bool
  inferred_type :: InferredType
  display_type :: "string option"

datatype SsaTerminator =
    SFallthrough BlockId
  | SBranch BlockId
  | SCBranch VarId BlockId BlockId
  | SCall CallTarget "VarId list" "VarId option" BlockId
  | SReturn "VarId option"
  | SIndirect VarId

datatype Stmt =
    Assign VarId
  | StoreStmt VarId VarId
  | CallStmt CallTarget "VarId list" "VarId option"

record SsaBlock =
  ssa_block_id :: BlockId
  ssa_block_addr :: u64
  stmts :: "Stmt list"
  ssa_terminator :: SsaTerminator

record SsaCfg =
  ssa_blocks :: "SsaBlock list"
  vars :: "VarDef list"
  ssa_entry :: BlockId
  ssa_diagnostics :: "Diagnostic list"

datatype StructuredStmt =
    StructAssign VarId VarId
  | StructStore VarId VarId
  | StructCall CallTarget "VarId list" "VarId option"
  | StructReturn "VarId option"
  | IfElse VarId "StructuredStmt list" "StructuredStmt list"
  | While VarId bool "StructuredStmt list"
  | DoWhile VarId bool "StructuredStmt list"
  | Switch VarId "(int list \<times> StructuredStmt list) list" "StructuredStmt list"
  | Break
  | Continue
  | Goto u64
  | Label u64

subsection \<open>Variable lookup\<close>

definition blank_vardef :: "VarId \<Rightarrow> VarDef" where
  "blank_vardef i = \<lparr>var_id = i, varnode = \<lparr>space = Const, offset = 0, vsize = 0\<rparr>, expr = EUnknown,
     origins = default_origins, memory = None, var_size = 0, use_count = 0, param_name = None,
     call_return = False, inferred_type = UnknownT, display_type = None\<rparr>"

definition sentinel_vardef :: VarDef where
  "sentinel_vardef = blank_vardef 0xFFFFFFFF"

text \<open>The thread's out-of-range counter is passed along and returned.\<close>

definition safe_var :: "VarDef list \<Rightarrow> VarId \<Rightarrow> usize \<Rightarrow> VarDef \<times> usize" where
  "safe_var vs i oob = (case vec_get vs (unat i) of
     Some v \<Rightarrow> (v, oob)
   | None \<Rightarrow> (sentinel_vardef, oob + 1))"

definition take_safe_var_oob_count :: "usize \<Rightarrow> usize \<times> usize" where
  "take_safe_var_oob_count oob = (oob, 0)"

definition ssa_var :: "SsaCfg \<Rightarrow> VarId \<Rightarrow> VarDef" where
  "ssa_var ssa i = (case vec_get (vars ssa) (unat i) of Some v \<Rightarrow> v | None \<Rightarrow> sentinel_vardef)"

function grow_vars :: "VarDef list \<Rightarrow> nat \<Rightarrow> VarDef list" where
  "grow_vars vs idx =
     (if length vs \<le> idx then grow_vars (vs @ [blank_vardef (of_nat (length vs))]) idx else vs)"
  by pat_completeness auto
termination
  by (relation "measure (\<lambda>(vs, idx). Suc idx - length vs)") auto

declare grow_vars.simps [simp del]

text \<open>The caller's writes through the returned reference are the function \<open>f\<close>.\<close>

definition var_mut :: "SsaCfg \<Rightarrow> VarId \<Rightarrow> (VarDef \<Rightarrow> VarDef) \<Rightarrow> SsaCfg" where
  "var_mut ssa i f =
     (let vs = grow_vars (vars ssa) (unat i) in ssa\<lparr>vars := vs[unat i := f (vs ! unat i)]\<rparr>)"

subsection \<open>Lookups are total and \<open>var_mut\<close> is local\<close>

lemma grow_vars_id: "idx < length vs \<Longrightarrow> grow_vars vs idx = vs"
  by (subst grow_vars.simps) simp

lemma grow_vars_spec:
  "idx < length (grow_vars vs idx) \<and> length (grow_vars vs idx) = max (length vs) (Suc idx) \<and>
   (\<forall>k < length (grow_vars vs idx). grow_vars vs idx ! k = (if k < length vs then vs ! k else blank_vardef (of_nat k)))"
proof (induction vs idx rule: grow_vars.induct)
  case (1 vs idx)
  show ?case
  proof (cases "length vs \<le> idx")
    case True
    have eq: "grow_vars vs idx = grow_vars (vs @ [blank_vardef (of_nat (length vs))]) idx"
      using True by (subst grow_vars.simps) simp
    show ?thesis
      using 1[OF True] True unfolding eq
      by (auto simp: nth_append max_def less_Suc_eq)
  next
    case False
    then show ?thesis by (simp add: grow_vars_id)
  qed
qed

text \<open>
  \<open>var_mut\<close> is a total, local update: the looked-up variable becomes \<open>f\<close> of
  what was there (a fresh blank entry where the index was out of range), every other
  variable that existed keeps its definition, and the table never shrinks.
\<close>

theorem var_mut_local:
  "ssa_var (var_mut ssa i f) i =
     f (if unat i < length (vars ssa) then ssa_var ssa i else blank_vardef i) \<and>
   (\<forall>j. j \<noteq> i \<and> unat j < length (vars ssa) \<longrightarrow> ssa_var (var_mut ssa i f) j = ssa_var ssa j) \<and>
   length (vars (var_mut ssa i f)) = max (length (vars ssa)) (Suc (unat i))"
proof -
  note g = grow_vars_spec[of "unat i" "vars ssa"]
  have "unat i \<noteq> unat j" if "j \<noteq> i" for j
    using that by (simp add: word_unat_eq_iff eq_commute)
  then show ?thesis
    using g by (auto simp: ssa_var_def var_mut_def Let_def vec_get_def)
qed

theorem var_mut_local_witness:
  "ssa_var (var_mut \<lparr>ssa_blocks = [], vars = [blank_vardef 0], ssa_entry = 0, ssa_diagnostics = []\<rparr> 2
      (\<lambda>v. v\<lparr>use_count := 7\<rparr>)) 0 = blank_vardef 0"
  using var_mut_local[of "\<lparr>ssa_blocks = [], vars = [blank_vardef 0], ssa_entry = 0, ssa_diagnostics = []\<rparr>" 2
      "\<lambda>v. v\<lparr>use_count := 7\<rparr>", THEN conjunct2, THEN conjunct1, rule_format, of 0]
  by (simp add: ssa_var_def vec_get_def)

text \<open>
  Merging inferred types: agreement is kept, \<open>Unknown\<close> is neutral on both sides, the
  result is one of the two inputs, and it is \<open>Unknown\<close> only when nothing was known.
\<close>

theorem merge_type_laws:
  "merge_type t t = t \<and> merge_type UnknownT t = t \<and> merge_type t UnknownT = t \<and>
   merge_type t u \<in> {t, u} \<and> (merge_type t u = UnknownT \<longleftrightarrow> t = UnknownT \<and> u = UnknownT)"
  by (cases t; cases u) (simp_all add: merge_type_def)

end
