(* ===== verification/CfgGraph.thy ===== *)
theory CfgGraph
  imports Ir "HOL-Library.Monad_Syntax"
begin

text \<open>
  The graph view of a control flow graph, the \<open>impl Cfg\<close> block of
  \<^verbatim>\<open>rsleigh-decompile/src/cfg.rs\<close>: successors, predecessors and the depth-first traversal
  that the edge classification and the dominator computation share. An out-of-range
  block index panics in the source; the operations return \<open>None\<close> there.
\<close>

subsection \<open>Successors and predecessors\<close>

primrec term_succs :: "Terminator \<Rightarrow> BlockId list" where
  "term_succs (TFallthrough b) = [b]"
| "term_succs (TBranch b) = [b]"
| "term_succs (TCBranch cond taken fallthrough) = [taken, fallthrough]"
| "term_succs (TCall target fallthrough) = [fallthrough]"
| "term_succs TReturn = []"
| "term_succs (TIndirect v) = []"

definition successors :: "Cfg \<Rightarrow> BlockId \<Rightarrow> BlockId list option" where
  "successors cfg b = map_option (\<lambda>block. term_succs (terminator block)) (vec_get (blocks cfg) b)"

text \<open>\<open>preds[to].push(from)\<close> for a target in range.\<close>

definition push_pred :: "BlockId \<Rightarrow> BlockId \<Rightarrow> BlockId list list \<Rightarrow> BlockId list list" where
  "push_pred frm to preds = (if to < length preds then preds[to := preds ! to @ [frm]] else preds)"

primrec push_preds :: "Cfg \<Rightarrow> BlockId list \<Rightarrow> BlockId list list \<Rightarrow> BlockId list list option" where
  "push_preds cfg [] preds = Some preds"
| "push_preds cfg (b # bs) preds = do {
     ss \<leftarrow> successors cfg b;
     push_preds cfg bs (fold (push_pred b) ss preds)
   }"

definition predecessors :: "Cfg \<Rightarrow> BlockId list list option" where
  "predecessors cfg =
     push_preds cfg (map block_id (blocks cfg)) (replicate (length (blocks cfg)) [])"

text \<open>The layout every construction of a graph establishes: block \<open>i\<close> has id \<open>i\<close>.\<close>

definition ids_are_indices :: "Cfg \<Rightarrow> bool" where
  "ids_are_indices cfg \<longleftrightarrow> map block_id (blocks cfg) = [0..<length (blocks cfg)]"

definition succs_of :: "Cfg \<Rightarrow> BlockId \<Rightarrow> BlockId list" where
  "succs_of cfg b = (if b < length (blocks cfg) then term_succs (terminator (blocks cfg ! b)) else [])"

lemma successors_in_range: "b < length (blocks cfg) \<Longrightarrow> successors cfg b = Some (succs_of cfg b)"
  by (simp add: successors_def succs_of_def vec_get_def)

lemma successors_out_of_range: "length (blocks cfg) \<le> b \<Longrightarrow> successors cfg b = None"
  by (simp add: successors_def vec_get_def)

lemma length_push_pred [simp]: "length (push_pred frm to preds) = length preds"
  by (simp add: push_pred_def)

lemma length_fold_push_pred [simp]: "length (fold (push_pred frm) ss preds) = length preds"
  by (induction ss arbitrary: preds) auto

lemma nth_fold_push_pred:
  "b < length preds \<Longrightarrow> fold (push_pred frm) ss preds ! b = preds ! b @ replicate (count_list ss b) frm"
proof (induction ss arbitrary: preds)
  case (Cons s ss)
  then show ?case
    using Cons.IH[of "push_pred frm s preds"]
    by (auto simp: push_pred_def nth_list_update replicate_append_same simp flip: replicate_Suc)
qed simp

lemma push_preds_spec:
  assumes "set bs \<subseteq> {..<length (blocks cfg)}"
  shows "\<exists>preds'. push_preds cfg bs preds = Some preds' \<and> length preds' = length preds \<and>
    (\<forall>b < length preds. preds' ! b = preds ! b @ concat (map (\<lambda>p. replicate (count_list (succs_of cfg p) b) p) bs))"
  using assms
proof (induction bs arbitrary: preds)
  case (Cons p bs)
  have s: "successors cfg p = Some (succs_of cfg p)"
    using Cons.prems by (simp add: successors_in_range)
  from Cons.IH[of "fold (push_pred p) (succs_of cfg p) preds"] Cons.prems obtain preds' where
    "push_preds cfg bs (fold (push_pred p) (succs_of cfg p) preds) = Some preds'" "length preds' = length preds"
    "\<forall>b < length preds. preds' ! b = fold (push_pred p) (succs_of cfg p) preds ! b @
       concat (map (\<lambda>p. replicate (count_list (succs_of cfg p) b) p) bs)"
    by auto
  with s show ?case by (simp add: nth_fold_push_pred)
qed simp

lemma predecessors_spec:
  assumes "ids_are_indices cfg"
  shows "\<exists>preds. predecessors cfg = Some preds \<and> length preds = length (blocks cfg) \<and>
    (\<forall>b < length (blocks cfg). set (preds ! b) = {p. p < length (blocks cfg) \<and> b \<in> set (succs_of cfg p)})"
proof -
  let ?n = "length (blocks cfg)"
  have ids: "map block_id (blocks cfg) = [0..<?n]"
    using assms by (simp add: ids_are_indices_def)
  have sub: "set (map block_id (blocks cfg)) \<subseteq> {..<?n}"
    unfolding ids by auto
  from push_preds_spec[OF sub, of "replicate ?n []"] obtain preds where
    p: "predecessors cfg = Some preds" "length preds = ?n"
    "\<forall>b < ?n. preds ! b = concat (map (\<lambda>p. replicate (count_list (succs_of cfg p) b) p) [0..<?n])"
    by (auto simp: predecessors_def ids)
  have "set (preds ! b) = {p. p < ?n \<and> b \<in> set (succs_of cfg p)}" if "b < ?n" for b
    using p(3) that by (auto simp: count_list_0_iff)
  with p show ?thesis by blast
qed

text \<open>
  C39. \<open>predecessors\<close> inverts \<open>successors\<close>: on a graph whose block ids are the
  indices it succeeds, has an entry per block, and lists exactly the blocks with an edge
  to it.
\<close>

theorem predecessors_inverse:
  assumes "ids_are_indices cfg"
  shows "\<exists>preds. predecessors cfg = Some preds \<and> length preds = length (blocks cfg) \<and>
    (\<forall>b < length (blocks cfg). \<forall>p. p \<in> set (preds ! b) \<longleftrightarrow>
       (\<exists>ss. successors cfg p = Some ss \<and> b \<in> set ss))"
  using predecessors_spec[OF assms]
  by (auto simp: successors_def succs_of_def vec_get_def)

text \<open>A branch that joins again, a loop back to one arm, and an unreachable block.\<close>

definition diamond :: Cfg where
  "diamond = \<lparr>blocks = map (\<lambda>(i, t). \<lparr>block_id = i, block_addr = of_nat i, block_ops = [], terminator = t,
       terminator_origin = None\<rparr>) (enumerate 0 [TCBranch (register 0x206 1) 1 2, TBranch 3, TBranch 3,
       TCBranch (register 0x206 1) 1 4, TReturn, TBranch 4]), entry = 0, diagnostics = []\<rparr>"

theorem predecessors_inverse_witness:
  "predecessors diamond = Some [[], [0, 3], [0], [1, 2], [3, 5], []] \<and> ids_are_indices diamond \<and>
   (\<exists>preds. predecessors diamond = Some preds \<and> length preds = length (blocks diamond))"
proof -
  have h: "ids_are_indices diamond" "predecessors diamond = Some [[], [0, 3], [0], [1, 2], [3, 5], []]"
    by code_simp+
  from predecessors_inverse[OF h(1)] h show ?thesis by blast
qed

subsection \<open>Depth-first search\<close>

text \<open>
  \<open>dfs_collect\<close> called on each of \<open>nodes\<close> in turn: a node out of range or already
  visited is skipped; otherwise it is marked, its neighbours are searched, and it is
  pushed.
\<close>

function (domintros) dfs_collect ::
  "(nat \<Rightarrow> nat list) \<Rightarrow> nat list \<Rightarrow> bool list \<Rightarrow> nat list \<Rightarrow> bool list \<times> nat list" where
  "dfs_collect adj [] visited out = (visited, out)"
| "dfs_collect adj (node # nodes) visited out =
     (if length visited \<le> node \<or> visited ! node then dfs_collect adj nodes visited out
      else case dfs_collect adj (adj node) (visited[node := True]) out of
        (visited', out') \<Rightarrow> dfs_collect adj nodes visited' (out' @ [node]))"
  by pat_completeness auto

definition unvisited :: "bool list \<Rightarrow> nat" where
  "unvisited visited = length (filter Not visited)"

lemma unvisited_mark: "node < length visited \<Longrightarrow> \<not> visited ! node \<Longrightarrow> unvisited (visited[node := True]) < unvisited visited"
proof -
  assume "node < length visited" "\<not> visited ! node"
  then have "visited = take node visited @ False # drop (Suc node) visited"
    using id_take_nth_drop[of node visited] by simp
  moreover have "visited[node := True] = take node visited @ True # drop (Suc node) visited"
    using \<open>node < length visited\<close> by (simp add: upd_conv_take_nth_drop)
  ultimately have "length (filter Not (take node visited @ False # drop (Suc node) visited)) = unvisited visited"
    "unvisited (visited[node := True]) = length (filter Not (take node visited @ True # drop (Suc node) visited))"
    by (simp_all add: unvisited_def)
  then show ?thesis by simp
qed

lemma dfs_dom_unvisited:
  assumes "dfs_collect_dom (adj, nodes, visited, out)"
  shows "unvisited (fst (dfs_collect adj nodes visited out)) \<le> unvisited visited"
  using assms
proof (induction rule: dfs_collect.pinduct)
  case (1 adj visited out)
  then show ?case by (simp add: dfs_collect.psimps)
next
  case (2 adj node nodes visited out)
  show ?case
  proof (cases "length visited \<le> node \<or> visited ! node")
    case True
    with 2 show ?thesis by (simp add: dfs_collect.psimps)
  next
    case False
    then have "unvisited (visited[node := True]) < unvisited visited"
      by (simp add: unvisited_mark)
    with 2 False show ?thesis
      by (auto simp: dfs_collect.psimps split: prod.split)
  qed
qed

termination dfs_collect
proof (relation "inv_image (less_than <*lex*> less_than) (\<lambda>(adj, nodes, visited, out). (unvisited visited, length nodes))",
    goal_cases)
  case (4 adj node nodes visited out x y)
  then have "unvisited x \<le> unvisited (visited[node := True])"
    using dfs_dom_unvisited[of adj "adj node" "visited[node := True]" out] by (metis fst_conv)
  also have "\<dots> < unvisited visited"
    using 4(1) by (simp add: unvisited_mark)
  finally show ?case by simp
qed (auto simp: unvisited_mark)

subsection \<open>What the search collects\<close>

definition marked :: "bool list \<Rightarrow> nat set" where
  "marked visited = {x. x < length visited \<and> visited ! x}"

text \<open>\<open>p\<close> comes after \<open>y\<close> in the post-order.\<close>

definition after :: "nat list \<Rightarrow> nat \<Rightarrow> nat \<Rightarrow> bool" where
  "after xs y p \<longleftrightarrow> (\<exists>us vs ws. xs = us @ y # vs @ p # ws)"

lemma after_append: "after xs y p \<Longrightarrow> after (as @ xs @ bs) y p"
  unfolding after_def by (metis append.assoc append_Cons)

lemma after_last: "y \<in> set xs \<Longrightarrow> after (xs @ [p] @ bs) y p"
  unfolding after_def by (metis append.assoc append_Cons append_Nil split_list)

lemma marked_update: "node < length visited \<Longrightarrow> marked (visited[node := True]) = insert node (marked visited)"
  by (auto simp: marked_def nth_list_update split: if_splits)

text \<open>
  The search appends the newly marked nodes, each once; the requested nodes in range and
  the neighbours of new nodes end up marked; every new node was requested or has an edge
  from a new node collected later.
\<close>

lemma dfs_collect_spec:
  "dfs_collect adj nodes visited out = (visited', out') \<Longrightarrow>
   \<exists>new. out' = out @ new \<and> length visited' = length visited \<and> distinct new \<and>
     set new = marked visited' - marked visited \<and> marked visited \<subseteq> marked visited' \<and>
     (\<forall>x \<in> set nodes. x < length visited \<longrightarrow> x \<in> marked visited') \<and>
     (\<forall>y \<in> set new. \<forall>z \<in> set (adj y). z < length visited \<longrightarrow> z \<in> marked visited') \<and>
     (\<forall>y \<in> set new. y \<in> set nodes \<or> (\<exists>p. after new y p \<and> y \<in> set (adj p)))"
proof (induction adj nodes visited out arbitrary: visited' out' rule: dfs_collect.induct)
  case (1 adj visited out)
  then show ?case by (intro exI[of _ "[]"]) auto
next
  case (2 adj node nodes visited out)
  show ?case
  proof (cases "length visited \<le> node \<or> visited ! node")
    case True
    with 2 obtain new where n: "out' = out @ new" "length visited' = length visited" "distinct new"
      "set new = marked visited' - marked visited" "marked visited \<subseteq> marked visited'"
      "\<forall>x \<in> set nodes. x < length visited \<longrightarrow> x \<in> marked visited'"
      "\<forall>y \<in> set new. \<forall>z \<in> set (adj y). z < length visited \<longrightarrow> z \<in> marked visited'"
      "\<forall>y \<in> set new. y \<in> set nodes \<or> (\<exists>p. after new y p \<and> y \<in> set (adj p))"
      by (auto split: if_splits)
    have "node < length visited \<longrightarrow> node \<in> marked visited'"
      using True n(5) by (auto simp: marked_def)
    with n show ?thesis by auto
  next
    case False
    obtain v1 o1 where d1: "dfs_collect adj (adj node) (visited[node := True]) out = (v1, o1)"
      by fastforce
    then have d2: "dfs_collect adj nodes v1 (o1 @ [node]) = (visited', out')"
      using 2(4) False by simp
    have mu: "marked (visited[node := True]) = insert node (marked visited)"
      using False by (simp add: marked_update)
    from 2(2)[OF False d1, unfolded mu length_list_update] obtain new1 where n1: "o1 = out @ new1" "length v1 = length visited" "distinct new1"
      "set new1 = marked v1 - insert node (marked visited)" "insert node (marked visited) \<subseteq> marked v1"
      "\<forall>x \<in> set (adj node). x < length visited \<longrightarrow> x \<in> marked v1"
      "\<forall>y \<in> set new1. \<forall>z \<in> set (adj y). z < length visited \<longrightarrow> z \<in> marked v1"
      "\<forall>y \<in> set new1. y \<in> set (adj node) \<or> (\<exists>p. after new1 y p \<and> y \<in> set (adj p))"
      by blast
    from 2(3)[OF False d1[symmetric] d2] obtain new2 where n2: "out' = o1 @ [node] @ new2" "length visited' = length v1" "distinct new2"
      "set new2 = marked visited' - marked v1" "marked v1 \<subseteq> marked visited'"
      "\<forall>x \<in> set nodes. x < length v1 \<longrightarrow> x \<in> marked visited'"
      "\<forall>y \<in> set new2. \<forall>z \<in> set (adj y). z < length v1 \<longrightarrow> z \<in> marked visited'"
      "\<forall>y \<in> set new2. y \<in> set nodes \<or> (\<exists>p. after new2 y p \<and> y \<in> set (adj p))"
      by auto
    define new where "new = new1 @ [node] @ new2"
    have "node \<notin> marked visited"
      using False by (auto simp: marked_def)
    then have s: "set new = marked visited' - marked visited" "distinct new"
      using n1(3-5) n2(3-5) by (auto simp: new_def)
    have closed: "\<forall>y \<in> set new. \<forall>z \<in> set (adj y). z < length visited \<longrightarrow> z \<in> marked visited'"
      using n1(2,6,7) n2(5,7) by (auto simp: new_def)
    have parent: "y \<in> set (node # nodes) \<or> (\<exists>p. after new y p \<and> y \<in> set (adj p))" if "y \<in> set new" for y
    proof -
      from that consider "y \<in> set new1" | "y = node" | "y \<in> set new2"
        by (auto simp: new_def)
      then show ?thesis
      proof cases
        case 1
        have "after new y node"
          using after_last[OF 1, of node new2] by (simp add: new_def)
        moreover have "after new y p" if "after new1 y p" for p
          using after_append[OF that, of "[]" "[node] @ new2"] by (simp add: new_def)
        ultimately show ?thesis using n1(8) 1 by blast
      next
        case 3
        have "after new y p" if "after new2 y p" for p
          using after_append[OF that, of "new1 @ [node]" "[]"] by (simp add: new_def)
        then show ?thesis using n2(8) 3 by auto
      qed simp
    qed
    have "out' = out @ new" "length visited' = length visited" "marked visited \<subseteq> marked visited'"
      "\<forall>x \<in> set (node # nodes). x < length visited \<longrightarrow> x \<in> marked visited'"
      using n1(1,2,5) n2(1,2,5,6) by (auto simp: new_def)
    with s closed parent show ?thesis by blast
  qed
qed

end
