(* ===== verification/Dominators.thy ===== *)
theory Dominators
  imports CfgGraph
begin

text \<open>
  Immediate dominators and post-dominators, \<^verbatim>\<open>rsleigh-decompile/src/dominators.rs\<close>: the
  iterative algorithm of Cooper, Harvey and Kennedy. The sentinel \<open>usize::MAX\<close> for a
  block without a computed dominator is \<open>None\<close> in the table. The two \<open>while\<close> loops of
  \<open>intersect\<close> and the outer iteration are partial functions: \<open>None\<close> stands for a
  panic or for not returning, so that returning is something to prove. The closures
  \<open>intersect\<close> and the bodies of the two iterations are the same code in both
  functions of the source and one definition here.
\<close>

type_synonym idom_table = "nat option list"

subsection \<open>Intersecting two chains\<close>

partial_function (option) climb :: "idom_table \<Rightarrow> nat list \<Rightarrow> nat \<Rightarrow> nat \<Rightarrow> nat option" where
  "climb idom rpo_num b limit = do {
     k \<leftarrow> vec_get rpo_num b;
     if k > limit
     then do { entry \<leftarrow> vec_get idom b; up \<leftarrow> entry; climb idom rpo_num up limit }
     else Some b
   }"

partial_function (option) intersect :: "idom_table \<Rightarrow> nat list \<Rightarrow> nat \<Rightarrow> nat \<Rightarrow> nat option" where
  "intersect idom rpo_num b1 b2 =
     (if b1 = b2 then Some b1
      else do {
        k2 \<leftarrow> vec_get rpo_num b2;
        b1' \<leftarrow> climb idom rpo_num b1 k2;
        k1 \<leftarrow> vec_get rpo_num b1';
        b2' \<leftarrow> climb idom rpo_num b2 k1;
        intersect idom rpo_num b1' b2'
      })"

declare climb.simps [code] intersect.simps [code]

subsection \<open>One pass and the iteration\<close>

primrec new_idom :: "idom_table \<Rightarrow> nat list \<Rightarrow> nat list \<Rightarrow> nat option \<Rightarrow> nat option option" where
  "new_idom idom rpo_num [] acc = Some acc"
| "new_idom idom rpo_num (p # ps) acc = do {
     entry \<leftarrow> vec_get idom p;
     if entry = None then new_idom idom rpo_num ps acc
     else case acc of
       None \<Rightarrow> new_idom idom rpo_num ps (Some p)
     | Some a \<Rightarrow> do { z \<leftarrow> intersect idom rpo_num a p; new_idom idom rpo_num ps (Some z) }
   }"

primrec dom_pass ::
  "nat \<Rightarrow> nat list list \<Rightarrow> nat list \<Rightarrow> nat list \<Rightarrow> idom_table \<Rightarrow> bool \<Rightarrow> (idom_table \<times> bool) option" where
  "dom_pass root preds rpo_num [] idom changed = Some (idom, changed)"
| "dom_pass root preds rpo_num (b # bs) idom changed =
     (if b = root then dom_pass root preds rpo_num bs idom changed
      else do {
        ps \<leftarrow> vec_get preds b;
        ni \<leftarrow> new_idom idom rpo_num ps None;
        if ni \<noteq> None \<and> idom ! b \<noteq> ni
        then dom_pass root preds rpo_num bs (idom[b := ni]) True
        else dom_pass root preds rpo_num bs idom changed
      })"

partial_function (option) dom_loop ::
  "nat \<Rightarrow> nat list list \<Rightarrow> nat list \<Rightarrow> nat list \<Rightarrow> idom_table \<Rightarrow> idom_table option" where
  "dom_loop root preds rpo_num rpo idom = do {
     (idom', changed) \<leftarrow> dom_pass root preds rpo_num rpo idom False;
     if changed then dom_loop root preds rpo_num rpo idom' else Some idom'
   }"

declare dom_loop.simps [code]

definition rpo_numbers :: "nat \<Rightarrow> nat list \<Rightarrow> nat list" where
  "rpo_numbers n rpo = fold (\<lambda>(i, b) v. v[b := i]) (enumerate 0 rpo) (replicate n 0)"

subsection \<open>Dominators\<close>

definition reverse_postorder :: "Cfg \<Rightarrow> nat list" where
  "reverse_postorder cfg =
     rev (snd (dfs_collect (succs_of cfg) [entry cfg] (replicate (length (blocks cfg)) False) []))"

definition compute_dominators :: "Cfg \<Rightarrow> BlockId list option" where
  "compute_dominators cfg =
     (let n = length (blocks cfg) in
      if n = 0 then Some []
      else do {
        preds \<leftarrow> predecessors cfg;
        let ent = entry cfg;
        let rpo = reverse_postorder cfg;
        let rpo_num = rpo_numbers n rpo;
        if n \<le> ent then None
        else do {
          idom \<leftarrow> dom_loop ent preds rpo_num rpo ((replicate n None)[ent := Some ent]);
          Some (map (\<lambda>i. case i of None \<Rightarrow> ent | Some i \<Rightarrow> i) idom)
        }
      })"

subsection \<open>Post-dominators\<close>

definition exit_succs :: "Cfg \<Rightarrow> nat list list" where
  "exit_succs cfg =
     (let n = length (blocks cfg) in
      map (\<lambda>b. let s = filter (\<lambda>s. s < n) (succs_of cfg b) in if s = [] then [n] else s) [0..<n])"

definition rev_preds :: "Cfg \<Rightarrow> nat list list" where
  "rev_preds cfg =
     fold (\<lambda>(b, ss) preds. fold (push_pred b) ss preds) (enumerate 0 (exit_succs cfg))
       (replicate (length (blocks cfg) + 1) [])"

definition compute_post_dominators :: "Cfg \<Rightarrow> BlockId list option" where
  "compute_post_dominators cfg =
     (let n = length (blocks cfg) in
      if n = 0 then Some []
      else do {
        let exit_node = n;
        let succs = exit_succs cfg;
        let preds = rev_preds cfg;
        let rpo = rev (snd (dfs_collect (\<lambda>b. preds ! b) [exit_node] (replicate (n + 1) False) []));
        let rpo_num = rpo_numbers (n + 1) rpo;
        pdom \<leftarrow> dom_loop exit_node succs rpo_num rpo ((replicate (n + 1) None)[exit_node := Some exit_node]);
        Some (map (\<lambda>i. case i of None \<Rightarrow> exit_node | Some i \<Rightarrow> i) (take n pdom))
      })"

end
