(* ===== verification/DomTree.thy ===== *)
theory DomTree
  imports Dominators
begin

text \<open>
  Total correctness of the iteration of \<open>Dominators\<close>, for any rooted graph whose
  nodes carry reverse post-order numbers (the locale \<open>flow_graph\<close>). The parent table
  is read as a tree. Throughout the iteration every strict dominator of a node dominates
  its parent, so the ancestors of a node contain its dominators; after \<open>j\<close> passes the
  ancestors of a node lie on every path to it that retreats fewer than \<open>j\<close> times. A
  path without repetition retreats fewer than \<open>n\<close> times, so after \<open>n\<close> passes both
  bounds meet and the iteration stops.
\<close>

subsection \<open>Paths and dominance\<close>

text \<open>Paths from \<open>root\<close>, last node first.\<close>

inductive gpath :: "(nat \<Rightarrow> nat \<Rightarrow> bool) \<Rightarrow> nat \<Rightarrow> nat list \<Rightarrow> bool" for E root where
  start: "gpath E root [root]"
| step: "gpath E root (p # xs) \<Longrightarrow> E p b \<Longrightarrow> gpath E root (b # p # xs)"

inductive_cases gpath_single: "gpath E root [b]"
inductive_cases gpath_Cons: "gpath E root (b # p # xs)"
inductive_simps gpath_Nil [simp]: "gpath E root []"
inductive_simps gpath_single_iff [simp]: "gpath E root [b]"
inductive_simps gpath_Cons_iff [simp]: "gpath E root (b # p # xs)"

definition dominators :: "(nat \<Rightarrow> nat \<Rightarrow> bool) \<Rightarrow> nat \<Rightarrow> nat \<Rightarrow> nat set" where
  "dominators E root b = {d. \<forall>xs. gpath E root (b # xs) \<longrightarrow> d \<in> set (b # xs)}"

text \<open>\<open>p\<close> is the immediate dominator of \<open>b\<close>: a strict dominator that every strict dominator dominates.\<close>

definition immediate_dominator :: "(nat \<Rightarrow> nat \<Rightarrow> bool) \<Rightarrow> nat \<Rightarrow> nat \<Rightarrow> nat \<Rightarrow> bool" where
  "immediate_dominator E root b p \<longleftrightarrow> p \<noteq> b \<and> p \<in> dominators E root b \<and>
     (\<forall>d \<in> dominators E root b. d \<noteq> b \<longrightarrow> d \<in> dominators E root p)"

fun retreats :: "(nat \<Rightarrow> nat) \<Rightarrow> nat list \<Rightarrow> nat" where
  "retreats r (b # p # xs) = (if r p < r b then 0 else 1) + retreats r (p # xs)"
| "retreats r _ = 0"

definition dom_upto :: "(nat \<Rightarrow> nat \<Rightarrow> bool) \<Rightarrow> nat \<Rightarrow> (nat \<Rightarrow> nat) \<Rightarrow> nat \<Rightarrow> nat \<Rightarrow> nat set" where
  "dom_upto E root r j b =
     {d. \<forall>xs. gpath E root (b # xs) \<longrightarrow> retreats r (b # xs) < j \<longrightarrow> d \<in> set (b # xs)}"

lemma gpath_suffix: "gpath E root (xs @ b # ys) \<Longrightarrow> gpath E root (b # ys)"
proof (induction xs)
  case (Cons a xs)
  then show ?case by (cases xs) auto
qed simp

lemma retreats_suffix: "retreats r (b # ys) \<le> retreats r (xs @ b # ys)"
proof (induction xs)
  case (Cons a xs)
  then show ?case by (cases xs) auto
qed simp

lemma retreats_less: "xs \<noteq> [] \<Longrightarrow> retreats r xs < length xs"
  by (induction r xs rule: retreats.induct) auto

lemma gpath_distinct:
  "gpath E root xs \<Longrightarrow> \<exists>ys. gpath E root (hd xs # ys) \<and> set (hd xs # ys) \<subseteq> set xs \<and> distinct (hd xs # ys)"
proof (induction rule: gpath.induct)
  case start
  show ?case by (intro exI[of _ "[]"]) simp
next
  case (step p xs b)
  then obtain ys where ys: "gpath E root (p # ys)" "set (p # ys) \<subseteq> set (p # xs)" "distinct (p # ys)"
    by auto
  show ?case
  proof (cases "b \<in> set (p # ys)")
    case True
    then obtain us vs where e: "p # ys = us @ b # vs"
      by (meson split_list)
    then have "gpath E root (b # vs)"
      using ys(1) gpath_suffix by metis
    moreover have "set (b # vs) \<subseteq> set (p # xs)" "distinct (b # vs)"
      using e ys(2,3) by (auto dest: arg_cong[where f = set] arg_cong[where f = distinct])
    ultimately show ?thesis by (intro exI[of _ vs]) auto
  next
    case False
    with ys step.hyps(2) show ?thesis by (intro exI[of _ "p # ys"]) auto
  qed
qed

lemma dominators_self: "b \<in> dominators E root b"
  by (simp add: dominators_def)

lemma dominators_pred:
  assumes "E p b" "d \<in> dominators E root b" "d \<noteq> b"
  shows "d \<in> dominators E root p"
  unfolding dominators_def
proof (intro CollectI allI impI)
  fix xs assume "gpath E root (p # xs)"
  with assms(1) have "gpath E root (b # p # xs)" by simp
  then have "d \<in> set (b # p # xs)"
    using assms(2) unfolding dominators_def by blast
  with assms(3) show "d \<in> set (p # xs)" by simp
qed

lemma dominators_root: "dominators E root root = {root}"
  by (auto simp: dominators_def intro: gpath.start)

lemma dominators_upto: "dominators E root b \<subseteq> dom_upto E root r j b"
  by (auto simp: dominators_def dom_upto_def)

lemma dom_upto_trans:
  assumes "q \<in> dom_upto E root r j p" "d \<in> dom_upto E root r j q"
  shows "d \<in> dom_upto E root r j p"
  unfolding dom_upto_def
proof (intro CollectI allI impI)
  fix xs assume p: "gpath E root (p # xs)" "retreats r (p # xs) < j"
  then have "q \<in> set (p # xs)"
    using assms(1) by (simp add: dom_upto_def)
  then obtain us vs where e: "p # xs = us @ q # vs"
    by (meson split_list)
  have "gpath E root (q # vs)" "retreats r (q # vs) < j"
    using p gpath_suffix[of E root us q vs] retreats_suffix[of r q vs us] unfolding e by auto
  then have "d \<in> set (q # vs)"
    using assms(2) by (simp add: dom_upto_def)
  then show "d \<in> set (p # xs)"
    unfolding e by auto
qed

lemma dom_upto_0: "dom_upto E root r 0 b = UNIV"
  by (simp add: dom_upto_def)

lemma dom_upto_mono: "dom_upto E root r (Suc j) b \<subseteq> dom_upto E root r j b"
  by (auto simp: dom_upto_def)

lemma drop_Cons_facts: "drop k xs = b # bs \<Longrightarrow> k < length xs \<and> xs ! k = b \<and> drop (Suc k) xs = bs"
  by (metis Cons_nth_drop_Suc drop_eq_Nil leI list.discI list.inject)

subsection \<open>The graph\<close>

locale flow_graph =
  fixes n root :: nat and preds :: "nat list list" and rpo_num rpo :: "nat list"
  assumes distinct_rpo: "distinct rpo"
    and rpo_bound: "b \<in> set rpo \<Longrightarrow> b < n"
    and rpo_hd: "rpo \<noteq> []" "rpo ! 0 = root"
    and length_num: "length rpo_num = n"
    and num_rpo: "i < length rpo \<Longrightarrow> rpo_num ! (rpo ! i) = i"
    and preds_row: "b \<in> set rpo \<Longrightarrow> b \<noteq> root \<Longrightarrow> b < length preds"
    and preds_bound: "b < length preds \<Longrightarrow> p \<in> set (preds ! b) \<Longrightarrow> p < n"
    and closed: "p \<in> set rpo \<Longrightarrow> b < length preds \<Longrightarrow> p \<in> set (preds ! b) \<Longrightarrow> b \<in> set rpo"
    and forward: "b \<in> set rpo \<Longrightarrow> b \<noteq> root \<Longrightarrow>
      \<exists>p \<in> set (preds ! b). p \<in> set rpo \<and> rpo_num ! p < rpo_num ! b"
begin

definition edge :: "nat \<Rightarrow> nat \<Rightarrow> bool" where
  "edge p b \<longleftrightarrow> b < length preds \<and> p \<in> set (preds ! b)"

abbreviation r :: "nat \<Rightarrow> nat" where
  "r b \<equiv> rpo_num ! b"

abbreviation dom :: "nat \<Rightarrow> nat set" where
  "dom \<equiv> dominators edge root"

abbreviation upto :: "nat \<Rightarrow> nat \<Rightarrow> nat set" where
  "upto \<equiv> dom_upto edge root r"

lemma root_in: "root \<in> set rpo" "root < n" "r root = 0"
  using rpo_hd rpo_bound num_rpo[of 0] by (metis length_greater_0_conv nth_mem)+

lemma r_inj: "a \<in> set rpo \<Longrightarrow> b \<in> set rpo \<Longrightarrow> r a = r b \<Longrightarrow> a = b"
  using num_rpo by (metis in_set_conv_nth)

lemma r_less: "b \<in> set rpo \<Longrightarrow> r b < length rpo \<and> rpo ! r b = b"
  using num_rpo by (metis in_set_conv_nth)

lemma gpath_rpo: "gpath edge root xs \<Longrightarrow> set xs \<subseteq> set rpo"
  by (induction rule: gpath.induct) (auto simp: root_in edge_def intro: closed)

lemma rpo_gpath: "b \<in> set rpo \<Longrightarrow> \<exists>xs. gpath edge root (b # xs)"
proof (induction "r b" arbitrary: b rule: less_induct)
  case less
  show ?case
  proof (cases "b = root")
    case True
    then show ?thesis using gpath.start by blast
  next
    case False
    with less.prems obtain p where p: "p \<in> set (preds ! b)" "p \<in> set rpo" "r p < r b"
      using forward by blast
    with less.hyps obtain xs where "gpath edge root (p # xs)" by blast
    moreover have "edge p b"
      using p(1) less.prems False by (simp add: edge_def preds_row)
    ultimately show ?thesis by (blast intro: gpath.step)
  qed
qed

text \<open>Paths without repetition suffice, and they retreat fewer than \<open>n\<close> times.\<close>

lemma upto_n: "upto n b \<subseteq> dom b"
  unfolding dominators_def
proof (intro subsetI CollectI allI impI)
  fix d xs assume d: "d \<in> upto n b" and p: "gpath edge root (b # xs)"
  from gpath_distinct[OF p] obtain ys where ys: "gpath edge root (b # ys)" "set (b # ys) \<subseteq> set (b # xs)" "distinct (b # ys)"
    by auto
  have "set (b # ys) \<subseteq> {..<n}"
    using gpath_rpo[OF ys(1)] rpo_bound by auto
  then have "length (b # ys) \<le> n"
    using distinct_card[OF ys(3)] card_mono[of "{..<n}" "set (b # ys)"] by simp
  then have "retreats r (b # ys) < n"
    using retreats_less[of "b # ys" r] by simp
  then show "d \<in> set (b # xs)"
    using d ys by (auto simp: dom_upto_def)
qed

lemma upto_ge_n: "n \<le> j \<Longrightarrow> upto j b \<subseteq> dom b"
proof -
  assume "n \<le> j"
  then have "upto j b \<subseteq> upto n b"
    by (auto simp: dom_upto_def)
  then show ?thesis using upto_n by blast
qed

subsection \<open>The parent table as a tree\<close>

definition par :: "idom_table \<Rightarrow> (nat \<times> nat) set" where
  "par f = {(x, y). x \<noteq> root \<and> x < n \<and> f ! x = Some y}"

definition anc :: "idom_table \<Rightarrow> nat \<Rightarrow> nat set" where
  "anc f b = {z. (b, z) \<in> (par f)\<^sup>*}"

definition known :: "idom_table \<Rightarrow> nat \<Rightarrow> bool" where
  "known f b \<longleftrightarrow> b < n \<and> f ! b \<noteq> None"

definition tree :: "idom_table \<Rightarrow> bool" where
  "tree f \<longleftrightarrow> length f = n \<and> f ! root = Some root \<and>
     (\<forall>b p. b < n \<longrightarrow> b \<noteq> root \<longrightarrow> f ! b = Some p \<longrightarrow> b \<in> set rpo \<and> known f p \<and> p \<in> set rpo \<and> r p < r b)"

lemma anc_refl [simp]: "b \<in> anc f b"
  by (simp add: anc_def)

lemma anc_trans: "y \<in> anc f x \<Longrightarrow> z \<in> anc f y \<Longrightarrow> z \<in> anc f x"
  by (auto simp: anc_def)

lemma anc_root [simp]: "anc f root = {root}"
  by (auto simp: anc_def par_def elim: converse_rtranclE)

lemma anc_step:
  assumes "b \<noteq> root" "b < n" "f ! b = Some p"
  shows "anc f b = insert b (anc f p)"
  using assms by (auto simp: anc_def par_def elim: converse_rtranclE intro: converse_rtrancl_into_rtrancl)

lemma known_root: "tree f \<Longrightarrow> known f root"
  by (simp add: tree_def known_def root_in)

lemma tree_parent:
  assumes "tree f" "known f b" "b \<noteq> root"
  obtains p where "f ! b = Some p" "known f p" "p \<in> set rpo" "r p < r b" "b \<in> set rpo"
  using assms by (auto simp: tree_def known_def)

lemma known_rpo: "tree f \<Longrightarrow> known f b \<Longrightarrow> b \<in> set rpo"
  by (metis root_in(1) tree_parent)

lemma tree_induct [consumes 2, case_names root step]:
  assumes "tree f" "known f b"
    and "P root"
    and "\<And>b p. b \<noteq> root \<Longrightarrow> known f b \<Longrightarrow> b \<in> set rpo \<Longrightarrow> f ! b = Some p \<Longrightarrow> known f p \<Longrightarrow> p \<in> set rpo \<Longrightarrow> r p < r b \<Longrightarrow>
      anc f b = insert b (anc f p) \<Longrightarrow> P p \<Longrightarrow> P b"
  shows "P b"
  using assms(2)
proof (induction "r b" arbitrary: b rule: less_induct)
  case less
  show ?case
  proof (cases "b = root")
    case False
    from tree_parent[OF assms(1) less.prems False] obtain p where
      p: "f ! b = Some p" "known f p" "p \<in> set rpo" "r p < r b" "b \<in> set rpo" .
    have "anc f b = insert b (anc f p)"
      using False less.prems p(1) by (intro anc_step) (auto simp: known_def)
    with p less False assms(4)[of b p] show ?thesis by blast
  qed (simp add: assms(3))
qed

lemma anc_known:
  assumes "tree f" "known f b" "z \<in> anc f b"
  shows "known f z \<and> z \<in> set rpo \<and> (z = b \<or> r z < r b)"
  using assms(1,2,3)
proof (induction rule: tree_induct)
  case root
  with assms(1) show ?case by (simp add: known_root root_in)
qed (use known_rpo[OF assms(1)] in auto)

lemma anc_le: "tree f \<Longrightarrow> known f b \<Longrightarrow> z \<in> anc f b \<Longrightarrow> r z \<le> r b"
  using anc_known by fastforce

subsection \<open>Intersection\<close>

lemma climb_spec:
  assumes "tree f" "known f b"
  shows "\<exists>z. climb f rpo_num b limit = Some z \<and> z \<in> anc f b \<and> r z \<le> limit \<and>
    (\<forall>w \<in> anc f b. r w \<le> limit \<longrightarrow> w \<in> anc f z)"
  using assms
proof (induction rule: tree_induct)
  case root
  then show ?case
    by (subst climb.simps) (simp add: vec_get_def length_num root_in)
next
  case (step b p)
  have b: "vec_get rpo_num b = Some (r b)" "vec_get f b = Some (Some p)"
    using step assms(1) by (simp_all add: vec_get_def length_num known_def tree_def)
  show ?case
  proof (cases "limit < r b")
    case True
    from step obtain z where z: "climb f rpo_num p limit = Some z" "z \<in> anc f p" "r z \<le> limit"
      "\<forall>w \<in> anc f p. r w \<le> limit \<longrightarrow> w \<in> anc f z" by blast
    have "climb f rpo_num b limit = Some z"
      using b True z(1) by (subst climb.simps) simp
    with z True step show ?thesis by auto
  next
    case False
    then have "climb f rpo_num b limit = Some b"
      using b by (subst climb.simps) simp
    with False show ?thesis by auto
  qed
qed

lemma intersect_spec:
  assumes "tree f" "known f b1" "known f b2"
  shows "\<exists>z. intersect f rpo_num b1 b2 = Some z \<and> known f z \<and> anc f z = anc f b1 \<inter> anc f b2"
  using assms(2,3)
proof (induction "r b1 + r b2" arbitrary: b1 b2 rule: less_induct)
  case less
  show ?case
  proof (cases "b1 = b2")
    case True
    with less.prems show ?thesis by (subst intersect.simps) auto
  next
    case False
    obtain z1 where z1: "climb f rpo_num b1 (r b2) = Some z1" "z1 \<in> anc f b1" "r z1 \<le> r b2"
      "\<forall>w \<in> anc f b1. r w \<le> r b2 \<longrightarrow> w \<in> anc f z1"
      using climb_spec[OF assms(1) less.prems(1)] by blast
    obtain z2 where z2: "climb f rpo_num b2 (r z1) = Some z2" "z2 \<in> anc f b2" "r z2 \<le> r z1"
      "\<forall>w \<in> anc f b2. r w \<le> r z1 \<longrightarrow> w \<in> anc f z2"
      using climb_spec[OF assms(1) less.prems(2)] by blast
    have k1: "known f z1" "z1 \<in> set rpo" "z1 = b1 \<or> r z1 < r b1"
      using anc_known[OF assms(1) less.prems(1) z1(2)] by auto
    have k2: "known f z2" "z2 \<in> set rpo" "z2 = b2 \<or> r z2 < r b2"
      using anc_known[OF assms(1) less.prems(2) z2(2)] by auto
    have "b1 \<in> set rpo" "b2 \<in> set rpo"
      using less.prems known_rpo[OF assms(1)] by auto
    then have "r z1 + r z2 < r b1 + r b2"
      using k1(3) k2(3) z1(3) z2(3) False r_inj by fastforce
    from less.hyps[OF this k1(1) k2(1)] obtain z where
      z: "intersect f rpo_num z1 z2 = Some z" "known f z" "anc f z = anc f z1 \<inter> anc f z2"
      by blast
    have "anc f z1 \<inter> anc f z2 = anc f b1 \<inter> anc f b2"
    proof
      show "anc f z1 \<inter> anc f z2 \<subseteq> anc f b1 \<inter> anc f b2"
        using z1(2) z2(2) anc_trans by blast
      show "anc f b1 \<inter> anc f b2 \<subseteq> anc f z1 \<inter> anc f z2"
        using z1(4) z2(4) anc_le[OF assms(1) less.prems(2)] anc_le[OF assms(1) k1(1)] by blast
    qed
    moreover have "vec_get rpo_num b2 = Some (r b2)" "vec_get rpo_num z1 = Some (r z1)"
      using less.prems k1 by (simp_all add: vec_get_def length_num known_def)
    ultimately show ?thesis
      using z z1(1) z2(1) False by (subst intersect.simps) simp
  qed
qed

definition meet :: "idom_table \<Rightarrow> nat option \<Rightarrow> nat set" where
  "meet f acc = (case acc of None \<Rightarrow> UNIV | Some a \<Rightarrow> anc f a)"

lemma new_idom_spec:
  assumes "tree f" "\<And>p. p \<in> set ps \<Longrightarrow> p < n" "\<And>a. acc = Some a \<Longrightarrow> known f a"
  shows "\<exists>acc'. new_idom f rpo_num ps acc = Some acc' \<and> (\<forall>z. acc' = Some z \<longrightarrow> known f z) \<and>
    meet f acc' = meet f acc \<inter> (\<Inter>p \<in> {p \<in> set ps. known f p}. anc f p) \<and>
    (acc' = None \<longrightarrow> acc = None \<and> (\<forall>p \<in> set ps. \<not> known f p))"
  using assms(2,3)
proof (induction ps arbitrary: acc)
  case Nil
  then show ?case by auto
next
  case (Cons p ps)
  have p: "vec_get f p = Some (f ! p)" "known f p \<longleftrightarrow> f ! p \<noteq> None"
    using Cons.prems(1)[of p] assms(1) by (auto simp: vec_get_def tree_def known_def)
  show ?case
  proof (cases "known f p")
    case False
    have "{q \<in> set (p # ps). known f q} = {q \<in> set ps. known f q}"
      using False by auto
    with Cons.IH[of acc] Cons.prems False p show ?thesis by simp
  next
    case True
    have "\<exists>a'. known f a' \<and> meet f (Some a') = meet f acc \<inter> anc f p \<and>
        new_idom f rpo_num (p # ps) acc = new_idom f rpo_num ps (Some a')"
    proof (cases acc)
      case None
      with True p show ?thesis by (intro exI[of _ p]) (auto simp: meet_def)
    next
      case (Some a)
      obtain z where "intersect f rpo_num a p = Some z" "known f z" "anc f z = anc f a \<inter> anc f p"
        using intersect_spec[OF assms(1) Cons.prems(2)[OF Some] True] by blast
      with Some True p show ?thesis by (intro exI[of _ z]) (auto simp: meet_def)
    qed
    then obtain a' where a': "known f a'" "meet f (Some a') = meet f acc \<inter> anc f p"
      "new_idom f rpo_num (p # ps) acc = new_idom f rpo_num ps (Some a')" by blast
    have "(\<Inter>q \<in> {q \<in> set (p # ps). known f q}. anc f q) = anc f p \<inter> (\<Inter>q \<in> {q \<in> set ps. known f q}. anc f q)"
      using True by auto
    with Cons.IH[of "Some a'"] Cons.prems(1) a' show ?thesis
      by (auto simp: Int_assoc)
  qed
qed

subsection \<open>Updating one node\<close>

definition lower :: "idom_table \<Rightarrow> bool" where
  "lower f \<longleftrightarrow> (\<forall>b p. b < n \<longrightarrow> b \<noteq> root \<longrightarrow> f ! b = Some p \<longrightarrow> dom b - {b} \<subseteq> dom p)"

lemma dom_anc:
  assumes "tree f" "lower f" "known f b"
  shows "dom b \<subseteq> anc f b"
  using assms(1,3)
proof (induction rule: tree_induct)
  case (step b p)
  then have "dom b - {b} \<subseteq> dom p"
    using assms(2) by (auto simp: lower_def known_def)
  with step show ?case by auto
qed (simp add: dominators_root)

lemma chain_dom:
  assumes "tree f" "lower f" "known f b" "z \<in> anc f b" "d \<in> dom b"
  shows "d \<in> dom z \<or> (d \<in> anc f b \<and> r z < r d)"
  using assms(1,3-5)
proof (induction rule: tree_induct)
  case (step b p)
  show ?case
  proof (cases "z = b")
    case False
    then have z: "z \<in> anc f p"
      using step by auto
    show ?thesis
    proof (cases "d = b")
      case True
      have "r z \<le> r p"
        using assms(1) step z by (intro anc_le)
      with True step show ?thesis by auto
    next
      case False
      with step have "d \<in> dom p"
        using assms(2) by (auto simp: lower_def known_def)
      with step z show ?thesis by auto
    qed
  qed (use step in simp)
qed simp

text \<open>Giving \<open>b\<close> the parent \<open>z\<close>, nearer the root than \<open>b\<close>, keeps a tree.\<close>

lemma known_update: "length f = n \<Longrightarrow> known (f[b := Some z]) c \<longleftrightarrow> known f c \<or> (c = b \<and> b < n)"
  by (cases "c = b") (auto simp: known_def)

lemma tree_update:
  assumes "tree f" "b \<in> set rpo" "b \<noteq> root" "known f z" "r z < r b"
  shows "tree (f[b := Some z])"
proof -
  have len: "length f = n" using assms(1) unfolding tree_def by blast
  have bn: "b < n" using assms(2) by (rule rpo_bound)
  have "z \<in> set rpo"
    using known_rpo assms(1,4) by blast
  have "c \<in> set rpo \<and> known (f[b := Some z]) p \<and> p \<in> set rpo \<and> r p < r c"
    if "c < n" "c \<noteq> root" "f[b := Some z] ! c = Some p" for c p
  proof (cases "c = b")
    case True
    then have "p = z" using that(3) bn len by simp
    with True assms(2,4,5) \<open>z \<in> set rpo\<close> len show ?thesis by (simp add: known_update)
  next
    case False
    then have "f ! c = Some p" using that(3) by simp
    with that assms(1) have "c \<in> set rpo \<and> known f p \<and> p \<in> set rpo \<and> r p < r c"
      unfolding tree_def by blast
    with len show ?thesis by (simp add: known_update)
  qed
  with assms(1,3) len show ?thesis by (simp add: tree_def)
qed

lemma anc_update_below:
  assumes "tree f" "tree (f[b := Some z])" "known f c" "b \<notin> anc f c"
  shows "anc (f[b := Some z]) c = anc f c"
  using assms(1,3,4)
proof (induction rule: tree_induct)
  case (step c p)
  then have "c \<noteq> b" by auto
  then have "anc (f[b := Some z]) c = insert c (anc (f[b := Some z]) p)"
    using step by (intro anc_step) (auto simp: known_def)
  with step show ?case by auto
qed simp

lemma anc_update:
  assumes "tree f" "tree (f[b := Some z])" "known f c" "length f = n" "b < n" "b \<noteq> root"
  shows "anc (f[b := Some z]) c \<subseteq> anc f c \<union> (if b \<in> anc f c then anc (f[b := Some z]) b else {})"
  using assms(1,3)
proof (induction rule: tree_induct)
  case (step c p)
  show ?case
  proof (cases "c = b")
    case False
    then have "anc (f[b := Some z]) c = insert c (anc (f[b := Some z]) p)"
      using step by (intro anc_step) (auto simp: known_def)
    with step show ?thesis by (auto split: if_splits)
  qed (use step in auto)
qed simp

text \<open>The state in the middle of pass \<open>j + 1\<close>, with the first \<open>k\<close> nodes done.\<close>

definition mid_pass :: "nat \<Rightarrow> nat \<Rightarrow> idom_table \<Rightarrow> bool" where
  "mid_pass j k f \<longleftrightarrow> tree f \<and> lower f \<and> (0 < j \<longrightarrow> (\<forall>b \<in> set rpo. known f b)) \<and>
     (\<forall>c. known f c \<longrightarrow> anc f c \<subseteq> upto j c) \<and>
     (\<forall>b \<in> set rpo. r b < k \<longrightarrow> known f b \<and> anc f b \<subseteq> upto (Suc j) b)"

lemma update_step:
  assumes J: "mid_pass j k f" and b: "b \<in> set rpo" "b \<noteq> root" "r b = k"
  obtains z where "new_idom f rpo_num (preds ! b) None = Some (Some z)"
    "anc f z = (\<Inter>p \<in> {p \<in> set (preds ! b). known f p}. anc f p)" "known f z" "r z < r b"
proof -
  have row: "b < length preds" "b < n"
    using b preds_row rpo_bound by auto
  obtain p0 where p0: "p0 \<in> set (preds ! b)" "p0 \<in> set rpo" "r p0 < r b"
    using forward b by blast
  then have k0: "known f p0"
    using J b(3) by (simp add: mid_pass_def)
  have t: "tree f" using J by (simp add: mid_pass_def)
  from new_idom_spec[OF t, of "preds ! b" None] preds_bound[OF row(1)] obtain acc where
    acc: "new_idom f rpo_num (preds ! b) None = Some acc" "\<forall>z. acc = Some z \<longrightarrow> known f z"
    "meet f acc = (\<Inter>p \<in> {p \<in> set (preds ! b). known f p}. anc f p)"
    "acc = None \<longrightarrow> (\<forall>p \<in> set (preds ! b). \<not> known f p)"
    by (auto simp: meet_def)
  from acc(4) p0 k0 obtain z where z: "acc = Some z" by (cases acc) auto
  then have m: "anc f z = (\<Inter>p \<in> {p \<in> set (preds ! b). known f p}. anc f p)"
    using acc(3) by (simp add: meet_def)
  then have "z \<in> anc f p0"
    using p0(1) k0 anc_refl[of z f] by blast
  then have "r z < r b"
    using anc_le[OF t k0] p0(3) by fastforce
  with that acc(1,2) z m show ?thesis by auto
qed

lemma mid_pass_update:
  assumes J: "mid_pass j k f" and b: "b \<in> set rpo" "b \<noteq> root" "r b = k"
    and z: "anc f z = (\<Inter>p \<in> {p \<in> set (preds ! b). known f p}. anc f p)" "known f z" "r z < r b"
  shows "mid_pass j (Suc k) (f[b := Some z])"
proof -
  let ?g = "f[b := Some z]"
  have t: "tree f" and low: "lower f" and len: "length f = n"
    using J by (auto simp: mid_pass_def tree_def)
  have bn: "b < n" "b < length preds" using b preds_row rpo_bound by auto
  have tg: "tree ?g"
    using t b z by (intro tree_update)
  have notin: "b \<notin> anc f z"
    using anc_le[OF t z(2)] z(3) by fastforce
  have anc_b: "anc ?g b = insert b (anc f z)"
    using anc_step[of b ?g z] anc_update_below[OF t tg z(2) notin] b bn len by simp
  have low_b: "dom b - {b} \<subseteq> dom z"
  proof
    fix d assume d: "d \<in> dom b - {b}"
    have "d \<in> dom z \<or> (d \<in> anc f p \<and> r z < r d)" if p: "p \<in> set (preds ! b)" "known f p" for p
    proof (rule chain_dom[OF t low p(2)])
      show "z \<in> anc f p" using z(1) p anc_refl[of z f] by blast
      show "d \<in> dom p" using d p bn by (intro dominators_pred[of edge p b]) (auto simp: edge_def)
    qed
    moreover have "\<exists>p \<in> set (preds ! b). known f p"
      using forward[OF b(1,2)] J b(3) by (auto simp: mid_pass_def)
    moreover have "\<not> r z < r d" if "d \<in> anc f z"
      using anc_le[OF t z(2) that] by simp
    ultimately show "d \<in> dom z" using z(1) by blast
  qed
  have up_b: "insert b (anc f z) \<subseteq> upto (Suc j) b"
  proof
    fix d assume d: "d \<in> insert b (anc f z)"
    show "d \<in> upto (Suc j) b"
      unfolding dom_upto_def
    proof (intro CollectI allI impI)
      fix xs assume p: "gpath edge root (b # xs)" "retreats r (b # xs) < Suc j"
      then obtain p ys where xs: "xs = p # ys"
        using b(2) by (cases xs) auto
      have e: "p \<in> set (preds ! b)" "p \<in> set rpo" "gpath edge root (p # ys)"
        using p(1) gpath_rpo[OF p(1)] xs by (auto simp: edge_def)
      have k: "known f p \<and> anc f p \<subseteq> upto (if r p < r b then Suc j else j) p"
        using J e(2) b(3) p(2) xs by (auto simp: mid_pass_def split: if_splits)
      have "retreats r (p # ys) < (if r p < r b then Suc j else j)"
        using p(2) xs by (auto split: if_splits)
      then have "d \<in> set (p # ys)" if "d \<noteq> b"
        using that d z(1) e k by (fastforce simp: dom_upto_def)
      then show "d \<in> set (b # xs)" using xs by auto
    qed
  qed
  have kg: "known ?g c \<longleftrightarrow> known f c \<or> c = b" for c
    using known_update[OF len] bn(1) by auto
  have "anc ?g c \<subseteq> upto j c" if "known ?g c" for c
  proof (cases "c = b")
    case True
    then show ?thesis using anc_b up_b dom_upto_mono by blast
  next
    case False
    then have c: "known f c" "anc f c \<subseteq> upto j c"
      using that kg J by (auto simp: mid_pass_def)
    have "anc ?g b \<subseteq> upto j c" if "b \<in> anc f c"
    proof
      fix d assume "d \<in> anc ?g b"
      then have "d \<in> upto j b"
        using anc_b up_b dom_upto_mono[of edge root r j b] by auto
      moreover have "b \<in> upto j c"
        using that c(2) by auto
      ultimately show "d \<in> upto j c" by (rule dom_upto_trans[rotated])
    qed
    then show ?thesis
      using anc_update[OF t tg c(1) len bn(1) b(2)] c(2) by (cases "b \<in> anc f c") auto
  qed
  moreover have "known ?g c \<and> anc ?g c \<subseteq> upto (Suc j) c" if "c \<in> set rpo" "r c < Suc k" for c
  proof (cases "c = b")
    case True
    then show ?thesis using anc_b up_b kg by simp
  next
    case False
    then have "r c < k"
      using that b r_inj by fastforce
    then have c: "known f c" "anc f c \<subseteq> upto (Suc j) c"
      using J that by (auto simp: mid_pass_def)
    have "b \<notin> anc f c"
      using anc_le[OF t c(1)] \<open>r c < k\<close> b(3) by fastforce
    then show ?thesis
      using anc_update_below[OF t tg c(1)] c kg by simp
  qed
  moreover have "lower ?g"
    unfolding lower_def
  proof (intro allI impI)
    fix c p assume "c < n" "c \<noteq> root" "?g ! c = Some p"
    then show "dom c - {c} \<subseteq> dom p"
      using low low_b len bn(1) by (cases "c = b") (auto simp: lower_def)
  qed
  ultimately show ?thesis
    using tg J kg by (auto simp: mid_pass_def)
qed

subsection \<open>A pass\<close>

lemma mid_pass_root: "mid_pass j 0 f \<Longrightarrow> mid_pass j (Suc 0) f"
proof -
  assume J: "mid_pass j 0 f"
  have "b = root" if "b \<in> set rpo" "r b < Suc 0" for b
    using r_inj[OF that(1) root_in(1)] that(2) root_in(3) by simp
  moreover have "known f root" "anc f root \<subseteq> upto (Suc j) root"
    using J by (auto simp: mid_pass_def known_root dom_upto_def)
  ultimately show ?thesis
    using J unfolding mid_pass_def by blast
qed

lemma dom_pass_spec:
  assumes "mid_pass j k f" "drop k rpo = bs" "k \<le> length rpo"
  shows "\<exists>g ch'. dom_pass root preds rpo_num bs f ch = Some (g, ch') \<and> mid_pass j (length rpo) g \<and>
    (ch' = False \<longrightarrow> ch = False \<and> g = f)"
  using assms
proof (induction bs arbitrary: k f ch)
  case Nil
  then have "k = length rpo" by simp
  with Nil show ?case by simp
next
  case (Cons b bs)
  have k: "k < length rpo" "rpo ! k = b" "drop (Suc k) rpo = bs"
    using drop_Cons_facts[OF Cons.prems(2)] by auto
  have b: "b \<in> set rpo" "r b = k"
    using k num_rpo by auto
  show ?case
  proof (cases "b = root")
    case True
    then have "mid_pass j (Suc k) f"
      using Cons.prems(1) b(2) root_in(3) mid_pass_root by simp
    from Cons.IH[OF this k(3)] k(1) True show ?thesis by auto
  next
    case False
    obtain z where z: "new_idom f rpo_num (preds ! b) None = Some (Some z)"
      "anc f z = (\<Inter>p \<in> {p \<in> set (preds ! b). known f p}. anc f p)" "known f z" "r z < r b"
      using update_step[OF Cons.prems(1) b(1) False b(2)] .
    have row: "vec_get preds b = Some (preds ! b)"
      using preds_row[OF b(1) False] by (simp add: vec_get_def)
    have J: "mid_pass j (Suc k) (f[b := Some z])"
      using mid_pass_update[OF Cons.prems(1) b(1) False b(2) z(2-4)] .
    show ?thesis
    proof (cases "f ! b = Some z")
      case True
      then have "f[b := Some z] = f"
        by (metis list_update_id)
      with Cons.IH[of "Suc k" f ch] J k False row z(1) True show ?thesis by simp
    next
      case neq: False
      from Cons.IH[OF J k(3), of True] k(1) neq False row z(1) show ?thesis by auto
    qed
  qed
qed

lemma pass_next: "mid_pass j (length rpo) f \<Longrightarrow> mid_pass (Suc j) 0 f"
  using r_less known_rpo unfolding mid_pass_def by (metis not_less_zero)

lemma dom_pass_full:
  assumes "mid_pass j 0 f"
  shows "\<exists>g ch. dom_pass root preds rpo_num rpo f False = Some (g, ch) \<and> mid_pass (Suc j) 0 g \<and> (ch = False \<longrightarrow> g = f)"
  using dom_pass_spec[OF assms, of rpo False] pass_next by auto

text \<open>What the iteration ends with.\<close>

definition settled :: "idom_table \<Rightarrow> bool" where
  "settled f \<longleftrightarrow> tree f \<and> (\<forall>b \<in> set rpo. known f b \<and> anc f b = dom b)"

lemma settledI:
  assumes "mid_pass j 0 f" "n \<le> j"
  shows "settled f"
proof -
  have f: "tree f" "lower f" "\<And>c. known f c \<Longrightarrow> anc f c \<subseteq> upto j c"
    using assms(1) unfolding mid_pass_def by blast+
  have "0 < j" using assms(2) root_in(2) by simp
  then have "known f b" if "b \<in> set rpo" for b
    using assms(1) that by (simp add: mid_pass_def)
  moreover have "anc f b = dom b" if "known f b" for b
    using f(3)[OF that] upto_ge_n[OF assms(2), of b] dom_anc[OF f(1,2) that] by blast
  ultimately show ?thesis using f(1) by (simp add: settled_def)
qed

lemma anc_inj:
  assumes "tree f" "known f a" "known f b" "anc f a = anc f b"
  shows "a = b"
proof -
  have "a \<in> anc f b" "b \<in> anc f a"
    using anc_refl[of a f, unfolded assms(4)] anc_refl[of b f, folded assms(4)] .
  then show ?thesis
    using anc_known[OF assms(1,3), of a] anc_known[OF assms(1,2), of b] by auto
qed

text \<open>A settled table does not change any more.\<close>

lemma dom_pass_settled:
  assumes "mid_pass j k f" "settled f" "drop k rpo = bs" "k \<le> length rpo"
  shows "dom_pass root preds rpo_num bs f ch = Some (f, ch)"
  using assms
proof (induction bs arbitrary: k)
  case (Cons b bs)
  have k: "k < length rpo" "rpo ! k = b" "drop (Suc k) rpo = bs"
    using drop_Cons_facts[OF Cons.prems(3)] by auto
  have b: "b \<in> set rpo" "r b = k" "b < n"
    using k num_rpo rpo_bound by auto
  have t: "tree f" using Cons.prems(2) by (simp add: settled_def)
  show ?case
  proof (cases "b = root")
    case True
    then have "mid_pass j (Suc k) f"
      using Cons.prems(1) b(2) root_in(3) mid_pass_root by simp
    with Cons True k show ?thesis by simp
  next
    case False
    obtain z where z: "new_idom f rpo_num (preds ! b) None = Some (Some z)"
      "anc f z = (\<Inter>p \<in> {p \<in> set (preds ! b). known f p}. anc f p)" "known f z" "r z < r b"
      using update_step[OF Cons.prems(1) b(1) False b(2)] .
    obtain q where q: "f ! b = Some q" "known f q" "r q < r b"
      using tree_parent[OF t _ False] Cons.prems(2) b(1) by (metis settled_def)
    have row: "vec_get preds b = Some (preds ! b)" "b < length preds"
      using preds_row[OF b(1) False] by (simp_all add: vec_get_def)
    have anc_b: "anc f b = insert b (anc f q)" "b \<notin> anc f q" "b \<notin> anc f z"
      using anc_step[OF False b(3) q(1)] anc_le[OF t q(2), of b] anc_le[OF t z(3), of b] q(3) z(4) by auto
    have "dom b - {b} \<subseteq> anc f z"
      unfolding z(2) using Cons.prems(2) row(2) known_rpo[OF t]
      by (auto simp: settled_def edge_def intro: dominators_pred[of edge _ b])
    moreover have "insert b (anc f z) \<subseteq> dom b"
    proof
      fix d assume d: "d \<in> insert b (anc f z)"
      show "d \<in> dom b"
        unfolding dominators_def
      proof (intro CollectI allI impI)
        fix xs assume p: "gpath edge root (b # xs)"
        then obtain p ys where xs: "xs = p # ys"
          using False by (cases xs) auto
        have "p \<in> set (preds ! b)" "p \<in> set rpo" "gpath edge root (p # ys)"
          using p gpath_rpo[OF p] xs by (auto simp: edge_def)
        then have "d = b \<or> d \<in> dom p"
          using d z(2) Cons.prems(2) by (auto simp: settled_def)
        then show "d \<in> set (b # xs)"
          using \<open>gpath edge root (p # ys)\<close> xs by (auto simp: dominators_def)
      qed
    qed
    ultimately have "anc f z = anc f q"
      using anc_b Cons.prems(2) b(1) dominators_self[of b edge root] by (auto simp: settled_def)
    then have "z = q"
      by (rule anc_inj[OF t z(3) q(2)])
    moreover have "mid_pass j (Suc k) (f[b := Some z])"
      using mid_pass_update[OF Cons.prems(1) b(1) False b(2) z(2-4)] .
    moreover have "f[b := Some q] = f"
      using q(1) by (metis list_update_id)
    ultimately show ?thesis
      using Cons.IH[of "Suc k"] Cons.prems(2) k row(1) z(1) q(1) False by simp
  qed
qed simp

subsection \<open>The iteration\<close>

lemma unchanged_settled:
  assumes "mid_pass j 0 f" "dom_pass root preds rpo_num rpo f False = Some (f, False)"
  shows "settled f"
proof -
  have "mid_pass (j + m) 0 f" for m
  proof (induction m)
    case (Suc m)
    from dom_pass_full[OF this] assms(2) show ?case by simp
  qed (simp add: assms(1))
  from this[of n] show ?thesis by (rule settledI) simp
qed

lemma dom_loop_settles:
  "mid_pass j 0 f \<Longrightarrow> \<exists>g. dom_loop root preds rpo_num rpo f = Some g \<and> settled g"
proof (induction "n - j" arbitrary: j f)
  case 0
  then have s: "settled f" by (intro settledI[of j]) auto
  with 0 have "dom_pass root preds rpo_num rpo f False = Some (f, False)"
    by (intro dom_pass_settled[of j 0]) auto
  with s show ?case by (subst dom_loop.simps) simp
next
  case (Suc m)
  obtain g ch where g: "dom_pass root preds rpo_num rpo f False = Some (g, ch)" "mid_pass (Suc j) 0 g"
    "ch = False \<longrightarrow> g = f"
    using dom_pass_full[OF Suc.prems] by blast
  show ?case
  proof (cases ch)
    case True
    have "m = n - Suc j" using Suc.hyps(2) by simp
    from Suc.hyps(1)[OF this g(2)] True g(1) show ?thesis
      by (subst dom_loop.simps) simp
  next
    case False
    with g(1,3) have p: "dom_pass root preds rpo_num rpo f False = Some (f, False)" by simp
    with unchanged_settled[OF Suc.prems] show ?thesis by (subst dom_loop.simps) simp
  qed
qed

lemma start_pass: "mid_pass 0 0 ((replicate n None)[root := Some root])"
proof -
  have "((replicate n None)[root := Some root]) ! b = (if b = root then Some root else None)" if "b < n" for b
    using that by (auto simp: nth_list_update)
  then show ?thesis
    using root_in by (auto simp: mid_pass_def tree_def lower_def known_def dom_upto_0)
qed

lemma dom_loop_correct:
  "\<exists>g. dom_loop root preds rpo_num rpo ((replicate n None)[root := Some root]) = Some g \<and> length g = n \<and>
     g ! root = Some root \<and>
     (\<forall>b < n. b \<notin> set rpo \<longrightarrow> g ! b = None) \<and>
     (\<forall>b \<in> set rpo. b \<noteq> root \<longrightarrow> (\<exists>p. g ! b = Some p \<and> p \<in> set rpo \<and> immediate_dominator edge root b p))"
proof -
  obtain g where g: "dom_loop root preds rpo_num rpo ((replicate n None)[root := Some root]) = Some g" "settled g"
    using dom_loop_settles[OF start_pass] by blast
  have t: "tree g" using g(2) by (simp add: settled_def)
  have "g ! b = None" if "b < n" "b \<notin> set rpo" for b
    using known_rpo[OF t, of b] that unfolding known_def by blast
  moreover have "\<exists>p. g ! b = Some p \<and> p \<in> set rpo \<and> immediate_dominator edge root b p" if b: "b \<in> set rpo" "b \<noteq> root" for b
  proof -
    have kb: "known g b" using g(2) b(1) by (simp add: settled_def)
    obtain p where p: "g ! b = Some p" "known g p" "p \<in> set rpo" "r p < r b"
      using tree_parent[OF t kb b(2)] by blast
    have "anc g b = insert b (anc g p)"
      using b kb p(1) by (intro anc_step) (auto simp: known_def)
    then have "dom b = insert b (dom p)"
      using g(2) b(1) p(3) by (simp add: settled_def)
    then show ?thesis
      using p dominators_self[of p edge root] by (auto simp: immediate_dominator_def)
  qed
  ultimately show ?thesis
    using g(1) t by (auto simp: tree_def)
qed

end

end
