(* ===== verification/DominatorsCorrect.thy ===== *)
theory DominatorsCorrect
  imports DomTree
begin

text \<open>
  The dominator and post-dominator computations of a control flow graph are correct: the
  depth-first search gives the numbering \<open>flow_graph\<close> asks for, so the iteration
  returns the immediate dominators. For post-dominators the interpretation holds for
  every graph; for dominators it needs block ids that are indices and an entry in range.
\<close>

subsection \<open>Numbering\<close>

lemma fold_number:
  "set xs \<subseteq> {..<length v} \<Longrightarrow> distinct xs \<Longrightarrow>
   length (fold (\<lambda>(i, b) v. v[b := i]) (enumerate k xs) v) = length v \<and>
   (\<forall>i < length xs. fold (\<lambda>(i, b) v. v[b := i]) (enumerate k xs) v ! (xs ! i) = k + i) \<and>
   (\<forall>c. c \<notin> set xs \<longrightarrow> fold (\<lambda>(i, b) v. v[b := i]) (enumerate k xs) v ! c = v ! c)"
proof (induction xs arbitrary: k v)
  case (Cons x xs)
  let ?F = "fold (\<lambda>(i, b) v. v[b := i]) (enumerate (Suc k) xs) (v[x := k])"
  from Cons.IH[of "v[x := k]" "Suc k"] Cons.prems have IH: "length ?F = length v"
    "\<forall>i < length xs. ?F ! (xs ! i) = Suc k + i" "\<forall>c. c \<notin> set xs \<longrightarrow> ?F ! c = v[x := k] ! c"
    by auto
  have "?F ! x = k"
    using IH(3) Cons.prems by simp
  moreover have "?F ! c = v ! c" if "c \<notin> set (x # xs)" for c
    using IH(3) that by simp
  ultimately show ?case
    using IH(1,2) by (auto simp: nth_Cons split: nat.split)
qed simp

lemma rpo_numbers_spec:
  assumes "distinct rpo" "set rpo \<subseteq> {..<n}"
  shows "length (rpo_numbers n rpo) = n" "i < length rpo \<Longrightarrow> rpo_numbers n rpo ! (rpo ! i) = i"
  using fold_number[of rpo "replicate n 0" 0] assms by (auto simp: rpo_numbers_def)

lemma after_rev_index:
  assumes "after xs y p" "distinct xs"
  obtains i j where "i < j" "j < length xs" "rev xs ! i = p" "rev xs ! j = y"
proof -
  from assms(1) obtain us vs ws where xs: "xs = us @ y # vs @ p # ws"
    by (auto simp: after_def)
  have r: "rev xs = (rev ws) @ p # (rev vs @ y # rev us)"
    by (simp add: xs)
  have "rev xs ! length ws = p" "rev xs ! (length ws + Suc (length vs)) = y"
    unfolding r by (simp_all add: nth_append)
  then show ?thesis
    using that[of "length ws" "length ws + Suc (length vs)"] xs by simp
qed

lemma dfs_single:
  assumes "root < n"
  obtains v out where "dfs_collect adj [root] (replicate n False) [] = (v, out @ [root])"
  using assms by (cases "dfs_collect adj (adj root) ((replicate n False)[root := True]) []") auto

text \<open>Reverse post-order from \<open>root\<close>, for a predecessor table that inverts the adjacency.\<close>

lemma dfs_flow_graph:
  assumes root: "root < n"
    and rpo: "rpo = rev (snd (dfs_collect adj [root] (replicate n False) []))"
    and inverse: "\<And>p b. p < n \<Longrightarrow> b < n \<Longrightarrow> b \<in> set (adj p) \<longleftrightarrow> b < length preds \<and> p \<in> set (preds ! b)"
    and bound: "\<And>p b. b < length preds \<Longrightarrow> p \<in> set (preds ! b) \<Longrightarrow> p < n"
    and rows: "length preds \<le> n" "\<And>b. b < n \<Longrightarrow> b \<noteq> root \<Longrightarrow> b < length preds"
  shows "flow_graph n root preds (rpo_numbers n rpo) rpo"
proof -
  obtain v out where d: "dfs_collect adj [root] (replicate n False) [] = (v, out @ [root])"
    using dfs_single[OF root] .
  have empty: "marked (replicate n False) = {}"
    by (auto simp: marked_def)
  from dfs_collect_spec[OF d] have s: "distinct (out @ [root])" "set (out @ [root]) = marked v" "length v = n"
    "\<forall>y \<in> set (out @ [root]). \<forall>z \<in> set (adj y). z < n \<longrightarrow> z \<in> marked v"
    "\<forall>y \<in> set (out @ [root]). y = root \<or> (\<exists>p. after (out @ [root]) y p \<and> y \<in> set (adj p))"
    unfolding empty by auto
  have r: "rpo = rev (out @ [root])"
    using rpo d by simp
  have sr: "set rpo = marked v" "distinct rpo" "set rpo \<subseteq> {..<n}"
    using s by (auto simp: r marked_def)
  note num = rpo_numbers_spec[OF sr(2,3)]
  show ?thesis
  proof
    show "\<exists>p \<in> set (preds ! b). p \<in> set rpo \<and> rpo_numbers n rpo ! p < rpo_numbers n rpo ! b"
      if b: "b \<in> set rpo" "b \<noteq> root" for b
    proof -
      obtain p where p: "after (out @ [root]) b p" "b \<in> set (adj p)"
        using s(2,5) b sr(1) by blast
      obtain i j where ij: "i < j" "j < length rpo" "rpo ! i = p" "rpo ! j = b"
        using after_rev_index[OF p(1) s(1)] r by (metis length_rev)
      then have "p \<in> set rpo" by auto
      then have "p \<in> set (preds ! b)"
        using inverse[of p b] p(2) b(1) sr(3) by blast
      moreover have "rpo_numbers n rpo ! p = i" "rpo_numbers n rpo ! b = j"
        using num(2) ij by auto
      ultimately show ?thesis
        using ij \<open>p \<in> set rpo\<close> by auto
    qed
    show "b \<in> set rpo" if "p \<in> set rpo" "b < length preds" "p \<in> set (preds ! b)" for p b
      using that s(2,4) sr inverse[of p b] rows(1) by auto
    show "rpo_numbers n rpo ! (rpo ! i) = i" if "i < length rpo" for i
      using num(2) that .
  qed (use sr num(1) bound rows r in auto)
qed

subsection \<open>Dominators\<close>

definition cfg_edge :: "Cfg \<Rightarrow> nat \<Rightarrow> nat \<Rightarrow> bool" where
  "cfg_edge cfg p b \<longleftrightarrow> b < length (blocks cfg) \<and> (\<exists>ss. successors cfg p = Some ss \<and> b \<in> set ss)"

lemma cfg_edge_succs: "cfg_edge cfg p b \<longleftrightarrow> p < length (blocks cfg) \<and> b < length (blocks cfg) \<and> b \<in> set (succs_of cfg p)"
  by (cases "p < length (blocks cfg)") (auto simp: cfg_edge_def successors_in_range successors_out_of_range)

lemma cfg_flow_graph:
  assumes "ids_are_indices cfg" "entry cfg < length (blocks cfg)" "predecessors cfg = Some preds"
  shows "flow_graph (length (blocks cfg)) (entry cfg) preds
    (rpo_numbers (length (blocks cfg)) (reverse_postorder cfg)) (reverse_postorder cfg)"
    "flow_graph.edge preds = cfg_edge cfg"
proof -
  let ?n = "length (blocks cfg)"
  have p: "length preds = ?n" "\<And>b. b < ?n \<Longrightarrow> set (preds ! b) = {p. p < ?n \<and> b \<in> set (succs_of cfg p)}"
    using predecessors_spec[OF assms(1)] assms(3) by auto
  show fg: "flow_graph ?n (entry cfg) preds (rpo_numbers ?n (reverse_postorder cfg)) (reverse_postorder cfg)"
    by (rule dfs_flow_graph[where adj = "succs_of cfg"]) (use assms(2) p in \<open>auto simp: reverse_postorder_def\<close>)
  show "flow_graph.edge preds = cfg_edge cfg"
    by (intro ext) (use p in \<open>auto simp: flow_graph.edge_def[OF fg] cfg_edge_succs\<close>)
qed

lemma compute_dominators_spec:
  assumes "ids_are_indices cfg" "entry cfg < length (blocks cfg)"
  shows "\<exists>doms. compute_dominators cfg = Some doms \<and> length doms = length (blocks cfg) \<and>
    (\<forall>b < length (blocks cfg).
       if b \<noteq> entry cfg \<and> (\<exists>xs. gpath (cfg_edge cfg) (entry cfg) (b # xs))
       then immediate_dominator (cfg_edge cfg) (entry cfg) b (doms ! b)
       else doms ! b = entry cfg)"
proof -
  let ?n = "length (blocks cfg)" and ?e = "entry cfg" and ?rpo = "reverse_postorder cfg"
  obtain preds where p: "predecessors cfg = Some preds"
    using predecessors_spec[OF assms(1)] by blast
  note fg = cfg_flow_graph[OF assms p]
  obtain g where g: "dom_loop ?e preds (rpo_numbers ?n ?rpo) ?rpo ((replicate ?n None)[?e := Some ?e]) = Some g"
    "length g = ?n" "g ! ?e = Some ?e" "\<forall>b < ?n. b \<notin> set ?rpo \<longrightarrow> g ! b = None"
    "\<forall>b \<in> set ?rpo. b \<noteq> ?e \<longrightarrow> (\<exists>p. g ! b = Some p \<and> p \<in> set ?rpo \<and> immediate_dominator (cfg_edge cfg) ?e b p)"
    using flow_graph.dom_loop_correct[OF fg(1)] unfolding fg(2) by blast
  have reach: "(\<exists>xs. gpath (cfg_edge cfg) ?e (b # xs)) \<longleftrightarrow> b \<in> set ?rpo" for b
    using flow_graph.gpath_rpo[OF fg(1)] flow_graph.rpo_gpath[OF fg(1)] unfolding fg(2) by fastforce
  let ?doms = "map (\<lambda>i. case i of None \<Rightarrow> ?e | Some i \<Rightarrow> i) g"
  have "compute_dominators cfg = Some ?doms"
    using assms(2) p g(1) by (auto simp: compute_dominators_def Let_def)
  moreover have "if b \<noteq> ?e \<and> (\<exists>xs. gpath (cfg_edge cfg) ?e (b # xs))
      then immediate_dominator (cfg_edge cfg) ?e b (?doms ! b) else ?doms ! b = ?e" if "b < ?n" for b
    using g(2-5) that unfolding reach by (cases "b = ?e"; cases "b \<in> set ?rpo") auto
  moreover have "length ?doms = ?n" using g(2) by simp
  ultimately show ?thesis by blast
qed

text \<open>
  C6. \<open>compute_dominators\<close> always returns on a graph whose block ids are indices and
  whose entry is in range, and gives every reachable block other than the entry its
  immediate dominator: the strict dominator that all strict dominators dominate. The
  entry and unreachable blocks get the entry.
\<close>

theorem compute_dominators_correct:
  assumes "ids_are_indices cfg" "entry cfg < length (blocks cfg)"
  shows "\<exists>doms. compute_dominators cfg = Some doms \<and> length doms = length (blocks cfg) \<and>
    (\<forall>b < length (blocks cfg).
       if b \<noteq> entry cfg \<and> (\<exists>xs. gpath (cfg_edge cfg) (entry cfg) (b # xs))
       then immediate_dominator (cfg_edge cfg) (entry cfg) b (doms ! b)
       else doms ! b = entry cfg)"
  by (rule compute_dominators_spec[OF assms])

theorem compute_dominators_correct_witness:
  "ids_are_indices diamond \<and> entry diamond < length (blocks diamond) \<and>
   compute_dominators diamond = Some [0, 0, 0, 0, 3, 0] \<and>
   immediate_dominator (cfg_edge diamond) 0 4 3"
proof -
  have h: "ids_are_indices diamond" "entry diamond < length (blocks diamond)"
    "compute_dominators diamond = Some [0, 0, 0, 0, 3, 0]" "entry diamond = 0" "length (blocks diamond) = 6"
    by code_simp+
  have "gpath (cfg_edge diamond) 0 [4, 3, 1, 0]"
    by (simp add: cfg_edge_succs) code_simp
  then have ex: "\<exists>xs. gpath (cfg_edge diamond) (entry diamond) (4 # xs)"
    unfolding h(4) by (rule exI)
  obtain doms where d: "compute_dominators diamond = Some doms"
    "\<forall>b < length (blocks diamond).
       if b \<noteq> entry diamond \<and> (\<exists>xs. gpath (cfg_edge diamond) (entry diamond) (b # xs))
       then immediate_dominator (cfg_edge diamond) (entry diamond) b (doms ! b)
       else doms ! b = entry diamond"
    using compute_dominators_correct[OF h(1,2)] by blast
  then have "immediate_dominator (cfg_edge diamond) 0 4 (doms ! 4)"
    using spec[OF d(2), of 4] ex h(4,5) by simp
  with h d(1) show ?thesis by simp
qed

subsection \<open>Post-dominators\<close>

definition exit_edge :: "Cfg \<Rightarrow> nat \<Rightarrow> nat \<Rightarrow> bool" where
  "exit_edge cfg b s \<longleftrightarrow> b < length (blocks cfg) \<and>
     (cfg_edge cfg b s \<or> s = length (blocks cfg) \<and> (\<forall>t. \<not> cfg_edge cfg b t))"

lemma length_exit_succs [simp]: "length (exit_succs cfg) = length (blocks cfg)"
  by (simp add: exit_succs_def Let_def)

lemma exit_succs_spec:
  assumes "b < length (blocks cfg)"
  shows "s \<in> set (exit_succs cfg ! b) \<longleftrightarrow> exit_edge cfg b s"
proof -
  have e: "exit_succs cfg ! b = (let s = filter (\<lambda>s. s < length (blocks cfg)) (succs_of cfg b) in
      if s = [] then [length (blocks cfg)] else s)"
    using assms by (simp add: exit_succs_def Let_def)
  have "cfg_edge cfg b t \<longleftrightarrow> t \<in> set (filter (\<lambda>s. s < length (blocks cfg)) (succs_of cfg b))" for t
    using assms by (auto simp: cfg_edge_succs)
  then show ?thesis
    unfolding e exit_edge_def Let_def using assms by (auto simp: filter_empty_conv)
qed

lemma fold_rev_preds:
  "length (fold (\<lambda>(b, ss) preds. fold (push_pred b) ss preds) (enumerate k xs) v) = length v \<and>
   (s < length v \<longrightarrow> set (fold (\<lambda>(b, ss) preds. fold (push_pred b) ss preds) (enumerate k xs) v ! s) =
      set (v ! s) \<union> {k + i | i. i < length xs \<and> s \<in> set (xs ! i)})"
proof (induction xs arbitrary: k v)
  case (Cons x xs)
  let ?v = "fold (push_pred k) x v"
  have v: "set (?v ! s) = set (v ! s) \<union> (if s \<in> set x then {k} else {})" if "s < length v"
    using that by (auto simp: nth_fold_push_pred count_list_0_iff)
  have "{k + i | i. i < length (x # xs) \<and> s \<in> set ((x # xs) ! i)} =
      (if s \<in> set x then {k} else {}) \<union> {Suc k + i | i. i < length xs \<and> s \<in> set (xs ! i)}"
    by (auto simp: less_Suc_eq_0_disj)
  with Cons.IH[of "Suc k" ?v] v show ?case by auto
qed simp

lemma rev_preds_spec:
  "length (rev_preds cfg) = length (blocks cfg) + 1"
  "s \<le> length (blocks cfg) \<Longrightarrow> p \<in> set (rev_preds cfg ! s) \<longleftrightarrow> p < length (blocks cfg) \<and> s \<in> set (exit_succs cfg ! p)"
  using fold_rev_preds[of 0 "exit_succs cfg" "replicate (length (blocks cfg) + 1) []" s]
  by (auto simp: rev_preds_def simp del: replicate_Suc)

definition post_order :: "Cfg \<Rightarrow> nat list" where
  "post_order cfg = rev (snd (dfs_collect (\<lambda>b. rev_preds cfg ! b) [length (blocks cfg)]
     (replicate (length (blocks cfg) + 1) False) []))"

interpretation pd: flow_graph "length (blocks cfg) + 1" "length (blocks cfg)" "exit_succs cfg"
  "rpo_numbers (length (blocks cfg) + 1) (post_order cfg)" "post_order cfg" for cfg
proof (rule dfs_flow_graph[where adj = "\<lambda>b. rev_preds cfg ! b"])
  show "b \<in> set (rev_preds cfg ! p) \<longleftrightarrow> b < length (exit_succs cfg) \<and> p \<in> set (exit_succs cfg ! b)"
    if "p < length (blocks cfg) + 1" "b < length (blocks cfg) + 1" for p b
    using that by (simp add: rev_preds_spec)
  show "p < length (blocks cfg) + 1" if "b < length (exit_succs cfg)" "p \<in> set (exit_succs cfg ! b)" for p b
    using that exit_succs_spec[of b cfg p] by (auto simp: exit_edge_def cfg_edge_def)
qed (auto simp: post_order_def)

lemma pd_edge: "pd.edge cfg = (\<lambda>s b. exit_edge cfg b s)"
  by (intro ext) (auto simp: pd.edge_def exit_succs_spec exit_edge_def)

lemma compute_post_dominators_spec:
  "\<exists>pdoms. compute_post_dominators cfg = Some pdoms \<and> length pdoms = length (blocks cfg) \<and>
    (\<forall>b < length (blocks cfg).
       if \<exists>xs. gpath (\<lambda>s b. exit_edge cfg b s) (length (blocks cfg)) (b # xs)
       then immediate_dominator (\<lambda>s b. exit_edge cfg b s) (length (blocks cfg)) b (pdoms ! b)
       else pdoms ! b = length (blocks cfg))"
proof (cases "length (blocks cfg) = 0")
  case True
  then show ?thesis by (simp add: compute_post_dominators_def)
next
  case False
  let ?n = "length (blocks cfg)" and ?rpo = "post_order cfg"
  obtain g where g: "dom_loop ?n (exit_succs cfg) (rpo_numbers (?n + 1) ?rpo) ?rpo
      ((replicate (?n + 1) None)[?n := Some ?n]) = Some g"
    "length g = ?n + 1" "\<forall>b < ?n + 1. b \<notin> set ?rpo \<longrightarrow> g ! b = None"
    "\<forall>b \<in> set ?rpo. b \<noteq> ?n \<longrightarrow> (\<exists>p. g ! b = Some p \<and> immediate_dominator (\<lambda>s b. exit_edge cfg b s) ?n b p)"
    using pd.dom_loop_correct[of cfg] unfolding pd_edge by blast
  have reach: "(\<exists>xs. gpath (\<lambda>s b. exit_edge cfg b s) ?n (b # xs)) \<longleftrightarrow> b \<in> set ?rpo" for b
    using pd.gpath_rpo[of cfg] pd.rpo_gpath[of b cfg] unfolding pd_edge by fastforce
  let ?pdoms = "map (\<lambda>i. case i of None \<Rightarrow> ?n | Some i \<Rightarrow> i) (take ?n g)"
  have "compute_post_dominators cfg = Some ?pdoms"
    using False g(1) by (simp add: compute_post_dominators_def Let_def post_order_def)
  moreover have "if \<exists>xs. gpath (\<lambda>s b. exit_edge cfg b s) ?n (b # xs)
      then immediate_dominator (\<lambda>s b. exit_edge cfg b s) ?n b (?pdoms ! b) else ?pdoms ! b = ?n" if "b < ?n" for b
    using g(2-4) that unfolding reach by (cases "b \<in> set ?rpo") auto
  moreover have "length ?pdoms = ?n" using g(2) by simp
  ultimately show ?thesis by blast
qed

text \<open>
  C28. \<open>compute_post_dominators\<close> always returns, on every graph: a block from which the
  virtual exit can be reached gets its immediate post-dominator, the node every path
  from it to the exit passes through first, which may be the exit itself; a block that
  cannot leave gets the exit.
\<close>

theorem compute_post_dominators_correct:
  "\<exists>pdoms. compute_post_dominators cfg = Some pdoms \<and> length pdoms = length (blocks cfg) \<and>
    (\<forall>b < length (blocks cfg).
       if \<exists>xs. gpath (\<lambda>s b. exit_edge cfg b s) (length (blocks cfg)) (b # xs)
       then immediate_dominator (\<lambda>s b. exit_edge cfg b s) (length (blocks cfg)) b (pdoms ! b)
       else pdoms ! b = length (blocks cfg))"
  by (rule compute_post_dominators_spec)

theorem compute_post_dominators_correct_witness:
  "compute_post_dominators diamond = Some [3, 3, 3, 4, 6, 4] \<and>
   immediate_dominator (\<lambda>s b. exit_edge diamond b s) 6 0 3"
proof -
  have h: "compute_post_dominators diamond = Some [3, 3, 3, 4, 6, 4]" "length (blocks diamond) = 6"
    by code_simp+
  have "exit_succs diamond = [[1, 2], [3], [3], [1, 4], [6], [4]]"
    by code_simp
  then have "gpath (\<lambda>s b. exit_edge diamond b s) 6 [0, 1, 3, 4, 6]"
    using h(2) by (auto simp flip: exit_succs_spec)
  then have ex: "\<exists>xs. gpath (\<lambda>s b. exit_edge diamond b s) (length (blocks diamond)) (0 # xs)"
    unfolding h(2) by (rule exI)
  obtain pdoms where d: "compute_post_dominators diamond = Some pdoms"
    "\<forall>b < length (blocks diamond).
       if \<exists>xs. gpath (\<lambda>s b. exit_edge diamond b s) (length (blocks diamond)) (b # xs)
       then immediate_dominator (\<lambda>s b. exit_edge diamond b s) (length (blocks diamond)) b (pdoms ! b)
       else pdoms ! b = length (blocks diamond)"
    using compute_post_dominators_correct[of diamond] by blast
  then have "immediate_dominator (\<lambda>s b. exit_edge diamond b s) 6 0 (pdoms ! 0)"
    using spec[OF d(2), of 0] ex h(2) by simp
  with h d(1) show ?thesis by simp
qed

end
