(* ===== verification/Budget.thy ===== *)
theory Budget
  imports Prelude
begin

text \<open>
  Cooperative execution accounting, \<^verbatim>\<open>rsleigh-decompile/src/budget.rs\<close>. The two thread-local
  cells are the record \<open>budget_thread\<close>, passed along; the clock is an argument in
  nanoseconds, read twice where the source reads it twice. Cancellation by unwinding is
  the left result of a computation \<open>'a analysis\<close>; the guards that restore a cell on drop
  run on both results.
\<close>

subsection \<open>State\<close>

record Limits =
  max_decode :: "u64 option"
  max_ssa :: "u64 option"
  deadline_ms :: "u64 option"

record Stop =
  stage :: string
  reason :: string
  stop_consumed :: u64
  stop_limit :: u64

record Metrics =
  limits :: Limits
  decode_instructions :: u64
  ssa_work :: u64
  stop :: "Stop option"

record BudgetState =
  started :: nat
  metrics :: Metrics

record budget_thread =
  current :: "BudgetState option"
  in_traversal :: bool

type_synonym 'a analysis = "budget_thread \<Rightarrow> (Stop + 'a) \<times> budget_thread"

definition fresh_metrics :: "Limits \<Rightarrow> Metrics" where
  "fresh_metrics ls = \<lparr>limits = ls, decode_instructions = 0, ssa_work = 0, stop = None\<rparr>"

definition no_limits :: Limits where
  "no_limits = \<lparr>max_decode = None, max_ssa = None, deadline_ms = None\<rparr>"

subsection \<open>Operations\<close>

text \<open>Nanoseconds since the scope was opened; the clock does not run backwards.\<close>

definition elapsed :: "BudgetState \<Rightarrow> nat \<Rightarrow> nat" where
  "elapsed st now = now - started st"

definition charge_counter :: "string \<Rightarrow> bool \<Rightarrow> u64 \<Rightarrow> Metrics \<Rightarrow> Stop option \<times> Metrics" where
  "charge_counter stg decode amount counters =
     (let consumed = (if decode then decode_instructions counters else ssa_work counters);
          lim = (if decode then max_decode (limits counters) else max_ssa (limits counters));
          spent = (let c = saturating_add_u64 consumed amount in
                   if decode then counters\<lparr>decode_instructions := c\<rparr> else counters\<lparr>ssa_work := c\<rparr>)
      in case lim of
           Some l \<Rightarrow>
             if amount > saturating_sub_u64 l consumed
             then (Some \<lparr>stage = stg, reason = (if decode then ''decode_limit'' else ''ssa_work_limit''),
                         stop_consumed = consumed, stop_limit = l\<rparr>, counters)
             else (None, spent)
         | None \<Rightarrow> (None, spent))"

definition charge_metrics :: "string \<Rightarrow> bool \<Rightarrow> u64 \<Rightarrow> nat \<Rightarrow> nat \<Rightarrow> BudgetState \<Rightarrow> Stop option \<times> Metrics" where
  "charge_metrics stg decode amount now1 now2 st =
     (let counters = metrics st in
      case deadline_ms (limits counters) of
        Some ms \<Rightarrow>
          if uint ms * 1000000 \<le> int (elapsed st now1)
          then (Some \<lparr>stage = stg, reason = ''deadline'',
                      stop_consumed = word_of_int (min (int (elapsed st now2) div 1000000) 0xFFFFFFFFFFFFFFFF),
                      stop_limit = ms\<rparr>, counters)
          else charge_counter stg decode amount counters
      | None \<Rightarrow> charge_counter stg decode amount counters)"

definition charge :: "string \<Rightarrow> bool \<Rightarrow> u64 \<Rightarrow> nat \<Rightarrow> nat \<Rightarrow> unit analysis" where
  "charge stg decode amount now1 now2 th = (case current th of
     None \<Rightarrow> (Inr (), th)
   | Some st \<Rightarrow>
       (case stop (metrics st) of
          Some s \<Rightarrow> (Inl s, th)
        | None \<Rightarrow>
            (case charge_metrics stg decode amount now1 now2 st of
               (Some s, counters) \<Rightarrow>
                 (Inl s, th\<lparr>current := Some (st\<lparr>metrics := counters\<lparr>stop := Some s\<rparr>\<rparr>)\<rparr>)
             | (None, counters) \<Rightarrow> (Inr (), th\<lparr>current := Some (st\<lparr>metrics := counters\<rparr>)\<rparr>))))"

definition decode_step :: "nat \<Rightarrow> nat \<Rightarrow> unit analysis" where
  "decode_step now1 now2 = charge ''decode'' True 1 now1 now2"

definition poll :: "string \<Rightarrow> nat \<Rightarrow> nat \<Rightarrow> unit analysis" where
  "poll stg now1 now2 = charge stg False 0 now1 now2"

definition work :: "string \<Rightarrow> u64 \<Rightarrow> nat \<Rightarrow> nat \<Rightarrow> unit analysis" where
  "work stg units now1 now2 th =
     charge stg False (if in_traversal th then 0 else units) now1 now2 th"

definition traversal :: "'a analysis \<Rightarrow> 'a analysis" where
  "traversal f th =
     (let saved = in_traversal th;
          (res, th') = f (th\<lparr>in_traversal := True\<rparr>)
      in (res, th'\<lparr>in_traversal := saved\<rparr>))"

text \<open>\<open>Scope::new\<close> returns the guard, the replaced state; dropping it puts that state back.\<close>

definition scope_new :: "nat \<Rightarrow> Limits \<Rightarrow> budget_thread \<Rightarrow> BudgetState option \<times> budget_thread" where
  "scope_new now ls th =
     (current th, th\<lparr>current := Some \<lparr>started = now, metrics = fresh_metrics ls\<rparr>\<rparr>)"

definition scope_drop :: "BudgetState option \<Rightarrow> budget_thread \<Rightarrow> budget_thread" where
  "scope_drop saved th = th\<lparr>current := saved\<rparr>"

definition get_metrics :: "budget_thread \<Rightarrow> Metrics" where
  "get_metrics th = (case current th of None \<Rightarrow> fresh_metrics no_limits | Some st \<Rightarrow> metrics st)"

definition stopped :: "budget_thread \<Rightarrow> Stop option" where
  "stopped th = (case current th of None \<Rightarrow> None | Some st \<Rightarrow> stop (metrics st))"

text \<open>An analysis run inside a scope, the guard dropped on return and on unwinding alike.\<close>

definition with_scope :: "nat \<Rightarrow> Limits \<Rightarrow> 'a analysis \<Rightarrow> 'a analysis" where
  "with_scope now ls f th =
     (let (saved, th1) = scope_new now ls th;
          (res, th2) = f th1
      in (res, scope_drop saved th2))"

subsection \<open>Charging\<close>

definition within :: "u64 option \<Rightarrow> u64 \<Rightarrow> bool" where
  "within lim c = (case lim of None \<Rightarrow> True | Some l \<Rightarrow> c \<le> l)"

definition within_limits :: "Metrics \<Rightarrow> bool" where
  "within_limits m \<longleftrightarrow> within (max_decode (limits m)) (decode_instructions m) \<and> within (max_ssa (limits m)) (ssa_work m)"

lemma saturating_fits:
  assumes "within (Some l) c" "\<not> amount > saturating_sub_u64 l c"
  shows "saturating_add_u64 c amount \<le> l" "unat (saturating_add_u64 c amount) = unat c + unat amount"
proof -
  have "unat amount + unat c \<le> unat l"
    using assms by (simp add: within_def word_less_nat_alt word_le_nat_alt unat_saturating_sub_u64 not_less)
  moreover have "unat l < 2 ^ 64"
    using unsigned_less[of l] by simp
  ultimately show "saturating_add_u64 c amount \<le> l" "unat (saturating_add_u64 c amount) = unat c + unat amount"
    by (simp_all add: word_le_nat_alt unat_saturating_add_u64)
qed

lemma charge_counter_within:
  "within_limits m \<Longrightarrow> within_limits (snd (charge_counter stg decode amount m))"
  using saturating_fits(1)
  by (auto simp: charge_counter_def within_limits_def Let_def within_def split: option.splits)

lemma charge_counter_limits: "limits (snd (charge_counter stg decode amount m)) = limits m"
  "stop (snd (charge_counter stg decode amount m)) = stop m"
  by (auto simp: charge_counter_def Let_def split: option.splits)

lemma charge_metrics_cases:
  "(\<exists>s. charge_metrics stg decode amount now1 now2 st = (Some s, metrics st)) \<or>
   charge_metrics stg decode amount now1 now2 st = charge_counter stg decode amount (metrics st)"
  by (cases "deadline_ms (limits (metrics st))") (simp_all add: charge_metrics_def Let_def)

lemma charge_cases:
  obtains (idle) "current th = None" "charge stg decode amount now1 now2 th = (Inr (), th)"
  | (stopped) st s where "current th = Some st" "stop (metrics st) = Some s"
      "charge stg decode amount now1 now2 th = (Inl s, th)"
  | (deadline) st s where "current th = Some st" "stop (metrics st) = None"
      "charge stg decode amount now1 now2 th =
         (Inl s, th\<lparr>current := Some (st\<lparr>metrics := (metrics st)\<lparr>stop := Some s\<rparr>\<rparr>)\<rparr>)"
  | (limit) st s where "current th = Some st" "stop (metrics st) = None"
      "charge_counter stg decode amount (metrics st) = (Some s, metrics st)"
      "charge stg decode amount now1 now2 th =
         (Inl s, th\<lparr>current := Some (st\<lparr>metrics := (metrics st)\<lparr>stop := Some s\<rparr>\<rparr>)\<rparr>)"
  | (spent) st m where "current th = Some st" "stop (metrics st) = None"
      "charge_counter stg decode amount (metrics st) = (None, m)"
      "charge stg decode amount now1 now2 th = (Inr (), th\<lparr>current := Some (st\<lparr>metrics := m\<rparr>)\<rparr>)"
proof (cases "current th")
  case None
  then show ?thesis using idle by (simp add: charge_def)
next
  case (Some st)
  show ?thesis
  proof (cases "stop (metrics st)")
    case None
    consider (late) s where "charge_metrics stg decode amount now1 now2 st = (Some s, metrics st)"
      | (counter) "charge_metrics stg decode amount now1 now2 st = charge_counter stg decode amount (metrics st)"
      using charge_metrics_cases by blast
    then show ?thesis
    proof cases
      case late
      with Some None show ?thesis by (intro deadline) (simp_all add: charge_def)
    next
      case counter
      show ?thesis
      proof (cases "charge_counter stg decode amount (metrics st)")
        case (Pair o' m)
        show ?thesis
        proof (cases o')
          case None
          with Some \<open>stop (metrics st) = None\<close> counter Pair show ?thesis
            by (intro spent) (simp_all add: charge_def)
        next
          case (Some s)
          then have "m = metrics st"
            using Pair by (auto simp: charge_counter_def Let_def split: option.splits if_splits)
          with Some \<open>current th = Some st\<close> \<open>stop (metrics st) = None\<close> counter Pair show ?thesis
            by (intro limit) (simp_all add: charge_def)
        qed
      qed
    qed
  qed (use Some stopped in \<open>simp add: charge_def\<close>)
qed

text \<open>What a thread may hold: counters within their limits.\<close>

definition budget_ok :: "budget_thread \<Rightarrow> bool" where
  "budget_ok th = (case current th of None \<Rightarrow> True | Some st \<Rightarrow> within_limits (metrics st))"

lemma charge_ok: "budget_ok th \<Longrightarrow> budget_ok (snd (charge stg decode amount now1 now2 th))"
proof (cases rule: charge_cases[of th stg decode amount now1 now2])
  case (spent st m)
  assume "budget_ok th"
  then have "within_limits (metrics st)"
    using spent(1) by (simp add: budget_ok_def)
  from charge_counter_within[OF this, of stg decode amount] have "within_limits m"
    using spent(3) by simp
  with spent show ?thesis by (simp add: budget_ok_def)
qed (simp_all add: budget_ok_def within_limits_def)

text \<open>
  C35. A stop is final: after a charge was refused in a scope, every later charge, whatever
  its stage, amount and time, is refused with the same stop and changes nothing.
\<close>

theorem stop_is_final:
  assumes "fst (charge stg decode amount now1 now2 th) = Inl s"
  shows "charge stg' decode' amount' now1' now2' (snd (charge stg decode amount now1 now2 th)) =
    (Inl s, snd (charge stg decode amount now1 now2 th))"
  using assms
  by (cases rule: charge_cases[of th stg decode amount now1 now2]) (auto simp: charge_def)



definition late :: "BudgetState \<Rightarrow> nat \<Rightarrow> bool" where
  "late st now \<longleftrightarrow> (\<exists>ms. deadline_ms (limits (metrics st)) = Some ms \<and> uint ms * 1000000 \<le> int (now - started st))"








definition budget_example :: BudgetState where
  "budget_example = \<lparr>started = 0, metrics = fresh_metrics \<lparr>max_decode = Some 2, max_ssa = Some 3, deadline_ms = None\<rparr>\<rparr>"

theorem stop_is_final_witness:
  "charge ''cfg'' False 0 9 9 (snd (charge ''ssa'' False 4 5 5 \<lparr>current = Some budget_example, in_traversal = False\<rparr>)) =
   (Inl \<lparr>stage = ''ssa'', reason = ''ssa_work_limit'', stop_consumed = 0, stop_limit = 3\<rparr>,
    snd (charge ''ssa'' False 4 5 5 \<lparr>current = Some budget_example, in_traversal = False\<rparr>))"
proof -
  have "fst (charge ''ssa'' False 4 5 5 \<lparr>current = Some budget_example, in_traversal = False\<rparr>) =
      Inl \<lparr>stage = ''ssa'', reason = ''ssa_work_limit'', stop_consumed = 0, stop_limit = 3\<rparr>"
    by code_simp
  from stop_is_final[OF this] show ?thesis .
qed


subsection \<open>Runs inside a scope\<close>

text \<open>The calls an analysis makes: their arguments and the clock readings they see.\<close>

datatype budget_call = DecodeStep nat nat | Poll string nat nat | Work string u64 nat nat

primrec do_call :: "budget_call \<Rightarrow> unit analysis" where
  "do_call (DecodeStep t1 t2) = decode_step t1 t2"
| "do_call (Poll stg t1 t2) = poll stg t1 t2"
| "do_call (Work stg units t1 t2) = work stg units t1 t2"

text \<open>
  The states a scope passes through, with the decoder invocations allowed so far: a call
  that is refused ends nothing by itself, callers of \<open>decode_step\<close> and \<open>poll\<close> may go on.
\<close>

inductive scope_run :: "budget_thread \<Rightarrow> nat \<Rightarrow> budget_thread \<Rightarrow> bool" for th0 where
  begin_scope: "scope_run th0 0 th0"
| ok_decode: "scope_run th0 k th \<Longrightarrow> do_call (DecodeStep t1 t2) th = (Inr (), th') \<Longrightarrow> scope_run th0 (Suc k) th'"
| other_call: "scope_run th0 k th \<Longrightarrow> do_call c th = (res, th') \<Longrightarrow>
    (\<forall>t1 t2. c = DecodeStep t1 t2 \<longrightarrow> res \<noteq> Inr ()) \<Longrightarrow> scope_run th0 k th'"
| set_flag: "scope_run th0 k th \<Longrightarrow> scope_run th0 k (th\<lparr>in_traversal := flag\<rparr>)"

lemma do_call_charge:
  "\<exists>stg dec amt t1 t2. do_call c th = charge stg dec amt t1 t2 th \<and> (dec \<longleftrightarrow> (\<exists>t1 t2. c = DecodeStep t1 t2)) \<and> (dec \<longrightarrow> amt = 1)"
proof (cases c)
  case (DecodeStep t1 t2)
  then have "do_call c th = charge ''decode'' True 1 t1 t2 th" by (simp add: decode_step_def)
  with DecodeStep show ?thesis by blast
next
  case (Poll stg t1 t2)
  then have "do_call c th = charge stg False 0 t1 t2 th" by (simp add: poll_def)
  with Poll show ?thesis by blast
next
  case (Work stg units t1 t2)
  then have "do_call c th = charge stg False (if in_traversal th then 0 else units) t1 t2 th"
    by (simp add: work_def)
  with Work show ?thesis by blast
qed

lemma charge_decode_count:
  assumes "charge stg dec amt t1 t2 th = (res, th')" "current th = Some st" "within_limits (metrics st)"
    "max_decode (limits (metrics st)) = Some l" "dec \<longrightarrow> amt = 1"
  shows "\<exists>st'. current th' = Some st' \<and> limits (metrics st') = limits (metrics st) \<and> within_limits (metrics st') \<and>
    unat (decode_instructions (metrics st')) =
      unat (decode_instructions (metrics st)) + (if dec \<and> res = Inr () then 1 else 0)"
proof (cases rule: charge_cases[of th stg dec amt t1 t2])
  case (spent st1 m)
  then have st: "st1 = st" and eq: "th' = th\<lparr>current := Some (st\<lparr>metrics := m\<rparr>)\<rparr>" "res = Inr ()"
    using assms(1,2) by auto
  have m: "snd (charge_counter stg dec amt (metrics st)) = m" "fst (charge_counter stg dec amt (metrics st)) = None"
    using spent(3) st by auto
  have "within_limits m" "limits m = limits (metrics st)"
    using charge_counter_within[OF assms(3)] charge_counter_limits m(1) by metis+
  moreover have "unat (decode_instructions m) = unat (decode_instructions (metrics st)) + (if dec then 1 else 0)"
  proof (cases dec)
    case True
    have w: "within (Some l) (decode_instructions (metrics st))"
      using assms(3,4) by (simp add: within_limits_def)
    have nf: "\<not> saturating_sub_u64 l (decode_instructions (metrics st)) < amt"
      using m(2) True assms(4) by (auto simp: charge_counter_def Let_def split: if_splits)
    have "m = (metrics st)\<lparr>decode_instructions := saturating_add_u64 (decode_instructions (metrics st)) amt\<rparr>"
      using m(1) nf True assms(4) by (auto simp: charge_counter_def Let_def)
    with saturating_fits(2)[OF w nf] True assms(5) show ?thesis by simp
  next
    case False
    with m(1) show ?thesis by (auto simp: charge_counter_def Let_def split: option.splits if_splits)
  qed
  ultimately show ?thesis
    using eq by auto
qed (use assms in \<open>auto simp: within_limits_def\<close>)

lemma scope_run_count:
  assumes "scope_run th0 k th" "current th0 = Some \<lparr>started = t, metrics = fresh_metrics ls\<rparr>" "max_decode ls = Some l"
  shows "\<exists>st. current th = Some st \<and> limits (metrics st) = ls \<and> within_limits (metrics st) \<and>
    unat (decode_instructions (metrics st)) = k"
  using assms
proof (induction rule: scope_run.induct)
  case begin_scope
  then show ?case by (simp add: fresh_metrics_def within_limits_def within_def split: option.split)
next
  case (ok_decode k th t1 t2 th')
  then obtain st where st: "current th = Some st" "limits (metrics st) = ls" "within_limits (metrics st)"
    "unat (decode_instructions (metrics st)) = k" by blast
  have c: "charge ''decode'' True 1 t1 t2 th = (Inr (), th')"
    using ok_decode.hyps(2) by (simp add: decode_step_def)
  have "max_decode (limits (metrics st)) = Some l" using ok_decode.prems(2) st(2) by simp
  from charge_decode_count[OF c st(1,3) this] st(2,4) show ?case by simp
next
  case (other_call k th c res th')
  then obtain st where st: "current th = Some st" "limits (metrics st) = ls" "within_limits (metrics st)"
    "unat (decode_instructions (metrics st)) = k" by blast
  obtain stg dec amt t1 t2 where c: "do_call c th = charge stg dec amt t1 t2 th"
    "dec \<longleftrightarrow> (\<exists>t1 t2. c = DecodeStep t1 t2)" "dec \<longrightarrow> amt = 1"
    using do_call_charge[of c th] by (elim exE conjE) (rule that)
  have e: "charge stg dec amt t1 t2 th = (res, th')" using c(1) other_call.hyps(2) by simp
  have "\<not> (dec \<and> res = Inr ())" using other_call.hyps(3) c(2) by blast
  moreover have "max_decode (limits (metrics st)) = Some l" using other_call.prems(2) st(2) by simp
  ultimately show ?case
    using charge_decode_count[OF e st(1,3) _ c(3)] st(2,4) by (auto split: if_splits)
next
  case (set_flag k th flag)
  then show ?case by auto
qed

text \<open>
  C34. A scope with a decode limit allows at most that many decoder invocations, over any
  sequence of decode steps, polls and work charges at any times, and its counter is
  exactly the number of invocations it allowed.
\<close>

theorem decode_limit_holds:
  assumes "scope_run (snd (scope_new t ls th0)) k th" "max_decode ls = Some l"
  shows "k \<le> unat l \<and> unat (decode_instructions (get_metrics th)) = k"
proof -
  have "current (snd (scope_new t ls th0)) = Some \<lparr>started = t, metrics = fresh_metrics ls\<rparr>"
    by (simp add: scope_new_def)
  from scope_run_count[OF assms(1) this assms(2)] assms(2) show ?thesis
    by (auto simp: get_metrics_def within_limits_def within_def word_le_nat_alt)
qed

theorem decode_limit_holds_witness:
  "\<exists>th. scope_run (snd (scope_new 0 \<lparr>max_decode = Some 1, max_ssa = None, deadline_ms = None\<rparr>
      \<lparr>current = None, in_traversal = False\<rparr>)) 1 th \<and> unat (decode_instructions (get_metrics th)) = 1"
proof -
  let ?ls = "\<lparr>max_decode = Some 1, max_ssa = None, deadline_ms = None\<rparr>"
  let ?outer = "\<lparr>current = None, in_traversal = False\<rparr>"
  let ?th = "snd (do_call (DecodeStep 1 1) (snd (scope_new 0 ?ls ?outer)))"
  have "do_call (DecodeStep 1 1) (snd (scope_new 0 ?ls ?outer)) = (Inr (), ?th)"
    by code_simp
  from ok_decode[OF begin_scope this] have "scope_run (snd (scope_new 0 ?ls ?outer)) 1 ?th"
    by simp
  with decode_limit_holds[of 0 ?ls ?outer 1 ?th 1] show ?thesis by auto
qed

text \<open>
  C38. Scopes and traversals leave the thread as they found it, on return and on unwinding:
  the enclosing scope's state is untouched by what runs inside, and the traversal flag is
  restored; inside a traversal no work units are consumed.
\<close>

theorem guards_restore:
  "current (snd (with_scope now ls f th)) = current th \<and>
   in_traversal (snd (traversal f th)) = in_traversal th \<and>
   (in_traversal th' \<longrightarrow> ssa_work (get_metrics (snd (work stg units t1 t2 th'))) = ssa_work (get_metrics th'))"
proof -
  have "saturating_add_u64 c 0 = c" for c
    by (simp add: saturating_add_u64_def word_uint_eq_iff) (use uint_bounded[of c] in simp)
  then have "ssa_work (get_metrics (snd (charge stg False 0 t1 t2 th'))) = ssa_work (get_metrics th')"
    by (cases rule: charge_cases[of th' stg False 0 t1 t2])
      (auto simp: get_metrics_def charge_counter_def Let_def split: option.splits if_splits)
  then show ?thesis
    by (auto simp: with_scope_def scope_new_def scope_drop_def traversal_def work_def Let_def split: prod.splits)
qed

theorem guards_restore_witness:
  "ssa_work (get_metrics (snd (work ''ssa'' 7 1 1 \<lparr>current = Some budget_example, in_traversal = True\<rparr>))) = 0"
  using guards_restore[of 0 no_limits "\<lambda>th. (Inr (), th)" "\<lparr>current = None, in_traversal = False\<rparr>"
      "\<lparr>current = Some budget_example, in_traversal = True\<rparr>" "''ssa''" 7 1 1]
  by (simp add: get_metrics_def budget_example_def fresh_metrics_def)

subsection \<open>Going on stops\<close>

primrec do_calls :: "budget_call list \<Rightarrow> budget_thread \<Rightarrow> budget_thread" where
  "do_calls [] th = th"
| "do_calls (c # cs) th = do_calls cs (snd (do_call c th))"

primrec is_decode :: "budget_call \<Rightarrow> bool" where
  "is_decode (DecodeStep t1 t2) = True"
| "is_decode (Poll stg t1 t2) = False"
| "is_decode (Work stg units t1 t2) = False"

lemma charge_stopped:
  "stopped th = Some s \<Longrightarrow> charge stg dec amt t1 t2 th = (Inl s, th)"
  by (auto simp: stopped_def charge_def split: option.splits)

lemma charge_refused: "charge stg dec amt t1 t2 th = (Inl s, th') \<Longrightarrow> stopped th' = Some s"
  by (cases rule: charge_cases[of th stg dec amt t1 t2]) (auto simp: stopped_def)

lemma do_calls_stopped: "stopped th = Some s \<Longrightarrow> do_calls cs th = th"
proof (induction cs)
  case (Cons c cs)
  obtain stg dec amt t1 t2 where "do_call c th = charge stg dec amt t1 t2 th"
    using do_call_charge[of c th] by (elim exE conjE) (rule that)
  then have "snd (do_call c th) = th" using charge_stopped[OF Cons.prems] by simp
  then show ?case using Cons by simp
qed simp

lemma do_calls_run:
  "scope_run th0 k th \<Longrightarrow> stopped (do_calls cs th) = None \<Longrightarrow> scope_run th0 (k + length (filter is_decode cs)) (do_calls cs th)"
proof (induction cs arbitrary: k th)
  case (Cons c cs)
  obtain res th' where c: "do_call c th = (res, th')" by fastforce
  obtain stg dec amt t1 t2 where ch: "do_call c th = charge stg dec amt t1 t2 th"
    using do_call_charge[of c th] by (elim exE conjE) (rule that)
  have ok: "res = Inr ()"
  proof (cases res)
    case (Inl s)
    then have s: "stopped th' = Some s" using charge_refused c ch by metis
    then have "do_calls (c # cs) th = th'" using c do_calls_stopped by simp
    then show ?thesis using s Cons.prems(2) by simp
  qed simp
  have "scope_run th0 (if is_decode c then Suc k else k) th'"
    using ok_decode[OF Cons.prems(1)] other_call[OF Cons.prems(1) c] c ok by (cases c) fastforce+
  from Cons.IH[OF this] Cons.prems(2) c show ?case by (cases "is_decode c") simp_all
qed simp

text \<open>
  C36. A scope with a decode limit does not let its caller go on for ever: after more
  decoder invocations than the limit allows, whatever other calls are made in between, in
  whatever order and at whatever times, the scope is stopped.
\<close>

theorem decoding_is_stopped:
  assumes "current th = Some \<lparr>started = t, metrics = fresh_metrics ls\<rparr>" "max_decode ls = Some l"
    and "unat l < length (filter is_decode cs)"
  shows "stopped (do_calls cs th) \<noteq> None"
proof
  assume "stopped (do_calls cs th) = None"
  from do_calls_run[OF begin_scope this] have r: "scope_run th (length (filter is_decode cs)) (do_calls cs th)" by simp
  from scope_run_count[OF r assms(1,2)] obtain st :: BudgetState where "limits (metrics st) = ls"
    "within_limits (metrics st)" "unat (decode_instructions (metrics st)) = length (filter is_decode cs)" by blast
  with assms(2,3) show False by (simp add: within_limits_def within_def word_le_nat_alt)
qed

theorem decoding_is_stopped_witness:
  "stopped (do_calls [DecodeStep 1 1, Work ''ssa'' 1 2 2, DecodeStep 3 3, DecodeStep 4 4]
     \<lparr>current = Some budget_example, in_traversal = False\<rparr>) \<noteq> None"
  by (rule decoding_is_stopped[where ls = "\<lparr>max_decode = Some 2, max_ssa = Some 3, deadline_ms = None\<rparr>" and l = 2])
    (simp_all add: budget_example_def)

end
