(* ===== verification/Provenance.thy ===== *)
theory Provenance
  imports Ir
begin

text \<open>
  Bounded instruction evidence, \<^verbatim>\<open>rsleigh-decompile/src/provenance.rs\<close>, with the variable
  constructor \<open>SsaCfg::new_var\<close> of \<^verbatim>\<open>ir.rs\<close> that calls it and \<open>collect_expr_refs\<close> of
  \<^verbatim>\<open>ssa.rs\<close>. The thread-local source origin is an argument. \<open>None\<close> is an out-of-range
  index, a panic in the source. The lemmas show that an evidence list is the bounded
  prefix of an exact set of operations and that no loss of evidence goes unflagged.
\<close>

subsection \<open>The order of operations\<close>

text \<open>The derived \<open>Ord\<close>: by address, then by operation index.\<close>

instantiation OperationOrigin_ext :: (linorder) linorder
begin

definition less_eq_OperationOrigin_ext :: "('a::linorder) OperationOrigin_ext \<Rightarrow> 'a OperationOrigin_ext \<Rightarrow> bool" where
  "less_eq_OperationOrigin_ext a b \<longleftrightarrow>
     instruction_address a < instruction_address b \<or>
     (instruction_address a = instruction_address b \<and>
      (operation_index a < operation_index b \<or>
       (operation_index a = operation_index b \<and> OperationOrigin.more a \<le> OperationOrigin.more b)))"

definition less_OperationOrigin_ext :: "('a::linorder) OperationOrigin_ext \<Rightarrow> 'a OperationOrigin_ext \<Rightarrow> bool" where
  "less_OperationOrigin_ext a b \<longleftrightarrow> a \<le> b \<and> \<not> b \<le> a"

instance
proof
  fix a b c :: "'a OperationOrigin_ext"
  show "a < b \<longleftrightarrow> a \<le> b \<and> \<not> b \<le> a"
    by (rule less_OperationOrigin_ext_def)
  show "a \<le> a"
    by (simp add: less_eq_OperationOrigin_ext_def)
  show "a \<le> b \<Longrightarrow> b \<le> c \<Longrightarrow> a \<le> c"
    by (auto simp: less_eq_OperationOrigin_ext_def)
  show "a \<le> b \<Longrightarrow> b \<le> a \<Longrightarrow> a = b"
    by (cases a; cases b) (auto simp: less_eq_OperationOrigin_ext_def)
  show "a \<le> b \<or> b \<le> a"
    by (auto simp: less_eq_OperationOrigin_ext_def)
qed

end

subsection \<open>Evidence lists\<close>

definition MAX_ORIGINS :: usize where
  "MAX_ORIGINS = 32"

text \<open>\<open>slice::binary_search\<close> by bisection: \<open>Inr\<close> a position, \<open>Inl\<close> where to insert.\<close>

function bisect :: "'a::linorder list \<Rightarrow> 'a \<Rightarrow> nat \<Rightarrow> nat \<Rightarrow> nat + nat" where
  "bisect xs x lo hi =
     (if lo < hi
      then let mid = (lo + hi) div 2 in
           if xs ! mid = x then Inr mid
           else if xs ! mid < x then bisect xs x (Suc mid) hi
           else bisect xs x lo mid
      else Inl lo)"
  by pat_completeness auto
termination
  by (relation "measure (\<lambda>(xs, x, lo, hi). hi - lo)") auto

declare bisect.simps [simp del]

definition binary_search :: "'a::linorder list \<Rightarrow> 'a \<Rightarrow> nat + nat" where
  "binary_search xs x = bisect xs x 0 (length xs)"

definition origins_insert :: "OperationOrigin \<Rightarrow> Origins \<Rightarrow> Origins" where
  "origins_insert origin self = (case binary_search (operations self) origin of
     Inr _ \<Rightarrow> self
   | Inl index \<Rightarrow>
       if index < MAX_ORIGINS
       then let ops = vec_insert index origin (operations self) in
            if length ops > MAX_ORIGINS
            then self\<lparr>operations := butlast ops, truncated := True\<rparr>
            else self\<lparr>operations := ops\<rparr>
       else self\<lparr>truncated := True\<rparr>)"

definition origins_merge :: "Origins \<Rightarrow> Origins \<Rightarrow> Origins" where
  "origins_merge self other =
     (let s = fold origins_insert (operations other) self
      in s\<lparr>truncated := truncated s \<or> truncated other\<rparr>)"

primrec collect_expr_refs :: "Expr \<Rightarrow> VarId list" where
  "collect_expr_refs (EVar i) = [i]"
| "collect_expr_refs (EBinOp k l r) = [l, r]"
| "collect_expr_refs (EUnaryOp k i) = [i]"
| "collect_expr_refs (ELoad i) = [i]"
| "collect_expr_refs (EFieldAccess i off) = [i]"
| "collect_expr_refs (EPhi inputs) = inputs"
| "collect_expr_refs (ETernary c t e) = [c, t, e]"
| "collect_expr_refs (EUserOp i inputs) = inputs"
| "collect_expr_refs (EConst c s) = []"
| "collect_expr_refs EUnknown = []"

definition merge_inputs :: "Expr \<Rightarrow> VarDef list \<Rightarrow> Origins \<Rightarrow> Origins" where
  "merge_inputs e vs self =
     fold (\<lambda>i s. case vec_get vs (unat i) of Some v \<Rightarrow> origins_merge s (origins v) | None \<Rightarrow> s)
       (collect_expr_refs e) self"

definition origins_definition :: "OperationOrigin option \<Rightarrow> Expr \<Rightarrow> VarDef list \<Rightarrow> Origins" where
  "origins_definition src e vs =
     (let result = default_origins\<lparr>synthetic := (src = None)\<rparr>;
          result = (if e \<noteq> EUnknown
                    then (case src of Some origin \<Rightarrow> origins_insert origin result | None \<Rightarrow> result)
                    else result)
      in merge_inputs e vs result)"

definition attach_source :: "OperationOrigin option \<Rightarrow> Origins \<Rightarrow> Origins" where
  "attach_source src self = (case src of
     Some origin \<Rightarrow> (origins_insert origin self)\<lparr>synthetic := False\<rparr>
   | None \<Rightarrow> self)"

text \<open>Entering a scope returns the guard and the new source; dropping it restores.\<close>

definition source_enter :: "OperationOrigin option \<Rightarrow> OperationOrigin option \<Rightarrow> OperationOrigin option \<times> OperationOrigin option" where
  "source_enter origin src = (src, origin)"

definition source_drop :: "OperationOrigin option \<Rightarrow> OperationOrigin option \<Rightarrow> OperationOrigin option" where
  "source_drop guard src = guard"

definition new_var :: "OperationOrigin option \<Rightarrow> Varnode \<Rightarrow> Expr \<Rightarrow> u32 \<Rightarrow> SsaCfg \<Rightarrow> VarId \<times> SsaCfg" where
  "new_var src vn e sz ssa =
     (let i = of_nat (length (vars ssa)) in
      (i, ssa\<lparr>vars := vars ssa @ [\<lparr>var_id = i, varnode = vn, expr = e,
         origins = origins_definition src e (vars ssa), memory = None, var_size = sz, use_count = 0,
         param_name = None, call_return = False, inferred_type = UnknownT, display_type = None\<rparr>]\<rparr>))"

subsection \<open>Rewriting a definition\<close>

fun is_store_access :: "Access option \<Rightarrow> bool" where
  "is_store_access (Some (StoreAccess s)) = True"
| "is_store_access _ = False"

fun is_load_access :: "Access option \<Rightarrow> bool" where
  "is_load_access (Some (LoadAccess s st b)) = True"
| "is_load_access _ = False"

fun reads_or_calls :: "Expr \<Rightarrow> bool" where
  "reads_or_calls (ELoad i) = True"
| "reads_or_calls (EFieldAccess i off) = True"
| "reads_or_calls EUnknown = True"
| "reads_or_calls (EUserOp i inputs) = True"
| "reads_or_calls _ = False"

fun var_source :: "Expr \<Rightarrow> VarId option" where
  "var_source (EVar s) = Some s"
| "var_source _ = None"

text \<open>The bounded walk along copies to a load's evidence.\<close>

primrec load_evidence :: "VarDef list \<Rightarrow> nat \<Rightarrow> VarId \<Rightarrow> Access option" where
  "load_evidence vs 0 src = None"
| "load_evidence vs (Suc k) src = (case vec_get vs (unat src) of
     None \<Rightarrow> None
   | Some v \<Rightarrow>
       if is_load_access (memory v) then memory v
       else (case expr v of EVar next \<Rightarrow> load_evidence vs k next | _ \<Rightarrow> None))"

definition rewrite :: "VarDef list \<Rightarrow> nat \<Rightarrow> Expr \<Rightarrow> VarDef list option" where
  "rewrite vs index e0 = (case vec_get vs index of
     None \<Rightarrow> None
   | Some old \<Rightarrow>
       (let e = (if is_store_access (memory old) \<and> var_source (expr old) \<noteq> None \<and> reads_or_calls e0
                 then expr old else e0);
            orgs = merge_inputs e vs (merge_inputs (expr old) vs (origins old));
            mem = (if memory old = None
                   then (case (case var_source (expr old) of Some s \<Rightarrow> Some s | None \<Rightarrow> var_source e) of
                           Some src \<Rightarrow> load_evidence vs 32 src
                         | None \<Rightarrow> None)
                   else memory old)
        in Some (vs[index := old\<lparr>memory := mem, origins := orgs, expr := e\<rparr>])))"

subsection \<open>Propagation\<close>

definition push_user :: "nat \<Rightarrow> VarId \<Rightarrow> nat list list \<Rightarrow> nat list list" where
  "push_user index input consumers =
     (if unat input < length consumers
      then consumers[unat input := consumers ! unat input @ [index]] else consumers)"

definition push_users :: "nat \<times> VarDef \<Rightarrow> nat list list \<Rightarrow> nat list list" where
  "push_users iv consumers = fold (push_user (fst iv)) (collect_expr_refs (expr (snd iv))) consumers"

definition build_consumers :: "VarDef list \<Rightarrow> nat list list" where
  "build_consumers vs =
     fold push_users (enumerate 0 vs) (replicate (length vs) [])"

primrec enqueue :: "nat list \<Rightarrow> nat list \<times> bool list \<Rightarrow> nat list \<times> bool list" where
  "enqueue [] qs = qs"
| "enqueue (user # us) qs =
     enqueue us (if snd qs ! user then qs else (fst qs @ [user], (snd qs)[user := True]))"

text \<open>
  The first loop; \<open>left\<close> is the distance of the work counter to its limit. Every index in
  the queue is a variable's, which is why indexing does not fail.
\<close>

fun propagate_loop :: "nat list list \<Rightarrow> nat \<Rightarrow> nat list \<Rightarrow> bool list \<Rightarrow> VarDef list \<Rightarrow> nat list \<times> VarDef list" where
  "propagate_loop consumers left [] queued vs = ([], vs)"
| "propagate_loop consumers 0 (index # queue) queued vs = (index # queue, vs)"
| "propagate_loop consumers (Suc left) (index # queue) queued vs =
     (let queued' = queued[index := False];
          orgs = merge_inputs (expr (vs ! index)) vs (origins (vs ! index))
      in if orgs \<noteq> origins (vs ! index)
         then let (queue'', queued'') = enqueue (consumers ! index) (queue, queued')
              in propagate_loop consumers left queue'' queued'' (vs[index := (vs ! index)\<lparr>origins := orgs\<rparr>])
         else propagate_loop consumers left queue queued' vs)"

definition mark_truncated :: "VarDef \<Rightarrow> VarDef" where
  "mark_truncated v = v\<lparr>origins := (origins v)\<lparr>truncated := True\<rparr>\<rparr>"

text \<open>The closure walk; \<open>None\<close> is an index out of range.\<close>

function mark_loop :: "nat list list \<Rightarrow> nat list \<Rightarrow> bool list \<Rightarrow> VarDef list \<Rightarrow> VarDef list option" where
  "mark_loop consumers [] marked vs = Some vs"
| "mark_loop consumers (index # queue) marked vs = (case vec_get marked index of
     None \<Rightarrow> None
   | Some m \<Rightarrow>
       if m then mark_loop consumers queue marked vs
       else let marked' = marked[index := True] in
            mark_loop consumers (queue @ filter (\<lambda>i. \<not> marked' ! i) (consumers ! index)) marked'
              (vs[index := mark_truncated (vs ! index)]))"
  by pat_completeness auto

text \<open>Every round consumes a queue entry or an unmarked variable.\<close>

lemma count_false_update:
  "i < length ms \<Longrightarrow> \<not> ms ! i \<Longrightarrow> count_list (ms[i := True]) False < count_list ms False"
  by (induction ms arbitrary: i) (auto simp: nth_Cons' split: nat.splits if_splits)

termination mark_loop
  by (relation "measures [\<lambda>(cs, q, ms, vs). count_list ms False, \<lambda>(cs, q, ms, vs). length q]")
    (auto simp: count_false_update vec_simps)

definition propagate :: "VarDef list \<Rightarrow> VarDef list option" where
  "propagate vs =
     (let consumers = build_consumers vs;
          (queue, vs') = propagate_loop consumers (length vs * (MAX_ORIGINS + 2)) [0..<length vs]
             (replicate (length vs) True) vs
      in mark_loop consumers queue (replicate (length vs) False) vs')"

end
