(* ===== verification/ProvenanceProps.thy ===== *)
theory ProvenanceProps
  imports Provenance
begin

text \<open>
  Correctness of the evidence lists: insertion and merging refine union of sets of
  operations, cut at the bound and flagged when cut; propagation reaches the exact
  evidence of a variable's transitive inputs wherever it reports no truncation.
\<close>

subsection \<open>Insertion\<close>

lemma bisect_spec:
  assumes "sorted_wrt (<) xs" "lo \<le> hi" "hi \<le> length xs"
    "\<forall>j < lo. xs ! j < x" "\<forall>j. hi \<le> j \<and> j < length xs \<longrightarrow> x < xs ! j"
  shows "case bisect xs x lo hi of
      Inr i \<Rightarrow> i < length xs \<and> xs ! i = x
    | Inl i \<Rightarrow> i \<le> length xs \<and> (\<forall>j < i. xs ! j < x) \<and> (\<forall>j. i \<le> j \<and> j < length xs \<longrightarrow> x < xs ! j)"
  using assms
proof (induction xs x lo hi rule: bisect.induct)
  case (1 xs x lo hi)
  show ?case
  proof (cases "lo < hi")
    case True
    let ?mid = "(lo + hi) div 2"
    have mid: "lo \<le> ?mid" "?mid < hi" using True by auto
    consider (eq) "xs ! ?mid = x" | (lt) "xs ! ?mid < x" | (gt) "x < xs ! ?mid" by fastforce
    then show ?thesis
    proof cases
      case eq
      then show ?thesis using True mid "1.prems"(3) by (subst bisect.simps) simp
    next
      case lt
      then have "\<forall>j < Suc ?mid. xs ! j < x"
        using mid "1.prems"(1,3)
        by (metis less_antisym less_trans order_less_le_trans sorted_wrt_nth_less)
      moreover have "xs ! ?mid \<noteq> x" using lt by auto
      ultimately show ?thesis
        using "1.IH"(1)[OF True refl _ lt] lt mid "1.prems" True by (subst bisect.simps) (simp add: Let_def)
    next
      case gt
      then have "\<forall>j. ?mid \<le> j \<and> j < length xs \<longrightarrow> x < xs ! j"
        using mid "1.prems"(1) by (metis le_neq_implies_less less_trans sorted_wrt_nth_less)
      moreover have "xs ! ?mid \<noteq> x" "\<not> xs ! ?mid < x" using gt by auto
      ultimately show ?thesis
        using "1.IH"(2)[OF True refl] mid "1.prems" True by (subst bisect.simps) (simp add: Let_def)
    qed
  next
    case False
    with "1.prems" show ?thesis by (subst bisect.simps) (simp add: le_antisym)
  qed
qed

lemma binary_search_spec:
  assumes "sorted_wrt (<) xs"
  shows "case binary_search xs x of
      Inr i \<Rightarrow> i < length xs \<and> xs ! i = x
    | Inl i \<Rightarrow> i \<le> length xs \<and> (\<forall>j < i. xs ! j < x) \<and> (\<forall>j. i \<le> j \<and> j < length xs \<longrightarrow> x < xs ! j)"
  unfolding binary_search_def by (rule bisect_spec) (use assms in auto)

lemma vec_insert_insort:
  assumes "sorted_wrt (<) xs" "i \<le> length xs" "\<forall>j < i. xs ! j < x" "\<forall>j. i \<le> j \<and> j < length xs \<longrightarrow> x < xs ! j"
  shows "vec_insert i x xs = insort x xs" "x \<notin> set xs"
proof -
  have lt: "y < x" if "y \<in> set (take i xs)" for y
    using that assms(2,3) by (auto simp: in_set_conv_nth)
  have gt: "x < y" if "y \<in> set (drop i xs)" for y
    using that assms(2,4) by (auto simp: in_set_conv_nth)
  have split: "xs = take i xs @ drop i xs" by simp
  have "set xs = set (take i xs) \<union> set (drop i xs)" by (metis append_take_drop_id set_append)
  then show x: "x \<notin> set xs" using lt gt by blast
  have "sorted_wrt (<) (take i xs @ drop i xs)" using assms(1) by simp
  then have "sorted_wrt (<) (vec_insert i x xs)"
    unfolding vec_insert_def using lt gt by (auto simp: sorted_wrt_append simp del: append_take_drop_id)
  moreover have "set (vec_insert i x xs) = set (insort x xs)"
    by (simp add: set_vec_insert set_insort_key)
  ultimately show "vec_insert i x xs = insort x xs"
    using assms(1) x
    by (intro sorted_distinct_set_unique) (auto simp: strict_sorted_iff sorted_insort distinct_insort)
qed

definition wf_origins :: "Origins \<Rightarrow> bool" where
  "wf_origins s \<longleftrightarrow> sorted_wrt (<) (operations s) \<and> length (operations s) \<le> MAX_ORIGINS"

lemma insort_last: "\<forall>y\<in>set xs. y < x \<Longrightarrow> insort x xs = xs @ [x]"
  by (induction xs) auto

lemma origins_insert_spec:
  assumes "wf_origins s"
  shows "operations (origins_insert x s) =
      (if x \<in> set (operations s) then operations s else take MAX_ORIGINS (insort x (operations s)))"
    "truncated (origins_insert x s) \<longleftrightarrow>
      truncated s \<or> (x \<notin> set (operations s) \<and> length (operations s) = MAX_ORIGINS)"
    "synthetic (origins_insert x s) = synthetic s"
proof -
  let ?ops = "operations s"
  have ops: "sorted_wrt (<) ?ops" "length ?ops \<le> MAX_ORIGINS"
    using assms by (simp_all add: wf_origins_def)
  note spec = binary_search_spec[OF ops(1), of x]
  have "operations (origins_insert x s) =
      (if x \<in> set ?ops then ?ops else take MAX_ORIGINS (insort x ?ops)) \<and>
    (truncated (origins_insert x s) \<longleftrightarrow> truncated s \<or> (x \<notin> set ?ops \<and> length ?ops = MAX_ORIGINS)) \<and>
    synthetic (origins_insert x s) = synthetic s"
  proof (cases "binary_search ?ops x")
    case (Inr i)
    with spec have "x \<in> set ?ops" by (auto simp: in_set_conv_nth)
    with Inr show ?thesis by (simp add: origins_insert_def)
  next
    case (Inl i)
    with spec have i: "i \<le> length ?ops" "\<forall>j < i. ?ops ! j < x" "\<forall>j. i \<le> j \<and> j < length ?ops \<longrightarrow> x < ?ops ! j"
      by simp_all
    note ins = vec_insert_insort[OF ops(1) i]
    show ?thesis
    proof (cases "i < MAX_ORIGINS")
      case True
      have len: "length (insort x ?ops) = Suc (length ?ops)" by simp
      then have "butlast (insort x ?ops) = take (length ?ops) (insort x ?ops)"
        by (simp add: butlast_conv_take)
      then show ?thesis
        using True Inl ins ops(2)
        by (cases "length ?ops = MAX_ORIGINS") (auto simp: origins_insert_def Let_def)
    next
      case False
      then have "i = length ?ops" "length ?ops = MAX_ORIGINS" using i(1) ops(2) by auto
      moreover have "\<forall>y\<in>set ?ops. y < x" using i(2) \<open>i = length ?ops\<close> by (auto simp: in_set_conv_nth)
      ultimately show ?thesis
        using Inl ins(2) by (auto simp: origins_insert_def insort_last)
    qed
  qed
  then show "operations (origins_insert x s) =
      (if x \<in> set ?ops then ?ops else take MAX_ORIGINS (insort x ?ops))"
    "truncated (origins_insert x s) \<longleftrightarrow> truncated s \<or> (x \<notin> set ?ops \<and> length ?ops = MAX_ORIGINS)"
    "synthetic (origins_insert x s) = synthetic s"
    by simp_all
qed

lemma sorted_wrt_take: "sorted_wrt P xs \<Longrightarrow> sorted_wrt P (take n xs)"
  by (metis append_take_drop_id sorted_wrt_append)

lemma strict_sorted_insort:
  "sorted_wrt (<) xs \<Longrightarrow> x \<notin> set xs \<Longrightarrow> sorted_wrt (<) (insort x (xs :: 'a::linorder list))"
  by (auto simp: strict_sorted_iff sorted_insort distinct_insort)

lemma wf_origins_insert: "wf_origins s \<Longrightarrow> wf_origins (origins_insert x s)"
  unfolding wf_origins_def[of "origins_insert x s"]
  by (auto simp: origins_insert_spec strict_sorted_insort sorted_wrt_take wf_origins_def)

text \<open>The evidence list that a set of operations denotes.\<close>

definition represents :: "Origins \<Rightarrow> OperationOrigin set \<Rightarrow> bool" where
  "represents s E \<longleftrightarrow> finite E \<and> operations s = take MAX_ORIGINS (sorted_list_of_set E) \<and>
     (truncated s \<longleftrightarrow> card E > MAX_ORIGINS)"

lemma represents_wf: "represents s E \<Longrightarrow> wf_origins s"
  by (auto simp: represents_def wf_origins_def intro!: sorted_wrt_take)

lemma take_insort_take: "take n (insort x (take n xs)) = take n (insort x (xs :: 'a::linorder list))"
proof (induction xs arbitrary: n)
  case (Cons y ys)
  show ?case using Cons[of "n - 1"] by (cases n) (auto simp: take_Cons')
qed simp

lemma in_drop_take_insort:
  assumes "sorted_wrt (<) xs" "x \<in> set xs" "x \<notin> set (take n xs)"
  shows "n < length xs" "take n (insort x (take n xs)) = take n (xs :: 'a::linorder list)"
proof -
  show n: "n < length xs" using assms(2,3) by (metis linorder_not_less take_all)
  have "x \<in> set (drop n xs)" using assms(2,3) by (metis UnE append_take_drop_id set_append)
  moreover have "sorted_wrt (<) (take n xs @ drop n xs)" using assms(1) by simp
  ultimately have "\<forall>y\<in>set (take n xs). y < x" unfolding sorted_wrt_append by blast
  then show "take n (insort x (take n xs)) = take n xs" using n by (simp add: insort_last)
qed

lemma represents_insert:
  assumes "represents s E"
  shows "represents (origins_insert x s) (insert x E)"
proof -
  note r = assms[unfolded represents_def]
  let ?L = "sorted_list_of_set E"
  have len: "length ?L = card E" by simp
  have sort: "sorted_wrt (<) ?L" and set: "set ?L = E" using r by simp_all
  show ?thesis
  proof (cases "x \<in> E")
    case True
    have "\<not> x \<in> set (take MAX_ORIGINS ?L) \<Longrightarrow> MAX_ORIGINS < card E"
      using in_drop_take_insort(1)[OF sort, of x MAX_ORIGINS] True set len by simp
    with True r in_drop_take_insort(2)[OF sort, of x MAX_ORIGINS] set show ?thesis
      by (auto simp: represents_def origins_insert_spec[OF represents_wf[OF assms]] insert_absorb)
  next
    case False
    have "x \<notin> set (take MAX_ORIGINS ?L)" using False in_set_takeD[of x MAX_ORIGINS ?L] unfolding set by blast
    moreover have "sorted_list_of_set (insert x E) = insort x ?L"
      using False r by simp
    moreover have "card (insert x E) = Suc (card E)" using False r by simp
    ultimately show ?thesis
      using r len by (auto simp: represents_def origins_insert_spec[OF represents_wf[OF assms]] take_insort_take)
  qed
qed

lemma represents_fold_insert:
  "represents s E \<Longrightarrow> represents (fold origins_insert xs s) (set xs \<union> E)"
proof (induction xs arbitrary: s E)
  case (Cons x xs)
  from Cons.IH[OF represents_insert[OF Cons.prems, of x]] show ?case by simp
qed simp

lemma card_below_nth:
  assumes "sorted_wrt (<) (L :: 'a::linorder list)" "k < length L"
  shows "card {y \<in> set L. y < L ! k} = k"
proof -
  obtain xs ys where L: "L = xs @ L ! k # ys" "length xs = k"
    using split_at[OF assms(2)] assms(2) by (metis length_take min.absorb4)
  have s: "sorted_wrt (<) (xs @ L ! k # ys)" using assms(1) L(1) by simp
  have "{y \<in> set (xs @ L ! k # ys). y < L ! k} = set xs"
    using s by (auto simp: sorted_wrt_append dest: less_asym)
  moreover have "distinct xs" using s by (auto simp: sorted_wrt_append strict_sorted_iff)
  ultimately show ?thesis using L distinct_card by metis
qed

lemma set_take_sorted:
  assumes "finite (S :: 'a::linorder set)"
  shows "set (take n (sorted_list_of_set S)) = {x \<in> S. card {y \<in> S. y < x} < n}"
proof -
  define L where "L = sorted_list_of_set S"
  have sort: "sorted_wrt (<) L" and set: "S = set L" using assms by (simp_all add: L_def)
  have "x \<in> set (take n L) \<longleftrightarrow> x \<in> set L \<and> card {y \<in> set L. y < x} < n" for x
  proof
    assume "x \<in> set (take n L)"
    then show "x \<in> set L \<and> card {y \<in> set L. y < x} < n"
      using card_below_nth[OF sort] by (auto simp: in_set_conv_nth)
  next
    assume x: "x \<in> set L \<and> card {y \<in> set L. y < x} < n"
    then obtain k where k: "k < length L" "x = L ! k" by (auto simp: in_set_conv_nth)
    with card_below_nth[OF sort k(1)] x show "x \<in> set (take n L)" by (auto simp: in_set_conv_nth)
  qed
  then have "set (take n L) = {x \<in> S. card {y \<in> S. y < x} < n}" unfolding set by blast
  then show ?thesis by (simp only: L_def)
qed

text \<open>Only the first \<open>n\<close> elements of each side reach the first \<open>n\<close> of a union.\<close>

lemma take_sorted_union:
  assumes "finite A" "finite (B :: 'a::linorder set)"
  shows "take n (sorted_list_of_set (A \<union> set (take n (sorted_list_of_set B)))) =
    take n (sorted_list_of_set (A \<union> B))"
proof -
  define P where "P = {x \<in> B. card {y \<in> B. y < x} < n}"
  have fin: "finite (A \<union> P)" "finite (A \<union> B)" and sub: "P \<subseteq> B" using assms by (auto simp: P_def)
  have le: "card {y \<in> A \<union> P. y < x} \<le> card {y \<in> A \<union> B. y < x}" "card {y \<in> B. y < x} \<le> card {y \<in> A \<union> B. y < x}" for x
    using assms sub by (auto intro!: card_mono)
  have "card {y \<in> A \<union> B. y < x} < n" if x: "card {y \<in> A \<union> P. y < x} < n" for x
  proof (cases "\<exists>y \<in> B - P. y < x")
    case True
    define y where "y = Min (B - P)"
    have f: "finite (B - P)" "B - P \<noteq> {}" using True assms(2) by auto
    have y: "y \<in> B - P" "y < x" "\<forall>z \<in> B - P. y \<le> z"
      using True Min_in[OF f] Min_le[OF f(1)] unfolding y_def by (auto intro: order.strict_trans1)
    then have "n \<le> card {z \<in> B. z < y}" by (simp add: P_def not_less)
    also have "\<dots> \<le> card {z \<in> A \<union> P. z < x}"
      using y fin by (intro card_mono) (auto simp: not_le[symmetric])
    finally show ?thesis using x by simp
  next
    case False
    then have "{y \<in> A \<union> B. y < x} = {y \<in> A \<union> P. y < x}" using sub by auto
    with x show ?thesis by simp
  qed
  then have "{x \<in> A \<union> P. card {y \<in> A \<union> P. y < x} < n} = {x \<in> A \<union> B. card {y \<in> A \<union> B. y < x} < n}"
    using le sub by (auto simp: P_def intro: order.strict_trans1)
  then have "set (take n (sorted_list_of_set (A \<union> P))) = set (take n (sorted_list_of_set (A \<union> B)))"
    by (simp only: set_take_sorted[OF fin(1)] set_take_sorted[OF fin(2)])
  then have "take n (sorted_list_of_set (A \<union> P)) = take n (sorted_list_of_set (A \<union> B))"
    by (intro sorted_distinct_set_unique) (use fin in \<open>simp_all add: sorted_wrt_take\<close>)
  then show ?thesis by (simp only: set_take_sorted[OF assms(2)] P_def)
qed

lemma represents_merge:
  assumes "represents a A" "represents b B"
  shows "represents (origins_merge a b) (A \<union> B)"
proof -
  let ?F = "fold origins_insert (operations b) a"
  note b = assms(2)[unfolded represents_def]
  have F: "represents ?F (set (operations b) \<union> A)"
    by (rule represents_fold_insert[OF assms(1)])
  show ?thesis
  proof (cases "truncated b")
    case False
    then have "card B \<le> MAX_ORIGINS" using b by simp
    then have "set (operations b) = B" using b by (simp add: take_all)
    with F False show ?thesis by (simp add: origins_merge_def represents_def Un_commute)
  next
    case True
    then have "MAX_ORIGINS < card (A \<union> B)"
      using b assms(1) by (metis card_mono finite_UnI le_trans linorder_not_less order.strict_trans2 represents_def sup_ge2)
    moreover have "operations ?F = take MAX_ORIGINS (sorted_list_of_set (A \<union> B))"
      using F b by (simp add: represents_def take_sorted_union Un_commute)
    ultimately show ?thesis
      using True F b by (simp add: origins_merge_def represents_def)
  qed
qed

subsection \<open>Nothing is lost unflagged\<close>

text \<open>Every operation of \<open>a\<close> is in \<open>b\<close>, and so is the knowledge that there are no more.\<close>

definition evidence_le :: "Origins \<Rightarrow> Origins \<Rightarrow> bool" where
  "evidence_le a b \<longleftrightarrow> truncated b \<or> (\<not> truncated a \<and> set (operations a) \<subseteq> set (operations b))"

lemma evidence_le_refl [simp]: "evidence_le a a"
  by (simp add: evidence_le_def)

lemma evidence_le_trans [trans]: "evidence_le a b \<Longrightarrow> evidence_le b c \<Longrightarrow> evidence_le a c"
  by (auto simp: evidence_le_def)

lemma origins_insert_ops:
  assumes "wf_origins s"
  shows "evidence_le s (origins_insert x s)"
    "truncated (origins_insert x s) \<or> x \<in> set (operations (origins_insert x s))"
    "set (operations (origins_insert x s)) \<subseteq> insert x (set (operations s))"
proof -
  have "take MAX_ORIGINS (insort x (operations s)) = insort x (operations s)"
    if "length (operations s) \<noteq> MAX_ORIGINS"
    using that assms by (intro take_all) (simp add: wf_origins_def)
  then show "evidence_le s (origins_insert x s)"
    "truncated (origins_insert x s) \<or> x \<in> set (operations (origins_insert x s))"
    by (cases "length (operations s) = MAX_ORIGINS";
      auto simp: evidence_le_def origins_insert_spec[OF assms] set_insort_key)+
  show "set (operations (origins_insert x s)) \<subseteq> insert x (set (operations s))"
    using set_take_subset[of MAX_ORIGINS "insort x (operations s)"]
    by (auto simp: origins_insert_spec[OF assms] set_insort_key)
qed

lemma fold_insert_ops:
  "wf_origins s \<Longrightarrow> wf_origins (fold origins_insert xs s) \<and> evidence_le s (fold origins_insert xs s) \<and>
     (truncated (fold origins_insert xs s) \<or> set xs \<subseteq> set (operations (fold origins_insert xs s))) \<and>
     set (operations (fold origins_insert xs s)) \<subseteq> set xs \<union> set (operations s)"
proof (induction xs arbitrary: s)
  case (Cons x xs)
  let ?s = "origins_insert x s"
  note i = origins_insert_ops[OF Cons.prems, of x]
  note ih = Cons.IH[OF wf_origins_insert[OF Cons.prems, of x]]
  show ?case
    using i ih evidence_le_trans[of s ?s "fold origins_insert xs ?s"] by (auto simp: evidence_le_def)
qed simp

lemma origins_merge_ops:
  assumes "wf_origins a"
  shows "wf_origins (origins_merge a b)" "evidence_le a (origins_merge a b)" "evidence_le b (origins_merge a b)"
    "set (operations (origins_merge a b)) \<subseteq> set (operations a) \<union> set (operations b)"
  using fold_insert_ops[OF assms, of "operations b"]
  by (auto simp: origins_merge_def Let_def evidence_le_def wf_origins_def)

definition input_positions :: "VarDef list \<Rightarrow> Expr \<Rightarrow> nat set" where
  "input_positions vs e = {j. j < length vs \<and> j \<in> unat ` set (collect_expr_refs e)}"

lemma merge_list_ops:
  fixes vs :: "VarDef list"
  defines "step \<equiv> \<lambda>i s. case vec_get vs (unat i) of Some v \<Rightarrow> origins_merge s (origins v) | None \<Rightarrow> s"
  assumes "wf_origins s"
  shows "wf_origins (fold step ids s) \<and> evidence_le s (fold step ids s) \<and>
    (\<forall>i \<in> set ids. unat i < length vs \<longrightarrow> evidence_le (origins (vs ! unat i)) (fold step ids s)) \<and>
    set (operations (fold step ids s)) \<subseteq> set (operations s) \<union>
      (\<Union>i \<in> {i \<in> set ids. unat i < length vs}. set (operations (origins (vs ! unat i))))"
  using assms(2)
proof (induction ids arbitrary: s)
  case (Cons i ids)
  show ?case
  proof (cases "unat i < length vs")
    case True
    then have st: "step i s = origins_merge s (origins (vs ! unat i))" by (simp add: step_def vec_get_def)
    note m = origins_merge_ops[OF Cons.prems, of "origins (vs ! unat i)", folded st]
    note ih = Cons.IH[OF m(1)]
    have "evidence_le s (fold step ids (step i s))" "evidence_le (origins (vs ! unat i)) (fold step ids (step i s))"
      using evidence_le_trans[OF m(2)] evidence_le_trans[OF m(3)] ih by blast+
    with ih m(4) True show ?thesis by (simp add: subset_iff) blast
  next
    case False
    then have "step i s = s" by (simp add: step_def vec_get_def)
    with Cons.IH[OF Cons.prems] False show ?thesis by auto
  qed
qed simp

lemma merge_inputs_ops:
  assumes "wf_origins s"
  shows "wf_origins (merge_inputs e vs s)" "evidence_le s (merge_inputs e vs s)"
    "j \<in> input_positions vs e \<Longrightarrow> evidence_le (origins (vs ! j)) (merge_inputs e vs s)"
    "set (operations (merge_inputs e vs s)) \<subseteq> set (operations s) \<union>
      (\<Union>j \<in> input_positions vs e. set (operations (origins (vs ! j))))"
proof -
  note m = merge_list_ops[OF assms, of vs "collect_expr_refs e", folded merge_inputs_def]
  show "wf_origins (merge_inputs e vs s)" "evidence_le s (merge_inputs e vs s)" using m by blast+
  show "j \<in> input_positions vs e \<Longrightarrow> evidence_le (origins (vs ! j)) (merge_inputs e vs s)"
    using m by (auto simp: input_positions_def)
  have "(\<Union>i \<in> {i \<in> set (collect_expr_refs e). unat i < length vs}. set (operations (origins (vs ! unat i)))) \<subseteq>
      (\<Union>j \<in> input_positions vs e. set (operations (origins (vs ! j))))"
    by (auto simp: input_positions_def)
  with m show "set (operations (merge_inputs e vs s)) \<subseteq> set (operations s) \<union>
      (\<Union>j \<in> input_positions vs e. set (operations (origins (vs ! j))))" by blast
qed

subsection \<open>Propagation\<close>

abbreviation inputs_of :: "VarDef list \<Rightarrow> nat \<Rightarrow> nat set" where
  "inputs_of vs i \<equiv> input_positions vs (expr (vs ! i))"

text \<open>The variables a definition depends on, itself included, and their operations.\<close>

definition depends :: "VarDef list \<Rightarrow> (nat \<times> nat) set" where
  "depends vs = {(j, i). i < length vs \<and> j \<in> inputs_of vs i}"

definition evidence :: "VarDef list \<Rightarrow> nat \<Rightarrow> OperationOrigin set" where
  "evidence vs i = (\<Union>j \<in> {j. (j, i) \<in> (depends vs)\<^sup>*}. set (operations (origins (vs ! j))))"

lemma evidence_self: "set (operations (origins (vs ! i))) \<subseteq> evidence vs i"
  by (auto simp: evidence_def)

lemma evidence_input: "i < length vs \<Longrightarrow> j \<in> inputs_of vs i \<Longrightarrow> evidence vs j \<subseteq> evidence vs i"
  unfolding evidence_def by (auto simp: depends_def intro: rtrancl_into_rtrancl)

text \<open>What every state of the two loops keeps: only origins change, and only to evidence.\<close>

definition evolves :: "VarDef list \<Rightarrow> VarDef list \<Rightarrow> bool" where
  "evolves vs0 vs \<longleftrightarrow> length vs = length vs0 \<and>
     (\<forall>i < length vs0. vs ! i = (vs0 ! i)\<lparr>origins := origins (vs ! i)\<rparr> \<and> wf_origins (origins (vs ! i)) \<and>
        evidence_le (origins (vs0 ! i)) (origins (vs ! i)) \<and> set (operations (origins (vs ! i))) \<subseteq> evidence vs0 i)"

definition settled :: "VarDef list \<Rightarrow> VarDef list \<Rightarrow> nat \<Rightarrow> bool" where
  "settled vs0 vs i \<longleftrightarrow> (\<forall>j \<in> inputs_of vs0 i. evidence_le (origins (vs ! j)) (origins (vs ! i)))"

lemma evolves_expr:
  assumes "evolves vs0 vs" "i < length vs0"
  shows "expr (vs ! i) = expr (vs0 ! i)"
proof -
  have "vs ! i = (vs0 ! i)\<lparr>origins := origins (vs ! i)\<rparr>" using assms by (simp add: evolves_def)
  then show ?thesis by (metis VarDef.ext_inject VarDef.surjective VarDef.update_convs(4))
qed

lemma same_rest: "v = w\<lparr>origins := origins v\<rparr> \<Longrightarrow> (v :: VarDef)\<lparr>origins := orgs\<rparr> = w\<lparr>origins := orgs\<rparr>"
  by (drule arg_cong[of _ _ "\<lambda>v. v\<lparr>origins := orgs\<rparr>"]) simp

lemma evolves_inputs: "evolves vs0 vs \<Longrightarrow> i < length vs0 \<Longrightarrow> inputs_of vs i = inputs_of vs0 i"
  using evolves_expr[of vs0 vs i] by (simp add: input_positions_def evolves_def)

lemma evolves_start:
  "\<forall>v \<in> set vs. wf_origins (origins v) \<Longrightarrow> evolves vs vs"
  using evidence_self by (auto simp: evolves_def)

lemma evolves_update:
  assumes "evolves vs0 vs" "i < length vs0" "wf_origins orgs" "evidence_le (origins (vs ! i)) orgs"
    "set (operations orgs) \<subseteq> evidence vs0 i"
  shows "evolves vs0 (vs[i := (vs ! i)\<lparr>origins := orgs\<rparr>])"
proof -
  have v: "vs ! i = (vs0 ! i)\<lparr>origins := origins (vs ! i)\<rparr>" "evidence_le (origins (vs0 ! i)) (origins (vs ! i))"
    using assms(1,2) by (simp_all add: evolves_def)
  have "(vs ! i)\<lparr>origins := orgs\<rparr> = (vs0 ! i)\<lparr>origins := orgs\<rparr>" "evidence_le (origins (vs0 ! i)) orgs"
    using same_rest[OF v(1)] evidence_le_trans[OF v(2) assms(4)] by simp_all
  with assms show ?thesis
    by (auto simp: evolves_def nth_list_update)
qed

lemma length_push_users [simp]: "length (fold (push_user i) ids cs) = length cs"
  by (induction ids arbitrary: cs) (auto simp: push_user_def)

lemma set_push_users:
  "j < length cs \<Longrightarrow> set (fold (push_user i) ids cs ! j) = set (cs ! j) \<union> {k. k = i \<and> j \<in> unat ` set ids}"
proof (induction ids arbitrary: cs)
  case (Cons x ids)
  from Cons.IH[of "push_user i x cs"] Cons.prems show ?case
    by (auto simp: push_user_def nth_list_update)
qed simp

lemma length_fold_push_users [simp]: "length (fold push_users ivs cs) = length cs"
  by (induction ivs arbitrary: cs) (auto simp: push_users_def)

lemma set_fold_push_users:
  "j < length cs \<Longrightarrow> set (fold push_users (enumerate k vs) cs ! j) =
     set (cs ! j) \<union> {i. k \<le> i \<and> i < k + length vs \<and> j \<in> unat ` set (collect_expr_refs (expr (vs ! (i - k))))}"
proof (induction vs arbitrary: k cs)
  case (Cons v vs)
  have "{i. k \<le> i \<and> i < k + length (v # vs) \<and> j \<in> unat ` set (collect_expr_refs (expr ((v # vs) ! (i - k))))} =
    {i. i = k \<and> j \<in> unat ` set (collect_expr_refs (expr v))} \<union>
    {i. Suc k \<le> i \<and> i < Suc k + length vs \<and> j \<in> unat ` set (collect_expr_refs (expr (vs ! (i - Suc k))))}"
    by (auto simp: nth_Cons' le_Suc_eq le_less Suc_diff_Suc)
  with Cons.prems Cons.IH[of "push_users (k, v) cs" "Suc k"] show ?case
    by (simp add: push_users_def set_push_users Un_assoc)
qed auto

lemma build_consumers_spec:
  "length (build_consumers vs) = length vs"
  "j < length vs \<Longrightarrow> set (build_consumers vs ! j) = {i. i < length vs \<and> j \<in> inputs_of vs i}"
  by (auto simp: build_consumers_def set_fold_push_users input_positions_def)

definition queue_ok :: "nat \<Rightarrow> nat list \<times> bool list \<Rightarrow> bool" where
  "queue_ok n q \<longleftrightarrow> length (snd q) = n \<and> distinct (fst q) \<and> set (fst q) \<subseteq> {..<n} \<and>
     (\<forall>i < n. snd q ! i \<longleftrightarrow> i \<in> set (fst q))"

lemma enqueue_ok:
  "queue_ok n q \<Longrightarrow> set us \<subseteq> {..<n} \<Longrightarrow>
     queue_ok n (enqueue us q) \<and> set (fst (enqueue us q)) = set (fst q) \<union> set us"
proof (induction us arbitrary: q)
  case (Cons u us)
  let ?q = "if snd q ! u then q else (fst q @ [u], (snd q)[u := True])"
  have "queue_ok n ?q" "set (fst ?q) = insert u (set (fst q))"
    using Cons.prems by (auto simp: queue_ok_def nth_list_update)
  with Cons.IH[of ?q] Cons.prems show ?case by simp
qed simp

lemma queue_ok_pop:
  "queue_ok n (i # queue, queued) \<Longrightarrow> queue_ok n (queue, queued[i := False]) \<and> i < n \<and> i \<notin> set queue"
  by (auto simp: queue_ok_def nth_list_update)

lemma merged_inputs:
  assumes "evolves vs0 vs" "i < length vs0"
  defines "orgs \<equiv> merge_inputs (expr (vs ! i)) vs (origins (vs ! i))"
  shows "wf_origins orgs" "evidence_le (origins (vs ! i)) orgs" "set (operations orgs) \<subseteq> evidence vs0 i"
    "\<forall>j \<in> inputs_of vs0 i. evidence_le (origins (vs ! j)) orgs"
proof -
  have wf: "wf_origins (origins (vs ! i))" using assms by (simp add: evolves_def)
  note m = merge_inputs_ops[OF wf, where e = "expr (vs ! i)" and vs = vs, folded orgs_def]
  have ev: "set (operations (origins (vs ! j))) \<subseteq> evidence vs0 j" if "j < length vs0" for j
    using assms(1) that by (simp add: evolves_def)
  have sub: "set (operations (origins (vs ! j))) \<subseteq> evidence vs0 i" if "j \<in> inputs_of vs0 i" for j
    using ev[of j] evidence_input[OF assms(2) that] that by (auto simp: input_positions_def)
  show "wf_origins orgs" "evidence_le (origins (vs ! i)) orgs" using m(1,2) .
  show "\<forall>j \<in> inputs_of vs0 i. evidence_le (origins (vs ! j)) orgs"
    using m(3) evolves_inputs[OF assms(1,2)] by blast
  have "set (operations orgs) \<subseteq> set (operations (origins (vs ! i))) \<union> (\<Union>j \<in> inputs_of vs0 i. set (operations (origins (vs ! j))))"
    using m(4) unfolding evolves_inputs[OF assms(1,2)] .
  with ev[OF assms(2)] sub show "set (operations orgs) \<subseteq> evidence vs0 i" by blast
qed

lemma settled_update:
  assumes "evolves vs0 vs" "i < length vs0" "settled vs0 vs k" "k \<noteq> i" "i \<notin> inputs_of vs0 k"
  shows "settled vs0 (vs[i := v]) k"
  using assms by (auto simp: settled_def evolves_def) (metis nth_list_update_neq)

lemma propagate_loop_spec:
  assumes "evolves vs0 vs" "queue_ok (length vs0) (queue, queued)"
    "\<forall>i < length vs0. i \<notin> set queue \<longrightarrow> settled vs0 vs i" "consumers = build_consumers vs0"
    "propagate_loop consumers left queue queued vs = (queue', vs')"
  shows "evolves vs0 vs' \<and> set queue' \<subseteq> {..<length vs0} \<and> (\<forall>i < length vs0. i \<notin> set queue' \<longrightarrow> settled vs0 vs' i)"
  using assms
proof (induction consumers left queue queued vs rule: propagate_loop.induct)
  case (3 consumers left index queue queued vs)
  let ?orgs = "merge_inputs (expr (vs ! index)) vs (origins (vs ! index))"
  let ?q = "queued[index := False]"
  note pop = queue_ok_pop[OF "3.prems"(2)]
  note m = merged_inputs[OF "3.prems"(1), of index]
  show ?case
  proof (cases "?orgs = origins (vs ! index)")
    case True
    have "settled vs0 vs index" using m(4) pop True by (simp add: settled_def)
    with "3.prems"(3) have "\<forall>i < length vs0. i \<notin> set queue \<longrightarrow> settled vs0 vs i" by auto
    with "3.IH"(2)[OF refl refl] "3.prems" pop True show ?thesis by (simp add: Let_def)
  next
    case False
    let ?vs = "vs[index := (vs ! index)\<lparr>origins := ?orgs\<rparr>]"
    obtain queue'' queued'' where enq: "enqueue (consumers ! index) (queue, ?q) = (queue'', queued'')"
      by (cases "enqueue (consumers ! index) (queue, ?q)")
    have cons: "set (consumers ! index) = {i. i < length vs0 \<and> index \<in> inputs_of vs0 i}"
      using build_consumers_spec(2)[of index vs0] pop "3.prems"(4) by simp
    with enqueue_ok[of "length vs0" "(queue, ?q)" "consumers ! index"] pop enq
    have q: "queue_ok (length vs0) (queue'', queued'')"
      "set queue'' = set queue \<union> {i. i < length vs0 \<and> index \<in> inputs_of vs0 i}" by auto
    have ev: "evolves vs0 ?vs" using evolves_update[OF "3.prems"(1)] m pop by simp
    have len: "index < length vs" using pop "3.prems"(1) by (simp add: evolves_def)
    have "settled vs0 ?vs i" if "i < length vs0" "i \<notin> set queue''" for i
    proof (cases "i = index")
      case True
      with m(4) pop len show ?thesis by (auto simp: settled_def nth_list_update)
    next
      case False
      with that q(2) "3.prems"(3) pop show ?thesis
        by (intro settled_update[OF "3.prems"(1)]) auto
    qed
    moreover have "propagate_loop consumers left queue'' queued'' ?vs = (queue', vs')"
      using "3.prems"(5) False enq by (simp add: Let_def)
    ultimately show ?thesis
      using "3.IH"(1)[OF refl refl False enq[symmetric] refl ev q(1)] "3.prems"(4) by blast
  qed
qed (auto simp: queue_ok_def)

lemma mark_loop_spec:
  assumes "length marked = n" "length vs = n" "set queue \<subseteq> {..<n}" "\<forall>i < n. set (consumers ! i) \<subseteq> {..<n}"
    "\<forall>i < n. vs ! i = (if marked ! i then mark_truncated (vs1 ! i) else vs1 ! i)"
    "\<forall>i < n. marked ! i \<longrightarrow> set (consumers ! i) \<subseteq> set queue \<union> {k. marked ! k}"
  shows "\<exists>vs' M. mark_loop consumers queue marked vs = Some vs' \<and> length vs' = n \<and>
    (\<forall>i < n. vs' ! i = (if i \<in> M then mark_truncated (vs1 ! i) else vs1 ! i)) \<and>
    set queue \<subseteq> M \<and> (\<forall>i < n. marked ! i \<longrightarrow> i \<in> M) \<and> (\<forall>i \<in> M. i < n \<and> set (consumers ! i) \<subseteq> M)"
  using assms
proof (induction consumers queue marked vs rule: mark_loop.induct)
  case (1 consumers marked vs)
  let ?M = "{i. i < n \<and> marked ! i}"
  have "\<forall>i \<in> ?M. i < n \<and> set (consumers ! i) \<subseteq> ?M" using "1.prems"(4,6) by fastforce
  moreover have "\<forall>i < n. vs ! i = (if i \<in> ?M then mark_truncated (vs1 ! i) else vs1 ! i)"
    using "1.prems"(5) by simp
  moreover have "mark_loop consumers [] marked vs = Some vs" by simp
  ultimately show ?case using "1.prems"(2) by (intro exI[of _ vs] exI[of _ ?M] conjI) (assumption | force)+
next
  case (2 consumers index queue marked vs)
  have idx: "index < n" "vec_get marked index = Some (marked ! index)"
    using "2.prems"(1,3) by (simp_all add: vec_get_def)
  show ?case
  proof (cases "marked ! index")
    case True
    have "\<forall>i < n. marked ! i \<longrightarrow> set (consumers ! i) \<subseteq> set queue \<union> {k. marked ! k}"
      using "2.prems"(6) True by fastforce
    with "2.IH"(1)[OF idx(2) True] "2.prems"(1-5) obtain vs' M where
      "mark_loop consumers queue marked vs = Some vs'" "length vs' = n"
      "\<forall>i < n. vs' ! i = (if i \<in> M then mark_truncated (vs1 ! i) else vs1 ! i)" "set queue \<subseteq> M"
      "\<forall>i < n. marked ! i \<longrightarrow> i \<in> M" "\<forall>i \<in> M. i < n \<and> set (consumers ! i) \<subseteq> M" by auto
    with True idx show ?thesis by (intro exI[of _ vs'] exI[of _ M]) simp
  next
    case False
    let ?m = "marked[index := True]"
    let ?q = "queue @ filter (\<lambda>i. \<not> ?m ! i) (consumers ! index)"
    let ?v = "vs[index := mark_truncated (vs ! index)]"
    have eq: "mark_loop consumers (index # queue) marked vs = mark_loop consumers ?q ?m ?v"
      using idx False by (simp add: Let_def)
    have mk: "marked ! k \<Longrightarrow> ?m ! k" for k using idx "2.prems"(1) by (cases "k = index") auto
    have "\<forall>i < n. ?m ! i \<longrightarrow> set (consumers ! i) \<subseteq> set ?q \<union> {k. ?m ! k}"
    proof (intro allI impI)
      fix i assume i: "i < n" "?m ! i"
      show "set (consumers ! i) \<subseteq> set ?q \<union> {k. ?m ! k}"
      proof (cases "i = index")
        case True
        then show ?thesis by auto
      next
        case False
        with i "2.prems"(6) have "set (consumers ! i) \<subseteq> set (index # queue) \<union> {k. marked ! k}" by auto
        moreover have "?m ! index" using idx "2.prems"(1) by simp
        ultimately show ?thesis using mk by auto
      qed
    qed
    moreover have "\<forall>i < n. ?v ! i = (if ?m ! i then mark_truncated (vs1 ! i) else vs1 ! i)"
      using "2.prems"(1,2,5) False idx by (auto simp: nth_list_update)
    moreover have "set ?q \<subseteq> {..<n}" using "2.prems"(3,4) idx by fastforce
    ultimately obtain vs' M where r: "mark_loop consumers ?q ?m ?v = Some vs'" "length vs' = n"
      "\<forall>i < n. vs' ! i = (if i \<in> M then mark_truncated (vs1 ! i) else vs1 ! i)" "set ?q \<subseteq> M"
      "\<forall>i < n. ?m ! i \<longrightarrow> i \<in> M" "\<forall>i \<in> M. i < n \<and> set (consumers ! i) \<subseteq> M"
      using "2.IH"(2)[OF idx(2) False refl] "2.prems"(1,2,4) by auto
    moreover have "index \<in> M" using r(5) idx "2.prems"(1) by simp
    moreover have "\<forall>i < n. marked ! i \<longrightarrow> i \<in> M" using r(5) mk by blast
    moreover have "set (index # queue) \<subseteq> M" using \<open>index \<in> M\<close> r(4) by simp
    ultimately show ?thesis unfolding eq by blast
  qed
qed

lemma propagate_spec:
  assumes "\<forall>v \<in> set vs. wf_origins (origins v)"
  shows "\<exists>vs'. propagate vs = Some vs' \<and> evolves vs vs' \<and> (\<forall>i < length vs. settled vs vs' i)"
proof -
  let ?n = "length vs"
  let ?cs = "build_consumers vs"
  obtain queue vs1 where loop: "propagate_loop ?cs (?n * (MAX_ORIGINS + 2)) [0..<?n] (replicate ?n True) vs = (queue, vs1)"
    by (cases "propagate_loop ?cs (?n * (MAX_ORIGINS + 2)) [0..<?n] (replicate ?n True) vs")
  have "queue_ok ?n ([0..<?n], replicate ?n True)" by (auto simp: queue_ok_def)
  from propagate_loop_spec[OF evolves_start[OF assms] this _ refl loop]
  have l: "evolves vs vs1" "set queue \<subseteq> {..<?n}" "\<forall>i < ?n. i \<notin> set queue \<longrightarrow> settled vs vs1 i" by auto
  have cs: "\<forall>i < ?n. set (?cs ! i) \<subseteq> {..<?n}" using build_consumers_spec(2) by auto
  have len: "length vs1 = ?n" using l(1) by (simp add: evolves_def)
  from mark_loop_spec[OF length_replicate len l(2) cs, of False vs1] obtain vs' M where
    m: "mark_loop ?cs queue (replicate ?n False) vs1 = Some vs'" "length vs' = ?n"
      "\<forall>i < ?n. vs' ! i = (if i \<in> M then mark_truncated (vs1 ! i) else vs1 ! i)" "set queue \<subseteq> M"
      "\<forall>i \<in> M. i < ?n \<and> set (?cs ! i) \<subseteq> M" by auto
  have "evolves vs vs'"
    unfolding evolves_def
  proof (intro conjI allI impI)
    fix i assume i: "i < ?n"
    have v: "vs1 ! i = (vs ! i)\<lparr>origins := origins (vs1 ! i)\<rparr>" and
      w: "wf_origins (origins (vs1 ! i))" "evidence_le (origins (vs ! i)) (origins (vs1 ! i))"
        "set (operations (origins (vs1 ! i))) \<subseteq> evidence vs i"
      using l(1) i by (simp_all add: evolves_def)
    show "vs' ! i = (vs ! i)\<lparr>origins := origins (vs' ! i)\<rparr>"
      using m(3) i v same_rest[OF v] by (auto simp: mark_truncated_def)
    show "wf_origins (origins (vs' ! i))" "evidence_le (origins (vs ! i)) (origins (vs' ! i))"
      "set (operations (origins (vs' ! i))) \<subseteq> evidence vs i"
      using m(3) i w by (auto simp: mark_truncated_def wf_origins_def evidence_le_def)
  qed (rule m(2))
  moreover have "settled vs vs' i" if i: "i < ?n" for i
  proof (cases "i \<in> M")
    case True
    with m(3) i show ?thesis by (simp add: settled_def evidence_le_def mark_truncated_def)
  next
    case False
    have "j \<notin> M \<and> j < ?n" if "j \<in> inputs_of vs i" for j
      using that False i m(5) build_consumers_spec(2)[of j vs] by (auto simp: input_positions_def)
    with False i l(3) m(3,4) show ?thesis by (auto simp: settled_def)
  qed
  ultimately show ?thesis
    using loop m(1) by (auto simp: propagate_def)
qed

lemma settled_evidence:
  assumes "evolves vs vs'" "\<forall>i < length vs. settled vs vs' i" "(j, i) \<in> (depends vs)\<^sup>*" "i < length vs"
  shows "evidence_le (origins (vs ! j)) (origins (vs' ! i))"
proof -
  have "j < length vs \<and> evidence_le (origins (vs' ! j)) (origins (vs' ! i))"
    using assms(3)
  proof (induction rule: converse_rtrancl_induct)
    case (step y z)
    then have "evidence_le (origins (vs' ! y)) (origins (vs' ! z))" "y < length vs"
      using assms(2) by (auto simp: depends_def settled_def input_positions_def)
    with step.IH show ?case using evidence_le_trans by blast
  qed (use assms(4) in simp)
  moreover from this have "evidence_le (origins (vs ! j)) (origins (vs' ! j))"
    using assms(1) by (simp add: evolves_def)
  ultimately show ?thesis using evidence_le_trans by blast
qed

subsection \<open>Properties\<close>

text \<open>
  C26. Evidence lists refine sets of operations: the list of a set is its 32 smallest
  operations in order, flagged exactly when the set is larger; inserting and merging are
  insertion into and union of the sets, whatever was cut before.
\<close>

theorem origins_refine_sets:
  assumes "represents a A" "represents b B"
  shows "represents (origins_insert x a) (insert x A) \<and> represents (origins_merge a b) (A \<union> B) \<and>
    represents default_origins {}"
  using represents_insert[OF assms(1)] represents_merge[OF assms] by (simp add: represents_def default_origins_def)

text \<open>
  C10. Propagation returns, and changes nothing but origins. A variable's list afterwards
  holds only operations of the variables it transitively depends on; where it is not
  flagged as truncated it holds all of them, and none of those was flagged before.
\<close>

theorem propagate_exact:
  assumes "\<forall>v \<in> set vs. wf_origins (origins v)"
  shows "\<exists>vs'. propagate vs = Some vs' \<and> length vs' = length vs \<and>
    (\<forall>i < length vs. vs' ! i = (vs ! i)\<lparr>origins := origins (vs' ! i)\<rparr> \<and> wf_origins (origins (vs' ! i)) \<and>
      set (operations (origins (vs' ! i))) \<subseteq> evidence vs i \<and>
      (\<not> truncated (origins (vs' ! i)) \<longrightarrow> set (operations (origins (vs' ! i))) = evidence vs i \<and>
        (\<forall>j. (j, i) \<in> (depends vs)\<^sup>* \<longrightarrow> \<not> truncated (origins (vs ! j)))))"
proof -
  obtain vs' where p: "propagate vs = Some vs'" "evolves vs vs'" "\<forall>i < length vs. settled vs vs' i"
    using propagate_spec[OF assms] by blast
  have ev: "evidence_le (origins (vs ! j)) (origins (vs' ! i))" if "(j, i) \<in> (depends vs)\<^sup>*" "i < length vs" for i j
    using settled_evidence[OF p(2,3) that] .
  have "evidence vs i \<subseteq> set (operations (origins (vs' ! i)))"
    "\<forall>j. (j, i) \<in> (depends vs)\<^sup>* \<longrightarrow> \<not> truncated (origins (vs ! j))"
    if "i < length vs" "\<not> truncated (origins (vs' ! i))" for i
    using ev that by (auto simp: evidence_def evidence_le_def)
  with p(1,2) show ?thesis by (auto simp: evolves_def)
qed

text \<open>
  C40. Rewriting a definition keeps its evidence. A rewrite of a variable in range whose
  origins are well formed (at most 32, in order) returns and touches that variable only. It
  gets the new expression, except that the copy a store keeps does not become a read or a
  call; and its origins stay well formed and cover its own, those of the inputs it had and those of
  the inputs it gets, or are flagged.
\<close>

theorem rewrite_keeps_evidence:
  assumes "index < length vs" "wf_origins (origins (vs ! index))"
  shows "\<exists>v. rewrite vs index e = Some (vs[index := v]) \<and> wf_origins (origins v) \<and>
    expr v = (if is_store_access (memory (vs ! index)) \<and> var_source (expr (vs ! index)) \<noteq> None \<and> reads_or_calls e
      then expr (vs ! index) else e) \<and> evidence_le (origins (vs ! index)) (origins v) \<and>
    (\<forall>j \<in> input_positions vs (expr (vs ! index)) \<union> input_positions vs (expr v).
       evidence_le (origins (vs ! j)) (origins v))"
proof -
  let ?old = "vs ! index"
  define e' where "e' = (if is_store_access (memory ?old) \<and> var_source (expr ?old) \<noteq> None \<and> reads_or_calls e
    then expr ?old else e)"
  define s where "s = merge_inputs (expr ?old) vs (origins ?old)"
  note m1 = merge_inputs_ops[OF assms(2), where e = "expr ?old" and vs = vs, folded s_def]
  note m2 = merge_inputs_ops[OF m1(1), where e = e' and vs = vs]
  obtain v where v: "rewrite vs index e = Some (vs[index := v])" "origins v = merge_inputs e' vs s" "expr v = e'"
    using assms(1) by (auto simp: rewrite_def vec_get_def Let_def s_def e'_def)
  have "expr v = (if is_store_access (memory ?old) \<and> var_source (expr ?old) \<noteq> None \<and> reads_or_calls e
      then expr ?old else e)" by (simp add: v(3) e'_def)
  with v m2(1) evidence_le_trans[OF m1(2) m2(2)] evidence_le_trans[OF m1(3) m2(2)] m2(3) show ?thesis
    by (intro exI[of _ v]) auto
qed

definition origin_at :: "u64 \<Rightarrow> OperationOrigin" where
  "origin_at a = \<lparr>instruction_address = a, operation_index = 0\<rparr>"

text \<open>Two variables that read each other, one with evidence of its own.\<close>

definition origin_cycle :: "VarDef list" where
  "origin_cycle =
     [(blank_vardef 0)\<lparr>expr := EVar 1, origins := default_origins\<lparr>operations := [origin_at 16]\<rparr>\<rparr>,
      (blank_vardef 1)\<lparr>expr := EVar 0\<rparr>]"

theorem origins_refine_sets_witness:
  "represents (origins_merge (origins_insert (origin_at 2) default_origins) (origins_insert (origin_at 1) default_origins))
     {origin_at 2, origin_at 1}"
proof -
  have d: "represents default_origins {}" by (simp add: represents_def default_origins_def)
  show ?thesis
    using origins_refine_sets[OF represents_insert[OF d] represents_insert[OF d], of "origin_at 2" "origin_at 2" "origin_at 1"]
    by (simp add: insert_commute)
qed

theorem propagate_exact_witness:
  "\<exists>vs'. propagate origin_cycle = Some vs' \<and> set (operations (origins (vs' ! 1))) \<subseteq> evidence origin_cycle 1"
proof -
  have "\<forall>v \<in> set origin_cycle. wf_origins (origins v)"
    by (simp add: origin_cycle_def blank_vardef_def default_origins_def wf_origins_def MAX_ORIGINS_def)
  moreover have "1 < length origin_cycle" by (simp add: origin_cycle_def)
  ultimately show ?thesis using propagate_exact[of origin_cycle] by blast
qed

lemma propagate_cycle_run:
  "map_option (map (\<lambda>v. operations (origins v))) (propagate origin_cycle) = Some [[origin_at 16], [origin_at 16]]"
  by code_simp

theorem rewrite_keeps_evidence_witness:
  "\<exists>v. rewrite origin_cycle 1 (EConst 0 4) = Some (origin_cycle[1 := v]) \<and>
     evidence_le (origins (origin_cycle ! 0)) (origins v)"
proof -
  have "1 < length origin_cycle" "wf_origins (origins (origin_cycle ! 1))"
    "0 \<in> input_positions origin_cycle (expr (origin_cycle ! 1))"
    by (simp_all add: origin_cycle_def blank_vardef_def default_origins_def wf_origins_def input_positions_def)
  with rewrite_keeps_evidence[of 1 origin_cycle "EConst 0 4"] show ?thesis by blast
qed

end
