(* ===== verification/CfgEdgesProps.thy ===== *)
theory CfgEdgesProps
  imports CfgEdges
begin

text \<open>
  Correctness of the edge classification: an invariant of the coloured traversal and what
  each call adds to it, and from them the meaning of the four edge kinds.
\<close>

subsection \<open>Invariant\<close>

definition gray :: "visit_state \<Rightarrow> nat set" where
  "gray st = {x. x < length (colors st) \<and> colors st ! x = Gray}"

definition black :: "visit_state \<Rightarrow> nat set" where
  "black st = {x. x < length (colors st) \<and> colors st ! x = Black}"

definition edge_pair :: "CfgEdge \<Rightarrow> nat \<times> nat" where
  "edge_pair e = (edge_from e, edge_to e)"

definition tree_edges :: "CfgEdge list \<Rightarrow> (nat \<times> nat) set" where
  "tree_edges es = edge_pair ` {e \<in> set es. edge_kind e = Tree}"

text \<open>The edges of a block that the traversal records: those to a block in range.\<close>

definition out_edges :: "Cfg \<Rightarrow> nat \<Rightarrow> (nat \<times> nat) list" where
  "out_edges cfg b = map (Pair b) (filter (\<lambda>s. s < length (blocks cfg)) (succs_of cfg b))"

lemma tree_edges_append [simp]: "tree_edges (es @ es') = tree_edges es \<union> tree_edges es'"
  by (auto simp: tree_edges_def)

lemma tree_edges_simps [simp]:
  "tree_edges [] = {}"
  "tree_edges (e # es) = (if edge_kind e = Tree then insert (edge_pair e) (tree_edges es) else tree_edges es)"
  by (auto simp: tree_edges_def)

lemma tree_star_mono: "x \<in> (tree_edges es)\<^sup>* \<Longrightarrow> x \<in> (tree_edges es \<union> T)\<^sup>*"
  using rtrancl_mono[of "tree_edges es" "tree_edges es \<union> T"] by blast

lemma tree_plus_mono: "x \<in> (tree_edges es)\<^sup>+ \<Longrightarrow> x \<in> (tree_edges es \<union> T)\<^sup>+"
  using trancl_mono[of x "tree_edges es" "tree_edges es \<union> T"] by blast

definition sized :: "Cfg \<Rightarrow> visit_state \<Rightarrow> bool" where
  "sized cfg st \<longleftrightarrow> length (colors st) = length (blocks cfg) \<and> length (discovered st) = length (blocks cfg) \<and>
     (\<forall>x \<in> gray st \<union> black st. discovered st ! x < clock st)"

text \<open>While \<open>b\<close> is visited, the gray blocks lead to it along tree edges.\<close>

definition visiting :: "Cfg \<Rightarrow> nat \<Rightarrow> visit_state \<Rightarrow> bool" where
  "visiting cfg b st \<longleftrightarrow> sized cfg st \<and> b \<in> gray st \<and>
     (\<forall>g \<in> gray st. (g, b) \<in> (tree_edges (edges st))\<^sup>*) \<and>
     (\<forall>x \<in> black st. discovered st ! b < discovered st ! x \<longrightarrow> (b, x) \<in> (tree_edges (edges st))\<^sup>+)"

definition edge_ok :: "visit_state \<Rightarrow> CfgEdge \<Rightarrow> bool" where
  "edge_ok st e \<longleftrightarrow>
     (edge_kind e = Back \<longrightarrow> (edge_to e, edge_from e) \<in> (tree_edges (edges st))\<^sup>*) \<and>
     (edge_kind e = Forward \<longrightarrow> (edge_from e, edge_to e) \<in> (tree_edges (edges st))\<^sup>+)"

text \<open>A call for the successors \<open>ss\<close> of \<open>b\<close> adds the edges \<open>new\<close> and finishes \<open>fin\<close>, in order.\<close>

definition visited :: "Cfg \<Rightarrow> nat \<Rightarrow> nat list \<Rightarrow> visit_state \<Rightarrow> visit_state \<Rightarrow> CfgEdge list \<Rightarrow> nat list \<Rightarrow> bool" where
  "visited cfg b ss st st' new fin \<longleftrightarrow>
     edges st' = edges st @ new \<and> sized cfg st' \<and> gray st' = gray st \<and> clock st \<le> clock st' \<and>
     distinct fin \<and> set fin \<inter> black st = {} \<and> black st' = black st \<union> set fin \<and>
     mset (map edge_pair new) = mset (map (Pair b) (filter (\<lambda>s. s < length (blocks cfg)) ss)) +
       mset (concat (map (out_edges cfg) fin)) \<and>
     (\<forall>e \<in> set new. edge_kind e \<noteq> Back \<longrightarrow> edge_to e \<in> black st \<or> after fin (edge_to e) (edge_from e) \<or>
        (edge_from e = b \<and> edge_to e \<in> black st')) \<and>
     (\<forall>e \<in> set new. edge_ok st' e) \<and>
     (\<forall>x \<in> set fin. (b, x) \<in> (tree_edges (edges st'))\<^sup>+) \<and>
     (\<forall>x. x \<notin> set fin \<longrightarrow> discovered st' ! x = discovered st ! x)"

lemma colour_lemmas:
  "s < length (colors st) \<Longrightarrow> colors st ! s = White \<Longrightarrow> gray (enter_block s (push_edge b s st)) = insert s (gray st)"
  "s < length (colors st) \<Longrightarrow> colors st ! s = White \<Longrightarrow> black (enter_block s (push_edge b s st)) = black st"
  "s < length (colors st) \<Longrightarrow> gray (leave_block s st) = gray st - {s}"
  "s < length (colors st) \<Longrightarrow> black (leave_block s st) = insert s (black st)"
  "gray (push_edge b s st) = gray st" "black (push_edge b s st) = black st"
  by (auto simp: gray_def black_def enter_block_def leave_block_def push_edge_def nth_list_update split: if_splits)

lemma gray_not_black: "x \<in> gray st \<Longrightarrow> x \<notin> black st"
  by (simp add: gray_def black_def)

lemma kind_tree: "edge_kind_of st b s = Tree \<longleftrightarrow> colors st ! s = White"
  by (auto simp: edge_kind_of_def split: Color.splits)

lemma kind_back: "edge_kind_of st b s = Back \<longleftrightarrow> colors st ! s = Gray"
  by (auto simp: edge_kind_of_def split: Color.splits)

lemma after_in: "after xs y p \<Longrightarrow> y \<in> set xs \<and> p \<in> set xs"
  by (auto simp: after_def)

subsection \<open>One edge\<close>

lemma visiting_enter:
  assumes "visiting cfg b st" "s < length (colors st)" "colors st ! s = White"
  shows "visiting cfg s (enter_block s (push_edge b s st))"
proof -
  let ?st = "enter_block s (push_edge b s st)"
  have e: "tree_edges (edges ?st) = tree_edges (edges st) \<union> {(b, s)}"
    using assms(3) by (simp add: enter_block_def push_edge_def edge_kind_of_def edge_pair_def)
  have s: "s \<notin> gray st" "s \<notin> black st" using assms(3) by (auto simp: gray_def black_def)
  have d: "discovered ?st ! x = (if x = s then clock st else discovered st ! x)" for x
    using assms(1,2) by (simp add: enter_block_def push_edge_def visiting_def sized_def nth_list_update)
  have c: "clock ?st = clock st + 1" "length (colors ?st) = length (colors st)"
    "length (discovered ?st) = length (discovered st)"
    by (simp_all add: enter_block_def push_edge_def)
  have "(g, s) \<in> (tree_edges (edges ?st))\<^sup>*" if "g \<in> gray st" for g
    using that assms(1) tree_star_mono[of "(g, b)" "edges st" "{(b, s)}"] unfolding e visiting_def
    by (meson UnI2 insertI1 rtrancl.rtrancl_into_rtrancl)
  moreover have "discovered st ! x < clock st" if "x \<in> gray st \<union> black st" for x
    using that assms(1) by (auto simp: visiting_def sized_def)
  then have "discovered st ! x < clock st + 1" "\<not> clock st < discovered st ! x" if "x \<in> gray st \<union> black st" for x
    using that by fastforce+
  ultimately show ?thesis
    using assms s by (simp add: visiting_def sized_def colour_lemmas(1,2) d c)
qed

lemma visiting_step:
  assumes "visiting cfg b st" "s < length (colors st)" "colors st ! s \<noteq> White"
  shows "visiting cfg b (push_edge b s st)" and "edge_ok (push_edge b s st)
    \<lparr>edge_from = b, edge_to = s, edge_kind = edge_kind_of st b s\<rparr>"
proof -
  have e: "tree_edges (edges (push_edge b s st)) = tree_edges (edges st)"
    using assms(3) by (simp add: push_edge_def kind_tree)
  have c: "discovered (push_edge b s st) = discovered st" "clock (push_edge b s st) = clock st"
    "colors (push_edge b s st) = colors st"
    by (simp_all add: push_edge_def)
  show "visiting cfg b (push_edge b s st)"
    using assms(1) by (simp add: visiting_def sized_def colour_lemmas c e)
  show "edge_ok (push_edge b s st) \<lparr>edge_from = b, edge_to = s, edge_kind = edge_kind_of st b s\<rparr>"
    using assms unfolding edge_ok_def e
    by (cases "colors st ! s") (auto simp: visiting_def edge_kind_of_def gray_def black_def)
qed

lemma visited_nil: "sized cfg st \<Longrightarrow> visited cfg b [] st st [] []"
  by (simp add: visited_def)

lemma edge_ok_mono:
  "edge_ok st e \<Longrightarrow> edges st' = edges st @ es \<Longrightarrow> edge_ok st' e"
  by (simp add: edge_ok_def tree_star_mono tree_plus_mono)

text \<open>An edge to a block already seen, then the remaining successors.\<close>

lemma visited_step:
  assumes "visiting cfg b st" "s < length (colors st)" "colors st ! s \<noteq> White"
    "visited cfg b ss (push_edge b s st) st' new fin"
  shows "visited cfg b (s # ss) st st' (\<lparr>edge_from = b, edge_to = s, edge_kind = edge_kind_of st b s\<rparr> # new) fin"
proof -
  let ?e = "\<lparr>edge_from = b, edge_to = s, edge_kind = edge_kind_of st b s\<rparr>"
  have n: "s < length (blocks cfg)" using assms(1,2) by (simp add: visiting_def sized_def)
  have "edge_ok st' ?e"
    using edge_ok_mono[OF visiting_step(2)[OF assms(1-3)]] assms(4) by (simp add: visited_def)
  moreover have "edge_kind ?e \<noteq> Back \<longrightarrow> s \<in> black st"
    using assms(2,3) by (cases "colors st ! s") (auto simp: kind_back black_def)
  moreover have "edges (push_edge b s st) = edges st @ [?e]" "discovered (push_edge b s st) = discovered st"
    "clock (push_edge b s st) = clock st"
    by (simp_all add: push_edge_def)
  moreover have "edge_pair ?e = (b, s)" by (simp add: edge_pair_def)
  ultimately show ?thesis
    using assms(3,4) n unfolding visited_def
    by (elim conjE) (simp add: colour_lemmas kind_tree)
qed

text \<open>A tree edge: the recursive call, then the remaining successors.\<close>

lemma visiting_leave:
  assumes "visiting cfg b st" "s < length (colors st)" "colors st ! s = White"
    "visited cfg s ss (enter_block s (push_edge b s st)) st' new fin"
  shows "visiting cfg b (leave_block s st')"
    "gray (leave_block s st') = gray st" "black (leave_block s st') = black st \<union> set fin \<union> {s}" "s \<notin> set fin"
    "(b, s) \<in> tree_edges (edges st')" "edges st' = edges st @ \<lparr>edge_from = b, edge_to = s, edge_kind = Tree\<rparr> # new"
    "\<forall>x. x \<notin> set fin \<longrightarrow> x \<noteq> s \<longrightarrow> discovered st' ! x = discovered st ! x" "clock st < clock st'"
proof -
  let ?st = "enter_block s (push_edge b s st)"
  let ?T = "tree_edges (edges st')"
  have s: "s \<notin> gray st" "s \<notin> black st" using assms(3) by (auto simp: gray_def black_def)
  note c = colour_lemmas(1,2)[OF assms(2,3)]
  show edges: "edges st' = edges st @ \<lparr>edge_from = b, edge_to = s, edge_kind = Tree\<rparr> # new"
    using assms(3,4) by (simp add: visited_def enter_block_def push_edge_def edge_kind_of_def)
  show bs: "(b, s) \<in> ?T" by (simp add: edges edge_pair_def)
  have old: "?T = tree_edges (edges st) \<union> ?T" unfolding edges by auto
  have len: "length (colors st') = length (colors st)" using assms(1,4) by (simp add: visited_def visiting_def sized_def)
  then have sl: "s < length (colors st')" using assms(2) by simp
  show g: "gray (leave_block s st') = gray st"
    using colour_lemmas(3)[OF sl] assms(4) c(1) s by (simp add: visited_def)
  have st': "gray st' = insert s (gray st)" "black st' = black st \<union> set fin" using assms(4) c by (simp_all add: visited_def)
  then show "s \<notin> set fin" using gray_not_black[of s st'] by blast
  show bl: "black (leave_block s st') = black st \<union> set fin \<union> {s}"
    using colour_lemmas(4)[OF sl] st' by auto
  have disc: "discovered st' ! x = discovered st ! x" if "x \<notin> set fin" "x \<noteq> s" for x
    using assms(4) that by (simp add: visited_def enter_block_def push_edge_def)
  then show "\<forall>x. x \<notin> set fin \<longrightarrow> x \<noteq> s \<longrightarrow> discovered st' ! x = discovered st ! x" by blast
  show "clock st < clock st'" using assms(4) by (simp add: visited_def enter_block_def push_edge_def)
  have lv: "discovered (leave_block s st') = discovered st'" "clock (leave_block s st') = clock st'"
    "edges (leave_block s st') = edges st'" "length (colors (leave_block s st')) = length (colors st')"
    by (simp_all add: leave_block_def)
  have b: "b \<in> gray st" "b \<notin> set fin" "b \<noteq> s"
    using assms(1) st' s gray_not_black[of b st'] by (auto simp: visiting_def)
  have fin: "(b, x) \<in> ?T\<^sup>+" if "x \<in> set fin" for x
    using assms(4) that bs by (auto simp: visited_def intro: trancl_into_trancl2)
  have "(b, x) \<in> ?T\<^sup>+" if "x \<in> black st \<union> set fin \<union> {s}" "discovered st' ! b < discovered st' ! x" for x
  proof (cases "x \<in> black st - set fin - {s}")
    case True
    with that(2) disc b assms(1) have "(b, x) \<in> (tree_edges (edges st))\<^sup>+" by (auto simp: visiting_def)
    then show ?thesis using tree_plus_mono[of "(b, x)" "edges st" ?T] old by simp
  qed (use that fin bs in auto)
  moreover have "(g, b) \<in> ?T\<^sup>*" if "g \<in> gray st" for g
    using assms(1) that tree_star_mono[of "(g, b)" "edges st" ?T] old by (auto simp: visiting_def)
  moreover have "sized cfg (leave_block s st')"
    using assms(4) g bl st' by (auto simp: visited_def sized_def lv)
  ultimately show "visiting cfg b (leave_block s st')"
    using b(1) by (simp add: visiting_def g bl lv)
qed

lemma visited_from:
  assumes "visited cfg b ss st st' new fin" "e \<in> set new"
  shows "edge_from e = b \<or> edge_from e \<in> set fin"
proof -
  have "edge_pair e \<in># mset (map edge_pair new)" using assms(2) by simp
  then have "edge_pair e \<in># mset (map (Pair b) (filter (\<lambda>s. s < length (blocks cfg)) ss)) +
      mset (concat (map (out_edges cfg) fin))"
    using assms(1) by (simp only: visited_def)
  then show ?thesis by (auto simp: edge_pair_def out_edges_def)
qed

lemma after_split: "x \<in> set xs \<Longrightarrow> y \<in> set ys \<Longrightarrow> after (xs @ ys) x y"
  unfolding after_def by (metis append.assoc append_Cons split_list)

lemma visited_tree:
  assumes "visiting cfg b st" "s < length (colors st)" "colors st ! s = White"
    "visited cfg s (succs_of cfg s) (enter_block s (push_edge b s st)) st1 new1 fin1"
    "visited cfg b ss (leave_block s st1) st' new2 fin2"
  shows "visited cfg b (s # ss) st st' (\<lparr>edge_from = b, edge_to = s, edge_kind = Tree\<rparr> # new1 @ new2) (fin1 @ [s] @ fin2)"
proof -
  let ?fin = "fin1 @ [s] @ fin2" and ?e = "\<lparr>edge_from = b, edge_to = s, edge_kind = Tree\<rparr>"
  have n: "s < length (blocks cfg)" using assms(1,2) by (simp add: visiting_def sized_def)
  note l = visiting_leave[OF assms(1-4)]
  note v1 = assms(4)[unfolded visited_def] and v2 = assms(5)[unfolded visited_def]
  note c = colour_lemmas(1,2)[OF assms(2,3)]
  have s: "s \<notin> black st" using assms(3) by (simp add: black_def)
  have es: "edges st' = edges st1 @ new2" "edges st' = edges st @ ?e # new1 @ new2" and cl: "clock st \<le> clock st'"
    using v2 l(6,8) by (simp_all add: leave_block_def)
  have bl: "black st' = black st \<union> set ?fin" using v2 l(3) by auto
  have dist: "distinct ?fin" "set ?fin \<inter> black st = {}"
    using v1 v2 l(3,4) c s by auto
  have mono: "(x, y) \<in> (tree_edges (edges st1))\<^sup>+ \<Longrightarrow> (x, y) \<in> (tree_edges (edges st'))\<^sup>+" for x y
    unfolding es(1) by (simp add: tree_plus_mono)
  have bs: "(b, s) \<in> (tree_edges (edges st'))\<^sup>+" using l(5) mono by blast
  have fin: "(b, x) \<in> (tree_edges (edges st'))\<^sup>+" if "x \<in> set ?fin" for x
    using that bs v1 v2 mono by (auto intro: trancl_trans)
  have "edge_ok st' e" if "e \<in> set (?e # new1 @ new2)" for e
    using that v1 v2 edge_ok_mono[OF _ es(1)] by (auto simp: edge_ok_def)
  moreover have "edge_to e \<in> black st \<or> after ?fin (edge_to e) (edge_from e) \<or> (edge_from e = b \<and> edge_to e \<in> black st')"
    if e: "e \<in> set (?e # new1 @ new2)" "edge_kind e \<noteq> Back" for e
  proof -
    consider "e = ?e" | "e \<in> set new1" | "e \<in> set new2" using e(1) by auto
    then show ?thesis
    proof cases
      case 2
      then have "edge_to e \<in> black st \<or> after fin1 (edge_to e) (edge_from e) \<or> (edge_from e = s \<and> edge_to e \<in> set fin1)"
        using v1 e(2) c by auto
      then show ?thesis
        using after_append[of fin1 "edge_to e" "edge_from e" "[]" "[s] @ fin2"] after_last[of "edge_to e" fin1 s fin2] by auto
    next
      case 3
      then consider "edge_to e \<in> black (leave_block s st1)" | "after fin2 (edge_to e) (edge_from e)" |
        "edge_from e = b \<and> edge_to e \<in> black st'" using v2 e(2) by blast
      then show ?thesis
      proof cases
        case 1
        then have "edge_to e \<in> black st \<or> edge_to e \<in> set (fin1 @ [s])" using l(3) by auto
        with visited_from[OF assms(5) 3] after_split[of "edge_to e" "fin1 @ [s]" "edge_from e" fin2] bl
        show ?thesis by auto
      next
        case 2
        then show ?thesis using after_append[of fin2 _ _ "fin1 @ [s]" "[]"] by simp
      qed simp
    qed (use bl in simp)
  qed
  moreover have "mset (map edge_pair (?e # new1 @ new2)) =
      mset (map (Pair b) (filter (\<lambda>s. s < length (blocks cfg)) (s # ss))) + mset (concat (map (out_edges cfg) ?fin))"
    using v1 v2 n by (simp add: edge_pair_def out_edges_def)
  ultimately show ?thesis
    unfolding visited_def
    using es(2) cl bl dist fin v2 l(2,7) by (simp add: leave_block_def)
qed

lemma visit_succs_visited:
  "visiting cfg b st \<Longrightarrow> \<exists>new fin. visited cfg b ss st (visit_succs cfg b ss st) new fin"
proof (induction cfg b ss st rule: visit_succs.induct)
  case (1 cfg block st)
  then have "visited cfg block [] st st [] []" by (intro visited_nil) (simp add: visiting_def)
  then show ?case by auto
next
  case (2 cfg b s ss st)
  show ?case
  proof (cases "length (colors st) \<le> s")
    case True
    then have "\<not> s < length (blocks cfg)" using "2.prems" by (simp add: visiting_def sized_def)
    then have "visited cfg b (s # ss) st st' new fin = visited cfg b ss st st' new fin" for st' new fin
      by (simp add: visited_def)
    with "2.IH"(1)[OF True "2.prems"] True show ?thesis by simp
  next
    case False
    then have s: "s < length (colors st)" by simp
    show ?thesis
    proof (cases "colors st ! s = White")
      case True
      then have k: "edge_kind_of st b s = Tree" by (simp add: kind_tree)
      obtain new1 fin1 where 1: "visited cfg s (succs_of cfg s) (enter_block s (push_edge b s st))
          (visit_succs cfg s (succs_of cfg s) (enter_block s (push_edge b s st))) new1 fin1"
        using "2.IH"(2)[OF False k visiting_enter[OF "2.prems" s True]] by blast
      from "2.IH"(3)[OF False k visiting_leave(1)[OF "2.prems" s True 1]] visited_tree[OF "2.prems" s True 1] k False
      show ?thesis by auto blast
    next
      case other: False
      then have k: "edge_kind_of st b s \<noteq> Tree" by (simp add: kind_tree)
      from "2.IH"(4)[OF False k visiting_step(1)[OF "2.prems" s other]] visited_step[OF "2.prems" s other] k False
      show ?thesis by auto blast
    qed
  qed
qed

subsection \<open>The whole traversal\<close>

text \<open>Between top-level calls no block is gray, and the finished ones are in order.\<close>

definition between :: "Cfg \<Rightarrow> visit_state \<Rightarrow> nat list \<Rightarrow> bool" where
  "between cfg st fin \<longleftrightarrow> sized cfg st \<and> gray st = {} \<and> distinct fin \<and> black st = set fin \<and>
     mset (map edge_pair (edges st)) = mset (concat (map (out_edges cfg) fin)) \<and>
     (\<forall>e \<in> set (edges st). edge_ok st e \<and> (edge_kind e \<noteq> Back \<longrightarrow> after fin (edge_to e) (edge_from e)))"

lemma enter_start:
  assumes "sized cfg st" "b < length (colors st)" "colors st ! b = White"
  shows "gray (enter_block b st) = insert b (gray st)" "black (enter_block b st) = black st"
    "edges (enter_block b st) = edges st" "sized cfg (enter_block b st)"
    "\<forall>x \<in> black st. discovered (enter_block b st) ! x < discovered (enter_block b st) ! b"
proof -
  show c: "gray (enter_block b st) = insert b (gray st)" "black (enter_block b st) = black st"
    "edges (enter_block b st) = edges st"
    using assms(2,3) by (auto simp: gray_def black_def enter_block_def nth_list_update split: if_splits)
  have d: "discovered (enter_block b st) ! x = (if x = b then clock st else discovered st ! x)"
    "clock (enter_block b st) = clock st + 1" for x
    using assms(1,2) by (simp_all add: enter_block_def sized_def nth_list_update)
  have lt: "discovered st ! x < clock st" if "x \<in> gray st \<union> black st" for x
    using that assms(1) by (auto simp: sized_def)
  have b: "b \<notin> black st" using assms(3) by (simp add: black_def)
  show "\<forall>x \<in> black st. discovered (enter_block b st) ! x < discovered (enter_block b st) ! b"
    using lt b by (auto simp: d)
  have "discovered st ! x < clock st + 1" if "x \<in> gray st \<union> black st" for x
    using lt[OF that] by simp
  then show "sized cfg (enter_block b st)"
    using assms(1) by (simp add: sized_def c d) (simp add: enter_block_def)
qed

lemma between_visit:
  assumes "between cfg st fin" "b < length (colors st)" "colors st ! b = White"
  shows "\<exists>fin'. between cfg (visit cfg b st) (fin @ fin' @ [b])"
proof -
  let ?st = "enter_block b st"
  have sz: "sized cfg st" using assms(1) by (simp add: between_def)
  note e = enter_start[OF sz assms(2,3)]
  have "visiting cfg b ?st"
    using assms(1) e by (auto simp: visiting_def between_def dest: less_asym)
  then obtain new fin' where v: "visited cfg b (succs_of cfg b) ?st (visit_succs cfg b (succs_of cfg b) ?st) new fin'"
    using visit_succs_visited by blast
  define st' where "st' = visit_succs cfg b (succs_of cfg b) ?st"
  note v' = v[folded st'_def]
  note v = v'[unfolded visited_def e]
  have old: "sized cfg st" "gray st = {}" "distinct fin" "black st = set fin"
    "mset (map edge_pair (edges st)) = mset (concat (map (out_edges cfg) fin))"
    using assms(1) by (simp_all add: between_def)
  have st': "visit cfg b st = leave_block b st'" by (simp add: visit_def st'_def)
  have bl: "b < length (colors st')" using v sz assms(2) by (auto simp: sized_def)
  note l = colour_lemmas(3,4)[OF bl]
  have b: "b \<notin> set fin'" "b \<notin> set fin"
    using v old assms(3) gray_not_black[of b st'] by (auto simp: black_def)
  have lv: "discovered (leave_block b st') = discovered st'" "clock (leave_block b st') = clock st'"
    "edges (leave_block b st') = edges st'" "length (colors (leave_block b st')) = length (colors st')"
    by (simp_all add: leave_block_def)
  have gr: "gray (leave_block b st') = {}" and bk: "black (leave_block b st') = set (fin @ fin' @ [b])"
    using l v old by auto
  have "sized cfg (leave_block b st')"
    using v l by (auto simp: sized_def lv)
  moreover have "distinct (fin @ fin' @ [b])" using v old b by auto
  moreover have "mset (map edge_pair (edges st')) = mset (concat (map (out_edges cfg) (fin @ fin' @ [b])))"
    using v old by (simp add: out_edges_def)
  moreover have "edge_ok (leave_block b st') e \<and> (edge_kind e \<noteq> Back \<longrightarrow> after (fin @ fin' @ [b]) (edge_to e) (edge_from e))"
    if e: "e \<in> set (edges st')" for e
  proof (cases "e \<in> set (edges st)")
    case True
    then have "edge_ok st e \<and> (edge_kind e \<noteq> Back \<longrightarrow> after fin (edge_to e) (edge_from e))"
      using assms(1) by (simp add: between_def)
    moreover have "edges (leave_block b st') = edges st @ new" using v lv by simp
    ultimately show ?thesis
      using edge_ok_mono after_append[of fin _ _ "[]" "fin' @ [b]"] by auto
  next
    case False
    with e v have new: "e \<in> set new" by auto
    then have "edge_ok (leave_block b st') e"
      using v edge_ok_mono[of st' e "leave_block b st'" "[]"] lv(3) by auto
    moreover have "after (fin @ fin' @ [b]) (edge_to e) (edge_from e)" if "edge_kind e \<noteq> Back"
    proof -
      have "edge_from e \<in> set (fin' @ [b])" using visited_from[OF v' new] by auto
      moreover from that new v old have "edge_to e \<in> set fin \<or> after fin' (edge_to e) (edge_from e) \<or>
          (edge_from e = b \<and> edge_to e \<in> set (fin @ fin'))" by auto
      ultimately show ?thesis
        using after_split[of "edge_to e" fin "edge_from e" "fin' @ [b]"]
          after_split[of "edge_to e" "fin @ fin'" "edge_from e" "[b]"]
          after_append[of fin' "edge_to e" "edge_from e" fin "[b]"] by auto
    qed
    ultimately show ?thesis by blast
  qed
  ultimately have "between cfg (leave_block b st') (fin @ fin' @ [b])"
    unfolding between_def lv gr bk by blast
  then show ?thesis unfolding st' by blast
qed

lemma between_rest:
  assumes "between cfg st fin" "set bs \<subseteq> {..<length (blocks cfg)}"
  shows "\<exists>st' fin'. visit_rest cfg bs st = Some st' \<and> between cfg st' fin' \<and> set fin \<union> set bs \<subseteq> set fin'"
  using assms
proof (induction bs arbitrary: st fin)
  case (Cons b bs)
  have b: "b < length (colors st)" "vec_get (colors st) b = Some (colors st ! b)"
    using Cons.prems by (auto simp: between_def sized_def vec_get_def)
  show ?case
  proof (cases "colors st ! b = White")
    case True
    obtain f where "between cfg (visit cfg b st) (fin @ f @ [b])"
      using between_visit[OF Cons.prems(1) b(1) True] by blast
    from Cons.IH[OF this] Cons.prems(2) b True show ?thesis by fastforce
  next
    case False
    then have "b \<in> set fin"
      using b(1) Cons.prems(1) by (cases "colors st ! b") (auto simp: between_def gray_def black_def)
    with Cons.IH[OF Cons.prems(1)] Cons.prems(2) b False show ?thesis by fastforce
  qed
qed auto

lemma classified_edges_spec:
  assumes "ids_are_indices cfg"
  shows "\<exists>st fin. classified_edges cfg = Some (edges st) \<and> between cfg st fin \<and> set fin = {..<length (blocks cfg)}"
proof -
  let ?n = "length (blocks cfg)"
  let ?st = "if entry cfg < ?n then visit cfg (entry cfg) (start_state cfg) else start_state cfg"
  have s: "between cfg (start_state cfg) []"
    by (auto simp: between_def start_state_def sized_def gray_def black_def)
  have "\<exists>fin. between cfg ?st fin"
    using s between_visit[OF s, of "entry cfg"] by (auto simp: start_state_def)
  then obtain fin where "between cfg ?st fin" by blast
  moreover have "set (map block_id (blocks cfg)) = {..<?n}"
    using assms unfolding ids_are_indices_def by (metis atLeast_upt)
  ultimately obtain st' fin' where r: "visit_rest cfg (map block_id (blocks cfg)) ?st = Some st'" "between cfg st' fin'"
    "{..<?n} \<subseteq> set fin'"
    using between_rest[of cfg ?st fin "map block_id (blocks cfg)"] by auto
  moreover have "set fin' \<subseteq> {..<?n}" using r(2) by (auto simp: between_def sized_def black_def)
  ultimately show ?thesis by (intro exI[of _ st'] exI[of _ fin']) (auto simp: classified_edges_def)
qed

definition position :: "nat list \<Rightarrow> nat \<Rightarrow> nat" where
  "position xs x = length (takeWhile (\<lambda>y. y \<noteq> x) xs)"

lemma after_position:
  assumes "distinct xs" "after xs y p"
  shows "position xs y < position xs p"
proof -
  obtain us vs ws where xs: "xs = us @ y # vs @ p # ws" using assms(2) by (auto simp: after_def)
  have "takeWhile (\<lambda>z. z \<noteq> y) xs = us" "takeWhile (\<lambda>z. z \<noteq> p) xs = us @ y # vs"
    using assms(1) unfolding xs by (subst takeWhile_append2; auto)+
  then show ?thesis by (simp add: position_def)
qed

lemma mset_concat_map: "mset (concat (map f xs)) = (\<Sum>x \<in># mset xs. mset (f x))"
  by (induction xs) auto

subsection \<open>Properties\<close>

lemma classified_once:
  assumes "ids_are_indices cfg"
  shows "\<exists>es. classified_edges cfg = Some es \<and>
    mset (map edge_pair es) = mset (concat (map (out_edges cfg) [0..<length (blocks cfg)]))"
proof -
  obtain st fin where c: "classified_edges cfg = Some (edges st)" "between cfg st fin" "set fin = {..<length (blocks cfg)}"
    using classified_edges_spec[OF assms] by blast
  have "mset fin = mset [0..<length (blocks cfg)]"
    using c by (intro set_eq_iff_mset_eq_distinct[THEN iffD1]) (auto simp: between_def)
  with c show ?thesis by (auto simp: between_def mset_concat_map)
qed

text \<open>
  C30. On a graph whose block ids are their positions the classification succeeds and
  lists every edge in range exactly as often as the blocks have it.
\<close>

theorem edges_classified_once:
  assumes "ids_are_indices cfg"
  shows "\<exists>es. classified_edges cfg = Some es \<and>
    mset (map edge_pair es) = mset (concat (map (out_edges cfg) [0..<length (blocks cfg)]))"
  by (rule classified_once[OF assms])

text \<open>
  C17. What the kinds mean: the edges that are not back edges form no cycle, so every loop
  contains a back edge whatever the block layout; a back edge leads to a block from which
  its source is reached along tree edges, and a forward edge to one its source reaches
  along tree edges.
\<close>

theorem edge_kinds_sound:
  assumes "ids_are_indices cfg" "classified_edges cfg = Some es"
  shows "acyclic (edge_pair ` {e \<in> set es. edge_kind e \<noteq> Back}) \<and>
    (\<forall>e \<in> set es. edge_kind e = Back \<longrightarrow> (edge_to e, edge_from e) \<in> (tree_edges es)\<^sup>*) \<and>
    (\<forall>e \<in> set es. edge_kind e = Forward \<longrightarrow> (edge_from e, edge_to e) \<in> (tree_edges es)\<^sup>+)"
proof -
  obtain st fin where st: "es = edges st" "between cfg st fin"
    using classified_edges_spec[OF assms(1)] assms(2) by auto
  have "edge_pair ` {e \<in> set es. edge_kind e \<noteq> Back} \<subseteq> (measure (position fin))\<inverse>"
    using st after_position[of fin] by (auto simp: between_def edge_pair_def)
  then have "acyclic (edge_pair ` {e \<in> set es. edge_kind e \<noteq> Back})"
    by (rule acyclic_subset[rotated]) (simp add: wf_acyclic)
  with st show ?thesis by (simp add: between_def edge_ok_def)
qed

theorem edges_classified_once_witness:
  "ids_are_indices diamond \<and> (\<exists>es. classified_edges diamond = Some es \<and>
     mset (map edge_pair es) = mset [(0, 1), (0, 2), (1, 3), (2, 3), (3, 1), (3, 4), (5, 4)])"
proof -
  have h: "ids_are_indices diamond"
    "concat (map (out_edges diamond) [0..<length (blocks diamond)]) = [(0, 1), (0, 2), (1, 3), (2, 3), (3, 1), (3, 4), (5, 4)]"
    by code_simp+
  from edges_classified_once[OF h(1)] h show ?thesis by simp
qed

theorem edge_kinds_sound_witness:
  "\<exists>es. classified_edges diamond = Some es \<and>
     map edge_kind es = [Tree, Tree, Back, Tree, Tree, Cross, Cross] \<and>
     acyclic (edge_pair ` {e \<in> set es. edge_kind e \<noteq> Back})"
proof -
  have h: "ids_are_indices diamond" by code_simp
  have "map_option (map edge_kind) (classified_edges diamond) = Some [Tree, Tree, Back, Tree, Tree, Cross, Cross]"
    by code_simp
  then obtain es where es: "classified_edges diamond = Some es" "map edge_kind es = [Tree, Tree, Back, Tree, Tree, Cross, Cross]"
    by auto
  have "acyclic (edge_pair ` {e \<in> set es. edge_kind e \<noteq> Back})" using edge_kinds_sound[OF h es(1)] ..
  with es show ?thesis by (intro exI[of _ es]) simp
qed

end
