(* ===== verification/JumpTable.thy ===== *)
theory JumpTable
  imports Pcode "HOL-Library.Monad_Syntax"
begin

text \<open>
  Recovery of jump tables, \<^verbatim>\<open>rsleigh-decompile/src/jump_table.rs\<close>: backward tracing of the
  dispatch operations, the bounds check read off the disassembly text, the table entries
  and the image reader. The loaded image is a function argument, as in the source; the
  ranges of an image come from a third-party object parser and are an argument too. Text
  is ASCII. \<open>i64\<close> index values are integers; they stay far from the ends of their range.
\<close>

subsection \<open>Library operations\<close>

text \<open>\<open>Iterator::rposition\<close> and \<open>Iterator::find_map\<close>.\<close>

primrec rposition :: "('a \<Rightarrow> bool) \<Rightarrow> 'a list \<Rightarrow> nat option" where
  "rposition P [] = None"
| "rposition P (x # xs) = (case rposition P xs of
     Some i \<Rightarrow> Some (Suc i)
   | None \<Rightarrow> if P x then Some 0 else None)"

primrec find_map :: "('a \<Rightarrow> 'b option) \<Rightarrow> 'a list \<Rightarrow> 'b option" where
  "find_map f [] = None"
| "find_map f (x # xs) = (case f x of Some y \<Rightarrow> Some y | None \<Rightarrow> find_map f xs)"

definition is_space :: "char \<Rightarrow> bool" where
  "is_space c \<longleftrightarrow> of_char c = (32::nat) \<or> (9 \<le> (of_char c :: nat) \<and> (of_char c :: nat) \<le> 13)"

definition trim :: "string \<Rightarrow> string" where
  "trim s = rev (dropWhile is_space (rev (dropWhile is_space s)))"

definition ascii_upper :: "char \<Rightarrow> char" where
  "ascii_upper c = (if 97 \<le> (of_char c :: nat) \<and> (of_char c :: nat) \<le> 122 then char_of ((of_char c :: nat) - 32) else c)"

text \<open>The first word of a text, and what follows its last comma.\<close>

definition first_word :: "string \<Rightarrow> string" where
  "first_word s = takeWhile (\<lambda>c. \<not> is_space c) (dropWhile is_space s)"

definition after_last_comma :: "string \<Rightarrow> string" where
  "after_last_comma s = rev (takeWhile (\<lambda>c. c \<noteq> CHR '','') (rev s))"

definition digit_value :: "nat \<Rightarrow> char \<Rightarrow> nat option" where
  "digit_value radix c =
     (let n = of_char c;
          d = (if 48 \<le> n \<and> n \<le> 57 then n - 48
               else if 65 \<le> n \<and> n \<le> 90 then n - 55
               else if 97 \<le> n \<and> n \<le> 122 then n - 87
               else 99)
      in if d < radix then Some d else None)"

primrec digits_value :: "nat \<Rightarrow> string \<Rightarrow> int \<Rightarrow> int option" where
  "digits_value radix [] acc = Some acc"
| "digits_value radix (c # cs) acc = do {
     d \<leftarrow> digit_value radix c;
     let acc' = acc * int radix + int d;
     if acc' < 2 ^ 64 then digits_value radix cs acc' else None
   }"

text \<open>\<open>u64::from_str_radix\<close>, with \<open>str::parse\<close> its radix 10.\<close>

definition parse_u64 :: "nat \<Rightarrow> string \<Rightarrow> u64 option" where
  "parse_u64 radix s =
     (let ds = (case s of [] \<Rightarrow> [] | c # cs \<Rightarrow> if c = CHR ''+'' then cs else s)
      in if ds = [] then None else map_option word_of_int (digits_value radix ds 0))"

definition strip_prefix :: "string \<Rightarrow> string \<Rightarrow> string option" where
  "strip_prefix p s = (if take (length p) s = p then Some (drop (length p) s) else None)"

subsection \<open>Tables\<close>

record JumpTable =
  jump :: u64
  index :: Varnode
  copy_before :: "u64 option"
  targets :: "u64 list"
  first :: int

definition MAX_ENTRIES :: usize where
  "MAX_ENTRIES = 256"

definition MAX_GUARDED_ENTRIES :: usize where
  "MAX_GUARDED_ENTRIES = 4096"

definition WINDOW :: usize where
  "WINDOW = 512"

text \<open>An operation of the dispatch window with its instruction's address.\<close>

record WindowOp =
  wop :: PcodeOp
  address :: u64

datatype Entries = Relative u64 bool | Absolute nat

type_synonym memory_fn = "u64 \<Rightarrow> nat \<Rightarrow> u8 list option"

subsection \<open>Tracing\<close>

definition writes :: "PcodeOp \<Rightarrow> Varnode \<Rightarrow> bool" where
  "writes op vn = (case get_output op of
     Some out \<Rightarrow> space out = space vn \<and> offset out = offset vn
   | None \<Rightarrow> False)"

text \<open>The source's \<open>def\<close>.\<close>

definition def_before :: "WindowOp list \<Rightarrow> nat \<Rightarrow> Varnode \<Rightarrow> nat option" where
  "def_before window end vn = rposition (\<lambda>o'. writes (wop o') vn) (take end window)"

text \<open>The source's \<open>constant\<close>.\<close>

primrec constant_of :: "nat \<Rightarrow> WindowOp list \<Rightarrow> nat \<Rightarrow> Varnode \<Rightarrow> u64 option" where
  "constant_of 0 window end vn = (if space vn = Const then Some (offset vn) else None)"
| "constant_of (Suc depth) window end vn =
     (if space vn = Const then Some (offset vn)
      else do {
        d \<leftarrow> def_before window end vn;
        case wop (window ! d) of
          Copy out input \<Rightarrow> constant_of depth window d input
        | IntZext out input \<Rightarrow> constant_of depth window d input
        | IntSext out input \<Rightarrow> constant_of depth window d input
        | Subpiece out input lsb \<Rightarrow> if lsb = 0 then constant_of depth window d input else None
        | IntAdd out left right \<Rightarrow> do {
            l \<leftarrow> constant_of depth window d left;
            r \<leftarrow> constant_of depth window d right;
            Some (l + r)
          }
        | _ \<Rightarrow> None
      })"

primrec scaled :: "nat \<Rightarrow> WindowOp list \<Rightarrow> nat \<Rightarrow> Varnode \<Rightarrow> (Varnode \<times> nat \<times> u64) option" where
  "scaled 0 window end vn = None"
| "scaled (Suc depth) window end vn = do {
     d \<leftarrow> def_before window end vn;
     case wop (window ! d) of
       IntMult out left right \<Rightarrow> do {
         scale \<leftarrow> constant_of 4 window d right;
         Some (left, d, scale)
       }
     | IntLsl out left right \<Rightarrow> do {
         shift \<leftarrow> constant_of 4 window d right;
         if shift < 4 then Some (left, d, push_bit (unat shift) 1) else None
       }
     | Copy out input \<Rightarrow> scaled depth window d input
     | IntZext out input \<Rightarrow> scaled depth window d input
     | IntSext out input \<Rightarrow> scaled depth window d input
     | _ \<Rightarrow> None
   }"

primrec table_address :: "nat \<Rightarrow> WindowOp list \<Rightarrow> nat \<Rightarrow> Varnode \<Rightarrow> (u64 \<times> Varnode \<times> nat \<times> u64) option" where
  "table_address 0 window end vn = None"
| "table_address (Suc depth) window end vn = do {
     d \<leftarrow> def_before window end vn;
     case wop (window ! d) of
       IntAdd out left right \<Rightarrow>
         find_map (\<lambda>(base, off). do {
             table \<leftarrow> constant_of 6 window d base;
             case scaled 4 window d off of
               Some (idx, pos, scale) \<Rightarrow> Some (table, idx, pos, scale)
             | None \<Rightarrow> do {
                 (rest, idx, pos, scale) \<leftarrow> table_address depth window d off;
                 Some (table + rest, idx, pos, scale)
               }
           }) [(left, right), (right, left)]
     | Copy out input \<Rightarrow> table_address depth window d input
     | _ \<Rightarrow> None
   }"

text \<open>The load of a relative entry behind its extensions and copies.\<close>

primrec relative_entry :: "nat \<Rightarrow> WindowOp list \<Rightarrow> u64 \<Rightarrow> Varnode \<Rightarrow> nat \<Rightarrow> bool \<Rightarrow> (u64 \<times> Entries \<times> nat \<times> Varnode) option" where
  "relative_entry 0 window base ev eat sx = None"
| "relative_entry (Suc n) window base ev eat sx = do {
     ed \<leftarrow> def_before window eat ev;
     case wop (window ! ed) of
       IntSext out input \<Rightarrow> relative_entry n window base input ed sx
     | Copy out input \<Rightarrow> relative_entry n window base input ed sx
     | IntZext out input \<Rightarrow> relative_entry n window base input ed False
     | Load out sp ptr \<Rightarrow>
         if vsize out = 4 then do {
           (table, idx, pos, scale) \<leftarrow> table_address 4 window ed ptr;
           if scale = 4 then Some (table, Relative base sx, pos, idx) else None
         } else None
     | _ \<Rightarrow> None
   }"

primrec dispatch_loop :: "nat \<Rightarrow> WindowOp list \<Rightarrow> Varnode \<Rightarrow> nat \<Rightarrow> (u64 \<times> Entries \<times> nat \<times> Varnode) option" where
  "dispatch_loop 0 window vn at = None"
| "dispatch_loop (Suc n) window vn at = do {
     d \<leftarrow> def_before window at vn;
     case wop (window ! d) of
       Copy out input \<Rightarrow> dispatch_loop n window input d
     | Load out sp ptr \<Rightarrow> do {
         (table, idx, pos, scale) \<leftarrow> table_address 4 window d ptr;
         let width = (ucast (vsize out) :: u64);
         if scale = width \<and> (width = 4 \<or> width = 8)
         then Some (table, Absolute (unat width), pos, idx) else None
       }
     | IntAdd out left right \<Rightarrow>
         find_map (\<lambda>(base, entry). do {
             base' \<leftarrow> constant_of 6 window d base;
             relative_entry 6 window base' entry d True
           }) [(left, right), (right, left)]
     | _ \<Rightarrow> None
   }"

definition dispatch :: "WindowOp list \<Rightarrow> nat \<Rightarrow> Varnode \<Rightarrow> (u64 \<times> Entries \<times> nat \<times> Varnode) option" where
  "dispatch window end dest =
     (if space dest = Ram
      then do {
        (table, idx, pos, scale) \<leftarrow> table_address 4 window end (dest\<lparr>space := Unique\<rparr>);
        if scale = 4 \<or> scale = 8 then Some (table, Absolute (unat scale), pos, idx) else None
      }
      else dispatch_loop 8 window dest end)"

subsection \<open>The index\<close>

primrec stable_loop :: "nat \<Rightarrow> WindowOp list \<Rightarrow> nat \<Rightarrow> Varnode \<Rightarrow> Varnode option" where
  "stable_loop 0 window pos vn = None"
| "stable_loop (Suc n) window pos vn =
     (let overwritten = list_ex (\<lambda>o'. writes (wop o') vn) (drop pos window) in
      if \<not> overwritten \<and> space vn \<noteq> Const then Some vn
      else do {
        d \<leftarrow> def_before window pos vn;
        case wop (window ! d) of
          Copy out input \<Rightarrow> stable_loop n window d input
        | IntZext out input \<Rightarrow> stable_loop n window d input
        | Subpiece out input lsb \<Rightarrow> if lsb = 0 then stable_loop n window d input else None
        | _ \<Rightarrow> None
      })"

definition stable_index :: "WindowOp list \<Rightarrow> nat \<Rightarrow> Varnode \<Rightarrow> u64 \<Rightarrow> (Varnode \<times> u64 option) option" where
  "stable_index window start start_vn jmp = (case stable_loop 6 window start start_vn of
     Some vn \<Rightarrow> Some (vn, None)
   | None \<Rightarrow>
       (let at = address (window ! start);
            changed_first = list_ex (\<lambda>o'. address o' = at \<and> writes (wop o') start_vn) (take start window)
        in if space start_vn = Register \<and> at \<noteq> jmp \<and> \<not> changed_first
           then Some (start_vn, Some at) else None))"

primrec signed_floor_loop :: "nat \<Rightarrow> WindowOp list \<Rightarrow> nat \<Rightarrow> Varnode \<Rightarrow> int option" where
  "signed_floor_loop 0 window at vn = None"
| "signed_floor_loop (Suc n) window at vn = do {
     d \<leftarrow> def_before window at vn;
     case wop (window ! d) of
       Copy out input \<Rightarrow> signed_floor_loop n window d input
     | IntSext out input \<Rightarrow>
         if vsize input < vsize out \<and> vsize input \<le> 4
         then Some (sint (- shl64 1 (unat (vsize input * 8 - 1)))) else None
     | _ \<Rightarrow> None
   }"

definition signed_floor :: "WindowOp list \<Rightarrow> nat \<Rightarrow> Varnode \<Rightarrow> int option" where
  "signed_floor window pos vn = signed_floor_loop 6 window pos vn"

subsection \<open>The bounds check\<close>

definition is_ja :: "string \<Rightarrow> bool" where
  "is_ja mn \<longleftrightarrow> mn = ''JA'' \<or> mn = ''JNBE''"

definition is_jae :: "string \<Rightarrow> bool" where
  "is_jae mn \<longleftrightarrow> mn = ''JAE'' \<or> mn = ''JNB'' \<or> mn = ''JNC''"

definition compare_count :: "string \<Rightarrow> bool \<Rightarrow> nat option" where
  "compare_count txt inclusive = do {
     let imm = trim (after_last_comma txt);
     n \<leftarrow> (case strip_prefix ''0X'' imm of
            Some hex \<Rightarrow> parse_u64 16 hex
          | None \<Rightarrow> parse_u64 10 imm);
     let count = unat (if inclusive then n + 1 else n);
     if 1 \<le> count then Some count else None
   }"

text \<open>The instructions before the dispatch, nearest first.\<close>

primrec guard_loop :: "Instruction list \<Rightarrow> bool option \<Rightarrow> nat option" where
  "guard_loop [] inclusive = None"
| "guard_loop (inst # before) inclusive =
     (let txt = map ascii_upper (trim (disassembly inst)); mnemonic = first_word txt in
      case inclusive of
        None \<Rightarrow>
          if is_ja mnemonic then guard_loop before (Some True)
          else if is_jae mnemonic then guard_loop before (Some False)
          else guard_loop before None
      | Some incl \<Rightarrow>
          if mnemonic = ''CMP'' then compare_count txt incl
          else guard_loop before (Some incl))"

definition guard_count :: "(u64 \<times> Instruction) list \<Rightarrow> nat option" where
  "guard_count before = guard_loop (map snd (rev before)) None"

subsection \<open>Entries\<close>

definition raw_value :: "u8 list \<Rightarrow> u64" where
  "raw_value bytes = fold (\<lambda>b acc. push_bit 8 acc OR ucast b) (rev bytes) 0"

fun entry_width :: "Entries \<Rightarrow> nat" where
  "entry_width (Relative base sx) = 4"
| "entry_width (Absolute w) = w"

fun entry_target :: "Entries \<Rightarrow> u64 \<Rightarrow> u64" where
  "entry_target (Relative base True) raw = base + scast (ucast raw :: u32)"
| "entry_target (Relative base False) raw = base + ucast (ucast raw :: u32)"
| "entry_target (Absolute w) raw = raw"

definition entry_at :: "memory_fn \<Rightarrow> u64 list \<Rightarrow> u64 \<Rightarrow> Entries \<Rightarrow> int \<Rightarrow> u64 option" where
  "entry_at memory starts table entries k = do {
     bytes \<leftarrow> memory (table + word_of_int (k * int (entry_width entries))) (entry_width entries);
     let target = entry_target entries (raw_value bytes);
     if target \<in> set starts then Some target else None
   }"

text \<open>The loop over \<open>0..count\<close> with \<open>n\<close> rounds left, at entry \<open>k\<close>.\<close>

primrec read_targets :: "(int \<Rightarrow> u64 option) \<Rightarrow> bool \<Rightarrow> nat \<Rightarrow> int \<Rightarrow> u64 list \<Rightarrow> u64 list" where
  "read_targets entry guarded 0 k ts = ts"
| "read_targets entry guarded (Suc n) k ts = (case entry k of
     None \<Rightarrow> if guarded then [] else ts
   | Some target \<Rightarrow> read_targets entry guarded n (k + 1) (ts @ [target]))"

function read_below :: "(int \<Rightarrow> u64 option) \<Rightarrow> int \<Rightarrow> int \<Rightarrow> u64 list \<Rightarrow> int \<times> u64 list" where
  "read_below entry flr fst' ts =
     (if flr < fst' \<and> length ts < MAX_ENTRIES
      then (case entry (fst' - 1) of
              None \<Rightarrow> (fst', ts)
            | Some target \<Rightarrow> read_below entry flr (fst' - 1) (target # ts))
      else (fst', ts))"
  by pat_completeness auto
termination
  by (relation "measure (\<lambda>(entry, flr, fst', ts). MAX_ENTRIES - length ts)") auto

declare read_below.simps [simp del]

subsection \<open>Finding tables\<close>

primrec window_start :: "(u64 \<times> Instruction) list \<Rightarrow> nat \<Rightarrow> nat \<Rightarrow> nat" where
  "window_start srt i 0 = 0"
| "window_start srt i (Suc p) =
     (if i - Suc p < WINDOW \<and> fst (srt ! p) + inst_len (snd (srt ! p)) = fst (srt ! Suc p)
      then window_start srt i p else Suc p)"

definition window_ops :: "(u64 \<times> Instruction) list \<Rightarrow> WindowOp list" where
  "window_ops insts = concat (map (\<lambda>(a, inst). map (\<lambda>op. \<lparr>wop = op, address = a\<rparr>) (inst_ops inst)) insts)"

definition jump_dest :: "Instruction \<Rightarrow> Varnode option" where
  "jump_dest inst = (if inst_ops inst = [] then None
     else case last (inst_ops inst) of BranchInd dest \<Rightarrow> Some dest | _ \<Rightarrow> None)"

definition table_bound :: "(u64 \<times> Instruction) list \<Rightarrow> nat \<Rightarrow> nat option" where
  "table_bound srt i = (case guard_count (drop (i - 16) (take i srt)) of
     Some count \<Rightarrow> if count \<le> MAX_GUARDED_ENTRIES then Some count else None
   | None \<Rightarrow> None)"

definition read_table :: "(int \<Rightarrow> u64 option) \<Rightarrow> nat option \<Rightarrow> int option \<Rightarrow> (int \<times> u64 list) option" where
  "read_table entry bound flr =
     (let ts = read_targets entry (bound \<noteq> None) (case bound of Some n \<Rightarrow> n | None \<Rightarrow> MAX_ENTRIES) 0 [] in
      if ts = [] then None
      else Some (case (bound, flr) of
                   (None, Some fl) \<Rightarrow> read_below entry fl 0 ts
                 | _ \<Rightarrow> (0, ts)))"

definition find_at :: "(u64 \<times> Instruction) list \<Rightarrow> memory_fn \<Rightarrow> nat \<Rightarrow> JumpTable option" where
  "find_at srt memory i = do {
     let (addr, inst) = srt ! i;
     dest \<leftarrow> jump_dest inst;
     let window = window_ops (drop (window_start srt i i) (take (Suc i) srt));
     (table, entries, index_pos, idx) \<leftarrow> dispatch window (length window - 1) dest;
     let flr = signed_floor window index_pos idx;
     (idx', copy) \<leftarrow> stable_index window index_pos idx addr;
     (fst', ts) \<leftarrow> read_table (entry_at memory (map fst srt) table entries) (table_bound srt i) flr;
     Some \<lparr>jump = addr, index = idx', copy_before = copy, targets = ts, first = fst'\<rparr>
   }"

text \<open>The source's \<open>find\<close>.\<close>

definition find_tables :: "(u64 \<times> Instruction) list \<Rightarrow> memory_fn \<Rightarrow> JumpTable list" where
  "find_tables instructions memory =
     (let srt = sort_key fst instructions
      in List.map_filter (find_at srt memory) [0..<length srt])"

subsection \<open>The loaded image\<close>

record ImageMemory =
  data :: "u8 list"
  ranges :: "(u64 \<times> u64 \<times> u64) list"

definition image_read :: "ImageMemory \<Rightarrow> memory_fn" where
  "image_read self va len = do {
     (start, size, off) \<leftarrow> find (\<lambda>(start, size, off). start \<le> va \<and> va + of_nat len \<le> start + size) (ranges self);
     let from = unat (off + (va - start));
     if from + len \<le> length (data self) then Some (take len (drop from (data self))) else None
   }"

end
