(* ===== verification/JumpTableProps.thy ===== *)
theory JumpTableProps
  imports JumpTable
begin

text \<open>What a recovered jump table guarantees to the graph builder.\<close>




















end
