(* ===== verification/CfgResolve.thy ===== *)
theory CfgResolve
  imports Ir JumpTable
begin

text \<open>
  The operation-level helpers of the graph builder, \<^verbatim>\<open>rsleigh-decompile/src/cfg.rs\<close>: case
  tests of recovered switches, user-operation calls, recognition of computed jumps and
  tail calls, removal of the stack operations around calls and returns, and resolution of
  indirect call targets. \<open>i64\<close> sums are sums of words: the release profile wraps.
\<close>

type_synonym addr_ops = "(u64 \<times> PcodeOp) list"
type_synonym synth = "u64 \<times> addr_ops \<times> Terminator"

subsection \<open>Switch dispatch\<close>

definition switch_temp :: "u64 \<Rightarrow> nat \<Rightarrow> u32 \<Rightarrow> Varnode" where
  "switch_temp at k sz = \<lparr>space = Unique, offset = push_bit 61 3 OR push_bit 16 at OR of_nat k, vsize = sz\<rparr>"

definition copy_aside :: "addr_ops \<Rightarrow> u64 \<Rightarrow> u64 \<Rightarrow> Varnode \<Rightarrow> Varnode \<times> addr_ops" where
  "copy_aside ops jmp before idx =
     (let out = switch_temp jmp 0xFFFF (vsize idx);
          at = length (takeWhile (\<lambda>(a, op). a \<noteq> before) ops);
          at = (if at = length ops then 0 else at)
      in (out, vec_insert at (jmp, Copy out idx) ops))"

text \<open>The test of case \<open>k\<close>: its condition and the comparison that computes it.\<close>

definition case_test :: "u64 \<Rightarrow> Varnode \<Rightarrow> int \<Rightarrow> nat \<Rightarrow> Varnode \<times> (u64 \<times> PcodeOp)" where
  "case_test at idx fst' k =
     (let cond = switch_temp at k 1
      in (cond, (at, IntEq cond idx
            (constant_vn (word_of_int (fst' + int k) AND shr64 (- 1) (64 - 8 * unat (min (vsize idx) 8))) (vsize idx)))))"

text \<open>The synthetic blocks for the tested cases from \<open>k\<close> on.\<close>

primrec chain_blocks :: "nat \<Rightarrow> u64 \<Rightarrow> Varnode \<Rightarrow> int \<Rightarrow> nat \<Rightarrow> BlockId \<Rightarrow> nat \<Rightarrow> BlockId list \<Rightarrow> synth list \<Rightarrow> synth list" where
  "chain_blocks first_synthetic at idx fst' tested_len last_case k [] synths = synths"
| "chain_blocks first_synthetic at idx fst' tested_len last_case k (c # cs) synths =
     (let (cond, op) = case_test at idx fst' k;
          fallthrough = (if k + 1 = tested_len then last_case else first_synthetic + length synths + 1)
      in chain_blocks first_synthetic at idx fst' tested_len last_case (k + 1) cs
           (synths @ [(at, [op], TCBranch cond c fallthrough)]))"

definition switch_chain ::
  "addr_ops \<Rightarrow> synth list \<Rightarrow> nat \<Rightarrow> u64 \<Rightarrow> Varnode \<Rightarrow> int \<Rightarrow> BlockId list \<Rightarrow> Terminator \<times> addr_ops \<times> synth list" where
  "switch_chain ops synths first_synthetic at idx fst' cases =
     (if cases = [] then (TIndirect idx, ops, synths)
      else let last_case = last cases; tested = butlast cases in
        if tested = [] then (TBranch last_case, ops, synths)
        else let (cond, op) = case_test at idx fst' 0;
                 fallthrough = (if length tested = 1 then last_case else first_synthetic + length synths)
             in (TCBranch cond (hd tested) fallthrough, ops @ [op],
                 chain_blocks first_synthetic at idx fst' (length tested) last_case 1 (tl tested) synths))"

subsection \<open>User operations\<close>

primrec user_op_scan :: "addr_ops \<Rightarrow> nat \<Rightarrow> Varnode \<Rightarrow> nat option" where
  "user_op_scan ops 0 want = None"
| "user_op_scan ops (Suc at) want = (case snd (ops ! at) of
     Copy out input \<Rightarrow> if out = want then user_op_scan ops at input else user_op_scan ops at want
   | CallOther out func_id inputs \<Rightarrow> if out = Some want then Some at else user_op_scan ops at want
   | op \<Rightarrow> if get_output op = Some want then None else user_op_scan ops at want)"

definition user_op_call_target :: "addr_ops \<Rightarrow> Varnode \<Rightarrow> nat option" where
  "user_op_call_target ops dest =
     (if space dest \<noteq> Unique \<or> ops = [] then None else user_op_scan ops (length ops - 1) dest)"

definition X86_SWI :: u64 where
  "X86_SWI = 16"

definition copied_constant :: "addr_ops \<Rightarrow> Varnode \<Rightarrow> u64 option" where
  "copied_constant ops vn =
     (if space vn = Const then Some (offset vn)
      else find_map (\<lambda>(a, op). case op of
             Copy out input \<Rightarrow> if out = vn \<and> space input = Const then Some (offset input) else None
           | _ \<Rightarrow> None) (rev ops))"

definition make_user_op_statement :: "addr_ops \<Rightarrow> nat \<Rightarrow> u32 \<Rightarrow> addr_ops" where
  "make_user_op_statement ops at pointer_size = (case snd (ops ! at) of
     CallOther out func_id inputs \<Rightarrow>
       (let fastfail = (func_id = X86_SWI \<and> inputs \<noteq> [] \<and> copied_constant (take at ops) (hd inputs) = Some 0x29);
            inputs' = (if fastfail then inputs @ [register (if pointer_size = 8 then 8 else 4) 4] else inputs)
        in ops[at := (fst (ops ! at), CallOther None func_id inputs')])
   | _ \<Rightarrow> ops)"

subsection \<open>Computed jumps and tail calls\<close>

definition producer :: "addr_ops \<Rightarrow> nat \<Rightarrow> Varnode \<Rightarrow> nat option" where
  "producer ops end vn = rposition (\<lambda>(a, op). writes op vn) (take end ops)"

text \<open>The first argument is what is left of the source's depth bound.\<close>

primrec constant_derived :: "nat \<Rightarrow> addr_ops \<Rightarrow> nat \<Rightarrow> Varnode \<Rightarrow> bool" where
  "constant_derived 0 ops end vn = (space vn = Const)"
| "constant_derived (Suc n) ops end vn =
     (space vn = Const \<or>
      (case producer ops end vn of
         None \<Rightarrow> False
       | Some d \<Rightarrow> (case snd (ops ! d) of
           Copy out input \<Rightarrow> constant_derived n ops d input
         | IntSext out input \<Rightarrow> constant_derived n ops d input
         | IntZext out input \<Rightarrow> constant_derived n ops d input
         | Subpiece out input lsb \<Rightarrow> constant_derived n ops d input
         | _ \<Rightarrow> False)))"

datatype index_shape = IsIndex | NoIndex | FromInputs "Varnode list"

definition index_inputs :: "addr_ops \<Rightarrow> nat \<Rightarrow> index_shape" where
  "index_inputs ops d = (case snd (ops ! d) of
     IntMult out left right \<Rightarrow> IsIndex
   | IntLsl out left right \<Rightarrow> IsIndex
   | IntAdd out left right \<Rightarrow>
       if \<not> constant_derived 5 ops d left \<and> \<not> constant_derived 5 ops d right then IsIndex
       else FromInputs [left, right]
   | Copy out input \<Rightarrow> FromInputs [input]
   | IntSext out input \<Rightarrow> FromInputs [input]
   | IntZext out input \<Rightarrow> FromInputs [input]
   | Load out sp ptr \<Rightarrow> FromInputs [ptr]
   | _ \<Rightarrow> NoIndex)"

primrec computes_index :: "nat \<Rightarrow> addr_ops \<Rightarrow> nat \<Rightarrow> bool" where
  "computes_index 0 ops d = False"
| "computes_index (Suc n) ops d = (case index_inputs ops d of
     IsIndex \<Rightarrow> True
   | NoIndex \<Rightarrow> False
   | FromInputs inputs \<Rightarrow>
       list_ex (\<lambda>vn. case producer ops d vn of Some d' \<Rightarrow> computes_index n ops d' | None \<Rightarrow> False) inputs)"

primrec jump_through :: "nat \<Rightarrow> addr_ops \<Rightarrow> Varnode \<Rightarrow> Varnode \<Rightarrow> nat \<Rightarrow> CallTarget option" where
  "jump_through 0 ops dest vn end = None"
| "jump_through (Suc n) ops dest vn end = (case producer ops end vn of
     None \<Rightarrow> Some (IndirectTarget dest)
   | Some d \<Rightarrow>
       (let follow = (\<lambda>input. if space input = Const then Some (Direct (offset input)) else jump_through n ops dest input d)
        in case snd (ops ! d) of
             Copy out input \<Rightarrow> follow input
           | IntZext out input \<Rightarrow> follow input
           | IntSext out input \<Rightarrow> follow input
           | Load out sp ptr \<Rightarrow>
               if space ptr = Const then Some (Direct (offset ptr))
               else if \<not> computes_index 7 ops d then Some (IndirectTarget dest)
               else None
           | _ \<Rightarrow> None))"

definition indirect_jump_tail_target :: "addr_ops \<Rightarrow> Varnode \<Rightarrow> u64 \<Rightarrow> CallTarget option \<times> addr_ops" where
  "indirect_jump_tail_target ops dest at =
     (if space dest = Ram
      then let addr = dest\<lparr>space := Unique\<rparr> in
           case producer ops (length ops) addr of
             None \<Rightarrow> (Some (Direct (offset dest)), ops)
           | Some d \<Rightarrow>
               if computes_index 7 ops d then (None, ops)
               else let pointer = \<lparr>space = Unique, offset = offset dest OR push_bit 62 1, vsize = vsize dest\<rparr>
                    in (Some (IndirectTarget pointer), ops @ [(at, Load pointer Ram addr)])
      else (jump_through 8 ops dest dest (length ops), ops))"

subsection \<open>Stack operations of calls and returns\<close>

definition is_esp :: "Varnode \<Rightarrow> bool" where
  "is_esp vn \<longleftrightarrow> space vn = Register \<and> offset vn = 16 \<and> vsize vn = 4"

definition pop_if :: "(PcodeOp \<Rightarrow> bool) \<Rightarrow> addr_ops \<Rightarrow> addr_ops" where
  "pop_if P ops = (if ops \<noteq> [] \<and> P (snd (last ops)) then butlast ops else ops)"

definition is_push_store :: "PcodeOp \<Rightarrow> bool" where
  "is_push_store op = (case op of Store sp ptr val \<Rightarrow> is_esp ptr \<or> space ptr = Unique | _ \<Rightarrow> False)"

definition is_esp_sub :: "PcodeOp \<Rightarrow> bool" where
  "is_esp_sub op = (case op of IntSub out left right \<Rightarrow> is_esp out | _ \<Rightarrow> False)"

definition is_subpiece :: "PcodeOp \<Rightarrow> bool" where
  "is_subpiece op = (case op of Subpiece out input lsb \<Rightarrow> True | _ \<Rightarrow> False)"

definition is_esp_add :: "PcodeOp \<Rightarrow> bool" where
  "is_esp_add op = (case op of IntAdd out left right \<Rightarrow> is_esp out | _ \<Rightarrow> False)"

definition is_eip_load :: "PcodeOp \<Rightarrow> bool" where
  "is_eip_load op = (case op of Load out sp ptr \<Rightarrow> space out = Register \<and> offset out = 256 | _ \<Rightarrow> False)"

definition strip_call_push_ops :: "addr_ops \<Rightarrow> addr_ops" where
  "strip_call_push_ops ops = pop_if is_subpiece (pop_if is_esp_sub (pop_if is_push_store ops))"

definition strip_return_pop_ops :: "addr_ops \<Rightarrow> addr_ops" where
  "strip_return_pop_ops ops = pop_if is_eip_load (pop_if is_esp_add ops)"

subsection \<open>Register values\<close>

text \<open>Two varnodes with the same space and offset, whatever their sizes.\<close>

definition same_place :: "Varnode \<Rightarrow> Varnode \<Rightarrow> bool" where
  "same_place a b \<longleftrightarrow> space a = space b \<and> offset a = offset b"

primrec trace_simple :: "addr_ops \<Rightarrow> Varnode \<Rightarrow> nat \<Rightarrow> u64 option" where
  "trace_simple ops reg 0 = None"
| "trace_simple ops reg (Suc i) = (case snd (ops ! i) of
     Copy out input \<Rightarrow>
       if same_place out reg \<and> space input = Const then Some (offset input) else trace_simple ops reg i
   | IntAdd out left right \<Rightarrow>
       if same_place out reg \<and> same_place left reg \<and> space right = Const
       then (case trace_simple ops reg i of
               Some prev \<Rightarrow> Some (prev + offset right)
             | None \<Rightarrow> trace_simple ops reg i)
       else trace_simple ops reg i
   | _ \<Rightarrow> trace_simple ops reg i)"

definition trace_register_value_simple :: "addr_ops \<Rightarrow> Varnode \<Rightarrow> u64 option" where
  "trace_register_value_simple ops reg = trace_simple ops reg (length ops)"

text \<open>The constant a shift gave the last writer of a temporary.\<close>

definition shifted_constant :: "addr_ops \<Rightarrow> Varnode \<Rightarrow> u64 option" where
  "shifted_constant ops input = (case find (\<lambda>(a, op). writes op input) (rev ops) of
     None \<Rightarrow> None
   | Some (a, op) \<Rightarrow> (case op of
       IntLsl out left right \<Rightarrow>
         if space left = Const \<and> space right = Const then Some (shl64 (offset left) (unat (offset right))) else None
     | _ \<Rightarrow> None))"

definition clear_if_written :: "PcodeOp \<Rightarrow> Varnode \<Rightarrow> u64 option \<Rightarrow> u64 option" where
  "clear_if_written op reg val = (if writes op reg then None else val)"

text \<open>GP of MIPS, whose restores keep the tracked value.\<close>

definition is_gp :: "Varnode \<Rightarrow> bool" where
  "is_gp reg \<longleftrightarrow> offset reg = 112"

definition trace_op :: "addr_ops \<Rightarrow> Varnode \<Rightarrow> u64 \<Rightarrow> PcodeOp \<Rightarrow> u64 option \<Rightarrow> u64 option" where
  "trace_op ops reg func_addr op val = (case op of
     Copy out input \<Rightarrow>
       if same_place out reg \<and> space input = Const then Some (offset input)
       else if same_place out reg \<and> is_gp reg then val
       else clear_if_written op reg val
   | IntAdd out left right \<Rightarrow>
       if same_place out reg \<and> same_place left reg \<and> space right = Const
       then map_option (\<lambda>prev. prev + offset right) val
       else if same_place out reg \<and> same_place left reg \<and> space right = Register
       then map_option (\<lambda>prev. prev + func_addr) val
       else if same_place out reg \<and> same_place right reg \<and> space left = Register
       then map_option (\<lambda>prev. prev + func_addr) val
       else if same_place out reg \<and> space right = Const
       then (if space left = Register
             then (case trace_register_value_simple ops left of
                     Some lv \<Rightarrow> Some (lv + offset right)
                   | None \<Rightarrow> val)
             else val)
       else clear_if_written op reg val
   | IntSext out input \<Rightarrow>
       if same_place out reg
       then (if space input = Unique
             then (case shifted_constant ops input of Some v \<Rightarrow> Some v | None \<Rightarrow> val)
             else val)
       else clear_if_written op reg val
   | Load out sp ptr \<Rightarrow>
       if same_place out reg \<and> is_gp reg then val else clear_if_written op reg val
   | _ \<Rightarrow> clear_if_written op reg val)"

definition trace_register_value :: "addr_ops \<Rightarrow> Varnode \<Rightarrow> u64 \<Rightarrow> u64 option" where
  "trace_register_value ops reg func_addr =
     fold (\<lambda>(a, op) val. trace_op ops reg func_addr op val) ops None"

subsection \<open>Indirect call targets\<close>

definition gp_address :: "addr_ops \<Rightarrow> u64 \<Rightarrow> Varnode \<Rightarrow> u64 \<Rightarrow> u64 option" where
  "gp_address all_ops func_addr reg off =
     (if space reg = Register
      then map_option (\<lambda>gp_val.
             if 0x7FFFFFFF < sint off then gp_val + (off OR 0xFFFFFFFF00000000) else gp_val + off)
           (trace_register_value all_ops reg func_addr)
      else None)"

definition resolve_gp_relative_addr :: "addr_ops \<Rightarrow> Varnode \<Rightarrow> u64 \<Rightarrow> addr_ops \<Rightarrow> u64 option" where
  "resolve_gp_relative_addr ops ptr func_addr all_ops =
     (case find (\<lambda>(a, op). case op of IntAdd out left right \<Rightarrow> out = ptr | _ \<Rightarrow> False) (rev ops) of
        None \<Rightarrow> None
      | Some (a, op) \<Rightarrow> (case op of
          IntAdd out left right \<Rightarrow>
            if space right = Const then gp_address all_ops func_addr left (offset right)
            else if space left = Const then gp_address all_ops func_addr right (offset left)
            else None
        | _ \<Rightarrow> None))"

text \<open>One producer of the traced varnode: the answer, or what to trace next.\<close>

datatype trace_step = Resolved CallTarget | Chase Varnode u64

definition trace_producer :: "(Varnode \<Rightarrow> u64 option) \<Rightarrow> Varnode \<Rightarrow> PcodeOp \<Rightarrow> u64 \<Rightarrow> trace_step" where
  "trace_producer load_addr dest op adjustment = (case op of
     Load out sp ptr \<Rightarrow>
       if space ptr = Const then Resolved (Direct (offset ptr + adjustment))
       else (case load_addr ptr of
               Some got_addr \<Rightarrow> Resolved (Direct (got_addr + adjustment))
             | None \<Rightarrow> Resolved (IndirectTarget dest))
   | IntAnd out left right \<Rightarrow> Chase (if space right = Const then left else right) adjustment
   | IntAdd out left right \<Rightarrow>
       if space right = Const then Chase left (adjustment + offset right)
       else if space left = Const then Chase right (adjustment + offset left)
       else Resolved (IndirectTarget dest)
   | IntSext out input \<Rightarrow> Chase input adjustment
   | IntZext out input \<Rightarrow> Chase input adjustment
   | Copy out input \<Rightarrow>
       if space input = Const then Resolved (Direct (offset input + adjustment)) else Chase input adjustment
   | _ \<Rightarrow> Resolved (IndirectTarget dest))"

definition is_call_op :: "PcodeOp \<Rightarrow> bool" where
  "is_call_op op = (case op of Call d \<Rightarrow> True | CallInd d \<Rightarrow> True | _ \<Rightarrow> False)"

primrec all_ops_loop :: "nat \<Rightarrow> addr_ops \<Rightarrow> Varnode \<Rightarrow> Varnode \<Rightarrow> u64 \<Rightarrow> CallTarget" where
  "all_ops_loop 0 before dest target_vn adjustment = IndirectTarget dest"
| "all_ops_loop (Suc n) before dest target_vn adjustment =
     (case find (\<lambda>(a, op). is_call_op op \<or> writes op target_vn) (rev before) of
        None \<Rightarrow> IndirectTarget dest
      | Some (a, op) \<Rightarrow>
          if is_call_op op then IndirectTarget dest
          else (case trace_producer (\<lambda>ptr. None) dest op adjustment of
                  Resolved t \<Rightarrow> t
                | Chase vn adj \<Rightarrow> all_ops_loop n before dest vn adj))"

definition resolve_callind_via_all_ops :: "addr_ops \<Rightarrow> Varnode \<Rightarrow> Varnode \<Rightarrow> u64 \<Rightarrow> CallTarget" where
  "resolve_callind_via_all_ops all_ops dest initial_target initial_adjustment =
     (case rposition (\<lambda>(a, op). op = CallInd dest) all_ops of
        None \<Rightarrow> IndirectTarget dest
      | Some call_idx \<Rightarrow> all_ops_loop 8 (take call_idx all_ops) dest initial_target initial_adjustment)"

primrec resolve_loop :: "nat \<Rightarrow> addr_ops \<Rightarrow> Varnode \<Rightarrow> u64 \<Rightarrow> addr_ops \<Rightarrow> Varnode \<Rightarrow> u64 \<Rightarrow> CallTarget" where
  "resolve_loop 0 ops dest func_addr all_ops target_vn adjustment = IndirectTarget dest"
| "resolve_loop (Suc n) ops dest func_addr all_ops target_vn adjustment =
     (case find (\<lambda>(a, op). writes op target_vn) (rev ops) of
        None \<Rightarrow> resolve_callind_via_all_ops all_ops dest target_vn adjustment
      | Some (a, op) \<Rightarrow>
          (case trace_producer
                  (\<lambda>ptr. if space ptr = Unique then resolve_gp_relative_addr ops ptr func_addr all_ops else None)
                  dest op adjustment of
             Resolved t \<Rightarrow> t
           | Chase vn adj \<Rightarrow> resolve_loop n ops dest func_addr all_ops vn adj))"

definition resolve_callind_target :: "addr_ops \<Rightarrow> Varnode \<Rightarrow> u64 \<Rightarrow> addr_ops \<Rightarrow> CallTarget" where
  "resolve_callind_target ops dest func_addr all_ops = resolve_loop 8 ops dest func_addr all_ops dest 0"

end
