(* ===== verification/CfgBuild.thy ===== *)
theory CfgBuild
  imports CfgResolve CfgGraph "HOL-Library.Product_Lexorder"
begin

text \<open>
  Construction of the control flow graph, \<open>build_cfg_with_memory\<close> of
  \<^verbatim>\<open>rsleigh-decompile/src/cfg.rs\<close>: block leaders, block ids, the terminator of each block
  with its diagnostics, and the synthetic blocks of tail calls and recovered switches.
  What the source keeps in local variables and closures is the record \<open>build_ctx\<close>; the
  synthetic blocks and diagnostics it appends to are the record \<open>build_state\<close>. Address
  sums wrap, as in the release profile.
\<close>

subsection \<open>Diagnostic text\<close>

definition digit_char :: "int \<Rightarrow> char" where
  "digit_char n = char_of (nat (if n < 10 then 48 + n else 87 + n))"

function radix_digits :: "int \<Rightarrow> int \<Rightarrow> string" where
  "radix_digits r n =
     (if r < 2 \<or> n < r then [digit_char n] else radix_digits r (n div r) @ [digit_char (n mod r)])"
  by pat_completeness auto
termination
proof (relation "measure (\<lambda>(r, n). nat n)")
  fix r n :: int
  assume "\<not> (r < 2 \<or> n < r)"
  then have "n div r < n" "0 < n" by (simp_all add: int_div_less_self)
  then show "((r, n div r), r, n) \<in> measure (\<lambda>(r, n). nat n)" by simp
qed simp

declare radix_digits.simps [simp del]

definition format_hex :: "u64 \<Rightarrow> string" where
  "format_hex w = ''0x'' @ radix_digits 16 (uint w)"

primrec debug_space :: "AddressSpaceId \<Rightarrow> string" where
  "debug_space Register = ''Register''"
| "debug_space Ram = ''Ram''"
| "debug_space Unique = ''Unique''"
| "debug_space Const = ''Const''"

definition debug_varnode :: "Varnode \<Rightarrow> string" where
  "debug_varnode vn = ''Varnode { space: '' @ debug_space (space vn) @ '', offset: '' @
     radix_digits 10 (uint (offset vn)) @ '', size: '' @ radix_digits 10 (uint (vsize vn)) @ '' }''"

primrec debug_target :: "CallTarget \<Rightarrow> string" where
  "debug_target (Direct a) = ''Direct('' @ radix_digits 10 (uint a) @ '')''"
| "debug_target (IndirectTarget vn) = ''Indirect('' @ debug_varnode vn @ '')''"

definition diagnostic :: "Severity \<Rightarrow> DiagKind \<Rightarrow> u64 \<Rightarrow> string \<Rightarrow> Diagnostic" where
  "diagnostic sev k at txt = \<lparr>severity = sev, diag_kind = k, diag_addr = Some at, detail = txt\<rparr>"

subsection \<open>Leaders\<close>

definition op_leaders :: "u64 \<Rightarrow> PcodeOp \<Rightarrow> u64 list" where
  "op_leaders next_addr op = (case op of
     Branch dest \<Rightarrow> if space dest = Ram then [offset dest, next_addr] else [next_addr]
   | CBranch dest cond \<Rightarrow> if space dest = Ram then [offset dest, next_addr] else []
   | BranchInd dest \<Rightarrow> [next_addr]
   | Call dest \<Rightarrow> [next_addr]
   | CallInd dest \<Rightarrow> [next_addr]
   | Return dest \<Rightarrow> [next_addr]
   | _ \<Rightarrow> [])"

definition inst_leaders :: "u64 \<times> Instruction \<Rightarrow> u64 list" where
  "inst_leaders ai = concat (map (op_leaders (fst ai + inst_len (snd ai))) (inst_ops (snd ai)))"

text \<open>The tables by jump address; a later one for the same jump replaces an earlier one.\<close>

definition table_for :: "JumpTable list \<Rightarrow> u64 \<Rightarrow> JumpTable option" where
  "table_for tbs at = map_of (rev (map (\<lambda>t. (jump t, t)) tbs)) at"

definition table_targets :: "JumpTable list \<Rightarrow> u64 list" where
  "table_targets tbs = concat (map targets (List.map_filter (table_for tbs) (map jump tbs)))"

definition collect_leaders :: "(u64 \<times> Instruction) list \<Rightarrow> JumpTable list \<Rightarrow> u64 list" where
  "collect_leaders instructions tbs =
     (let raw = fst (hd instructions) # concat (map inst_leaders instructions) @ table_targets tbs
      in filter (\<lambda>a. a \<in> set (map fst instructions)) (remdups_adj (sort raw)))"

definition block_order :: "u64 \<Rightarrow> u64 list \<Rightarrow> u64 list" where
  "block_order entry_addr ls = entry_addr # filter (\<lambda>a. a \<noteq> entry_addr) ls"

record build_ctx =
  insts :: "(u64 \<times> Instruction) list"
  leaders :: "u64 list"
  order :: "u64 list"
  tables :: "JumpTable list"

definition make_ctx :: "(u64 \<times> Instruction) list \<Rightarrow> memory_fn \<Rightarrow> build_ctx" where
  "make_ctx instructions mem =
     (let tbs = find_tables instructions mem;
          ls = collect_leaders instructions tbs
      in \<lparr>insts = instructions, leaders = ls, order = block_order (fst (hd instructions)) ls, tables = tbs\<rparr>)"

definition leader_to_block :: "build_ctx \<Rightarrow> u64 \<Rightarrow> BlockId option" where
  "leader_to_block ctx = map_of (zip (order ctx) [0..<length (order ctx)])"

text \<open>\<open>partition_point\<close> on a list whose matching elements come first.\<close>

definition partition_point :: "('a \<Rightarrow> bool) \<Rightarrow> 'a list \<Rightarrow> nat" where
  "partition_point P xs = length (takeWhile P xs)"

definition is_covered :: "build_ctx \<Rightarrow> u64 \<Rightarrow> bool" where
  "is_covered ctx target =
     (let covered = sort (map (\<lambda>(a, i). (a, a + inst_len i)) (insts ctx));
          i = partition_point (\<lambda>(start, stop). start \<le> target) covered
      in 0 < i \<and> target < snd (covered ! (i - 1)))"

definition func_end :: "build_ctx \<Rightarrow> u64" where
  "func_end ctx = fold max (map (\<lambda>(a, i). a + inst_len i) (insts ctx)) 0"

subsection \<open>Synthetic blocks\<close>

record build_state =
  synthetics :: "synth list"
  diags :: "Diagnostic list"

definition push_diag :: "Diagnostic \<Rightarrow> build_state \<Rightarrow> build_state" where
  "push_diag d st = st\<lparr>diags := diags st @ [d]\<rparr>"

definition push_synth :: "synth \<Rightarrow> build_state \<Rightarrow> build_state" where
  "push_synth s st = st\<lparr>synthetics := synthetics st @ [s]\<rparr>"

definition next_synth :: "build_ctx \<Rightarrow> build_state \<Rightarrow> BlockId" where
  "next_synth ctx st = length (order ctx) + length (synthetics st)"

definition tail_call :: "build_ctx \<Rightarrow> u64 \<Rightarrow> CallTarget \<Rightarrow> build_state \<Rightarrow> Terminator \<times> build_state" where
  "tail_call ctx at target st = (TCall target (next_synth ctx st), push_synth (at, [], TReturn) st)"

text \<open>The block after a call, or a dead end when nothing was decoded there.\<close>

definition call_fallthrough :: "build_ctx \<Rightarrow> u64 \<Rightarrow> u64 \<Rightarrow> build_state \<Rightarrow> BlockId \<times> build_state" where
  "call_fallthrough ctx last_inst_addr next_inst_addr st = (case leader_to_block ctx next_inst_addr of
     Some b \<Rightarrow> (b, st)
   | None \<Rightarrow> (next_synth ctx st, push_synth (last_inst_addr, [], TIndirect (constant_vn 0 8)) st))"

subsection \<open>Terminators\<close>

type_synonym terminated = "Terminator \<times> addr_ops \<times> build_state"

definition term_branch :: "build_ctx \<Rightarrow> u64 \<Rightarrow> Varnode \<Rightarrow> addr_ops \<Rightarrow> build_state \<Rightarrow> terminated" where
  "term_branch ctx at dest ops st =
     (let target = offset dest in
      case leader_to_block ctx target of
        Some b \<Rightarrow> (TBranch b, ops, st)
      | None \<Rightarrow>
          if \<not> is_covered ctx target
          then let st = push_diag (diagnostic Info TailCall at
                          (''Branch to '' @ format_hex target @ '' leaves the body; tail call'')) st;
                   (t, st) = tail_call ctx at (Direct target) st
               in (t, ops, st)
          else (TIndirect dest, ops, push_diag (diagnostic Warn UnresolvedBranchTarget at
                  (''Branch target '' @ format_hex target @ '' not in instruction set'')) st))"

definition cond_tail_call :: "build_ctx \<Rightarrow> u64 \<Rightarrow> u64 \<Rightarrow> Varnode \<Rightarrow> BlockId \<Rightarrow> build_state \<Rightarrow> Terminator \<times> build_state" where
  "cond_tail_call ctx at target cond fallthrough st =
     (let st = push_diag (diagnostic Info TailCall at
                 (''CBranch to '' @ format_hex target @ '' leaves the body; conditional tail call'')) st;
          taken = next_synth ctx st;
          st = push_synth (at, [], TReturn) st;
          (call, st) = tail_call ctx at (Direct target) st;
          i = taken - length (order ctx)
      in (TCBranch cond taken fallthrough, st\<lparr>synthetics := (synthetics st)[i := (at, [], call)]\<rparr>))"

definition term_cbranch :: "build_ctx \<Rightarrow> u64 \<Rightarrow> u64 \<Rightarrow> Varnode \<Rightarrow> Varnode \<Rightarrow> addr_ops \<Rightarrow> build_state \<Rightarrow> terminated" where
  "term_cbranch ctx at next_inst_addr dest cond ops st =
     (let target = offset dest;
          lost = push_diag (diagnostic Warn UnresolvedBranchTarget at
                   (''CBranch target '' @ format_hex target @ '' or fallthrough '' @ format_hex next_inst_addr @
                    '' not in instruction set'')) st
      in case (leader_to_block ctx target, leader_to_block ctx next_inst_addr) of
           (Some taken, Some fallthrough) \<Rightarrow> (TCBranch cond taken fallthrough, ops, st)
         | (None, Some fallthrough) \<Rightarrow>
             if \<not> is_covered ctx target
             then let (t, st) = cond_tail_call ctx at target cond fallthrough st in (t, ops, st)
             else (TFallthrough fallthrough, ops, lost)
         | (Some taken, None) \<Rightarrow> (TBranch taken, ops, lost)
         | (None, None) \<Rightarrow> (TIndirect dest, ops, lost))"

definition is_stack_return :: "addr_ops \<Rightarrow> Varnode \<Rightarrow> bool" where
  "is_stack_return ops dest = list_ex (\<lambda>(a, op). case op of
     Load out sp ptr \<Rightarrow> offset out = offset dest \<and> space out = space dest
   | _ \<Rightarrow> False) (take 10 (rev ops))"

definition is_bx_lr :: "Varnode \<Rightarrow> bool" where
  "is_bx_lr dest \<longleftrightarrow> space dest = Register \<and> (offset dest = 88 \<or> offset dest = 240)"

text \<open>The table of a jump, when all its targets are blocks and its copy fits in this block.\<close>

definition usable_table :: "build_ctx \<Rightarrow> u64 \<Rightarrow> addr_ops \<Rightarrow> JumpTable option" where
  "usable_table ctx at ops = (case table_for (tables ctx) at of
     None \<Rightarrow> None
   | Some t \<Rightarrow>
       if list_all (\<lambda>a. leader_to_block ctx a \<noteq> None) (targets t) \<and>
          (case copy_before t of None \<Rightarrow> True | Some b \<Rightarrow> list_ex (\<lambda>(a, op). a = b) ops)
       then Some t else None)"

definition term_switch :: "build_ctx \<Rightarrow> u64 \<Rightarrow> JumpTable \<Rightarrow> addr_ops \<Rightarrow> build_state \<Rightarrow> terminated" where
  "term_switch ctx at table ops st =
     (let cases = map (\<lambda>a. the (leader_to_block ctx a)) (targets table);
          (idx, ops) = (case copy_before table of
             Some b \<Rightarrow> copy_aside ops at b (index table)
           | None \<Rightarrow> (index table, ops));
          (t, ops, ss) = switch_chain ops (synthetics st) (length (order ctx)) at idx (first table) cases
      in (t, ops, st\<lparr>synthetics := ss\<rparr>))"

definition term_branch_ind :: "build_ctx \<Rightarrow> u64 \<Rightarrow> Varnode \<Rightarrow> addr_ops \<Rightarrow> build_state \<Rightarrow> terminated" where
  "term_branch_ind ctx at dest ops st = (case usable_table ctx at ops of
     Some table \<Rightarrow> term_switch ctx at table ops st
   | None \<Rightarrow>
       if is_stack_return ops dest \<or> is_bx_lr dest then (TReturn, ops, st)
       else (case indirect_jump_tail_target ops dest at of
               (Some target, ops') \<Rightarrow>
                 (let st = push_diag (diagnostic Info TailCall at
                             (''indirect jump via '' @ debug_target target @ '' treated as a tail call'')) st;
                      (t, st) = tail_call ctx at target st
                  in (t, ops', st))
             | (None, ops') \<Rightarrow>
                 (TIndirect dest, ops', push_diag (diagnostic Warn UnrecoveredIndirectJump at
                    (''indirect jump via '' @ debug_varnode dest @ '' computes its target; successors not recovered'')) st)))"

definition term_call :: "build_ctx \<Rightarrow> u64 \<Rightarrow> u64 \<Rightarrow> Varnode \<Rightarrow> addr_ops \<Rightarrow> build_state \<Rightarrow> terminated" where
  "term_call ctx at next_inst_addr dest ops st =
     (let target = (if space dest = Ram then Direct (offset dest) else IndirectTarget dest);
          ops = strip_call_push_ops ops;
          (fallthrough, st) = call_fallthrough ctx at next_inst_addr st
      in (TCall target fallthrough, ops, st))"

text \<open>Control reaches the next instruction's block, or the function ends.\<close>

definition fall_or_return :: "build_ctx \<Rightarrow> u64 \<Rightarrow> Terminator" where
  "fall_or_return ctx next_inst_addr = (case leader_to_block ctx next_inst_addr of
     Some b \<Rightarrow> TFallthrough b
   | None \<Rightarrow> TReturn)"

definition term_call_ind :: "build_ctx \<Rightarrow> u64 \<Rightarrow> u64 \<Rightarrow> Varnode \<Rightarrow> addr_ops \<Rightarrow> build_state \<Rightarrow> terminated" where
  "term_call_ind ctx at next_inst_addr dest ops_with_call st =
     (let all_ops = concat (map (\<lambda>(a, inst). map (Pair a) (inst_ops inst)) (insts ctx));
          target = resolve_callind_target ops_with_call dest (fst (hd (insts ctx))) all_ops;
          st = (case target of
                  IndirectTarget vn \<Rightarrow> push_diag (diagnostic Info UnresolvedIndirectCall at
                    (''CallInd via '' @ debug_varnode dest @ '' not resolved through Load chain or GP-relative trace'')) st
                | Direct a \<Rightarrow> st);
          ops = strip_call_push_ops (butlast ops_with_call);
          (fallthrough, st) = call_fallthrough ctx at next_inst_addr st
      in (TCall target fallthrough, ops, st))"

text \<open>The terminator from a block's last operation.\<close>

definition terminate_block :: "build_ctx \<Rightarrow> u64 \<Rightarrow> u64 \<Rightarrow> addr_ops \<Rightarrow> build_state \<Rightarrow> terminated" where
  "terminate_block ctx at next_inst_addr ops st =
     (if ops = [] then (TReturn, ops, st)
      else case snd (last ops) of
        Return dest \<Rightarrow> (TReturn, strip_return_pop_ops (butlast ops), st)
      | Branch dest \<Rightarrow>
          if space dest = Ram then term_branch ctx at dest (butlast ops) st
          else (fall_or_return ctx next_inst_addr, ops, st)
      | CBranch dest cond \<Rightarrow>
          if space dest = Ram then term_cbranch ctx at next_inst_addr dest cond (butlast ops) st
          else (fall_or_return ctx next_inst_addr, ops, st)
      | BranchInd dest \<Rightarrow> term_branch_ind ctx at dest (butlast ops) st
      | Call dest \<Rightarrow> term_call ctx at next_inst_addr dest (butlast ops) st
      | CallInd dest \<Rightarrow>
          (case user_op_call_target ops dest of
             Some u \<Rightarrow> (fall_or_return ctx next_inst_addr, make_user_op_statement (butlast ops) u (vsize dest), st)
           | None \<Rightarrow> term_call_ind ctx at next_inst_addr dest ops st)
      | _ \<Rightarrow> (fall_or_return ctx next_inst_addr, ops, st))"

subsection \<open>Blocks\<close>

definition next_leader :: "build_ctx \<Rightarrow> u64 \<Rightarrow> u64" where
  "next_leader ctx leader_addr =
     (case vec_get (leaders ctx) (partition_point (\<lambda>a. a \<le> leader_addr) (leaders ctx)) of
        Some a \<Rightarrow> a
      | None \<Rightarrow> func_end ctx)"

definition block_members :: "build_ctx \<Rightarrow> u64 \<Rightarrow> (u64 \<times> Instruction) list" where
  "block_members ctx leader_addr =
     sort_key fst (filter (\<lambda>(a, i). leader_addr \<le> a \<and> a < next_leader ctx leader_addr) (insts ctx))"

definition member_ops :: "(u64 \<times> Instruction) list \<Rightarrow> addr_ops" where
  "member_ops members = concat (map (\<lambda>(a, inst). map (Pair a) (inst_ops inst)) members)"

definition is_control_op :: "PcodeOp \<Rightarrow> bool" where
  "is_control_op op = (case op of
     Return d \<Rightarrow> True | Branch d \<Rightarrow> True | CBranch d c \<Rightarrow> True | BranchInd d \<Rightarrow> True
   | Call d \<Rightarrow> True | CallInd d \<Rightarrow> True | _ \<Rightarrow> False)"

definition control_origin :: "addr_ops \<Rightarrow> OperationOrigin option" where
  "control_origin ops =
     (if ops \<noteq> [] \<and> is_control_op (snd (last ops))
      then let a = fst (last ops)
           in Some \<lparr>instruction_address = a,
                    operation_index = length (takeWhile (\<lambda>(b, op). b = a) (rev ops)) - 1\<rparr>
      else None)"

definition build_block :: "build_ctx \<Rightarrow> nat \<Rightarrow> u64 \<Rightarrow> build_state \<Rightarrow> BasicBlock \<times> build_state" where
  "build_block ctx block_idx leader_addr st =
     (let members = block_members ctx leader_addr;
          ops = member_ops members;
          at = (if members = [] then leader_addr else fst (last members));
          len = (if members = [] then 0 else inst_len (snd (last members)));
          (t, ops', st') = terminate_block ctx at (at + len) ops st
      in (\<lparr>block_id = block_idx, block_addr = leader_addr, block_ops = ops', terminator = t,
           terminator_origin = control_origin ops\<rparr>, st'))"

primrec build_blocks :: "build_ctx \<Rightarrow> nat \<Rightarrow> u64 list \<Rightarrow> build_state \<Rightarrow> BasicBlock list \<times> build_state" where
  "build_blocks ctx i [] st = ([], st)"
| "build_blocks ctx i (a # as) st =
     (let (b, st1) = build_block ctx i a st;
          (bs, st2) = build_blocks ctx (Suc i) as st1
      in (b # bs, st2))"

definition synth_block :: "nat \<Rightarrow> synth \<Rightarrow> BasicBlock" where
  "synth_block i s = \<lparr>block_id = i, block_addr = fst s, block_ops = fst (snd s), terminator = snd (snd s),
     terminator_origin = None\<rparr>"

definition build_cfg_with_memory :: "(u64 \<times> Instruction) list \<Rightarrow> memory_fn \<Rightarrow> Cfg" where
  "build_cfg_with_memory instructions mem =
     (if instructions = [] then \<lparr>blocks = [], entry = 0, diagnostics = []\<rparr>
      else let ctx = make_ctx instructions mem;
               (bs, st) = build_blocks ctx 0 (order ctx) \<lparr>synthetics = [], diags = []\<rparr>
           in \<lparr>blocks = bs @ map (\<lambda>(i, s). synth_block (length (order ctx) + i) s) (enumerate 0 (synthetics st)),
               entry = 0, diagnostics = diags st\<rparr>)"

definition build_cfg :: "(u64 \<times> Instruction) list \<Rightarrow> Cfg" where
  "build_cfg instructions = build_cfg_with_memory instructions (\<lambda>va len. None)"

end
