(* ===== verification/CfgBuildProps.thy ===== *)
theory CfgBuildProps
  imports CfgBuild
begin

text \<open>
  The graph that construction returns is well formed: block \<open>i\<close> has id \<open>i\<close>, block 0 is
  the function's entry, and every edge leads to a block, including the edges into and
  between synthetic blocks. Every instruction from the first leader on is in exactly one
  block.
\<close>

subsection \<open>Edges stay in range\<close>

definition room :: "build_ctx \<Rightarrow> build_state \<Rightarrow> nat" where
  "room ctx st = length (order ctx) + length (synthetics st)"

definition fits :: "nat \<Rightarrow> Terminator \<Rightarrow> bool" where
  "fits n t \<longleftrightarrow> (\<forall>b \<in> set (term_succs t). b < n)"

definition synths_ok :: "build_ctx \<Rightarrow> build_state \<Rightarrow> bool" where
  "synths_ok ctx st \<longleftrightarrow> (\<forall>s \<in> set (synthetics st). fits (room ctx st) (snd (snd s)))"

text \<open>What every terminator function keeps.\<close>

definition keeps :: "build_ctx \<Rightarrow> build_state \<Rightarrow> Terminator \<times> build_state \<Rightarrow> bool" where
  "keeps ctx st r \<longleftrightarrow> (synths_ok ctx st \<longrightarrow> synths_ok ctx (snd r)) \<and> fits (room ctx (snd r)) (fst r) \<and>
     room ctx st \<le> room ctx (snd r)"

lemma fits_mono: "fits n t \<Longrightarrow> n \<le> m \<Longrightarrow> fits m t"
  by (auto simp: fits_def)

lemma leader_in_range: "leader_to_block ctx a = Some b \<Longrightarrow> b < length (order ctx)"
  by (auto simp: leader_to_block_def dest!: map_of_SomeD set_zip_rightD)

lemma leader_fits: "leader_to_block ctx a = Some b \<Longrightarrow> b < room ctx st"
  using leader_in_range[of ctx a b] by (simp add: room_def)

lemma push_diag_simps [simp]:
  "synthetics (push_diag d st) = synthetics st" "room ctx (push_diag d st) = room ctx st"
  "synths_ok ctx (push_diag d st) = synths_ok ctx st"
  by (simp_all add: push_diag_def room_def synths_ok_def)

lemma room_push [simp]: "room ctx (push_synth s st) = Suc (room ctx st)"
  by (simp add: room_def push_synth_def)

lemma next_synth_room: "next_synth ctx st = room ctx st"
  by (simp add: next_synth_def room_def)

lemma synths_ok_push: "synths_ok ctx st \<Longrightarrow> fits (Suc (room ctx st)) (snd (snd s)) \<Longrightarrow> synths_ok ctx (push_synth s st)"
  unfolding synths_ok_def room_push by (auto simp: push_synth_def intro: fits_mono)

lemma keeps_here: "fits (room ctx st) t \<Longrightarrow> keeps ctx st (t, st)"
  by (simp add: keeps_def)

lemma keeps_diag: "keeps ctx (push_diag d st) r \<Longrightarrow> keeps ctx st r"
  by (simp add: keeps_def)

lemma keeps_diag_here: "fits (room ctx st) t \<Longrightarrow> keeps ctx st (t, push_diag d st)"
  by (simp add: keeps_def)

lemma keeps_tail_call: "keeps ctx st (tail_call ctx at target st)"
  by (auto simp: keeps_def tail_call_def next_synth_room fits_def intro!: synths_ok_push)

lemma keeps_call_fallthrough:
  "keeps ctx st (TCall target (fst (call_fallthrough ctx at nxt st)), snd (call_fallthrough ctx at nxt st))"
  by (auto simp: call_fallthrough_def keeps_def next_synth_room fits_def leader_fits intro!: synths_ok_push
      split: option.splits)

lemma keeps_cond_tail_call:
  assumes "b < length (order ctx)"
  shows "keeps ctx st (cond_tail_call ctx at target cond b st)"
proof -
  have r: "fst (cond_tail_call ctx at target cond b st) = TCBranch cond (room ctx st) b"
    "synthetics (snd (cond_tail_call ctx at target cond b st)) =
       synthetics st @ [(at, [], TCall (Direct target) (Suc (room ctx st))), (at, [], TReturn)]"
    by (simp_all add: cond_tail_call_def Let_def tail_call_def push_synth_def push_diag_def room_def next_synth_def
        list_update_append)
  have n: "room ctx (snd (cond_tail_call ctx at target cond b st)) = room ctx st + 2" "length (order ctx) \<le> room ctx st"
    using r(2) by (simp_all add: room_def)
  have "fits (room ctx st + 2) t" if "fits (room ctx st) t" for t
    using fits_mono[OF that] by simp
  then show ?thesis
    using assms r n by (auto simp: keeps_def synths_ok_def) (auto simp: fits_def)
qed

lemma chain_blocks_spec:
  assumes "k + length cs = m"
  shows "\<exists>new. chain_blocks fs at idx f m lst k cs ss = ss @ new \<and> length new = length cs \<and>
    (\<forall>s \<in> set new. \<forall>b \<in> set (term_succs (snd (snd s))). b \<in> set cs \<or> b = lst \<or> b < fs + length ss + length cs)"
  using assms
proof (induction cs arbitrary: k ss)
  case (Cons c cs)
  obtain cond op where t: "case_test at idx f k = (cond, op)" by (cases "case_test at idx f k")
  let ?ft = "if k + 1 = m then lst else fs + length ss + 1"
  let ?s = "(at, [op], TCBranch cond c ?ft)"
  from Cons.IH[of "k + 1" "ss @ [?s]"] Cons.prems obtain new where n:
    "chain_blocks fs at idx f m lst (k + 1) cs (ss @ [?s]) = ss @ [?s] @ new" "length new = length cs"
    "\<forall>s \<in> set new. \<forall>b \<in> set (term_succs (snd (snd s))). b \<in> set cs \<or> b = lst \<or> b < fs + length ss + 1 + length cs"
    by auto
  moreover have "?ft = lst \<or> ?ft < fs + length ss + length (c # cs)"
    using Cons.prems by (cases cs) auto
  ultimately show ?case
    by (intro exI[of _ "?s # new"]) (auto simp: t Let_def)
qed simp

lemma switch_chain_spec:
  assumes "switch_chain ops ss fs at idx f cases = (t, ops', ss')" "\<forall>c \<in> set cases. c < fs"
  shows "\<exists>new. ss' = ss @ new \<and> fits (fs + length ss') t \<and> (\<forall>s \<in> set new. fits (fs + length ss') (snd (snd s)))"
proof (cases "length cases \<le> 1")
  case True
  then show ?thesis
    using assms by (cases cases) (auto simp: switch_chain_def fits_def)
next
  case False
  then have ne: "cases \<noteq> []" "butlast cases \<noteq> []" by (auto simp: butlast_conv_take dest: Cons_eq_appendI)
  let ?tested = "butlast cases" and ?lst = "last cases"
  obtain cond op where ct: "case_test at idx f 0 = (cond, op)" by (cases "case_test at idx f 0")
  have r: "t = TCBranch cond (hd ?tested) (if length ?tested = 1 then ?lst else fs + length ss)"
    "ss' = chain_blocks fs at idx f (length ?tested) ?lst 1 (tl ?tested) ss"
    using assms(1) ne by (auto simp: switch_chain_def ct Let_def)
  have "1 + length (tl ?tested) = length ?tested" using ne by (cases ?tested) auto
  from chain_blocks_spec[OF this, of fs at idx f ?lst ss] obtain new where n: "ss' = ss @ new" "length new = length (tl ?tested)"
    "\<forall>s \<in> set new. \<forall>b \<in> set (term_succs (snd (snd s))). b \<in> set (tl ?tested) \<or> b = ?lst \<or> b < fs + length ss + length (tl ?tested)"
    using r(2) by auto
  have small: "c < fs + length ss'" if "c \<in> set ?tested \<union> {?lst}" for c
    using that assms(2) ne(1) by (auto dest: in_set_butlastD intro: trans_less_add1)
  have "hd ?tested \<in> set ?tested" "set (tl ?tested) \<subseteq> set ?tested" using ne(2) by (cases ?tested; auto)+
  moreover have "length ?tested = 1 \<or> fs + length ss < fs + length ss'" using n ne(2) by (cases ?tested) auto
  moreover have "fits (fs + length ss') (snd (snd s))" if "s \<in> set new" for s
    unfolding fits_def
  proof
    fix b assume "b \<in> set (term_succs (snd (snd s)))"
    with n(3) that consider "b \<in> set (tl ?tested)" | "b = ?lst" | "b < fs + length ss + length (tl ?tested)" by blast
    then show "b < fs + length ss'"
    proof cases
      case 3
      with n(1,2) show ?thesis by (simp only: length_append add.assoc)
    qed (use small calculation(2) in auto)
  qed
  ultimately show ?thesis
    using n(1) small unfolding r(1) by (intro exI[of _ new]) (auto simp: fits_def)
qed

text \<open>The parts of a terminated block that the invariant is about.\<close>

definition outcome :: "terminated \<Rightarrow> Terminator \<times> build_state" where
  "outcome r = (fst r, snd (snd r))"

lemma outcome_simps [simp]: "outcome (t, ops, st) = (t, st)"
  by (simp add: outcome_def)

lemma outcome_tail_call: "outcome (case r of (t, st) \<Rightarrow> (t, ops, st)) = r"
  by (cases r) simp

lemma keeps_term_branch: "keeps ctx st (outcome (term_branch ctx at dest ops st))"
  by (auto simp: term_branch_def Let_def outcome_tail_call fits_def leader_fits
      intro!: keeps_here keeps_diag[OF keeps_tail_call] keeps_diag_here split: option.splits)

lemma keeps_term_cbranch: "keeps ctx st (outcome (term_cbranch ctx at nxt dest cond ops st))"
  by (auto simp: term_cbranch_def Let_def outcome_tail_call fits_def leader_fits
      intro!: keeps_here keeps_cond_tail_call keeps_diag_here leader_in_range split: option.splits)

lemma keeps_term_switch:
  assumes "list_all (\<lambda>a. leader_to_block ctx a \<noteq> None) (targets table)"
  shows "keeps ctx st (outcome (term_switch ctx at table ops st))"
proof -
  let ?cases = "map (\<lambda>a. the (leader_to_block ctx a)) (targets table)"
  obtain idx ops1 where i: "(case copy_before table of Some b \<Rightarrow> copy_aside ops at b (index table)
      | None \<Rightarrow> (index table, ops)) = (idx, ops1)"
    by (cases "case copy_before table of Some b \<Rightarrow> copy_aside ops at b (index table) | None \<Rightarrow> (index table, ops)")
  obtain t ops' ss where c: "switch_chain ops1 (synthetics st) (length (order ctx)) at idx (first table) ?cases = (t, ops', ss)"
    by (cases "switch_chain ops1 (synthetics st) (length (order ctx)) at idx (first table) ?cases")
  have "\<forall>c \<in> set ?cases. c < length (order ctx)"
    using assms leader_in_range by (fastforce simp: list_all_iff)
  from switch_chain_spec[OF c this] obtain new where n: "ss = synthetics st @ new"
    "fits (length (order ctx) + length ss) t" "\<forall>s \<in> set new. fits (length (order ctx) + length ss) (snd (snd s))"
    by blast
  have r: "outcome (term_switch ctx at table ops st) = (t, st\<lparr>synthetics := ss\<rparr>)"
    by (simp add: term_switch_def Let_def i c)
  have "fits (length (order ctx) + length ss) u" if "fits (room ctx st) u" for u
    using fits_mono[OF that] n(1) by (simp add: room_def)
  with n show ?thesis unfolding r by (auto simp: keeps_def room_def synths_ok_def)
qed

lemma keeps_term_branch_ind: "keeps ctx st (outcome (term_branch_ind ctx at dest ops st))"
proof (cases "usable_table ctx at ops")
  case None
  show ?thesis
  proof (cases "indirect_jump_tail_target ops dest at")
    case (Pair target ops')
    with None show ?thesis
      by (auto simp: term_branch_ind_def Let_def outcome_tail_call fits_def
          intro!: keeps_here keeps_diag[OF keeps_tail_call] keeps_diag_here split: option.split)
  qed
next
  case (Some table)
  then have "list_all (\<lambda>a. leader_to_block ctx a \<noteq> None) (targets table)"
    by (auto simp: usable_table_def split: option.splits if_splits)
  with Some show ?thesis by (simp add: term_branch_ind_def keeps_term_switch)
qed

lemma outcome_fallthrough:
  "outcome (case r of (b, st) \<Rightarrow> (TCall target b, ops, st)) = (TCall target (fst r), snd r)"
  by (cases r) simp

lemma keeps_term_call: "keeps ctx st (outcome (term_call ctx at nxt dest ops st))"
  unfolding term_call_def Let_def outcome_fallthrough by (rule keeps_call_fallthrough)

lemma keeps_term_call_ind: "keeps ctx st (outcome (term_call_ind ctx at nxt dest ops st))"
  unfolding term_call_ind_def Let_def outcome_fallthrough
  by (auto intro!: keeps_call_fallthrough keeps_diag[OF keeps_call_fallthrough] split: CallTarget.split)

lemma fits_fall_or_return: "fits (room ctx st) (fall_or_return ctx nxt)"
  by (auto simp: fall_or_return_def fits_def leader_fits split: option.split)

lemma keeps_terminate: "keeps ctx st (outcome (terminate_block ctx at nxt ops st))"
proof -
  have "fits n TReturn" for n by (simp add: fits_def)
  then show ?thesis
    unfolding terminate_block_def
    by (auto simp: keeps_term_branch keeps_term_cbranch keeps_term_branch_ind keeps_term_call keeps_term_call_ind
        intro!: keeps_here fits_fall_or_return split: PcodeOp.split option.split)
qed

lemma build_block_keeps:
  assumes "build_block ctx i a st = (b, st')"
  shows "keeps ctx st (terminator b, st') \<and> block_id b = i \<and> block_addr b = a"
proof -
  let ?ms = "block_members ctx a"
  let ?at = "if ?ms = [] then a else fst (last ?ms)"
  let ?len = "if ?ms = [] then 0 else inst_len (snd (last ?ms))"
  obtain t ops' st1 where t: "terminate_block ctx ?at (?at + ?len) (member_ops ?ms) st = (t, ops', st1)"
    by (cases "terminate_block ctx ?at (?at + ?len) (member_ops ?ms) st")
  have "b = \<lparr>block_id = i, block_addr = a, block_ops = ops', terminator = t,
      terminator_origin = control_origin (member_ops ?ms)\<rparr>" "st' = st1"
    using assms t by (simp_all add: build_block_def Let_def)
  with keeps_terminate[of ctx st ?at "?at + ?len" "member_ops ?ms"] t show ?thesis by simp
qed

lemma build_blocks_spec:
  assumes "build_blocks ctx i as st = (bs, st')" "synths_ok ctx st"
  shows "synths_ok ctx st' \<and> room ctx st \<le> room ctx st' \<and> length bs = length as \<and>
    map block_id bs = [i..<i + length as] \<and> map block_addr bs = as \<and> (\<forall>b \<in> set bs. fits (room ctx st') (terminator b))"
  using assms
proof (induction as arbitrary: i st bs st')
  case (Cons a as)
  obtain b st1 where b: "build_block ctx i a st = (b, st1)" by fastforce
  obtain bs2 st2 where r: "build_blocks ctx (Suc i) as st1 = (bs2, st2)" by fastforce
  have e: "bs = b # bs2" "st' = st2" using Cons.prems(1) b r by simp_all
  note k = build_block_keeps[OF b, unfolded keeps_def]
  have ih: "synths_ok ctx st2 \<and> room ctx st1 \<le> room ctx st2 \<and> length bs2 = length as \<and>
    map block_id bs2 = [Suc i..<Suc i + length as] \<and> map block_addr bs2 = as \<and> (\<forall>b \<in> set bs2. fits (room ctx st2) (terminator b))"
    using Cons.IH[OF r] k Cons.prems(2) by simp
  moreover have "fits (room ctx st2) (terminator b)" using k ih fits_mono by auto
  moreover have "[i..<i + length (a # as)] = i # [Suc i..<Suc i + length as]" by (simp add: upt_conv_Cons del: upt_Suc)
  ultimately show ?case
    using k unfolding e by auto
qed simp

lemma build_shape:
  assumes "instructions \<noteq> []"
  obtains bs st where "build_cfg_with_memory instructions mem =
      \<lparr>blocks = bs @ map (\<lambda>(i, s). synth_block (length (order (make_ctx instructions mem)) + i) s) (enumerate 0 (synthetics st)),
       entry = 0, diagnostics = diags st\<rparr>"
    "synths_ok (make_ctx instructions mem) st" "length bs = length (order (make_ctx instructions mem))"
    "map block_id bs = [0..<length bs]" "map block_addr bs = order (make_ctx instructions mem)"
    "\<forall>b \<in> set bs. fits (room (make_ctx instructions mem) st) (terminator b)"
proof -
  let ?ctx = "make_ctx instructions mem"
  obtain bs st where r: "build_blocks ?ctx 0 (order ?ctx) \<lparr>synthetics = [], diags = []\<rparr> = (bs, st)" by fastforce
  have "synths_ok ?ctx \<lparr>synthetics = [], diags = []\<rparr>" by (simp add: synths_ok_def)
  from build_blocks_spec[OF r this] r assms show ?thesis
    by (intro that[of bs st]) (simp_all add: build_cfg_with_memory_def Let_def)
qed

lemma build_graph_ok:
  "ids_are_indices (build_cfg_with_memory instructions mem) \<and>
   entry (build_cfg_with_memory instructions mem) = 0 \<and>
   (\<forall>b < length (blocks (build_cfg_with_memory instructions mem)).
      \<forall>s \<in> set (succs_of (build_cfg_with_memory instructions mem) b).
        s < length (blocks (build_cfg_with_memory instructions mem))) \<and>
   (instructions \<noteq> [] \<longrightarrow> blocks (build_cfg_with_memory instructions mem) \<noteq> [] \<and>
      block_addr (hd (blocks (build_cfg_with_memory instructions mem))) = fst (hd instructions))"
proof (cases "instructions = []")
  case True
  then show ?thesis by (simp add: build_cfg_with_memory_def ids_are_indices_def)
next
  case False
  let ?ctx = "make_ctx instructions mem"
  obtain bs st where b: "build_cfg_with_memory instructions mem =
      \<lparr>blocks = bs @ map (\<lambda>(i, s). synth_block (length (order ?ctx) + i) s) (enumerate 0 (synthetics st)),
       entry = 0, diagnostics = diags st\<rparr>"
    "synths_ok ?ctx st" "length bs = length (order ?ctx)" "map block_id bs = [0..<length bs]"
    "map block_addr bs = order ?ctx" "\<forall>b \<in> set bs. fits (room ?ctx st) (terminator b)"
    by (rule build_shape[OF False])
  let ?syn = "map (\<lambda>(i, s). synth_block (length (order ?ctx) + i) s) (enumerate 0 (synthetics st))"
  have n: "length (bs @ ?syn) = room ?ctx st" by (simp add: b(3) room_def)
  have ids: "map block_id ?syn = [length bs..<length bs + length (synthetics st)]"
    by (intro nth_equalityI) (simp_all add: b(3) nth_enumerate_eq synth_block_def)
  have "ids_are_indices (build_cfg_with_memory instructions mem)"
    using ids b(4) upt_add_eq_append[of 0 "length bs" "length (synthetics st)"]
    by (simp add: ids_are_indices_def b(1) del: map_map)
  moreover have "fits (room ?ctx st) (terminator bl)" if "bl \<in> set (bs @ ?syn)" for bl
    using that b(2,6) by (auto simp: synths_ok_def synth_block_def in_set_enumerate_eq) (metis nth_mem snd_conv)
  then have "s < room ?ctx st" if "i < room ?ctx st" "s \<in> set (term_succs (terminator ((bs @ ?syn) ! i)))" for i s
    using that n nth_mem[of i "bs @ ?syn"] by (auto simp: fits_def)
  moreover have "bs \<noteq> []" "block_addr (hd bs) = fst (hd instructions)"
    using b(3,5) by (auto simp: make_ctx_def Let_def block_order_def hd_conv_nth dest: arg_cong[of _ _ hd] simp flip: hd_map)
  ultimately show ?thesis
    using n by (simp add: b(1) succs_of_def)
qed

text \<open>
  C7. The built graph is well formed for every instruction list and image: block ids are
  positions, the entry is block 0 and starts at the first instruction, and every
  successor of every block, synthetic blocks included, is a block of the graph.
\<close>

theorem build_cfg_wf:
  "ids_are_indices (build_cfg_with_memory instructions mem) \<and>
   entry (build_cfg_with_memory instructions mem) = 0 \<and>
   (\<forall>b < length (blocks (build_cfg_with_memory instructions mem)).
      \<forall>s \<in> set (succs_of (build_cfg_with_memory instructions mem) b).
        s < length (blocks (build_cfg_with_memory instructions mem))) \<and>
   (instructions \<noteq> [] \<longrightarrow> blocks (build_cfg_with_memory instructions mem) \<noteq> [] \<and>
      block_addr (hd (blocks (build_cfg_with_memory instructions mem))) = fst (hd instructions))"
  by (rule build_graph_ok)

text \<open>A fragment decoded below the entry, reached by a conditional branch; both call out.\<close>

definition cold_example :: "(u64 \<times> Instruction) list" where
  "cold_example =
     [(0x2000, new_instruction 5 [] [CBranch (ram 0x1000 8) (register 0x206 1)]),
      (0x2005, new_instruction 1 [] [CBranch (ram 0x9000 8) (register 0x206 1)]),
      (0x2006, new_instruction 1 [] [Return (register 0x288 8)]),
      (0x1000, new_instruction 5 [] [Branch (ram 0x2006 8)])]"

lemma cold_example_graph:
  "map (\<lambda>b. (block_addr b, terminator b)) (blocks (build_cfg cold_example)) =
    [(0x2000, TCBranch (register 0x206 1) 1 2), (0x1000, TBranch 3), (0x2005, TCBranch (register 0x206 1) 4 3),
     (0x2006, TReturn), (0x2005, TCall (Direct 0x9000) 5), (0x2005, TReturn)]"
  by code_simp

theorem build_cfg_wf_witness:
  "length (blocks (build_cfg cold_example)) = 6 \<and> 5 \<in> set (succs_of (build_cfg cold_example) 4) \<and>
   5 < length (blocks (build_cfg cold_example))"
proof -
  have h: "length (blocks (build_cfg cold_example)) = 6" "5 \<in> set (succs_of (build_cfg cold_example) 4)"
    by code_simp+
  have "4 < length (blocks (build_cfg cold_example))" using h(1) by simp
  from build_cfg_wf[of cold_example "\<lambda>va len. None", folded build_cfg_def, THEN conjunct2, THEN conjunct2, THEN conjunct1,
      rule_format, OF this h(2)] h show ?thesis by blast
qed

subsection \<open>Instructions and blocks\<close>

lemma distinct_remdups_adj: "sorted xs \<Longrightarrow> distinct (remdups_adj (xs :: 'a::linorder list))"
proof (induction xs rule: remdups_adj.induct)
  case (3 x y xs)
  then show ?case by (cases "x = y") (auto dest: order_antisym)
qed simp_all

lemma leaders_sorted:
  assumes "instructions \<noteq> []"
  shows "sorted_wrt (<) (leaders (make_ctx instructions mem))" "set (order (make_ctx instructions mem)) = set (leaders (make_ctx instructions mem))"
proof -
  let ?raw = "fst (hd instructions) # concat (map inst_leaders instructions) @ table_targets (find_tables instructions mem)"
  let ?ls = "filter (\<lambda>a. a \<in> set (map fst instructions)) (remdups_adj (sort ?raw))"
  have l: "leaders (make_ctx instructions mem) = ?ls"
    by (simp add: make_ctx_def collect_leaders_def Let_def)
  have "sorted (remdups_adj (sort ?raw))" "distinct (remdups_adj (sort ?raw))"
    by (simp_all only: sorted_remdups_adj sorted_sort distinct_remdups_adj)
  then show "sorted_wrt (<) (leaders (make_ctx instructions mem))"
    unfolding l by (simp add: strict_sorted_iff sorted_wrt_filter)
  have "fst (hd instructions) \<in> set ?ls" using assms by (simp add: hd_in_set set_insort_key)
  then show "set (order (make_ctx instructions mem)) = set (leaders (make_ctx instructions mem))"
    unfolding l[symmetric] by (auto simp: make_ctx_def block_order_def Let_def)
qed

lemma partition_point_leader:
  assumes "sorted_wrt (<) (ls :: 'a::linorder list)" "k < length ls"
  shows "partition_point (\<lambda>a. a \<le> ls ! k) ls = Suc k"
proof -
  have "takeWhile (\<lambda>a. a \<le> ls ! k) ls = take (Suc k) ls"
    using assms sorted_wrt_nth_less[OF assms(1)]
    by (intro takeWhile_eq_take_P_nth) (auto simp: not_le less_Suc_eq intro: less_imp_le)
  with assms(2) show ?thesis by (simp add: partition_point_def)
qed

lemma next_leader_nth:
  assumes "sorted_wrt (<) (leaders ctx)" "k < length (leaders ctx)"
  shows "next_leader ctx (leaders ctx ! k) = (if Suc k < length (leaders ctx) then leaders ctx ! Suc k else func_end ctx)"
  using partition_point_leader[OF assms] by (simp add: next_leader_def vec_get_def)

lemma fold_max_ge: "x \<in> set xs \<or> x \<le> m \<Longrightarrow> (x :: 'a::linorder) \<le> fold max xs m"
  by (induction xs arbitrary: m) (auto simp: le_max_iff_disj)

lemma below_func_end:
  assumes "(a, i) \<in> set (insts ctx)" "0 < inst_len i" "uint a + uint (inst_len i) < 2 ^ 64"
  shows "a < func_end ctx"
proof -
  have "a < a + inst_len i"
    using assms(2,3) by (simp add: word_less_def uint_word_ariths)
  also have "a + inst_len i \<le> func_end ctx"
    unfolding func_end_def using assms(1) by (intro fold_max_ge disjI1) force
  finally show ?thesis .
qed

text \<open>An address from the first leader on lies between one leader and the next.\<close>

lemma unique_leader:
  assumes "sorted_wrt (<) (leaders ctx)" "l \<in> set (leaders ctx)" "l \<le> a" "a < func_end ctx"
  shows "\<exists>!k. k < length (leaders ctx) \<and> leaders ctx ! k \<le> a \<and> a < next_leader ctx (leaders ctx ! k)"
proof -
  let ?ls = "leaders ctx"
  let ?P = "\<lambda>k. k < length ?ls \<and> ?ls ! k \<le> a"
  obtain k0 where k0: "?P k0" using assms(2,3) by (auto simp: in_set_conv_nth)
  define k where "k = Max {k. ?P k}"
  have fin: "finite {k. ?P k}" by simp
  have k: "?P k" using Max_in[OF fin] k0 unfolding k_def by blast
  have up: "\<not> ?P j" if "k < j" for j using Max_ge[OF fin, of j] that unfolding k_def[symmetric] by auto
  have "a < next_leader ctx (?ls ! k)"
    using k up[of "Suc k"] assms(4) by (auto simp: next_leader_nth[OF assms(1)])
  moreover have "j = k" if j: "?P j" "a < next_leader ctx (?ls ! j)" for j
  proof (rule ccontr)
    assume "j \<noteq> k"
    with up j(1) have jk: "j < k" by (meson linorder_neqE_nat)
    then have "next_leader ctx (?ls ! j) = ?ls ! Suc j" using k j by (simp add: next_leader_nth[OF assms(1)])
    also have "\<dots> \<le> ?ls ! k"
      using jk k sorted_wrt_nth_less[OF assms(1), of "Suc j" k] by (cases "Suc j = k") (auto intro: less_imp_le)
    finally show False using j(2) k by (meson leD order.strict_trans1 order.strict_trans2)
  qed
  ultimately show ?thesis using k by blast
qed

text \<open>
  C27. Blocks partition the code: every instruction of nonzero length at or above the entry
  is a member of exactly one block, the one whose leader is the last leader at or before
  it.
\<close>

theorem instruction_in_one_block:
  assumes "(a, i) \<in> set instructions" "fst (hd instructions) \<le> a" "0 < inst_len i"
    "uint a + uint (inst_len i) < 2 ^ 64"
  shows "\<exists>!b. b < length (order (make_ctx instructions mem)) \<and>
    (a, i) \<in> set (block_members (make_ctx instructions mem) (order (make_ctx instructions mem) ! b))"
proof -
  let ?ctx = "make_ctx instructions mem"
  have ne: "instructions \<noteq> []" using assms(1) by auto
  note ls = leaders_sorted[OF ne, of mem]
  have "insts ?ctx = instructions" by (simp add: make_ctx_def Let_def)
  then have mem_iff: "(a, i) \<in> set (block_members ?ctx l) \<longleftrightarrow> l \<le> a \<and> a < next_leader ?ctx l" for l
    using assms(1) by (simp add: block_members_def)
  have fe: "a < func_end ?ctx"
    using below_func_end[of a i ?ctx] assms by (simp add: make_ctx_def Let_def)
  have "fst (hd instructions) \<in> set (leaders ?ctx)"
    unfolding ls(2)[symmetric] by (simp add: make_ctx_def block_order_def Let_def)
  from unique_leader[OF ls(1) this assms(2) fe] obtain k where k: "k < length (leaders ?ctx)"
    "leaders ?ctx ! k \<le> a" "a < next_leader ?ctx (leaders ?ctx ! k)"
    "\<And>j. j < length (leaders ?ctx) \<Longrightarrow> leaders ?ctx ! j \<le> a \<Longrightarrow> a < next_leader ?ctx (leaders ?ctx ! j) \<Longrightarrow> j = k"
    by blast
  have one: "l = leaders ?ctx ! k" if "l \<in> set (order ?ctx)" "l \<le> a" "a < next_leader ?ctx l" for l
    using that k(4) unfolding ls(2) in_set_conv_nth by blast
  have dist: "distinct (order ?ctx)"
    using ls(1) by (simp add: make_ctx_def block_order_def Let_def strict_sorted_iff)
  obtain b where b: "b < length (order ?ctx)" "order ?ctx ! b = leaders ?ctx ! k"
    using k(1) ls(2) by (metis in_set_conv_nth nth_mem)
  show ?thesis
  proof (rule ex1I[of _ b])
    show "b < length (order ?ctx) \<and> (a, i) \<in> set (block_members ?ctx (order ?ctx ! b))"
      using b k(2,3) mem_iff by simp
    fix c assume c: "c < length (order ?ctx) \<and> (a, i) \<in> set (block_members ?ctx (order ?ctx ! c))"
    then have "order ?ctx ! c = order ?ctx ! b" using one mem_iff b(2) by (metis nth_mem)
    with c b(1) dist show "c = b" by (simp add: nth_eq_iff_index_eq)
  qed
qed

theorem instruction_in_one_block_witness:
  "\<exists>!b. b < length (order (make_ctx cold_example (\<lambda>va len. None))) \<and>
    (0x2006, new_instruction 1 [] [Return (register 0x288 8)]) \<in>
      set (block_members (make_ctx cold_example (\<lambda>va len. None)) (order (make_ctx cold_example (\<lambda>va len. None)) ! b))"
  by (rule instruction_in_one_block) (simp_all add: cold_example_def new_instruction_def)

end
