(* ===== verification/CfgSwitch.thy ===== *)
theory CfgSwitch
  imports CfgBuildProps PcodeSem
begin

text \<open>
  What the comparison chain of a recovered switch does when it runs: over any store that
  keeps the laws of \<open>varnode_store\<close> it reaches the case that the table index selects. Also
  here: what call resolution does with two shapes of code.
\<close>

subsection \<open>Running a chain\<close>

text \<open>
  Control from a block with operations \<open>ops\<close> and terminator \<open>t\<close> through the synthetic
  blocks to the first block that is not one of them; the fuel bounds the blocks run.
\<close>

primrec follow ::
  "('s \<Rightarrow> Varnode \<Rightarrow> int) \<Rightarrow> ('s \<Rightarrow> Varnode \<Rightarrow> int \<Rightarrow> 's) \<Rightarrow> nat \<Rightarrow> synth list \<Rightarrow>
   nat \<Rightarrow> 's \<Rightarrow> addr_ops \<Rightarrow> Terminator \<Rightarrow> BlockId option" where
  "follow rd wr fs ss 0 s ops t = None"
| "follow rd wr fs ss (Suc n) s ops t =
     (let s' = fst (run_ops rd wr (\<lambda>op vs. 0) (\<lambda>f vs tr. 0) (map snd ops) (s, [])) in
      case t of
        TBranch b \<Rightarrow> Some b
      | TCBranch cond taken fallthrough \<Rightarrow>
          (let b = (if rd s' cond \<noteq> 0 then taken else fallthrough) in
           if fs \<le> b \<and> b - fs < length ss
           then follow rd wr fs ss n s' (fst (snd (ss ! (b - fs)))) (snd (snd (ss ! (b - fs))))
           else Some b)
      | _ \<Rightarrow> None)"

lemma follow_more: "follow rd wr fs ss n s ops t = Some b \<Longrightarrow> follow rd wr fs ss (Suc n) s ops t = Some b"
proof (induction n arbitrary: s ops t)
  case (Suc n)
  show ?case
  proof (cases t)
    case (TCBranch cond taken fallthrough)
    define s' where "s' = fst (run_ops rd wr (\<lambda>op vs. 0) (\<lambda>f vs tr. 0) (map snd ops) (s, []))"
    define b' where "b' = (if rd s' cond \<noteq> 0 then taken else fallthrough)"
    have step: "follow rd wr fs ss (Suc m) s ops t =
        (if fs \<le> b' \<and> b' - fs < length ss
         then follow rd wr fs ss m s' (fst (snd (ss ! (b' - fs)))) (snd (snd (ss ! (b' - fs)))) else Some b')" for m
      unfolding TCBranch follow.simps(2) Let_def s'_def[symmetric] b'_def[symmetric] Terminator.case by (rule refl)
    show ?thesis using Suc.prems Suc.IH unfolding step by presburger
  qed (use Suc.prems in simp_all)
qed simp

text \<open>The case whose number is the distance of the index from the first, the last one beyond.\<close>

definition selected :: "nat \<Rightarrow> int \<Rightarrow> BlockId list \<Rightarrow> int \<Rightarrow> BlockId" where
  "selected n fst' cases v = cases ! min (nat (take_bit n (v - fst'))) (length cases - 1)"

primrec pick :: "nat \<Rightarrow> int \<Rightarrow> int \<Rightarrow> nat \<Rightarrow> BlockId list \<Rightarrow> BlockId \<Rightarrow> BlockId" where
  "pick n fst' v k [] lst = lst"
| "pick n fst' v k (c # cs) lst = (if v = take_bit n (fst' + int k) then c else pick n fst' v (Suc k) cs lst)"

lemma take_bit_distance:
  fixes v :: int
  assumes "take_bit n v = v" "k < 2 ^ n"
  shows "v = take_bit n (f + int k) \<longleftrightarrow> nat (take_bit n (v - f)) = k"
proof -
  have k: "take_bit n (int k) = int k" using assms(2) by (simp add: take_bit_int_eq_self_iff)
  have "v = take_bit n (f + int k) \<longleftrightarrow> take_bit n v = take_bit n (f + int k)" using assms(1) by simp
  also have "\<dots> \<longleftrightarrow> take_bit n (v - f) = take_bit n (int k)"
    unfolding take_bit_eq_mod by (simp add: mod_eq_dvd_iff algebra_simps)
  also have "\<dots> \<longleftrightarrow> nat (take_bit n (v - f)) = k" using k by auto
  finally show ?thesis .
qed

lemma pick_selected:
  assumes "take_bit n v = v" "k + length cs < 2 ^ n" "k \<le> nat (take_bit n (v - f))"
  shows "pick n f v k cs lst = (cs @ [lst]) ! min (nat (take_bit n (v - f)) - k) (length cs)"
  using assms(2,3)
proof (induction cs arbitrary: k)
  case (Cons c cs)
  note d = take_bit_distance[OF assms(1), of k f]
  show ?case
  proof (cases "nat (take_bit n (v - f)) = k")
    case True
    with d Cons.prems show ?thesis by simp
  next
    case False
    with Cons.prems have "Suc k \<le> nat (take_bit n (v - f))" by simp
    moreover have "min (nat (take_bit n (v - f)) - k) (length (c # cs)) =
        Suc (min (nat (take_bit n (v - f)) - Suc k) (length cs))"
      using \<open>Suc k \<le> nat (take_bit n (v - f))\<close> by (simp add: Suc_diff_Suc Suc_diff_le flip: min_Suc_Suc)
    ultimately show ?thesis using Cons.IH[of "Suc k"] Cons.prems d False by simp
  qed
qed simp

lemma case_constant:
  assumes "0 < vsize idx" "vsize idx \<le> 8"
  shows "const_val (constant_vn (word_of_int x AND shr64 (- 1) (64 - 8 * unat (min (vsize idx) 8))) (vsize idx)) =
    take_bit (bits idx) x"
proof -
  let ?n = "bits idx"
  have u: "1 \<le> unat (vsize idx)" "unat (vsize idx) \<le> 8"
    using assms by (simp_all add: word_less_nat_alt word_le_nat_alt)
  have n: "0 < ?n" "?n \<le> 64" and m: "min (vsize idx) 8 = vsize idx"
    using u assms(2) by (simp_all add: bits_def min_def)
  have "shr64 (- 1) (64 - 8 * unat (min (vsize idx) 8)) = mask ?n"
    using n by (intro bit_word_eqI) (auto simp: shr64_def m bits_def bit_simps)
  then have "const_val (constant_vn (word_of_int x AND shr64 (- 1) (64 - 8 * unat (min (vsize idx) 8))) (vsize idx)) =
      take_bit ?n (uint (take_bit ?n (word_of_int x :: u64)))"
    by (simp add: const_val_def bits_def take_bit_eq_mask)
  also have "\<dots> = take_bit ?n (take_bit 64 x)"
    by (simp add: unsigned_take_bit_eq uint_word_of_int_eq)
  also have "\<dots> = take_bit ?n x" using n by simp
  finally show ?thesis .
qed

context varnode_store
begin

lemma run_test:
  assumes "case_test at idx f k = (cond, op)" "0 < vsize idx" "vsize idx \<le> 8" "vdisjoint cond idx"
  shows "fst (run_ops rd wr ext usr [snd op] (s, [])) = wr s cond (of_bool (rd s idx = take_bit (bits idx) (f + int k)))"
    "rd (wr s cond (of_bool b)) cond = of_bool b" "rd (wr s cond x) idx = rd s idx"
proof -
  have c: "cond = switch_temp at k 1" "snd op = IntEq cond idx
      (constant_vn (word_of_int (f + int k) AND shr64 (- 1) (64 - 8 * unat (min (vsize idx) 8))) (vsize idx))"
    using assms(1) by (auto simp: case_test_def Let_def)
  show "fst (run_ops rd wr ext usr [snd op] (s, [])) = wr s cond (of_bool (rd s idx = take_bit (bits idx) (f + int k)))"
    using case_constant[OF assms(2,3), of "f + int k"] rd_const
    by (simp add: c(2) exec_op_def del: of_int_add of_bool_eq_iff)
  show "rd (wr s cond x) idx = rd s idx" by (rule rd_wr_disjoint[OF assms(4)])
  have "bits cond = 8" by (simp add: c(1) switch_temp_def bits_def)
  then show "rd (wr s cond (of_bool b)) cond = of_bool b"
    by (simp add: rd_wr c(1) switch_temp_def)
qed

text \<open>From the block of case \<open>k\<close> on, the chain goes to the case whose test succeeds first.\<close>

lemma chain_follow:
  assumes "k + length cs = m" "cs \<noteq> []" "\<forall>c \<in> set cs \<union> {lst}. c < fs" "0 < vsize idx" "vsize idx \<le> 8"
    "\<forall>j < m. vdisjoint (switch_temp at j 1) idx" "R = chain_blocks fs at idx f m lst k cs ss"
  shows "follow rd wr fs R (length cs) s (fst (snd (R ! length ss))) (snd (snd (R ! length ss))) =
    Some (pick (bits idx) f (rd s idx) k cs lst)"
  using assms(1-3,7)
proof (induction cs arbitrary: k ss s)
  case (Cons c cs)
  obtain cond op where t: "case_test at idx f k = (cond, op)" by (cases "case_test at idx f k")
  define ft where "ft = (if k + 1 = m then lst else fs + length ss + 1)"
  define e where "e = (at, [op], TCBranch cond c ft)"
  have R: "R = chain_blocks fs at idx f m lst (Suc k) cs (ss @ [e])"
    using Cons.prems(4) by (simp add: t e_def ft_def Let_def)
  have l: "Suc k + length cs = m" using Cons.prems(1) by simp
  from chain_blocks_spec[OF this, of fs at idx f lst "ss @ [e]"] obtain new where
    new: "R = ss @ e # new" "length new = length cs" unfolding R by auto
  have at: "fst (snd (R ! length ss)) = [op]" "snd (snd (R ! length ss)) = TCBranch cond c ft"
    by (simp_all add: new e_def)
  have "cond = switch_temp at k 1" using t by (simp add: case_test_def Let_def)
  then have dj: "vdisjoint cond idx" using assms(6) Cons.prems(1) by simp
  note run = run_test[OF t assms(4,5) dj]
  let ?hit = "rd s idx = take_bit (bits idx) (f + int k)"
  let ?s = "wr s cond (of_bool ?hit)"
  have step: "follow rd wr fs R (length (c # cs)) s [op] (TCBranch cond c ft) =
      (let b = (if ?hit then c else ft) in
       if fs \<le> b \<and> b - fs < length R
       then follow rd wr fs R (length cs) ?s (fst (snd (R ! (b - fs)))) (snd (snd (R ! (b - fs)))) else Some b)"
    using run(1)[of "\<lambda>op vs. 0" "\<lambda>f vs tr. 0" s] run(2)[of s ?hit] by (simp add: Let_def)
  show ?case
  proof (cases "?hit \<or> cs = []")
    case True
    have "c < fs" "cs = [] \<Longrightarrow> ft = lst" "lst < fs" using Cons.prems(1,3) by (auto simp: ft_def)
    with True show ?thesis unfolding at step by (auto simp: Let_def)
  next
    case False
    then have ft: "ft = fs + length (ss @ [e])" using l by (cases cs) (auto simp: ft_def)
    have "length (ss @ [e]) < length R" using new False by (cases cs) auto
    moreover have "follow rd wr fs R (length cs) ?s (fst (snd (R ! length (ss @ [e])))) (snd (snd (R ! length (ss @ [e])))) =
        Some (pick (bits idx) f (rd s idx) (Suc k) cs lst)"
      using Cons.IH[OF l _ _ R, of ?s] Cons.prems(3) False run(3) by simp
    ultimately show ?thesis using False ft unfolding at step by (simp add: Let_def)
  qed
qed simp

lemma switch_follow:
  assumes "switch_chain ops ss fs at idx f cases = (t, ops', ss')" "cases \<noteq> []" "\<forall>c \<in> set cases. c < fs"
    "0 < vsize idx" "vsize idx \<le> 8" "length cases \<le> 2 ^ bits idx" "\<forall>k < length cases. vdisjoint (switch_temp at k 1) idx"
    "s' = fst (run_ops rd wr (\<lambda>op vs. 0) (\<lambda>f vs tr. 0) (map snd ops) (s, []))"
  shows "follow rd wr fs ss' (length cases) s ops' t = Some (selected (bits idx) f cases (rd s' idx))"
proof -
  let ?tested = "butlast cases" and ?lst = "last cases"
  have sel: "selected (bits idx) f cases v = pick (bits idx) f v 0 ?tested ?lst" if "take_bit (bits idx) v = v" for v
  proof -
    have "0 + length ?tested < 2 ^ bits idx" using assms(2,6) by (cases cases) auto
    from pick_selected[OF that this, of f ?lst] assms(2) show ?thesis by (simp add: selected_def)
  qed
  show ?thesis
  proof (cases ?tested)
    case Nil
    then obtain c where "cases = [c]" using assms(2) by (cases cases rule: rev_cases) auto
    with assms(1) show ?thesis by (auto simp: switch_chain_def selected_def)
  next
    case (Cons c cs)
    obtain cond op where ct: "case_test at idx f 0 = (cond, op)" by (cases "case_test at idx f 0")
    let ?ft = "if cs = [] then ?lst else fs + length ss"
    have r: "t = TCBranch cond c ?ft" "ops' = ops @ [op]"
      "ss' = chain_blocks fs at idx f (Suc (length cs)) ?lst 1 cs ss"
      using assms(1,2) Cons by (auto simp: switch_chain_def ct Let_def)
    have lens: "length cases = Suc (Suc (length cs))" using Cons assms(2) by (metis length_Cons length_append_singleton append_butlast_last_id)
    have small: "c < fs" "\<forall>c \<in> set cs \<union> {?lst}. c < fs"
      using assms(2,3) Cons in_set_butlastD[of _ cases] by (auto simp: last_in_set)
    have "cond = switch_temp at 0 1" using ct by (simp add: case_test_def Let_def)
    then have dj: "vdisjoint cond idx" using assms(7) lens by simp
    note run = run_test[OF ct assms(4,5) dj]
    let ?hit = "rd s' idx = take_bit (bits idx) (f + int 0)"
    let ?s = "wr s' cond (of_bool ?hit)"
    obtain tr where s': "run_ops rd wr (\<lambda>op vs. 0) (\<lambda>f vs tr. 0) (map snd ops) (s, []) = (s', tr)"
      using assms(8) by (metis prod.collapse)
    have "fst (run_ops rd wr (\<lambda>op vs. 0) (\<lambda>f vs tr. 0) (map snd ops') (s, [])) = ?s"
      using run(1)[of "\<lambda>op vs. 0" "\<lambda>f vs tr. 0" s'] ct
      by (auto simp: r(2) s' exec_op_def case_test_def Let_def)
    then have step: "follow rd wr fs ss' (Suc n) s ops' t =
        (let b = (if ?hit then c else ?ft) in
         if fs \<le> b \<and> b - fs < length ss'
         then follow rd wr fs ss' n ?s (fst (snd (ss' ! (b - fs)))) (snd (snd (ss' ! (b - fs)))) else Some b)" for n
      using run(2)[of s' ?hit] by (simp add: r(1) Let_def)
    have goal: "selected (bits idx) f cases (rd s' idx) = (if ?hit then c else pick (bits idx) f (rd s' idx) 1 cs ?lst)"
      using sel[OF rd_bounded] Cons by simp
    show ?thesis
    proof (cases "?hit \<or> cs = []")
      case True
      with small show ?thesis unfolding lens step goal by (auto simp: Let_def)
    next
      case False
      have m: "1 + length cs = Suc (length cs)" by simp
      from chain_blocks_spec[OF m, of fs at idx f ?lst ss] r(3) have "length ss < length ss'" using False by auto
      moreover have f: "follow rd wr fs ss' (length cs) ?s (fst (snd (ss' ! length ss))) (snd (snd (ss' ! length ss))) =
          Some (pick (bits idx) f (rd ?s idx) 1 cs ?lst)"
        using False assms(7) lens by (intro chain_follow[OF m _ small(2) assms(4,5) _ r(3)]) auto
      have "follow rd wr fs ss' (Suc (length cs)) ?s (fst (snd (ss' ! length ss))) (snd (snd (ss' ! length ss))) =
          Some (pick (bits idx) f (rd s' idx) 1 cs ?lst)"
        using follow_more[OF f] unfolding run(3) .
      ultimately show ?thesis using False unfolding lens step goal by (simp add: Let_def del: follow.simps)
    qed
  qed
qed

end

subsection \<open>Call resolution\<close>

text \<open>An adjustment of the traced register sends the search back to itself until its bound.\<close>

lemma resolve_loop_self:
  assumes "same_place out dest" "same_place left dest" "space right = Const" "same_place vn dest"
  shows "resolve_loop n (pre @ [(a, IntAdd out left right), (b, CallInd d)]) dest func_addr all_ops vn adj = IndirectTarget dest"
  using assms(4)
proof (induction n arbitrary: vn adj)
  case (Suc n)
  have "find (\<lambda>(a, op). writes op vn) (rev (pre @ [(a, IntAdd out left right), (b, CallInd d)])) = Some (a, IntAdd out left right)"
    using assms(1) Suc.prems by (simp add: writes_def same_place_def)
  with Suc.IH[OF assms(2)] assms(3) show ?case by (simp add: trace_producer_def)
qed simp

lemma find_rev_last:
  assumes "P x" "\<forall>y \<in> set ys. \<not> P y"
  shows "find P (rev (xs @ x # ys)) = Some x"
proof -
  have "find P (rev ys @ zs) = find P zs" for zs
    using assms(2) by (induction ys arbitrary: zs) auto
  with assms(1) show ?thesis by simp
qed

subsection \<open>Properties\<close>

text \<open>
  C11. Running the comparison chain of a recovered switch on a byte store is the table
  lookup: control leaves the chain at the case whose position is the distance, modulo the
  index width, of the index value from the table's first index, and at the last case when
  the distance is beyond the table. The chain ends within as many blocks as there are
  cases.
\<close>

theorem switch_dispatches:
  assumes "switch_chain ops ss fs at idx f cases = (t, ops', ss')" "cases \<noteq> []" "\<forall>c \<in> set cases. c < fs"
    "0 < vsize idx" "vsize idx \<le> 8" "length cases \<le> 2 ^ bits idx" "\<forall>k < length cases. vdisjoint (switch_temp at k 1) idx"
    "s' = fst (run_ops byte_rd byte_wr (\<lambda>op vs. 0) (\<lambda>f vs tr. 0) (map snd ops) (s, []))"
  shows "follow byte_rd byte_wr fs ss' (length cases) s ops' t =
    Some (cases ! min (nat (take_bit (bits idx) (byte_rd s' idx - f))) (length cases - 1))"
  using byte.switch_follow[OF assms] by (simp add: selected_def)

text \<open>
  A call through a varnode whose last writer in the block copies a constant is direct
  to that constant, and one whose last writer loads from a constant address is direct to
  that address, where the import table knows the callee.
\<close>

theorem resolve_constant_writer:
  assumes "ops = pre @ (a, op) # rest" "\<forall>(b, op') \<in> set rest. \<not> writes op' dest"
    "op = Copy out input \<or> op = Load out sp input" "same_place out dest" "space input = Const"
  shows "resolve_callind_target ops dest func_addr all_ops = Direct (offset input)"
proof -
  have w: "writes op dest" using assms(3,4) by (auto simp: writes_def same_place_def)
  have "find (\<lambda>(a, op). writes op dest) (rev ops) = Some (a, op)"
    unfolding assms(1) using w assms(2) by (intro find_rev_last) auto
  then show ?thesis
    using assms(3,5) by (auto simp: resolve_callind_target_def numeral_eq_Suc trace_producer_def)
qed

text \<open>
  What resolution does when the called register is adjusted in place just before the
  call: whatever wrote the register earlier, a constant included, the call stays
  indirect, since every round of the search finds the adjustment again.
\<close>

theorem resolve_adjusted_register:
  assumes "same_place out dest" "same_place left dest" "space right = Const"
  shows "resolve_callind_target (pre @ [(a, IntAdd out left right), (b, CallInd d)]) dest func_addr all_ops = IndirectTarget dest"
  unfolding resolve_callind_target_def by (rule resolve_loop_self[OF assms]) (simp add: same_place_def)

text \<open>Two calls through one register, which only the code between them sets.\<close>

definition two_calls :: "(u64 \<times> Instruction) list" where
  "two_calls =
     [(0x10, new_instruction 2 [] [CallInd (register 0x18 8)]),
      (0x12, new_instruction 5 [] [Copy (register 0x18 8) (constant_vn 0x4000 8)]),
      (0x17, new_instruction 2 [] [CallInd (register 0x18 8)]),
      (0x19, new_instruction 1 [] [Return (register 0x288 8)])]"

text \<open>
  What construction does to two calls through one register that is set between them:
  both become direct calls to the value set, the first one too, which runs before it.
\<close>

theorem first_call_takes_later_target:
  "map terminator (blocks (build_cfg two_calls)) = [TCall (Direct 0x4000) 1, TCall (Direct 0x4000) 2, TReturn]"
  by code_simp

theorem switch_dispatches_witness:
  "follow byte_rd byte_wr 5 (snd (snd (switch_chain [] [] 5 0x40 (register 0 8) (- 1) [2, 3, 4]))) 3 (\<lambda>sp a. 0)
     (fst (snd (switch_chain [] [] 5 0x40 (register 0 8) (- 1) [2, 3, 4])))
     (fst (switch_chain [] [] 5 0x40 (register 0 8) (- 1) [2, 3, 4])) = Some 3"
proof -
  let ?idx = "register 0 8"
  let ?r = "switch_chain [] [] 5 0x40 ?idx (- 1) [2, 3, 4]"
  have v: "byte_rd (\<lambda>sp a. 0) ?idx = 0" "bits ?idx = 64" by code_simp+
  have "\<forall>k < length [2, 3, 4 :: nat]. vdisjoint (switch_temp 0x40 k 1) ?idx"
    by (simp add: vdisjoint_space switch_temp_def)
  from switch_dispatches[OF _ _ _ _ _ _ this, of "[]" "[]" 5 "- 1" "fst ?r" "fst (snd ?r)" "snd (snd ?r)"
      "\<lambda>sp a. 0" "\<lambda>sp a. 0"]
  have "follow byte_rd byte_wr 5 (snd (snd ?r)) (length [2, 3, 4 :: nat]) (\<lambda>sp a. 0) (fst (snd ?r)) (fst ?r) =
      Some ([2, 3, 4] ! min (nat (take_bit (bits ?idx) (byte_rd (\<lambda>sp a. 0) ?idx - - 1))) (length [2, 3, 4 :: nat] - 1))"
    by (simp add: v(2))
  then show ?thesis by (simp add: v numeral_3_eq_3 del: follow.simps)
qed

theorem resolve_constant_writer_witness:
  "resolve_callind_target [(0x10, Copy (register 0x18 8) (constant_vn 0x4000 8)), (0x12, CallInd (register 0x18 8))]
     (register 0x18 8) 0x10 [] = Direct 0x4000"
  using resolve_constant_writer[where pre = "[]" and a = "0x10" and rest = "[(0x12, CallInd (register 0x18 8))]" and
      dest = "register 0x18 8" and op = "Copy (register 0x18 8) (constant_vn 0x4000 8)" and
      out = "register 0x18 8" and input = "constant_vn 0x4000 8" and func_addr = "0x10" and all_ops = "[]"]
  by (simp add: writes_def same_place_def)

theorem resolve_adjusted_register_witness:
  "resolve_callind_target [(0x10, Copy (register 0x18 8) (constant_vn 0x4000 8)),
      (0x14, IntAdd (register 0x18 8) (register 0x18 8) (constant_vn 8 8)), (0x18, CallInd (register 0x18 8))]
     (register 0x18 8) 0x10 [] = IndirectTarget (register 0x18 8)"
  using resolve_adjusted_register[where pre = "[(0x10, Copy (register 0x18 8) (constant_vn 0x4000 8))]" and
      out = "register 0x18 8" and left = "register 0x18 8" and right = "constant_vn 8 8" and dest = "register 0x18 8" and
      a = "0x14" and b = "0x18" and d = "register 0x18 8" and func_addr = "0x10" and all_ops = "[]"]
  by (simp add: same_place_def)

end
