(* ===== verification/Region.thy ===== *)
theory Region
  imports Ir "HOL-Library.Monad_Syntax" "HOL-Library.Product_Lexorder"
begin

text \<open>
  Exact memory locations, the first half of \<^verbatim>\<open>rsleigh-decompile/src/region.rs\<close>: the
  location type with its derived order and its overlap test, and \<open>exact_location\<close>, the
  bounded resolution of an address expression to a global address or to a frame register
  plus a displacement. An \<open>i64\<close> is an \<open>int\<close> whose checked operations test the range.
  The calling convention is the enumeration of \<^verbatim>\<open>fold.rs\<close>. The counting of work
  (\<open>budget::work\<close>) does not affect results and is left out.
\<close>

subsection \<open>Locations\<close>

datatype CallingConv =
  SysV | Win64 | Cdecl32 | Stdcall32 | Thiscall32 | Fastcall32 | AArch64 | Arm32 | GoAmd64

datatype ExactLocation =
    GlobalLoc u64 u32
  | StackLoc u32 int u32

primrec loc_size :: "ExactLocation \<Rightarrow> u32" where
  "loc_size (GlobalLoc a s) = s"
| "loc_size (StackLoc b d s) = s"

text \<open>The derived order: variants in their order, then the fields in theirs.\<close>

primrec loc_key :: "ExactLocation \<Rightarrow> nat \<times> int \<times> int \<times> int" where
  "loc_key (GlobalLoc a s) = (0, uint a, uint s, 0)"
| "loc_key (StackLoc b d s) = (1, uint b, d, uint s)"

lemma loc_key_inject: "loc_key l = loc_key m \<Longrightarrow> l = m"
  by (cases l; cases m) (auto simp: word_uint_eq_iff)

instantiation ExactLocation :: linorder
begin

definition less_eq_ExactLocation :: "ExactLocation \<Rightarrow> ExactLocation \<Rightarrow> bool" where
  "less_eq_ExactLocation l m \<longleftrightarrow> loc_key l \<le> loc_key m"

definition less_ExactLocation :: "ExactLocation \<Rightarrow> ExactLocation \<Rightarrow> bool" where
  "less_ExactLocation l m \<longleftrightarrow> loc_key l < loc_key m"

instance
  by standard (auto simp: less_eq_ExactLocation_def less_ExactLocation_def loc_key_inject)

end

definition overlaps :: "int \<Rightarrow> u32 \<Rightarrow> int \<Rightarrow> u32 \<Rightarrow> bool" where
  "overlaps a a_size b b_size \<longleftrightarrow> a < b + uint b_size \<and> b < a + uint a_size"

fun may_overlap :: "ExactLocation \<Rightarrow> ExactLocation \<Rightarrow> bool" where
  "may_overlap (GlobalLoc a sa) (GlobalLoc b sb) = overlaps (uint a) sa (uint b) sb"
| "may_overlap (StackLoc a da sa) (StackLoc b db sb) = (if a = b then overlaps da sa db sb else True)"
| "may_overlap _ _ = True"

subsection \<open>Resolving an address\<close>

definition width_ok :: "u32 \<Rightarrow> bool" where
  "width_ok w \<longleftrightarrow> 1 \<le> w \<and> w \<le> 8"

text \<open>\<open>((value << shift) as i64) >> shift\<close> for the shift of a width of 1 to 8 bytes.\<close>

definition sext_bits :: "u64 \<Rightarrow> u32 \<Rightarrow> u64" where
  "sext_bits value width = (let shift = 64 - 8 * unat width in sar64 (shl64 value shift) shift)"

definition offset_of :: "u64 \<Rightarrow> u32 \<Rightarrow> int option" where
  "offset_of value width = (if width_ok width then Some (sint (sext_bits value width)) else None)"

definition width_mask :: "u32 \<Rightarrow> u64" where
  "width_mask w = shr64 (- 1) (64 - 8 * unat w)"

text \<open>
  The constant an expression evaluates to. \<open>left\<close> is the distance of the depth to its
  bound of 64; the shared counter \<open>fuel\<close> is passed along, and a failure abandons it.
\<close>

primrec constant_bits :: "VarDef list \<Rightarrow> nat \<Rightarrow> VarId \<Rightarrow> nat \<Rightarrow> (u64 \<times> nat) option" where
  "constant_bits vs 0 i fuel = None"
| "constant_bits vs (Suc left) i fuel =
     (if fuel = 0 then None
      else do {
        var \<leftarrow> vec_get vs (unat i);
        if \<not> width_ok (var_size var) then None
        else do {
          (value, fuel) \<leftarrow> (case expr var of
              EConst value sz \<Rightarrow> Some (value, fuel - 1)
            | EVar inner \<Rightarrow> constant_bits vs left inner (fuel - 1)
            | EUnaryOp k inner \<Rightarrow>
                if k = UZext then constant_bits vs left inner (fuel - 1)
                else if k = USext then do {
                  (value, fuel) \<leftarrow> constant_bits vs left inner (fuel - 1);
                  v \<leftarrow> vec_get vs (unat inner);
                  if \<not> width_ok (var_size v) \<or> var_size v > var_size var then None
                  else Some (sext_bits value (var_size v), fuel)
                }
                else None
            | EBinOp k a b \<Rightarrow>
                if k = BAdd then do {
                  (x, fuel) \<leftarrow> constant_bits vs left a (fuel - 1);
                  (y, fuel) \<leftarrow> constant_bits vs left b fuel;
                  Some (x + y, fuel)
                }
                else if k = BSub then do {
                  (x, fuel) \<leftarrow> constant_bits vs left a (fuel - 1);
                  (y, fuel) \<leftarrow> constant_bits vs left b fuel;
                  Some (x - y, fuel)
                }
                else None
            | _ \<Rightarrow> None);
          Some (value AND width_mask (var_size var), fuel)
        }
      })"

definition constant_of_var :: "VarDef list \<Rightarrow> VarId \<Rightarrow> int option" where
  "constant_of_var vs i = do {
     (value, fuel) \<leftarrow> constant_bits vs 64 i 64;
     var \<leftarrow> vec_get vs (unat i);
     offset_of value (var_size var)
   }"

definition in_i64 :: "int \<Rightarrow> bool" where
  "in_i64 d \<longleftrightarrow> - (2 ^ 63) \<le> d \<and> d < 2 ^ 63"

definition checked_add_signed :: "u64 \<Rightarrow> int \<Rightarrow> u64 option" where
  "checked_add_signed a d =
     (let s = uint a + d in if 0 \<le> s \<and> s < 2 ^ 64 then Some (word_of_int s) else None)"

definition adjust :: "u32 \<Rightarrow> ExactLocation \<Rightarrow> int \<Rightarrow> ExactLocation option" where
  "adjust vsz location displacement = (case location of
     GlobalLoc a sz \<Rightarrow> do {
       a \<leftarrow> checked_add_signed a displacement;
       if vsz < 8 \<and> a \<ge> shl64 1 (8 * unat vsz) then None
       else if uint a + uint sz < 2 ^ 64 then Some (GlobalLoc a sz)
       else None
     }
   | StackLoc base prior sz \<Rightarrow>
       if in_i64 (prior + displacement) then Some (StackLoc base (prior + displacement) sz) else None)"

text \<open>\<open>left\<close> is again the distance of the depth to 64.\<close>

primrec resolve :: "VarDef list \<Rightarrow> u64 list \<Rightarrow> u32 \<Rightarrow> nat \<Rightarrow> VarId \<Rightarrow> ExactLocation option" where
  "resolve vs frames sz 0 ptr = None"
| "resolve vs frames sz (Suc left) ptr =
     (if sz = 0 then None
      else do {
        var \<leftarrow> vec_get vs (unat ptr);
        (case expr var of
           EConst a w \<Rightarrow> if uint a + uint sz < 2 ^ 64 then Some (GlobalLoc a sz) else None
         | EUnknown \<Rightarrow>
             if space (varnode var) = Register \<and> offset (varnode var) \<in> set frames \<and> \<not> call_return var
             then Some (StackLoc ptr 0 sz) else None
         | EVar inner \<Rightarrow> resolve vs frames sz left inner
         | EBinOp k a b \<Rightarrow>
             if k = BAdd then
               (case constant_of_var vs b of
                  Some displacement \<Rightarrow> do {
                    l \<leftarrow> resolve vs frames sz left a;
                    adjust (var_size var) l displacement
                  }
                | None \<Rightarrow> do {
                    l \<leftarrow> resolve vs frames sz left b;
                    displacement \<leftarrow> constant_of_var vs a;
                    adjust (var_size var) l displacement
                  })
             else if k = BSub then do {
               l \<leftarrow> resolve vs frames sz left a;
               d \<leftarrow> constant_of_var vs b;
               if in_i64 (- d) then adjust (var_size var) l (- d) else None
             }
             else None
         | _ \<Rightarrow> None)
      })"

primrec frame_registers :: "CallingConv \<Rightarrow> u64 list" where
  "frame_registers SysV = [32, 40]"
| "frame_registers Win64 = [32, 40]"
| "frame_registers GoAmd64 = [32, 40]"
| "frame_registers Cdecl32 = [16, 20]"
| "frame_registers Stdcall32 = [16, 20]"
| "frame_registers Thiscall32 = [16, 20]"
| "frame_registers Fastcall32 = [16, 20]"
| "frame_registers AArch64 = [8, 16616]"
| "frame_registers Arm32 = [84, 76]"

definition exact_location :: "VarDef list \<Rightarrow> VarId \<Rightarrow> u32 \<Rightarrow> CallingConv \<Rightarrow> ExactLocation option" where
  "exact_location vs ptr sz cc = resolve vs (frame_registers cc) sz 64 ptr"

end
