(* ===== verification/RegionSound.thy ===== *)
theory RegionSound
  imports Region
begin

text \<open>
  What an exact location means. \<open>addr_value\<close> relates a variable to the numbers it can
  hold in an execution: its address arithmetic is evaluated at the widths of the
  variables, an incoming frame register has its value at entry, a load any value in its
  history, and everything else is unconstrained. A resolved location is then the only
  address its variable can hold, and locations that do not overlap are disjoint ranges
  of bytes. The analysed table may be ahead of the executed one: loads in it may already
  be replaced by copies of what they read (\<open>forwards\<close>).
\<close>

subsection \<open>Values of address expressions\<close>

abbreviation bits_of :: "VarDef \<Rightarrow> nat" where
  "bits_of v \<equiv> 8 * unat (var_size v)"

definition size_of :: "VarDef list \<Rightarrow> VarId \<Rightarrow> u32" where
  "size_of vs i = (case vec_get vs (unat i) of Some v \<Rightarrow> var_size v | None \<Rightarrow> 0)"

definition is_frame :: "u64 list \<Rightarrow> VarDef \<Rightarrow> bool" where
  "is_frame frames v \<longleftrightarrow> expr v = EUnknown \<and> space (varnode v) = Register \<and>
     offset (varnode v) \<in> set frames \<and> \<not> call_return v"

definition is_arith :: "Expr \<Rightarrow> bool" where
  "is_arith e \<longleftrightarrow> (case e of EConst c w \<Rightarrow> True | EVar j \<Rightarrow> True
     | EBinOp k a b \<Rightarrow> k = BAdd \<or> k = BSub | EUnaryOp k j \<Rightarrow> k = UZext \<or> k = USext | _ \<Rightarrow> False)"

inductive addr_value ::
  "VarDef list \<Rightarrow> u64 list \<Rightarrow> (VarId \<Rightarrow> int) \<Rightarrow> (VarId \<Rightarrow> int set) \<Rightarrow> VarId \<Rightarrow> int \<Rightarrow> bool"
  for vs :: "VarDef list" and frames :: "u64 list" and base :: "VarId \<Rightarrow> int" and hist :: "VarId \<Rightarrow> int set"
where
  const: "\<lbrakk>vec_get vs (unat i) = Some v; expr v = EConst c w\<rbrakk>
    \<Longrightarrow> addr_value vs frames base hist i (take_bit (bits_of v) (uint c))"
| copy: "\<lbrakk>vec_get vs (unat i) = Some v; expr v = EVar j; addr_value vs frames base hist j x\<rbrakk>
    \<Longrightarrow> addr_value vs frames base hist i (take_bit (bits_of v) x)"
| add: "\<lbrakk>vec_get vs (unat i) = Some v; expr v = EBinOp BAdd a b;
      addr_value vs frames base hist a x; addr_value vs frames base hist b y\<rbrakk>
    \<Longrightarrow> addr_value vs frames base hist i (take_bit (bits_of v) (x + y))"
| sub: "\<lbrakk>vec_get vs (unat i) = Some v; expr v = EBinOp BSub a b;
      addr_value vs frames base hist a x; addr_value vs frames base hist b y\<rbrakk>
    \<Longrightarrow> addr_value vs frames base hist i (take_bit (bits_of v) (x - y))"
| zext: "\<lbrakk>vec_get vs (unat i) = Some v; expr v = EUnaryOp UZext j; addr_value vs frames base hist j x\<rbrakk>
    \<Longrightarrow> addr_value vs frames base hist i (take_bit (bits_of v) x)"
| sext: "\<lbrakk>vec_get vs (unat i) = Some v; expr v = EUnaryOp USext j; addr_value vs frames base hist j x\<rbrakk>
    \<Longrightarrow> addr_value vs frames base hist i
         (take_bit (bits_of v) (signed_take_bit (8 * unat (size_of vs j) - 1) x))"
| frame: "\<lbrakk>vec_get vs (unat i) = Some v; is_frame frames v\<rbrakk>
    \<Longrightarrow> addr_value vs frames base hist i (take_bit (bits_of v) (base i))"
| loaded: "\<lbrakk>vec_get vs (unat i) = Some v; expr v = ELoad p; x \<in> hist i\<rbrakk>
    \<Longrightarrow> addr_value vs frames base hist i x"
| other: "\<lbrakk>vec_get vs (unat i) = Some v; \<not> is_arith (expr v); \<not> is_frame frames v; \<forall>p. expr v \<noteq> ELoad p\<rbrakk>
    \<Longrightarrow> addr_value vs frames base hist i x"
| missing: "vec_get vs (unat i) = None \<Longrightarrow> addr_value vs frames base hist i x"

lemma addr_value_mono:
  "addr_value vs frames base hist i x \<Longrightarrow> \<forall>j. hist j \<subseteq> hist' j \<Longrightarrow> addr_value vs frames base hist' i x"
proof (induction rule: addr_value.induct)
  case (sext i v j x)
  then show ?case by (intro addr_value.sext)
qed (auto intro: addr_value.intros)

text \<open>A variable's value, read off its definition.\<close>

lemma addr_value_lookup:
  assumes "addr_value vs frames base hist i x" "vec_get vs (unat i) = Some v"
  shows addr_value_const: "expr v = EConst c w \<Longrightarrow> x = take_bit (bits_of v) (uint c)"
    and addr_value_copy: "expr v = EVar j \<Longrightarrow> \<exists>y. addr_value vs frames base hist j y \<and> x = take_bit (bits_of v) y"
    and addr_value_add: "expr v = EBinOp BAdd a b \<Longrightarrow> \<exists>y z. addr_value vs frames base hist a y \<and>
           addr_value vs frames base hist b z \<and> x = take_bit (bits_of v) (y + z)"
    and addr_value_sub: "expr v = EBinOp BSub a b \<Longrightarrow> \<exists>y z. addr_value vs frames base hist a y \<and>
           addr_value vs frames base hist b z \<and> x = take_bit (bits_of v) (y - z)"
    and addr_value_zext: "expr v = EUnaryOp UZext j \<Longrightarrow>
           \<exists>y. addr_value vs frames base hist j y \<and> x = take_bit (bits_of v) y"
    and addr_value_sext: "expr v = EUnaryOp USext j \<Longrightarrow> \<exists>y. addr_value vs frames base hist j y \<and>
           x = take_bit (bits_of v) (signed_take_bit (8 * unat (size_of vs j) - 1) y)"
    and addr_value_frame: "is_frame frames v \<Longrightarrow> x = take_bit (bits_of v) (base i)"
    and addr_value_loaded: "expr v = ELoad p \<Longrightarrow> x \<in> hist i"
  using assms(1)
  by (cases rule: addr_value.cases; use assms(2) in \<open>force simp: is_frame_def is_arith_def\<close>)+

subsection \<open>Constants\<close>

lemma width_ok_bits: "width_ok w \<Longrightarrow> 8 \<le> 8 * unat w \<and> 8 * unat w \<le> 64"
  by (simp add: width_ok_def word_le_nat_alt)

lemma uint_width_mask:
  assumes "width_ok w"
  shows "uint (v AND width_mask w) = take_bit (8 * unat w) (uint v)"
proof -
  let ?n = "8 * unat w"
  have n: "?n \<le> 64" "8 \<le> ?n" using width_ok_bits[OF assms] by auto
  have "v AND width_mask w = take_bit ?n v"
    using n by (intro bit_word_eqI) (auto simp: width_mask_def shr64_def bit_simps)
  then show ?thesis by (simp add: unsigned_take_bit_eq)
qed

lemma sint_sext_bits:
  assumes "width_ok w"
  shows "sint (sext_bits v w) = signed_take_bit (8 * unat w - 1) (uint v)"
proof -
  let ?n = "8 * unat w"
  have n: "?n \<le> 64" "8 \<le> ?n" using width_ok_bits[OF assms] by auto
  have top: "k = ?n - 1" if "\<not> ?n \<le> k" "?n - Suc 0 \<le> k" for k
    using that by simp
  have "sext_bits v w = signed_take_bit (?n - 1) v"
    using n by (intro bit_word_eqI)
      (auto simp: sext_bits_def sar64_def shl64_def Let_def bit_simps min_def dest: top)
  then show ?thesis
    using n by (intro bit_eqI) (auto simp: bit_simps min_def)
qed

text \<open>
  The analysed table \<open>vs'\<close> extends the executed one: a load may have become a copy of a
  variable that holds what the load read, and new variables are phis.
\<close>

definition forwards ::
  "VarDef list \<Rightarrow> VarDef list \<Rightarrow> u64 list \<Rightarrow> (VarId \<Rightarrow> int) \<Rightarrow> (VarId \<Rightarrow> int set) \<Rightarrow> bool" where
  "forwards vs vs' frames base hist \<longleftrightarrow>
     (\<forall>i v. vec_get vs (unat i) = Some v \<longrightarrow>
        (\<exists>v'. vec_get vs' (unat i) = Some v' \<and> var_size v' = var_size v \<and> varnode v' = varnode v \<and>
           call_return v' = call_return v \<and>
           (expr v' = expr v \<or>
            (\<exists>p w. expr v = ELoad p \<and> expr v' = EVar w \<and> unat w < length vs' \<and> size_of vs' w = var_size v \<and>
               (\<forall>x \<in> hist i. addr_value vs frames base hist w x))))) \<and>
     (\<forall>(i::VarId) v'. vec_get vs (unat i) = None \<longrightarrow> vec_get vs' (unat i) = Some v' \<longrightarrow> (\<exists>is. expr v' = EPhi is))"

lemma forwards_refl: "forwards vs vs frames base hist"
  by (auto simp: forwards_def)

lemma forwards_lookup:
  assumes "forwards vs vs' frames base hist" "vec_get vs' (unat i) = Some v'" "addr_value vs frames base hist i x"
  obtains (phi) "\<exists>is. expr v' = EPhi is"
  | (same) v where "vec_get vs (unat i) = Some v" "var_size v' = var_size v" "expr v' = expr v"
      "is_frame frames v' \<longleftrightarrow> is_frame frames v"
  | (load) w where "expr v' = EVar w" "size_of vs' w = var_size v'" "addr_value vs frames base hist w x"
      "size_of vs i = var_size v'"
proof (cases "vec_get vs (unat i)")
  case None
  then show thesis using assms(1,2) phi unfolding forwards_def by blast
next
  case (Some v)
  then obtain v'' where v: "vec_get vs' (unat i) = Some v''" "var_size v'' = var_size v" "varnode v'' = varnode v"
      "call_return v'' = call_return v"
      "expr v'' = expr v \<or> (\<exists>p w. expr v = ELoad p \<and> expr v'' = EVar w \<and> unat w < length vs' \<and> size_of vs' w = var_size v \<and>
         (\<forall>x \<in> hist i. addr_value vs frames base hist w x))"
    using assms(1) unfolding forwards_def by blast
  have e: "v'' = v'" using v(1) assms(2) by simp
  show thesis
  proof (cases "expr v'' = expr v")
    case True
    then show thesis using v same[OF Some] unfolding e by (simp add: is_frame_def)
  next
    case False
    then obtain p w where "expr v = ELoad p" "expr v' = EVar w" "size_of vs' w = var_size v"
        "\<forall>x \<in> hist i. addr_value vs frames base hist w x"
      using v(5) unfolding e by blast
    then show thesis
      using load[of w] addr_value_loaded[OF assms(3) Some] v(2) Some unfolding e by (simp add: size_of_def)
  qed
qed

lemma size_of_simp: "vec_get vs (unat i) = Some v \<Longrightarrow> size_of vs i = var_size v"
  by (simp add: size_of_def)

lemma take_uint_add: "n \<le> 64 \<Longrightarrow> take_bit n (uint (a + b :: u64)) = take_bit n (uint a + uint b)"
  and take_uint_sub: "n \<le> 64 \<Longrightarrow> take_bit n (uint (a - b :: u64)) = take_bit n (uint a - uint b)"
proof -
  have m: "c mod 18446744073709551616 = take_bit 64 c" for c :: int
    by (simp add: take_bit_eq_mod)
  show "n \<le> 64 \<Longrightarrow> take_bit n (uint (a + b)) = take_bit n (uint a + uint b)"
    and "n \<le> 64 \<Longrightarrow> take_bit n (uint (a - b)) = take_bit n (uint a - uint b)"
    by (simp_all add: uint_word_ariths m take_bit_take_bit min_def)
qed

lemma constant_bits_sound:
  assumes "forwards vs vs' frames base hist"
  shows "constant_bits vs' left i fuel = Some (c, fuel') \<Longrightarrow> addr_value vs frames base hist i x \<Longrightarrow>
    x = uint c \<and> uint c = take_bit (8 * unat (size_of vs' i)) (uint c)"
proof (induction left arbitrary: i fuel c fuel' x)
  case (Suc left)
  from Suc.prems(1) obtain v' r where v': "vec_get vs' (unat i) = Some v'" "width_ok (var_size v')"
      and c: "c = r AND width_mask (var_size v')"
      and res: "(case expr v' of
              EConst value sz \<Rightarrow> Some (value, fuel - 1)
            | EVar inner \<Rightarrow> constant_bits vs' left inner (fuel - 1)
            | EUnaryOp k inner \<Rightarrow>
                if k = UZext then constant_bits vs' left inner (fuel - 1)
                else if k = USext then do {
                  (value, fuel) \<leftarrow> constant_bits vs' left inner (fuel - 1);
                  v \<leftarrow> vec_get vs' (unat inner);
                  if \<not> width_ok (var_size v) \<or> var_size v > var_size v' then None
                  else Some (sext_bits value (var_size v), fuel)
                }
                else None
            | EBinOp k a b \<Rightarrow>
                if k = BAdd then do {
                  (x, fuel) \<leftarrow> constant_bits vs' left a (fuel - 1);
                  (y, fuel) \<leftarrow> constant_bits vs' left b fuel;
                  Some (x + y, fuel)
                }
                else if k = BSub then do {
                  (x, fuel) \<leftarrow> constant_bits vs' left a (fuel - 1);
                  (y, fuel) \<leftarrow> constant_bits vs' left b fuel;
                  Some (x - y, fuel)
                }
                else None
            | _ \<Rightarrow> None) = Some (r, fuel')"
    by (auto split: if_splits bind_splits)
  let ?n = "8 * unat (var_size v')"
  have n: "?n \<le> 64" using width_ok_bits[OF v'(2)] by simp
  have uc: "uint c = take_bit ?n (uint r)"
    unfolding c by (rule uint_width_mask[OF v'(2)])
  have goal: ?case if "x = take_bit ?n (uint r)"
    using that uc by (simp add: size_of_simp[OF v'(1)])
  from assms v'(1) Suc.prems(2) show ?case
  proof (cases rule: forwards_lookup)
    case phi
    then show ?thesis using res by auto
  next
    case (load w)
    with res have "constant_bits vs' left w (fuel - 1) = Some (r, fuel')" by simp
    from Suc.IH[OF this load(3)] load(2) show ?thesis
      by (intro goal) simp
  next
    case (same v)
    note e = addr_value_lookup[OF Suc.prems(2) same(1)]
    show ?thesis
    proof (cases "expr v'")
      case (EConst a w)
      then show ?thesis using e(1) res same by (intro goal) simp
    next
      case (EVar j)
      then show ?thesis using e(2) res same by (intro goal) (auto dest!: Suc.IH)
    next
      case (EUnaryOp k j)
      show ?thesis
      proof (cases "k = UZext")
        case True
        then show ?thesis using EUnaryOp e(5) res same by (intro goal) (auto dest!: Suc.IH)
      next
        case False
        with res EUnaryOp obtain y f u where u: "k = USext" "constant_bits vs' left j (fuel - 1) = Some (y, f)"
            "vec_get vs' (unat j) = Some u" "width_ok (var_size u)" "r = sext_bits y (var_size u)"
          by (auto split: if_splits bind_splits)
        from e(6) EUnaryOp u(1) same obtain z where z: "addr_value vs frames base hist j z"
            "x = take_bit ?n (signed_take_bit (8 * unat (size_of vs j) - 1) z)"
          by auto
        have "size_of vs j = var_size u"
        proof -
          from assms u(3) z(1) show ?thesis
            by (cases rule: forwards_lookup) (use u(2,3) in \<open>cases left; auto simp: size_of_simp split: if_splits\<close>)+
        qed
        moreover have "z = uint y" using Suc.IH[OF u(2) z(1)] by simp
        moreover have "take_bit ?n (uint r) = take_bit ?n (sint r)"
          using n by (simp add: uint_sint take_bit_take_bit min_def)
        ultimately show ?thesis
          using z(2) u(4,5) by (intro goal) (simp add: sint_sext_bits)
      qed
    next
      case (EBinOp k a b)
      with res obtain y z f where yz: "constant_bits vs' left a (fuel - 1) = Some (y, f)"
          "constant_bits vs' left b f = Some (z, fuel')" "k = BAdd \<and> r = y + z \<or> k = BSub \<and> r = y - z"
        by (auto split: if_splits bind_splits)
      from e(3,4) EBinOp same yz(3) obtain p q where "addr_value vs frames base hist a p"
          "addr_value vs frames base hist b q"
          "x = take_bit ?n (p + q) \<and> r = y + z \<or> x = take_bit ?n (p - q) \<and> r = y - z"
        by (smt (verit))
      with yz Suc.IH have "x = take_bit ?n (uint y + uint z) \<and> r = y + z \<or> x = take_bit ?n (uint y - uint z) \<and> r = y - z"
        by blast
      then show ?thesis
        using n by (intro goal) (auto simp: take_uint_add take_uint_sub)
    qed (use res in auto)
  qed
qed simp

subsection \<open>Locations\<close>

lemma constant_of_var_sound:
  assumes "forwards vs vs' frames base hist" "constant_of_var vs' i = Some d" "addr_value vs frames base hist i x"
  shows "x = take_bit (8 * unat (size_of vs' i)) d" "take_bit (8 * unat (size_of vs' i)) x = x"
proof -
  from assms(2) obtain c f v where c: "constant_bits vs' 64 i 64 = Some (c, f)" "vec_get vs' (unat i) = Some v"
      "width_ok (var_size v)" "d = sint (sext_bits c (var_size v))"
    by (auto simp: constant_of_var_def offset_of_def split: bind_splits if_splits)
  have x: "x = uint c" "uint c = take_bit (8 * unat (size_of vs' i)) (uint c)"
    using constant_bits_sound[OF assms(1) c(1) assms(3)] by auto
  then show "take_bit (8 * unat (size_of vs' i)) x = x" by simp
  show "x = take_bit (8 * unat (size_of vs' i)) d"
    using x width_ok_bits[OF c(3)] unfolding c(4) sint_sext_bits[OF c(3)]
    by (simp add: size_of_simp[OF c(2)] take_bit_signed_take_bit)
qed

text \<open>
  Widths along a resolved address agree, as in P-code, and a constant base address lies
  within its own.
\<close>

definition sized_var :: "VarDef list \<Rightarrow> VarDef \<Rightarrow> bool" where
  "sized_var vs v \<longleftrightarrow> (case expr v of
     EConst c w \<Rightarrow> uint c < 2 ^ bits_of v
   | EVar j \<Rightarrow> size_of vs j = var_size v
   | EBinOp k a b \<Rightarrow> size_of vs a = var_size v \<and> size_of vs b = var_size v
   | _ \<Rightarrow> True)"

text \<open>The variables \<open>resolve\<close> goes through, its base included; displacements may have any bits.\<close>

primrec path_sized :: "VarDef list \<Rightarrow> nat \<Rightarrow> VarId \<Rightarrow> bool" where
  "path_sized vs 0 i \<longleftrightarrow> True"
| "path_sized vs (Suc n) i \<longleftrightarrow> (case vec_get vs (unat i) of None \<Rightarrow> True
     | Some v \<Rightarrow> sized_var vs v \<and> (case expr v of
         EVar j \<Rightarrow> path_sized vs n j
       | EBinOp k a b \<Rightarrow> path_sized vs n (if k = BAdd \<and> constant_of_var vs b = None then b else a)
       | _ \<Rightarrow> True))"

primrec loc_holds :: "(VarId \<Rightarrow> int) \<Rightarrow> nat \<Rightarrow> int \<Rightarrow> ExactLocation \<Rightarrow> bool" where
  "loc_holds base n x (GlobalLoc a s) \<longleftrightarrow> x = uint a \<and> uint a < 2 ^ n \<and> uint a + uint s < 2 ^ 64"
| "loc_holds base n x (StackLoc b d s) \<longleftrightarrow> x = take_bit n (base b + d)"

lemma adjust_sound:
  assumes "adjust vsz l d = Some l'" "loc_holds base n x l" "n = 8 * unat vsz" "take_bit n z = take_bit n d"
  shows "loc_holds base n (take_bit n (x + z)) l' \<and> loc_size l' = loc_size l"
proof (cases l)
  case (GlobalLoc a s)
  have u: "uint (a + word_of_int d) = uint a + d" if "0 \<le> uint a + d" "uint a + d < 2 ^ 64"
  proof -
    have "a + word_of_int d = word_of_int (uint a + d)" by simp
    then show ?thesis using that by (simp only: uint_word_of_int_eq) (simp add: take_bit_int_eq_self)
  qed
  from assms(1) GlobalLoc have r: "0 \<le> uint a + d" "uint a + d < 2 ^ 64" "uint a + d + uint s < 2 ^ 64"
      "l' = GlobalLoc (a + word_of_int d) s" "\<not> (vsz < 8 \<and> a + word_of_int d \<ge> shl64 1 n)"
    by (auto simp: adjust_def checked_add_signed_def Let_def assms(3) u split: bind_splits if_splits)
  have lt: "uint a + d < 2 ^ n"
  proof (cases "vsz < 8")
    case True
    then have n: "n < 64" by (simp add: assms(3) word_less_nat_alt)
    have "uint (shl64 1 n) = 2 ^ n"
    proof -
      have "shl64 1 n = word_of_int (2 ^ n)" using n by (simp add: shl64_def)
      then show ?thesis using n by (simp only: uint_word_of_int_eq) (simp add: take_bit_int_eq_self)
    qed
    then show ?thesis using r(5) True u[OF r(1,2)] by (simp add: word_le_def not_le)
  next
    case False
    then have "64 \<le> n" by (simp add: assms(3) word_less_nat_alt not_less)
    then have "(2::int) ^ 64 \<le> 2 ^ n" by (intro power_increasing) auto
    then show ?thesis using r(2) by linarith
  qed
  have "take_bit n (x + z) = take_bit n (uint a + d)"
    using assms(2,4) GlobalLoc by (metis loc_holds.simps(1) take_bit_add)
  then show ?thesis using r(1,3,4) lt u[OF r(1,2)] GlobalLoc by (simp add: take_bit_int_eq_self)
next
  case (StackLoc b p s)
  have "take_bit n (x + z) = take_bit n (base b + p + d)"
    using assms(2,4) StackLoc by (metis loc_holds.simps(2) take_bit_add take_bit_take_bit min.idem)
  then show ?thesis using assms(1) StackLoc by (auto simp: adjust_def add.assoc split: if_splits)
qed

lemma resolve_sound:
  assumes "forwards vs vs' frames base hist"
  shows "resolve vs' frames s left p = Some l \<Longrightarrow> path_sized vs' left p \<Longrightarrow> addr_value vs frames base hist p x \<Longrightarrow>
    loc_holds base (8 * unat (size_of vs' p)) x l \<and> loc_size l = s"
proof (induction left arbitrary: p l x)
  case (Suc left)
  from Suc.prems(1) obtain v' where v': "vec_get vs' (unat p) = Some v'" "s \<noteq> 0"
    by (auto split: if_splits bind_splits)
  have sz: "sized_var vs' v'" using Suc.prems(2) v'(1) by simp
  note path = Suc.prems(2)[unfolded path_sized.simps v'(1) option.case]
  let ?n = "8 * unat (size_of vs' p)"
  note sp = size_of_simp[OF v'(1)]
  note r = Suc.prems(1)[unfolded resolve.simps v'(1)]
  have arith: ?case if
    l: "resolve vs' frames s left a = Some m" "adjust (var_size v') m d' = Some l"
      "size_of vs' a = var_size v'" "addr_value vs frames base hist a y" "path_sized vs' left a"
    and z: "x = take_bit ?n (y + z)" "take_bit ?n z = take_bit ?n d'" for a m d' y z
    using adjust_sound[OF l(2) _ _ z(2), of base y] Suc.IH[OF l(1,5,4)] l(3) z(1) sp by auto
  from assms(1) v'(1) Suc.prems(3) show ?case
  proof (cases rule: forwards_lookup)
    case phi
    then show ?thesis using r v'(2) by auto
  next
    case (load w)
    then show ?thesis using r v'(2) Suc.IH[of w l x] sp path by auto
  next
    case (same v)
    note e = addr_value_lookup[OF Suc.prems(3) same(1)]
    show ?thesis
    proof (cases "expr v'")
      case (EConst a w)
      then show ?thesis using r v'(2) e(1) same sp sz
        by (auto simp: sized_var_def take_bit_int_eq_self split: if_splits)
    next
      case EUnknown
      then show ?thesis using r v'(2) e(7) same sp by (auto simp: is_frame_def split: if_splits)
    next
      case (EVar j)
      with e(2)[of j] same(3) obtain y where y: "addr_value vs frames base hist j y" "x = take_bit ?n y"
        using sp same(2) by metis
      have "loc_holds base ?n y l \<and> loc_size l = s"
        using Suc.IH[of j l y] r v'(2) EVar y(1) sz sp path by (auto simp: sized_var_def)
      then show ?thesis using y(2) by (cases l) (auto simp: take_bit_int_eq_self)
    next
      case (EBinOp k a b)
      have sab: "size_of vs' a = var_size v'" "size_of vs' b = var_size v'"
        using sz EBinOp by (auto simp: sized_var_def)
      note c = constant_of_var_sound(1)[OF assms(1)]
      show ?thesis
      proof (cases "k = BAdd")
        case True
        with e(3)[of a b] EBinOp same(3) obtain y z where yz: "addr_value vs frames base hist a y"
            "addr_value vs frames base hist b z" "x = take_bit ?n (y + z)"
          using sp same(2) by metis
        show ?thesis
        proof (cases "constant_of_var vs' b")
          case (Some d)
          then obtain m where "resolve vs' frames s left a = Some m" "adjust (var_size v') m d = Some l"
            using r v'(2) EBinOp True by (auto split: bind_splits)
          moreover have "path_sized vs' left a" using path EBinOp Some by simp
          ultimately show ?thesis using arith[OF _ _ sab(1) yz(1) _ yz(3)] c[OF Some yz(2)] sab(2) sp by simp
        next
          case None
          then obtain m d where m: "resolve vs' frames s left b = Some m" "adjust (var_size v') m d = Some l"
              "constant_of_var vs' a = Some d"
            using r v'(2) EBinOp True by (auto split: bind_splits)
          moreover have "path_sized vs' left b" using path EBinOp None True by simp
          ultimately show ?thesis using arith[OF m(1,2) sab(2) yz(2), of y] yz(3) c[OF m(3) yz(1)] sab(1) sp
            by (simp add: add.commute)
        qed
      next
        case False
        then obtain m d where m: "k = BSub" "resolve vs' frames s left a = Some m"
            "constant_of_var vs' b = Some d" "adjust (var_size v') m (- d) = Some l"
          using r v'(2) EBinOp by (auto split: bind_splits if_splits)
        with e(4)[of a b] EBinOp same(3) obtain y z where yz: "addr_value vs frames base hist a y"
            "addr_value vs frames base hist b z" "x = take_bit ?n (y - z)"
          using sp same(2) by metis
        have "take_bit ?n (- z) = take_bit ?n (- d)"
          using c[OF m(3) yz(2)] sab(2) sp by (metis take_bit_minus)
        moreover have "path_sized vs' left a" using path EBinOp m(1) by simp
        ultimately show ?thesis using arith[OF m(2,4) sab(1) yz(1), of "- z"] yz(3) by simp
      qed
    qed (use r v'(2) in auto)
  qed
qed simp

primrec loc_addr :: "(VarId \<Rightarrow> int) \<Rightarrow> ExactLocation \<Rightarrow> int" where
  "loc_addr base (GlobalLoc a s) = uint a"
| "loc_addr base (StackLoc b d s) = base b + d"

definition loc_bytes :: "(VarId \<Rightarrow> int) \<Rightarrow> ExactLocation \<Rightarrow> int set" where
  "loc_bytes base l = {loc_addr base l ..< loc_addr base l + uint (loc_size l)}"

text \<open>
  What makes a resolved address exact: consistent widths on its way, and a frame that stays
  inside the address space there: the entry value of the base register plus the displacement
  is an address of the pointer's width.
\<close>

definition address_ok :: "VarDef list \<Rightarrow> CallingConv \<Rightarrow> (VarId \<Rightarrow> int) \<Rightarrow> VarId \<Rightarrow> bool" where
  "address_ok vs cc base p \<longleftrightarrow> (\<forall>s l. exact_location vs p s cc = Some l \<longrightarrow> path_sized vs 64 p \<and>
     (\<forall>b d t. l = StackLoc b d t \<longrightarrow> 0 \<le> base b + d \<and> base b + d < 2 ^ (8 * unat (size_of vs p))))"

lemma exact_location_addr:
  assumes "forwards vs vs' (frame_registers cc) base hist" "address_ok vs' cc base p"
    "exact_location vs' p s cc = Some l" "addr_value vs (frame_registers cc) base hist p x"
  shows "x = loc_addr base l \<and> loc_size l = s"
proof -
  have "path_sized vs' 64 p" using assms(2,3) by (auto simp: address_ok_def)
  then have h: "loc_holds base (8 * unat (size_of vs' p)) x l" "loc_size l = s"
    using resolve_sound[OF assms(1)] assms(3,4) unfolding exact_location_def by blast+
  show ?thesis
  proof (cases l)
    case (StackLoc b d t)
    then have "0 \<le> base b + d \<and> base b + d < 2 ^ (8 * unat (size_of vs' p))"
      using assms(2,3) unfolding address_ok_def by blast
    then show ?thesis using h StackLoc by (simp add: take_bit_int_eq_self)
  qed (use h in auto)
qed

lemma exact_location_pos: "exact_location vs p s cc = Some l \<Longrightarrow> s \<noteq> 0"
  by (auto simp: exact_location_def numeral_eq_Suc split: if_splits)

lemma may_overlap_disjoint: "\<not> may_overlap l m \<Longrightarrow> loc_bytes base l \<inter> loc_bytes base m = {}"
  by (cases "(l, m)" rule: may_overlap.cases)
    (auto simp: loc_bytes_def overlaps_def split: if_splits)

lemma may_overlap_self: "loc_size l \<noteq> 0 \<Longrightarrow> may_overlap l l"
  by (cases l) (auto simp: overlaps_def word_neq_0_conv word_less_def)

lemma may_overlap_sym: "may_overlap l m \<longleftrightarrow> may_overlap m l"
  by (cases "(l, m)" rule: may_overlap.cases) (auto simp: overlaps_def)

subsection \<open>Properties\<close>

text \<open>
  C20. Exact locations are exact. Let two accessed addresses resolve, each with consistent
  widths from the pointer to its base (a constant base lies within its width; displacements
  are read modulo theirs) and, if the base is a frame register, with a sum of its value and
  the displacement that stays in the address space. Then every value each can hold in an
  execution is its location's address, the location covers the access, and if the two
  locations do not overlap the two accesses touch disjoint bytes. Nothing is asked of the
  other variables of the table.
\<close>

theorem exact_locations_sound:
  assumes "address_ok vs cc base p" "address_ok vs cc base q"
    and "exact_location vs p s cc = Some l" "exact_location vs q t cc = Some m"
    and "addr_value vs (frame_registers cc) base hist p x" "addr_value vs (frame_registers cc) base hist q y"
  shows "x = loc_addr base l \<and> loc_size l = s \<and> y = loc_addr base m \<and> loc_size m = t \<and>
    (may_overlap l m \<or> {x ..< x + uint s} \<inter> {y ..< y + uint t} = {})"
proof -
  note a = exact_location_addr[OF forwards_refl]
  from a[OF assms(1,3,5)] a[OF assms(2,4,6)] may_overlap_disjoint[of l m base] show ?thesis
    by (auto simp: loc_bytes_def)
qed

definition address_var :: "u64 \<Rightarrow> u32 \<Rightarrow> Expr \<Rightarrow> VarDef" where
  "address_var off sz e = (blank_vardef 0)\<lparr>varnode := register off sz, expr := e, var_size := sz\<rparr>"

lemma address_var_simps [simp]:
  "expr (address_var off sz e) = e" "var_size (address_var off sz e) = sz"
  "varnode (address_var off sz e) = register off sz" "call_return (address_var off sz e) = False"
  by (simp_all add: address_var_def blank_vardef_def)

text \<open>The stack pointer, twice 0x7fffffff added to it, and 2 added to that, in 32 bits.\<close>

definition wrap_example :: "VarDef list" where
  "wrap_example = map (address_var 16 4)
     [EUnknown, EConst 0x7FFFFFFF 4, EConst 2 4, EBinOp BAdd 0 1, EBinOp BAdd 3 1, EBinOp BAdd 4 2]"

lemma wrap_locations:
  "exact_location wrap_example 0 4 Cdecl32 = Some (StackLoc 0 0 4)"
  "exact_location wrap_example 3 4 Cdecl32 = Some (StackLoc 0 0x7FFFFFFF 4)"
  "exact_location wrap_example 5 4 Cdecl32 = Some (StackLoc 0 0x100000000 4)"
  by code_simp+

text \<open>
  A displacement that wraps around a 32-bit address space is not noticed: the example's
  sum resolves to a location apart from the stack pointer's, and yet it is the same address
  for every stack pointer. The range condition of the previous property is needed.
\<close>

theorem wrapped_stack_displacement:
  "\<exists>l m. exact_location wrap_example 0 4 Cdecl32 = Some l \<and> exact_location wrap_example 5 4 Cdecl32 = Some m \<and>
     \<not> may_overlap l m \<and>
     (\<forall>base. \<exists>x. addr_value wrap_example (frame_registers Cdecl32) base (\<lambda>_. {}) 0 x \<and>
        addr_value wrap_example (frame_registers Cdecl32) base (\<lambda>_. {}) 5 x)"
proof -
  have v: "vec_get wrap_example (unat (0::VarId)) = Some (address_var 16 4 (EUnknown))"
    "vec_get wrap_example (unat (1::VarId)) = Some (address_var 16 4 (EConst 0x7FFFFFFF 4))"
    "vec_get wrap_example (unat (2::VarId)) = Some (address_var 16 4 (EConst 2 4))"
    "vec_get wrap_example (unat (3::VarId)) = Some (address_var 16 4 (EBinOp BAdd 0 1))"
    "vec_get wrap_example (unat (4::VarId)) = Some (address_var 16 4 (EBinOp BAdd 3 1))"
    "vec_get wrap_example (unat (5::VarId)) = Some (address_var 16 4 (EBinOp BAdd 4 2))"
    by (simp_all add: wrap_example_def vec_get_def)
  let ?v = "\<lambda>base. addr_value wrap_example (frame_registers Cdecl32) base (\<lambda>_. {})"
  have x: "?v base 0 (take_bit 32 (base 0)) \<and> ?v base 5 (take_bit 32 (base 0))" for base
  proof -
    have a0: "?v base 0 (take_bit 32 (base 0))"
      using addr_value.frame[OF v(1), of "frame_registers Cdecl32"] by (simp add: is_frame_def register_def)
    have a1: "?v base 1 0x7FFFFFFF"
      using addr_value.const[OF v(2) address_var_simps(1)] by simp
    have a2: "?v base 2 2"
      using addr_value.const[OF v(3) address_var_simps(1)] by simp
    have a3: "?v base 3 (take_bit 32 (base 0 + 0x7FFFFFFF))"
      using addr_value.add[OF v(4) address_var_simps(1) a0 a1] by (simp add: take_bit_eq_mod mod_simps)
    have a4: "?v base 4 (take_bit 32 (0xFFFFFFFE + base 0))"
      using addr_value.add[OF v(5) address_var_simps(1) a3 a1] by (simp add: take_bit_eq_mod mod_simps)
    have "?v base 5 (take_bit 32 (base 0 + 0x100000000))"
      using addr_value.add[OF v(6) address_var_simps(1) a4 a2] by (simp add: take_bit_eq_mod mod_simps)
    then show ?thesis using a0 by (simp add: take_bit_eq_mod)
  qed
  show ?thesis
    using x wrap_locations by (auto simp: overlaps_def)
qed

text \<open>
  A constant address is not reduced to its variable's width, although displacements are: the
  same address as a sign-extended and as a plain four byte constant resolves to two locations
  taken to be disjoint.
\<close>

definition constant_example :: "VarDef list" where
  "constant_example = map (address_var 16 4) [EConst 0xFFFFFFFF80000000 4, EConst 0x80000000 4]"

lemma constant_address_unmasked:
  "exact_location constant_example 0 4 Cdecl32 = Some (GlobalLoc 0xFFFFFFFF80000000 4)"
  "exact_location constant_example 1 4 Cdecl32 = Some (GlobalLoc 0x80000000 4)"
  "\<not> may_overlap (GlobalLoc 0xFFFFFFFF80000000 4) (GlobalLoc 0x80000000 4)"
  "addr_value constant_example frames base hist 0 0x80000000"
  "addr_value constant_example frames base hist 1 0x80000000"
proof -
  have v: "vec_get constant_example (unat (0::VarId)) = Some (address_var 16 4 (EConst 0xFFFFFFFF80000000 4))"
    "vec_get constant_example (unat (1::VarId)) = Some (address_var 16 4 (EConst 0x80000000 4))"
    by (simp_all add: constant_example_def vec_get_def)
  show "addr_value constant_example frames base hist 0 0x80000000"
    using addr_value.const[OF v(1) address_var_simps(1)] by (simp add: take_bit_eq_mod)
  show "addr_value constant_example frames base hist 1 0x80000000"
    using addr_value.const[OF v(2) address_var_simps(1)] by (simp add: take_bit_eq_mod)
qed code_simp+

text \<open>Two slots of a small frame, the lower one eight bytes below, as the lifter writes it.\<close>

definition slots_example :: "VarDef list" where
  "slots_example = map (address_var 16 4) [EUnknown, EConst 0xFFFFFFFFFFFFFFF8 4, EBinOp BAdd 0 1]"

lemma slots_get:
  "vec_get slots_example (unat (0::VarId)) = Some (address_var 16 4 EUnknown)"
  "vec_get slots_example (unat (1::VarId)) = Some (address_var 16 4 (EConst 0xFFFFFFFFFFFFFFF8 4))"
  "vec_get slots_example (unat (2::VarId)) = Some (address_var 16 4 (EBinOp BAdd 0 1))"
  by (simp_all add: slots_example_def vec_get_def)

lemma slots_resolve:
  "exact_location slots_example 0 s Cdecl32 = Some l \<Longrightarrow> l = StackLoc 0 0 s"
  "exact_location slots_example 2 s Cdecl32 = Some l \<Longrightarrow> l = StackLoc 0 (- 8) s"
proof -
  have c: "constant_of_var slots_example 1 = Some (- 8)" by code_simp
  have r0: "resolve slots_example (frame_registers Cdecl32) s (Suc n) 0 = Some l \<Longrightarrow> l = StackLoc 0 0 s" for n l
    using slots_get(1) by (auto split: if_splits)
  have n: "(64 :: nat) = Suc (Suc 62)" by simp
  show "exact_location slots_example 0 s Cdecl32 = Some l \<Longrightarrow> l = StackLoc 0 0 s"
    unfolding exact_location_def n by (rule r0)
  assume "exact_location slots_example 2 s Cdecl32 = Some l"
  then obtain m where "resolve slots_example (frame_registers Cdecl32) s (Suc 62) 0 = Some m" "adjust 4 m (- 8) = Some l"
    unfolding exact_location_def n resolve.simps(2)[of _ _ _ "Suc 62" 2] using slots_get(3) c
    by (auto simp del: resolve.simps split: if_splits bind_splits)
  then show "l = StackLoc 0 (- 8) s" using r0[of 62 m] by (auto simp: adjust_def split: if_splits)
qed

lemma slots_ok: "address_ok slots_example Cdecl32 (\<lambda>_. 0x1000) 0" "address_ok slots_example Cdecl32 (\<lambda>_. 0x1000) 2"
proof -
  have z: "size_of slots_example 0 = 4" "size_of slots_example 1 = 4" "size_of slots_example 2 = 4"
    using slots_get by (simp_all add: size_of_def)
  have n: "(64 :: nat) = Suc (Suc 62)" by simp
  have p0: "path_sized slots_example (Suc k) 0" for k
    using slots_get(1) by (simp add: sized_var_def)
  have "constant_of_var slots_example 1 = Some (- 8)" by code_simp
  then have "path_sized slots_example 64 2"
    unfolding n path_sized.simps(2)[of _ "Suc 62" 2] using slots_get(3) z p0[of 62]
    by (simp add: sized_var_def del: path_sized.simps)
  then show "address_ok slots_example Cdecl32 (\<lambda>_. 0x1000) 2"
    unfolding address_ok_def using slots_resolve(2) z(3) by fastforce
  have "path_sized slots_example 64 0" using p0[of "Suc 62"] unfolding n .
  then show "address_ok slots_example Cdecl32 (\<lambda>_. 0x1000) 0"
    unfolding address_ok_def using slots_resolve(1) z(1) by fastforce
qed

theorem exact_locations_sound_witness:
  "{0x1000 ..< 0x1004} \<inter> {0xFF8 ..< 0xFFC} = ({} :: int set)"
proof -
  note v = slots_get
  let ?v = "addr_value slots_example (frame_registers Cdecl32) (\<lambda>_. 0x1000) (\<lambda>_. {})"
  have a0: "?v 0 0x1000"
    using addr_value.frame[OF v(1), of "frame_registers Cdecl32" "\<lambda>_. 0x1000"]
    by (simp add: is_frame_def register_def take_bit_eq_mod)
  have a1: "?v 1 0xFFFFFFF8"
    using addr_value.const[OF v(2) address_var_simps(1)] by (simp add: take_bit_eq_mod)
  have a2: "?v 2 0xFF8"
    using addr_value.add[OF v(3) address_var_simps(1) a0 a1] by (simp add: take_bit_eq_mod)
  have l: "exact_location slots_example 0 4 Cdecl32 = Some (StackLoc 0 0 4)"
    "exact_location slots_example 2 4 Cdecl32 = Some (StackLoc 0 (- 8) 4)"
    by code_simp+
  from exact_locations_sound[OF slots_ok l a0 a2] show ?thesis
    by (simp add: overlaps_def)
qed

end
