(* ===== verification/Memory.thy ===== *)
theory Memory
  imports Region Provenance CfgGraph
begin

text \<open>
  The reaching-store analysis \<^verbatim>\<open>rsleigh-decompile/src/memory.rs\<close>: the map from exact
  locations to the stores that may have written them last, its transfer over statements,
  the merge at joins, the bounded iteration over the blocks and the rewriting of loads to
  what they read. A \<open>BTreeMap\<close> is a list of pairs sorted by key and a \<open>BTreeSet\<close> a sorted
  list, so that equality of states and the order of iteration are the source's. \<open>None\<close> is
  an index out of range, a panic. The counting of work does not affect results and is
  left out; the thread's source origin, which \<open>new_var\<close> reads, is an argument.
\<close>

subsection \<open>Ordered maps\<close>

type_synonym location_map = "(ExactLocation \<times> VarId list) list"

primrec btree_insert :: "'k::linorder \<Rightarrow> 'v \<Rightarrow> ('k \<times> 'v) list \<Rightarrow> ('k \<times> 'v) list" where
  "btree_insert k v [] = [(k, v)]"
| "btree_insert k v (x # xs) =
     (if k < fst x then (k, v) # x # xs
      else if k = fst x then (k, v) # xs
      else x # btree_insert k v xs)"

subsection \<open>The state\<close>

record State =
  state_values :: location_map
  boundary :: Boundary

definition MAX_LOCATIONS :: usize where
  "MAX_LOCATIONS = 1024"

definition MAX_STORES :: usize where
  "MAX_STORES = 8"

definition empty_state :: "Boundary \<Rightarrow> State" where
  "empty_state b = \<lparr>state_values = [], boundary = b\<rparr>"

definition invalidate :: "Boundary \<Rightarrow> State \<Rightarrow> State" where
  "invalidate b st = st\<lparr>state_values := [], boundary := b\<rparr>"

definition other_space :: "Access option \<Rightarrow> bool" where
  "other_space m = (case m of Some (StoreAccess s) \<Rightarrow> s \<noteq> Ram | _ \<Rightarrow> False)"

text \<open>\<open>retain\<close> keeps the entries apart from the location and notes a partial overlap.\<close>

definition keep_apart :: "ExactLocation \<Rightarrow> State \<Rightarrow> State" where
  "keep_apart location st =
     st\<lparr>state_values := filter (\<lambda>(key, vs). \<not> may_overlap key location) (state_values st),
        boundary := (if \<exists>(key, vs) \<in> set (state_values st). may_overlap key location \<and> key \<noteq> location
                     then OverlappingStore else boundary st)\<rparr>"

definition store_step :: "SsaCfg \<Rightarrow> CallingConv \<Rightarrow> VarId \<Rightarrow> VarId \<Rightarrow> State \<Rightarrow> State" where
  "store_step ssa cc addr val st =
     (if other_space (memory (ssa_var ssa val)) then invalidate UnsupportedAddressSpace st
      else case exact_location (vars ssa) addr (var_size (ssa_var ssa val)) cc of
        None \<Rightarrow> invalidate AmbiguousAlias st
      | Some location \<Rightarrow>
          let st = keep_apart location st;
              st = (if length (state_values st) \<ge> MAX_LOCATIONS then invalidate MemoryStateLimit st else st)
          in st\<lparr>state_values := btree_insert location [val] (state_values st)\<rparr>)"

definition is_user_op :: "Expr \<Rightarrow> bool" where
  "is_user_op e = (case e of EUserOp f is \<Rightarrow> True | _ \<Rightarrow> False)"

primrec step :: "SsaCfg \<Rightarrow> CallingConv \<Rightarrow> Stmt \<Rightarrow> State \<Rightarrow> State" where
  "step ssa cc (StoreStmt addr val) st = store_step ssa cc addr val st"
| "step ssa cc (CallStmt target args out) st = invalidate UnsupportedSideEffects st"
| "step ssa cc (Assign i) st =
     (if is_user_op (expr (ssa_var ssa i)) then invalidate UnsupportedSideEffects st else st)"

subsection \<open>Joins\<close>

definition extend_set :: "VarId list \<Rightarrow> VarId list \<Rightarrow> VarId list" where
  "extend_set inputs vs = fold insort_insert inputs vs"

text \<open>
  One predecessor's \<open>retain\<close> over the entries, in key order: an entry the predecessor has
  as well takes its stores in; a dropped entry sets the boundary, the last one for good.
\<close>

primrec merge_entries :: "State \<Rightarrow> location_map \<Rightarrow> Boundary \<Rightarrow> location_map \<times> Boundary" where
  "merge_entries other [] b = ([], b)"
| "merge_entries other (e # es) b =
     (case map_of (state_values other) (fst e) of
        Some inputs \<Rightarrow>
          let vs = extend_set inputs (snd e) in
          if length vs \<le> MAX_STORES
          then (let (es', b') = merge_entries other es b in ((fst e, vs) # es', b'))
          else merge_entries other es MemoryStateLimit
      | None \<Rightarrow> merge_entries other es (boundary other))"

definition merge_pred :: "State \<Rightarrow> State \<Rightarrow> State" where
  "merge_pred other st =
     (let (es, b) = merge_entries other (state_values st) (boundary st) in st\<lparr>state_values := es, boundary := b\<rparr>)"

primrec merge_preds :: "BlockId list \<Rightarrow> State list \<Rightarrow> State \<Rightarrow> State option" where
  "merge_preds [] exits st = Some st"
| "merge_preds (p # ps) exits st = do {
     other \<leftarrow> vec_get exits p;
     merge_preds ps exits (merge_pred other st)
   }"

definition merge_states :: "BlockId list \<Rightarrow> State list \<Rightarrow> State option" where
  "merge_states preds exits = (case preds of
     [] \<Rightarrow> Some (empty_state UnmodeledMemory)
   | p # ps \<Rightarrow> do { first \<leftarrow> vec_get exits p; merge_preds ps exits first })"

subsection \<open>The iteration\<close>

definition is_scall :: "SsaTerminator \<Rightarrow> bool" where
  "is_scall t = (case t of SCall target args out b \<Rightarrow> True | _ \<Rightarrow> False)"

definition block_exit :: "SsaCfg \<Rightarrow> CallingConv \<Rightarrow> SsaBlock \<Rightarrow> State \<Rightarrow> State" where
  "block_exit ssa cc blk st =
     (let st = fold (step ssa cc) (stmts blk) st
      in if is_scall (ssa_terminator blk) then invalidate UnsupportedSideEffects st else st)"

definition block_entry :: "Cfg \<Rightarrow> BlockId list list \<Rightarrow> State list \<Rightarrow> BlockId \<Rightarrow> State option" where
  "block_entry cfg preds exits bid =
     (if bid = entry cfg then Some (empty_state UnmodeledMemory)
      else do { ps \<leftarrow> vec_get preds bid; merge_states ps exits })"

primrec push_succs :: "BlockId list \<Rightarrow> BlockId list \<Rightarrow> bool list \<Rightarrow> (BlockId list \<times> bool list) option" where
  "push_succs [] queue queued = Some (queue, queued)"
| "push_succs (s # ss) queue queued = do {
     q \<leftarrow> vec_get queued s;
     if q then push_succs ss queue queued else push_succs ss (queue @ [s]) (queued[s := True])
   }"

text \<open>\<open>left\<close> is the distance of the work counter to its limit.\<close>

fun forward_loop ::
  "SsaCfg \<Rightarrow> Cfg \<Rightarrow> CallingConv \<Rightarrow> BlockId list list \<Rightarrow> nat \<Rightarrow> BlockId list \<Rightarrow> bool list \<Rightarrow>
   State list \<Rightarrow> State list \<Rightarrow> (BlockId list \<times> State list) option" where
  "forward_loop ssa cfg cc preds left [] queued exits entries = Some ([], entries)"
| "forward_loop ssa cfg cc preds 0 (bid # queue) queued exits entries = Some (bid # queue, entries)"
| "forward_loop ssa cfg cc preds (Suc left) (bid # queue) queued exits entries = do {
     st \<leftarrow> block_entry cfg preds exits bid;
     blk \<leftarrow> vec_get (ssa_blocks ssa) bid;
     let ex = block_exit ssa cc blk st;
     let queued = queued[bid := False];
     let entries = entries[bid := st];
     if exits ! bid \<noteq> ex
     then do {
       ss \<leftarrow> successors cfg bid;
       (queue, queued) \<leftarrow> push_succs ss queue queued;
       forward_loop ssa cfg cc preds left queue queued (exits[bid := ex]) entries
     }
     else forward_loop ssa cfg cc preds left queue queued exits entries
   }"

definition limit_diagnostic :: Diagnostic where
  "limit_diagnostic = \<lparr>severity = Warn, diag_kind = StackAliasingUnknown, diag_addr = None,
     detail = ''memory reaching-store iteration limit; only same-block stores are followed''\<rparr>"

definition reaching_stores :: "SsaCfg \<Rightarrow> Cfg \<Rightarrow> CallingConv \<Rightarrow> (State list \<times> SsaCfg) option" where
  "reaching_stores ssa cfg cc = do {
     preds \<leftarrow> predecessors cfg;
     let n = length (blocks cfg);
     let exits = replicate n (empty_state UnmodeledMemory);
     (queue, entries) \<leftarrow> forward_loop ssa cfg cc preds (n * 64) [0..<n] (replicate n True) exits exits;
     Some (if queue \<noteq> []
       then (replicate n (empty_state MemoryTraversalLimit),
             ssa\<lparr>ssa_diagnostics := ssa_diagnostics ssa @ [limit_diagnostic]\<rparr>)
       else (entries, ssa))
   }"

subsection \<open>Forwarding\<close>

definition load_space :: "Access option \<Rightarrow> AddressSpaceId" where
  "load_space m = (case m of Some (LoadAccess s st b) \<Rightarrow> s | _ \<Rightarrow> Ram)"

definition load_evidence_of :: "AddressSpaceId \<Rightarrow> ExactLocation option \<Rightarrow> State \<Rightarrow> VarId list \<times> Boundary option" where
  "load_evidence_of sp location st =
     (if sp \<noteq> Ram then ([], Some UnsupportedAddressSpace)
      else case location of
        Some l \<Rightarrow> (case map_of (state_values st) l of Some vs \<Rightarrow> (vs, None) | None \<Rightarrow> ([], Some (boundary st)))
      | None \<Rightarrow> ([], Some (if state_values st = [] then boundary st else AmbiguousAlias)))"

definition forwarded_value :: "OperationOrigin option \<Rightarrow> VarId list \<Rightarrow> u32 \<Rightarrow> SsaCfg \<Rightarrow> VarId \<times> SsaCfg" where
  "forwarded_value src stores sz ssa =
     (if length stores = 1 then (stores ! 0, ssa)
      else new_var src (unique (0xF0000000 + of_nat (length (vars ssa))) sz) (EPhi stores) sz ssa)"

text \<open>
  A statement's load is annotated and, where its stores are known, which they are only at
  a location, rewritten.
\<close>

definition apply_load :: "OperationOrigin option \<Rightarrow> CallingConv \<Rightarrow> State \<Rightarrow> VarId \<Rightarrow> VarId \<Rightarrow> SsaCfg \<Rightarrow> SsaCfg option" where
  "apply_load src cc st i ptr ssa =
     (let sp = load_space (memory (ssa_var ssa i));
          location = exact_location (vars ssa) ptr (var_size (ssa_var ssa i)) cc;
          (stores, bnd) = load_evidence_of sp location st;
          ssa = var_mut ssa i (\<lambda>v. v\<lparr>memory := Some (LoadAccess sp stores bnd)\<rparr>)
      in if stores = [] then Some ssa
         else do {
           l \<leftarrow> location;
           let (w, ssa) = forwarded_value src stores (loc_size l) ssa;
           vs \<leftarrow> rewrite (vars ssa) (unat i) (EVar w);
           Some (ssa\<lparr>vars := vs\<rparr>)
         })"

definition apply_stmt :: "OperationOrigin option \<Rightarrow> CallingConv \<Rightarrow> Stmt \<Rightarrow> State \<times> SsaCfg \<Rightarrow> (State \<times> SsaCfg) option" where
  "apply_stmt src cc s p = (case p of (st, ssa) \<Rightarrow> do {
     ssa \<leftarrow> (case s of
        Assign i \<Rightarrow> (case expr (ssa_var ssa i) of ELoad ptr \<Rightarrow> apply_load src cc st i ptr ssa | _ \<Rightarrow> Some ssa)
      | _ \<Rightarrow> Some ssa);
     Some (step ssa cc s st, ssa)
   })"

primrec apply_stmts :: "OperationOrigin option \<Rightarrow> CallingConv \<Rightarrow> Stmt list \<Rightarrow> State \<times> SsaCfg \<Rightarrow> (State \<times> SsaCfg) option" where
  "apply_stmts src cc [] p = Some p"
| "apply_stmts src cc (s # ss) p = do { p \<leftarrow> apply_stmt src cc s p; apply_stmts src cc ss p }"

primrec apply_blocks :: "OperationOrigin option \<Rightarrow> CallingConv \<Rightarrow> (nat \<times> State) list \<Rightarrow> SsaCfg \<Rightarrow> SsaCfg option" where
  "apply_blocks src cc [] ssa = Some ssa"
| "apply_blocks src cc (e # es) ssa = do {
     blk \<leftarrow> vec_get (ssa_blocks ssa) (fst e);
     (st, ssa) \<leftarrow> apply_stmts src cc (stmts blk) (snd e, ssa);
     apply_blocks src cc es ssa
   }"

definition forward :: "OperationOrigin option \<Rightarrow> SsaCfg \<Rightarrow> Cfg \<Rightarrow> CallingConv \<Rightarrow> SsaCfg option" where
  "forward src ssa cfg cc = do {
     (entries, ssa) \<leftarrow> reaching_stores ssa cfg cc;
     apply_blocks src cc (enumerate 0 entries) ssa
   }"

end
