(* ===== verification/MemoryRun.thy ===== *)
theory MemoryRun
  imports RegionSound Memory
begin

text \<open>
  Executions of an SSA graph over a byte-addressed memory, against which the reaching
  stores are judged. A store evaluates its address and value and writes the bytes of the
  value's encoding; a load whose bytes spell a value yields it; calls and user operations
  leave memory arbitrary, other assignments leave their variable arbitrary. Executions
  follow the edges of the control flow graph, whatever the branch conditions. An abstract
  state describes an execution state when each of its locations holds the current value
  of one of the stores recorded for it.
\<close>

subsection \<open>Execution\<close>

record 'b world =
  encode :: "nat \<Rightarrow> int \<Rightarrow> nat \<Rightarrow> 'b"
  base_of :: "VarId \<Rightarrow> int"
  prog :: SsaCfg
  graph :: Cfg
  conv :: CallingConv

record 'b config =
  env :: "VarId \<Rightarrow> int"
  ram :: "int \<Rightarrow> 'b"
  seen :: "VarId \<Rightarrow> int set"

definition value_in :: "'b world \<Rightarrow> 'b config \<Rightarrow> VarId \<Rightarrow> int \<Rightarrow> bool" where
  "value_in w c i x = addr_value (vars (prog w)) (frame_registers (conv w)) (base_of w) (seen c) i x"

definition size_in :: "'b world \<Rightarrow> VarId \<Rightarrow> u32" where
  "size_in w i = var_size (ssa_var (prog w) i)"

definition write_bytes :: "'b world \<Rightarrow> int \<Rightarrow> nat \<Rightarrow> int \<Rightarrow> (int \<Rightarrow> 'b) \<Rightarrow> int \<Rightarrow> 'b" where
  "write_bytes w a n x m = (\<lambda>k. if a \<le> k \<and> k < a + int n then encode w n x (nat (k - a)) else m k)"

definition spells :: "'b world \<Rightarrow> int \<Rightarrow> nat \<Rightarrow> int \<Rightarrow> (int \<Rightarrow> 'b) \<Rightarrow> bool" where
  "spells w a n x m \<longleftrightarrow> (\<forall>k < n. m (a + int k) = encode w n x k)"

inductive exec :: "'b world \<Rightarrow> Stmt \<Rightarrow> 'b config \<Rightarrow> 'b config \<Rightarrow> bool" for w :: "'b world" where
  store: "\<lbrakk>value_in w c addr a; value_in w c val x; \<not> other_space (memory (ssa_var (prog w) val))\<rbrakk>
    \<Longrightarrow> exec w (StoreStmt addr val) c
          (c\<lparr>env := (env c)(val := x), ram := write_bytes w a (unat (size_in w val)) x (ram c)\<rparr>)"
| store_other: "\<lbrakk>value_in w c val x; other_space (memory (ssa_var (prog w) val))\<rbrakk>
    \<Longrightarrow> exec w (StoreStmt addr val) c (c\<lparr>env := (env c)(val := x), ram := m\<rparr>)"
| call: "\<forall>i. Some i \<noteq> out \<longrightarrow> e i = env c i \<Longrightarrow> exec w (CallStmt target args out) c (c\<lparr>env := e, ram := m\<rparr>)"
| load: "\<lbrakk>expr (ssa_var (prog w) i) = ELoad p; load_space (memory (ssa_var (prog w) i)) = Ram; value_in w c p a;
      \<forall>y. 0 \<le> y \<and> y < 2 ^ (8 * unat (size_in w i)) \<and> spells w a (unat (size_in w i)) y (ram c) \<longrightarrow> x = y\<rbrakk>
    \<Longrightarrow> exec w (Assign i) c (c\<lparr>env := (env c)(i := x), seen := (seen c)(i := insert x (seen c i))\<rparr>)"
| load_other: "\<lbrakk>expr (ssa_var (prog w) i) = ELoad p; load_space (memory (ssa_var (prog w) i)) \<noteq> Ram\<rbrakk>
    \<Longrightarrow> exec w (Assign i) c (c\<lparr>env := (env c)(i := x), seen := (seen c)(i := insert x (seen c i))\<rparr>)"
| user_op: "is_user_op (expr (ssa_var (prog w) i))
    \<Longrightarrow> exec w (Assign i) c (c\<lparr>env := (env c)(i := x), ram := m\<rparr>)"
| assign: "\<lbrakk>\<not> is_user_op (expr (ssa_var (prog w) i)); \<forall>p. expr (ssa_var (prog w) i) \<noteq> ELoad p\<rbrakk>
    \<Longrightarrow> exec w (Assign i) c (c\<lparr>env := (env c)(i := x)\<rparr>)"

inductive execs :: "'b world \<Rightarrow> Stmt list \<Rightarrow> 'b config \<Rightarrow> 'b config \<Rightarrow> bool" for w :: "'b world" where
  none: "execs w [] c c"
| snoc: "\<lbrakk>execs w ss c d; exec w s d e\<rbrakk> \<Longrightarrow> execs w (ss @ [s]) c e"

inductive_simps execs_Nil [simp]: "execs w [] c d"

definition leaves :: "'b world \<Rightarrow> SsaTerminator \<Rightarrow> 'b config \<Rightarrow> 'b config \<Rightarrow> bool" where
  "leaves w t c d \<longleftrightarrow> (case t of
     SCall target args out b \<Rightarrow> exec w (CallStmt target args out) c d
   | _ \<Rightarrow> d = c)"

inductive reach :: "'b world \<Rightarrow> BlockId \<Rightarrow> 'b config \<Rightarrow> bool" for w :: "'b world" where
  start: "seen c = (\<lambda>i. {}) \<Longrightarrow> reach w (entry (graph w)) c"
| edge: "\<lbrakk>reach w b c; vec_get (ssa_blocks (prog w)) b = Some blk; execs w (stmts blk) c d;
      leaves w (ssa_terminator blk) d e; b' \<in> set (succs_of (graph w) b)\<rbrakk> \<Longrightarrow> reach w b' e"

text \<open>The execution is about to run statement \<open>j\<close> of block \<open>b\<close>.\<close>

definition at_point :: "'b world \<Rightarrow> BlockId \<Rightarrow> nat \<Rightarrow> 'b config \<Rightarrow> bool" where
  "at_point w b j c \<longleftrightarrow> (\<exists>blk c0. vec_get (ssa_blocks (prog w)) b = Some blk \<and> j \<le> length (stmts blk) \<and>
     reach w b c0 \<and> execs w (take j (stmts blk)) c0 c)"

definition stmt_at :: "'b world \<Rightarrow> BlockId \<Rightarrow> nat \<Rightarrow> Stmt \<Rightarrow> bool" where
  "stmt_at w b j s \<longleftrightarrow> (\<exists>blk. vec_get (ssa_blocks (prog w)) b = Some blk \<and> j < length (stmts blk) \<and> stmts blk ! j = s)"

definition out_of :: "SsaTerminator \<Rightarrow> VarId option" where
  "out_of t = (case t of SCall target args out b \<Rightarrow> out | _ \<Rightarrow> None)"

text \<open>
  The shape SSA construction gives stores: each has a value variable of its own, a copy
  that nothing else defines.
\<close>

definition stores_ok :: "'b world \<Rightarrow> bool" where
  "stores_ok w \<longleftrightarrow>
     (\<forall>b j addr v. stmt_at w b j (StoreStmt addr v) \<longrightarrow>
        (\<exists>d u. vec_get (vars (prog w)) (unat v) = Some d \<and> expr d = EVar u) \<and>
        (\<forall>b' j' addr'. stmt_at w b' j' (StoreStmt addr' v) \<longrightarrow> addr' = addr) \<and>
        (\<forall>b' j'. \<not> stmt_at w b' j' (Assign v)) \<and>
        (\<forall>b' j' t args. \<not> stmt_at w b' j' (CallStmt t args (Some v))) \<and>
        (\<forall>b' blk. vec_get (ssa_blocks (prog w)) b' = Some blk \<longrightarrow> out_of (ssa_terminator blk) \<noteq> Some v))"

subsection \<open>Histories\<close>

lemma exec_seen: "exec w s c d \<Longrightarrow> \<forall>i. seen c i \<subseteq> seen d i"
  by (induction rule: exec.induct) auto

lemma execs_seen: "execs w ss c d \<Longrightarrow> \<forall>i. seen c i \<subseteq> seen d i"
  by (induction rule: execs.induct) (use exec_seen in \<open>force+\<close>)

lemma leaves_seen: "leaves w t c d \<Longrightarrow> seen d = seen c"
  by (auto simp: leaves_def split: SsaTerminator.splits elim: exec.cases)

lemma value_in_mono: "value_in w c i x \<Longrightarrow> \<forall>j. seen c j \<subseteq> seen d j \<Longrightarrow> value_in w d i x"
  unfolding value_in_def by (rule addr_value_mono)

lemma at_point_0: "reach w b c \<Longrightarrow> vec_get (ssa_blocks (prog w)) b = Some blk \<Longrightarrow> at_point w b 0 c"
  by (auto simp: at_point_def)

lemma at_point_step:
  assumes "at_point w b j c" "stmt_at w b j s" "exec w s c d"
  shows "at_point w b (Suc j) d"
  using assms by (auto simp: at_point_def stmt_at_def take_Suc_conv_app_nth intro!: execs.snoc)

inductive_cases execs_snocE: "execs w (ss @ [s]) c d"

lemma at_point_Suc:
  assumes "at_point w b (Suc j) d"
  obtains c s where "at_point w b j c" "stmt_at w b j s" "exec w s c d"
proof -
  from assms obtain blk c0 where b: "vec_get (ssa_blocks (prog w)) b = Some blk" "j < length (stmts blk)"
      "reach w b c0" "execs w (take j (stmts blk) @ [stmts blk ! j]) c0 d"
    by (auto simp: at_point_def take_Suc_conv_app_nth Suc_le_eq)
  from b(4) obtain c where "execs w (take j (stmts blk)) c0 c" "exec w (stmts blk ! j) c d"
    by (auto elim!: execs_snocE)
  with b that show thesis by (auto simp: at_point_def stmt_at_def)
qed

end
