(* ===== verification/MemoryFlow.thy ===== *)
theory MemoryFlow
  imports Memory
begin

text \<open>
  The iteration of the reaching-store analysis: it never fails on a graph whose layout is
  that of its SSA form, and when its queue runs empty the states it leaves are stable,
  every block's entry being the merge of its predecessors' exits. The locale is the
  interface for what every state it passes through satisfies.
\<close>

subsection \<open>Joins read their predecessors only\<close>

lemma merge_preds_cong:
  "\<forall>p \<in> set ps. vec_get exits p = vec_get exits' p \<Longrightarrow> merge_preds ps exits st = merge_preds ps exits' st"
  by (induction ps arbitrary: st) (auto split: bind_split)

lemma merge_states_cong:
  "\<forall>p \<in> set ps. vec_get exits p = vec_get exits' p \<Longrightarrow> merge_states ps exits = merge_states ps exits'"
  using merge_preds_cong[of "tl ps" exits exits'] by (cases ps) (auto simp: merge_states_def split: bind_split)

lemma merge_preds_total: "\<forall>p \<in> set ps. p < length exits \<Longrightarrow> \<exists>m. merge_preds ps exits st = Some m"
  by (induction ps arbitrary: st) (auto simp: vec_get_def)

lemma merge_states_total: "\<forall>p \<in> set ps. p < length exits \<Longrightarrow> \<exists>m. merge_states ps exits = Some m"
  using merge_preds_total by (cases ps) (auto simp: merge_states_def vec_get_def)

text \<open>The layout: an SSA block per graph block, and edges inside the graph.\<close>

definition layout_ok :: "SsaCfg \<Rightarrow> Cfg \<Rightarrow> bool" where
  "layout_ok ssa cfg \<longleftrightarrow> ids_are_indices cfg \<and> length (ssa_blocks ssa) = length (blocks cfg) \<and>
     (\<forall>b < length (blocks cfg). \<forall>s \<in> set (succs_of cfg b). s < length (blocks cfg))"

definition preds_ok :: "Cfg \<Rightarrow> BlockId list list \<Rightarrow> bool" where
  "preds_ok cfg preds \<longleftrightarrow> length preds = length (blocks cfg) \<and>
     (\<forall>b < length (blocks cfg). set (preds ! b) = {p. p < length (blocks cfg) \<and> b \<in> set (succs_of cfg p)})"

lemma block_entry_total:
  assumes "preds_ok cfg preds" "length exits = length (blocks cfg)" "b < length (blocks cfg)"
  shows "\<exists>st. block_entry cfg preds exits b = Some st"
  using assms merge_states_total[of "preds ! b" exits] by (auto simp: block_entry_def preds_ok_def vec_get_def)

lemma block_entry_update:
  assumes "preds_ok cfg preds" "b < length (blocks cfg)" "b \<notin> set (succs_of cfg p)"
  shows "block_entry cfg preds (exits[p := st]) b = block_entry cfg preds exits b"
proof -
  have "q \<noteq> p" if "q \<in> set (preds ! b)" for q
    using assms that unfolding preds_ok_def by auto
  then have "merge_states (preds ! b) (exits[p := st]) = merge_states (preds ! b) exits"
    by (intro merge_states_cong) (fastforce simp: vec_get_def)
  then show ?thesis using assms by (simp add: block_entry_def preds_ok_def vec_get_def)
qed

definition flags_ok :: "BlockId list \<Rightarrow> bool list \<Rightarrow> bool" where
  "flags_ok queue queued \<longleftrightarrow> distinct queue \<and> set queue \<subseteq> {..<length queued} \<and>
     (\<forall>b < length queued. queued ! b \<longleftrightarrow> b \<in> set queue)"

lemma flags_ok_pop: "flags_ok (b # q) queued \<Longrightarrow> flags_ok q (queued[b := False])"
  by (auto simp: flags_ok_def nth_list_update)

lemma push_succs_spec:
  "flags_ok queue queued \<Longrightarrow> set ss \<subseteq> {..<length queued} \<Longrightarrow>
    \<exists>queue' queued'. push_succs ss queue queued = Some (queue', queued') \<and> length queued' = length queued \<and>
      flags_ok queue' queued' \<and> set queue' = set queue \<union> set ss"
proof (induction ss arbitrary: queue queued)
  case (Cons s ss)
  then have s: "s < length queued" by simp
  show ?case
  proof (cases "queued ! s")
    case True
    then show ?thesis
      using Cons.IH[OF Cons.prems(1)] Cons.prems s by (auto simp: vec_get_def flags_ok_def)
  next
    case False
    then have "flags_ok (queue @ [s]) (queued[s := True])"
      using Cons.prems(1) s by (auto simp: flags_ok_def nth_list_update)
    then show ?thesis
      using Cons.IH[of "queue @ [s]" "queued[s := True]"] Cons.prems(2) False s by (auto simp: vec_get_def)
  qed
qed simp

subsection \<open>The loop\<close>

text \<open>Blocks that are not queued are stable.\<close>

definition stable_at :: "SsaCfg \<Rightarrow> Cfg \<Rightarrow> CallingConv \<Rightarrow> BlockId list list \<Rightarrow> State list \<Rightarrow> State list \<Rightarrow> BlockId \<Rightarrow> bool" where
  "stable_at ssa cfg cc preds exits entries b \<longleftrightarrow> block_entry cfg preds exits b = Some (entries ! b) \<and>
     exits ! b = block_exit ssa cc (ssa_blocks ssa ! b) (entries ! b)"

definition loop_ok :: "SsaCfg \<Rightarrow> Cfg \<Rightarrow> CallingConv \<Rightarrow> BlockId list list \<Rightarrow> BlockId list \<Rightarrow> bool list \<Rightarrow> State list \<Rightarrow> State list \<Rightarrow> bool" where
  "loop_ok ssa cfg cc preds queue queued exits entries \<longleftrightarrow>
     length queued = length (blocks cfg) \<and> length exits = length (blocks cfg) \<and> length entries = length (blocks cfg) \<and>
     flags_ok queue queued \<and>
     (\<forall>b < length (blocks cfg). b \<notin> set queue \<longrightarrow> stable_at ssa cfg cc preds exits entries b)"

text \<open>
  The outcome: an entry state per block; either they are stable for some exits, or the
  limit was hit and they are empty.
\<close>

definition settled :: "SsaCfg \<Rightarrow> Cfg \<Rightarrow> CallingConv \<Rightarrow> State list \<Rightarrow> bool" where
  "settled ssa cfg cc entries \<longleftrightarrow>
     (\<exists>preds exits. preds_ok cfg preds \<and> (\<forall>b < length (blocks cfg). stable_at ssa cfg cc preds exits entries b)) \<or>
     (\<forall>b < length (blocks cfg). entries ! b = empty_state MemoryTraversalLimit)"

locale flow_invariant =
  fixes ssa :: SsaCfg and cfg :: Cfg and cc :: CallingConv and Q :: "State \<Rightarrow> bool"
  assumes empty: "Q (empty_state bnd)"
    and merge: "(\<And>p. p \<in> set ps \<Longrightarrow> Q (exits ! p)) \<Longrightarrow> merge_states ps exits = Some m \<Longrightarrow> Q m"
    and block: "vec_get (ssa_blocks ssa) b = Some blk \<Longrightarrow> Q st \<Longrightarrow> Q (block_exit ssa cc blk st)"
begin

lemma entry_holds:
  assumes "block_entry cfg preds exits b = Some st" "preds_ok cfg preds" "b < length (blocks cfg)"
    "\<forall>p < length (blocks cfg). Q (exits ! p)"
  shows "Q st"
  using assms empty merge[of "preds ! b" exits st]
  by (auto simp: block_entry_def preds_ok_def vec_get_def split: if_splits)

lemma loop_holds:
  assumes l: "layout_ok ssa cfg" and p: "preds_ok cfg preds"
  shows "loop_ok ssa cfg cc preds queue queued exits entries \<Longrightarrow> \<forall>b < length (blocks cfg). Q (exits ! b) \<Longrightarrow>
    \<forall>b < length (blocks cfg). Q (entries ! b) \<Longrightarrow>
    \<exists>queue' entries' queued' exits'. forward_loop ssa cfg cc preds left queue queued exits entries = Some (queue', entries') \<and>
      loop_ok ssa cfg cc preds queue' queued' exits' entries' \<and>
      (\<forall>b < length (blocks cfg). Q (exits' ! b) \<and> Q (entries' ! b))"
proof (induction left arbitrary: queue queued exits entries)
  case 0
  then show ?case by (cases queue) auto
next
  case (Suc left)
  let ?n = "length (blocks cfg)"
  show ?case
  proof (cases queue)
    case Nil
    then show ?thesis using Suc.prems by auto
  next
    case (Cons bid q)
    note ok = Suc.prems(1)[unfolded loop_ok_def Cons]
    have b: "bid < ?n" "length exits = ?n" "length entries = ?n" "length queued = ?n" using ok by (auto simp: flags_ok_def)
    obtain st where st: "block_entry cfg preds exits bid = Some st"
      using block_entry_total[OF p b(2,1)] by blast
    obtain blk where blk: "vec_get (ssa_blocks ssa) bid = Some blk" "ssa_blocks ssa ! bid = blk"
      using l b(1) by (auto simp: layout_ok_def vec_get_def)
    have Qst: "Q st" by (rule entry_holds[OF st p b(1) Suc.prems(2)])
    let ?ex = "block_exit ssa cc blk st"
    have Qex: "Q ?ex" by (rule block[OF blk(1) Qst])
    let ?entries = "entries[bid := st]"
    have Qe: "\<forall>b < ?n. Q (?entries ! b)" using Suc.prems(3) Qst b by (simp add: nth_list_update)
    have fl: "flags_ok q (queued[bid := False])" using ok flags_ok_pop by blast
    obtain queue' queued' where pu: "push_succs (succs_of cfg bid) q (queued[bid := False]) = Some (queue', queued')"
        "length queued' = ?n" "flags_ok queue' queued'" "set queue' = set q \<union> set (succs_of cfg bid)"
      using push_succs_spec[OF fl, of "succs_of cfg bid"] l b by (fastforce simp: layout_ok_def)
    note step = Cons st blk(1) b(1) successors_in_range[OF b(1)]
    have stable: "stable_at ssa cfg cc preds (exits[bid := ?ex]) ?entries c"
      if "c < ?n" "c \<notin> set q" "c \<notin> set (succs_of cfg bid) \<or> exits ! bid = ?ex" for c
    proof -
      have e: "block_entry cfg preds (exits[bid := ?ex]) c = block_entry cfg preds exits c"
        using that(3) block_entry_update[OF p that(1)] by (metis list_update_id)
      show ?thesis
      proof (cases "c = bid")
        case True
        then show ?thesis using e st blk(2) b by (simp add: stable_at_def)
      next
        case False
        then have "stable_at ssa cfg cc preds exits entries c" using ok that by auto
        then show ?thesis using e False by (simp add: stable_at_def)
      qed
    qed
    show ?thesis
    proof (cases "exits ! bid = ?ex")
      case True
      have "loop_ok ssa cfg cc preds q (queued[bid := False]) exits ?entries"
        using stable fl b unfolding True[symmetric] list_update_id by (simp add: loop_ok_def)
      from Suc.IH[OF this Suc.prems(2) Qe] show ?thesis using True step by simp
    next
      case False
      have "loop_ok ssa cfg cc preds queue' queued' (exits[bid := ?ex]) ?entries"
        using stable pu b by (simp add: loop_ok_def)
      moreover have "\<forall>c < ?n. Q (exits[bid := ?ex] ! c)" using Suc.prems(2) Qex b by (simp add: nth_list_update)
      ultimately show ?thesis using Suc.IH[OF _ _ Qe] False step pu(1) by simp
    qed
  qed
qed

lemma reaching_holds:
  assumes "layout_ok ssa cfg"
  shows "\<exists>entries ssa'. reaching_stores ssa cfg cc = Some (entries, ssa') \<and> length entries = length (blocks cfg) \<and>
     (\<forall>b < length (blocks cfg). Q (entries ! b)) \<and> settled ssa cfg cc entries \<and>
     vars ssa' = vars ssa \<and> ssa_blocks ssa' = ssa_blocks ssa"
proof -
  let ?n = "length (blocks cfg)"
  obtain preds where preds: "predecessors cfg = Some preds" "preds_ok cfg preds"
    using predecessors_spec[of cfg] assms by (auto simp: layout_ok_def preds_ok_def)
  let ?st = "replicate ?n (empty_state UnmodeledMemory)"
  have "loop_ok ssa cfg cc preds [0..<?n] (replicate ?n True) ?st ?st"
    by (auto simp: loop_ok_def flags_ok_def)
  moreover have "\<forall>b < ?n. Q (?st ! b)" using empty by simp
  ultimately obtain queue' entries' queued' exits' where
    r: "forward_loop ssa cfg cc preds (?n * 64) [0..<?n] (replicate ?n True) ?st ?st = Some (queue', entries')"
      "loop_ok ssa cfg cc preds queue' queued' exits' entries'" "\<forall>b < ?n. Q (entries' ! b)"
    using loop_holds[OF assms preds(2), of "[0..<?n]" "replicate ?n True" ?st ?st "?n * 64"] by blast
  show ?thesis
  proof (cases "queue' = []")
    case True
    then have "settled ssa cfg cc entries'"
      using r(2) preds(2) by (auto simp: settled_def loop_ok_def)
    moreover have "reaching_stores ssa cfg cc = Some (entries', ssa)"
      using r(1) True preds(1) by (simp add: reaching_stores_def)
    moreover have "length entries' = ?n" using r(2) by (simp add: loop_ok_def)
    ultimately show ?thesis using r(3) by blast
  next
    case False
    then have "reaching_stores ssa cfg cc = Some (replicate ?n (empty_state MemoryTraversalLimit),
        ssa\<lparr>ssa_diagnostics := ssa_diagnostics ssa @ [limit_diagnostic]\<rparr>)"
      using r(1) preds(1) by (simp add: reaching_stores_def)
    then show ?thesis using empty by (simp add: settled_def)
  qed
qed

end

subsection \<open>Bounds\<close>

definition state_ok :: "State \<Rightarrow> bool" where
  "state_ok st \<longleftrightarrow> length (state_values st) \<le> MAX_LOCATIONS \<and> sorted_wrt (<) (map fst (state_values st)) \<and>
     (\<forall>(l, S) \<in> set (state_values st). S \<noteq> [] \<and> length S \<le> MAX_STORES \<and> sorted_wrt (<) S)"

lemma btree_insert_keys: "set (map fst (btree_insert k v xs)) = insert k (set (map fst xs))"
  by (induction xs) auto

lemma btree_insert_sorted:
  "sorted_wrt (<) (map fst xs) \<Longrightarrow> sorted_wrt (<) (map fst (btree_insert k v xs))"
proof (induction xs)
  case (Cons x xs)
  have keys: "fst ` set (btree_insert k v xs) = insert k (fst ` set xs)"
    using btree_insert_keys[of k v xs] by simp
  have "\<forall>y \<in> fst ` set xs. k < y" if "k < fst x"
    using Cons.prems that by (simp add: order.strict_trans2) (meson less_trans)
  then show ?case using Cons keys by (cases "k < fst x"; cases "k = fst x") auto
qed simp

lemma set_btree_insert: "set (btree_insert k v xs) \<subseteq> insert (k, v) (set xs)"
  by (induction xs) auto

lemma length_btree_insert: "length (btree_insert k v xs) \<le> Suc (length xs)"
  by (induction xs) auto

lemma sorted_wrt_filter_keys:
  "sorted_wrt (<) (map fst xs) \<Longrightarrow> sorted_wrt (<) (map fst (filter P xs))"
  by (induction xs) auto

lemma state_ok_empty [simp]: "state_ok (empty_state b)" "state_ok (invalidate b st)"
  by (simp_all add: state_ok_def empty_state_def invalidate_def)

lemma state_ok_insert:
  assumes "state_ok st" "length (state_values st) < MAX_LOCATIONS"
  shows "state_ok (st\<lparr>state_values := btree_insert l [v] (state_values st)\<rparr>)"
proof -
  have "set (btree_insert l [v] (state_values st)) \<subseteq> insert (l, [v]) (set (state_values st))"
    by (rule set_btree_insert)
  moreover have "length (btree_insert l [v] (state_values st)) \<le> Suc (length (state_values st))"
    by (rule length_btree_insert)
  ultimately show ?thesis
    using assms by (auto simp: state_ok_def btree_insert_sorted MAX_STORES_def)
qed

lemma state_ok_step: "state_ok st \<Longrightarrow> state_ok (step ssa cc s st)"
proof (induction s)
  case (StoreStmt addr val)
  have "state_ok (keep_apart l st)" for l
    using StoreStmt le_trans[OF length_filter_le] by (auto simp: state_ok_def keep_apart_def sorted_wrt_filter_keys)
  moreover have "length (state_values (invalidate b st)) < MAX_LOCATIONS" for b st
    by (simp add: invalidate_def MAX_LOCATIONS_def)
  ultimately show ?case
    by (auto simp: store_step_def Let_def intro!: state_ok_insert split: option.split)
qed auto

lemma state_ok_block: "state_ok st \<Longrightarrow> state_ok (block_exit ssa cc blk st)"
proof -
  have "state_ok (fold (step ssa cc) ss st)" if "state_ok st" for ss st
    using that by (induction ss arbitrary: st) (auto simp: state_ok_step)
  then show "state_ok st \<Longrightarrow> state_ok (block_exit ssa cc blk st)" by (auto simp: block_exit_def Let_def)
qed

lemma extend_set_ok:
  "sorted_wrt (<) vs \<Longrightarrow> sorted_wrt (<) (extend_set inputs vs)" "vs \<noteq> [] \<Longrightarrow> extend_set inputs vs \<noteq> []"
proof -
  have 1: "sorted_wrt (<) xs \<Longrightarrow> sorted_wrt (<) (insort_insert x xs)" for x :: VarId and xs
    by (simp add: strict_sorted_iff sorted_insort_insert distinct_insort_insert)
  show "sorted_wrt (<) vs \<Longrightarrow> sorted_wrt (<) (extend_set inputs vs)"
    using 1 by (induction inputs arbitrary: vs) (auto simp: extend_set_def)
  have "insort_insert x xs \<noteq> []" for x :: VarId and xs by (metis insert_not_empty list.set(1) set_insort_insert)
  then show "vs \<noteq> [] \<Longrightarrow> extend_set inputs vs \<noteq> []"
    by (induction inputs arbitrary: vs) (auto simp: extend_set_def)
qed

lemma merge_entries_ok:
  "sorted_wrt (<) (map fst es) \<Longrightarrow> \<forall>(l, S) \<in> set es. S \<noteq> [] \<and> sorted_wrt (<) S \<Longrightarrow>
    length (fst (merge_entries other es b)) \<le> length es \<and>
    set (map fst (fst (merge_entries other es b))) \<subseteq> set (map fst es) \<and>
    sorted_wrt (<) (map fst (fst (merge_entries other es b))) \<and>
    (\<forall>(l, S) \<in> set (fst (merge_entries other es b)). S \<noteq> [] \<and> length S \<le> MAX_STORES \<and> sorted_wrt (<) S)"
proof (induction es arbitrary: b)
  case (Cons e es)
  obtain l S where e: "e = (l, S)" by fastforce
  have IH: "length (fst (merge_entries other es b)) \<le> length es \<and>
    set (map fst (fst (merge_entries other es b))) \<subseteq> set (map fst es) \<and>
    sorted_wrt (<) (map fst (fst (merge_entries other es b))) \<and>
    (\<forall>(l, S) \<in> set (fst (merge_entries other es b)). S \<noteq> [] \<and> length S \<le> MAX_STORES \<and> sorted_wrt (<) S)" for b
    using Cons by simp
  show ?case
  proof (cases "map_of (state_values other) l")
    case None
    then show ?thesis using IH[of "boundary other"] e by auto
  next
    case (Some inputs)
    show ?thesis
    proof (cases "length (extend_set inputs S) \<le> MAX_STORES")
      case True
      have ext: "extend_set inputs S \<noteq> []" "sorted_wrt (<) (extend_set inputs S)"
        using Cons.prems(2) e extend_set_ok by auto
      have "fst (merge_entries other (e # es) b) = (l, extend_set inputs S) # fst (merge_entries other es b)"
        using True Some e by (simp add: split_beta)
      moreover have "\<forall>y \<in> set (map fst (fst (merge_entries other es b))). l < y"
        using IH[of b] Cons.prems(1) unfolding e by (fastforce simp: subset_iff)
      ultimately show ?thesis
        using IH[of b] e True ext by (simp only: list.size list.map sorted_wrt.simps list.set fst_conv) auto
    next
      case False
      then show ?thesis using IH[of MemoryStateLimit] Some e by (auto simp: Let_def)
    qed
  qed
qed simp

lemma state_ok_merge_pred: "state_ok st \<Longrightarrow> state_ok (merge_pred other st)"
  using merge_entries_ok[of "state_values st" other "boundary st"]
  by (auto simp: state_ok_def merge_pred_def split_beta)

lemma state_ok_merge: "(\<And>p. p \<in> set ps \<Longrightarrow> state_ok (exits ! p)) \<Longrightarrow> merge_states ps exits = Some m \<Longrightarrow> state_ok m"
proof -
  have preds: "state_ok st \<Longrightarrow> merge_preds ps exits st = Some m \<Longrightarrow> state_ok m" for ps st
    by (induction ps arbitrary: st) (auto dest: state_ok_merge_pred split: bind_splits)
  assume q: "\<And>p. p \<in> set ps \<Longrightarrow> state_ok (exits ! p)" and m: "merge_states ps exits = Some m"
  show "state_ok m"
  proof (cases ps)
    case (Cons p ps')
    then have "merge_preds ps' exits (exits ! p) = Some m"
      using m by (auto simp: merge_states_def vec_simps split: bind_splits)
    from preds[OF _ this] q Cons show ?thesis by simp
  qed (use m in \<open>auto simp: merge_states_def\<close>)
qed

interpretation bounded: flow_invariant ssa cfg cc state_ok for ssa cfg cc
  by unfold_locales (auto intro: state_ok_merge state_ok_block)

end
