(* ===== verification/MemorySound.thy ===== *)
theory MemorySound
  imports MemoryRun MemoryFlow
begin

text \<open>
  The reaching-store analysis is sound for every execution: a step of the abstract state
  follows a step of the execution, a merge covers each predecessor, and a state the
  iteration has stabilised describes every execution that reaches its block.
\<close>

subsection \<open>What a load has read\<close>

definition recorded :: "'b world \<Rightarrow> VarId \<Rightarrow> int \<Rightarrow> 'b config \<Rightarrow> bool" where
  "recorded w i x c \<longleftrightarrow> (\<exists>b j c1 c2. at_point w b j c1 \<and> stmt_at w b j (Assign i) \<and> exec w (Assign i) c1 c2 \<and>
     env c2 i = x \<and> (\<forall>k. seen c2 k \<subseteq> seen c k))"

lemma exec_new_value: "exec w s c d \<Longrightarrow> x \<in> seen d i \<Longrightarrow> x \<in> seen c i \<or> s = Assign i \<and> env d i = x"
  by (induction rule: exec.induct) (auto split: if_splits)

lemma recorded_mono: "recorded w i x c \<Longrightarrow> \<forall>k. seen c k \<subseteq> seen d k \<Longrightarrow> recorded w i x d"
  unfolding recorded_def by (metis subset_trans)

lemma block_recorded:
  assumes "\<And>x. x \<in> seen c0 i \<Longrightarrow> recorded w i x c0" "reach w b c0"
    "vec_get (ssa_blocks (prog w)) b = Some blk"
  shows "j \<le> length (stmts blk) \<Longrightarrow> execs w (take j (stmts blk)) c0 c \<Longrightarrow> x \<in> seen c i \<Longrightarrow> recorded w i x c"
proof (induction j arbitrary: c)
  case 0
  then show ?case using assms(1) by simp
next
  case (Suc j)
  then obtain c1 where c1: "execs w (take j (stmts blk)) c0 c1" "exec w (stmts blk ! j) c1 c"
    by (auto simp: take_Suc_conv_app_nth elim!: execs_snocE)
  show ?case
  proof (cases "x \<in> seen c1 i")
    case True
    from Suc.IH[OF _ c1(1) this] Suc.prems(1) exec_seen[OF c1(2)] show ?thesis
      by (auto intro: recorded_mono)
  next
    case False
    with exec_new_value[OF c1(2) Suc.prems(3)] have s: "stmts blk ! j = Assign i" "env c i = x" by auto
    moreover have "at_point w b j c1" "stmt_at w b j (Assign i)"
      using assms(2,3) c1(1) Suc.prems(1) s(1) by (auto simp: at_point_def stmt_at_def)
    ultimately show ?thesis using c1(2) unfolding recorded_def by fastforce
  qed
qed

lemma reach_recorded: "reach w b c \<Longrightarrow> x \<in> seen c i \<Longrightarrow> recorded w i x c"
proof (induction arbitrary: x rule: reach.induct)
  case (edge b c blk d e b')
  have "x \<in> seen d i" using edge.prems leaves_seen[OF edge.hyps(4)] by simp
  then have "recorded w i x d"
    using block_recorded[OF edge.IH edge.hyps(1,2), of "length (stmts blk)" d x] edge.hyps(3) by simp
  then show ?case using leaves_seen[OF edge.hyps(4)] by (auto intro: recorded_mono)
qed simp

lemma at_point_recorded: "at_point w b j c \<Longrightarrow> x \<in> seen c i \<Longrightarrow> recorded w i x c"
  unfolding at_point_def by (metis block_recorded reach_recorded)

subsection \<open>States that describe executions\<close>

definition located :: "'b world \<Rightarrow> VarDef list \<Rightarrow> ExactLocation \<Rightarrow> VarId \<Rightarrow> bool" where
  "located w vs l v \<longleftrightarrow> (\<exists>b j addr. stmt_at w b j (StoreStmt addr v) \<and>
     exact_location vs addr (size_in w v) (conv w) = Some l)"

definition holds_at :: "'b world \<Rightarrow> ExactLocation \<Rightarrow> VarId \<Rightarrow> 'b config \<Rightarrow> bool" where
  "holds_at w l v c \<longleftrightarrow> value_in w c v (env c v) \<and>
     spells w (loc_addr (base_of w) l) (unat (loc_size l)) (env c v) (ram c)"

definition describes :: "'b world \<Rightarrow> VarDef list \<Rightarrow> State \<Rightarrow> 'b config \<Rightarrow> bool" where
  "describes w vs st c \<longleftrightarrow> (\<forall>(l, S) \<in> set (state_values st).
     (\<forall>v \<in> set S. located w vs l v) \<and> (\<exists>v \<in> set S. holds_at w l v c))"

text \<open>
  The analysed table follows the executed one up to the loads already forwarded, leaves
  the stored values alone, and the addresses the program's stores and loads access satisfy
  the conditions under which their locations are exact.
\<close>

definition follows :: "'b world \<Rightarrow> VarDef list \<Rightarrow> 'b config \<Rightarrow> bool" where
  "follows w vs c \<longleftrightarrow> forwards (vars (prog w)) vs (frame_registers (conv w)) (base_of w) (seen c)"

definition keeps_stores :: "'b world \<Rightarrow> VarDef list \<Rightarrow> bool" where
  "keeps_stores w vs \<longleftrightarrow> (\<forall>b j addr v. stmt_at w b j (StoreStmt addr v) \<longrightarrow>
     vec_get vs (unat v) = vec_get (vars (prog w)) (unat v))"

definition accesses :: "'b world \<Rightarrow> VarId \<Rightarrow> bool" where
  "accesses w p \<longleftrightarrow> (\<exists>b j v. stmt_at w b j (StoreStmt p v)) \<or> (\<exists>i. expr (ssa_var (prog w) i) = ELoad p)"

definition exact_table :: "'b world \<Rightarrow> VarDef list \<Rightarrow> bool" where
  "exact_table w vs \<longleftrightarrow> (\<forall>p. accesses w p \<longrightarrow> address_ok vs (conv w) (base_of w) p)"

lemma accesses_store: "stmt_at w b j (StoreStmt p v) \<Longrightarrow> accesses w p"
  and accesses_load: "expr (ssa_var (prog w) i) = ELoad p \<Longrightarrow> accesses w p"
  by (auto simp: accesses_def)

lemma describes_empty [simp]: "describes w vs (empty_state b) c" "describes w vs (invalidate b st) c"
  by (auto simp: describes_def empty_state_def invalidate_def)

lemma describes_subset:
  "describes w vs st c \<Longrightarrow> set (state_values st') \<subseteq> set (state_values st) \<Longrightarrow> describes w vs st' c"
  unfolding describes_def by blast

lemma follows_addr:
  assumes "exact_table w vs" "follows w vs c" "accesses w p" "exact_location vs p s (conv w) = Some l" "value_in w c p x"
  shows "x = loc_addr (base_of w) l" "loc_size l = s"
  using exact_location_addr[of "vars (prog w)" vs "conv w" "base_of w" "seen c"] assms
  by (auto simp: exact_table_def follows_def value_in_def)

lemma spells_disjoint:
  assumes "{a ..< a + int n} \<inter> {a' ..< a' + int n'} = {}" "spells w a n x m"
  shows "spells w a n x (write_bytes w a' n' y m)"
proof -
  have "\<not> (a' \<le> a + int k \<and> a + int k < a' + int n')" if "k < n" for k
  proof -
    have "a + int k \<in> {a ..< a + int n}" using that by simp
    then show ?thesis using assms(1) by fastforce
  qed
  then show ?thesis using assms(2) by (fastforce simp: spells_def write_bytes_def)
qed

lemma spells_write: "spells w a n x (write_bytes w a n x m)"
  by (simp add: spells_def write_bytes_def)

lemma describes_change:
  assumes "describes w vs st c" "\<forall>k. seen c k \<subseteq> seen d k" "ram d = ram c"
    and "\<And>l v. located w vs l v \<Longrightarrow> env d v = env c v"
  shows "describes w vs st d"
proof -
  have "holds_at w l v d" if "holds_at w l v c" "located w vs l v" for l v
    using that assms(2-4) value_in_mono by (fastforce simp: holds_at_def)
  then show ?thesis using assms(1) unfolding describes_def by fast
qed

lemma stores_okD:
  assumes "stores_ok w" "stmt_at w b j (StoreStmt addr v)"
  shows "\<exists>d u. vec_get (vars (prog w)) (unat v) = Some d \<and> expr d = EVar u"
    and "stmt_at w b' j' (StoreStmt addr' v) \<Longrightarrow> addr' = addr"
    and "\<not> stmt_at w b' j' (Assign v)"
    and "\<not> stmt_at w b' j' (CallStmt t args (Some v))"
    and "vec_get (ssa_blocks (prog w)) b' = Some blk \<Longrightarrow> out_of (ssa_terminator blk) \<noteq> Some v"
  using assms unfolding stores_ok_def by blast+

lemma store_describes:
  assumes ok: "stores_ok w" and t: "exact_table w (vars ssa)" "follows w (vars ssa) c" "keeps_stores w (vars ssa)"
    and s: "stmt_at w b j (StoreStmt addr val)" "value_in w c addr a" "value_in w c val x"
    and st: "describes w (vars ssa) st c"
    and d: "d = c\<lparr>env := (env c)(val := x), ram := write_bytes w a (unat (size_in w val)) x (ram c)\<rparr>"
  shows "describes w (vars ssa) (store_step ssa (conv w) addr val st) d"
proof -
  have sv: "ssa_var ssa val = ssa_var (prog w) val"
    using t(3) s(1) unfolding keeps_stores_def ssa_var_def by (metis (no_types))
  show ?thesis
  proof (cases "other_space (memory (ssa_var ssa val)) \<or>
      exact_location (vars ssa) addr (size_in w val) (conv w) = None")
    case True
    then show ?thesis by (auto simp: store_step_def size_in_def sv)
  next
    case False
    then obtain l where l: "exact_location (vars ssa) addr (size_in w val) (conv w) = Some l" by auto
    have a: "a = loc_addr (base_of w) l" "loc_size l = size_in w val"
      using follows_addr[OF t(1,2) accesses_store[OF s(1)] l s(2)] by auto
    have ne: "loc_size l \<noteq> 0" using exact_location_pos[OF l] a(2) by simp
    have new: "located w (vars ssa) l val \<and> holds_at w l val d"
      using s(1,3) l a spells_write
      by (auto simp: located_def holds_at_def d value_in_def)
    have old: "describes w (vars ssa) (keep_apart l st) d"
    proof -
      have "holds_at w m v d" if m: "\<not> may_overlap m l" "located w (vars ssa) m v" "holds_at w m v c" for m v
      proof -
        have "v \<noteq> val"
        proof
          assume "v = val"
          with m(2) stores_okD(2)[OF ok s(1)] l have "m = l" by (auto simp: located_def)
          then show False using m(1) may_overlap_self[OF ne] by simp
        qed
        moreover have "spells w (loc_addr (base_of w) m) (unat (loc_size m)) (env c v) (ram d)"
          unfolding d using may_overlap_disjoint[OF m(1), of "base_of w"] m(3) a
          by (simp add: spells_disjoint loc_bytes_def holds_at_def)
        ultimately show ?thesis using m(3) by (simp add: holds_at_def d value_in_def)
      qed
      then show ?thesis using st unfolding describes_def keep_apart_def by fastforce
    qed
    have *: "describes w (vars ssa) (st'\<lparr>state_values := btree_insert l [val] (state_values st')\<rparr>) d"
      if "describes w (vars ssa) st' d" for st'
      using that new set_btree_insert[of l "[val]" "state_values st'"] by (fastforce simp: describes_def)
    show ?thesis
      using False l old by (auto simp: store_step_def Let_def sv size_in_def[symmetric] intro!: *)
  qed
qed

lemma follows_user_op:
  assumes "follows w (vars ssa) c" "is_user_op (expr (ssa_var (prog w) i))"
  shows "is_user_op (expr (ssa_var ssa i))"
proof -
  obtain v where v: "vec_get (vars (prog w)) (unat i) = Some v"
    using assms(2) by (cases "vec_get (vars (prog w)) (unat i)")
      (auto simp: ssa_var_def sentinel_vardef_def blank_vardef_def is_user_op_def)
  then obtain v' where "vec_get (vars ssa) (unat i) = Some v'" "expr v' = expr v \<or> (\<exists>p. expr v = ELoad p)"
    using assms(1) unfolding follows_def forwards_def by blast
  with v assms(2) show ?thesis by (auto simp: ssa_var_def is_user_op_def)
qed

text \<open>The conditions on the analysed table at an execution state.\<close>

definition table_ok :: "'b world \<Rightarrow> SsaCfg \<Rightarrow> 'b config \<Rightarrow> bool" where
  "table_ok w ssa c \<longleftrightarrow> exact_table w (vars ssa) \<and> follows w (vars ssa) c \<and> keeps_stores w (vars ssa)"

lemma step_describes:
  assumes ok: "stores_ok w" and t: "table_ok w ssa c"
    and s: "stmt_at w b j s" "exec w s c d" and st: "describes w (vars ssa) st c"
  shows "describes w (vars ssa) (step ssa (conv w) s st) d"
proof -
  have other: "env d v = env c v" if "located w (vars ssa) l v" "s = Assign i" "\<forall>k. k \<noteq> i \<longrightarrow> env d k = env c k" for l v i
    using that s(1) stores_okD(3)[OF ok] unfolding located_def by metis
  note change = describes_change[OF st exec_seen[OF s(2)]]
  from s(2) show ?thesis
  proof cases
    case (store addr a val x)
    then show ?thesis
      using store_describes[OF ok _ _ _ s(1)[unfolded store(1)] store(3,4) st store(2)] t
      by (simp add: table_ok_def)
  next
    case (store_other val x addr m)
    have "vec_get (vars ssa) (unat val) = vec_get (vars (prog w)) (unat val)"
      using t s(1) store_other(1) unfolding table_ok_def keeps_stores_def by blast
    then show ?thesis using store_other by (simp add: store_step_def ssa_var_def)
  next
    case (user_op i x m)
    then show ?thesis using follows_user_op[of w ssa c i] t by (simp add: table_ok_def)
  next
    case (load i p a x)
    then show ?thesis using change other[OF _ load(1)] by simp
  next
    case (load_other i p x)
    then show ?thesis using change other[OF _ load_other(1)] by simp
  next
    case (assign i x)
    then show ?thesis using change other[OF _ assign(1)] by simp
  qed simp
qed

subsection \<open>Blocks and joins\<close>

lemma fold_describes:
  assumes ok: "stores_ok w" and blk: "vec_get (ssa_blocks (prog w)) b = Some blk" "reach w b c0"
    and t: "\<And>j c. at_point w b j c \<Longrightarrow> table_ok w ssa c"
    and st: "describes w (vars ssa) st c0"
  shows "j \<le> length (stmts blk) \<Longrightarrow> execs w (take j (stmts blk)) c0 c \<Longrightarrow>
    describes w (vars ssa) (fold (step ssa (conv w)) (take j (stmts blk)) st) c"
proof (induction j arbitrary: c)
  case 0
  then show ?case using st by simp
next
  case (Suc j)
  then obtain c1 where c1: "execs w (take j (stmts blk)) c0 c1" "exec w (stmts blk ! j) c1 c"
    by (auto simp: take_Suc_conv_app_nth elim!: execs_snocE)
  have p: "at_point w b j c1" "stmt_at w b j (stmts blk ! j)"
    using blk c1(1) Suc.prems(1) by (auto simp: at_point_def stmt_at_def)
  from step_describes[OF ok t[OF p(1)] p(2) c1(2) Suc.IH[OF _ c1(1)]] Suc.prems(1) show ?case
    by (simp add: take_Suc_conv_app_nth)
qed

lemma exit_describes:
  assumes "stores_ok w" "vec_get (ssa_blocks (prog w)) b = Some blk" "reach w b c"
    and "\<And>j c. at_point w b j c \<Longrightarrow> table_ok w ssa c" "describes w (vars ssa) st c"
    and "execs w (stmts blk) c d" "leaves w (ssa_terminator blk) d e"
  shows "describes w (vars ssa) (block_exit ssa (conv w) blk st) e"
proof -
  have "describes w (vars ssa) (fold (step ssa (conv w)) (stmts blk) st) d"
    using fold_describes[OF assms(1-5), where j = "length (stmts blk)" and c = d] assms(6) by simp
  then show ?thesis
    using assms(7) by (auto simp: block_exit_def Let_def is_scall_def leaves_def split: SsaTerminator.splits)
qed

lemma set_extend_set: "set (extend_set inputs vs) = set inputs \<union> set vs"
  by (induction inputs arbitrary: vs) (auto simp: extend_set_def set_insort_insert)

lemma merge_entries_entry:
  "(l, S) \<in> set (fst (merge_entries other es b)) \<Longrightarrow>
    \<exists>S1 S2. (l, S1) \<in> set es \<and> (l, S2) \<in> set (state_values other) \<and> set S = set S1 \<union> set S2"
proof (induction es arbitrary: b)
  case (Cons e es)
  then show ?case
    by (cases e)
      (auto simp: Let_def set_extend_set split_beta Un_commute split: option.splits if_splits dest!: map_of_SomeD, blast+)
qed simp

lemma merge_pred_entry:
  "(l, S) \<in> set (state_values (merge_pred other st)) \<Longrightarrow>
    \<exists>S1 S2. (l, S1) \<in> set (state_values st) \<and> (l, S2) \<in> set (state_values other) \<and> set S = set S1 \<union> set S2"
  using merge_entries_entry by (auto simp: merge_pred_def split_beta)

text \<open>An entry of a merge has an entry in every predecessor, and all their stores.\<close>

lemma merge_preds_entry:
  "merge_preds ps exits st = Some m \<Longrightarrow> (l, S) \<in> set (state_values m) \<Longrightarrow>
    (\<exists>S'. (l, S') \<in> set (state_values st) \<and> set S' \<subseteq> set S) \<and>
    (\<forall>p \<in> set ps. \<exists>S'. (l, S') \<in> set (state_values (exits ! p)) \<and> set S' \<subseteq> set S) \<and>
    (\<forall>v \<in> set S. \<exists>st' \<in> insert st ((!) exits ` set ps). \<exists>S'. (l, S') \<in> set (state_values st') \<and> v \<in> set S')"
proof (induction ps arbitrary: st)
  case (Cons p ps)
  then obtain other where o: "vec_get exits p = Some other" "merge_preds ps exits (merge_pred other st) = Some m"
    by (auto split: bind_splits)
  then have e: "exits ! p = other" by (simp add: vec_simps)
  from Cons.IH[OF o(2) Cons.prems(2)] obtain S' where s: "(l, S') \<in> set (state_values (merge_pred other st))" "set S' \<subseteq> set S"
    by blast
  from merge_pred_entry[OF s(1)] obtain S1 S2 where s12: "(l, S1) \<in> set (state_values st)"
      "(l, S2) \<in> set (state_values other)" "set S' = set S1 \<union> set S2" by blast
  have third: "\<exists>st' \<in> insert st ((!) exits ` set (p # ps)). \<exists>S'. (l, S') \<in> set (state_values st') \<and> v \<in> set S'" if "v \<in> set S" for v
  proof -
    from Cons.IH[OF o(2) Cons.prems(2)] that obtain st' S'' where
      st': "st' \<in> insert (merge_pred other st) ((!) exits ` set ps)" "(l, S'') \<in> set (state_values st')" "v \<in> set S''"
      by blast
    show ?thesis
    proof (cases "st' = merge_pred other st")
      case True
      then show ?thesis using merge_pred_entry[of l S'' other st] st' e by auto
    qed (use st' in auto)
  qed
  have "set S1 \<subseteq> set S" "set S2 \<subseteq> set S" using s(2) s12(3) by auto
  moreover have "\<forall>p \<in> set ps. \<exists>S'. (l, S') \<in> set (state_values (exits ! p)) \<and> set S' \<subseteq> set S"
    using Cons.IH[OF o(2) Cons.prems(2)] by blast
  ultimately show ?case
    using s12(1,2) third unfolding e[symmetric] by (intro conjI ballI) (auto simp del: insert_iff)
qed auto

lemma merge_states_entry:
  assumes "merge_states ps exits = Some m" "(l, S) \<in> set (state_values m)"
  shows "(\<forall>p \<in> set ps. \<exists>S'. (l, S') \<in> set (state_values (exits ! p)) \<and> set S' \<subseteq> set S) \<and>
    (\<forall>v \<in> set S. \<exists>p \<in> set ps. \<exists>S'. (l, S') \<in> set (state_values (exits ! p)) \<and> v \<in> set S')"
proof (cases ps)
  case Nil
  then show ?thesis using assms by (auto simp: merge_states_def empty_state_def)
next
  case (Cons p ps')
  then have "merge_preds ps' exits (exits ! p) = Some m"
    using assms(1) by (auto simp: merge_states_def vec_simps split: bind_splits)
  from merge_preds_entry[OF this assms(2)] show ?thesis
    unfolding Cons by (simp only: list.set image_insert) blast
qed

subsection \<open>Stable states\<close>

definition all_located :: "'b world \<Rightarrow> VarDef list \<Rightarrow> State \<Rightarrow> bool" where
  "all_located w vs st \<longleftrightarrow> (\<forall>(l, S) \<in> set (state_values st). \<forall>v \<in> set S. located w vs l v)"

lemma all_located_empty [simp]: "all_located w vs (empty_state b)" "all_located w vs (invalidate b st)"
  by (auto simp: all_located_def empty_state_def invalidate_def)

lemma all_located_step:
  assumes "stmt_at w b j s" "keeps_stores w (vars ssa)" "all_located w (vars ssa) st"
  shows "all_located w (vars ssa) (step ssa (conv w) s st)"
proof (cases s)
  case (StoreStmt addr val)
  then have "var_size (ssa_var ssa val) = size_in w val"
    using assms(1,2) unfolding keeps_stores_def ssa_var_def size_in_def by (metis (no_types))
  then have new: "located w (vars ssa) l val"
    if "exact_location (vars ssa) addr (var_size (ssa_var ssa val)) (conv w) = Some l" for l
    using assms(1) StoreStmt that by (auto simp: located_def)
  have keep: "all_located w (vars ssa) (keep_apart l st)" for l
    using assms(3) by (auto simp: all_located_def keep_apart_def)
  have ins: "all_located w (vars ssa) (st'\<lparr>state_values := btree_insert l [val] (state_values st')\<rparr>)"
    if "all_located w (vars ssa) st'" "located w (vars ssa) l val" for st' l
    using that set_btree_insert[of l "[val]" "state_values st'"] by (fastforce simp: all_located_def)
  show ?thesis
    using StoreStmt by (auto simp: store_step_def Let_def intro!: ins keep new split: option.split)
qed (use assms(3) in auto)

lemma all_located_block:
  assumes "vec_get (ssa_blocks (prog w)) b = Some blk" "all_located w (vars (prog w)) st"
  shows "all_located w (vars (prog w)) (block_exit (prog w) (conv w) blk st)"
proof -
  have keep: "keeps_stores w (vars (prog w))" by (simp add: keeps_stores_def)
  have "all_located w (vars (prog w)) (fold (step (prog w) (conv w)) (take j (stmts blk)) st)"
    if "j \<le> length (stmts blk)" for j
    using that
  proof (induction j)
    case (Suc j)
    have "stmt_at w b j (stmts blk ! j)" using assms(1) Suc.prems by (auto simp: stmt_at_def)
    from all_located_step[OF this keep Suc.IH] Suc.prems show ?case
      by (simp add: take_Suc_conv_app_nth)
  qed (use assms(2) in simp)
  from this[of "length (stmts blk)"] show ?thesis by (simp add: block_exit_def Let_def)
qed

interpretation located: flow_invariant "prog w" "graph w" "conv w" "all_located w (vars (prog w))" for w
proof
  fix ps exits m
  assume "\<And>p. p \<in> set ps \<Longrightarrow> all_located w (vars (prog w)) (exits ! p)" "merge_states ps exits = Some m"
  then show "all_located w (vars (prog w)) m"
    using merge_states_entry[of ps exits m] unfolding all_located_def by fast
qed (auto intro: all_located_block)

definition held :: "'b world \<Rightarrow> State \<Rightarrow> 'b config \<Rightarrow> bool" where
  "held w st c \<longleftrightarrow> (\<forall>(l, S) \<in> set (state_values st). \<exists>v \<in> set S. holds_at w l v c)"

lemma describes_iff: "describes w vs st c \<longleftrightarrow> all_located w vs st \<and> held w st c"
  unfolding describes_def all_located_def held_def by fast

lemma self_table: "exact_table w (vars (prog w)) \<Longrightarrow> table_ok w (prog w) c"
  by (simp add: table_ok_def follows_def keeps_stores_def forwards_refl)

lemma stable_describes:
  assumes ok: "stores_ok w" "layout_ok (prog w) (graph w)" "exact_table w (vars (prog w))"
    and p: "preds_ok (graph w) preds"
    and st: "\<forall>b < length (blocks (graph w)). stable_at (prog w) (graph w) (conv w) preds exits entries b"
    and loc: "\<forall>b < length (blocks (graph w)). all_located w (vars (prog w)) (entries ! b)"
  shows "reach w b c \<Longrightarrow> b < length (blocks (graph w)) \<Longrightarrow> describes w (vars (prog w)) (entries ! b) c"
proof (induction rule: reach.induct)
  case (start c)
  then have "stable_at (prog w) (graph w) (conv w) preds exits entries (entry (graph w))" using st by simp
  then have "entries ! entry (graph w) = empty_state UnmodeledMemory"
    by (simp add: stable_at_def block_entry_def)
  then show ?case by simp
next
  case (edge b c blk d e b')
  have b: "b < length (blocks (graph w))" "ssa_blocks (prog w) ! b = blk"
    using edge.hyps(2) ok(2) by (auto simp: layout_ok_def vec_simps)
  have ex: "describes w (vars (prog w)) (exits ! b) e"
    using exit_describes[OF ok(1) edge.hyps(2,1) self_table[OF ok(3)] edge.IH[OF b(1)] edge.hyps(3,4)] st b
    by (simp add: stable_at_def)
  have b': "block_entry (graph w) preds exits b' = Some (entries ! b')"
    using st edge.prems by (simp add: stable_at_def)
  show ?case
  proof (cases "b' = entry (graph w)")
    case True
    with b' have "entries ! b' = empty_state UnmodeledMemory" by (simp add: block_entry_def)
    then show ?thesis by simp
  next
    case False
    then have "merge_states (preds ! b') exits = Some (entries ! b')" "b \<in> set (preds ! b')"
      using b' p edge.prems edge.hyps(5) b(1) by (auto simp: block_entry_def preds_ok_def vec_get_def)
    from merge_states_entry[OF this(1)] this(2) ex have "held w (entries ! b') e"
      unfolding describes_iff held_def by fast
    then show ?thesis using loc edge.prems by (simp add: describes_iff)
  qed
qed

lemma settled_describes:
  assumes "stores_ok w" "layout_ok (prog w) (graph w)" "exact_table w (vars (prog w))"
    and "settled (prog w) (graph w) (conv w) entries"
    and "\<forall>b < length (blocks (graph w)). all_located w (vars (prog w)) (entries ! b)"
    and "reach w b c" "b < length (blocks (graph w))"
  shows "describes w (vars (prog w)) (entries ! b) c"
  using assms(4) stable_describes[OF assms(1-3) _ _ assms(5-7)] assms(7) unfolding settled_def by auto

end
