(* ===== verification/MemoryForward.thy ===== *)
theory MemoryForward
  imports MemorySound
begin

text \<open>
  The forwarding phase: rewriting loads never changes an address that was already exact,
  so the states keep describing the executions while the table is rewritten under them,
  and each rewritten load names stores one of which it reads in every execution.
\<close>

subsection \<open>Exact addresses are stable\<close>

definition advances :: "VarDef list \<Rightarrow> VarDef list \<Rightarrow> bool" where
  "advances vs vs' \<longleftrightarrow> (\<forall>(i::VarId) v. vec_get vs (unat i) = Some v \<longrightarrow>
     (\<exists>v'. vec_get vs' (unat i) = Some v' \<and> var_size v' = var_size v \<and> varnode v' = varnode v \<and>
        call_return v' = call_return v \<and> (expr v' = expr v \<or> (\<exists>p. expr v = ELoad p))))"

text \<open>An address expression no load takes part in.\<close>

inductive plain :: "VarDef list \<Rightarrow> VarId \<Rightarrow> bool" for vs where
  const: "\<lbrakk>vec_get vs (unat i) = Some v; expr v = EConst c w\<rbrakk> \<Longrightarrow> plain vs i"
| unknown: "\<lbrakk>vec_get vs (unat i) = Some v; expr v = EUnknown\<rbrakk> \<Longrightarrow> plain vs i"
| copy: "\<lbrakk>vec_get vs (unat i) = Some v; expr v = EVar j; plain vs j\<rbrakk> \<Longrightarrow> plain vs i"
| unary: "\<lbrakk>vec_get vs (unat i) = Some v; expr v = EUnaryOp k j; plain vs j\<rbrakk> \<Longrightarrow> plain vs i"
| binary: "\<lbrakk>vec_get vs (unat i) = Some v; expr v = EBinOp k a b; plain vs a; plain vs b\<rbrakk> \<Longrightarrow> plain vs i"

lemma constant_bits_plain: "constant_bits vs n i f = Some r \<Longrightarrow> plain vs i"
proof (induction n arbitrary: i f r)
  case (Suc n)
  then obtain v where v: "vec_get vs (unat i) = Some v"
    by (auto split: if_splits bind_splits)
  show ?case
  proof (cases "expr v")
    case (EConst c w)
    then show ?thesis by (rule plain.const[OF v])
  next
    case (EVar j)
    then show ?thesis using Suc v by (auto intro!: plain.copy[OF v] split: if_splits bind_splits)
  next
    case (EUnaryOp k j)
    then show ?thesis using Suc v by (auto intro!: plain.unary[OF v] split: if_splits bind_splits)
  next
    case (EBinOp k a b)
    then show ?thesis using Suc v by (auto intro!: plain.binary[OF v] split: if_splits bind_splits)
  qed (use Suc v in \<open>auto split: if_splits\<close>)
qed simp

lemma constant_of_var_plain: "constant_of_var vs i = Some d \<Longrightarrow> plain vs i"
  by (auto simp: constant_of_var_def intro: constant_bits_plain split: bind_splits)

lemma resolve_plain: "resolve vs frames s n i = Some l \<Longrightarrow> plain vs i"
proof (induction n arbitrary: i l)
  case (Suc n)
  then obtain v where v: "vec_get vs (unat i) = Some v" "s \<noteq> 0"
    by (auto split: if_splits bind_splits)
  note c = constant_of_var_plain
  show ?case
  proof (cases "expr v")
    case (EConst c w)
    then show ?thesis by (rule plain.const[OF v(1)])
  next
    case EUnknown
    then show ?thesis by (rule plain.unknown[OF v(1)])
  next
    case (EVar j)
    then show ?thesis using Suc v by (auto intro!: plain.copy[OF v(1)])
  next
    case (EBinOp k a b)
    then show ?thesis using Suc v
      by (auto intro!: plain.binary[OF v(1)] dest: c split: if_splits bind_splits option.splits)
  qed (use Suc v in auto)
qed simp

lemma advances_plain:
  "advances vs vs' \<Longrightarrow> vec_get vs (unat (i::VarId)) = Some v \<Longrightarrow> \<forall>p. expr v \<noteq> ELoad p \<Longrightarrow>
    \<exists>v'. vec_get vs' (unat i) = Some v' \<and> var_size v' = var_size v \<and> varnode v' = varnode v \<and>
      call_return v' = call_return v \<and> expr v' = expr v"
  unfolding advances_def by blast

lemma advances_size: "advances vs vs' \<Longrightarrow> vec_get vs (unat i) = Some v \<Longrightarrow> size_of vs' i = size_of vs i"
  unfolding advances_def size_of_def by fastforce

lemma plain_exists: "plain vs i \<Longrightarrow> \<exists>v. vec_get vs (unat i) = Some v"
  by (cases rule: plain.cases) auto

lemma constant_bits_advance:
  assumes "advances vs vs'"
  shows "plain vs i \<Longrightarrow> constant_bits vs' n i f = constant_bits vs n i f"
proof (induction arbitrary: n f rule: plain.induct)
  case (const i v c w)
  then obtain v' where "vec_get vs' (unat i) = Some v'" "var_size v' = var_size v" "expr v' = expr v"
    using advances_plain[OF assms const(1)] const(2) by auto
  then show ?case using const by (cases n) auto
next
  case (unknown i v)
  then obtain v' where "vec_get vs' (unat i) = Some v'" "var_size v' = var_size v" "expr v' = expr v"
    using advances_plain[OF assms unknown(1)] unknown(2) by auto
  then show ?case using unknown by (cases n) auto
next
  case (copy i v j)
  then obtain v' where "vec_get vs' (unat i) = Some v'" "var_size v' = var_size v" "expr v' = expr v"
    using advances_plain[OF assms copy(1)] copy(2) by auto
  then show ?case using copy by (cases n) auto
next
  case (unary i v k j)
  then obtain v' where v': "vec_get vs' (unat i) = Some v'" "var_size v' = var_size v" "expr v' = expr v"
    using advances_plain[OF assms unary(1)] unary(2) by auto
  obtain u where u: "vec_get vs (unat j) = Some u" using plain_exists[OF unary(3)] by blast
  then obtain u' where "vec_get vs' (unat j) = Some u'" "var_size u' = var_size u"
    using assms unfolding advances_def by blast
  then show ?case using unary v' u by (cases n) (auto split: bind_split)
next
  case (binary i v k a b)
  then obtain v' where "vec_get vs' (unat i) = Some v'" "var_size v' = var_size v" "expr v' = expr v"
    using advances_plain[OF assms binary(1)] binary(2) by auto
  then show ?case using binary by (cases n) (auto split: bind_split)
qed

lemma constant_of_var_advance:
  assumes "advances vs vs'" "plain vs i"
  shows "constant_of_var vs' i = constant_of_var vs i"
proof -
  obtain v where v: "vec_get vs (unat i) = Some v" using plain_exists[OF assms(2)] by blast
  then obtain v' where "vec_get vs' (unat i) = Some v'" "var_size v' = var_size v"
    using assms(1) unfolding advances_def by blast
  then show ?thesis using constant_bits_advance[OF assms] v by (simp add: constant_of_var_def)
qed

lemma resolve_advance:
  assumes "advances vs vs'"
  shows "plain vs i \<Longrightarrow> resolve vs' frames s n i = resolve vs frames s n i"
proof (induction arbitrary: n rule: plain.induct)
  case (const i v c w)
  then obtain v' where "vec_get vs' (unat i) = Some v'" "expr v' = expr v"
    using advances_plain[OF assms const(1)] const(2) by auto
  then show ?case using const by (cases n) auto
next
  case (unknown i v)
  then obtain v' where "vec_get vs' (unat i) = Some v'" "varnode v' = varnode v" "call_return v' = call_return v"
      "expr v' = expr v"
    using advances_plain[OF assms unknown(1)] unknown(2) by auto
  then show ?case using unknown by (cases n) auto
next
  case (copy i v j)
  then obtain v' where "vec_get vs' (unat i) = Some v'" "expr v' = expr v"
    using advances_plain[OF assms copy(1)] copy(2) by auto
  then show ?case using copy by (cases n) auto
next
  case (unary i v k j)
  then obtain v' where "vec_get vs' (unat i) = Some v'" "expr v' = expr v"
    using advances_plain[OF assms unary(1)] unary(2) by auto
  then show ?case using unary by (cases n) auto
next
  case (binary i v k a b)
  then obtain v' where "vec_get vs' (unat i) = Some v'" "var_size v' = var_size v" "expr v' = expr v"
    using advances_plain[OF assms binary(1)] binary(2) by auto
  then show ?case using binary constant_of_var_advance[OF assms] by (cases n) (auto split: option.split cong: if_cong)
qed

lemma exact_location_advance:
  "advances vs vs' \<Longrightarrow> exact_location vs p s cc = Some l \<Longrightarrow> exact_location vs' p s cc = Some l"
  unfolding exact_location_def using resolve_plain resolve_advance by metis

lemma path_sized_advance:
  assumes a: "advances vs vs'"
  shows "plain vs i \<Longrightarrow> path_sized vs' n i \<Longrightarrow> path_sized vs n i"
proof (induction n arbitrary: i)
  case (Suc n)
  obtain v where v: "vec_get vs (unat i) = Some v" using plain_exists[OF Suc.prems(1)] by blast
  have nl: "\<forall>p. expr v \<noteq> ELoad p" using Suc.prems(1) v by (cases rule: plain.cases) auto
  obtain v' where v': "vec_get vs' (unat i) = Some v'" "var_size v' = var_size v" "expr v' = expr v"
    using advances_plain[OF a v nl] by blast
  have sub: "plain vs j" if "expr v = EVar j \<or> (\<exists>k a. expr v = EBinOp k a j \<or> expr v = EBinOp k j a)" for j
    using Suc.prems(1) that v by (cases rule: plain.cases) auto
  have size: "size_of vs' j = size_of vs j" if "plain vs j" for j
    using plain_exists[OF that] advances_size[OF a] by blast
  show ?case
  proof (cases "expr v")
    case (EVar j)
    with Suc.prems(2) v v' sub[of j] size[of j] Suc.IH[of j] show ?thesis by (simp add: sized_var_def)
  next
    case (EBinOp k x y)
    have p: "plain vs x" "plain vs y" using sub EBinOp by auto
    with Suc.prems(2) v v' EBinOp size[of x] size[of y] Suc.IH[of x] Suc.IH[of y]
      constant_of_var_advance[OF a p(2)] show ?thesis
      by (auto simp: sized_var_def split: if_splits)
  qed (use Suc.prems(2) v v' in \<open>auto simp: sized_var_def\<close>)
qed simp

lemma address_ok_advance:
  assumes a: "advances vs vs'" and t: "address_ok vs' cc base p"
  shows "address_ok vs cc base p"
  unfolding address_ok_def
proof (intro allI impI)
  fix s l assume e: "exact_location vs p s cc = Some l"
  have p: "plain vs p" using e resolve_plain unfolding exact_location_def by blast
  then have "size_of vs' p = size_of vs p" using plain_exists advances_size[OF a] by blast
  moreover have "path_sized vs' 64 p \<and>
      (\<forall>b d t. l = StackLoc b d t \<longrightarrow> 0 \<le> base b + d \<and> base b + d < 2 ^ (8 * unat (size_of vs' p)))"
    using t exact_location_advance[OF a e] unfolding address_ok_def by blast
  ultimately show "path_sized vs 64 p \<and>
      (\<forall>b d t. l = StackLoc b d t \<longrightarrow> 0 \<le> base b + d \<and> base b + d < 2 ^ (8 * unat (size_of vs p)))"
    using path_sized_advance[OF a p] by simp
qed

lemma exact_table_advance: "advances vs vs' \<Longrightarrow> exact_table w vs' \<Longrightarrow> exact_table w vs"
  unfolding exact_table_def using address_ok_advance by blast

subsection \<open>One load\<close>

lemma adjust_size: "adjust vsz l d = Some l' \<Longrightarrow> loc_size l' = loc_size l"
  by (cases l) (auto simp: adjust_def split: bind_splits if_splits)

lemma resolve_size: "resolve vs frames s n i = Some l \<Longrightarrow> loc_size l = s"
proof (induction n arbitrary: i l)
  case (Suc n)
  then obtain v where v: "vec_get vs (unat i) = Some v" "s \<noteq> 0"
    by (auto split: if_splits bind_splits)
  show ?case
    by (cases "expr v") (use Suc v in \<open>auto dest!: adjust_size split: if_splits bind_splits option.splits\<close>)
qed simp

lemma exact_location_size: "exact_location vs p s cc = Some l \<Longrightarrow> loc_size l = s"
  unfolding exact_location_def by (rule resolve_size)

definition evidence_at :: "CallingConv \<Rightarrow> State \<Rightarrow> VarDef list \<Rightarrow> VarDef \<Rightarrow> VarId \<Rightarrow> VarId list \<times> Boundary option" where
  "evidence_at cc st vs v ptr =
     load_evidence_of (load_space (memory v)) (exact_location vs ptr (var_size v) cc) st"

lemma rewrite_load:
  assumes "vec_get vs k = Some old" "memory old = Some (LoadAccess sp S bnd)" "rewrite vs k (EVar u) = Some vs'"
  obtains v' where "vs' = vs[k := v']" "expr v' = EVar u" "var_size v' = var_size old" "varnode v' = varnode old"
    "call_return v' = call_return old" "memory v' = memory old"
proof (rule that)
  show "vs' = vs[k := old\<lparr>memory := memory old,
      origins := merge_inputs (EVar u) vs (merge_inputs (expr old) vs (origins old)), expr := EVar u\<rparr>]"
    using assms by (auto simp: rewrite_def Let_def)
qed simp_all

lemma apply_load_spec:
  assumes v: "vec_get (vars ssa) (unat i) = Some v"
    and a: "apply_load src cc st i ptr ssa = Some ssa'"
    and e: "evidence_at cc st (vars ssa) v ptr = (S, bnd)"
  obtains (none) "S = []" "ssa_blocks ssa' = ssa_blocks ssa"
      "vars ssa' = (vars ssa)[unat i := v\<lparr>memory := Some (LoadAccess (load_space (memory v)) S bnd)\<rparr>]"
  | (some) u v' l new where "S \<noteq> []" "exact_location (vars ssa) ptr (var_size v) cc = Some l"
      "ssa_blocks ssa' = ssa_blocks ssa" "vars ssa' = (vars ssa @ new)[unat i := v']"
      "expr v' = EVar u" "var_size v' = var_size v" "varnode v' = varnode v" "call_return v' = call_return v"
      "memory v' = Some (LoadAccess (load_space (memory v)) S bnd)"
      "S = [u] \<and> new = [] \<or>
       u = of_nat (length (vars ssa)) \<and> (\<exists>ph. new = [ph] \<and> expr ph = EPhi S \<and> var_size ph = loc_size l)"
proof -
  let ?sp = "load_space (memory v)"
  let ?v = "v\<lparr>memory := Some (LoadAccess ?sp S bnd)\<rparr>"
  have sv: "ssa_var ssa i = v" using v by (simp add: ssa_var_def)
  have vm: "var_mut ssa i (\<lambda>v. v\<lparr>memory := Some (LoadAccess ?sp S bnd)\<rparr>) = ssa\<lparr>vars := (vars ssa)[unat i := ?v]\<rparr>"
    using v by (auto simp: var_mut_def grow_vars_id vec_simps)
  note a' = a[unfolded apply_load_def sv Let_def e[unfolded evidence_at_def] prod.case vm]
  show thesis
  proof (cases "S = []")
    case True
    then show thesis using none a' by auto
  next
    case False
    let ?ssa = "ssa\<lparr>vars := (vars ssa)[unat i := ?v]\<rparr>"
    obtain l u ssa1 vs where l: "exact_location (vars ssa) ptr (var_size v) cc = Some l"
        "forwarded_value src S (loc_size l) ?ssa = (u, ssa1)"
        "rewrite (vars ssa1) (unat i) (EVar u) = Some vs" "ssa' = ssa1\<lparr>vars := vs\<rparr>"
      using a' False by (auto split: bind_splits prod.splits)
    obtain new where ssa1: "ssa_blocks ssa1 = ssa_blocks ssa" "vars ssa1 = (vars ssa)[unat i := ?v] @ new"
        "S = [u] \<and> new = [] \<or>
         u = of_nat (length (vars ssa)) \<and> (\<exists>ph. new = [ph] \<and> expr ph = EPhi S \<and> var_size ph = loc_size l)"
      using l(2) False by (cases "length S = 1") (auto simp: forwarded_value_def new_var_def Let_def length_Suc_conv)
    have i: "unat i < length (vars ssa)" using v by (simp add: vec_simps)
    then have "vec_get (vars ssa1) (unat i) = Some ?v" by (simp add: ssa1 vec_get_def nth_append)
    from rewrite_load[OF this _ l(3)] obtain v' where v': "vs = (vars ssa1)[unat i := v']" "expr v' = EVar u"
        "var_size v' = var_size v" "varnode v' = varnode v" "call_return v' = call_return v"
        "memory v' = Some (LoadAccess ?sp S bnd)"
      by auto
    have "vars ssa' = (vars ssa @ new)[unat i := v']"
      using i l(4) v'(1) ssa1(2) by (simp add: list_update_append)
    then show thesis using some[OF False l(1) _ _ v'(2-6) ssa1(3)] l(4) ssa1(1) by simp
  qed
qed

text \<open>
  The heart: at an execution state the abstract state describes, a load whose location it
  has reads the current value of one of the stores.
\<close>

lemma load_reads:
  assumes ok: "stores_ok w" and t: "table_ok w ssa c" and st: "describes w (vars ssa) st c"
    and x: "exec w (Assign i) c d" "expr (ssa_var (prog w) i) = ELoad p"
      "load_space (memory (ssa_var (prog w) i)) = Ram"
    and l: "exact_location (vars ssa) p (size_in w i) (conv w) = Some l" "(l, S) \<in> set (state_values st)"
  shows "\<exists>v \<in> set S. size_in w v = size_in w i \<and> value_in w c v (env c v) \<and> env d i = env c v \<and> env d v = env c v"
proof -
  from st l(2) obtain v where v: "v \<in> set S" "located w (vars ssa) l v" "holds_at w l v c"
    unfolding describes_def by blast
  from v(2) obtain b j addr where a: "stmt_at w b j (StoreStmt addr v)"
      "exact_location (vars ssa) addr (size_in w v) (conv w) = Some l"
    unfolding located_def by blast
  obtain dv u where dv: "vec_get (vars (prog w)) (unat v) = Some dv" "expr dv = EVar u"
    using stores_okD(1)[OF ok a(1)] by blast
  have sz: "loc_size l = size_in w v" "loc_size l = size_in w i"
    using exact_location_size[OF a(2)] exact_location_size[OF l(1)] by simp_all
  have sv: "size_in w v = var_size dv" using dv by (simp add: size_in_def ssa_var_def)
  from v(3) have val: "value_in w c v (env c v)"
      "spells w (loc_addr (base_of w) l) (unat (loc_size l)) (env c v) (ram c)"
    by (auto simp: holds_at_def)
  have rng: "0 \<le> env c v \<and> env c v < 2 ^ (8 * unat (size_in w i))"
    using addr_value_copy[OF val(1)[unfolded value_in_def] dv(1,2)] sv sz by auto
  from x(1) x(2,3) obtain a y where y: "value_in w c p a" "env d i = y"
      "\<forall>z. 0 \<le> z \<and> z < 2 ^ (8 * unat (size_in w i)) \<and> spells w a (unat (size_in w i)) z (ram c) \<longrightarrow> y = z"
      "d = c\<lparr>env := (env c)(i := y), seen := (seen c)(i := insert y (seen c i))\<rparr>"
    by (cases rule: exec.cases) (auto simp: is_user_op_def)
  have "a = loc_addr (base_of w) l"
    using follows_addr[OF _ _ accesses_load[OF x(2)] l(1) y(1)] t by (simp add: table_ok_def)
  then have "y = env c v" using y(3) val(2) rng sz by simp
  then show ?thesis using v(1) val(1) sz y(4) by (intro bexI[of _ v]) auto
qed

end
