(* ===== verification/MemoryTable.thy ===== *)
theory MemoryTable
  imports MemoryForward
begin

text \<open>
  The invariant of forwarding over the table it rewrites, and its preservation by the
  rewriting of one load: executions follow the table as far as it has got, and each load
  done reads one of the stores it names.
\<close>

subsection \<open>The invariant of forwarding\<close>

definition single_assign :: "'b world \<Rightarrow> bool" where
  "single_assign w \<longleftrightarrow> (\<forall>b j b' j' i. stmt_at w b j (Assign i) \<longrightarrow> stmt_at w b' j' (Assign i) \<longrightarrow> b = b' \<and> j = j')"

text \<open>The variables assigned before statement \<open>j\<close> of block \<open>b\<close> in the order of the blocks.\<close>

definition done_before :: "'b world \<Rightarrow> BlockId \<Rightarrow> nat \<Rightarrow> VarId set" where
  "done_before w b j = {i. \<exists>b' j'. stmt_at w b' j' (Assign i) \<and> (b' < b \<or> b' = b \<and> j' < j)}"

text \<open>A load whose stores are all known reads the current value of one of them.\<close>

definition claim_ok :: "'b world \<Rightarrow> VarDef list \<Rightarrow> VarId \<Rightarrow> bool" where
  "claim_ok w vs i \<longleftrightarrow> (\<forall>v sp S. vec_get vs (unat i) = Some v \<longrightarrow> memory v = Some (LoadAccess sp S None) \<longrightarrow>
     (\<forall>b j c d. at_point w b j c \<longrightarrow> stmt_at w b j (Assign i) \<longrightarrow> exec w (Assign i) c d \<longrightarrow>
        (\<exists>s \<in> set S. env d i = env d s) \<and>
        (\<exists>u. expr v = EVar u \<and> (S = [u] \<or> (\<exists>ph. vec_get vs (unat u) = Some ph \<and> expr ph = EPhi S)))))"

definition untouched :: "'b world \<Rightarrow> VarId set \<Rightarrow> VarDef list \<Rightarrow> bool" where
  "untouched w D vs \<longleftrightarrow> (\<forall>i. i \<notin> D \<longrightarrow> unat i < length (vars (prog w)) \<longrightarrow> vec_get vs (unat i) = vec_get (vars (prog w)) (unat i))"

definition forward_ok :: "'b world \<Rightarrow> SsaCfg \<Rightarrow> BlockId \<Rightarrow> nat \<Rightarrow> bool" where
  "forward_ok w ssa b j \<longleftrightarrow> untouched w (done_before w b j) (vars ssa) \<and> advances (vars (prog w)) (vars ssa) \<and>
     ssa_blocks ssa = ssa_blocks (prog w) \<and>
     (\<forall>(i::VarId) v. vec_get (vars (prog w)) (unat i) = None \<longrightarrow> vec_get (vars ssa) (unat i) = Some v \<longrightarrow> (\<exists>is. expr v = EPhi is)) \<and>
     (\<forall>b' j' c. at_point w b' j' c \<longrightarrow> follows w (vars ssa) c) \<and>
     (\<forall>i \<in> done_before w b j. (\<exists>p. expr (ssa_var (prog w) i) = ELoad p) \<longrightarrow> claim_ok w (vars ssa) i)"


lemma updated_lookup:
  assumes "vs' = (vs @ new)[unat i := v']" "unat i < length vs"
  shows "vec_get vs' (unat i) = Some v'"
    and "k \<noteq> i \<Longrightarrow> unat k < length vs \<Longrightarrow> vec_get vs' (unat k) = vec_get vs (unat k)"
    and "length vs \<le> unat k \<Longrightarrow> vec_get vs' (unat k) = vec_get new (unat k - length vs)"
  using assms by (auto simp: vec_get_def nth_append nth_list_update word_unat_eq_iff)

text \<open>A table whose entry \<open>i\<close> was rewritten, perhaps to a new phi.\<close>

lemma follows_update:
  assumes f: "follows w vs c" and adv: "advances (vars (prog w)) vs"
    and u: "vs' = (vs @ new)[unat i := v']" "vec_get vs (unat i) = Some v"
    and same: "var_size v' = var_size v" "varnode v' = varnode v" "call_return v' = call_return v"
    and new: "new = [] \<or> (\<exists>ph is. new = [ph] \<and> expr ph = EPhi is)"
    and e: "expr v' = expr v \<or> (\<exists>p k. expr v = ELoad p \<and> expr v' = EVar k \<and> unat k < length vs' \<and>
        size_of vs' k = var_size v \<and> (\<forall>x \<in> seen c i. value_in w c k x))"
  shows "follows w vs' c"
proof -
  let ?vs = "vars (prog w)" and ?F = "frame_registers (conv w)"
  have i: "unat i < length vs" using u(2) by (simp add: vec_simps)
  note lk = updated_lookup[OF u(1) i]
  have size_old: "size_of vs' k = size_of vs k" if "unat k < length vs" for k
    using lk(1) lk(2)[of k] u(2) that same(1) by (cases "k = i") (auto simp: size_of_def)
  have old: "\<exists>x'. vec_get vs' (unat k) = Some x' \<and> var_size x' = var_size x \<and> varnode x' = varnode x \<and>
      call_return x' = call_return x \<and> (expr x' = expr x \<or> (\<exists>p m. expr x = ELoad p \<and> expr x' = EVar m \<and>
        unat m < length vs' \<and> size_of vs' m = var_size x \<and> (\<forall>y \<in> seen c k. value_in w c m y)))"
    if k: "vec_get ?vs (unat k) = Some x" for k :: VarId and x
  proof -
    from f k obtain y where y: "vec_get vs (unat k) = Some y" "var_size y = var_size x" "varnode y = varnode x"
        "call_return y = call_return x"
        "expr y = expr x \<or> (\<exists>p m. expr x = ELoad p \<and> expr y = EVar m \<and> unat m < length vs \<and>
           size_of vs m = var_size x \<and> (\<forall>z \<in> seen c k. value_in w c m z))"
      unfolding follows_def forwards_def value_in_def by blast
    have len: "length vs \<le> length vs'" using u(1) by simp
    show ?thesis
    proof (cases "k = i")
      case False
      then have "vec_get vs' (unat k) = Some y" using lk(2)[of k] y(1) by (simp add: vec_simps)
      then show ?thesis using y size_old len by fastforce
    next
      case True
      then have yv: "y = v" using y(1) u(2) by simp
      show ?thesis
      proof (cases "expr v' = expr v")
        case True
        then show ?thesis using lk(1) same y(2-5) size_old len unfolding yv \<open>k = i\<close> by fastforce
      next
        case False
        with e obtain p m where m: "expr v = ELoad p" "expr v' = EVar m" "unat m < length vs'"
            "size_of vs' m = var_size v" "\<forall>x \<in> seen c i. value_in w c m x" by blast
        then have "expr x = ELoad p" using y(5) yv by auto
        then show ?thesis using lk(1) same y(2-4) m unfolding yv \<open>k = i\<close> by auto
      qed
    qed
  qed
  have phis: "\<exists>is. expr x = EPhi is" if none: "vec_get ?vs (unat k) = None" and "vec_get vs' (unat k) = Some x" for k :: VarId and x
  proof (cases "unat k < length vs")
    case True
    then obtain y where y: "vec_get vs (unat k) = Some y" by (simp add: vec_get_def)
    then obtain args where p: "expr y = EPhi args" using f none unfolding follows_def forwards_def by blast
    show ?thesis
    proof (cases "k = i")
      case True
      then have "expr v = EPhi args" using y p u(2) by simp
      then show ?thesis using e that(2) lk(1) True by auto
    next
      case False
      then show ?thesis using lk(2)[of k] True y that(2) p by auto
    qed
  next
    case False
    then show ?thesis using lk(3)[of k] that(2) new by (auto simp: vec_get_def split: if_splits)
  qed
  show ?thesis using old phis unfolding follows_def forwards_def value_in_def by blast
qed

lemma advances_trans: "advances vs vs' \<Longrightarrow> advances vs' vs'' \<Longrightarrow> advances vs vs''"
proof -
  assume a: "advances vs vs'" "advances vs' vs''"
  have "\<exists>z. vec_get vs'' (unat i) = Some z \<and> var_size z = var_size v \<and> varnode z = varnode v \<and>
      call_return z = call_return v \<and> (expr z = expr v \<or> (\<exists>p. expr v = ELoad p))"
    if "vec_get vs (unat i) = Some v" for i :: VarId and v
  proof -
    from a(1) that obtain y where y: "vec_get vs' (unat i) = Some y" "var_size y = var_size v" "varnode y = varnode v"
        "call_return y = call_return v" "expr y = expr v \<or> (\<exists>p. expr v = ELoad p)"
      unfolding advances_def by blast
    from a(2) y(1) obtain z where "vec_get vs'' (unat i) = Some z" "var_size z = var_size y" "varnode z = varnode y"
        "call_return z = call_return y" "expr z = expr y \<or> (\<exists>p. expr y = ELoad p)"
      unfolding advances_def by blast
    then show ?thesis using y by auto
  qed
  then show "advances vs vs''" unfolding advances_def by blast
qed

lemma advances_update:
  assumes "vs' = (vs @ new)[unat i := v']" "vec_get vs (unat i) = Some v" "expr v = ELoad p"
    "var_size v' = var_size v" "varnode v' = varnode v" "call_return v' = call_return v"
  shows "advances vs vs'"
proof -
  have i: "unat i < length vs" using assms(2) by (simp add: vec_simps)
  note lk = updated_lookup[OF assms(1) i]
  have "\<exists>y. vec_get vs' (unat k) = Some y \<and> var_size y = var_size x \<and> varnode y = varnode x \<and>
      call_return y = call_return x \<and> (expr y = expr x \<or> (\<exists>p. expr x = ELoad p))"
    if "vec_get vs (unat k) = Some x" for k :: VarId and x
  proof (cases "unat k = unat i")
    case True
    then show ?thesis using lk(1) that assms(2-6) by auto
  next
    case False
    then have "vec_get vs' (unat k) = Some x"
      using that assms(1) by (auto simp: vec_get_def nth_append split: if_splits)
    then show ?thesis by auto
  qed
  then show ?thesis unfolding advances_def by blast
qed

lemma done_before_Suc:
  assumes "stmt_at w b j s"
  shows "done_before w b (Suc j) = (case s of Assign i \<Rightarrow> insert i (done_before w b j) | _ \<Rightarrow> done_before w b j)"
  using assms by (auto simp: done_before_def less_Suc_eq stmt_at_def split: Stmt.splits)

lemma not_done:
  "single_assign w \<Longrightarrow> stmt_at w b j (Assign i) \<Longrightarrow> i \<notin> done_before w b j"
  unfolding single_assign_def done_before_def by fastforce

lemma untouched_keeps: "stores_ok w \<Longrightarrow> untouched w (done_before w b j) vs \<Longrightarrow> keeps_stores w vs"
proof -
  assume ok: "stores_ok w" and u: "untouched w (done_before w b j) vs"
  show "keeps_stores w vs"
    unfolding keeps_stores_def
  proof (intro allI impI)
    fix b' j' addr v
    assume s: "stmt_at w b' j' (StoreStmt addr v)"
    have "v \<notin> done_before w b j" using stores_okD(3)[OF ok s] by (auto simp: done_before_def)
    moreover have "unat v < length (vars (prog w))" using stores_okD(1)[OF ok s] by (auto simp: vec_simps)
    ultimately show "vec_get vs (unat v) = vec_get (vars (prog w)) (unat v)" using u by (simp add: untouched_def)
  qed
qed

lemma forward_table:
  "stores_ok w \<Longrightarrow> forward_ok w ssa b j \<Longrightarrow> exact_table w (vars ssa) \<Longrightarrow> at_point w b' j' c \<Longrightarrow> table_ok w ssa c"
  unfolding forward_ok_def table_ok_def using untouched_keeps by blast

lemma claim_keep:
  assumes c: "claim_ok w vs k" and u: "vs' = (vs @ new)[unat i := v']" "vec_get vs (unat i) = Some v" "expr v = ELoad p"
    and k: "k \<noteq> i" "unat k < length vs"
  shows "claim_ok w vs' k"
proof -
  have i: "unat i < length vs" using u(2) by (simp add: vec_simps)
  note lk = updated_lookup[OF u(1) i]
  have same: "vec_get vs' (unat k) = vec_get vs (unat k)" by (rule lk(2)[OF k])
  have phi: "vec_get vs' (unat m) = Some ph" if "vec_get vs (unat m) = Some ph" "expr ph = EPhi S" for m :: VarId and ph S
  proof -
    have "m \<noteq> i" using that u(2,3) by auto
    then show ?thesis using lk(2)[of m] that(1) by (simp add: vec_simps)
  qed
  show ?thesis
    unfolding claim_ok_def same
    using c unfolding claim_ok_def by (meson phi)
qed

text \<open>What the evidence says when it names stores.\<close>

lemma evidence_cases:
  assumes "evidence_at cc st vs v p = (S, bnd)" "S \<noteq> [] \<or> bnd = None"
  obtains l where "load_space (memory v) = Ram" "bnd = None" "exact_location vs p (var_size v) cc = Some l"
    "(l, S) \<in> set (state_values st)"
  using assms by (auto simp: evidence_at_def load_evidence_of_def dest: map_of_SomeD split: if_splits option.splits)

lemma evidence_reads:
  assumes ok: "stores_ok w" "single_assign w"
    and F: "forward_ok w ssa b j" and T: "exact_table w (vars ssa)"
    and s: "stmt_at w b j (Assign i)" and st: "\<forall>c. at_point w b j c \<longrightarrow> describes w (vars ssa) st c"
    and v: "vec_get (vars ssa) (unat i) = Some v" "expr v = ELoad p"
    and e: "evidence_at (conv w) st (vars ssa) v p = (S, bnd)" "S \<noteq> [] \<or> bnd = None"
    and x: "at_point w b' j' c" "stmt_at w b' j' (Assign i)" "exec w (Assign i) c d"
  shows "\<exists>k \<in> set S. value_in w c k (env c k) \<and> env d i = env c k \<and> env d k = env c k"
proof -
  have here: "b' = b" "j' = j" using ok(2) s x(2) unfolding single_assign_def by blast+
  have "vec_get (vars (prog w)) (unat i) = Some v"
  proof (cases "unat i < length (vars (prog w))")
    case True
    then show ?thesis using F not_done[OF ok(2) s] v(1) unfolding forward_ok_def untouched_def by metis
  next
    case False
    then have "vec_get (vars (prog w)) (unat i) = None" by (simp add: vec_get_def)
    then obtain args where "expr v = EPhi args" using F v(1) unfolding forward_ok_def by blast
    then show ?thesis using v(2) by simp
  qed
  then have sv: "ssa_var (prog w) i = v" "size_in w i = var_size v" by (simp_all add: ssa_var_def size_in_def)
  obtain l where l: "load_space (memory v) = Ram" "exact_location (vars ssa) p (var_size v) (conv w) = Some l"
      "(l, S) \<in> set (state_values st)"
    using evidence_cases[OF e] by blast
  have "describes w (vars ssa) st c" using st x(1) here by blast
  from load_reads[OF ok(1) forward_table[OF ok(1) F T x(1)] this x(3), of p l S] sv v(2) l show ?thesis
    by auto
qed

text \<open>The variable a resolved load becomes a copy of: a store's value, or the new phi.\<close>

definition target_ok :: "'b world \<Rightarrow> VarDef list \<Rightarrow> VarDef \<Rightarrow> VarId \<Rightarrow> VarId list \<Rightarrow> VarId \<Rightarrow> bool" where
  "target_ok w vs v i S k \<longleftrightarrow> unat k < length vs \<and> size_of vs k = var_size v \<and>
     (\<forall>b j c x. at_point w b j c \<longrightarrow> x \<in> seen c i \<longrightarrow> value_in w c k x) \<and>
     (S = [k] \<or> (\<exists>ph. vec_get vs (unat k) = Some ph \<and> expr ph = EPhi S))"

lemma single_target:
  assumes ok: "stores_ok w" "single_assign w"
    and F: "forward_ok w ssa b j" and T: "exact_table w (vars ssa)"
    and s: "stmt_at w b j (Assign i)"
    and st: "\<forall>c. at_point w b j c \<longrightarrow> describes w (vars ssa) st c" "all_located w (vars ssa) st"
    and v: "vec_get (vars ssa) (unat i) = Some v" "expr v = ELoad p"
    and e: "evidence_at (conv w) st (vars ssa) v p = ([k], bnd)"
    and u: "vs' = (vars ssa @ new)[unat i := v']"
  shows "target_ok w vs' v i [k] k"
proof -
  have i: "unat i < length (vars ssa)" using v(1) by (simp add: vec_simps)
  obtain l where l: "exact_location (vars ssa) p (var_size v) (conv w) = Some l" "(l, [k]) \<in> set (state_values st)"
    using evidence_cases[OF e] by blast
  then have "located w (vars ssa) l k" using st(2) by (auto simp: all_located_def)
  then obtain b' j' addr where a: "stmt_at w b' j' (StoreStmt addr k)"
      "exact_location (vars ssa) addr (size_in w k) (conv w) = Some l"
    unfolding located_def by blast
  have sz: "size_in w k = var_size v"
    using exact_location_size[OF a(2)] exact_location_size[OF l(1)] by simp
  have ki: "k \<noteq> i" using stores_okD(3)[OF ok(1) a(1)] s by blast
  obtain dk where dk: "vec_get (vars (prog w)) (unat k) = Some dk" using stores_okD(1)[OF ok(1) a(1)] by blast
  have "keeps_stores w (vars ssa)" using untouched_keeps[OF ok(1)] F unfolding forward_ok_def by blast
  then have "vec_get (vars ssa) (unat k) = Some dk" using dk a(1) unfolding keeps_stores_def by metis
  then have "vec_get vs' (unat k) = Some dk" using updated_lookup(2)[OF u i ki] by (simp add: vec_simps)
  then have "size_of vs' k = var_size v" "unat k < length vs'"
    using sz dk by (simp_all add: size_of_simp size_in_def ssa_var_def) (simp add: vec_simps)
  moreover have "value_in w c k x" if c: "at_point w b'' j'' c" "x \<in> seen c i" for b'' j'' c x
  proof -
    from at_point_recorded[OF c] obtain b1 j1 c1 c2 where r: "at_point w b1 j1 c1" "stmt_at w b1 j1 (Assign i)"
        "exec w (Assign i) c1 c2" "env c2 i = x" "\<forall>m. seen c2 m \<subseteq> seen c m"
      unfolding recorded_def by blast
    have "value_in w c1 k x" using evidence_reads[OF ok F T s st(1) v e _ r(1-3)] r(4) by auto
    then show ?thesis using value_in_mono exec_seen[OF r(3)] r(5) by (metis subset_trans)
  qed
  ultimately show ?thesis by (simp add: target_ok_def)
qed

lemma phi_target:
  assumes adv: "advances (vars (prog w)) vs"
    and u: "vs' = (vs @ [ph])[unat i := v']" "unat i < length vs" "length vs' \<le> 2 ^ 32"
    and ph: "expr ph = EPhi S" "var_size ph = var_size v"
  shows "target_ok w vs' v i S (of_nat (length vs))"
proof -
  let ?k = "of_nat (length vs) :: VarId"
  have kl: "unat ?k = length vs" using u by (simp add: unat_of_nat take_bit_nat_eq_self)
  then have vk: "vec_get vs' (unat ?k) = Some ph"
    using updated_lookup(3)[OF u(1,2), of ?k] by (simp add: vec_get_def)
  have "vec_get (vars (prog w)) (unat ?k) = None"
  proof (cases "vec_get (vars (prog w)) (unat ?k)")
    case (Some x)
    then obtain y where "vec_get vs (unat ?k) = Some y" using adv unfolding advances_def by blast
    then show ?thesis using kl by (simp add: vec_simps)
  qed
  then have "value_in w c ?k x" for c x unfolding value_in_def by (rule addr_value.missing)
  moreover have "size_of vs' ?k = var_size v" "unat ?k < length vs'"
    using vk ph(2) by (simp_all only: size_of_simp) (simp add: vec_simps)
  ultimately show ?thesis using vk ph(1) by (auto simp: target_ok_def)
qed

text \<open>The other parts of the invariant, for any such update of entry \<open>i\<close>.\<close>

lemma forward_ok_update:
  assumes F: "forward_ok w ssa b j" and s: "stmt_at w b j (Assign i)" and nd: "i \<notin> done_before w b j"
    and v: "vec_get (vars ssa) (unat i) = Some v" "expr v = ELoad p"
    and u: "vars ssa' = (vars ssa @ new)[unat i := v']" "ssa_blocks ssa' = ssa_blocks ssa"
    and same: "var_size v' = var_size v" "varnode v' = varnode v" "call_return v' = call_return v"
    and new: "new = [] \<or> (\<exists>ph is. new = [ph] \<and> expr ph = EPhi is)"
    and fol: "\<And>b' j' c. at_point w b' j' c \<Longrightarrow> follows w (vars ssa') c"
    and claim: "claim_ok w (vars ssa') i"
  shows "forward_ok w ssa' b (Suc j)"
proof -
  let ?D = "done_before w b j"
  note F' = F[unfolded forward_ok_def]
  have i: "unat i < length (vars ssa)" using v(1) by (simp add: vec_simps)
  note lk = updated_lookup[OF u(1) i]
  have D: "done_before w b (Suc j) = insert i ?D" using done_before_Suc[OF s] by simp
  have untouched: "untouched w (insert i ?D) (vars ssa')"
    unfolding untouched_def
  proof (intro allI impI)
    fix k :: VarId assume k: "k \<notin> insert i ?D" "unat k < length (vars (prog w))"
    then have "vec_get (vars ssa) (unat k) = vec_get (vars (prog w)) (unat k)"
      using F' by (simp add: untouched_def)
    moreover have "unat k < length (vars ssa)" using k(2) calculation by (simp add: vec_get_def split: if_splits)
    ultimately show "vec_get (vars ssa') (unat k) = vec_get (vars (prog w)) (unat k)" using lk(2)[of k] k(1) by simp
  qed
  have phis: "\<exists>is. expr y = EPhi is" if "vec_get (vars (prog w)) (unat k) = None" "vec_get (vars ssa') (unat k) = Some y"
    for k :: VarId and y
  proof (cases "unat k < length (vars ssa)")
    case True
    then obtain z where z: "vec_get (vars ssa) (unat k) = Some z" by (simp add: vec_get_def)
    then have "\<exists>is. expr z = EPhi is" using F' that(1) by blast
    moreover have "k \<noteq> i" using calculation z v by auto
    ultimately show ?thesis using lk(2)[of k] True z that(2) by simp
  next
    case False
    then show ?thesis using lk(3)[of k] that(2) new by (auto simp: vec_get_def split: if_splits)
  qed
  have claims: "claim_ok w (vars ssa') k" if k: "k \<in> ?D" "\<exists>p. expr (ssa_var (prog w) k) = ELoad p" for k
  proof -
    obtain z where "vec_get (vars (prog w)) (unat k) = Some z"
      using k(2) by (cases "vec_get (vars (prog w)) (unat k)") (auto simp: ssa_var_def sentinel_vardef_def blank_vardef_def)
    then obtain y where "vec_get (vars ssa) (unat k) = Some y" using F' unfolding advances_def by blast
    then have "unat k < length (vars ssa)" by (simp add: vec_simps)
    moreover have "k \<noteq> i" using k(1) nd by blast
    ultimately show ?thesis using claim_keep[OF _ u(1) v] F' k by blast
  qed
  have "advances (vars (prog w)) (vars ssa')"
    using advances_trans[OF _ advances_update[OF u(1) v same]] F' by blast
  then show ?thesis
    using untouched phis claims claim fol u(2) F' unfolding forward_ok_def D by auto
qed

lemma apply_load_ok:
  assumes ok: "stores_ok w" "single_assign w"
    and F: "forward_ok w ssa b j" and T: "exact_table w (vars ssa)"
    and s: "stmt_at w b j (Assign i)"
    and st: "\<forall>c. at_point w b j c \<longrightarrow> describes w (vars ssa) st c" "all_located w (vars ssa) st"
    and v: "vec_get (vars ssa) (unat i) = Some v" "expr v = ELoad p"
    and a: "apply_load src (conv w) st i p ssa = Some ssa'"
    and len: "length (vars ssa') \<le> 2 ^ 32"
  shows "forward_ok w ssa' b (Suc j) \<and> advances (vars ssa) (vars ssa')"
proof -
  have i: "unat i < length (vars ssa)" using v(1) by (simp add: vec_simps)
  obtain S bnd where e: "evidence_at (conv w) st (vars ssa) v p = (S, bnd)" by fastforce
  note F' = F[unfolded forward_ok_def]
  note reads = evidence_reads[OF ok F T s st(1) v e]
  obtain new v' where u: "vars ssa' = (vars ssa @ new)[unat i := v']" "ssa_blocks ssa' = ssa_blocks ssa"
    and same: "var_size v' = var_size v" "varnode v' = varnode v" "call_return v' = call_return v"
    and mem: "memory v' = Some (LoadAccess (load_space (memory v)) S bnd)"
    and new: "new = [] \<or> (\<exists>ph is. new = [ph] \<and> expr ph = EPhi is)"
    and ex: "S = [] \<and> expr v' = expr v \<or>
      S \<noteq> [] \<and> (\<exists>k. expr v' = EVar k \<and> (S = [k] \<and> new = [] \<or> k = of_nat (length (vars ssa)) \<and>
         (\<exists>ph l. new = [ph] \<and> expr ph = EPhi S \<and> var_size ph = loc_size l \<and>
            exact_location (vars ssa) p (var_size v) (conv w) = Some l)))"
    using v(1) a e
  proof (cases rule: apply_load_spec)
    case none
    then show thesis
      by (intro that[of "[]" "v\<lparr>memory := Some (LoadAccess (load_space (memory v)) S bnd)\<rparr>"]) auto
  next
    case (some k v' l new)
    then show thesis by (intro that[of new v']) auto
  qed
  have adv: "advances (vars ssa) (vars ssa')" by (rule advances_update[OF u(1) v same])
  have target: "target_ok w (vars ssa') v i S k" if k: "expr v' = EVar k" "S \<noteq> []" for k
  proof -
    from ex k consider (one) "S = [k]"
      | (phi) ph l where "k = of_nat (length (vars ssa))" "new = [ph]" "expr ph = EPhi S" "var_size ph = loc_size l"
          "exact_location (vars ssa) p (var_size v) (conv w) = Some l"
      by auto
    then show ?thesis
    proof cases
      case one
      then show ?thesis using single_target[OF ok F T s st v _ u(1)] e by simp
    next
      case phi
      then show ?thesis
        using phi_target[OF _ u(1)[unfolded phi(2)] i len phi(3), of w v] F' exact_location_size[OF phi(5)] by simp
    qed
  qed
  have fol: "follows w (vars ssa') c" if c: "at_point w b' j' c" for b' j' c
  proof (rule follows_update[OF _ _ u(1) v(1) same new])
    show "follows w (vars ssa) c" "advances (vars (prog w)) (vars ssa)" using F' c by blast+
    show "expr v' = expr v \<or> (\<exists>p k. expr v = ELoad p \<and> expr v' = EVar k \<and> unat k < length (vars ssa') \<and>
        size_of (vars ssa') k = var_size v \<and> (\<forall>x \<in> seen c i. value_in w c k x))"
      using ex target v(2) c unfolding target_ok_def by blast
  qed
  have claim: "claim_ok w (vars ssa') i"
    unfolding claim_ok_def updated_lookup(1)[OF u(1) i]
  proof (intro allI impI)
    fix v0 sp T b' j' c d
    assume h: "Some v' = Some v0" "memory v0 = Some (LoadAccess sp T None)" "at_point w b' j' c"
      "stmt_at w b' j' (Assign i)" "exec w (Assign i) c d"
    then have T: "T = S" "bnd = None" "v0 = v'" using mem by auto
    from reads[OF _ h(3-5)] T(2) obtain k where k: "k \<in> set S" "env d i = env c k" "env d k = env c k" by blast
    then have "S \<noteq> []" and k2: "env d i = env d k" by auto
    with ex obtain m where "expr v' = EVar m" by blast
    then show "(\<exists>s \<in> set T. env d i = env d s) \<and>
        (\<exists>u. expr v0 = EVar u \<and> (T = [u] \<or> (\<exists>ph. vec_get (vars ssa') (unat u) = Some ph \<and> expr ph = EPhi T)))"
      using target[of m] k2 k(1) \<open>S \<noteq> []\<close> unfolding T target_ok_def by blast
  qed
  have "forward_ok w ssa' b (Suc j)"
    by (rule forward_ok_update[OF F s not_done[OF ok(2) s] v u same new _ claim]) (rule fol)
  then show ?thesis using adv by blast
qed

end
