(* ===== verification/MemoryProps.thy ===== *)
theory MemoryProps
  imports MemoryTable
begin

text \<open>
  The end-to-end properties of the reaching-store analysis: forwarding is total, bounded
  in its evidence, and sound, in that a load it resolves reads in every execution the
  current value of one of the stores it names.
\<close>

subsection \<open>Statements and blocks\<close>

lemma advances_refl: "advances vs vs"
  by (auto simp: advances_def)

lemma ssa_var_load:
  assumes "expr (ssa_var ssa i) = ELoad p"
  obtains v where "vec_get (vars ssa) (unat i) = Some v" "expr v = ELoad p"
  using assms by (cases "vec_get (vars ssa) (unat i)") (auto simp: ssa_var_def sentinel_vardef_def blank_vardef_def)

lemma apply_load_advances:
  assumes "vec_get (vars ssa) (unat i) = Some v" "expr v = ELoad p" "apply_load src cc st i p ssa = Some ssa'"
  shows "advances (vars ssa) (vars ssa') \<and> ssa_blocks ssa' = ssa_blocks ssa \<and> length (vars ssa) \<le> length (vars ssa')"
proof -
  obtain S bnd where e: "evidence_at cc st (vars ssa) v p = (S, bnd)" by fastforce
  from assms(1,3) e show ?thesis
  proof (cases rule: apply_load_spec)
    case none
    then show ?thesis
      using advances_update[of "vars ssa'" "vars ssa" "[]" i _ v p] assms(1,2) by simp
  next
    case (some k v' l new)
    then show ?thesis
      using advances_update[of "vars ssa'" "vars ssa" new i v' v p] assms(1,2) by simp
  qed
qed

text \<open>A statement either forwards one load or leaves the table.\<close>

lemma apply_stmt_cases:
  assumes "apply_stmt src cc s (st, ssa) = Some (st', ssa')"
  obtains (load) i p v where "s = Assign i" "vec_get (vars ssa) (unat i) = Some v" "expr v = ELoad p"
      "apply_load src cc st i p ssa = Some ssa'" "st' = step ssa' cc s st"
  | (rest) "ssa' = ssa" "st' = step ssa cc s st" "\<forall>i p. s = Assign i \<longrightarrow> expr (ssa_var ssa i) \<noteq> ELoad p"
proof (cases "\<exists>i p. s = Assign i \<and> expr (ssa_var ssa i) = ELoad p")
  case True
  then obtain i p where i: "s = Assign i" "expr (ssa_var ssa i) = ELoad p" by blast
  from ssa_var_load[OF i(2)] obtain v where "vec_get (vars ssa) (unat i) = Some v" "expr v = ELoad p" .
  then show thesis using load i assms by (auto simp: apply_stmt_def split: bind_splits)
next
  case False
  then show thesis
    using rest assms by (cases s) (auto simp: apply_stmt_def split: Expr.splits)
qed

lemma apply_stmt_advances:
  assumes "apply_stmt src cc s (st, ssa) = Some (st', ssa')"
  shows "advances (vars ssa) (vars ssa') \<and> ssa_blocks ssa' = ssa_blocks ssa \<and> length (vars ssa) \<le> length (vars ssa')"
  using assms by (cases rule: apply_stmt_cases) (use apply_load_advances advances_refl in auto)

lemma apply_stmts_advances:
  "apply_stmts src cc ss (st, ssa) = Some (st', ssa') \<Longrightarrow>
    advances (vars ssa) (vars ssa') \<and> ssa_blocks ssa' = ssa_blocks ssa \<and> length (vars ssa) \<le> length (vars ssa')"
proof (induction ss arbitrary: st ssa)
  case (Cons s ss)
  then obtain st1 ssa1 where "apply_stmt src cc s (st, ssa) = Some (st1, ssa1)"
      "apply_stmts src cc ss (st1, ssa1) = Some (st', ssa')"
    by (auto split: bind_splits)
  then show ?case using apply_stmt_advances Cons.IH advances_trans by (metis le_trans)
qed (simp add: advances_refl)

lemma apply_blocks_advances:
  "apply_blocks src cc es ssa = Some ssa' \<Longrightarrow>
    advances (vars ssa) (vars ssa') \<and> ssa_blocks ssa' = ssa_blocks ssa \<and> length (vars ssa) \<le> length (vars ssa')"
proof (induction es arbitrary: ssa)
  case (Cons e es)
  from Cons.prems obtain blk :: SsaBlock and st1 ssa1 where "apply_stmts src cc (stmts blk) (snd e, ssa) = Some (st1, ssa1)"
      "apply_blocks src cc es ssa1 = Some ssa'"
    by (auto split: bind_splits)
  then show ?case using apply_stmts_advances Cons.IH advances_trans by (metis le_trans)
qed (simp add: advances_refl)

lemma located_advance: "located w vs l v \<Longrightarrow> advances vs vs' \<Longrightarrow> located w vs' l v"
  unfolding located_def using exact_location_advance by blast

lemma describes_advance: "describes w vs st c \<Longrightarrow> advances vs vs' \<Longrightarrow> describes w vs' st c"
  unfolding describes_def using located_advance by fast

lemma all_located_advance: "all_located w vs st \<Longrightarrow> advances vs vs' \<Longrightarrow> all_located w vs' st"
  unfolding all_located_def using located_advance by fast

text \<open>Forwarding is sound up to statement \<open>j\<close> of block \<open>b\<close>, where the state is \<open>st\<close>.\<close>

definition sound_to :: "'b world \<Rightarrow> State \<Rightarrow> SsaCfg \<Rightarrow> BlockId \<Rightarrow> nat \<Rightarrow> bool" where
  "sound_to w st ssa b j \<longleftrightarrow> forward_ok w ssa b j \<and> all_located w (vars ssa) st \<and>
     (\<forall>c. at_point w b j c \<longrightarrow> describes w (vars ssa) st c)"

lemma apply_stmt_sound:
  assumes ok: "stores_ok w" "single_assign w" and F: "sound_to w st ssa b j" and s: "stmt_at w b j s"
    and a: "apply_stmt src (conv w) s (st, ssa) = Some (st', ssa')"
    and T: "exact_table w (vars ssa')" "length (vars ssa') \<le> 2 ^ 32"
  shows "sound_to w st' ssa' b (Suc j)"
proof -
  note F' = F[unfolded sound_to_def]
  have adv: "advances (vars ssa) (vars ssa')" using apply_stmt_advances[OF a] by blast
  have T0: "exact_table w (vars ssa)" by (rule exact_table_advance[OF adv T(1)])
  have fo: "forward_ok w ssa' b (Suc j) \<and> st' = step ssa' (conv w) s st"
    using a
  proof (cases rule: apply_stmt_cases)
    case (load i p v)
    then show ?thesis using apply_load_ok[OF ok _ T0 _ _ _ load(2-4) T(2)] F' s by auto
  next
    case rest
    have nl: "\<not> (\<exists>p. expr (ssa_var (prog w) i) = ELoad p)" if i: "s = Assign i" for i
    proof
      assume "\<exists>p. expr (ssa_var (prog w) i) = ELoad p"
      then obtain p where p: "expr (ssa_var (prog w) i) = ELoad p" by blast
      then obtain v where v: "vec_get (vars (prog w)) (unat i) = Some v" "expr v = ELoad p" by (rule ssa_var_load)
      have "untouched w (done_before w b j) (vars ssa)" using F' by (simp add: forward_ok_def)
      then have "vec_get (vars ssa) (unat i) = Some v"
        using not_done[OF ok(2)] s i v(1) by (auto simp: untouched_def vec_simps)
      then show False using rest(3) i v(2) by (simp add: ssa_var_def)
    qed
    have "untouched w (done_before w b (Suc j)) (vars ssa)"
      using F' done_before_Suc[OF s] by (auto simp: forward_ok_def untouched_def split: Stmt.splits)
    moreover have "claim_ok w (vars ssa) i"
      if "i \<in> done_before w b (Suc j)" "\<exists>p. expr (ssa_var (prog w) i) = ELoad p" for i
      using that F' done_before_Suc[OF s] nl by (auto simp: forward_ok_def split: Stmt.splits)
    ultimately show ?thesis using F' rest by (simp add: forward_ok_def)
  qed
  have keep: "keeps_stores w (vars ssa')"
    using fo untouched_keeps[OF ok(1)] unfolding forward_ok_def by blast
  have "describes w (vars ssa') st' d" if d: "at_point w b (Suc j) d" for d
  proof -
    obtain c s' where c: "at_point w b j c" "stmt_at w b j s'" "exec w s' c d" by (rule at_point_Suc[OF d])
    have "s' = s" using c(2) s by (auto simp: stmt_at_def)
    moreover have "describes w (vars ssa') st c" using F' c(1) describes_advance[OF _ adv] by blast
    moreover have "table_ok w ssa' c" using forward_table[OF ok(1) _ T(1) c(1)] fo by blast
    ultimately show ?thesis using step_describes[OF ok(1) _ s] c(3) fo by simp
  qed
  moreover have "all_located w (vars ssa') st'"
    using all_located_step[OF s keep all_located_advance[OF _ adv]] F' fo by simp
  ultimately show ?thesis using fo by (simp add: sound_to_def)
qed

lemma apply_stmts_sound:
  assumes ok: "stores_ok w" "single_assign w" and blk: "vec_get (ssa_blocks (prog w)) b = Some blk"
  shows "sound_to w st ssa b j \<Longrightarrow> j \<le> length (stmts blk) \<Longrightarrow>
    apply_stmts src (conv w) (drop j (stmts blk)) (st, ssa) = Some (st', ssa') \<Longrightarrow>
    exact_table w (vars ssa') \<Longrightarrow> length (vars ssa') \<le> 2 ^ 32 \<Longrightarrow> sound_to w st' ssa' b (length (stmts blk))"
proof (induction "length (stmts blk) - j" arbitrary: j st ssa)
  case 0
  then show ?case by simp
next
  case (Suc n)
  then have j: "j < length (stmts blk)" by simp
  then have "drop j (stmts blk) = stmts blk ! j # drop (Suc j) (stmts blk)" by (simp add: Cons_nth_drop_Suc)
  with Suc.prems(3) obtain st1 ssa1 where a: "apply_stmt src (conv w) (stmts blk ! j) (st, ssa) = Some (st1, ssa1)"
      "apply_stmts src (conv w) (drop (Suc j) (stmts blk)) (st1, ssa1) = Some (st', ssa')"
    by (auto split: bind_splits)
  have adv: "advances (vars ssa1) (vars ssa')" "length (vars ssa1) \<le> length (vars ssa')"
    using apply_stmts_advances[OF a(2)] by auto
  have "sound_to w st1 ssa1 b (Suc j)"
    using apply_stmt_sound[OF ok Suc.prems(1) _ a(1) exact_table_advance[OF adv(1) Suc.prems(4)]]
      blk j adv(2) Suc.prems(5) by (auto simp: stmt_at_def)
  then show ?case using Suc.hyps(1)[of "Suc j"] Suc.hyps(2) j a(2) Suc.prems(4,5) by simp
qed

lemma done_before_block:
  assumes "vec_get (ssa_blocks (prog w)) b = Some blk"
  shows "done_before w (Suc b) 0 = done_before w b (length (stmts blk))"
proof -
  have "stmt_at w b j s \<longleftrightarrow> stmt_at w b j s \<and> j < length (stmts blk)" for j s
    using assms by (auto simp: stmt_at_def)
  then show ?thesis unfolding done_before_def less_Suc_eq by blast
qed

lemma apply_blocks_sound:
  assumes ok: "stores_ok w" "single_assign w"
  shows "apply_blocks src (conv w) (enumerate b entries) ssa = Some ssa' \<Longrightarrow> forward_ok w ssa b 0 \<Longrightarrow>
    (\<forall>k < length entries. all_located w (vars (prog w)) (entries ! k) \<and>
       (\<forall>c. reach w (b + k) c \<longrightarrow> describes w (vars (prog w)) (entries ! k) c)) \<Longrightarrow>
    exact_table w (vars ssa') \<Longrightarrow> length (vars ssa') \<le> 2 ^ 32 \<Longrightarrow> forward_ok w ssa' (b + length entries) 0"
proof (induction entries arbitrary: b ssa)
  case (Cons st entries)
  then obtain blk st1 ssa1 where a: "vec_get (ssa_blocks ssa) b = Some blk"
      "apply_stmts src (conv w) (stmts blk) (st, ssa) = Some (st1, ssa1)"
      "apply_blocks src (conv w) (enumerate (Suc b) entries) ssa1 = Some ssa'"
    by (auto split: bind_splits)
  have blk: "vec_get (ssa_blocks (prog w)) b = Some blk"
    using Cons.prems(2) a(1) by (simp add: forward_ok_def)
  have adv: "advances (vars ssa1) (vars ssa')" "length (vars ssa1) \<le> length (vars ssa')"
    using apply_blocks_advances[OF a(3)] by auto
  have av: "advances (vars (prog w)) (vars ssa)" using Cons.prems(2) by (simp add: forward_ok_def)
  have st: "all_located w (vars (prog w)) st" "\<And>c. reach w b c \<Longrightarrow> describes w (vars (prog w)) st c"
    using Cons.prems(3)[rule_format, of 0] by auto
  have "sound_to w st ssa b 0"
    using Cons.prems(2) all_located_advance[OF st(1) av] describes_advance[OF st(2) av]
    by (auto simp: sound_to_def at_point_def)
  from apply_stmts_sound[OF ok blk this _ _ exact_table_advance[OF adv(1) Cons.prems(4)]] a(2) adv(2) Cons.prems(5)
  have "forward_ok w ssa1 b (length (stmts blk))" by (simp add: sound_to_def)
  then have f: "forward_ok w ssa1 (Suc b) 0" using done_before_block[OF blk] by (simp add: forward_ok_def)
  have "\<forall>k < length entries. all_located w (vars (prog w)) (entries ! k) \<and>
       (\<forall>c. reach w (Suc b + k) c \<longrightarrow> describes w (vars (prog w)) (entries ! k) c)"
    using Cons.prems(3) by (metis Suc_less_eq add_Suc add_Suc_right length_Cons nth_Cons_Suc)
  from Cons.IH[OF a(3) f this Cons.prems(4,5)] show ?case by simp
qed simp

subsection \<open>Totality and bounds\<close>

definition evidence_bounded :: "VarDef list \<Rightarrow> bool" where
  "evidence_bounded vs \<longleftrightarrow> (\<forall>v \<in> set vs. \<forall>sp S bnd. memory v = Some (LoadAccess sp S bnd) \<longrightarrow>
     length S \<le> MAX_STORES \<and> sorted_wrt (<) S \<and> (bnd = None \<longleftrightarrow> S \<noteq> []))"

lemma evidence_at_bounded:
  assumes "state_ok st" "evidence_at cc st vs v p = (S, bnd)"
  shows "length S \<le> MAX_STORES \<and> sorted_wrt (<) S \<and> (bnd = None \<longleftrightarrow> S \<noteq> [])"
  using assms by (auto simp: evidence_at_def load_evidence_of_def state_ok_def MAX_STORES_def
      dest!: map_of_SomeD split: if_splits option.splits)

lemma forwarded_value_vars:
  "\<exists>new. vars (snd (forwarded_value src S sz ssa)) = vars ssa @ new \<and> (\<forall>v \<in> set new. memory v = None)"
  by (auto simp: forwarded_value_def new_var_def Let_def)

lemma apply_load_total:
  assumes v: "vec_get (vars ssa) (unat i) = Some v"
    and st: "state_ok st" and e: "evidence_bounded (vars ssa)"
  shows "\<exists>ssa'. apply_load src cc st i p ssa = Some ssa' \<and> evidence_bounded (vars ssa')"
proof -
  let ?sp = "load_space (memory v)"
  obtain S bnd where ev: "evidence_at cc st (vars ssa) v p = (S, bnd)" by fastforce
  let ?v = "v\<lparr>memory := Some (LoadAccess ?sp S bnd)\<rparr>"
  let ?ssa = "ssa\<lparr>vars := (vars ssa)[unat i := ?v]\<rparr>"
  have i: "unat i < length (vars ssa)" using v by (simp add: vec_simps)
  have sv: "ssa_var ssa i = v" using v by (simp add: ssa_var_def)
  have vm: "var_mut ssa i (\<lambda>v. v\<lparr>memory := Some (LoadAccess ?sp S bnd)\<rparr>) = ?ssa"
    using v by (auto simp: var_mut_def grow_vars_id vec_simps)
  note a = apply_load_def[of src cc st i p ssa, unfolded sv Let_def ev[unfolded evidence_at_def] prod.case vm]
  have upd: "evidence_bounded ((vars ssa @ new)[unat i := v'])"
    if "memory v' = memory ?v" "\<forall>v \<in> set new. memory v = None" for v' new
    using e evidence_at_bounded[OF st ev] that set_update_subset_insert[of "vars ssa @ new" "unat i" v']
    unfolding evidence_bounded_def by fastforce
  show ?thesis
  proof (cases "S = []")
    case True
    then show ?thesis using a upd[of ?v "[]"] by simp
  next
    case False
    then obtain l where l: "exact_location (vars ssa) p (var_size v) cc = Some l"
      using evidence_cases[OF ev] by blast
    obtain k ssa1 where k: "forwarded_value src S (loc_size l) ?ssa = (k, ssa1)" by fastforce
    obtain new where new: "vars ssa1 = (vars ssa)[unat i := ?v] @ new" "\<forall>v \<in> set new. memory v = None"
      using forwarded_value_vars[of src S "loc_size l" ?ssa] k by auto
    have g: "vec_get (vars ssa1) (unat i) = Some ?v" using i new(1) by (simp add: vec_get_def nth_append)
    then obtain vs where vs: "rewrite (vars ssa1) (unat i) (EVar k) = Some vs" by (simp add: rewrite_def Let_def)
    from rewrite_load[OF g _ this] obtain v' where v': "vs = (vars ssa1)[unat i := v']" "memory v' = memory ?v"
      by auto
    have "apply_load src cc st i p ssa = Some (ssa1\<lparr>vars := vs\<rparr>)" using a False l k vs by simp
    moreover have "vs = (vars ssa @ new)[unat i := v']" using v'(1) new(1) i by (simp add: list_update_append)
    ultimately show ?thesis using upd[OF v'(2) new(2)] by simp
  qed
qed

lemma apply_stmts_total:
  "state_ok st \<Longrightarrow> evidence_bounded (vars ssa) \<Longrightarrow>
    \<exists>st' ssa'. apply_stmts src cc ss (st, ssa) = Some (st', ssa') \<and> evidence_bounded (vars ssa')"
proof (induction ss arbitrary: st ssa)
  case (Cons s ss)
  have "\<exists>st1 ssa1. apply_stmt src cc s (st, ssa) = Some (st1, ssa1) \<and> state_ok st1 \<and> evidence_bounded (vars ssa1)"
  proof (cases "\<exists>i p. s = Assign i \<and> expr (ssa_var ssa i) = ELoad p")
    case True
    then obtain i p where i: "s = Assign i" "expr (ssa_var ssa i) = ELoad p" by blast
    from ssa_var_load[OF i(2)] obtain v where "vec_get (vars ssa) (unat i) = Some v" .
    from apply_load_total[OF this Cons.prems, of src cc p] obtain ssa1 where
      "apply_load src cc st i p ssa = Some ssa1" "evidence_bounded (vars ssa1)" by blast
    then show ?thesis using state_ok_step[OF Cons.prems(1), of ssa1 cc s] i by (simp add: apply_stmt_def)
  next
    case False
    then have "apply_stmt src cc s (st, ssa) = Some (step ssa cc s st, ssa)"
      by (cases s) (auto simp: apply_stmt_def split: Expr.splits)
    then show ?thesis using state_ok_step[OF Cons.prems(1)] Cons.prems(2) by blast
  qed
  then show ?case using Cons.IH by fastforce
qed simp

lemma apply_blocks_total:
  "\<forall>e \<in> set es. fst e < length (ssa_blocks ssa) \<and> state_ok (snd e) \<Longrightarrow> evidence_bounded (vars ssa) \<Longrightarrow>
    \<exists>ssa'. apply_blocks src cc es ssa = Some ssa' \<and> evidence_bounded (vars ssa')"
proof (induction es arbitrary: ssa)
  case (Cons e es)
  let ?blk = "ssa_blocks ssa ! fst e"
  from apply_stmts_total[of "snd e" ssa src cc "stmts ?blk"] Cons.prems obtain st1 ssa1 where
    a: "apply_stmts src cc (stmts ?blk) (snd e, ssa) = Some (st1, ssa1)" "evidence_bounded (vars ssa1)" by auto
  then have "ssa_blocks ssa1 = ssa_blocks ssa" using apply_stmts_advances by blast
  with Cons.IH[of ssa1] Cons.prems(1) a show ?case by (auto simp: vec_get_def)
qed simp

lemma enumerate_entries:
  "e \<in> set (enumerate 0 xs) \<Longrightarrow> fst e < length xs \<and> snd e = xs ! fst e"
  by (cases e) (auto simp: in_set_enumerate_eq)

text \<open>
  C21. Forwarding always succeeds on an SSA form laid out like its graph: no index is out of
  range, the iteration stops, and every load's evidence is a strictly ascending list of
  at most eight stores that is empty exactly when the load carries a boundary instead.
\<close>

theorem forward_total:
  assumes "layout_ok ssa cfg" "evidence_bounded (vars ssa)"
  shows "\<exists>ssa'. forward src ssa cfg cc = Some ssa' \<and> evidence_bounded (vars ssa') \<and>
    ssa_blocks ssa' = ssa_blocks ssa \<and> length (vars ssa) \<le> length (vars ssa')"
proof -
  obtain entries ssa1 where r: "reaching_stores ssa cfg cc = Some (entries, ssa1)" "length entries = length (blocks cfg)"
      "\<forall>b < length (blocks cfg). state_ok (entries ! b)" "vars ssa1 = vars ssa" "ssa_blocks ssa1 = ssa_blocks ssa"
    using bounded.reaching_holds[OF assms(1), of cc] by blast
  have "length (ssa_blocks ssa1) = length entries" using assms(1) r by (simp add: layout_ok_def)
  then have "\<forall>e \<in> set (enumerate 0 entries). fst e < length (ssa_blocks ssa1) \<and> state_ok (snd e)"
    using r(2,3) enumerate_entries by metis
  with apply_blocks_total[of "enumerate 0 entries" ssa1 src cc] assms(2) r(4) obtain ssa' where
    "apply_blocks src cc (enumerate 0 entries) ssa1 = Some ssa'" "evidence_bounded (vars ssa')" by auto
  with apply_blocks_advances[OF this(1)] r show ?thesis by (auto simp: forward_def)
qed

lemma forward_claims:
  assumes "stores_ok w" "single_assign w" "layout_ok (prog w) (graph w)"
    and "forward src (prog w) (graph w) (conv w) = Some ssa'"
    and "exact_table w (vars ssa')" "length (vars ssa') \<le> 2 ^ 32"
    and "stmt_at w b j (Assign i)" "expr (ssa_var (prog w) i) = ELoad p"
  shows "claim_ok w (vars ssa') i"
proof -
  let ?n = "length (blocks (graph w))"
  from located.reaching_holds[OF assms(3)] obtain entries ssa1 where
    r: "reaching_stores (prog w) (graph w) (conv w) = Some (entries, ssa1)" "length entries = ?n"
      "\<forall>b < ?n. all_located w (vars (prog w)) (entries ! b)" "settled (prog w) (graph w) (conv w) entries"
      "vars ssa1 = vars (prog w)" "ssa_blocks ssa1 = ssa_blocks (prog w)"
    by blast
  have a: "apply_blocks src (conv w) (enumerate 0 entries) ssa1 = Some ssa'"
    using assms(4) r(1) by (simp add: forward_def)
  have T0: "exact_table w (vars (prog w))"
    using exact_table_advance[OF _ assms(5)] apply_blocks_advances[OF a] r(5) by simp
  have f: "forward_ok w ssa1 0 0"
    using r(5,6) by (auto simp: forward_ok_def done_before_def untouched_def advances_refl follows_def forwards_refl)
  have "forward_ok w ssa' ?n 0"
    using apply_blocks_sound[OF assms(1,2) a f _ assms(5,6)] r(2,3) settled_describes[OF assms(1,3) T0 r(4,3)] by simp
  moreover have "i \<in> done_before w ?n 0"
    using assms(3,7) by (auto simp: done_before_def stmt_at_def layout_ok_def vec_simps)
  ultimately show ?thesis using assms(8) unfolding forward_ok_def by blast
qed

text \<open>What a claim says of a run that executes the load.\<close>

lemma claim_reads:
  assumes "claim_ok w (vars ssa') i" "at_point w b j c" "stmt_at w b j (Assign i)" "exec w (Assign i) c d"
    and "memory (ssa_var ssa' i) = Some (LoadAccess sp S None)"
  shows "(\<exists>s \<in> set S. env d i = env d s) \<and>
    (\<exists>u. expr (ssa_var ssa' i) = EVar u \<and> (S = [u] \<or> expr (ssa_var ssa' u) = EPhi S))"
proof -
  from assms(5) obtain v where v: "vec_get (vars ssa') (unat i) = Some v"
    by (cases "vec_get (vars ssa') (unat i)") (auto simp: ssa_var_def sentinel_vardef_def blank_vardef_def)
  from assms(1)[unfolded claim_ok_def, rule_format, OF v _ assms(2-4)] assms(5) v show ?thesis
    by (fastforce simp: ssa_var_def)
qed

text \<open>
  C5. Store-to-load forwarding is sound, for a form laid out like its graph in which every
  load is assigned once and every stored value is a copy that nothing else assigns
  (\<open>layout_ok\<close>, \<open>single_assign\<close>, \<open>stores_ok\<close>), and where the addresses its stores and loads
  access are exact in the forwarded table as in the exact-location property
  (\<open>exact_table\<close>: consistent widths from the pointer to its base, a constant base within its
  width, and a frame that does not wrap around the address space there). Then in every
  execution along the edges of the graph, from any memory, a load that forwarding resolves
  yields the current value of one of the stores it names, and its definition has become a
  copy of that store's value or of the phi of all of them. Variable identifiers are 32 bits,
  and the table fits them.
\<close>

theorem forward_sound:
  assumes "stores_ok w" "single_assign w" "layout_ok (prog w) (graph w)"
    and "forward src (prog w) (graph w) (conv w) = Some ssa'"
    and "exact_table w (vars ssa')" "length (vars ssa') \<le> 2 ^ 32"
    and "at_point w b j c" "stmt_at w b j (Assign i)" "exec w (Assign i) c d"
    and "expr (ssa_var (prog w) i) = ELoad p" "memory (ssa_var ssa' i) = Some (LoadAccess sp S None)"
  shows "(\<exists>s \<in> set S. env d i = env d s) \<and>
    (\<exists>u. expr (ssa_var ssa' i) = EVar u \<and> (S = [u] \<or> expr (ssa_var ssa' u) = EPhi S))"
  using claim_reads[OF forward_claims[OF assms(1-6,8,10)] assms(7-9,11)] .

subsection \<open>Tables without arithmetic\<close>

definition copying :: "VarDef list \<Rightarrow> bool" where
  "copying vs \<longleftrightarrow> (\<forall>v \<in> set vs. var_size v = 4 \<and> (case expr v of
     EConst c s \<Rightarrow> uint c < 2 ^ 32
   | EVar j \<Rightarrow> unat j < length vs
   | EBinOp k a b \<Rightarrow> False
   | _ \<Rightarrow> True))"

lemma copying_resolve:
  "copying vs \<Longrightarrow> resolve vs F s n p = Some (StackLoc b d t) \<Longrightarrow> d = 0 \<and> unat p < length vs"
proof (induction n arbitrary: p)
  case (Suc n)
  then obtain v where v: "vec_get vs (unat p) = Some v" by (auto split: if_splits bind_splits)
  then have m: "v \<in> set vs" "unat p < length vs" by (auto simp: vec_simps)
  then have "\<forall>k a b. expr v \<noteq> EBinOp k a b" using Suc.prems(1) by (auto simp: copying_def)
  then show ?case
    using Suc.prems v m(2) Suc.IH by (auto split: Expr.splits if_splits)
qed simp

lemma copying_exact:
  assumes c: "copying vs" and w: "base_of w = (\<lambda>_. 0x1000)"
  shows "exact_table w vs"
proof -
  have size: "size_of vs p = 4" if "unat p < length vs" for p
    using c that by (simp add: copying_def size_of_def vec_get_def)
  have path: "path_sized vs n p" for n p
  proof (induction n arbitrary: p)
    case (Suc n)
    show ?case
    proof (cases "vec_get vs (unat p)")
      case (Some v)
      then have m: "v \<in> set vs" by (auto simp: vec_simps)
      then have "sized_var vs v" using c size by (auto simp: copying_def sized_var_def split: Expr.splits)
      moreover have "\<forall>k a b. expr v \<noteq> EBinOp k a b" using m c by (auto simp: copying_def)
      ultimately show ?thesis using Some Suc by (auto split: Expr.splits)
    qed simp
  qed simp
  have range: "0 \<le> 0x1000 + d \<and> 0x1000 + d < (2 :: int) ^ (8 * unat (size_of vs p))"
    if "exact_location vs p s cc = Some (StackLoc b d t)" for p s b d t cc
    using copying_resolve[OF c that[unfolded exact_location_def]] size by simp
  show ?thesis unfolding exact_table_def address_ok_def w using path range by blast
qed

subsection \<open>A store on either arm, and a load after the join\<close>

definition join_vars :: "VarDef list" where
  "join_vars = [address_var 16 4 EUnknown, address_var 16 4 (EConst 7 4),
     (address_var 16 4 (EVar 1))\<lparr>memory := Some (StoreAccess Ram)\<rparr>, address_var 16 4 (EConst 9 4),
     (address_var 16 4 (EVar 3))\<lparr>memory := Some (StoreAccess Ram)\<rparr>,
     (address_var 16 4 (ELoad 0))\<lparr>memory := Some (LoadAccess Ram [] (Some UnmodeledMemory))\<rparr>,
     address_var 16 4 (EConst 1 4)]"

definition join_ssa :: SsaCfg where
  "join_ssa = \<lparr>ssa_blocks = map (\<lambda>(i, ss, t). \<lparr>ssa_block_id = i, ssa_block_addr = of_nat i, stmts = ss, ssa_terminator = t\<rparr>)
       [(0, [], SCBranch 6 1 2), (1, [StoreStmt 0 2], SBranch 3), (2, [StoreStmt 0 4], SBranch 3),
        (3, [Assign 5], SReturn (Some 5))],
     vars = join_vars, ssa_entry = 0, ssa_diagnostics = []\<rparr>"

definition join_cfg :: Cfg where
  "join_cfg = \<lparr>blocks = map (\<lambda>(i, t). \<lparr>block_id = i, block_addr = of_nat i, block_ops = [], terminator = t,
       terminator_origin = None\<rparr>) (enumerate 0 [TCBranch (register 0x206 1) 1 2, TBranch 3, TBranch 3, TReturn]),
     entry = 0, diagnostics = []\<rparr>"

definition join_world :: "(nat \<times> int \<times> nat) world" where
  "join_world = \<lparr>encode = \<lambda>n x k. (n, x, k), base_of = \<lambda>_. 0x1000, prog = join_ssa, graph = join_cfg, conv = Cdecl32\<rparr>"

lemma join_forward:
  "map_option (\<lambda>s. map (\<lambda>v. (expr v, memory v, var_size v, space (varnode v), offset (varnode v), call_return v)) (vars s))
     (forward None join_ssa join_cfg Cdecl32) = Some
    [(EUnknown, None, 4, Register, 16, False), (EConst 7 4, None, 4, Register, 16, False),
     (EVar 1, Some (StoreAccess Ram), 4, Register, 16, False), (EConst 9 4, None, 4, Register, 16, False),
     (EVar 3, Some (StoreAccess Ram), 4, Register, 16, False),
     (EVar 7, Some (LoadAccess Ram [2, 4] None), 4, Register, 16, False), (EConst 1 4, None, 4, Register, 16, False),
     (EPhi [2, 4], None, 4, Unique, 0xF0000007, False)]"
  by code_simp

lemma join_layout: "layout_ok join_ssa join_cfg"
proof -
  have "length (blocks join_cfg) = 4" "ids_are_indices join_cfg" "length (ssa_blocks join_ssa) = 4"
    "list_all (\<lambda>b. list_all (\<lambda>s. s < 4) (succs_of join_cfg b)) [0..<4]"
    by code_simp+
  then show ?thesis by (auto simp: layout_ok_def list_all_iff)
qed

lemma join_evidence: "evidence_bounded (vars join_ssa)"
  by (auto simp: evidence_bounded_def join_ssa_def join_vars_def MAX_STORES_def address_var_def blank_vardef_def)

theorem forward_total_witness:
  "\<exists>ssa'. forward None join_ssa join_cfg Cdecl32 = Some ssa' \<and> evidence_bounded (vars ssa')"
  using forward_total[OF join_layout join_evidence] by blast

lemma join_stmt_at:
  "stmt_at join_world b j s \<longleftrightarrow> b = 1 \<and> j = 0 \<and> s = StoreStmt 0 2 \<or> b = 2 \<and> j = 0 \<and> s = StoreStmt 0 4 \<or>
     b = 3 \<and> j = 0 \<and> s = Assign 5"
  by (auto simp: stmt_at_def join_world_def join_ssa_def vec_get_def nth_Cons' split: if_splits)

lemma join_ok: "stores_ok join_world" "single_assign join_world"
proof -
  have "out_of (ssa_terminator blk) = None" if "vec_get (ssa_blocks join_ssa) b = Some blk" for b blk
    using that by (auto simp: join_ssa_def vec_get_def nth_Cons' out_of_def split: if_splits)
  then show "stores_ok join_world"
    by (auto simp: stores_ok_def join_stmt_at)
      (auto simp: join_world_def join_ssa_def join_vars_def vec_get_def)
  show "single_assign join_world" by (auto simp: single_assign_def join_stmt_at)
qed

lemma join_result:
  assumes "forward None join_ssa join_cfg Cdecl32 = Some ssa'"
  shows "exact_table join_world (vars ssa')" "length (vars ssa') = 8"
    "memory (ssa_var ssa' 5) = Some (LoadAccess Ram [2, 4] None)"
proof -
  define f :: "VarDef \<Rightarrow> _" where "f = (\<lambda>v. (expr v, memory v, var_size v, space (varnode v), offset (varnode v), call_return v))"
  have m: "map f (vars ssa') =
    [(EUnknown, None, 4, Register, 16, False), (EConst 7 4, None, 4, Register, 16, False),
     (EVar 1, Some (StoreAccess Ram), 4, Register, 16, False), (EConst 9 4, None, 4, Register, 16, False),
     (EVar 3, Some (StoreAccess Ram), 4, Register, 16, False),
     (EVar 7, Some (LoadAccess Ram [2, 4] None), 4, Register, 16, False), (EConst 1 4, None, 4, Register, 16, False),
     (EPhi [2, 4], None, 4, Unique, 0xF0000007, False)]"
    using join_forward assms by (simp add: f_def)
  then obtain v0 v1 v2 v3 v4 v5 v6 v7 where vs: "vars ssa' = [v0, v1, v2, v3, v4, v5, v6, v7]"
    and e: "expr v0 = EUnknown" "expr v1 = EConst 7 4" "expr v2 = EVar 1" "expr v3 = EConst 9 4" "expr v4 = EVar 3"
      "expr v5 = EVar 7" "expr v6 = EConst 1 4" "expr v7 = EPhi [2, 4]" "memory v5 = Some (LoadAccess Ram [2, 4] None)"
    and z: "var_size v0 = 4" "var_size v1 = 4" "var_size v2 = 4" "var_size v3 = 4" "var_size v4 = 4" "var_size v5 = 4"
      "var_size v6 = 4" "var_size v7 = 4"
    unfolding f_def by (auto simp: map_eq_Cons_conv)
  show "length (vars ssa') = 8" "memory (ssa_var ssa' 5) = Some (LoadAccess Ram [2, 4] None)"
    using e(9) by (simp_all add: vs ssa_var_def vec_get_def)
  have "copying (vars ssa')" using e z by (simp add: vs copying_def)
  then show "exact_table join_world (vars ssa')" by (rule copying_exact) (simp add: join_world_def)
qed

theorem forward_sound_witness:
  "\<exists>c d. at_point join_world 3 0 c \<and> exec join_world (Assign 5) c d \<and> (env d 5 = env d 2 \<or> env d 5 = env d 4)"
proof -
  obtain ssa' where f: "forward None join_ssa join_cfg Cdecl32 = Some ssa'"
    using join_forward by (auto simp del: forward_def)
  note r = join_result[OF f]
  have sel: "prog join_world = join_ssa" "graph join_world = join_cfg" "conv join_world = Cdecl32"
    "base_of join_world = (\<lambda>_. 0x1000)" "encode join_world = (\<lambda>n x k. (n, x, k))"
    by (simp_all add: join_world_def)
  let ?c0 = "\<lparr>env = \<lambda>_. 0, ram = \<lambda>_. (0, 0, 0), seen = \<lambda>_. {}\<rparr> :: (nat \<times> int \<times> nat) config"
  have var: "vec_get (vars join_ssa) (unat (0::VarId)) = Some (address_var 16 4 EUnknown)"
    "vec_get (vars join_ssa) (unat (1::VarId)) = Some (address_var 16 4 (EConst 7 4))"
    "vec_get (vars join_ssa) (unat (2::VarId)) = Some ((address_var 16 4 (EVar 1))\<lparr>memory := Some (StoreAccess Ram)\<rparr>)"
    "vec_get (vars join_ssa) (unat (5::VarId)) =
       Some ((address_var 16 4 (ELoad 0))\<lparr>memory := Some (LoadAccess Ram [] (Some UnmodeledMemory))\<rparr>)"
    by (simp_all add: join_ssa_def join_vars_def vec_get_def)
  have sp: "value_in join_world c 0 0x1000" for c
    using addr_value.frame[OF var(1), of "frame_registers Cdecl32" "\<lambda>_. 0x1000"]
    by (simp add: value_in_def sel is_frame_def register_def take_bit_eq_mod)
  have seven: "value_in join_world c 2 7" for c
    using addr_value.copy[OF var(3) _ addr_value.const[OF var(2) address_var_simps(1)]]
    by (simp add: value_in_def sel take_bit_eq_mod)
  let ?c1 = "?c0\<lparr>env := (env ?c0)(2 := 7), ram := write_bytes join_world 0x1000 (unat (size_in join_world 2)) 7 (ram ?c0)\<rparr>"
  have st: "exec join_world (StoreStmt 0 2) ?c0 ?c1"
    using exec.store[OF sp seven, of ?c0] var(3) by (simp add: sel ssa_var_def other_space_def)
  have r0: "reach join_world 0 ?c0"
    using reach.start[of ?c0 join_world] by (simp add: sel join_cfg_def)
  have r1: "reach join_world 1 ?c0"
    by (rule reach.edge[OF r0, where blk = "ssa_blocks join_ssa ! 0" and d = ?c0])
      (auto simp: sel join_ssa_def vec_get_def leaves_def join_cfg_def succs_of_def)
  have "execs join_world ([] @ [StoreStmt 0 2]) ?c0 ?c1" by (rule execs.snoc[OF execs.none st])
  then have r3: "reach join_world 3 ?c1"
    by (intro reach.edge[OF r1, where blk = "ssa_blocks join_ssa ! 1" and d = ?c1])
      (auto simp: sel join_ssa_def vec_get_def leaves_def join_cfg_def succs_of_def)
  have p: "at_point join_world 3 0 ?c1"
    by (rule at_point_0[OF r3, of "ssa_blocks join_ssa ! 3"]) (simp add: sel join_ssa_def vec_get_def)
  have size: "size_in join_world 5 = 4" "size_in join_world 2 = 4"
    using var(3,4) by (simp_all add: size_in_def sel ssa_var_def)
  have "\<forall>y. 0 \<le> y \<and> y < 2 ^ (8 * unat (size_in join_world 5)) \<and>
      spells join_world 0x1000 (unat (size_in join_world 5)) y (ram ?c1) \<longrightarrow> 7 = y"
    by (auto simp: spells_def write_bytes_def size sel) (metis zero_less_numeral)
  then obtain d where d: "exec join_world (Assign 5) ?c1 d"
    using exec.load[where w = join_world and i = 5 and p = 0 and c = ?c1 and a = "0x1000" and x = 7] sp var(4) by (auto simp: sel ssa_var_def load_space_def)
  have "expr (ssa_var (prog join_world) 5) = ELoad 0" using var(4) by (simp add: sel ssa_var_def)
  from forward_sound[of join_world None ssa', OF join_ok _ _ _ _ p _ d this] r f join_layout join_stmt_at[of 3 0 "Assign 5"]
  have "\<exists>s \<in> set [2, 4]. env d 5 = env d s" by (simp add: sel)
  then show ?thesis using p d by auto
qed

end
