(* ===== verification/Ssa.thy ===== *)
theory Ssa
  imports Memory CfgBuild
begin

text \<open>
  The translation of one P-code operation into SSA form, the lower half of
  \<^verbatim>\<open>rsleigh-decompile/src/ssa.rs\<close>: the resolution of an operand to a variable, the
  expression of an operation, \<open>process_op\<close> with its sub-register propagation, and the
  conversion of terminators with the clobbering of registers by calls. A \<open>HashMap\<close> is an
  association list with distinct keys; every iteration over one whose order could matter
  is sorted or picks a unique extreme in the source. The thread's source origin is an
  argument. \<open>None\<close> is an index out of range, a panic.
\<close>

subsection \<open>Maps\<close>

type_synonym varmap = "(Varnode \<times> VarId) list"

primrec map_insert :: "'k \<Rightarrow> 'v \<Rightarrow> ('k \<times> 'v) list \<Rightarrow> ('k \<times> 'v) list" where
  "map_insert k v [] = [(k, v)]"
| "map_insert k v (x # xs) = (if fst x = k then (k, v) # xs else x # map_insert k v xs)"

text \<open>\<open>HashMap\<close> equality: as many entries, and each of them in the other map.\<close>

definition same_map :: "('k \<times> 'v) list \<Rightarrow> ('k \<times> 'v) list \<Rightarrow> bool" where
  "same_map a b \<longleftrightarrow> length a = length b \<and> list_all (\<lambda>e. map_of b (fst e) = Some (snd e)) a"

subsection \<open>The state of a translation\<close>

text \<open>The function under construction and the variable each varnode currently holds.\<close>

type_synonym scope = "SsaCfg \<times> varmap"

text \<open>A write through \<open>ssa.vars[id.0 as usize]\<close>.\<close>

definition update_var :: "VarId \<Rightarrow> (VarDef \<Rightarrow> VarDef) \<Rightarrow> SsaCfg \<Rightarrow> SsaCfg option" where
  "update_var i f ssa = do {
     v \<leftarrow> vec_get (vars ssa) (unat i);
     Some (ssa\<lparr>vars := (vars ssa)[unat i := f v]\<rparr>)
   }"

definition set_synthetic :: "VarDef \<Rightarrow> VarDef" where
  "set_synthetic v = v\<lparr>origins := (origins v)\<lparr>synthetic := True\<rparr>\<rparr>"

definition attach :: "OperationOrigin option \<Rightarrow> VarDef \<Rightarrow> VarDef" where
  "attach src v = v\<lparr>origins := attach_source src (origins v)\<rparr>"

primrec mark_synthetic :: "VarId list \<Rightarrow> SsaCfg \<Rightarrow> SsaCfg option" where
  "mark_synthetic [] ssa = Some ssa"
| "mark_synthetic (i # is) ssa = do { ssa \<leftarrow> update_var i set_synthetic ssa; mark_synthetic is ssa }"

subsection \<open>Operands\<close>

text \<open>The entries for registers at the same offset.\<close>

definition same_register :: "Varnode \<Rightarrow> varmap \<Rightarrow> varmap" where
  "same_register vn current = filter (\<lambda>e. space (fst e) = Register \<and> offset (fst e) = offset vn) current"

text \<open>The narrowest wider register, else the widest narrower one.\<close>

definition alias_of :: "Varnode \<Rightarrow> varmap \<Rightarrow> (Varnode \<times> VarId) option" where
  "alias_of vn current =
     (case filter (\<lambda>e. vsize (fst e) > vsize vn) (same_register vn current) of
        w # ws \<Rightarrow> Some (fold (\<lambda>e best. if vsize (fst e) < vsize (fst best) then e else best) ws w)
      | [] \<Rightarrow> (case filter (\<lambda>e. vsize (fst e) < vsize vn) (same_register vn current) of
           n # ns \<Rightarrow> Some (fold (\<lambda>e best. if vsize (fst e) < vsize (fst best) then best else e) ns n)
         | [] \<Rightarrow> None))"

definition unknown_input :: "OperationOrigin option \<Rightarrow> Varnode \<Rightarrow> scope \<Rightarrow> VarId \<times> scope" where
  "unknown_input src vn s = (case s of (ssa, current) \<Rightarrow>
     (let (i, ssa) = new_var src vn EUnknown (vsize vn) ssa in (i, ssa, map_insert vn i current)))"

definition alias_input :: "OperationOrigin option \<Rightarrow> Varnode \<Rightarrow> Varnode \<times> VarId \<Rightarrow> scope \<Rightarrow> (VarId \<times> scope) option" where
  "alias_input src vn e s = (case s of (ssa, current) \<Rightarrow>
     if vsize (fst e) > vsize vn then Some (snd e, ssa, current)
     else do {
       let (i, ssa) = new_var src vn (EUnaryOp UZext (snd e)) (vsize vn) ssa;
       ssa \<leftarrow> update_var i set_synthetic ssa;
       Some (i, ssa, map_insert vn i current)
     })"

definition resolve_input :: "OperationOrigin option \<Rightarrow> Varnode \<Rightarrow> scope \<Rightarrow> (VarId \<times> scope) option" where
  "resolve_input src vn s = (case s of (ssa, current) \<Rightarrow>
     if space vn = Const
     then (let (i, ssa) = new_var src vn (EConst (offset vn) (vsize vn)) (vsize vn) ssa in Some (i, ssa, current))
     else case map_of current vn of
       Some i \<Rightarrow> Some (i, s)
     | None \<Rightarrow>
         if space vn = Register
         then (case alias_of vn current of
             Some e \<Rightarrow> alias_input src vn e s
           | None \<Rightarrow> Some (unknown_input src vn s))
         else Some (unknown_input src vn s))"

primrec resolve_inputs :: "OperationOrigin option \<Rightarrow> Varnode list \<Rightarrow> scope \<Rightarrow> (VarId list \<times> scope) option" where
  "resolve_inputs src [] s = Some ([], s)"
| "resolve_inputs src (vn # vns) s = do {
     (i, s) \<leftarrow> resolve_input src vn s;
     (is, s) \<leftarrow> resolve_inputs src vns s;
     Some (i # is, s)
   }"

subsection \<open>Expressions\<close>

definition bin_expr :: "OperationOrigin option \<Rightarrow> BinOpKind \<Rightarrow> Varnode \<Rightarrow> Varnode \<Rightarrow> scope \<Rightarrow> (Expr \<times> scope) option" where
  "bin_expr src kind left right s = do {
     (l, s) \<leftarrow> resolve_input src left s;
     (r, s) \<leftarrow> resolve_input src right s;
     Some (EBinOp kind l r, s)
   }"

definition unary_expr :: "OperationOrigin option \<Rightarrow> UnaryOpKind \<Rightarrow> Varnode \<Rightarrow> scope \<Rightarrow> (Expr \<times> scope) option" where
  "unary_expr src kind input s = do {
     (i, s) \<leftarrow> resolve_input src input s;
     Some (EUnaryOp kind i, s)
   }"

definition subpiece_expr :: "OperationOrigin option \<Rightarrow> Varnode \<Rightarrow> u32 \<Rightarrow> scope \<Rightarrow> (Expr \<times> scope) option" where
  "subpiece_expr src input lsb s = do {
     (i, ssa, current) \<leftarrow> resolve_input src input s;
     if lsb = 0 then Some (EVar i, ssa, current)
     else do {
       let amount = ucast lsb * 8;
       let (shift, ssa) = new_var src (constant_vn amount 4) (EConst amount 4) 4 ssa;
       ssa \<leftarrow> update_var shift set_synthetic ssa;
       Some (EBinOp BLsr i shift, ssa, current)
     }
   }"

text \<open>The \<open>Debug\<close> text of the operations that have no expression.\<close>

definition debug_fields :: "string \<Rightarrow> (string \<times> string) list \<Rightarrow> string" where
  "debug_fields name fs = name @ '' { '' @
     concat (map (\<lambda>(i, f, v). (if i = 0 then [] else '', '') @ f @ '': '' @ v) (enumerate (0 :: nat) fs)) @ '' }''"

definition debug_effect :: "PcodeOp \<Rightarrow> string" where
  "debug_effect op = (case op of
     Store sp ptr val \<Rightarrow> debug_fields ''Store'' [(''space'', debug_space sp), (''ptr'', debug_varnode ptr), (''val'', debug_varnode val)]
   | Branch dest \<Rightarrow> debug_fields ''Branch'' [(''dest'', debug_varnode dest)]
   | CBranch dest cond \<Rightarrow> debug_fields ''CBranch'' [(''dest'', debug_varnode dest), (''cond'', debug_varnode cond)]
   | BranchInd dest \<Rightarrow> debug_fields ''BranchInd'' [(''dest'', debug_varnode dest)]
   | Call dest \<Rightarrow> debug_fields ''Call'' [(''dest'', debug_varnode dest)]
   | CallInd dest \<Rightarrow> debug_fields ''CallInd'' [(''dest'', debug_varnode dest)]
   | Return dest \<Rightarrow> debug_fields ''Return'' [(''dest'', debug_varnode dest)]
   | _ \<Rightarrow> [])"

definition no_lowering :: "PcodeOp \<Rightarrow> scope \<Rightarrow> Expr \<times> scope" where
  "no_lowering op s = (case s of (ssa, current) \<Rightarrow>
     (EUnknown,
      ssa\<lparr>ssa_diagnostics := ssa_diagnostics ssa @ [\<lparr>severity = Warn, diag_kind = UnknownPcodeOp, diag_addr = None,
        detail = ''build_expr: no lowering for '' @ debug_effect op\<rparr>]\<rparr>, current))"

definition xor_expr :: "OperationOrigin option \<Rightarrow> Varnode \<Rightarrow> Varnode \<Rightarrow> Varnode \<Rightarrow> scope \<Rightarrow> (Expr \<times> scope) option" where
  "xor_expr src out left right s =
     (if space left = space right \<and> offset left = offset right \<and> vsize left = vsize right \<and> space left = Register
      then Some (EConst 0 (vsize out), s)
      else bin_expr src BXor left right s)"

primrec build_expr :: "OperationOrigin option \<Rightarrow> PcodeOp \<Rightarrow> scope \<Rightarrow> (Expr \<times> scope) option" where
  "build_expr src (Copy out input) = (\<lambda>s. do { (v, s) \<leftarrow> resolve_input src input s; Some (EVar v, s) })"
| "build_expr src (Load out sp ptr) = (\<lambda>s. do { (p, s) \<leftarrow> resolve_input src ptr s; Some (ELoad p, s) })"
| "build_expr src (Store sp ptr val) = (\<lambda>s. Some (no_lowering (Store sp ptr val) s))"
| "build_expr src (Branch dest) = (\<lambda>s. Some (no_lowering (Branch dest) s))"
| "build_expr src (CBranch dest cond) = (\<lambda>s. Some (no_lowering (CBranch dest cond) s))"
| "build_expr src (BranchInd dest) = (\<lambda>s. Some (no_lowering (BranchInd dest) s))"
| "build_expr src (Call dest) = (\<lambda>s. Some (no_lowering (Call dest) s))"
| "build_expr src (CallInd dest) = (\<lambda>s. Some (no_lowering (CallInd dest) s))"
| "build_expr src (Return dest) = (\<lambda>s. Some (no_lowering (Return dest) s))"
| "build_expr src (IntAdd out left right) = bin_expr src BAdd left right"
| "build_expr src (IntSub out left right) = bin_expr src BSub left right"
| "build_expr src (IntMult out left right) = bin_expr src BMult left right"
| "build_expr src (IntDiv out left right) = bin_expr src BDiv left right"
| "build_expr src (IntSDiv out left right) = bin_expr src BSDiv left right"
| "build_expr src (IntRem out left right) = bin_expr src BRem left right"
| "build_expr src (IntSRem out left right) = bin_expr src BSRem left right"
| "build_expr src (IntNeg out input) = unary_expr src UNeg input"
| "build_expr src (IntEq out left right) = bin_expr src BEq left right"
| "build_expr src (IntNotEq out left right) = bin_expr src BNotEq left right"
| "build_expr src (IntLess out left right) = bin_expr src BLess left right"
| "build_expr src (IntLessEq out left right) = bin_expr src BLessEq left right"
| "build_expr src (IntSLess out left right) = bin_expr src BSLess left right"
| "build_expr src (IntSLessEq out left right) = bin_expr src BSLessEq left right"
| "build_expr src (IntAnd out left right) = bin_expr src BAnd left right"
| "build_expr src (IntOr out left right) = bin_expr src BOr left right"
| "build_expr src (IntXor out left right) = xor_expr src out left right"
| "build_expr src (IntNot out input) = unary_expr src UNot input"
| "build_expr src (IntLsl out left right) = bin_expr src BLsl left right"
| "build_expr src (IntLsr out left right) = bin_expr src BLsr left right"
| "build_expr src (IntAsr out left right) = bin_expr src BAsr left right"
| "build_expr src (IntZext out input) = unary_expr src UZext input"
| "build_expr src (IntSext out input) = unary_expr src USext input"
| "build_expr src (Subpiece out input lsb) = subpiece_expr src input lsb"
| "build_expr src (IntCarry out left right) = bin_expr src BCarry left right"
| "build_expr src (IntSCarry out left right) = bin_expr src BSCarry left right"
| "build_expr src (IntSBorrow out left right) = bin_expr src BSBorrow left right"
| "build_expr src (BoolAnd out left right) = bin_expr src BBoolAnd left right"
| "build_expr src (BoolOr out left right) = bin_expr src BBoolOr left right"
| "build_expr src (BoolXor out left right) = bin_expr src BBoolXor left right"
| "build_expr src (BoolNot out input) = unary_expr src UBoolNot input"
| "build_expr src (FloatAdd out left right) = bin_expr src BFloatAdd left right"
| "build_expr src (FloatSub out left right) = bin_expr src BFloatSub left right"
| "build_expr src (FloatMult out left right) = bin_expr src BFloatMult left right"
| "build_expr src (FloatDiv out left right) = bin_expr src BFloatDiv left right"
| "build_expr src (FloatNeg out input) = unary_expr src UFloatNeg input"
| "build_expr src (FloatAbs out input) = unary_expr src UFloatAbs input"
| "build_expr src (FloatSqrt out input) = unary_expr src UFloatSqrt input"
| "build_expr src (FloatEq out left right) = bin_expr src BFloatEq left right"
| "build_expr src (FloatNotEq out left right) = bin_expr src BFloatNotEq left right"
| "build_expr src (FloatLess out left right) = bin_expr src BFloatLess left right"
| "build_expr src (FloatLessEq out left right) = bin_expr src BFloatLessEq left right"
| "build_expr src (FloatNan out input) = unary_expr src UFloatNan input"
| "build_expr src (Int2Float out input) = unary_expr src UInt2Float input"
| "build_expr src (Float2Float out input) = unary_expr src UFloat2Float input"
| "build_expr src (Trunc out input) = unary_expr src UTrunc input"
| "build_expr src (FloatCeil out input) = unary_expr src UFloatCeil input"
| "build_expr src (FloatFloor out input) = unary_expr src UFloatFloor input"
| "build_expr src (FloatRound out input) = unary_expr src UFloatRound input"
| "build_expr src (Popcount out input) = unary_expr src UPopcount input"
| "build_expr src (Lzcount out input) = unary_expr src ULzcount input"
| "build_expr src (CallOther out func_id inputs) =
     (\<lambda>s. do { (is, s) \<leftarrow> resolve_inputs src inputs s; Some (EUserOp func_id is, s) })"

text \<open>The outer option is the panic, the inner one the size.\<close>

definition float_semantic_size :: "Expr \<Rightarrow> VarDef list \<Rightarrow> u32 option option" where
  "float_semantic_size e vs = (case e of
     EBinOp kind left right \<Rightarrow>
       if kind \<in> {BFloatAdd, BFloatSub, BFloatMult, BFloatDiv}
       then do {
         l \<leftarrow> vec_get vs (unat left);
         r \<leftarrow> vec_get vs (unat right);
         Some (Some (min (var_size l) (var_size r)))
       }
       else Some None
   | EUnaryOp kind input \<Rightarrow>
       if kind \<in> {UFloatNeg, UFloatAbs, UFloatSqrt, UFloatCeil, UFloatFloor, UFloatRound}
       then do { i \<leftarrow> vec_get vs (unat input); Some (Some (var_size i)) }
       else if kind = UInt2Float
       then do { i \<leftarrow> vec_get vs (unat input); Some (Some (if var_size i \<ge> 8 then 8 else 4)) }
       else Some None
   | _ \<Rightarrow> Some None)"


subsection \<open>One operation\<close>

definition reg_sub :: "Varnode \<Rightarrow> u32 \<Rightarrow> Varnode" where
  "reg_sub out sz = \<lparr>space = space out, offset = offset out, vsize = sz\<rparr>"

text \<open>The bytes of the parent above a write of \<open>sub\<close> bytes.\<close>

definition high_mask :: "u32 \<Rightarrow> u32 \<Rightarrow> u64" where
  "high_mask parent sub =
     (if parent \<ge> 8 then NOT (push_bit (8 * unat sub) 1 - 1)
      else let parent_bits = parent * 8;
               sub_bits = sub * 8;
               parent_mask = (if parent_bits \<ge> 64 then 0xFFFFFFFFFFFFFFFF else shl64 1 (unat parent_bits) - 1);
               sub_mask = shl64 1 (unat sub_bits) - 1
           in parent_mask AND NOT sub_mask)"

text \<open>The masked-or merge of a one or two byte write into a wider alias that is known.\<close>

definition merge_parent :: "OperationOrigin option \<Rightarrow> Varnode \<Rightarrow> VarId \<Rightarrow> u32 \<Rightarrow> scope \<Rightarrow> scope option" where
  "merge_parent src out i parent s = (case s of (ssa, current) \<Rightarrow>
     if parent \<le> vsize out then Some s
     else let parent_vn = reg_sub out parent in
     case map_of current parent_vn of
       None \<Rightarrow> Some s
     | Some old \<Rightarrow> do {
         let mask = high_mask parent (vsize out);
         let (mask_id, ssa) = new_var src (constant_vn mask parent) (EConst mask parent) parent ssa;
         let (high_id, ssa) = new_var src parent_vn (EBinOp BAnd old mask_id) parent ssa;
         let (zext_id, ssa) = new_var src parent_vn (EUnaryOp UZext i) parent ssa;
         let (merged_id, ssa) = new_var src parent_vn (EBinOp BOr high_id zext_id) parent ssa;
         ssa \<leftarrow> mark_synthetic [mask_id, high_id, zext_id, merged_id] ssa;
         Some (ssa, map_insert parent_vn merged_id current)
       })"

definition propagate_write :: "OperationOrigin option \<Rightarrow> Varnode \<Rightarrow> VarId \<Rightarrow> scope \<Rightarrow> scope option" where
  "propagate_write src out i s = (case s of (ssa, current) \<Rightarrow>
     let current = map_insert out i current;
         current = (if space out = Register \<and> vsize out = 8 then map_insert (reg_sub out 4) i current else current)
     in if space out = Register \<and> (vsize out = 1 \<or> vsize out = 2)
        then do { s \<leftarrow> merge_parent src out i 4 (ssa, current); merge_parent src out i 8 s }
        else Some (ssa, current))"

type_synonym work = "scope \<times> Stmt list"

definition process_store :: "OperationOrigin option \<Rightarrow> AddressSpaceId \<Rightarrow> Varnode \<Rightarrow> Varnode \<Rightarrow> work \<Rightarrow> work option" where
  "process_store src sp ptr val w = (case w of (s, ss) \<Rightarrow> do {
     (addr_var, s) \<leftarrow> resolve_input src ptr s;
     (val_var, ssa, current) \<leftarrow> resolve_input src val s;
     let (stored, ssa) = new_var src (unique (0xF3000000 + of_nat (length (vars ssa))) (vsize val)) (EVar val_var) (vsize val) ssa;
     let address_origins = origins (ssa_var ssa addr_var);
     let ssa = var_mut ssa stored (\<lambda>v. v\<lparr>origins := (origins_merge (origins v) address_origins)\<lparr>synthetic := True\<rparr>,
                                         memory := Some (StoreAccess sp)\<rparr>);
     Some ((ssa, current), ss @ [StoreStmt addr_var stored])
   })"

definition process_user_op :: "OperationOrigin option \<Rightarrow> u64 \<Rightarrow> Varnode list \<Rightarrow> work \<Rightarrow> work option" where
  "process_user_op src func_id inputs w = (case w of (s, ss) \<Rightarrow> do {
     (resolved, ssa, current) \<leftarrow> resolve_inputs src inputs s;
     let (i, ssa) = new_var src (unique (- 1 - func_id) 0) (EUserOp func_id resolved) 0 ssa;
     Some ((ssa, current), ss @ [Assign i])
   })"

definition load_access_of :: "PcodeOp \<Rightarrow> Access option" where
  "load_access_of op = (case op of
     Load out sp ptr \<Rightarrow> Some (LoadAccess sp [] (Some UnmodeledMemory))
   | _ \<Rightarrow> None)"

definition process_value :: "OperationOrigin option \<Rightarrow> PcodeOp \<Rightarrow> Varnode \<Rightarrow> work \<Rightarrow> work option" where
  "process_value src op out w = (case w of (s, ss) \<Rightarrow> do {
     (e, ssa, current) \<leftarrow> build_expr src op s;
     sem \<leftarrow> float_semantic_size e (vars ssa);
     let sz = (case sem of Some n \<Rightarrow> n | None \<Rightarrow> vsize out);
     let (i, ssa) = new_var src out e sz ssa;
     let ssa = (case load_access_of op of Some m \<Rightarrow> var_mut ssa i (\<lambda>v. v\<lparr>memory := Some m\<rparr>) | None \<Rightarrow> ssa);
     v \<leftarrow> vec_get (vars ssa) (unat i);
     ssa \<leftarrow> (if expr v = EUnknown then update_var i (attach src) ssa else Some ssa);
     s \<leftarrow> propagate_write src out i (ssa, current);
     Some (s, ss @ [Assign i])
   })"

definition process_op :: "PcodeOp \<Rightarrow> OperationOrigin \<Rightarrow> work \<Rightarrow> work option" where
  "process_op op origin w =
     (let src = Some origin;
          other = (case get_output op of Some out \<Rightarrow> process_value src op out w | None \<Rightarrow> Some w)
      in case op of
        Store sp ptr val \<Rightarrow> process_store src sp ptr val w
      | CallOther out func_id inputs \<Rightarrow>
          if out = None then process_user_op src func_id inputs w else other
      | _ \<Rightarrow> other)"

subsection \<open>Calling conventions\<close>

record Abi =
  int_args :: "u64 list"
  float_args :: "u64 list"
  return_reg_int :: "u64 option"
  return_reg_float :: "u64 option"
  callee_cleanup_stack :: bool
  shadow_space_bytes :: u32
  allows_varargs :: bool

definition RAX_OFFSET :: u64 where
  "RAX_OFFSET = 0"

definition SYSV_FLOAT_ARG_REGS :: "u64 list" where
  "SYSV_FLOAT_ARG_REGS = [4608, 4672, 4736, 4800, 4864, 4928, 4992, 5056]"

definition WIN64_FLOAT_ARG_REGS :: "u64 list" where
  "WIN64_FLOAT_ARG_REGS = [4608, 4672, 4736, 4800]"

definition AARCH64_ARG_REGS :: "u64 list" where
  "AARCH64_ARG_REGS = [16384, 16392, 16400, 16408, 16416, 16424, 16432, 16440]"

definition AARCH64_FLOAT_ARG_REGS :: "u64 list" where
  "AARCH64_FLOAT_ARG_REGS = [20480, 20512, 20544, 20576, 20608, 20640, 20672, 20704]"

definition GO_AMD64_FLOAT_ARG_REGS :: "u64 list" where
  "GO_AMD64_FLOAT_ARG_REGS = [4608, 4672, 4736, 4800, 4864, 4928, 4992, 5056, 5120, 5184, 5248, 5312, 5376, 5440, 5504]"

definition abi_x86_32 :: "u64 list \<Rightarrow> bool \<Rightarrow> bool \<Rightarrow> Abi" where
  "abi_x86_32 args cleanup varargs = \<lparr>int_args = args, float_args = [], return_reg_int = Some RAX_OFFSET,
     return_reg_float = None, callee_cleanup_stack = cleanup, shadow_space_bytes = 0, allows_varargs = varargs\<rparr>"

primrec abi :: "CallingConv \<Rightarrow> Abi" where
  "abi SysV = \<lparr>int_args = [56, 48, 16, 8, 128, 136], float_args = SYSV_FLOAT_ARG_REGS, return_reg_int = Some RAX_OFFSET,
     return_reg_float = Some 4608, callee_cleanup_stack = False, shadow_space_bytes = 0, allows_varargs = True\<rparr>"
| "abi Win64 = \<lparr>int_args = [8, 16, 128, 136], float_args = WIN64_FLOAT_ARG_REGS, return_reg_int = Some RAX_OFFSET,
     return_reg_float = Some 4608, callee_cleanup_stack = False, shadow_space_bytes = 32, allows_varargs = True\<rparr>"
| "abi Cdecl32 = abi_x86_32 [] False True"
| "abi Stdcall32 = abi_x86_32 [] True False"
| "abi Thiscall32 = abi_x86_32 [4] True False"
| "abi Fastcall32 = abi_x86_32 [4, 8] True False"
| "abi AArch64 = \<lparr>int_args = AARCH64_ARG_REGS, float_args = AARCH64_FLOAT_ARG_REGS, return_reg_int = Some 16384,
     return_reg_float = Some 20480, callee_cleanup_stack = False, shadow_space_bytes = 0, allows_varargs = True\<rparr>"
| "abi Arm32 = \<lparr>int_args = [32, 36, 40, 44], float_args = [], return_reg_int = Some 32,
     return_reg_float = None, callee_cleanup_stack = False, shadow_space_bytes = 0, allows_varargs = True\<rparr>"
| "abi GoAmd64 = \<lparr>int_args = [0, 24, 8, 56, 48, 128, 136, 144, 152], float_args = GO_AMD64_FLOAT_ARG_REGS,
     return_reg_int = Some RAX_OFFSET, return_reg_float = Some 4608, callee_cleanup_stack = False,
     shadow_space_bytes = 0, allows_varargs = False\<rparr>"

definition return_reg_offset :: "CallingConv \<Rightarrow> u64" where
  "return_reg_offset cc = (case return_reg_int (abi cc) of Some r \<Rightarrow> r | None \<Rightarrow> 0)"

primrec return_reg_size :: "CallingConv \<Rightarrow> u32" where
  "return_reg_size SysV = 8"
| "return_reg_size Win64 = 8"
| "return_reg_size GoAmd64 = 8"
| "return_reg_size AArch64 = 8"
| "return_reg_size Cdecl32 = 4"
| "return_reg_size Stdcall32 = 4"
| "return_reg_size Thiscall32 = 4"
| "return_reg_size Fastcall32 = 4"
| "return_reg_size Arm32 = 4"

definition WIN64_CALLER_SAVED :: "u64 list" where
  "WIN64_CALLER_SAVED = [0, 8, 16, 128, 136, 144, 152]"

definition SYSV64_CALLER_SAVED :: "u64 list" where
  "SYSV64_CALLER_SAVED = [0, 8, 16, 48, 56, 128, 136, 144, 152]"

definition AARCH64_CALLER_SAVED :: "u64 list" where
  "AARCH64_CALLER_SAVED =
     [16384, 16392, 16400, 16408, 16416, 16424, 16432, 16440,
      16448, 16456, 16464, 16472, 16480, 16488, 16496, 16504, 16512, 16520, 16528]"

definition X86_32_CALLER_SAVED :: "u64 list" where
  "X86_32_CALLER_SAVED = [0, 4, 8]"

definition ARM32_CALLER_SAVED :: "u64 list" where
  "ARM32_CALLER_SAVED = [32, 36, 40, 44, 80, 88]"

primrec caller_saved_offsets :: "CallingConv \<Rightarrow> u64 list" where
  "caller_saved_offsets Win64 = WIN64_CALLER_SAVED"
| "caller_saved_offsets SysV = SYSV64_CALLER_SAVED"
| "caller_saved_offsets GoAmd64 = SYSV64_CALLER_SAVED"
| "caller_saved_offsets AArch64 = AARCH64_CALLER_SAVED"
| "caller_saved_offsets Cdecl32 = X86_32_CALLER_SAVED"
| "caller_saved_offsets Stdcall32 = X86_32_CALLER_SAVED"
| "caller_saved_offsets Thiscall32 = X86_32_CALLER_SAVED"
| "caller_saved_offsets Fastcall32 = X86_32_CALLER_SAVED"
| "caller_saved_offsets Arm32 = ARM32_CALLER_SAVED"

subsection \<open>Terminators\<close>

primrec cookie_registers :: "CallingConv \<Rightarrow> (u64 \<times> u32 \<times> u64 list) option" where
  "cookie_registers Win64 = Some (8, 8, [0x20, 0x28])"
| "cookie_registers SysV = Some (8, 8, [0x20, 0x28])"
| "cookie_registers GoAmd64 = Some (8, 8, [0x20, 0x28])"
| "cookie_registers Cdecl32 = Some (4, 4, [0x10, 0x14])"
| "cookie_registers Stdcall32 = Some (4, 4, [0x10, 0x14])"
| "cookie_registers Thiscall32 = Some (4, 4, [0x10, 0x14])"
| "cookie_registers Fastcall32 = Some (4, 4, [0x10, 0x14])"
| "cookie_registers AArch64 = None"
| "cookie_registers Arm32 = None"

definition is_frame_var :: "VarDef list \<Rightarrow> u64 list \<Rightarrow> VarId \<Rightarrow> bool option" where
  "is_frame_var vs frame i = do {
     v \<leftarrow> vec_get vs (unat i);
     Some (space (varnode v) = Register \<and> offset (varnode v) \<in> set frame)
   }"

text \<open>At most four steps along copies to the exclusive or.\<close>

primrec cookie_walk :: "VarDef list \<Rightarrow> u64 list \<Rightarrow> nat \<Rightarrow> VarId \<Rightarrow> bool option" where
  "cookie_walk vs frame 0 i = Some False"
| "cookie_walk vs frame (Suc k) i = do {
     v \<leftarrow> vec_get vs (unat i);
     (case expr v of
        EVar inner \<Rightarrow> cookie_walk vs frame k inner
      | EBinOp kind l r \<Rightarrow>
          if kind = BXor then do {
            a \<leftarrow> is_frame_var vs frame l;
            if a then Some True else is_frame_var vs frame r
          }
          else Some False
      | _ \<Rightarrow> Some False)
   }"

definition is_stack_cookie_check :: "scope \<Rightarrow> CallingConv \<Rightarrow> bool option" where
  "is_stack_cookie_check s cc = (case s of (ssa, current) \<Rightarrow> case cookie_registers cc of
     None \<Rightarrow> Some False
   | Some (arg, sz, frame) \<Rightarrow> (case map_of current (register arg sz) of
       None \<Rightarrow> Some False
     | Some i \<Rightarrow> cookie_walk (vars ssa) frame 4 i))"

text \<open>A register a call leaves unknown, at its size and, for eight bytes, at four.\<close>

definition clobber_register :: "OperationOrigin option \<Rightarrow> u32 \<Rightarrow> u64 \<Rightarrow> scope \<Rightarrow> scope" where
  "clobber_register src sz off s = (case s of (ssa, current) \<Rightarrow>
     let (i, ssa) = new_var src (register off sz) EUnknown sz ssa;
         ssa = var_mut ssa i (attach src);
         current = map_insert (register off sz) i current
     in (ssa, if sz = 8 then map_insert (register off 4) i current else current))"

definition set_call_return :: "VarDef \<Rightarrow> VarDef" where
  "set_call_return v = v\<lparr>call_return := True\<rparr>"

definition clobber_caller_saved :: "OperationOrigin option \<Rightarrow> CallingConv \<Rightarrow> work \<Rightarrow> work option" where
  "clobber_caller_saved src cc w = (case w of ((ssa, current), ss) \<Rightarrow>
     let offsets = caller_saved_offsets cc;
         ret_off = return_reg_offset cc;
         ret_size = return_reg_size cc;
         current = filter (\<lambda>e. \<not> (space (fst e) = Register \<and> offset (fst e) \<in> set offsets)) current;
         (ssa, current) = fold (\<lambda>off s. if off = ret_off then s else clobber_register src ret_size off s) offsets (ssa, current);
         (ret_var, ssa) = new_var src (register ret_off ret_size) EUnknown ret_size ssa
     in do {
       ssa \<leftarrow> update_var ret_var (attach src \<circ> set_call_return) ssa;
       let current = map_insert (register ret_off ret_size) ret_var current;
       let current = (if ret_size = 8 then map_insert (register ret_off 4) ret_var current else current);
       Some ((ssa, current), ss @ [Assign ret_var])
     })"

definition live_registers :: "varmap \<Rightarrow> Varnode list" where
  "live_registers current =
     sort_key (\<lambda>vn. (offset vn, vsize vn)) (filter (\<lambda>vn. space vn = Register) (map fst current))"

definition clobber_unknown :: "OperationOrigin option \<Rightarrow> Varnode \<Rightarrow> scope \<Rightarrow> scope" where
  "clobber_unknown src vn s = (case s of (ssa, current) \<Rightarrow>
     let (i, ssa) = new_var src vn EUnknown (vsize vn) ssa
     in (var_mut ssa i (attach src), map_insert vn i current))"

text \<open>Where the convention does not describe the architecture, every register is lost.\<close>

definition clobber_all :: "OperationOrigin option \<Rightarrow> u64 option \<Rightarrow> work \<Rightarrow> work" where
  "clobber_all src return_register w = (case w of ((ssa, current), ss) \<Rightarrow>
     let (ssa, current) = fold (clobber_unknown src) (live_registers current) (ssa, current)
     in case return_register of
       None \<Rightarrow> ((ssa, current), ss)
     | Some off \<Rightarrow>
         let sz = (if off = 8 then 4 else 8);
             (i, ssa) = new_var src (register off sz) EUnknown sz ssa;
             ssa = var_mut ssa i (attach src \<circ> set_call_return)
         in ((ssa, map_insert (register off sz) i current), ss @ [Assign i]))"

definition cookie_diagnostic :: "CallTarget \<Rightarrow> SsaCfg \<Rightarrow> SsaCfg" where
  "cookie_diagnostic target ssa = (case target of
     Direct callee \<Rightarrow> ssa\<lparr>ssa_diagnostics := ssa_diagnostics ssa @ [\<lparr>severity = Info, diag_kind = StackCookieCheck,
       diag_addr = None, detail = format_hex callee\<rparr>]\<rparr>
   | IndirectTarget vn \<Rightarrow> ssa)"

definition preserved_return :: "varmap \<Rightarrow> varmap" where
  "preserved_return current =
     List.map_filter (\<lambda>vn. map_option (Pair vn) (map_of current vn)) [register 0 8, register 0 4]"

definition convert_call :: "OperationOrigin option \<Rightarrow> CallingConv \<Rightarrow> u64 option \<Rightarrow> CallTarget \<Rightarrow> work \<Rightarrow> work option" where
  "convert_call src cc return_register target w = (case w of ((ssa, current), ss) \<Rightarrow> do {
     cookie \<leftarrow> is_stack_cookie_check (ssa, current) cc;
     let preserved = (if cookie then preserved_return current else []);
     let ssa = (if cookie then cookie_diagnostic target ssa else ssa);
     ((ssa, current), ss) \<leftarrow> (if return_register = return_reg_int (abi cc)
        then clobber_caller_saved src cc ((ssa, current), ss)
        else Some (clobber_all src return_register ((ssa, current), ss)));
     Some ((ssa, fold (\<lambda>e. map_insert (fst e) (snd e)) preserved current), ss)
   })"

text \<open>The first candidate that is known and not merely what the function was entered with.\<close>

primrec return_value :: "SsaCfg \<Rightarrow> varmap \<Rightarrow> Varnode list \<Rightarrow> VarId option option" where
  "return_value ssa current [] = Some None"
| "return_value ssa current (vn # vns) = (case map_of current vn of
     None \<Rightarrow> return_value ssa current vns
   | Some i \<Rightarrow> do {
       v \<leftarrow> vec_get (vars ssa) (unat i);
       if expr v = EUnknown \<and> \<not> call_return v then return_value ssa current vns else Some (Some i)
     })"

definition return_candidates :: "u64 option \<Rightarrow> Varnode list" where
  "return_candidates return_register = (case return_register of
     Some off \<Rightarrow> [register off 4, register off 8]
   | None \<Rightarrow> [])"

primrec convert_terminator ::
  "OperationOrigin option \<Rightarrow> CallingConv \<Rightarrow> u64 option \<Rightarrow> Terminator \<Rightarrow> work \<Rightarrow> (SsaTerminator \<times> work) option" where
  "convert_terminator src cc rr (TFallthrough b) = (\<lambda>w. Some (SFallthrough b, w))"
| "convert_terminator src cc rr (TBranch b) = (\<lambda>w. Some (SBranch b, w))"
| "convert_terminator src cc rr (TCBranch cond taken fallthrough) = (\<lambda>w. do {
     (i, s) \<leftarrow> resolve_input src cond (fst w);
     Some (SCBranch i taken fallthrough, s, snd w)
   })"
| "convert_terminator src cc rr (TCall target fallthrough) = (\<lambda>w. do {
     w \<leftarrow> convert_call src cc rr target w;
     Some (SCall target [] None fallthrough, w)
   })"
| "convert_terminator src cc rr TReturn = (\<lambda>w. do {
     r \<leftarrow> return_value (fst (fst w)) (snd (fst w)) (return_candidates rr);
     Some (SReturn r, w)
   })"
| "convert_terminator src cc rr (TIndirect vn) = (\<lambda>w. do {
     (i, s) \<leftarrow> resolve_input src vn (fst w);
     Some (SIndirect i, s, snd w)
   })"

end
