(* ===== verification/SsaBuild.thy ===== *)
theory SsaBuild
  imports Ssa CfgEdges
begin

text \<open>
  SSA construction, the upper half of \<^verbatim>\<open>rsleigh-decompile/src/ssa.rs\<close>: the operations of
  an instruction with the deferred zero extension and the conditional-select patterns, the
  bounded passes over the blocks, the phis at joins with the relinking of uses, and the
  whole function from a control flow graph to an SSA form with forwarded loads,
  propagated evidence and use counts. The counting of work does not affect results and is
  left out. \<open>None\<close> is an index out of range, a panic.
\<close>

subsection \<open>Patterns inside an instruction\<close>

definition inst_origin :: "u64 \<Rightarrow> nat \<Rightarrow> OperationOrigin" where
  "inst_origin addr i = \<lparr>instruction_address = addr, operation_index = i\<rparr>"

type_synonym deferred = "(Varnode \<times> VarId) list"

definition widens_in_place :: "Varnode \<Rightarrow> Varnode \<Rightarrow> bool" where
  "widens_in_place out input \<longleftrightarrow> space out = Register \<and> space input = Register \<and> offset out = offset input \<and>
     vsize out > vsize input"

text \<open>The loop over the remaining operations of the instruction, \<open>i\<close> the index of the first.\<close>

primrec defer_zexts :: "u64 \<Rightarrow> nat \<Rightarrow> PcodeOp list \<Rightarrow> work \<times> deferred \<Rightarrow> (work \<times> deferred) option" where
  "defer_zexts addr i [] wd = Some wd"
| "defer_zexts addr i (op # ops) wd = do {
     wd \<leftarrow> (case op of
        IntZext out input \<Rightarrow>
          if widens_in_place out input \<and> list_ex (\<lambda>later. reads_varnode later out) ops
          then (case wd of ((s, ss), ds) \<Rightarrow> do {
            (input_var, ssa, current) \<leftarrow> resolve_input (Some (inst_origin addr i)) input s;
            let (v, ssa) = new_var (Some (inst_origin addr i)) out (EUnaryOp UZext input_var) (vsize out) ssa;
            Some (((ssa, current), ss @ [Assign v]), ds @ [(out, v)])
          })
          else Some wd
      | _ \<Rightarrow> Some wd);
     defer_zexts addr (Suc i) ops wd
   }"

definition loads_vector :: "PcodeOp \<Rightarrow> Varnode option" where
  "loads_vector op = (case op of
     Load out sp ptr \<Rightarrow> if space out = Register \<and> offset out \<ge> 4608 \<and> vsize out = 16 then Some out else None
   | _ \<Rightarrow> None)"

definition zeroes :: "Varnode \<Rightarrow> PcodeOp \<Rightarrow> bool" where
  "zeroes v op = (case op of
     Copy out input \<Rightarrow> space out = space v \<and> offset out = offset v \<and> space input = Const \<and> offset input = 0
   | _ \<Rightarrow> False)"

text \<open>The indices of the zero copies after a vector load.\<close>

definition skip_zero_copy :: "PcodeOp list \<Rightarrow> nat list" where
  "skip_zero_copy ops = map Suc (filter (\<lambda>i. case loads_vector (ops ! i) of
       Some v \<Rightarrow> zeroes v (ops ! Suc i) | None \<Rightarrow> False) [0..<length ops - 1])"

definition is_const_cbranch :: "PcodeOp \<Rightarrow> bool" where
  "is_const_cbranch op = (case op of CBranch dest cond \<Rightarrow> space dest = Const | _ \<Rightarrow> False)"

definition branch_cond :: "PcodeOp \<Rightarrow> Varnode option" where
  "branch_cond op = (case op of CBranch dest cond \<Rightarrow> Some cond | _ \<Rightarrow> None)"

definition cbranch_index :: "PcodeOp list \<Rightarrow> nat option" where
  "cbranch_index ops =
     (let i = length (takeWhile (\<lambda>op. \<not> is_const_cbranch op) ops)
      in if i + 1 < length ops then Some i else None)"

definition is_deferred :: "deferred \<Rightarrow> PcodeOp \<Rightarrow> bool" where
  "is_deferred ds op = (case op of IntZext out input \<Rightarrow> list_ex (\<lambda>d. fst d = out) ds | _ \<Rightarrow> False)"

text \<open>The operations at the given indices, without the skipped and deferred ones.\<close>

primrec process_ops :: "u64 \<Rightarrow> nat list \<Rightarrow> deferred \<Rightarrow> (nat \<times> PcodeOp) list \<Rightarrow> work \<Rightarrow> work option" where
  "process_ops addr skip ds [] w = Some w"
| "process_ops addr skip ds (e # es) w = do {
     w \<leftarrow> (if fst e \<in> set skip \<or> is_deferred ds (snd e) then Some w
           else process_op (snd e) (inst_origin addr (fst e)) w);
     process_ops addr skip ds es w
   }"

definition vn_key :: "Varnode \<Rightarrow> nat \<times> u64 \<times> u32" where
  "vn_key vn = ((case space vn of Register \<Rightarrow> 0 | Ram \<Rightarrow> 1 | Unique \<Rightarrow> 2 | Const \<Rightarrow> 3), offset vn, vsize vn)"

primrec select_merges :: "OperationOrigin option \<Rightarrow> OperationOrigin \<Rightarrow> VarId \<Rightarrow> varmap \<Rightarrow> work \<Rightarrow> work option" where
  "select_merges src origin cond [] w = Some w"
| "select_merges src origin cond (e # es) w = (case w of ((ssa, current), ss) \<Rightarrow>
     case map_of current (fst e) of
       None \<Rightarrow> select_merges src origin cond es w
     | Some else_var \<Rightarrow>
         if else_var = snd e then select_merges src origin cond es w
         else do {
           let (i, ssa) = new_var src (fst e) (ETernary cond (snd e) else_var) (vsize (fst e)) ssa;
           ssa \<leftarrow> update_var i (\<lambda>v. v\<lparr>origins := origins_insert origin (origins v)\<rparr>) ssa;
           select_merges src origin cond es ((ssa, map_insert (fst e) i current), ss @ [Assign i])
         })"

text \<open>
  A branch over the rest of its own instruction: what is before it, the alternative up to
  the last operation, the choice for every temporary that differs, the last operation.
\<close>

definition process_select :: "OperationOrigin option \<Rightarrow> u64 \<Rightarrow> nat list \<Rightarrow> deferred \<Rightarrow> PcodeOp list \<Rightarrow> nat \<Rightarrow> work \<Rightarrow> work option" where
  "process_select src addr skip ds ops cb w = do {
     cond_vn \<leftarrow> branch_cond (ops ! cb);
     w \<leftarrow> process_ops addr skip ds (enumerate 0 (take cb ops)) w;
     (cond, s) \<leftarrow> resolve_input (Some (inst_origin addr cb)) cond_vn (fst w);
     let then_state = filter (\<lambda>e. space (fst e) = Unique) (snd s);
     let last_idx = length ops - 1;
     w \<leftarrow> process_ops addr [] [] (enumerate (cb + 1) (take (last_idx - (cb + 1)) (drop (cb + 1) ops))) (s, snd w);
     w \<leftarrow> select_merges src (inst_origin addr cb) cond (sort_key (\<lambda>e. vn_key (fst e)) then_state) w;
     process_op (ops ! last_idx) (inst_origin addr last_idx) w
   }"

definition process_inst :: "OperationOrigin option \<Rightarrow> u64 \<Rightarrow> PcodeOp list \<Rightarrow> work \<Rightarrow> work option" where
  "process_inst src addr ops w = do {
     (w, ds) \<leftarrow> defer_zexts addr 0 ops (w, []);
     let skip = skip_zero_copy ops;
     ((ssa, current), ss) \<leftarrow> (case cbranch_index ops of
        Some cb \<Rightarrow> process_select src addr skip ds ops cb w
      | None \<Rightarrow> process_ops addr skip ds (enumerate 0 ops) w);
     Some ((ssa, fold (\<lambda>d. map_insert (fst d) (snd d)) ds current), ss)
   }"

text \<open>Consecutive operations with the same address are an instruction.\<close>

function process_block_ops :: "OperationOrigin option \<Rightarrow> (u64 \<times> PcodeOp) list \<Rightarrow> work \<Rightarrow> work option" where
  "process_block_ops src [] w = Some w"
| "process_block_ops src ((addr, op) # ops) w = do {
     w \<leftarrow> process_inst src addr (op # map snd (takeWhile (\<lambda>e. fst e = addr) ops)) w;
     process_block_ops src (dropWhile (\<lambda>e. fst e = addr) ops) w
   }"
  by pat_completeness auto
termination
  by (relation "measure (\<lambda>(src, ops, w). length ops)") (auto simp: length_dropWhile_le le_imp_less_Suc)

subsection \<open>The passes over the blocks\<close>

record build_env =
  graph_preds :: "BlockId list list"
  back_edges :: "(BlockId \<times> BlockId) list"
  acyclic_edges :: "(BlockId \<times> BlockId) list"
  cc_of :: CallingConv
  return_register :: "u64 option"
  outer_source :: "OperationOrigin option"

record passes =
  form :: SsaCfg
  exit_vars :: "varmap list"
  changed :: "BlockId list"

primrec first_nonempty :: "varmap list \<Rightarrow> BlockId list \<Rightarrow> varmap option" where
  "first_nonempty exits [] = Some []"
| "first_nonempty exits (p # ps) = do {
     m \<leftarrow> vec_get exits p;
     if m \<noteq> [] then Some m else first_nonempty exits ps
   }"

definition inherited :: "build_env \<Rightarrow> varmap list \<Rightarrow> BlockId \<Rightarrow> BlockId list \<Rightarrow> varmap option" where
  "inherited e exits b preds = do {
     m \<leftarrow> first_nonempty exits (filter (\<lambda>p. (p, b) \<in> set (acyclic_edges e)) preds);
     if m = [] then first_nonempty exits preds else Some m
   }"

definition translate_block :: "build_env \<Rightarrow> varmap list \<Rightarrow> BasicBlock \<Rightarrow> BlockId list \<Rightarrow> SsaCfg \<Rightarrow> (SsaTerminator \<times> work) option" where
  "translate_block e exits blk preds ssa = do {
     current \<leftarrow> inherited e exits (block_id blk) preds;
     w \<leftarrow> process_block_ops (outer_source e) (block_ops blk) ((ssa, current), []);
     convert_terminator (terminator_origin blk) (cc_of e) (return_register e) (terminator blk) w
   }"

definition put_block :: "bool \<Rightarrow> nat \<Rightarrow> BasicBlock \<Rightarrow> Stmt list \<Rightarrow> SsaTerminator \<Rightarrow> SsaCfg \<Rightarrow> SsaCfg option" where
  "put_block initial k blk ss t ssa =
     (if initial
      then Some (ssa\<lparr>ssa_blocks := ssa_blocks ssa @ [\<lparr>ssa_block_id = block_id blk, ssa_block_addr = block_addr blk,
             stmts = ss, ssa_terminator = t\<rparr>]\<rparr>)
      else do {
        b \<leftarrow> vec_get (ssa_blocks ssa) k;
        Some (ssa\<lparr>ssa_blocks := (ssa_blocks ssa)[k := b\<lparr>stmts := ss, ssa_terminator := t\<rparr>]\<rparr>)
      })"

text \<open>A later pass leaves a block alone when nothing it depends on changed.\<close>

definition skipped :: "build_env \<Rightarrow> nat \<Rightarrow> BlockId list \<Rightarrow> BlockId \<Rightarrow> BlockId list \<Rightarrow> bool" where
  "skipped e iter last_changed b preds \<longleftrightarrow> iter > 0 \<and>
     (preds = [] \<or>
      (\<not> list_ex (\<lambda>p. p \<in> set last_changed) preds \<and>
       \<not> (list_ex (\<lambda>p. (p, b) \<in> set (back_edges e)) preds \<and> iter = 1)))"

definition pass_block :: "build_env \<Rightarrow> nat \<Rightarrow> BlockId list \<Rightarrow> nat \<times> BasicBlock \<Rightarrow> passes \<Rightarrow> passes option" where
  "pass_block e iter last_changed kb p = (case kb of (k, blk) \<Rightarrow> do {
     preds \<leftarrow> vec_get (graph_preds e) (block_id blk);
     if skipped e iter last_changed (block_id blk) preds then Some p
     else do {
       (t, (ssa, current), ss) \<leftarrow> translate_block e (exit_vars p) blk preds (form p);
       old \<leftarrow> vec_get (exit_vars p) (block_id blk);
       ssa \<leftarrow> put_block (iter = 0) k blk ss t ssa;
       Some \<lparr>form = ssa, exit_vars = (exit_vars p)[block_id blk := current],
             changed = (if same_map old current then changed p else changed p @ [block_id blk])\<rparr>
     }
   })"

primrec pass_blocks :: "build_env \<Rightarrow> nat \<Rightarrow> BlockId list \<Rightarrow> (nat \<times> BasicBlock) list \<Rightarrow> passes \<Rightarrow> passes option" where
  "pass_blocks e iter last_changed [] p = Some p"
| "pass_blocks e iter last_changed (kb # kbs) p = do {
     p \<leftarrow> pass_block e iter last_changed kb p;
     pass_blocks e iter last_changed kbs p
   }"

text \<open>\<open>left\<close> counts the passes down from four.\<close>

primrec run_passes :: "build_env \<Rightarrow> BasicBlock list \<Rightarrow> nat \<Rightarrow> passes \<Rightarrow> passes option" where
  "run_passes e bs 0 p = Some p"
| "run_passes e bs (Suc left) p = do {
     let iter = 4 - Suc left;
     p \<leftarrow> pass_blocks e iter (changed p) (enumerate 0 bs) (p\<lparr>changed := []\<rparr>);
     if iter > 0 \<and> changed p = [] then Some p else run_passes e bs left p
   }"

subsection \<open>Phis\<close>

text \<open>What the predecessors hold for a varnode, in their order.\<close>

definition phi_entries :: "varmap list \<Rightarrow> BlockId list \<Rightarrow> Varnode \<Rightarrow> (BlockId \<times> VarId) list" where
  "phi_entries exits preds vn = List.map_filter (\<lambda>p. map_option (Pair p) (map_of (exits ! p) vn)) preds"

definition phi_varnodes :: "varmap list \<Rightarrow> BlockId list \<Rightarrow> Varnode list" where
  "phi_varnodes exits preds =
     sort_key vn_key (filter (\<lambda>vn. space vn \<noteq> Unique) (remdups (concat (map (\<lambda>p. map fst (exits ! p)) preds))))"

definition needs_phi :: "(BlockId \<times> VarId) list \<Rightarrow> bool" where
  "needs_phi es \<longleftrightarrow> length es \<ge> 2 \<and> \<not> list_all (\<lambda>e. snd e = snd (es ! 0)) es"

primrec insert_phis :: "OperationOrigin option \<Rightarrow> varmap list \<Rightarrow> BlockId list \<Rightarrow> Varnode list \<Rightarrow> SsaCfg \<Rightarrow> VarId list \<times> SsaCfg" where
  "insert_phis src exits preds [] ssa = ([], ssa)"
| "insert_phis src exits preds (vn # vns) ssa =
     (let es = phi_entries exits preds vn in
      if needs_phi es
      then let (i, ssa) = new_var src vn (EPhi (map snd es)) (vsize vn) ssa;
               (is, ssa) = insert_phis src exits preds vns ssa
           in (i # is, ssa)
      else insert_phis src exits preds vns ssa)"

definition is_phi :: "Expr \<Rightarrow> bool" where
  "is_phi e = (case e of EPhi inputs \<Rightarrow> True | _ \<Rightarrow> False)"

text \<open>The replacement map of the edges in \<open>es\<close>: what a predecessor held becomes the phi.\<close>

definition relink_map :: "(BlockId \<times> BlockId) list \<Rightarrow> varmap list \<Rightarrow> BlockId list \<Rightarrow> BlockId \<Rightarrow> VarDef list \<Rightarrow>
    VarId list \<Rightarrow> (VarId \<times> VarId) list" where
  "relink_map es exits preds b vs phis =
     fold (\<lambda>(phi, p). case map_of (exits ! p) (varnode (vs ! unat phi)) of
         Some held \<Rightarrow> map_insert held phi
       | None \<Rightarrow> id)
       (concat (map (\<lambda>phi. map (Pair phi) (filter (\<lambda>p. (p, b) \<in> set es) preds)) (filter (\<lambda>phi. is_phi (expr (vs ! unat phi))) phis))) []"

definition relinked :: "(VarId \<times> VarId) list \<Rightarrow> VarId \<Rightarrow> VarId" where
  "relinked relink i = (case map_of relink i of Some phi \<Rightarrow> phi | None \<Rightarrow> i)"

primrec relink_expr :: "Expr \<Rightarrow> (VarId \<times> VarId) list \<Rightarrow> Expr" where
  "relink_expr (EVar i) = (\<lambda>r. EVar (relinked r i))"
| "relink_expr (EConst v sz) = (\<lambda>r. EConst v sz)"
| "relink_expr (EBinOp k a b) = (\<lambda>r. EBinOp k (relinked r a) (relinked r b))"
| "relink_expr (EUnaryOp k i) = (\<lambda>r. EUnaryOp k (relinked r i))"
| "relink_expr (ELoad p) = (\<lambda>r. ELoad (relinked r p))"
| "relink_expr (EFieldAccess i off) = (\<lambda>r. EFieldAccess i off)"
| "relink_expr (EPhi inputs) = (\<lambda>r. EPhi (map (relinked r) inputs))"
| "relink_expr (ETernary c t e) = (\<lambda>r. ETernary (relinked r c) (relinked r t) (relinked r e))"
| "relink_expr (EUserOp f inputs) = (\<lambda>r. EUserOp f (map (relinked r) inputs))"
| "relink_expr EUnknown = (\<lambda>r. EUnknown)"

primrec relink_stmts :: "(VarId \<times> VarId) list \<Rightarrow> Stmt list \<Rightarrow> VarDef list \<Rightarrow> VarDef list option" where
  "relink_stmts r [] vs = Some vs"
| "relink_stmts r (s # ss) vs = (case s of
     Assign i \<Rightarrow> do {
       v \<leftarrow> vec_get vs (unat i);
       vs \<leftarrow> rewrite vs (unat i) (relink_expr (expr v) r);
       relink_stmts r ss vs
     }
   | _ \<Rightarrow> relink_stmts r ss vs)"

definition relink_terminator :: "(VarId \<times> VarId) list \<Rightarrow> SsaTerminator \<Rightarrow> SsaTerminator" where
  "relink_terminator r t = (case t of
     SCBranch cond taken fallthrough \<Rightarrow> SCBranch (relinked r cond) taken fallthrough
   | SReturn (Some v) \<Rightarrow> SReturn (Some (relinked r v))
   | SIndirect v \<Rightarrow> SIndirect (relinked r v)
   | SCall target args out b \<Rightarrow> SCall target (map (relinked r) args) out b
   | _ \<Rightarrow> t)"

definition relink_block :: "(VarId \<times> VarId) list \<Rightarrow> BlockId \<Rightarrow> SsaCfg \<Rightarrow> SsaCfg option" where
  "relink_block r b ssa =
     (if r = [] then Some ssa
      else do {
        blk \<leftarrow> vec_get (ssa_blocks ssa) b;
        vs \<leftarrow> relink_stmts r (stmts blk) (vars ssa);
        Some (ssa\<lparr>vars := vs,
          ssa_blocks := (ssa_blocks ssa)[b := blk\<lparr>ssa_terminator := relink_terminator r (ssa_terminator blk)\<rparr>]\<rparr>)
      })"

definition other_successors :: "BlockId \<Rightarrow> SsaTerminator \<Rightarrow> BlockId list" where
  "other_successors b t = (case t of
     SCBranch cond taken fallthrough \<Rightarrow> filter (\<lambda>s. s \<noteq> b) [taken, fallthrough]
   | SFallthrough s \<Rightarrow> if s \<noteq> b then [s] else []
   | SBranch s \<Rightarrow> if s \<noteq> b then [s] else []
   | _ \<Rightarrow> [])"

definition relink_return :: "(VarId \<times> VarId) list \<Rightarrow> VarDef list \<Rightarrow> SsaTerminator \<Rightarrow> SsaTerminator option" where
  "relink_return r vs t = (case t of
     SReturn (Some ret_var) \<Rightarrow> (case map_of r ret_var of
         Some phi \<Rightarrow> Some (SReturn (Some phi))
       | None \<Rightarrow> do {
           rv \<leftarrow> vec_get vs (unat ret_var);
           Some (case (case expr rv of
               EVar v \<Rightarrow> map_of r v
             | EUnaryOp k v \<Rightarrow> if k = UZext then map_of r v else None
             | _ \<Rightarrow> None) of
             Some phi \<Rightarrow> SReturn (Some phi)
           | None \<Rightarrow> t)
         })
   | _ \<Rightarrow> Some t)"

primrec relink_successors :: "(VarId \<times> VarId) list \<Rightarrow> BlockId list \<Rightarrow> SsaCfg \<Rightarrow> SsaCfg option" where
  "relink_successors r [] ssa = Some ssa"
| "relink_successors r (s # succs) ssa = (case vec_get (ssa_blocks ssa) s of
     None \<Rightarrow> relink_successors r succs ssa
   | Some blk \<Rightarrow> do {
       vs \<leftarrow> relink_stmts r (stmts blk) (vars ssa);
       t \<leftarrow> relink_return r vs (ssa_terminator blk);
       relink_successors r succs
         (ssa\<lparr>vars := vs, ssa_blocks := (ssa_blocks ssa)[s := blk\<lparr>ssa_terminator := t\<rparr>]\<rparr>)
     })"

definition relink_exits :: "(VarId \<times> VarId) list \<Rightarrow> BlockId \<Rightarrow> SsaCfg \<Rightarrow> SsaCfg option" where
  "relink_exits r b ssa =
     (if r = [] then Some ssa
      else do {
        blk \<leftarrow> vec_get (ssa_blocks ssa) b;
        relink_successors r (other_successors b (ssa_terminator blk)) ssa
      })"

definition prepend_stmts :: "Stmt list \<Rightarrow> BlockId \<Rightarrow> SsaCfg \<Rightarrow> SsaCfg option" where
  "prepend_stmts ss b ssa = do {
     blk \<leftarrow> vec_get (ssa_blocks ssa) b;
     Some (ssa\<lparr>ssa_blocks := (ssa_blocks ssa)[b := blk\<lparr>stmts := ss @ stmts blk\<rparr>]\<rparr>)
   }"

definition phi_block :: "build_env \<Rightarrow> varmap list \<Rightarrow> BlockId \<Rightarrow> SsaCfg \<Rightarrow> SsaCfg option" where
  "phi_block e exits b ssa = do {
     preds \<leftarrow> vec_get (graph_preds e) b;
     if length preds \<le> 1 then Some ssa
     else do {
       let (phis, ssa) = insert_phis (outer_source e) exits preds (phi_varnodes exits preds) ssa;
       if phis = [] then Some ssa
       else do {
         let relink = relink_map (acyclic_edges e) exits preds b (vars ssa) phis;
         let back_relink = relink_map (back_edges e) exits preds b (vars ssa) phis;
         ssa \<leftarrow> relink_block relink b ssa;
         ssa \<leftarrow> relink_exits back_relink b ssa;
         prepend_stmts (map Assign phis) b ssa
       }
     }
   }"

primrec phi_blocks :: "build_env \<Rightarrow> varmap list \<Rightarrow> BlockId list \<Rightarrow> SsaCfg \<Rightarrow> SsaCfg option" where
  "phi_blocks e exits [] ssa = Some ssa"
| "phi_blocks e exits (b # bs) ssa = do { ssa \<leftarrow> phi_block e exits b ssa; phi_blocks e exits bs ssa }"

subsection \<open>Use counts\<close>

definition stmt_refs :: "Stmt \<Rightarrow> VarId list" where
  "stmt_refs s = (case s of
     StoreStmt addr val \<Rightarrow> [addr, val]
   | CallStmt target args out \<Rightarrow> args
   | Assign i \<Rightarrow> [])"

definition terminator_refs :: "SsaTerminator \<Rightarrow> VarId list" where
  "terminator_refs t = (case t of
     SCBranch cond taken fallthrough \<Rightarrow> [cond]
   | SReturn (Some v) \<Rightarrow> [v]
   | SIndirect v \<Rightarrow> [v]
   | _ \<Rightarrow> [])"

text \<open>Every reference of the function, in the order the source counts them.\<close>

definition all_refs :: "SsaCfg \<Rightarrow> VarId list" where
  "all_refs ssa = concat (map (\<lambda>v. collect_expr_refs (expr v)) (vars ssa)) @
     concat (map (\<lambda>blk. concat (map stmt_refs (stmts blk)) @ terminator_refs (ssa_terminator blk)) (ssa_blocks ssa))"

primrec bump_counts :: "VarId list \<Rightarrow> u32 list \<Rightarrow> u32 list option" where
  "bump_counts [] counts = Some counts"
| "bump_counts (i # is) counts = do {
     n \<leftarrow> vec_get counts (unat i);
     bump_counts is (counts[unat i := n + 1])
   }"

definition count_uses :: "SsaCfg \<Rightarrow> SsaCfg option" where
  "count_uses ssa = do {
     counts \<leftarrow> bump_counts (all_refs ssa) (replicate (length (vars ssa)) 0);
     Some (ssa\<lparr>vars := map2 (\<lambda>v n. v\<lparr>use_count := n\<rparr>) (vars ssa) counts\<rparr>)
   }"

subsection \<open>The construction\<close>

definition stale_return :: "SsaCfg \<Rightarrow> SsaBlock \<Rightarrow> bool" where
  "stale_return ssa blk = (case ssa_terminator blk of
     SReturn (Some i) \<Rightarrow> call_return (ssa_var ssa i)
   | _ \<Rightarrow> False)"

definition stale_diagnostics :: "SsaCfg \<Rightarrow> SsaCfg" where
  "stale_diagnostics ssa = ssa\<lparr>ssa_diagnostics := ssa_diagnostics ssa @
     map (\<lambda>blk. \<lparr>severity = Info, diag_kind = StaleReturnInherited, diag_addr = Some (ssa_block_addr blk),
            detail = ''return-register value comes from a call; source-level function may be void''\<rparr>)
       (filter (stale_return ssa) (ssa_blocks ssa))\<rparr>"

definition edges_of :: "(CfgEdgeKind \<Rightarrow> bool) \<Rightarrow> CfgEdge list \<Rightarrow> (BlockId \<times> BlockId) list" where
  "edges_of P es = map (\<lambda>e. (edge_from e, edge_to e)) (filter (\<lambda>e. P (edge_kind e)) es)"

definition make_env :: "OperationOrigin option \<Rightarrow> Cfg \<Rightarrow> CallingConv \<Rightarrow> u64 option \<Rightarrow> build_env option" where
  "make_env src cfg cc rr = do {
     preds \<leftarrow> predecessors cfg;
     es \<leftarrow> classified_edges cfg;
     Some \<lparr>graph_preds = preds, back_edges = edges_of (\<lambda>k. k = Back) es,
           acyclic_edges = edges_of (\<lambda>k. k \<noteq> Back) es, cc_of = cc, return_register = rr, outer_source = src\<rparr>
   }"

definition initial_passes :: "Cfg \<Rightarrow> passes" where
  "initial_passes cfg = \<lparr>form = \<lparr>ssa_blocks = [], vars = [], ssa_entry = entry cfg, ssa_diagnostics = diagnostics cfg\<rparr>,
     exit_vars = replicate (length (blocks cfg)) [], changed = []\<rparr>"

text \<open>The renamed form with phis, before loads are forwarded.\<close>

definition renamed_form :: "OperationOrigin option \<Rightarrow> Cfg \<Rightarrow> CallingConv \<Rightarrow> u64 option \<Rightarrow> SsaCfg option" where
  "renamed_form src cfg cc rr = do {
     e \<leftarrow> make_env src cfg cc rr;
     p \<leftarrow> run_passes e (blocks cfg) 4 (initial_passes cfg);
     phi_blocks e (exit_vars p) [0..<length (blocks cfg)] (form p)
   }"

definition build_ssa_with_return_register ::
  "OperationOrigin option \<Rightarrow> Cfg \<Rightarrow> CallingConv \<Rightarrow> u64 option \<Rightarrow> SsaCfg option" where
  "build_ssa_with_return_register src cfg cc rr = do {
     ssa \<leftarrow> renamed_form src cfg cc rr;
     let ssa = stale_diagnostics ssa;
     ssa \<leftarrow> (if rr = return_reg_int (abi cc) then forward src ssa cfg cc else Some ssa);
     vs \<leftarrow> propagate (vars ssa);
     count_uses (ssa\<lparr>vars := vs\<rparr>)
   }"

datatype Architecture = X86_64 | X86_32 | AArch64_arch | ARM32_arch | MIPS32 | RiscV64

definition build_ssa_with_cc :: "OperationOrigin option \<Rightarrow> Cfg \<Rightarrow> CallingConv \<Rightarrow> SsaCfg option" where
  "build_ssa_with_cc src cfg cc = build_ssa_with_return_register src cfg cc (return_reg_int (abi cc))"

definition build_ssa :: "OperationOrigin option \<Rightarrow> Cfg \<Rightarrow> SsaCfg option" where
  "build_ssa src cfg = build_ssa_with_cc src cfg SysV"

definition build_ssa_for_arch :: "OperationOrigin option \<Rightarrow> Cfg \<Rightarrow> CallingConv \<Rightarrow> Architecture \<Rightarrow> SsaCfg option" where
  "build_ssa_for_arch src cfg cc arch = build_ssa_with_return_register src cfg cc (Some (case arch of
     MIPS32 \<Rightarrow> 8
   | RiscV64 \<Rightarrow> 0x2050
   | _ \<Rightarrow> return_reg_offset cc))"

end
