(* ===== verification/SsaOps.thy ===== *)
theory SsaOps
  imports SsaBuild MemoryProps ProvenanceProps
begin

text \<open>
  The invariants of the translation of operations to SSA form. The table of variables only
  grows, everything it, the statements and the map of current values name exists, and
  while the table fits into the identifiers, the statements define pairwise different new
  variables. The proofs are a small calculus for the option results: a step \<open>yields\<close> a
  postcondition when it succeeds with one.
\<close>

subsection \<open>Results that exist\<close>

definition yields :: "'a option \<Rightarrow> ('a \<Rightarrow> bool) \<Rightarrow> bool" where
  "yields m P \<longleftrightarrow> (\<exists>x. m = Some x \<and> P x)"

named_theorems yields_intros \<open>steps of the calculus\<close>

lemma yields_Some [yields_intros]: "P x \<Longrightarrow> yields (Some x) P"
  by (simp add: yields_def)

lemma yields_bind [yields_intros]: "yields m (\<lambda>x. yields (f x) P) \<Longrightarrow> yields (Option.bind m f) P"
  by (auto simp: yields_def)

lemma yields_mono: "yields m P \<Longrightarrow> (\<And>x. P x \<Longrightarrow> Q x) \<Longrightarrow> yields m Q"
  by (auto simp: yields_def)

lemma yields_if [yields_intros]: "(c \<Longrightarrow> yields m P) \<Longrightarrow> (\<not> c \<Longrightarrow> yields n P) \<Longrightarrow> yields (if c then m else n) P"
  by simp

lemma yields_vec_get [yields_intros]: "i < length xs \<Longrightarrow> P (xs ! i) \<Longrightarrow> yields (vec_get xs i) P"
  by (simp add: yields_def vec_get_def)

subsection \<open>Well-formed tables and maps\<close>

definition in_table :: "VarDef list \<Rightarrow> VarId \<Rightarrow> bool" where
  "in_table vs i \<longleftrightarrow> unat i < length vs"

definition memory_ok :: "Access option \<Rightarrow> bool" where
  "memory_ok m \<longleftrightarrow> (\<forall>sp S bnd. m = Some (LoadAccess sp S bnd) \<longrightarrow>
     length S \<le> MAX_STORES \<and> sorted_wrt (<) S \<and> (bnd = None \<longleftrightarrow> S \<noteq> []))"

lemma evidence_bounded_iff: "evidence_bounded vs \<longleftrightarrow> (\<forall>v \<in> set vs. memory_ok (memory v))"
  by (auto simp: evidence_bounded_def memory_ok_def)

text \<open>Load evidence within its bounds, and origins in order.\<close>

definition entry_ok :: "VarDef \<Rightarrow> bool" where
  "entry_ok v \<longleftrightarrow> memory_ok (memory v) \<and> wf_origins (origins v)"

definition vtable_ok :: "VarDef list \<Rightarrow> bool" where
  "vtable_ok vs \<longleftrightarrow> (\<forall>v \<in> set vs. \<forall>i \<in> set (collect_expr_refs (expr v)). in_table vs i) \<and> (\<forall>v \<in> set vs. entry_ok v)"

definition scope_ok :: "scope \<Rightarrow> bool" where
  "scope_ok s \<longleftrightarrow> vtable_ok (vars (fst s)) \<and> (\<forall>e \<in> set (snd s). in_table (vars (fst s)) (snd e))"

text \<open>
  Growth: the blocks stay, the table only gets longer, and while it fits into the 32 bits
  of an identifier the old entries stay as they were.
\<close>

definition grows :: "SsaCfg \<Rightarrow> SsaCfg \<Rightarrow> bool" where
  "grows ssa ssa' \<longleftrightarrow> ssa_blocks ssa' = ssa_blocks ssa \<and> length (vars ssa) \<le> length (vars ssa') \<and>
     (length (vars ssa') \<le> 2 ^ 32 \<longrightarrow> take (length (vars ssa)) (vars ssa') = vars ssa)"

lemma grows_refl [simp]: "grows ssa ssa"
  by (simp add: grows_def)

lemma grows_trans: "grows a b \<Longrightarrow> grows b c \<Longrightarrow> grows a c"
  unfolding grows_def by (metis dual_order.trans min.absorb1 take_take)

lemma grows_diagnostics [simp]: "grows ssa (ssa'\<lparr>ssa_diagnostics := ds\<rparr>) = grows ssa ssa'"
  by (simp add: grows_def)

lemma in_table_grows: "in_table (vars ssa) i \<Longrightarrow> grows ssa ssa' \<Longrightarrow> in_table (vars ssa') i"
  by (simp add: in_table_def grows_def)

text \<open>A variable made since \<open>base\<close>.\<close>

definition fresh :: "SsaCfg \<Rightarrow> SsaCfg \<Rightarrow> VarId \<Rightarrow> bool" where
  "fresh base ssa i \<longleftrightarrow> (\<exists>n. i = of_nat n \<and> length (vars base) \<le> n \<and> n < length (vars ssa))"

lemma unat_of_nat_le: "unat (of_nat n :: VarId) \<le> n"
  by (simp add: unat_of_nat)

lemma fresh_in_table: "fresh base ssa i \<Longrightarrow> in_table (vars ssa) i"
  using unat_of_nat_le le_less_trans unfolding fresh_def in_table_def by blast

lemma fresh_grows: "fresh base ssa i \<Longrightarrow> grows ssa ssa' \<Longrightarrow> fresh base ssa' i"
  by (auto simp: fresh_def grows_def)

lemma fresh_base: "fresh b ssa i \<Longrightarrow> grows a b \<Longrightarrow> fresh a ssa i"
  by (auto simp: fresh_def grows_def)

lemma fresh_small: "fresh base ssa i \<Longrightarrow> length (vars ssa) \<le> 2 ^ 32 \<Longrightarrow> length (vars base) \<le> unat i"
  by (auto simp: fresh_def unat_of_nat)

subsection \<open>The primitive steps\<close>

lemma wf_origins_flags [simp]:
  "wf_origins (x\<lparr>synthetic := b\<rparr>) = wf_origins x" "wf_origins (x\<lparr>truncated := b\<rparr>) = wf_origins x"
  by (simp_all add: wf_origins_def)

lemma default_wf [simp]: "wf_origins default_origins"
  by (simp add: wf_origins_def default_origins_def)

lemma definition_wf: "wf_origins (origins_definition src e vs)"
  by (auto simp: origins_definition_def Let_def wf_origins_insert intro!: merge_inputs_ops(1) split: option.splits)

lemma vtable_evidence: "vtable_ok vs \<Longrightarrow> evidence_bounded vs"
  by (simp add: vtable_ok_def evidence_bounded_iff entry_ok_def)

lemma new_var_fields:
  "new_var src vn e sz ssa = (i, ssa') \<Longrightarrow>
   i = of_nat (length (vars ssa)) \<and> ssa_blocks ssa' = ssa_blocks ssa \<and>
   (\<exists>v. vars ssa' = vars ssa @ [v] \<and> expr v = e \<and> varnode v = vn \<and> memory v = None \<and> \<not> call_return v \<and> entry_ok v)"
  using definition_wf by (auto simp: new_var_def Let_def entry_ok_def memory_ok_def)

lemma vtable_ok_snoc:
  "vtable_ok vs \<Longrightarrow> \<forall>i \<in> set (collect_expr_refs (expr v)). in_table vs i \<Longrightarrow> entry_ok v \<Longrightarrow> vtable_ok (vs @ [v])"
  by (fastforce simp: vtable_ok_def in_table_def)

lemma new_var_step:
  assumes "new_var src vn e sz ssa = (i, ssa')" "grows base ssa" "vtable_ok (vars ssa)"
    "\<forall>i \<in> set (collect_expr_refs e). in_table (vars ssa) i"
  shows "grows base ssa' \<and> grows ssa ssa' \<and> vtable_ok (vars ssa') \<and> fresh base ssa' i \<and> in_table (vars ssa') i"
proof -
  from new_var_fields[OF assms(1)] obtain v where
    v: "i = of_nat (length (vars ssa))" "ssa_blocks ssa' = ssa_blocks ssa" "vars ssa' = vars ssa @ [v]"
      "expr v = e" "entry_ok v" by blast
  have g: "grows ssa ssa'" using v by (simp add: grows_def)
  have f: "fresh base ssa' i" using v assms(2) by (auto simp: fresh_def grows_def)
  show ?thesis
    using g f grows_trans[OF assms(2) g] vtable_ok_snoc[OF assms(3), of v] assms(4) v fresh_in_table[OF f] by simp
qed

text \<open>A write to a variable made since \<open>base\<close> that keeps its expression.\<close>

definition keeps_expr :: "(VarDef \<Rightarrow> VarDef) \<Rightarrow> bool" where
  "keeps_expr f \<longleftrightarrow> (\<forall>v. expr (f v) = expr v \<and> varnode (f v) = varnode v)"

definition safe_write :: "(VarDef \<Rightarrow> VarDef) \<Rightarrow> bool" where
  "safe_write f \<longleftrightarrow> keeps_expr f \<and> (\<forall>v. entry_ok v \<longrightarrow> entry_ok (f v))"

lemma safe_writes [simp]:
  "safe_write set_synthetic" "safe_write (attach src)" "safe_write set_call_return"
  "safe_write f \<Longrightarrow> safe_write g \<Longrightarrow> safe_write (f \<circ> g)"
  "safe_write (\<lambda>v. v\<lparr>origins := origins_insert origin (origins v)\<rparr>)"
  by (auto simp: safe_write_def keeps_expr_def entry_ok_def set_synthetic_def attach_def set_call_return_def
      attach_source_def wf_origins_insert wf_origins_flags split: option.splits)

lemma vtable_ok_update:
  assumes "vtable_ok vs" "i < length vs" "safe_write f"
  shows "vtable_ok (vs[i := f (vs ! i)])"
proof -
  have i: "vs ! i \<in> set vs" using assms(2) by simp
  have ok: "(\<forall>j \<in> set (collect_expr_refs (expr v)). in_table vs j) \<and> entry_ok v" if "v \<in> set vs" for v
    using assms(1) that by (simp add: vtable_ok_def)
  have "v = f (vs ! i) \<or> v \<in> set vs" if "v \<in> set (vs[i := f (vs ! i)])" for v
    using set_update_subset_insert[of vs i "f (vs ! i)"] that by auto
  with ok i have "\<forall>v \<in> set (vs[i := f (vs ! i)]). (\<forall>j \<in> set (collect_expr_refs (expr v)). in_table vs j) \<and> entry_ok v"
    using assms(3) unfolding safe_write_def keeps_expr_def by metis
  then show ?thesis by (simp add: vtable_ok_def in_table_def)
qed

lemma update_table:
  assumes "grows base ssa" "vtable_ok (vars ssa)" "fresh base ssa i" "safe_write f"
  shows "grows base (ssa\<lparr>vars := (vars ssa)[unat i := f (vars ssa ! unat i)]\<rparr>) \<and>
    vtable_ok ((vars ssa)[unat i := f (vars ssa ! unat i)])"
  using assms fresh_in_table[OF assms(3)] fresh_small[OF assms(3)] vtable_ok_update[OF assms(2) _ assms(4)]
  by (auto simp: grows_def in_table_def)

lemma update_var_step [yields_intros]:
  assumes "grows base ssa" "vtable_ok (vars ssa)" "fresh base ssa i" "safe_write f"
    and "\<And>ssa'. grows base ssa' \<Longrightarrow> vtable_ok (vars ssa') \<Longrightarrow> length (vars ssa') = length (vars ssa) \<Longrightarrow>
      map expr (vars ssa') = map expr (vars ssa) \<Longrightarrow> ssa_blocks ssa' = ssa_blocks ssa \<Longrightarrow> P ssa'"
  shows "yields (update_var i f ssa) P"
proof -
  have i: "unat i < length (vars ssa)" using fresh_in_table[OF assms(3)] by (simp add: in_table_def)
  have "map expr ((vars ssa)[unat i := f (vars ssa ! unat i)]) = map expr (vars ssa)"
    using i assms(4) by (intro nth_equalityI) (auto simp: nth_list_update safe_write_def keeps_expr_def)
  with update_table[OF assms(1-4)] assms(5) i show ?thesis
    by (auto simp: update_var_def yields_def vec_get_def)
qed


subsection \<open>Operands and expressions\<close>

lemma map_of_insert [simp]: "map_of (map_insert k v m) = (map_of m)(k \<mapsto> v)"
  by (induction m) (auto simp: fun_eq_iff)

lemma set_map_insert: "set (map_insert k v m) \<subseteq> insert (k, v) (set m)"
  by (induction m) auto

lemma scope_ok_insert: "scope_ok (ssa, m) \<Longrightarrow> in_table (vars ssa) i \<Longrightarrow> scope_ok (ssa, map_insert vn i m)"
  using set_map_insert[of vn i m] by (fastforce simp: scope_ok_def)

lemma scope_ok_table: "scope_ok (ssa, m) \<Longrightarrow> vtable_ok (vars ssa)"
  by (simp add: scope_ok_def)

lemma scope_ok_grows: "scope_ok (ssa, m) \<Longrightarrow> grows ssa ssa' \<Longrightarrow> vtable_ok (vars ssa') \<Longrightarrow> scope_ok (ssa', m)"
  using in_table_grows by (fastforce simp: scope_ok_def)

lemma scope_ok_lookup: "scope_ok (ssa, m) \<Longrightarrow> map_of m vn = Some i \<Longrightarrow> in_table (vars ssa) i"
  by (force simp: scope_ok_def dest: map_of_SomeD)

text \<open>A new variable recorded for a varnode.\<close>

lemma new_var_scope:
  assumes "new_var src vn e sz ssa = (i, ssa')" "scope_ok (ssa, m)"
    "\<forall>j \<in> set (collect_expr_refs e). in_table (vars ssa) j"
  shows "grows ssa ssa'" "scope_ok (ssa', m)" "fresh ssa ssa' i" "in_table (vars ssa') i"
  using new_var_step[OF assms(1) grows_refl scope_ok_table[OF assms(2)] assms(3)] scope_ok_grows[OF assms(2)]
  by auto

lemma fold_choice: "fold (\<lambda>e best. if P e best then e else best) es b \<in> insert b (set es)"
  by (induction es arbitrary: b) auto

lemma fold_choice': "fold (\<lambda>e best. if P e best then best else e) es b \<in> insert b (set es)"
  by (induction es arbitrary: b) auto

lemma alias_of_member:
  assumes "alias_of vn m = Some e"
  shows "e \<in> set m"
proof -
  from assms obtain P w ws where "filter P (same_register vn m) = w # ws" "e \<in> insert w (set ws)"
  proof (cases "filter (\<lambda>e. vsize (fst e) > vsize vn) (same_register vn m)")
    case Nil
    with assms obtain n ns where n: "filter (\<lambda>e. vsize (fst e) < vsize vn) (same_register vn m) = n # ns"
      "e = fold (\<lambda>e best. if vsize (fst e) < vsize (fst best) then best else e) ns n"
      by (auto simp: alias_of_def split: list.splits)
    show ?thesis
      using that[OF n(1)] fold_choice'[of "\<lambda>e best. vsize (fst e) < vsize (fst best)" ns n] by (simp add: n(2))
  next
    case (Cons w ws)
    with assms show ?thesis
      using that[OF Cons] fold_choice[of "\<lambda>e best. vsize (fst e) < vsize (fst best)" ws w] by (simp add: alias_of_def)
  qed
  then have "e \<in> set (filter P (same_register vn m))" by simp
  then show ?thesis by (simp add: same_register_def)
qed

text \<open>A step from one scope to another with a result that makes sense in the new table.\<close>

definition advanced :: "(VarDef list \<Rightarrow> 'a \<Rightarrow> bool) \<Rightarrow> scope \<Rightarrow> 'a \<times> scope \<Rightarrow> bool" where
  "advanced Q s r \<longleftrightarrow> scope_ok (snd r) \<and> grows (fst s) (fst (snd r)) \<and> Q (vars (fst (snd r))) (fst r)"

lemma advanced_bind:
  assumes "yields m (advanced Q s)"
    and "\<And>x s'. scope_ok s' \<Longrightarrow> grows (fst s) (fst s') \<Longrightarrow> Q (vars (fst s')) x \<Longrightarrow> yields (f (x, s')) (advanced R s')"
  shows "yields (Option.bind m f) (advanced R s)"
proof -
  from assms(1) obtain x s' where m: "m = Some (x, s')" "scope_ok s'" "grows (fst s) (fst s')" "Q (vars (fst s')) x"
    by (auto simp: yields_def advanced_def)
  from assms(2)[OF m(2-4)] m(1,3) show ?thesis
    by (auto simp: yields_def advanced_def intro: grows_trans)
qed

lemma resolve_input_step:
  assumes "scope_ok s"
  shows "yields (resolve_input src vn s) (advanced in_table s)"
proof -
  obtain ssa m where s: "s = (ssa, m)" by fastforce
  note ok = assms[unfolded s]
  have new: "advanced in_table s (i, ssa', m)" if "new_var src vn e sz ssa = (i, ssa')" "collect_expr_refs e = []" for e sz i ssa'
    using new_var_scope[OF that(1) ok] that(2) by (simp add: advanced_def s)
  then have unknown: "advanced in_table s (unknown_input src vn s)"
    by (auto simp: unknown_input_def s advanced_def intro: scope_ok_insert split: prod.splits)
  have al: "yields (alias_input src vn e s) (advanced in_table s)" if "alias_of vn m = Some e" for e
  proof (cases "vsize (fst e) > vsize vn")
    case True
    then show ?thesis
      using alias_of_member[OF that] ok by (auto simp: alias_input_def s yields_def advanced_def scope_ok_def)
  next
    case False
    obtain i ssa1 where n: "new_var src vn (EUnaryOp UZext (snd e)) (vsize vn) ssa = (i, ssa1)" by fastforce
    have "\<forall>j \<in> set (collect_expr_refs (EUnaryOp UZext (snd e))). in_table (vars ssa) j"
      using alias_of_member[OF that] ok by (auto simp: scope_ok_def)
    note g = new_var_scope[OF n ok this]
    have "yields (update_var i set_synthetic ssa1) (\<lambda>ssa2. advanced in_table s (i, ssa2, map_insert vn i m))"
      by (rule update_var_step[OF g(1) scope_ok_table[OF g(2)] g(3)])
        (use g in \<open>auto simp: advanced_def s in_table_def intro!: scope_ok_insert scope_ok_grows[OF ok]\<close>)
    then show ?thesis using False by (auto simp: alias_input_def s n yields_def)
  qed
  show ?thesis
    using new unknown al ok
    by (auto simp: resolve_input_def s yields_Some advanced_def scope_ok_lookup split: prod.splits option.splits)
qed


definition all_in :: "VarDef list \<Rightarrow> VarId list \<Rightarrow> bool" where
  "all_in vs is \<longleftrightarrow> (\<forall>i \<in> set is. in_table vs i)"

lemma all_in_simps [simp]: "all_in vs []" "all_in vs (i # is) \<longleftrightarrow> in_table vs i \<and> all_in vs is"
  "all_in vs (is @ js) \<longleftrightarrow> all_in vs is \<and> all_in vs js"
  by (auto simp: all_in_def)

lemma all_in_grows: "all_in (vars ssa) is \<Longrightarrow> grows ssa ssa' \<Longrightarrow> all_in (vars ssa') is"
  using in_table_grows by (auto simp: all_in_def)

definition refs_in :: "VarDef list \<Rightarrow> Expr \<Rightarrow> bool" where
  "refs_in vs e \<longleftrightarrow> all_in vs (collect_expr_refs e)"

lemma resolve_inputs_step: "scope_ok s \<Longrightarrow> yields (resolve_inputs src vns s) (advanced all_in s)"
proof (induction vns arbitrary: s)
  case Nil
  then show ?case by (simp add: yields_def advanced_def)
next
  case (Cons vn vns)
  show ?case
    unfolding resolve_inputs.simps
  proof (rule advanced_bind[OF resolve_input_step[OF Cons.prems]])
    fix i s' assume s': "scope_ok s'" "in_table (vars (fst s')) i"
    show "yields (case (i, s') of (i, s) \<Rightarrow> Option.bind (resolve_inputs src vns s) (\<lambda>(is, s). Some (i # is, s))) (advanced all_in s')"
      unfolding prod.case
      by (rule yields_bind, rule yields_mono[OF Cons.IH[OF s'(1)]])
        (use s' in_table_grows in \<open>auto simp: yields_def advanced_def\<close>)
  qed
qed

lemma unary_step:
  assumes "scope_ok s" "\<And>i. collect_expr_refs (f i) = [i]"
  shows "yields (do { (i, s) \<leftarrow> resolve_input src vn s; Some (f i, s) }) (advanced refs_in s)"
  by (rule yields_bind, rule yields_mono[OF resolve_input_step[OF assms(1)]])
    (use assms(2) in \<open>auto simp: yields_def advanced_def refs_in_def\<close>)

lemma bin_expr_step:
  assumes "scope_ok s"
  shows "yields (bin_expr src k l r s) (advanced refs_in s)"
  unfolding bin_expr_def
proof (rule advanced_bind[OF resolve_input_step[OF assms]])
  fix i s' assume s': "scope_ok s'" "in_table (vars (fst s')) i"
  show "yields (case (i, s') of (l, s) \<Rightarrow> Option.bind (resolve_input src r s) (\<lambda>(r, s). Some (EBinOp k l r, s))) (advanced refs_in s')"
    unfolding prod.case
    by (rule yields_bind, rule yields_mono[OF resolve_input_step[OF s'(1)]])
      (use s' in_table_grows in \<open>auto simp: yields_def advanced_def refs_in_def\<close>)
qed

lemma subpiece_expr_step:
  assumes "scope_ok s"
  shows "yields (subpiece_expr src vn lsb s) (advanced refs_in s)"
  unfolding subpiece_expr_def
proof (rule advanced_bind[OF resolve_input_step[OF assms]])
  fix i s' assume ok: "scope_ok s'" "in_table (vars (fst s')) i"
  obtain ssa m where s': "s' = (ssa, m)" by fastforce
  obtain sh ssa1 where n: "new_var src (constant_vn (ucast lsb * 8) 4) (EConst (ucast lsb * 8) 4) 4 ssa = (sh, ssa1)"
    by fastforce
  note g = new_var_scope[OF n ok(1)[unfolded s'], simplified]
  have "yields (update_var sh set_synthetic ssa1) (\<lambda>ssa2. advanced refs_in s' (EBinOp BLsr i sh, ssa2, m))"
    by (rule update_var_step[OF g(1) scope_ok_table[OF g(2)] g(3)])
      (use g ok in \<open>auto simp: advanced_def s' in_table_def grows_def refs_in_def intro!: scope_ok_grows[OF ok(1)[unfolded s']]\<close>)
  then show "yields (case (i, s') of (i, ssa, current) \<Rightarrow> if lsb = 0 then Some (EVar i, ssa, current)
      else let amount = ucast lsb * 8; (shift, ssa) = new_var src (constant_vn amount 4) (EConst amount 4) 4 ssa
           in update_var shift set_synthetic ssa \<bind> (\<lambda>ssa. Some (EBinOp BLsr i shift, ssa, current))) (advanced refs_in s')"
    using ok by (auto simp: s' n Let_def yields_def advanced_def refs_in_def)
qed

lemma no_lowering_step: "scope_ok s \<Longrightarrow> advanced refs_in s (no_lowering op s)"
  by (force simp: advanced_def no_lowering_def refs_in_def scope_ok_def split: prod.splits)

lemma build_expr_step:
  assumes "scope_ok s"
  shows "yields (build_expr src op s) (advanced refs_in s)"
proof -
  have x: "yields (xor_expr src out l r s) (advanced refs_in s)" for out l r
    using bin_expr_step[OF assms] assms by (auto simp: xor_expr_def yields_Some advanced_def refs_in_def)
  have u: "yields (unary_expr src k i s) (advanced refs_in s)" for k i
    unfolding unary_expr_def by (rule unary_step[OF assms]) simp
  have c: "yields (Option.bind (resolve_inputs src vns s) (\<lambda>(is, s). Some (EUserOp f is, s))) (advanced refs_in s)" for f vns
    by (rule yields_bind, rule yields_mono[OF resolve_inputs_step[OF assms]])
      (auto simp: yields_def advanced_def refs_in_def)
  show ?thesis
    by (cases op) (simp_all only: build_expr.simps, simp_all add: assms bin_expr_step subpiece_expr_step x u c
        yields_Some no_lowering_step unary_step)
qed

lemma float_size_yields: "refs_in vs e \<Longrightarrow> yields (float_semantic_size e vs) (\<lambda>_. True)"
  by (auto simp: float_semantic_size_def refs_in_def in_table_def vec_get_def yields_def split: Expr.splits)


subsection \<open>Statements\<close>

primrec def_of :: "Stmt \<Rightarrow> VarId list" where
  "def_of (Assign i) = [i]"
| "def_of (StoreStmt addr val) = [val]"
| "def_of (CallStmt target args out) = (case out of Some i \<Rightarrow> [i] | None \<Rightarrow> [])"

definition defs_of :: "Stmt list \<Rightarrow> VarId list" where
  "defs_of ss = concat (map def_of ss)"

lemma defs_of_simps [simp]: "defs_of [] = []" "defs_of (s # ss) = def_of s @ defs_of ss"
  "defs_of (ss @ ts) = defs_of ss @ defs_of ts"
  by (simp_all add: defs_of_def)

primrec is_copy :: "Expr \<Rightarrow> bool" where
  "is_copy (EVar i) = True"
| "is_copy (EConst c s) = False"
| "is_copy (EBinOp k l r) = False"
| "is_copy (EUnaryOp k i) = False"
| "is_copy (ELoad i) = False"
| "is_copy (EFieldAccess i off) = False"
| "is_copy (EPhi inputs) = False"
| "is_copy (ETernary c t e) = False"
| "is_copy (EUserOp i inputs) = False"
| "is_copy EUnknown = False"

definition stmt_ok :: "VarDef list \<Rightarrow> Stmt \<Rightarrow> bool" where
  "stmt_ok vs s \<longleftrightarrow> all_in vs (def_of s) \<and> all_in vs (stmt_refs s) \<and> (\<forall>t args out. s \<noteq> CallStmt t args out)"

definition store_copies :: "VarDef list \<Rightarrow> Stmt list \<Rightarrow> bool" where
  "store_copies vs ss \<longleftrightarrow> (\<forall>a v. StoreStmt a v \<in> set ss \<longrightarrow> is_copy (expr (vs ! unat v)))"

text \<open>
  Statements emitted between \<open>base\<close> and \<open>ssa\<close>. While the table fits, what they define are
  different variables made in between, and every store has a copy of its own.
\<close>

definition emitted :: "SsaCfg \<Rightarrow> SsaCfg \<Rightarrow> Stmt list \<Rightarrow> bool" where
  "emitted base ssa ss \<longleftrightarrow> list_all (stmt_ok (vars ssa)) ss \<and> (\<forall>i \<in> set (defs_of ss). fresh base ssa i) \<and>
     (length (vars ssa) \<le> 2 ^ 32 \<longrightarrow> distinct (defs_of ss) \<and> store_copies (vars ssa) ss)"

lemma stmt_ok_grows: "stmt_ok (vars ssa) s \<Longrightarrow> grows ssa ssa' \<Longrightarrow> stmt_ok (vars ssa') s"
  using all_in_grows[of ssa _ ssa'] by (auto simp: stmt_ok_def)

lemma grows_nth: "grows ssa ssa' \<Longrightarrow> length (vars ssa') \<le> 2 ^ 32 \<Longrightarrow> k < length (vars ssa) \<Longrightarrow> vars ssa' ! k = vars ssa ! k"
  unfolding grows_def by (metis nth_take)

lemma store_copies_grows:
  assumes "store_copies (vars ssa) ss" "list_all (stmt_ok (vars ssa)) ss" "grows ssa ssa'" "length (vars ssa') \<le> 2 ^ 32"
  shows "store_copies (vars ssa') ss"
  unfolding store_copies_def
proof (intro allI impI)
  fix a v assume v: "StoreStmt a v \<in> set ss"
  then have "unat v < length (vars ssa)"
    using assms(2) by (fastforce simp: list_all_iff stmt_ok_def in_table_def)
  with assms(1) v show "is_copy (expr (vars ssa' ! unat v))"
    unfolding store_copies_def grows_nth[OF assms(3,4) \<open>unat v < _\<close>] by blast
qed

lemma emitted_grows: "emitted base ssa ss \<Longrightarrow> grows ssa ssa' \<Longrightarrow> emitted base ssa' ss"
  unfolding emitted_def
  using stmt_ok_grows fresh_grows store_copies_grows by (auto simp: list_all_iff grows_def)

lemma emitted_base: "emitted b ssa ss \<Longrightarrow> grows a b \<Longrightarrow> emitted a ssa ss"
  unfolding emitted_def using fresh_base by blast

lemma emitted_Nil [simp]: "emitted base ssa []"
  by (simp add: emitted_def store_copies_def)

lemma emitted_append:
  assumes "emitted base mid ss" "emitted mid ssa ts" "grows mid ssa" "grows base mid"
  shows "emitted base ssa (ss @ ts)"
proof -
  have 1: "emitted base ssa ss" and 2: "emitted base ssa ts"
    using assms emitted_grows emitted_base by blast+
  have "i \<noteq> j" if "i \<in> set (defs_of ss)" "j \<in> set (defs_of ts)" "length (vars ssa) \<le> 2 ^ 32" for i j
  proof -
    have "unat i < length (vars mid)"
      using assms(1) that(1) fresh_in_table by (auto simp: emitted_def in_table_def)
    moreover have "length (vars mid) \<le> unat j"
      using assms(2) that(2,3) fresh_small by (auto simp: emitted_def)
    ultimately show ?thesis by auto
  qed
  with 1 2 show ?thesis
    unfolding emitted_def store_copies_def by (auto simp: list_all_iff)
qed

subsection \<open>Operations\<close>

definition ssa_of :: "work \<Rightarrow> SsaCfg" where
  "ssa_of w = fst (fst w)"

definition continues :: "work \<Rightarrow> work \<Rightarrow> bool" where
  "continues w w' \<longleftrightarrow> scope_ok (fst w') \<and> grows (ssa_of w) (ssa_of w') \<and>
     (\<exists>new. snd w' = snd w @ new \<and> emitted (ssa_of w) (ssa_of w') new)"

lemma continues_refl: "scope_ok (fst w) \<Longrightarrow> continues w w"
  by (auto simp: continues_def)

lemma continues_trans:
  assumes "continues a b" "continues b c"
  shows "continues a c"
proof -
  from assms obtain n1 n2 where n: "snd b = snd a @ n1" "snd c = snd b @ n2"
    "emitted (ssa_of a) (ssa_of b) n1" "emitted (ssa_of b) (ssa_of c) n2"
    by (auto simp: continues_def)
  with assms emitted_append[OF n(3,4)] show ?thesis
    unfolding continues_def using grows_trans by auto
qed

lemma continues_bind:
  assumes "yields m (continues w)" "\<And>w'. scope_ok (fst w') \<Longrightarrow> yields (f w') (continues w')"
  shows "yields (Option.bind m f) (continues w)"
proof -
  from assms(1) obtain w' where w: "m = Some w'" "continues w w'" by (auto simp: yields_def)
  then have "scope_ok (fst w')" by (simp add: continues_def)
  from yields_mono[OF assms(2)[OF this] continues_trans[OF w(2)]] w(1) show ?thesis by simp
qed

end
