(* ===== verification/SsaSteps.thy ===== *)
theory SsaSteps
  imports SsaOps
begin

text \<open>
  Every step of the translation of a block keeps the invariants of the previous theory:
  \<open>process_op\<close>, the instruction patterns, and the conversion of terminators with the
  clobbering of registers by calls.
\<close>

subsection \<open>Writes\<close>

lemma in_table_update [simp]: "in_table (vs[k := v]) i = in_table vs i"
  by (simp add: in_table_def)

lemma all_in_update [simp]: "all_in (vs[k := v]) is = all_in vs is"
  by (simp add: all_in_def)

lemma var_mut_in: "in_table (vars ssa) i \<Longrightarrow>
    var_mut ssa i f = ssa\<lparr>vars := (vars ssa)[unat i := f (vars ssa ! unat i)]\<rparr>"
  by (simp add: var_mut_def in_table_def grow_vars_id Let_def)

text \<open>A new variable that is then written through \<open>var_mut\<close>.\<close>

lemma var_mut_scope:
  assumes "grows base ssa" "scope_ok (ssa, m)" "fresh base ssa i" "safe_write f"
  shows "grows base (var_mut ssa i f)" "scope_ok (var_mut ssa i f, m)" "fresh base (var_mut ssa i f) i"
    "in_table (vars (var_mut ssa i f)) = in_table (vars ssa)"
    "map expr (vars (var_mut ssa i f)) = map expr (vars ssa)"
proof -
  have i: "in_table (vars ssa) i" by (rule fresh_in_table[OF assms(3)])
  note u = update_table[OF assms(1) scope_ok_table[OF assms(2)] assms(3,4)]
  note v = var_mut_in[OF i, of f]
  show "grows base (var_mut ssa i f)" using u v by simp
  show "scope_ok (var_mut ssa i f, m)" using u v assms(2) by (auto simp: scope_ok_def)
  show "fresh base (var_mut ssa i f) i" using v assms(3) by (auto simp: fresh_def)
  show "in_table (vars (var_mut ssa i f)) = in_table (vars ssa)" using v by (simp add: fun_eq_iff)
  show "map expr (vars (var_mut ssa i f)) = map expr (vars ssa)"
    using v i assms(4)
    by (intro nth_equalityI) (auto simp: nth_list_update safe_write_def keeps_expr_def in_table_def)
qed

lemma update_var_scope:
  assumes "grows base ssa" "scope_ok (ssa, m)" "fresh base ssa i" "safe_write f"
    and "\<And>ssa'. grows base ssa' \<Longrightarrow> scope_ok (ssa', m) \<Longrightarrow> length (vars ssa') = length (vars ssa) \<Longrightarrow>
      ssa_blocks ssa' = ssa_blocks ssa \<Longrightarrow> P ssa'"
  shows "yields (update_var i f ssa) P"
  by (rule update_var_step[OF assms(1) scope_ok_table[OF assms(2)] assms(3,4)])
    (use assms(2,5) in \<open>auto simp: scope_ok_def in_table_def\<close>)

lemma mark_synthetic_scope:
  "grows base ssa \<Longrightarrow> scope_ok (ssa, m) \<Longrightarrow> \<forall>i \<in> set is. fresh base ssa i \<Longrightarrow>
    yields (mark_synthetic is ssa) (\<lambda>ssa'. grows base ssa' \<and> scope_ok (ssa', m) \<and>
      length (vars ssa') = length (vars ssa) \<and> ssa_blocks ssa' = ssa_blocks ssa)"
proof (induction "is" arbitrary: ssa)
  case Nil
  then show ?case by (simp add: yields_def)
next
  case (Cons i "is")
  show ?case
    unfolding mark_synthetic.simps
  proof (rule yields_bind, rule update_var_scope[OF Cons.prems(1,2)])
    fix ssa' assume a: "grows base ssa'" "scope_ok (ssa', m)" "length (vars ssa') = length (vars ssa)"
      "ssa_blocks ssa' = ssa_blocks ssa"
    then have "\<forall>i \<in> set is. fresh base ssa' i" using Cons.prems(3) by (simp add: fresh_def)
    from Cons.IH[OF a(1,2) this] a(3,4)
    show "yields (mark_synthetic is ssa') (\<lambda>ssa'. grows base ssa' \<and> scope_ok (ssa', m) \<and>
        length (vars ssa') = length (vars ssa) \<and> ssa_blocks ssa' = ssa_blocks ssa)" by simp
  qed (use Cons.prems in simp_all)
qed

definition keeps_scope :: "scope \<Rightarrow> scope \<Rightarrow> bool" where
  "keeps_scope s s' \<longleftrightarrow> scope_ok s' \<and> grows (fst s) (fst s')"

lemma in_table_snoc: "in_table vs i \<Longrightarrow> in_table (vs @ ws) i"
  by (simp add: in_table_def)

lemma grows_length: "grows a b \<Longrightarrow> length (vars a) \<le> length (vars b)"
  by (simp add: grows_def)

lemma merge_parent_step:
  assumes "scope_ok s" "in_table (vars (fst s)) i"
  shows "yields (merge_parent src out i parent s) (keeps_scope s)"
proof -
  obtain ssa m where s: "s = (ssa, m)" by fastforce
  note ok = assms(1)[unfolded s] and i = assms(2)[unfolded s fst_conv]
  let ?vn = "reg_sub out parent" and ?mask = "high_mask parent (vsize out)"
  have "yields (merge_parent src out i parent s) (keeps_scope s)"
    if "\<not> parent \<le> vsize out" and old: "map_of m ?vn = Some old" for old
  proof -
    obtain k ssa1 where n1: "new_var src (constant_vn ?mask parent) (EConst ?mask parent) parent ssa = (k, ssa1)" by fastforce
    note g1 = new_var_scope[OF n1 ok, simplified]
    obtain h ssa2 where n2: "new_var src ?vn (EBinOp BAnd old k) parent ssa1 = (h, ssa2)" by fastforce
    note g2 = new_var_scope[OF n2 g1(2), simplified, OF conjI, OF in_table_grows[OF scope_ok_lookup[OF ok old] g1(1)] g1(4)]
    obtain z ssa3 where n3: "new_var src ?vn (EUnaryOp UZext i) parent ssa2 = (z, ssa3)" by fastforce
    note g3 = new_var_scope[OF n3 g2(2), simplified, OF in_table_grows[OF i grows_trans[OF g1(1) g2(1)]]]
    obtain r ssa4 where n4: "new_var src ?vn (EBinOp BOr h z) parent ssa3 = (r, ssa4)" by fastforce
    note g4 = new_var_scope[OF n4 g3(2), simplified, OF conjI, OF in_table_grows[OF g2(4) g3(1)] g3(4)]
    have g24: "grows ssa2 ssa4" and g13: "grows ssa ssa2" by (rule grows_trans, fact, fact)+
    then have g14: "grows ssa1 ssa4" and g03: "grows ssa ssa3" using g2(1) g3(1) grows_trans by blast+
    have g: "grows ssa ssa4" by (rule grows_trans[OF g03 g4(1)])
    have f: "\<forall>j \<in> set [k, h, z, r]. fresh ssa ssa4 j"
      using fresh_grows[OF g1(3) g14] fresh_grows[OF fresh_base[OF g2(3) g1(1)] g24]
        fresh_grows[OF fresh_base[OF g3(3) g13] g4(1)] fresh_base[OF g4(3) g03] by simp
    have r: "in_table (vars ssa4) r" by (rule g4(4))
    have "yields (mark_synthetic [k, h, z, r] ssa4) (\<lambda>ssa'. keeps_scope s (ssa', map_insert ?vn r m))"
      by (rule yields_mono[OF mark_synthetic_scope[OF g g4(2) f]])
        (use r in \<open>auto simp: keeps_scope_def s in_table_def intro!: scope_ok_insert\<close>)
    then have "yields (Option.bind (mark_synthetic [k, h, z, r] ssa4) (\<lambda>ssa'. Some (ssa', map_insert ?vn r m))) (keeps_scope s)"
      by (intro yields_bind) (erule yields_mono, rule yields_Some)
    with that show ?thesis
      by (simp add: merge_parent_def s Let_def n1 n2 n3 n4)
  qed
  then show ?thesis
    using ok by (auto simp: merge_parent_def s yields_def keeps_scope_def Let_def split: option.splits)
qed

lemma propagate_write_step:
  assumes "scope_ok s" "in_table (vars (fst s)) i"
  shows "yields (propagate_write src out i s) (keeps_scope s)"
proof -
  obtain ssa m where s: "s = (ssa, m)" by fastforce
  define m' where "m' = (let m = map_insert out i m in if space out = Register \<and> vsize out = 8
     then map_insert (reg_sub out 4) i m else m)"
  have ok: "scope_ok (ssa, m')"
    using assms by (auto simp: m'_def Let_def s intro!: scope_ok_insert)
  have "yields (Option.bind (merge_parent src out i 4 (ssa, m')) (merge_parent src out i 8)) (keeps_scope s)"
  proof (rule yields_bind, rule yields_mono[OF merge_parent_step[OF ok]])
    show "in_table (vars (fst (ssa, m'))) i" using assms by (simp add: s)
    fix s' assume k: "keeps_scope (ssa, m') s'"
    then have "in_table (vars (fst s')) i" "scope_ok s'"
      using assms in_table_grows by (auto simp: keeps_scope_def s)
    with k show "yields (merge_parent src out i 8 s') (keeps_scope s)"
      by (rule_tac yields_mono[OF merge_parent_step[OF \<open>scope_ok s'\<close> \<open>in_table (vars (fst s')) i\<close>]])
        (auto simp: keeps_scope_def s intro: grows_trans)
  qed
  then show ?thesis
    using ok by (auto simp: propagate_write_def s Let_def m'_def yields_def keeps_scope_def)
qed


lemma emitted_one:
  assumes "fresh base ssa i" "stmt_ok (vars ssa) s" "def_of s = [i]"
    "\<And>a. s = StoreStmt a i \<Longrightarrow> length (vars ssa) \<le> 2 ^ 32 \<Longrightarrow> is_copy (expr (vars ssa ! unat i))"
  shows "emitted base ssa [s]"
  using assms by (cases s) (auto simp: emitted_def store_copies_def)

lemma continues_emit:
  assumes "scope_ok s" "grows (fst (fst w)) (fst s)" "emitted (fst (fst w)) (fst s) new"
  shows "continues w (s, snd w @ new)"
  using assms by (auto simp: continues_def ssa_of_def)

lemma process_user_op_step:
  assumes "scope_ok (fst w)"
  shows "yields (process_user_op src f inputs w) (continues w)"
proof -
  obtain s ss where w: "w = (s, ss)" by fastforce
  have "yields (Option.bind (resolve_inputs src inputs s) (\<lambda>(resolved, ssa, current).
       let (i, ssa) = new_var src (unique (- 1 - f) 0) (EUserOp f resolved) 0 ssa in Some ((ssa, current), ss @ [Assign i])))
     (continues w)"
  proof (rule yields_bind, rule yields_mono[OF resolve_inputs_step])
    fix r assume "advanced all_in s r"
    then obtain "is" ssa m where r: "r = (is, ssa, m)" "scope_ok (ssa, m)" "grows (fst s) ssa" "all_in (vars ssa) is"
      by (cases r) (auto simp: advanced_def)
    obtain i ssa1 where n: "new_var src (unique (- 1 - f) 0) (EUserOp f is) 0 ssa = (i, ssa1)" by fastforce
    have all: "\<forall>j \<in> set (collect_expr_refs (EUserOp f is)). in_table (vars ssa) j"
      using r(4) by (simp add: all_in_def)
    note g = new_var_scope[OF n r(2) all]
    have e: "emitted (fst s) ssa1 [Assign i]"
      by (rule emitted_one) (use g fresh_base[OF g(3) r(3)] in \<open>simp_all add: stmt_ok_def stmt_refs_def\<close>)
    have "continues w ((ssa1, m), snd w @ [Assign i])"
      by (rule continues_emit) (use g e grows_trans[OF r(3) g(1)] in \<open>simp_all add: w\<close>)
    then show "yields (case r of (resolved, ssa, current) \<Rightarrow> let (i, ssa) = new_var src (unique (- 1 - f) 0) (EUserOp f resolved) 0 ssa
        in Some ((ssa, current), ss @ [Assign i])) (continues w)"
      by (simp add: r n w yields_Some)
  qed (use assms w in simp)
  then show ?thesis by (simp add: process_user_op_def w)
qed

lemma process_value_step:
  assumes "scope_ok (fst w)"
  shows "yields (process_value src op out w) (continues w)"
proof -
  obtain s ss where w: "w = (s, ss)" by fastforce
  have ok: "scope_ok s" using assms w by simp
  from build_expr_step[OF ok, of src op] obtain e ssa m where
    b: "build_expr src op s = Some (e, ssa, m)" "scope_ok (ssa, m)" "grows (fst s) ssa" "refs_in (vars ssa) e"
    by (auto simp: yields_def advanced_def)
  from float_size_yields[OF b(4)] obtain sem where fs: "float_semantic_size e (vars ssa) = Some sem"
    by (auto simp: yields_def)
  define sz where "sz = (case sem of Some n \<Rightarrow> n | None \<Rightarrow> vsize out)"
  obtain i ssa1 where n: "new_var src out e sz ssa = (i, ssa1)" by fastforce
  have all: "\<forall>j \<in> set (collect_expr_refs e). in_table (vars ssa) j"
    using b(4) by (simp add: refs_in_def all_in_def)
  note g1 = new_var_scope[OF n b(2) all]
  define ssa2 where "ssa2 = (case load_access_of op of Some a \<Rightarrow> var_mut ssa1 i (\<lambda>v. v\<lparr>memory := Some a\<rparr>) | None \<Rightarrow> ssa1)"
  have la: "safe_write (\<lambda>v. v\<lparr>memory := Some a\<rparr>)" if "load_access_of op = Some a" for a
    using that by (cases op) (auto simp: load_access_of_def safe_write_def keeps_expr_def entry_ok_def memory_ok_def)
  have g2: "grows ssa ssa2" "scope_ok (ssa2, m)" "fresh ssa ssa2 i" "in_table (vars ssa2) = in_table (vars ssa1)"
    using var_mut_scope[OF g1(1,2,3) la] g1 by (auto simp: ssa2_def split: option.splits)
  have i2: "in_table (vars ssa2) i" using g2(4) g1(4) by simp
  then have vg: "vec_get (vars ssa2) (unat i) = Some (vars ssa2 ! unat i)" by (simp add: in_table_def vec_get_def)
  let ?upd = "if expr (vars ssa2 ! unat i) = EUnknown then update_var i (attach src) ssa2 else Some ssa2"
  have upd: "yields ?upd (\<lambda>ssa3. grows ssa ssa3 \<and> scope_ok (ssa3, m) \<and> fresh ssa ssa3 i)"
  proof (cases "expr (vars ssa2 ! unat i) = EUnknown")
    case True
    have "yields (update_var i (attach src) ssa2) (\<lambda>ssa3. grows ssa ssa3 \<and> scope_ok (ssa3, m) \<and> fresh ssa ssa3 i)"
      by (rule update_var_scope[OF g2(1-3)]) (use g2(3) in \<open>simp_all add: fresh_def\<close>)
    with True show ?thesis by simp
  next
    case False
    then show ?thesis using g2 by (simp add: yields_Some)
  qed
  have last: "yields (propagate_write src out i (ssa3, m)) (\<lambda>s'. continues w (s', ss @ [Assign i]))"
    if "grows ssa ssa3" "scope_ok (ssa3, m)" "fresh ssa ssa3 i" for ssa3
  proof (rule yields_mono[OF propagate_write_step[OF that(2)]])
    show "in_table (vars (fst (ssa3, m))) i" using fresh_in_table[OF that(3)] by simp
    fix s' assume k: "keeps_scope (ssa3, m) s'"
    then have s': "scope_ok s'" "grows ssa3 (fst s')" by (simp_all add: keeps_scope_def)
    have f: "fresh (fst s) (fst s') i" by (rule fresh_grows[OF fresh_base[OF that(3) b(3)] s'(2)])
    have "emitted (fst s) (fst s') [Assign i]"
      by (rule emitted_one[OF f]) (use fresh_in_table[OF f] in \<open>simp_all add: stmt_ok_def stmt_refs_def\<close>)
    with continues_emit[OF s'(1), of w "[Assign i]"] grows_trans[OF b(3) grows_trans[OF that(1) s'(2)]] w
    show "continues w (s', ss @ [Assign i])" by simp
  qed
  have "yields (Option.bind ?upd (\<lambda>ssa3. Option.bind (propagate_write src out i (ssa3, m)) (\<lambda>s'. Some (s', ss @ [Assign i])))) (continues w)"
    by (intro yields_bind, rule yields_mono[OF upd], intro yields_bind, rule yields_mono[OF last])
      (auto intro: yields_Some)
  then show ?thesis
    by (cases "expr (vars ssa2 ! unat i) = EUnknown")
      (simp_all add: process_value_def w b fs n Let_def vg flip: sz_def ssa2_def)
qed


lemma process_store_step:
  assumes "scope_ok (fst w)"
  shows "yields (process_store src sp ptr val w) (continues w)"
proof -
  obtain s ss where w: "w = (s, ss)" by fastforce
  have "scope_ok s" using assms w by simp
  from resolve_input_step[OF this, of src ptr] obtain a s1 where
    a: "resolve_input src ptr s = Some (a, s1)" "scope_ok s1" "grows (fst s) (fst s1)" "in_table (vars (fst s1)) a"
    by (auto simp: yields_def advanced_def)
  from resolve_input_step[OF a(2), of src val] obtain v ssa m where
    v: "resolve_input src val s1 = Some (v, ssa, m)" "scope_ok (ssa, m)" "grows (fst s1) ssa" "in_table (vars ssa) v"
    by (auto simp: yields_def advanced_def)
  obtain i ssa1 where n: "new_var src (unique (0xF3000000 + of_nat (length (vars ssa))) (vsize val)) (EVar v) (vsize val) ssa = (i, ssa1)"
    by fastforce
  note g1 = new_var_scope[OF n v(2), simplified, OF v(4)]
  let ?f = "\<lambda>x. x\<lparr>origins := (origins_merge (origins x) (origins (ssa_var ssa1 a)))\<lparr>synthetic := True\<rparr>, memory := Some (StoreAccess sp)\<rparr>"
  have "safe_write ?f" by (auto simp: safe_write_def keeps_expr_def entry_ok_def memory_ok_def origins_merge_ops(1))
  note g2 = var_mut_scope[OF g1(1,2,3) this]
  have b: "grows (fst s) ssa" by (rule grows_trans[OF a(3) v(3)])
  have f: "fresh (fst s) (var_mut ssa1 i ?f) i" by (rule fresh_base[OF g2(3) b])
  have copy: "is_copy (expr (vars (var_mut ssa1 i ?f) ! unat i))" if "length (vars (var_mut ssa1 i ?f)) \<le> 2 ^ 32"
  proof -
    from new_var_fields[OF n] obtain d where d: "i = of_nat (length (vars ssa))" "vars ssa1 = vars ssa @ [d]" "expr d = EVar v"
      by blast
    have l: "length (vars (var_mut ssa1 i ?f)) = length (vars ssa1)" by (rule map_eq_imp_length_eq[OF g2(5)])
    then have u: "unat i = length (vars ssa)" using that d by (simp add: unat_of_nat)
    have "unat i < length (vars ssa1)" using u d(2) by simp
    then have "expr (vars (var_mut ssa1 i ?f) ! unat i) = expr (vars ssa1 ! unat i)"
      using nth_map[of "unat i" "vars ssa1" expr] nth_map[of "unat i" "vars (var_mut ssa1 i ?f)" expr] l
      by (simp only: g2(5))
    with u d show ?thesis by simp
  qed
  have "in_table (vars ssa1) a" using in_table_grows[OF in_table_grows[OF a(4) v(3)] g1(1)] .
  then have "emitted (fst s) (var_mut ssa1 i ?f) [StoreStmt a i]"
    using emitted_one[OF f, of "StoreStmt a i"] copy g1(4) g2(4) by (simp add: stmt_ok_def stmt_refs_def)
  with continues_emit[of "(var_mut ssa1 i ?f, m)" w] g2(2) grows_trans[OF b g2(1)]
  have "continues w ((var_mut ssa1 i ?f, m), ss @ [StoreStmt a i])" by (simp add: w)
  then show ?thesis
    by (simp add: process_store_def w a v n yields_Some Let_def)
qed

lemma process_op_step:
  assumes "scope_ok (fst w)"
  shows "yields (process_op op origin w) (continues w)"
proof -
  have "yields (case get_output op of Some out \<Rightarrow> process_value (Some origin) op out w | None \<Rightarrow> Some w) (continues w)"
    using process_value_step[OF assms] continues_refl[OF assms] by (auto simp: yields_Some split: option.splits)
  then show ?thesis
    using process_store_step[OF assms] process_user_op_step[OF assms]
    by (cases op) (simp_all add: process_op_def Let_def)
qed

subsection \<open>Instructions\<close>

lemma yields_continues: "yields m (continues b) \<Longrightarrow> continues a b \<Longrightarrow> yields m (continues a)"
  by (erule yields_mono) (rule continues_trans)

lemma process_ops_step: "scope_ok (fst w) \<Longrightarrow> yields (process_ops addr skip ds es w) (continues w)"
proof (induction es arbitrary: w)
  case (Cons e es)
  show ?case
    unfolding process_ops.simps
    by (intro continues_bind yields_if yields_Some continues_refl process_op_step Cons)
qed (simp add: yields_Some continues_refl)

definition deferred_in :: "work \<Rightarrow> deferred \<Rightarrow> bool" where
  "deferred_in w ds \<longleftrightarrow> (\<forall>d \<in> set ds. in_table (vars (ssa_of w)) (snd d))"

lemma deferred_in_continues: "deferred_in w ds \<Longrightarrow> continues w w' \<Longrightarrow> deferred_in w' ds"
  using in_table_grows by (auto simp: deferred_in_def continues_def)

lemma defer_zexts_step:
  "scope_ok (fst w) \<Longrightarrow> deferred_in w ds \<Longrightarrow>
   yields (defer_zexts addr i ops (w, ds)) (\<lambda>r. continues w (fst r) \<and> deferred_in (fst r) (snd r))"
proof (induction ops arbitrary: i w ds)
  case Nil
  then show ?case by (simp add: yields_Some continues_refl)
next
  case (Cons op ops)
  obtain s ss where w: "w = (s, ss)" by fastforce
  let ?Q = "\<lambda>r. continues w (fst r) \<and> deferred_in (fst r) (snd r)"
  let ?src = "Some (inst_origin addr i)"
  have zext: "yields (do {
            (input_var, ssa, current) \<leftarrow> resolve_input ?src input s;
            let (v, ssa) = new_var ?src out (EUnaryOp UZext input_var) (vsize out) ssa;
            Some (((ssa, current), ss @ [Assign v]), ds @ [(out, v)]) }) ?Q" for out input
  proof -
    from Cons.prems(1) resolve_input_step[of s ?src input] obtain v ssa m where
      v: "resolve_input ?src input s = Some (v, ssa, m)" "scope_ok (ssa, m)" "grows (fst s) ssa" "in_table (vars ssa) v"
      by (auto simp: yields_def advanced_def w)
    obtain k ssa1 where n: "new_var ?src out (EUnaryOp UZext v) (vsize out) ssa = (k, ssa1)" by fastforce
    note g = new_var_scope[OF n v(2), simplified, OF v(4)]
    have "emitted (fst s) ssa1 [Assign k]"
      by (rule emitted_one[OF fresh_base[OF g(3) v(3)]]) (use g in \<open>simp_all add: stmt_ok_def stmt_refs_def\<close>)
    with continues_emit[of "(ssa1, m)" w] g(2) grows_trans[OF v(3) g(1)]
    have c: "continues w ((ssa1, m), ss @ [Assign k])" by (simp add: w)
    with deferred_in_continues[OF Cons.prems(2) c] g(4) show ?thesis
      by (simp add: v n yields_Some deferred_in_def ssa_of_def)
  qed
  have "yields (case op of
        IntZext out input \<Rightarrow>
          if widens_in_place out input \<and> list_ex (\<lambda>later. reads_varnode later out) ops
          then (case (w, ds) of ((s, ss), ds) \<Rightarrow> do {
            (input_var, ssa, current) \<leftarrow> resolve_input ?src input s;
            let (v, ssa) = new_var ?src out (EUnaryOp UZext input_var) (vsize out) ssa;
            Some (((ssa, current), ss @ [Assign v]), ds @ [(out, v)])
          })
          else Some (w, ds)
      | _ \<Rightarrow> Some (w, ds)) ?Q"
    using zext Cons.prems by (cases op) (auto simp: w yields_Some continues_refl simp del: bind_eq_Some_conv)
  then show ?case
    unfolding defer_zexts.simps
  proof (rule yields_bind[OF yields_mono])
    fix r assume r: "continues w (fst r) \<and> deferred_in (fst r) (snd r)"
    then have "scope_ok (fst (fst r))" by (simp add: continues_def)
    from yields_mono[OF Cons.IH[OF this, of "snd r" "Suc i"]] r
    show "yields (defer_zexts addr (Suc i) ops r) ?Q"
      using continues_trans by (metis (no_types, lifting) prod.collapse)
  qed
qed


lemma select_merges_step:
  "scope_ok (fst w) \<Longrightarrow> in_table (vars (ssa_of w)) cond \<Longrightarrow> \<forall>e \<in> set es. in_table (vars (ssa_of w)) (snd e) \<Longrightarrow>
   yields (select_merges src origin cond es w) (continues w)"
proof (induction es arbitrary: w)
  case Nil
  then show ?case by (simp add: yields_Some continues_refl)
next
  case (Cons e es)
  obtain ssa m ss where w: "w = ((ssa, m), ss)" by (cases w) auto
  note ok = Cons.prems(1)[unfolded w fst_conv]
  have in3: "in_table (vars ssa) cond" "in_table (vars ssa) (snd e)" using Cons.prems by (auto simp: w ssa_of_def)
  have rest: "yields (select_merges src origin cond es w) (continues w)" using Cons by simp
  have "yields (do {
           let (i, ssa) = new_var src (fst e) (ETernary cond (snd e) v) (vsize (fst e)) ssa;
           ssa \<leftarrow> update_var i (\<lambda>v. v\<lparr>origins := origins_insert origin (origins v)\<rparr>) ssa;
           select_merges src origin cond es ((ssa, map_insert (fst e) i m), ss @ [Assign i]) }) (continues w)"
    if v: "map_of m (fst e) = Some v" for v
  proof -
    obtain i ssa1 where n: "new_var src (fst e) (ETernary cond (snd e) v) (vsize (fst e)) ssa = (i, ssa1)" by fastforce
    note g = new_var_scope[OF n ok, simplified, OF conjI[OF in3(1) conjI[OF in3(2) scope_ok_lookup[OF ok v]]]]
    have "yields (update_var i (\<lambda>v. v\<lparr>origins := origins_insert origin (origins v)\<rparr>) ssa1)
       (\<lambda>ssa2. yields (select_merges src origin cond es ((ssa2, map_insert (fst e) i m), ss @ [Assign i])) (continues w))"
    proof (rule update_var_scope[OF g(1,2,3)])
      fix ssa2 assume u: "grows ssa ssa2" "scope_ok (ssa2, m)" "length (vars ssa2) = length (vars ssa1)"
      let ?w = "((ssa2, map_insert (fst e) i m), ss @ [Assign i])"
      have i: "fresh ssa ssa2 i" using g(3) u(3) by (simp add: fresh_def)
      have "emitted ssa ssa2 [Assign i]"
        by (rule emitted_one[OF i]) (use fresh_in_table[OF i] in \<open>simp_all add: stmt_ok_def stmt_refs_def\<close>)
      with continues_emit[of "(ssa2, map_insert (fst e) i m)" w] u fresh_in_table[OF i]
      have c: "continues w ?w" by (simp add: w scope_ok_insert)
      have "scope_ok (fst ?w)" using u fresh_in_table[OF i] by (simp add: scope_ok_insert)
      moreover have "\<forall>e \<in> set es. in_table (vars (ssa_of ?w)) (snd e)" "in_table (vars (ssa_of ?w)) cond"
        using Cons.prems u(1) in_table_grows in3 by (auto simp: ssa_of_def w)
      ultimately show "yields (select_merges src origin cond es ?w) (continues w)"
        by (intro yields_continues[OF Cons.IH[of ?w] c])
    qed simp
    then show ?thesis by (simp add: n yields_bind)
  qed
  with rest show ?case by (auto simp: w split: option.splits)
qed

lemma fold_insert_scope:
  "scope_ok (ssa, m) \<Longrightarrow> \<forall>d \<in> set ds. in_table (vars ssa) (snd d) \<Longrightarrow>
   scope_ok (ssa, fold (\<lambda>d. map_insert (fst d) (snd d)) ds m)"
  by (induction ds arbitrary: m) (simp_all add: scope_ok_insert)

lemma cbranch_index_at:
  assumes "cbranch_index ops = Some cb"
  shows "Suc cb < length ops" "\<exists>vn. branch_cond (ops ! cb) = Some vn"
proof -
  let ?tw = "takeWhile (\<lambda>op. \<not> is_const_cbranch op) ops"
  have cb: "cb = length ?tw" "Suc cb < length ops"
    using assms by (auto simp: cbranch_index_def Let_def split: if_splits)
  then show "Suc cb < length ops" by simp
  have "is_const_cbranch (ops ! cb)" using nth_length_takeWhile[of "\<lambda>op. \<not> is_const_cbranch op" ops] cb by simp
  then show "\<exists>vn. branch_cond (ops ! cb) = Some vn"
    by (cases "ops ! cb") (auto simp: is_const_cbranch_def branch_cond_def)
qed

lemma process_select_step:
  assumes "scope_ok (fst w)" "cbranch_index ops = Some cb"
  shows "yields (process_select src addr skip ds ops cb w) (continues w)"
proof -
  from cbranch_index_at(2)[OF assms(2)] obtain vn where vn: "branch_cond (ops ! cb) = Some vn" by blast
  have tail: "yields (do {
     (cond, s) \<leftarrow> resolve_input (Some (inst_origin addr cb)) vn (fst w);
     let then_state = filter (\<lambda>e. space (fst e) = Unique) (snd s);
     let last_idx = length ops - 1;
     w \<leftarrow> process_ops addr [] [] (enumerate (cb + 1) (take (last_idx - (cb + 1)) (drop (cb + 1) ops))) (s, snd w);
     w \<leftarrow> select_merges src (inst_origin addr cb) cond (sort_key (\<lambda>e. vn_key (fst e)) then_state) w;
     process_op (ops ! last_idx) (inst_origin addr last_idx) w }) (continues w)" if ok: "scope_ok (fst w)" for w
  proof (rule yields_bind, rule yields_mono[OF resolve_input_step[OF ok]])
    fix r assume "advanced in_table (fst w) r"
    then obtain cond s where r: "r = (cond, s)" "scope_ok s" "grows (ssa_of w) (fst s)" "in_table (vars (fst s)) cond"
      by (cases r) (auto simp: advanced_def ssa_of_def)
    let ?w = "(s, snd w)"
    have c: "continues w ?w" using r by (auto simp: continues_def ssa_of_def)
    let ?ts = "sort_key (\<lambda>e. vn_key (fst e)) (filter (\<lambda>e. space (fst e) = Unique) (snd s))"
    have ts: "\<forall>e \<in> set ?ts. in_table (vars (fst s)) (snd e)" using r(2) by (simp add: scope_ok_def)
    have "yields (do {
       w \<leftarrow> process_ops addr [] [] (enumerate (cb + 1) (take (length ops - 1 - (cb + 1)) (drop (cb + 1) ops))) ?w;
       w \<leftarrow> select_merges src (inst_origin addr cb) cond ?ts w;
       process_op (ops ! (length ops - 1)) (inst_origin addr (length ops - 1)) w }) (continues ?w)"
    proof (rule yields_bind, rule yields_mono[OF process_ops_step])
      show "scope_ok (fst ?w)" using r by simp
      fix w2 assume c2: "continues ?w w2"
      then have g2: "grows (fst s) (ssa_of w2)" "scope_ok (fst w2)" by (simp_all add: continues_def ssa_of_def)
      have "yields (select_merges src (inst_origin addr cb) cond ?ts w2) (continues w2)"
        by (rule select_merges_step) (use g2 in_table_grows[OF _ g2(1)] r(4) ts in auto)
      then show "yields (select_merges src (inst_origin addr cb) cond ?ts w2 \<bind>
          process_op (ops ! (length ops - 1)) (inst_origin addr (length ops - 1))) (continues ?w)"
        by (intro yields_continues[OF _ c2] continues_bind process_op_step)
    qed
    from yields_continues[OF this c]
    show "yields (case r of (cond, s) \<Rightarrow>
       let then_state = filter (\<lambda>e. space (fst e) = Unique) (snd s); last_idx = length ops - 1
       in process_ops addr [] [] (enumerate (cb + 1) (take (last_idx - (cb + 1)) (drop (cb + 1) ops))) (s, snd w) \<bind>
          (\<lambda>w. select_merges src (inst_origin addr cb) cond (sort_key (\<lambda>e. vn_key (fst e)) then_state) w \<bind>
               process_op (ops ! last_idx) (inst_origin addr last_idx))) (continues w)"
      by (simp add: r(1) Let_def)
  qed
  show ?thesis
    unfolding process_select_def vn bind.bind_lunit
    by (rule continues_bind[OF process_ops_step[OF assms(1)]]) (rule tail)
qed

lemma process_inst_step:
  assumes "scope_ok (fst w)"
  shows "yields (process_inst src addr ops w) (continues w)"
proof -
  from defer_zexts_step[OF assms, of "[]" addr 0 ops] obtain w1 ds where
    d: "defer_zexts addr 0 ops (w, []) = Some (w1, ds)" "continues w w1" "deferred_in w1 ds"
    by (auto simp: yields_def deferred_in_def)
  have ok: "scope_ok (fst w1)" using d(2) by (simp add: continues_def)
  let ?m = "case cbranch_index ops of
        Some cb \<Rightarrow> process_select src addr (skip_zero_copy ops) ds ops cb w1
      | None \<Rightarrow> process_ops addr (skip_zero_copy ops) ds (enumerate 0 ops) w1"
  have "yields ?m (continues w1)"
    using process_ops_step[OF ok] process_select_step[OF ok] by (auto split: option.splits)
  then obtain ssa m ss where r: "?m = Some ((ssa, m), ss)" "continues w1 ((ssa, m), ss)"
    by (auto simp: yields_def)
  have "scope_ok (ssa, fold (\<lambda>d. map_insert (fst d) (snd d)) ds m)"
    by (rule fold_insert_scope) (use r(2) deferred_in_continues[OF d(3) r(2)] in \<open>auto simp: continues_def deferred_in_def ssa_of_def\<close>)
  with r(2) have "continues w1 ((ssa, fold (\<lambda>d. map_insert (fst d) (snd d)) ds m), ss)"
    by (simp add: continues_def ssa_of_def)
  with continues_trans[OF d(2)] d(1) r(1) show ?thesis
    by (simp add: process_inst_def yields_Some)
qed

lemma continues_bind':
  assumes "yields m (continues w)" "\<And>w'. m = Some w' \<Longrightarrow> scope_ok (fst w') \<Longrightarrow> yields (f w') (continues w')"
  shows "yields (Option.bind m f) (continues w)"
proof -
  from assms(1) obtain w' where w: "m = Some w'" "continues w w'" by (auto simp: yields_def)
  then have "scope_ok (fst w')" by (simp add: continues_def)
  from yields_continues[OF assms(2)[OF w(1) this] w(2)] w(1) show ?thesis by simp
qed

lemma process_block_ops_step: "scope_ok (fst w) \<Longrightarrow> yields (process_block_ops src ops w) (continues w)"
proof (induction src ops w rule: process_block_ops.induct)
  case (1 src w)
  then show ?case by (simp add: yields_Some continues_refl)
next
  case (2 src addr op ops w)
  show ?case
    unfolding process_block_ops.simps
    by (rule continues_bind'[OF process_inst_step[OF 2(2)]]) (rule 2(1))
qed

end
