(* ===== verification/SsaTerm.thy ===== *)
theory SsaTerm
  imports SsaSteps
begin

text \<open>
  The conversion of terminators keeps the invariants: a terminator names existing
  variables and the blocks of the graph's terminator, and a call replaces the registers it
  clobbers by new variables.
\<close>

subsection \<open>Terminators\<close>

definition frame_ok :: "VarDef list \<Rightarrow> SsaTerminator \<Rightarrow> bool" where
  "frame_ok vs t \<longleftrightarrow> all_in vs (terminator_refs t) \<and> out_of t = None"

lemma cookie_walk_yields:
  "vtable_ok vs \<Longrightarrow> in_table vs i \<Longrightarrow> \<exists>b. cookie_walk vs frame k i = Some b"
proof (induction k arbitrary: i)
  case (Suc k)
  have v: "vec_get vs (unat i) = Some (vs ! unat i)" "vs ! unat i \<in> set vs"
    using Suc.prems(2) by (simp_all add: in_table_def vec_get_def)
  then have refs: "\<forall>j \<in> set (collect_expr_refs (expr (vs ! unat i))). in_table vs j"
    using Suc.prems(1) by (simp add: vtable_ok_def)
  have f: "\<exists>b. is_frame_var vs frame j = Some b" if "in_table vs j" for j
    using that by (simp add: is_frame_var_def in_table_def vec_get_def)
  show ?case
  proof (cases "expr (vs ! unat i)")
    case (EVar inner)
    then show ?thesis using Suc.IH[of inner] Suc.prems(1) refs v by simp
  next
    case (EBinOp kind l r)
    then obtain a b where "is_frame_var vs frame l = Some a" "is_frame_var vs frame r = Some b"
      using f[of l] f[of r] refs by auto
    then show ?thesis using EBinOp v by auto
  qed (use v in auto)
qed auto

lemma is_stack_cookie_check_yields:
  assumes "scope_ok s"
  shows "\<exists>b. is_stack_cookie_check s cc = Some b"
  using assms cookie_walk_yields scope_ok_lookup
  by (cases s) (auto simp: is_stack_cookie_check_def scope_ok_def split: option.splits dest!: map_of_SomeD)

text \<open>A clobber is a new unknown variable that is marked and recorded.\<close>

lemma unknown_step:
  assumes "scope_ok (ssa, m)" "new_var src vn EUnknown sz ssa = (i, ssa1)" "safe_write f"
  shows "grows ssa (var_mut ssa1 i f)" "scope_ok (var_mut ssa1 i f, m)" "in_table (vars (var_mut ssa1 i f)) i"
    "fresh ssa (var_mut ssa1 i f) i"
proof -
  note g = new_var_scope[OF assms(2,1), simplified]
  note u = var_mut_scope[OF g(1,2,3) assms(3)]
  show "grows ssa (var_mut ssa1 i f)" "scope_ok (var_mut ssa1 i f, m)" "in_table (vars (var_mut ssa1 i f)) i"
    "fresh ssa (var_mut ssa1 i f) i"
    using u g(4) by auto
qed

lemma clobber_register_step:
  assumes "scope_ok s"
  shows "keeps_scope s (clobber_register src sz off s)"
proof -
  obtain ssa m where s: "s = (ssa, m)" by fastforce
  obtain i ssa1 where n: "new_var src (register off sz) EUnknown sz ssa = (i, ssa1)" by fastforce
  note u = unknown_step[OF assms[unfolded s] n, of "attach src", simplified]
  then show ?thesis
    by (auto simp: keeps_scope_def clobber_register_def s n Let_def intro!: scope_ok_insert)
qed

lemma clobber_unknown_step:
  assumes "scope_ok s"
  shows "keeps_scope s (clobber_unknown src vn s)"
proof -
  obtain ssa m where s: "s = (ssa, m)" by fastforce
  obtain i ssa1 where n: "new_var src vn EUnknown (vsize vn) ssa = (i, ssa1)" by fastforce
  note u = unknown_step[OF assms[unfolded s] n, of "attach src", simplified]
  then show ?thesis
    by (auto simp: keeps_scope_def clobber_unknown_def s n Let_def intro!: scope_ok_insert)
qed

lemma keeps_scope_fold:
  assumes "\<And>x s. scope_ok s \<Longrightarrow> keeps_scope s (f x s)"
  shows "scope_ok s \<Longrightarrow> keeps_scope s (fold f xs s)"
proof (induction xs arbitrary: s)
  case (Cons x xs)
  then have k: "keeps_scope s (f x s)" using assms by blast
  then have "keeps_scope (f x s) (fold f xs (f x s))" using Cons.IH by (simp add: keeps_scope_def)
  with k show ?case by (auto simp: keeps_scope_def intro: grows_trans)
qed (simp add: keeps_scope_def)

lemma emitted_unknown:
  assumes "fresh base ssa i"
  shows "emitted base ssa [Assign i]"
  by (rule emitted_one[OF assms]) (use fresh_in_table[OF assms] in \<open>simp_all add: stmt_ok_def stmt_refs_def\<close>)

lemma clobber_caller_saved_step:
  assumes "scope_ok (fst w)"
  shows "yields (clobber_caller_saved src cc w) (continues w)"
proof -
  obtain ssa m ss where w: "w = ((ssa, m), ss)" by (cases w) auto
  define m1 where "m1 = filter (\<lambda>e. \<not> (space (fst e) = Register \<and> offset (fst e) \<in> set (caller_saved_offsets cc))) m"
  define s2 where "s2 = fold (\<lambda>off s. if off = return_reg_offset cc then s else clobber_register src (return_reg_size cc) off s)
     (caller_saved_offsets cc) (ssa, m1)"
  have "scope_ok (ssa, m1)" using assms by (auto simp: w m1_def scope_ok_def)
  then have "keeps_scope (ssa, m1) s2"
    unfolding s2_def by (rule keeps_scope_fold[rotated]) (use clobber_register_step in \<open>auto simp: keeps_scope_def\<close>)
  moreover obtain ssa2 m2 where s2: "s2 = (ssa2, m2)" by fastforce
  ultimately have k: "scope_ok (ssa2, m2)" "grows ssa ssa2" by (simp_all add: keeps_scope_def)
  let ?vn = "register (return_reg_offset cc) (return_reg_size cc)"
  obtain i ssa3 where n: "new_var src ?vn EUnknown (return_reg_size cc) ssa2 = (i, ssa3)" by fastforce
  note g = new_var_scope[OF n k(1), simplified]
  define m3 where "m3 = (let m = map_insert ?vn i m2 in
     if return_reg_size cc = 8 then map_insert (register (return_reg_offset cc) 4) i m else m)"
  have "yields (update_var i (attach src \<circ> set_call_return) ssa3) (\<lambda>ssa4. continues w ((ssa4, m3), ss @ [Assign i]))"
  proof (rule update_var_scope[OF g(1,2,3)])
    fix ssa4 assume u: "grows ssa2 ssa4" "scope_ok (ssa4, m2)" "length (vars ssa4) = length (vars ssa3)"
    have i: "fresh ssa2 ssa4 i" using g(3) u(3) by (simp add: fresh_def)
    have "scope_ok (ssa4, m3)" using u(2) fresh_in_table[OF i] by (auto simp: m3_def Let_def intro!: scope_ok_insert)
    with continues_emit[of "(ssa4, m3)" w "[Assign i]"] emitted_unknown[OF fresh_base[OF i k(2)]] grows_trans[OF k(2) u(1)]
    show "continues w ((ssa4, m3), ss @ [Assign i])" by (simp add: w)
  qed simp
  from yields_bind[OF yields_mono[OF this yields_Some]]
  have "yields (Option.bind (update_var i (attach src \<circ> set_call_return) ssa3) (\<lambda>ssa. Some ((ssa, m3), ss @ [Assign i]))) (continues w)" .
  then show ?thesis
    unfolding clobber_caller_saved_def w prod.case Let_def m1_def[symmetric] s2_def[symmetric] s2 n m3_def .
qed

lemma clobber_all_step:
  assumes "scope_ok (fst w)"
  shows "continues w (clobber_all src rr w)"
proof -
  obtain ssa m ss where w: "w = ((ssa, m), ss)" by (cases w) auto
  obtain ssa1 m1 where f: "fold (clobber_unknown src) (live_registers m) (ssa, m) = (ssa1, m1)" by fastforce
  have "keeps_scope (ssa, m) (ssa1, m1)"
    using keeps_scope_fold[of "clobber_unknown src" "(ssa, m)" "live_registers m"] clobber_unknown_step assms f by (simp add: w)
  then have k: "scope_ok (ssa1, m1)" "grows ssa ssa1" by (simp_all add: keeps_scope_def)
  show ?thesis
  proof (cases rr)
    case None
    then show ?thesis using k by (auto simp: clobber_all_def w f continues_def ssa_of_def)
  next
    case (Some off)
    let ?sz = "if off = 8 then 4 else 8"
    obtain i ssa2 where n: "new_var src (register off ?sz) EUnknown ?sz ssa1 = (i, ssa2)" by fastforce
    note u = unknown_step[OF k(1) n, of "attach src \<circ> set_call_return", simplified]
    have "scope_ok (var_mut ssa2 i (attach src \<circ> set_call_return), map_insert (register off ?sz) i m1)"
      using u by (intro scope_ok_insert) auto
    with continues_emit[of "(var_mut ssa2 i (attach src \<circ> set_call_return), map_insert (register off ?sz) i m1)" w "[Assign i]"]
      emitted_unknown[OF fresh_base[OF u(4) k(2)]] grows_trans[OF k(2) u(1)]
    show ?thesis using n by (simp add: clobber_all_def w f Some Let_def)
  qed
qed

lemma convert_call_step:
  assumes "scope_ok (fst w)"
  shows "yields (convert_call src cc rr target w) (continues w)"
proof -
  obtain ssa m ss where w: "w = ((ssa, m), ss)" by (cases w) auto
  from is_stack_cookie_check_yields[OF assms] obtain cookie where
    c: "is_stack_cookie_check (ssa, m) cc = Some cookie" by (auto simp: w)
  define pres where "pres = (if cookie then preserved_return m else [])"
  define ssa1 where "ssa1 = (if cookie then cookie_diagnostic target ssa else ssa)"
  have d: "vars ssa1 = vars ssa" "grows ssa ssa1"
    by (auto simp: ssa1_def cookie_diagnostic_def split: CallTarget.splits)
  then have w1: "scope_ok (ssa1, m)" "continues w ((ssa1, m), ss)"
    using assms by (auto simp: w scope_ok_def continues_def ssa_of_def)
  have pres: "\<forall>d \<in> set pres. in_table (vars ssa) (snd d)"
    using assms by (auto simp: pres_def preserved_return_def w List.map_filter_def scope_ok_lookup)
  let ?m = "if rr = return_reg_int (abi cc) then clobber_caller_saved src cc ((ssa1, m), ss)
        else Some (clobber_all src rr ((ssa1, m), ss))"
  have "yields ?m (continues ((ssa1, m), ss))"
    using clobber_caller_saved_step[of "((ssa1, m), ss)"] clobber_all_step[of "((ssa1, m), ss)"] w1(1)
    by (auto intro: yields_Some)
  from yields_continues[OF this w1(2)] obtain ssa2 m2 ss2 where r: "?m = Some ((ssa2, m2), ss2)" "continues w ((ssa2, m2), ss2)"
    by (auto simp: yields_def)
  have "scope_ok (ssa2, fold (\<lambda>d. map_insert (fst d) (snd d)) pres m2)"
    by (rule fold_insert_scope)
      (use r(2) pres in_table_grows in \<open>auto simp: continues_def ssa_of_def w\<close>)
  with r(2) have "continues w ((ssa2, fold (\<lambda>d. map_insert (fst d) (snd d)) pres m2), ss2)"
    by (simp add: continues_def ssa_of_def)
  with r(1) show ?thesis
    by (simp add: convert_call_def w c Let_def yields_Some flip: pres_def ssa1_def split: if_splits)
qed

lemma return_value_yields:
  "scope_ok (ssa, m) \<Longrightarrow> yields (return_value ssa m vns) (\<lambda>r. all_in (vars ssa) (terminator_refs (SReturn r)))"
proof (induction vns)
  case (Cons vn vns)
  have i: "vec_get (vars ssa) (unat i) = Some (vars ssa ! unat i) \<and> in_table (vars ssa) i" if "map_of m vn = Some i" for i
    using scope_ok_lookup[OF Cons.prems that] by (simp add: in_table_def vec_get_def)
  with Cons show ?case
    by (auto simp: yields_Some terminator_refs_def split: option.splits)
qed (simp add: yields_Some terminator_refs_def)

text \<open>What \<open>convert_terminator\<close> makes of the graph's terminator.\<close>

primrec term_edges :: "SsaTerminator \<Rightarrow> BlockId list" where
  "term_edges (SFallthrough b) = [b]"
| "term_edges (SBranch b) = [b]"
| "term_edges (SCBranch cond taken fallthrough) = [taken, fallthrough]"
| "term_edges (SCall target args out fallthrough) = [fallthrough]"
| "term_edges (SReturn v) = []"
| "term_edges (SIndirect v) = []"

lemma convert_terminator_step:
  assumes "scope_ok (fst w)"
  shows "yields (convert_terminator src cc rr t w) (\<lambda>r. continues w (snd r) \<and>
    frame_ok (vars (ssa_of (snd r))) (fst r) \<and> term_edges (fst r) = term_succs t)"
proof -
  obtain ssa m ss where w: "w = ((ssa, m), ss)" by (cases w) auto
  have res: "\<exists>i s. resolve_input src vn (fst w) = Some (i, s) \<and> continues w (s, ss) \<and> in_table (vars (fst s)) i" for vn
    using resolve_input_step[OF assms, of src vn]
    by (auto simp: yields_def advanced_def continues_def ssa_of_def w)
  show ?thesis
  proof (cases t)
    case (TCBranch cond taken fallthrough)
    then show ?thesis using res[of cond] by (auto simp: yields_def frame_ok_def terminator_refs_def out_of_def ssa_of_def w)
  next
    case (TCall target fallthrough)
    then show ?thesis using convert_call_step[OF assms, of src cc rr target]
      by (auto simp: yields_def frame_ok_def terminator_refs_def out_of_def)
  next
    case TReturn
    then show ?thesis using return_value_yields[of ssa m "return_candidates rr"] assms continues_refl[OF assms]
      by (auto simp: yields_def frame_ok_def out_of_def ssa_of_def w)
  next
    case (TIndirect vn)
    then show ?thesis using res[of vn] by (auto simp: yields_def frame_ok_def terminator_refs_def out_of_def ssa_of_def w)
  qed (use continues_refl[OF assms] in \<open>simp_all add: yields_Some frame_ok_def terminator_refs_def out_of_def\<close>)
qed

end
