(* ===== verification/SsaPasses.thy ===== *)
theory SsaPasses
  imports SsaTerm CfgEdgesProps CfgBuildProps
begin

text \<open>
  The passes over the blocks and the insertion of phis never fail, and what they leave is a
  well-formed function: its blocks are those of the graph, with its edges, everything it
  names exists, and while the table fits into the identifiers no variable has two
  defining statements.
\<close>

subsection \<open>Blocks\<close>

definition block_ok :: "VarDef list \<Rightarrow> SsaBlock \<Rightarrow> bool" where
  "block_ok vs blk \<longleftrightarrow> list_all (stmt_ok vs) (stmts blk) \<and> frame_ok vs (ssa_terminator blk)"

definition block_defs :: "SsaBlock \<Rightarrow> VarId list" where
  "block_defs blk = defs_of (stmts blk)"

definition one_def :: "SsaBlock list \<Rightarrow> bool" where
  "one_def bs \<longleftrightarrow> (\<forall>k < length bs. distinct (block_defs (bs ! k))) \<and>
     (\<forall>k < length bs. \<forall>l < length bs. k \<noteq> l \<longrightarrow> set (block_defs (bs ! k)) \<inter> set (block_defs (bs ! l)) = {})"

text \<open>
  The form built so far: its blocks are the first ones of the graph, with its edges; while
  the table fits, no variable is defined twice and every store has a copy of its own.
\<close>

definition placed :: "Cfg \<Rightarrow> VarDef list \<Rightarrow> nat \<Rightarrow> SsaBlock \<Rightarrow> bool" where
  "placed cfg vs k blk \<longleftrightarrow> block_ok vs blk \<and> ssa_block_id blk = k \<and> ssa_block_addr blk = block_addr (blocks cfg ! k) \<and>
     term_edges (ssa_terminator blk) = succs_of cfg k"

definition single_defs :: "SsaCfg \<Rightarrow> bool" where
  "single_defs ssa \<longleftrightarrow> one_def (ssa_blocks ssa) \<and> list_all (\<lambda>blk. store_copies (vars ssa) (stmts blk)) (ssa_blocks ssa)"

definition form_ok :: "Cfg \<Rightarrow> SsaCfg \<Rightarrow> bool" where
  "form_ok cfg ssa \<longleftrightarrow> vtable_ok (vars ssa) \<and> length (ssa_blocks ssa) \<le> length (blocks cfg) \<and>
     (\<forall>k < length (ssa_blocks ssa). placed cfg (vars ssa) k (ssa_blocks ssa ! k)) \<and>
     (length (vars ssa) \<le> 2 ^ 32 \<longrightarrow> single_defs ssa)"

lemma all_nth_update:
  "\<forall>k < length xs. P k (xs ! k) \<Longrightarrow> P j y \<Longrightarrow> \<forall>k < length (xs[j := y]). P k (xs[j := y] ! k)"
  by (metis length_list_update nth_list_update_eq nth_list_update_neq)

lemma all_nth_append:
  "\<forall>k < length xs. P k (xs ! k) \<Longrightarrow> P (length xs) y \<Longrightarrow> \<forall>k < length (xs @ [y]). P k ((xs @ [y]) ! k)"
  by (simp add: nth_append less_Suc_eq)

lemma list_all_update: "list_all P xs \<Longrightarrow> P y \<Longrightarrow> list_all P (xs[j := y])"
  unfolding list_all_iff using set_update_subset_insert[of xs j y] by auto

lemma frame_ok_grows: "frame_ok (vars ssa) t \<Longrightarrow> grows ssa ssa' \<Longrightarrow> frame_ok (vars ssa') t"
  using all_in_grows[of ssa _ ssa'] by (auto simp: frame_ok_def)

lemma block_ok_grows: "block_ok (vars ssa) blk \<Longrightarrow> grows ssa ssa' \<Longrightarrow> block_ok (vars ssa') blk"
  using stmt_ok_grows frame_ok_grows by (auto simp: block_ok_def list_all_iff)

lemma block_defs_in: "block_ok vs blk \<Longrightarrow> i \<in> set (block_defs blk) \<Longrightarrow> unat i < length vs"
  by (force simp: block_ok_def block_defs_def defs_of_def list_all_iff stmt_ok_def all_in_def in_table_def)

text \<open>Replacing or appending the block that was translated.\<close>

lemma placed_grows: "placed cfg (vars ssa) k blk \<Longrightarrow> grows ssa ssa' \<Longrightarrow> placed cfg (vars ssa') k blk"
  using block_ok_grows by (auto simp: placed_def)

lemma form_blocks_ok: "form_ok cfg ssa \<Longrightarrow> blk \<in> set (ssa_blocks ssa) \<Longrightarrow> block_ok (vars ssa) blk"
  by (auto simp: form_ok_def placed_def in_set_conv_nth)

lemma form_ok_grows:
  assumes "form_ok cfg ssa" "grows ssa ssa'" "vtable_ok (vars ssa')"
  shows "form_ok cfg ssa'"
proof -
  have b: "ssa_blocks ssa' = ssa_blocks ssa" "length (vars ssa) \<le> length (vars ssa')"
    using assms(2) by (simp_all add: grows_def)
  have "single_defs ssa'" if s: "length (vars ssa') \<le> 2 ^ 32"
  proof -
    have o: "single_defs ssa" using assms(1) s b(2) by (simp add: form_ok_def)
    have "store_copies (vars ssa') (stmts blk)" if "blk \<in> set (ssa_blocks ssa)" for blk
      using o that form_blocks_ok[OF assms(1) that] store_copies_grows[OF _ _ assms(2) s]
      by (simp add: single_defs_def list_all_iff block_ok_def)
    with o b(1) show ?thesis by (simp add: single_defs_def list_all_iff)
  qed
  then show ?thesis
    using assms(1,3) b placed_grows[OF _ assms(2)] by (simp add: form_ok_def)
qed

lemma one_def_new:
  assumes "one_def bs" "distinct (block_defs blk)" "\<forall>l < length bs. l \<noteq> k \<longrightarrow> set (block_defs (bs ! l)) \<inter> set (block_defs blk) = {}"
  shows "one_def (bs[k := blk])" "k = length bs \<Longrightarrow> one_def (bs @ [blk])"
proof -
  have *: "set (block_defs blk) \<inter> set (block_defs (bs ! l)) = {}" if "l < length bs" "l \<noteq> k" for l
    using assms(3) that by blast
  show "one_def (bs[k := blk])"
    using assms * unfolding one_def_def by (cases "k < length bs") (simp_all add: nth_list_update list_update_beyond)
  show "one_def (bs @ [blk])" if "k = length bs"
    using assms * that unfolding one_def_def by (auto simp: nth_append less_Suc_eq)
qed


definition new_block :: "BasicBlock \<Rightarrow> Stmt list \<Rightarrow> SsaTerminator \<Rightarrow> SsaBlock" where
  "new_block blk ss t = \<lparr>ssa_block_id = block_id blk, ssa_block_addr = block_addr blk, stmts = ss, ssa_terminator = t\<rparr>"

lemma new_block_fields [simp]:
  "block_defs (new_block blk ss t) = defs_of ss" "stmts (new_block blk ss t) = ss"
  "ssa_terminator (new_block blk ss t) = t" "ssa_block_id (new_block blk ss t) = block_id blk"
  "ssa_block_addr (new_block blk ss t) = block_addr blk"
  by (simp_all add: new_block_def block_defs_def)

lemma translated_defs_disjoint:
  assumes "form_ok cfg ssa" "emitted ssa ssa' ss" "length (vars ssa') \<le> 2 ^ 32" "l < length (ssa_blocks ssa)"
  shows "set (block_defs (ssa_blocks ssa ! l)) \<inter> set (defs_of ss) = {}"
proof -
  have "unat i < length (vars ssa)" if "i \<in> set (block_defs (ssa_blocks ssa ! l))" for i
    using block_defs_in[OF form_blocks_ok[OF assms(1) nth_mem[OF assms(4)]] that] .
  moreover have "length (vars ssa) \<le> unat i" if "i \<in> set (defs_of ss)" for i
    using assms(2,3) fresh_small that by (auto simp: emitted_def)
  ultimately show ?thesis by fastforce
qed

lemma put_block_ok:
  assumes f: "form_ok cfg ssa" and c: "continues ((ssa, m0), []) ((ssa', m), ss)"
    and t: "frame_ok (vars ssa') t" "term_edges t = term_succs (terminator blk)"
    and k: "k < length (blocks cfg)" "blk = blocks cfg ! k" "block_id blk = k"
    and i: "if initial then length (ssa_blocks ssa) = k else k < length (ssa_blocks ssa)"
  shows "yields (put_block initial k blk ss t ssa') (\<lambda>ssa2. form_ok cfg ssa2 \<and> vars ssa2 = vars ssa' \<and>
    length (ssa_blocks ssa2) = (if initial then Suc k else length (ssa_blocks ssa)))"
proof -
  have g: "grows ssa ssa'" "vtable_ok (vars ssa')" "emitted ssa ssa' ss"
    using c by (auto simp: continues_def ssa_of_def scope_ok_def)
  then have b: "ssa_blocks ssa' = ssa_blocks ssa" by (simp add: grows_def)
  note f' = form_ok_grows[OF f g(1,2)]
  let ?blk = "new_block blk ss t"
  have blk: "placed cfg (vars ssa') k ?blk"
    using g(3) t k by (simp add: placed_def block_ok_def emitted_def succs_of_def)
  have d: "distinct (defs_of ss)" "store_copies (vars ssa') ss"
      "\<forall>l < length (ssa_blocks ssa). l \<noteq> k \<longrightarrow> set (block_defs (ssa_blocks ssa ! l)) \<inter> set (defs_of ss) = {}"
    if s: "length (vars ssa') \<le> 2 ^ 32"
    using g(3) s translated_defs_disjoint[OF f g(3) s] unfolding emitted_def by blast+
  show ?thesis
  proof (cases initial)
    case True
    with i have i: "length (ssa_blocks ssa) = k" by simp
    let ?ssa = "ssa'\<lparr>ssa_blocks := ssa_blocks ssa @ [?blk]\<rparr>"
    have "single_defs ?ssa" if s: "length (vars ssa') \<le> 2 ^ 32"
    proof -
      have o: "single_defs ssa'" using f' s by (simp add: form_ok_def)
      have "one_def (ssa_blocks ssa @ [?blk])"
        by (rule one_def_new(2)) (use o d[OF s] b i in \<open>simp_all add: single_defs_def\<close>)
      with o d(2)[OF s] b show ?thesis by (simp add: single_defs_def)
    qed
    moreover have "\<forall>l < length (ssa_blocks ?ssa). placed cfg (vars ssa') l (ssa_blocks ?ssa ! l)"
      using all_nth_append[of "ssa_blocks ssa" "placed cfg (vars ssa')" ?blk] f' blk i b by (simp add: form_ok_def)
    ultimately have "form_ok cfg ?ssa" using g(2) i k(1) by (simp add: form_ok_def)
    then show ?thesis using True i b by (simp add: put_block_def yields_Some new_block_def)
  next
    case False
    with i have i: "k < length (ssa_blocks ssa)" by simp
    let ?ssa = "ssa'\<lparr>ssa_blocks := (ssa_blocks ssa)[k := ?blk]\<rparr>"
    have old: "placed cfg (vars ssa') k (ssa_blocks ssa ! k)" using f' i b by (simp add: form_ok_def)
    then have old: "(ssa_blocks ssa ! k)\<lparr>stmts := ss, ssa_terminator := t\<rparr> = ?blk"
      using k by (cases "ssa_blocks ssa ! k") (simp add: placed_def new_block_def)
    have "single_defs ?ssa" if s: "length (vars ssa') \<le> 2 ^ 32"
    proof -
      have o: "single_defs ssa'" using f' s by (simp add: form_ok_def)
      have "one_def ((ssa_blocks ssa)[k := ?blk])"
        by (rule one_def_new(1)) (use o d[OF s] b in \<open>simp_all add: single_defs_def\<close>)
      with o d(2)[OF s] b show ?thesis by (simp add: single_defs_def list_all_update)
    qed
    moreover have "\<forall>l < length (ssa_blocks ?ssa). placed cfg (vars ssa') l (ssa_blocks ?ssa ! l)"
      using all_nth_update[of "ssa_blocks ssa" "placed cfg (vars ssa')" k ?blk] f' blk b by (simp add: form_ok_def)
    ultimately have "form_ok cfg ?ssa" using g(2) f' b by (simp add: form_ok_def)
    then show ?thesis using False i b old by (simp add: put_block_def yields_def vec_get_def)
  qed
qed

subsection \<open>Passes\<close>

definition maps_ok :: "VarDef list \<Rightarrow> varmap list \<Rightarrow> bool" where
  "maps_ok vs exits \<longleftrightarrow> (\<forall>m \<in> set exits. \<forall>e \<in> set m. in_table vs (snd e))"

definition env_ok :: "Cfg \<Rightarrow> build_env \<Rightarrow> bool" where
  "env_ok cfg e \<longleftrightarrow> preds_ok cfg (graph_preds e) \<and> ids_are_indices cfg"

definition passes_ok :: "Cfg \<Rightarrow> passes \<Rightarrow> bool" where
  "passes_ok cfg p \<longleftrightarrow> form_ok cfg (form p) \<and> length (exit_vars p) = length (blocks cfg) \<and>
     maps_ok (vars (form p)) (exit_vars p)"

lemma first_nonempty_yields:
  "\<forall>q \<in> set ps. q < length exits \<Longrightarrow> maps_ok vs exits \<Longrightarrow>
   yields (first_nonempty exits ps) (\<lambda>m. \<forall>e \<in> set m. in_table vs (snd e))"
proof (induction ps)
  case (Cons q ps)
  then have "exits ! q \<in> set exits" by simp
  with Cons show ?case by (auto simp: vec_get_def maps_ok_def intro!: yields_Some)
qed (simp add: yields_Some)

lemma inherited_yields:
  assumes "\<forall>q \<in> set preds. q < length exits" "maps_ok vs exits"
  shows "yields (inherited e exits b preds) (\<lambda>m. \<forall>x \<in> set m. in_table vs (snd x))"
  unfolding inherited_def
  by (rule yields_bind, rule yields_mono[OF first_nonempty_yields[OF _ assms(2)]])
    (use assms first_nonempty_yields[OF assms] in \<open>auto intro: yields_Some\<close>)

lemma ids_nth: "ids_are_indices cfg \<Longrightarrow> k < length (blocks cfg) \<Longrightarrow> block_id (blocks cfg ! k) = k"
  unfolding ids_are_indices_def by (metis add_0 nth_map nth_upt)

lemma preds_in_range:
  assumes "env_ok cfg e" "k < length (blocks cfg)"
  shows "vec_get (graph_preds e) k = Some (graph_preds e ! k)" "\<forall>q \<in> set (graph_preds e ! k). q < length (blocks cfg)"
  using assms by (auto simp: env_ok_def preds_ok_def vec_get_def)

lemma translate_block_yields:
  assumes "form_ok cfg ssa" "maps_ok (vars ssa) exits" "\<forall>q \<in> set preds. q < length exits"
  shows "yields (translate_block e exits blk preds ssa) (\<lambda>r. \<exists>m0. continues ((ssa, m0), []) (snd r) \<and>
    frame_ok (vars (ssa_of (snd r))) (fst r) \<and> term_edges (fst r) = term_succs (terminator blk))"
  unfolding translate_block_def
proof (rule yields_bind, rule yields_mono[OF inherited_yields[OF assms(3,2)]])
  fix m0 :: varmap assume "\<forall>x \<in> set m0. in_table (vars ssa) (snd x)"
  then have ok: "scope_ok (fst ((ssa, m0), []))" using assms(1) by (simp add: scope_ok_def form_ok_def)
  show "yields (process_block_ops (outer_source e) (block_ops blk) ((ssa, m0), []) \<bind>
      convert_terminator (terminator_origin blk) (cc_of e) (return_register e) (terminator blk))
    (\<lambda>r. \<exists>m0. continues ((ssa, m0), []) (snd r) \<and> frame_ok (vars (ssa_of (snd r))) (fst r) \<and>
       term_edges (fst r) = term_succs (terminator blk))"
  proof (rule yields_bind, rule yields_mono[OF process_block_ops_step[OF ok]])
    fix w assume w: "continues ((ssa, m0), []) w"
    then have "scope_ok (fst w)" by (simp add: continues_def)
    from convert_terminator_step[OF this] show "yields (convert_terminator (terminator_origin blk) (cc_of e) (return_register e) (terminator blk) w)
      (\<lambda>r. \<exists>m0. continues ((ssa, m0), []) (snd r) \<and> frame_ok (vars (ssa_of (snd r))) (fst r) \<and>
         term_edges (fst r) = term_succs (terminator blk))"
      by (rule yields_mono) (use continues_trans[OF w] in blast)
  qed
qed


definition pass_from :: "Cfg \<Rightarrow> nat \<Rightarrow> nat \<Rightarrow> passes \<Rightarrow> bool" where
  "pass_from cfg iter k p \<longleftrightarrow> passes_ok cfg p \<and>
     length (ssa_blocks (form p)) = (if iter = 0 then k else length (blocks cfg))"

lemma maps_ok_update: "maps_ok vs exits \<Longrightarrow> \<forall>e \<in> set m. in_table vs (snd e) \<Longrightarrow> maps_ok vs (exits[k := m])"
  unfolding maps_ok_def using set_update_subset_insert[of exits k m] by blast

lemma maps_ok_longer: "maps_ok vs exits \<Longrightarrow> length vs \<le> length vs' \<Longrightarrow> maps_ok vs' exits"
  by (force simp: maps_ok_def in_table_def)

lemma pass_block_yields:
  assumes e: "env_ok cfg e" and k: "k < length (blocks cfg)" and p: "pass_from cfg iter k p"
  shows "yields (pass_block e iter lc (k, blocks cfg ! k) p) (pass_from cfg iter (Suc k))"
proof -
  have id: "block_id (blocks cfg ! k) = k" using e k ids_nth by (simp add: env_ok_def)
  note pr = preds_in_range[OF e k]
  have ok: "form_ok cfg (form p)" "maps_ok (vars (form p)) (exit_vars p)" "length (exit_vars p) = length (blocks cfg)"
    using p by (simp_all add: pass_from_def passes_ok_def)
  show ?thesis
  proof (cases "skipped e iter lc k (graph_preds e ! k)")
    case True
    then have "iter > 0" by (simp add: skipped_def)
    then have "pass_from cfg iter (Suc k) p" using p by (simp add: pass_from_def)
    with True show ?thesis by (simp add: pass_block_def id pr(1) yields_Some)
  next
    case False
    let ?blk = "blocks cfg ! k"
    from translate_block_yields[OF ok(1,2), of "graph_preds e ! k" e ?blk] pr(2) ok(3) obtain t ssa m ss m0 where
      t: "translate_block e (exit_vars p) ?blk (graph_preds e ! k) (form p) = Some (t, (ssa, m), ss)"
        "continues ((form p, m0), []) ((ssa, m), ss)" "frame_ok (vars ssa) t" "term_edges t = term_succs (terminator ?blk)"
      by (auto simp: yields_def ssa_of_def)
    have old: "vec_get (exit_vars p) k = Some (exit_vars p ! k)" using ok(3) k by (simp add: vec_get_def)
    have i: "if iter = 0 then length (ssa_blocks (form p)) = k else k < length (ssa_blocks (form p))"
      using p k by (simp add: pass_from_def)
    from put_block_ok[OF ok(1) t(2,3,4) k refl id i] obtain ssa2 where
      s: "put_block (iter = 0) k ?blk ss t ssa = Some ssa2" "form_ok cfg ssa2" "vars ssa2 = vars ssa"
        "length (ssa_blocks ssa2) = (if iter = 0 then Suc k else length (ssa_blocks (form p)))"
      by (auto simp: yields_def)
    have l: "length (vars (form p)) \<le> length (vars ssa)" "\<forall>e \<in> set m. in_table (vars ssa) (snd e)"
      using t(2) by (auto simp: continues_def ssa_of_def grows_def scope_ok_def)
    then have "maps_ok (vars ssa2) ((exit_vars p)[k := m])"
      using maps_ok_update[OF maps_ok_longer[OF ok(2) l(1)]] s(3) by simp
    with False t(1) old s ok(3) p show ?thesis
      by (simp add: pass_block_def id pr(1) yields_Some pass_from_def passes_ok_def)
  qed
qed

lemma pass_blocks_yields:
  assumes "env_ok cfg e"
  shows "k \<le> length (blocks cfg) \<Longrightarrow> pass_from cfg iter k p \<Longrightarrow>
    yields (pass_blocks e iter lc (enumerate k (drop k (blocks cfg))) p) (pass_from cfg iter (length (blocks cfg)))"
proof (induction "length (blocks cfg) - k" arbitrary: k p)
  case 0
  then show ?case by (simp add: yields_Some)
next
  case (Suc n)
  then have k: "k < length (blocks cfg)" by simp
  then have d: "drop k (blocks cfg) = blocks cfg ! k # drop (Suc k) (blocks cfg)" by (simp add: Cons_nth_drop_Suc)
  show ?case
    unfolding d enumerate_simps pass_blocks.simps
    by (rule yields_bind, rule yields_mono[OF pass_block_yields[OF assms k Suc.prems(2)]])
      (use Suc k in simp)
qed

lemma run_passes_yields:
  assumes e: "env_ok cfg e"
  shows "left \<le> 4 \<Longrightarrow> (if left = 4 then pass_from cfg 0 0 p else pass_from cfg 1 0 p) \<Longrightarrow> left < 4 \<or> 0 < left \<Longrightarrow>
    yields (run_passes e (blocks cfg) left p) (pass_from cfg 1 0)"
proof (induction left arbitrary: p)
  case 0
  then show ?case by (simp add: yields_Some)
next
  case (Suc left)
  let ?iter = "4 - Suc left"
  have "pass_from cfg ?iter 0 (p\<lparr>changed := []\<rparr>)"
    using Suc.prems by (auto simp: pass_from_def passes_ok_def split: if_splits)
  from pass_blocks_yields[OF e _ this, of "changed p"] have
    b: "yields (pass_blocks e ?iter (changed p) (enumerate 0 (blocks cfg)) (p\<lparr>changed := []\<rparr>)) (pass_from cfg ?iter (length (blocks cfg)))"
    by simp
  show ?case
    unfolding run_passes.simps Let_def
  proof (rule yields_bind, rule yields_mono[OF b])
    fix p' assume "pass_from cfg ?iter (length (blocks cfg)) p'"
    then have p': "pass_from cfg 1 0 p'" by (simp add: pass_from_def split: if_splits)
    then show "yields (if 0 < ?iter \<and> changed p' = [] then Some p' else run_passes e (blocks cfg) left p') (pass_from cfg 1 0)"
      using Suc.IH[of p'] Suc.prems(1) by (auto intro: yields_Some)
  qed
qed

lemma initial_passes_ok: "pass_from cfg 0 0 (initial_passes cfg)"
  by (simp add: pass_from_def passes_ok_def initial_passes_def form_ok_def vtable_ok_def
      maps_ok_def single_defs_def one_def_def)

end
