(* ===== verification/SsaPhi.thy ===== *)
theory SsaPhi
  imports SsaPasses
begin

text \<open>
  Phi insertion: the relinking of uses rewrites definitions and terminators in place, the
  phis are new variables in front of their block, and the form stays well formed. With the
  passes this gives the renamed form of every graph.
\<close>

subsection \<open>Rewriting in place\<close>

definition retabled :: "VarDef list \<Rightarrow> VarDef list \<Rightarrow> bool" where
  "retabled vs vs' \<longleftrightarrow> length vs' = length vs \<and> vtable_ok vs' \<and>
     (\<forall>j < length vs. is_copy (expr (vs ! j)) \<longrightarrow> is_copy (expr (vs' ! j)))"

lemma retabled_refl: "vtable_ok vs \<Longrightarrow> retabled vs vs"
  by (simp add: retabled_def)

lemma retabled_trans: "retabled a b \<Longrightarrow> retabled b c \<Longrightarrow> retabled a c"
  by (auto simp: retabled_def)

lemma load_evidence_member: "load_evidence vs k src = Some m \<Longrightarrow> \<exists>v \<in> set vs. memory v = Some m"
  by (induction k arbitrary: src) (auto simp: vec_simps split: option.splits if_splits Expr.splits intro: nth_mem)

lemma rewrite_step:
  assumes "vtable_ok vs" "k < length vs" "refs_in vs e" "is_copy (expr (vs ! k)) \<longrightarrow> is_copy e"
  shows "yields (rewrite vs k e) (retabled vs)"
proof -
  have mem: "memory_ok (memory v)" "wf_origins (origins v)" "all_in vs (collect_expr_refs (expr v))" if "v \<in> set vs" for v
    using assms(1) that by (auto simp: vtable_ok_def entry_ok_def all_in_def)
  have evid: "memory_ok (load_evidence vs n src)" for n src
    using load_evidence_member[of vs n src] mem(1)
    by (cases "load_evidence vs n src") (auto simp: memory_ok_def)
  have k: "vs ! k \<in> set vs" using assms(2) by simp
  obtain v where v: "rewrite vs k e = Some (vs[k := v])" "expr v = e \<or> expr v = expr (vs ! k)" "entry_ok v"
  proof -
    have none: "memory_ok None" by (simp add: memory_ok_def)
    have "\<exists>v. rewrite vs k e = Some (vs[k := v]) \<and> (expr v = e \<or> expr v = expr (vs ! k)) \<and> entry_ok v"
      using assms(2) mem(1,2)[OF k] evid none
      by (auto simp: rewrite_def vec_get_def Let_def entry_ok_def merge_inputs_ops(1) split: option.splits)
    with that show thesis by blast
  qed
  have "all_in vs (collect_expr_refs (expr v))"
    using v(2) assms(3) mem(3)[OF k] by (auto simp: refs_in_def)
  then have "\<forall>x \<in> insert v (set vs). all_in vs (collect_expr_refs (expr x)) \<and> entry_ok x"
    using mem v(3) by (simp add: entry_ok_def)
  then have "vtable_ok (vs[k := v])"
    unfolding vtable_ok_def
    using set_update_subset_insert[of vs k v] by (auto simp: all_in_def)
  with v assms(2,4) show ?thesis
    by (auto simp: yields_Some retabled_def nth_list_update)
qed

definition relinks_in :: "VarDef list \<Rightarrow> (VarId \<times> VarId) list \<Rightarrow> bool" where
  "relinks_in vs r \<longleftrightarrow> (\<forall>e \<in> set r. in_table vs (snd e))"

lemma relinks_in_length: "relinks_in vs r \<Longrightarrow> length vs' = length vs \<Longrightarrow> relinks_in vs' r"
  by (simp add: relinks_in_def in_table_def)

lemma relinked_in: "relinks_in vs r \<Longrightarrow> in_table vs i \<Longrightarrow> in_table vs (relinked r i)"
  by (force simp: relinked_def relinks_in_def split: option.splits dest: map_of_SomeD)

lemma relink_expr_in:
  "relinks_in vs r \<Longrightarrow> refs_in vs e \<Longrightarrow> refs_in vs (relink_expr e r)"
  by (cases e) (auto simp: refs_in_def relinked_in all_in_def)

lemma relink_expr_copy [simp]: "is_copy (relink_expr e r) = is_copy e"
  by (cases e) simp_all

lemma relink_stmts_step:
  "vtable_ok vs \<Longrightarrow> relinks_in vs r \<Longrightarrow> list_all (stmt_ok vs) ss \<Longrightarrow> yields (relink_stmts r ss vs) (retabled vs)"
proof (induction ss arbitrary: vs)
  case Nil
  then show ?case by (simp add: yields_Some retabled_refl)
next
  case (Cons s ss)
  show ?case
  proof (cases s)
    case (Assign i)
    then have i: "unat i < length vs" using Cons.prems(3) by (simp add: stmt_ok_def in_table_def)
    then have "refs_in vs (expr (vs ! unat i))"
      using Cons.prems(1) by (auto simp: vtable_ok_def refs_in_def all_in_def)
    note rw = rewrite_step[OF Cons.prems(1) i relink_expr_in[OF Cons.prems(2) this]]
    have "yields (Option.bind (rewrite vs (unat i) (relink_expr (expr (vs ! unat i)) r)) (relink_stmts r ss)) (retabled vs)"
    proof (rule yields_bind, rule yields_mono[OF rw])
      fix vs' assume t: "retabled vs vs'"
      then have l: "length vs' = length vs" "vtable_ok vs'" by (simp_all add: retabled_def)
      have "list_all (stmt_ok vs') ss"
        using Cons.prems(3) l by (auto simp: list_all_iff stmt_ok_def all_in_def in_table_def)
      from Cons.IH[OF l(2) relinks_in_length[OF Cons.prems(2) l(1)] this]
      show "yields (relink_stmts r ss vs') (retabled vs)"
        by (rule yields_mono) (rule retabled_trans[OF t])
    qed simp
    then show ?thesis using Assign i by (simp add: vec_get_def)
  qed (use Cons in simp_all)
qed

subsection \<open>Forms\<close>

text \<open>What relinking leaves alone: the statements and the size of the table.\<close>

definition relinks :: "Cfg \<Rightarrow> SsaCfg \<Rightarrow> SsaCfg \<Rightarrow> bool" where
  "relinks cfg ssa ssa' \<longleftrightarrow> form_ok cfg ssa' \<and> map stmts (ssa_blocks ssa') = map stmts (ssa_blocks ssa) \<and>
     length (vars ssa') = length (vars ssa)"

lemma relinks_refl: "form_ok cfg ssa \<Longrightarrow> relinks cfg ssa ssa"
  by (simp add: relinks_def)

lemma relinks_trans: "relinks cfg a b \<Longrightarrow> relinks cfg b c \<Longrightarrow> relinks cfg a c"
  by (simp add: relinks_def)

lemma block_ok_length: "block_ok vs blk \<Longrightarrow> length vs' = length vs \<Longrightarrow> block_ok vs' blk"
  by (auto simp: block_ok_def frame_ok_def list_all_iff stmt_ok_def all_in_def in_table_def)

lemma retable_form:
  assumes "form_ok cfg ssa" "retabled (vars ssa) vs"
  shows "relinks cfg ssa (ssa\<lparr>vars := vs\<rparr>)"
proof -
  have l: "length vs = length (vars ssa)" "vtable_ok vs" using assms(2) by (simp_all add: retabled_def)
  have "store_copies vs (stmts blk)" if "blk \<in> set (ssa_blocks ssa)" "store_copies (vars ssa) (stmts blk)" for blk
    unfolding store_copies_def
  proof (intro allI impI)
    fix a v assume v: "StoreStmt a v \<in> set (stmts blk)"
    then have "unat v < length (vars ssa)"
      using form_blocks_ok[OF assms(1) that(1)] by (fastforce simp: block_ok_def list_all_iff stmt_ok_def in_table_def)
    with that(2) v assms(2) show "is_copy (expr (vs ! unat v))"
      by (auto simp: store_copies_def retabled_def)
  qed
  then have "single_defs (ssa\<lparr>vars := vs\<rparr>)" if "single_defs ssa"
    using that by (simp add: single_defs_def list_all_iff)
  then show ?thesis
    using assms(1) l block_ok_length[OF _ l(1)] by (simp add: relinks_def form_ok_def placed_def)
qed

lemma store_copies_stmts: "list_all (\<lambda>blk. store_copies vs (stmts blk)) bs = list_all (store_copies vs) (map stmts bs)"
  by (simp add: list_all_iff)

lemma one_def_stmts: "map stmts bs = map stmts cs \<Longrightarrow> one_def bs = one_def cs"
proof -
  assume m: "map stmts bs = map stmts cs"
  then have l: "length bs = length cs" by (rule map_eq_imp_length_eq)
  have "block_defs (bs ! k) = block_defs (cs ! k)" if "k < length bs" for k
    using that l m by (metis block_defs_def nth_map)
  then show ?thesis using l by (simp add: one_def_def)
qed

lemma reterm_form:
  assumes "form_ok cfg ssa" "k < length (ssa_blocks ssa)" "frame_ok (vars ssa) t"
    "term_edges t = term_edges (ssa_terminator (ssa_blocks ssa ! k))"
  shows "relinks cfg ssa (ssa\<lparr>ssa_blocks := (ssa_blocks ssa)[k := (ssa_blocks ssa ! k)\<lparr>ssa_terminator := t\<rparr>]\<rparr>)"
proof -
  let ?blk = "(ssa_blocks ssa ! k)\<lparr>ssa_terminator := t\<rparr>" and ?bs = "ssa_blocks ssa"
  have m: "map stmts (?bs[k := ?blk]) = map stmts ?bs"
    using assms(2) by (simp add: map_update list_update_same_conv)
  have "placed cfg (vars ssa) k (?bs ! k)" using assms(1,2) by (simp add: form_ok_def)
  then have "placed cfg (vars ssa) k ?blk" using assms(3,4) by (simp add: placed_def block_ok_def)
  then have "\<forall>l < length (?bs[k := ?blk]). placed cfg (vars ssa) l (?bs[k := ?blk] ! l)"
    using all_nth_update[of ?bs "placed cfg (vars ssa)" k ?blk] assms(1) by (simp add: form_ok_def)
  moreover have "single_defs (ssa\<lparr>ssa_blocks := ?bs[k := ?blk]\<rparr>)" if "single_defs ssa"
    using that one_def_stmts[OF m] m by (simp add: single_defs_def store_copies_stmts)
  ultimately show ?thesis
    using assms(1) m by (simp add: relinks_def form_ok_def)
qed


subsection \<open>Relinking\<close>

lemma relink_terminator_ok:
  assumes "frame_ok vs t" "relinks_in vs r"
  shows "frame_ok vs (relink_terminator r t)" "term_edges (relink_terminator r t) = term_edges t"
  using assms relinked_in[OF assms(2)]
  by (cases t; auto simp: relink_terminator_def frame_ok_def terminator_refs_def out_of_def split: option.splits)+

lemma relink_form:
  assumes "form_ok cfg ssa" "b < length (ssa_blocks ssa)" "relinks_in (vars ssa) r"
  shows "yields (relink_stmts r (stmts (ssa_blocks ssa ! b)) (vars ssa)) (\<lambda>vs. relinks cfg ssa (ssa\<lparr>vars := vs\<rparr>))"
  using relink_stmts_step[of "vars ssa" r "stmts (ssa_blocks ssa ! b)"] retable_form[OF assms(1)] assms
    form_blocks_ok[OF assms(1) nth_mem[OF assms(2)]]
  by (auto simp: form_ok_def block_ok_def elim!: yields_mono)

lemma relink_block_step:
  assumes "form_ok cfg ssa" "b < length (ssa_blocks ssa)" "relinks_in (vars ssa) r"
  shows "yields (relink_block r b ssa) (relinks cfg ssa)"
proof (cases "r = []")
  case True
  then show ?thesis using assms by (simp add: relink_block_def yields_Some relinks_refl)
next
  case False
  let ?blk = "ssa_blocks ssa ! b"
  from relink_form[OF assms] obtain vs where
    vs: "relink_stmts r (stmts ?blk) (vars ssa) = Some vs" "relinks cfg ssa (ssa\<lparr>vars := vs\<rparr>)"
    by (auto simp: yields_def)
  then have f: "form_ok cfg (ssa\<lparr>vars := vs\<rparr>)" "length vs = length (vars ssa)" by (simp_all add: relinks_def)
  have "frame_ok vs (ssa_terminator ?blk)"
    using form_blocks_ok[OF f(1), of ?blk] assms(2) by (simp add: block_ok_def)
  note t = relink_terminator_ok[OF this relinks_in_length[OF assms(3) f(2)]]
  have "relinks cfg (ssa\<lparr>vars := vs\<rparr>) (ssa\<lparr>vars := vs, ssa_blocks := (ssa_blocks ssa)[b := ?blk\<lparr>ssa_terminator := relink_terminator r (ssa_terminator ?blk)\<rparr>]\<rparr>)"
    using reterm_form[OF f(1), of b "relink_terminator r (ssa_terminator ?blk)"] assms(2) t by simp
  from relinks_trans[OF vs(2) this] False vs(1) assms(2) show ?thesis
    by (simp add: relink_block_def vec_get_def yields_Some)
qed

lemma relink_return_step:
  assumes "frame_ok vs t" "relinks_in vs r"
  shows "yields (relink_return r vs t) (\<lambda>t'. frame_ok vs t' \<and> term_edges t' = term_edges t)"
proof -
  have phi: "in_table vs p" if "map_of r v = Some p" for v p
    using assms(2) that by (force simp: relinks_in_def dest: map_of_SomeD)
  show ?thesis
  proof (cases "\<exists>v. t = SReturn (Some v)")
    case True
    then obtain v where t: "t = SReturn (Some v)" by blast
    then have "vec_get vs (unat v) = Some (vs ! unat v)"
      using assms(1) by (simp add: frame_ok_def terminator_refs_def in_table_def vec_get_def)
    with phi show ?thesis
      using assms(1) by (auto simp: relink_return_def t frame_ok_def terminator_refs_def out_of_def yields_def
          split: option.splits Expr.splits)
  next
    case False
    then have "relink_return r vs t = Some t"
      by (auto simp: relink_return_def split: SsaTerminator.splits option.splits)
    then show ?thesis using assms(1) by (simp add: yields_Some)
  qed
qed

lemma relink_successors_step:
  "form_ok cfg ssa \<Longrightarrow> relinks_in (vars ssa) r \<Longrightarrow> yields (relink_successors r ss ssa) (relinks cfg ssa)"
proof (induction ss arbitrary: ssa)
  case Nil
  then show ?case by (simp add: yields_Some relinks_refl)
next
  case (Cons s ss)
  show ?case
  proof (cases "s < length (ssa_blocks ssa)")
    case False
    then show ?thesis using Cons by (simp add: vec_get_def)
  next
    case s: True
    let ?blk = "ssa_blocks ssa ! s"
    from relink_form[OF Cons.prems(1) s Cons.prems(2)] obtain vs where
      vs: "relink_stmts r (stmts ?blk) (vars ssa) = Some vs" "relinks cfg ssa (ssa\<lparr>vars := vs\<rparr>)"
      by (auto simp: yields_def)
    then have f: "form_ok cfg (ssa\<lparr>vars := vs\<rparr>)" "length vs = length (vars ssa)" by (simp_all add: relinks_def)
    have "frame_ok vs (ssa_terminator ?blk)"
      using form_blocks_ok[OF f(1), of ?blk] s by (simp add: block_ok_def)
    from relink_return_step[OF this relinks_in_length[OF Cons.prems(2) f(2)]] obtain t where
      t: "relink_return r vs (ssa_terminator ?blk) = Some t" "frame_ok vs t" "term_edges t = term_edges (ssa_terminator ?blk)"
      by (auto simp: yields_def)
    let ?ssa = "ssa\<lparr>vars := vs, ssa_blocks := (ssa_blocks ssa)[s := ?blk\<lparr>ssa_terminator := t\<rparr>]\<rparr>"
    have "relinks cfg (ssa\<lparr>vars := vs\<rparr>) ?ssa"
      using reterm_form[OF f(1), of s t] s t by simp
    note r = relinks_trans[OF vs(2) this]
    then have "form_ok cfg ?ssa" "relinks_in (vars ?ssa) r"
      using relinks_in_length[OF Cons.prems(2) f(2)] by (simp_all add: relinks_def)
    from yields_mono[OF Cons.IH[OF this] relinks_trans[OF r]]
    have "yields (relink_successors r ss ?ssa) (relinks cfg ssa)" .
    then show ?thesis using s vs(1) t(1) by (simp add: vec_get_def)
  qed
qed

lemma relink_exits_step:
  assumes "form_ok cfg ssa" "b < length (ssa_blocks ssa)" "relinks_in (vars ssa) r"
  shows "yields (relink_exits r b ssa) (relinks cfg ssa)"
  using assms relink_successors_step[OF assms(1,3)]
  by (auto simp: relink_exits_def vec_get_def yields_Some relinks_refl)

subsection \<open>Inserting the phis\<close>

lemma phi_entries_in:
  assumes "maps_ok vs exits" "\<forall>p \<in> set preds. p < length exits"
  shows "\<forall>e \<in> set (phi_entries exits preds vn). in_table vs (snd e)"
proof
  fix e assume "e \<in> set (phi_entries exits preds vn)"
  then obtain p where "p \<in> set preds" "map_of (exits ! p) vn = Some (snd e)"
    by (auto simp: phi_entries_def List.map_filter_def)
  then have "exits ! p \<in> set exits" "(vn, snd e) \<in> set (exits ! p)"
    using assms(2) by (auto dest: map_of_SomeD)
  with assms(1) show "in_table vs (snd e)" by (fastforce simp: maps_ok_def)
qed

lemma insert_phis_step:
  assumes "maps_ok (vars ssa) exits" "\<forall>p \<in> set preds. p < length exits" "vtable_ok (vars ssa)"
    "insert_phis src exits preds vns ssa = (phis, ssa')"
  shows "grows ssa ssa' \<and> vtable_ok (vars ssa') \<and> emitted ssa ssa' (map Assign phis)"
  using assms(1,3,4)
proof (induction vns arbitrary: ssa phis)
  case Nil
  then show ?case by simp
next
  case (Cons vn vns)
  let ?es = "phi_entries exits preds vn"
  show ?case
  proof (cases "needs_phi ?es")
    case False
    then show ?thesis using Cons by simp
  next
    case True
    obtain i ssa1 where n: "new_var src vn (EPhi (map snd ?es)) (vsize vn) ssa = (i, ssa1)" by fastforce
    from Cons.prems(3) True n obtain "is" where r: "insert_phis src exits preds vns ssa1 = (is, ssa')" "phis = i # is"
      by (auto simp: Let_def split: prod.splits)
    have all: "\<forall>j \<in> set (collect_expr_refs (EPhi (map snd ?es))). in_table (vars ssa) j"
      using phi_entries_in[OF Cons.prems(1) assms(2)] by auto
    note g = new_var_step[OF n grows_refl Cons.prems(2) all]
    then have "maps_ok (vars ssa1) exits" by (auto simp: grows_def intro: maps_ok_longer[OF Cons.prems(1)])
    with Cons.IH[OF this _ r(1)] g have IH: "grows ssa1 ssa'" "vtable_ok (vars ssa')" "emitted ssa1 ssa' (map Assign is)" by auto
    have "emitted ssa ssa1 [Assign i]" using g by (intro emitted_unknown) simp
    from emitted_append[OF this IH(3) IH(1)] g IH show ?thesis
      by (simp add: r(2)) (blast intro: grows_trans)
  qed
qed

lemma relink_map_in:
  assumes "\<forall>i \<in> set phis. in_table vs i"
  shows "relinks_in vs (relink_map es exits preds b vs' phis)"
proof -
  let ?f = "\<lambda>(phi, p). case map_of (exits ! p) (varnode (vs' ! unat phi)) of Some h \<Rightarrow> map_insert h phi | None \<Rightarrow> id"
  have f: "relinks_in vs (fold ?f ps r)" if "relinks_in vs r" "\<forall>x \<in> set ps. in_table vs (fst x)" for ps r
    using that
  proof (induction ps arbitrary: r)
    case (Cons x ps)
    have "relinks_in vs (?f x r)"
      using Cons.prems set_map_insert[of _ "fst x" r] unfolding relinks_in_def
      by (cases x) (fastforce split: option.splits)
    with Cons show ?case by simp
  qed simp
  show ?thesis
    unfolding relink_map_def by (rule f) (use assms in \<open>auto simp: relinks_in_def\<close>)
qed


text \<open>Statements made since \<open>base\<close> in front of a block whose function is a relinked \<open>base\<close>.\<close>

lemma prepend_step:
  assumes f: "form_ok cfg ssa" and b: "b < length (ssa_blocks ssa)"
    and o: "map stmts (ssa_blocks ssa) = map stmts (ssa_blocks base)" "form_ok cfg base"
    and e: "emitted base mid ss" "length (vars mid) = length (vars ssa)" "\<forall>s \<in> set ss. \<exists>i. s = Assign i"
  shows "yields (prepend_stmts ss b ssa) (\<lambda>ssa'. form_ok cfg ssa' \<and> vars ssa' = vars ssa \<and>
    length (ssa_blocks ssa') = length (ssa_blocks ssa))"
proof -
  let ?bs = "ssa_blocks ssa"
  let ?blk = "(?bs ! b)\<lparr>stmts := ss @ stmts (?bs ! b)\<rparr>"
  have l: "length (ssa_blocks base) = length ?bs" using map_eq_imp_length_eq[OF o(1)] by simp
  have st: "stmts (?bs ! k) = stmts (ssa_blocks base ! k)" if "k < length ?bs" for k
    using that o(1) l by (metis nth_map)
  have ok: "list_all (stmt_ok (vars ssa)) ss"
    using e(1,2) by (auto simp: emitted_def list_all_iff stmt_ok_def all_in_def in_table_def)
  have pl: "placed cfg (vars ssa) b (?bs ! b)" using f b by (simp add: form_ok_def)
  then have "placed cfg (vars ssa) b ?blk" using ok by (simp add: placed_def block_ok_def)
  then have P: "\<forall>k < length (?bs[b := ?blk]). placed cfg (vars ssa) k (?bs[b := ?blk] ! k)"
    using all_nth_update[of ?bs "placed cfg (vars ssa)" b ?blk] f by (simp add: form_ok_def)
  have "single_defs (ssa\<lparr>ssa_blocks := ?bs[b := ?blk]\<rparr>)" if s: "length (vars ssa) \<le> 2 ^ 32"
  proof -
    have old: "single_defs ssa" using f s by (simp add: form_ok_def)
    have disj: "set (block_defs (?bs ! k)) \<inter> set (defs_of ss) = {}" if "k < length ?bs" for k
      using translated_defs_disjoint[OF o(2) e(1), of k] that l s e(2) st[OF that] by (simp add: block_defs_def)
    have ss: "distinct (defs_of ss)" using e(1,2) s by (simp add: emitted_def)
    have bd: "block_defs ?blk = defs_of ss @ block_defs (?bs ! b)" by (simp add: block_defs_def)
    have k: "distinct (block_defs (?bs ! k))" "k \<noteq> l \<Longrightarrow> l < length ?bs \<Longrightarrow> set (block_defs (?bs ! k)) \<inter> set (block_defs (?bs ! l)) = {}"
      if "k < length ?bs" for k l
      using old that by (auto simp: single_defs_def one_def_def)
    have "distinct (block_defs ?blk)" using ss k(1)[OF b] disj[OF b] by (simp add: bd Int_commute)
    moreover have "\<forall>k < length ?bs. k \<noteq> b \<longrightarrow> set (block_defs (?bs ! k)) \<inter> set (block_defs ?blk) = {}"
      using k(2)[OF _ _ b] disj by (simp add: bd Int_Un_distrib)
    ultimately have "one_def (?bs[b := ?blk])"
      using old by (intro one_def_new(1)) (simp_all add: single_defs_def)
    moreover have "store_copies (vars ssa) (stmts ?blk)"
      using old b e(3) by (auto simp: single_defs_def list_all_length store_copies_def)
    ultimately show ?thesis using old by (simp add: single_defs_def list_all_update)
  qed
  then have "form_ok cfg (ssa\<lparr>ssa_blocks := ?bs[b := ?blk]\<rparr>)"
    using f P by (simp add: form_ok_def)
  then show ?thesis using b by (simp add: prepend_stmts_def vec_get_def yields_Some)
qed

definition complete :: "Cfg \<Rightarrow> varmap list \<Rightarrow> SsaCfg \<Rightarrow> bool" where
  "complete cfg exits ssa \<longleftrightarrow> form_ok cfg ssa \<and> length (ssa_blocks ssa) = length (blocks cfg) \<and> maps_ok (vars ssa) exits"

lemma phi_block_step:
  assumes e: "env_ok cfg e" and c: "complete cfg exits ssa" and x: "length exits = length (blocks cfg)"
    and b: "b < length (blocks cfg)"
  shows "yields (phi_block e exits b ssa) (complete cfg exits)"
proof -
  let ?preds = "graph_preds e ! b"
  note pr = preds_in_range[OF e b]
  have f: "form_ok cfg ssa" "maps_ok (vars ssa) exits" "length (ssa_blocks ssa) = length (blocks cfg)"
    using c by (simp_all add: complete_def)
  obtain phis ssa1 where i: "insert_phis (outer_source e) exits ?preds (phi_varnodes exits ?preds) ssa = (phis, ssa1)" by fastforce
  from f(1) have "vtable_ok (vars ssa)" by (simp add: form_ok_def)
  with insert_phis_step[OF f(2) _ _ i] pr(2) x have g: "grows ssa ssa1" "vtable_ok (vars ssa1)" "emitted ssa ssa1 (map Assign phis)"
    by auto
  have f1: "form_ok cfg ssa1" by (rule form_ok_grows[OF f(1) g(1,2)])
  have c1: "ssa_blocks ssa1 = ssa_blocks ssa" "length (vars ssa) \<le> length (vars ssa1)" using g(1) by (simp_all add: grows_def)
  then have c1': "complete cfg exits ssa1" using f1 f(3) maps_ok_longer[OF f(2)] by (simp add: complete_def)
  have phis: "\<forall>i \<in> set phis. in_table (vars ssa1) i"
    using g(3) by (auto simp: emitted_def list_all_iff stmt_ok_def)
  let ?r = "\<lambda>es. relink_map es exits ?preds b (vars ssa1) phis"
  note rin = relink_map_in[OF phis]
  have len: "b < length (ssa_blocks s)" if "relinks cfg ssa1 s" for s
    using that f(3) c1(1) b by (metis relinks_def length_map)
  have "yields (relink_block (?r (acyclic_edges e)) b ssa1 \<bind> (\<lambda>ssa. relink_exits (?r (back_edges e)) b ssa \<bind>
      prepend_stmts (map Assign phis) b)) (complete cfg exits)"
  proof (rule yields_bind, rule yields_mono[OF relink_block_step[OF f1 _ rin]])
    show "b < length (ssa_blocks ssa1)" using b f(3) c1(1) by simp
    fix s2 assume r2: "relinks cfg ssa1 s2"
    then have f2: "form_ok cfg s2" "length (vars s2) = length (vars ssa1)" by (simp_all add: relinks_def)
    show "yields (relink_exits (?r (back_edges e)) b s2 \<bind> prepend_stmts (map Assign phis) b) (complete cfg exits)"
    proof (rule yields_bind, rule yields_mono[OF relink_exits_step[OF f2(1) len[OF r2] relinks_in_length[OF rin f2(2)]]])
      fix s3 assume "relinks cfg s2 s3"
      then have r3: "relinks cfg ssa1 s3" by (rule relinks_trans[OF r2])
      then have f3: "form_ok cfg s3" "length (vars s3) = length (vars ssa1)"
        "map stmts (ssa_blocks s3) = map stmts (ssa_blocks ssa)" using c1(1) by (simp_all add: relinks_def)
      have l3: "length (ssa_blocks s3) = length (blocks cfg)" using f3(3) f(3) by (metis length_map)
      show "yields (prepend_stmts (map Assign phis) b s3) (complete cfg exits)"
        by (rule yields_mono[OF prepend_step[OF f3(1) len[OF r3] f3(3) f(1) g(3) f3(2)[symmetric]]])
          (use c1' maps_ok_longer l3 f3(2) in \<open>auto simp: complete_def\<close>)
    qed
  qed
  then show ?thesis using c c1' by (auto simp: phi_block_def pr(1) i Let_def intro: yields_Some)
qed

lemma phi_blocks_step:
  assumes "env_ok cfg e" "length exits = length (blocks cfg)"
  shows "complete cfg exits ssa \<Longrightarrow> \<forall>b \<in> set bs. b < length (blocks cfg) \<Longrightarrow> yields (phi_blocks e exits bs ssa) (complete cfg exits)"
proof (induction bs arbitrary: ssa)
  case (Cons b bs)
  show ?case
    unfolding phi_blocks.simps
    by (rule yields_bind, rule yields_mono[OF phi_block_step[OF assms(1) Cons.prems(1) assms(2)]])
      (use Cons in simp_all)
qed (simp add: yields_Some)

lemma make_env_yields:
  assumes "ids_are_indices cfg"
  shows "yields (make_env src cfg cc rr) (env_ok cfg)"
proof -
  from predecessors_spec[OF assms] obtain preds where p: "predecessors cfg = Some preds" "preds_ok cfg preds"
    by (auto simp: preds_ok_def)
  from classified_once[OF assms] obtain es where "classified_edges cfg = Some es" by blast
  with p assms show ?thesis by (simp add: make_env_def yields_Some env_ok_def)
qed

theorem renamed_form_yields:
  assumes "ids_are_indices cfg"
  shows "yields (renamed_form src cfg cc rr) (\<lambda>ssa. form_ok cfg ssa \<and> length (ssa_blocks ssa) = length (blocks cfg))"
  unfolding renamed_form_def
proof (rule yields_bind, rule yields_mono[OF make_env_yields[OF assms]])
  fix e assume e: "env_ok cfg e"
  show "yields (run_passes e (blocks cfg) 4 (initial_passes cfg) \<bind>
      (\<lambda>p. phi_blocks e (exit_vars p) [0..<length (blocks cfg)] (form p)))
    (\<lambda>ssa. form_ok cfg ssa \<and> length (ssa_blocks ssa) = length (blocks cfg))"
  proof (rule yields_bind, rule yields_mono[OF run_passes_yields[OF e]])
    fix p assume "pass_from cfg 1 0 p"
    then have c: "complete cfg (exit_vars p) (form p)" "length (exit_vars p) = length (blocks cfg)"
      by (simp_all add: pass_from_def passes_ok_def complete_def)
    show "yields (phi_blocks e (exit_vars p) [0..<length (blocks cfg)] (form p))
        (\<lambda>ssa. form_ok cfg ssa \<and> length (ssa_blocks ssa) = length (blocks cfg))"
      by (rule yields_mono[OF phi_blocks_step[OF e c(2,1)]]) (simp_all add: complete_def)
  qed (simp_all add: initial_passes_ok)
qed

end
