(* ===== verification/SsaTotal.thy ===== *)
theory SsaTotal
  imports SsaPhi
begin

text \<open>
  The remaining phases on a well-formed form: forwarding keeps every reference inside the
  table, propagation touches origins only, and counting the uses succeeds with the number
  of references to each variable. Together they give totality of the whole construction.
\<close>

subsection \<open>Forwarding stays inside the table\<close>

definition values_in :: "nat \<Rightarrow> State \<Rightarrow> bool" where
  "values_in n st \<longleftrightarrow> (\<forall>e \<in> set (state_values st). \<forall>i \<in> set (snd e). unat i < n)"

definition stmts_in :: "SsaCfg \<Rightarrow> bool" where
  "stmts_in ssa \<longleftrightarrow> (\<forall>blk \<in> set (ssa_blocks ssa). list_all (stmt_ok (vars ssa)) (stmts blk))"

lemma values_in_empty [simp]: "values_in n (empty_state b)" "values_in n (invalidate b st)"
  by (simp_all add: values_in_def empty_state_def invalidate_def)

lemma values_in_step:
  assumes "values_in n st" "\<forall>i \<in> set (def_of s). unat i < n"
  shows "values_in n (step ssa cc s st)"
proof (cases s)
  case (StoreStmt addr val)
  have keep: "values_in n (keep_apart l st)" for l
    using assms(1) by (auto simp: values_in_def keep_apart_def)
  have ins: "values_in n (st'\<lparr>state_values := btree_insert l [val] (state_values st')\<rparr>)" if "values_in n st'" for st' l
    using that assms(2) StoreStmt set_btree_insert[of l "[val]" "state_values st'"] by (fastforce simp: values_in_def)
  show ?thesis
    using StoreStmt by (auto simp: store_step_def Let_def intro!: ins keep split: option.split)
qed (use assms(1) in auto)

lemma values_in_fold:
  "values_in n st \<Longrightarrow> \<forall>s \<in> set ss. \<forall>i \<in> set (def_of s). unat i < n \<Longrightarrow> values_in n (fold (step ssa cc) ss st)"
  by (induction ss arbitrary: st) (auto simp: values_in_step)

lemma values_in_merge:
  assumes "\<And>p. p \<in> set ps \<Longrightarrow> values_in n (exits ! p)" "merge_states ps exits = Some m"
  shows "values_in n m"
proof -
  have pred: "values_in n (merge_pred other st)" if "values_in n st" "values_in n other" for st other
    using that merge_pred_entry[of _ _ other st] unfolding values_in_def by fastforce
  have preds: "values_in n st \<Longrightarrow> (\<And>p. p \<in> set ps \<Longrightarrow> values_in n (exits ! p)) \<Longrightarrow> merge_preds ps exits st = Some m \<Longrightarrow> values_in n m"
    for ps st
  proof (induction ps arbitrary: st)
    case (Cons p ps)
    then have "merge_preds ps exits (merge_pred (exits ! p) st) = Some m"
      by (simp add: vec_simps split: bind_splits)
    moreover have "values_in n (merge_pred (exits ! p) st)" using Cons.prems(1,2) pred by simp
    ultimately show ?case using Cons.IH Cons.prems(2) by simp
  qed simp
  show ?thesis
  proof (cases ps)
    case (Cons p ps')
    then have "merge_preds ps' exits (exits ! p) = Some m"
      using assms(2) by (auto simp: merge_states_def vec_simps split: bind_splits)
    from preds[OF _ _ this] assms(1) Cons show ?thesis by simp
  qed (use assms(2) in \<open>auto simp: merge_states_def\<close>)
qed

interpretation named: flow_invariant ssa cfg cc "\<lambda>st. stmts_in ssa \<longrightarrow> values_in (length (vars ssa)) st" for ssa cfg cc
proof
  fix b blk st
  assume b: "vec_get (ssa_blocks ssa) b = Some blk" and st: "stmts_in ssa \<longrightarrow> values_in (length (vars ssa)) st"
  show "stmts_in ssa \<longrightarrow> values_in (length (vars ssa)) (block_exit ssa cc blk st)"
  proof
    assume i: "stmts_in ssa"
    have "blk \<in> set (ssa_blocks ssa)" using b by (auto simp: vec_simps)
    then have "\<forall>s \<in> set (stmts blk). \<forall>i \<in> set (def_of s). unat i < length (vars ssa)"
      using i by (auto simp: stmts_in_def list_all_iff stmt_ok_def all_in_def in_table_def)
    from values_in_fold[OF _ this] st i show "values_in (length (vars ssa)) (block_exit ssa cc blk st)"
      by (simp add: block_exit_def Let_def)
  qed
qed (auto intro: values_in_merge)

lemma rewrite_wf:
  assumes "rewrite vs k e = Some vs'" "\<forall>v \<in> set vs. wf_origins (origins v)"
  shows "\<forall>v \<in> set vs'. wf_origins (origins v)"
proof -
  from assms(1) have k: "k < length vs" by (auto simp: rewrite_def vec_simps split: option.splits)
  then have "wf_origins (origins (vs ! k))" using assms(2) by simp
  then obtain v where "vs' = vs[k := v]" "wf_origins (origins v)"
    using assms(1) k by (auto simp: rewrite_def vec_get_def Let_def merge_inputs_ops(1))
  then show ?thesis using assms(2) set_update_subset_insert[of vs k v] by auto
qed

lemma apply_load_wf:
  assumes "apply_load src cc st i p ssa = Some ssa'" "unat i < length (vars ssa)" "\<forall>v \<in> set (vars ssa). wf_origins (origins v)"
  shows "\<forall>v \<in> set (vars ssa'). wf_origins (origins v)"
proof -
  have "wf_origins (origins (vars ssa ! unat i))" using assms(2,3) by simp
  then have m: "\<forall>v \<in> set (vars (var_mut ssa i (\<lambda>v. v\<lparr>memory := mm\<rparr>))). wf_origins (origins v)" for mm
    using assms(2,3) set_update_subset_insert[of "vars ssa" "unat i" "(vars ssa ! unat i)\<lparr>memory := mm\<rparr>"]
    by (auto simp: var_mut_in in_table_def)
  have f: "\<forall>v \<in> set (vars (snd (forwarded_value src S sz s))). wf_origins (origins v)"
    if "\<forall>v \<in> set (vars s). wf_origins (origins v)" for S sz s
    using that definition_wf by (auto simp: forwarded_value_def new_var_def Let_def)
  let ?sp = "load_space (memory (ssa_var ssa i))"
  obtain S bnd where e: "load_evidence_of ?sp (exact_location (vars ssa) p (var_size (ssa_var ssa i)) cc) st = (S, bnd)" by fastforce
  let ?ssa = "var_mut ssa i (\<lambda>v. v\<lparr>memory := Some (LoadAccess ?sp S bnd)\<rparr>)"
  from assms(1) e consider "ssa' = ?ssa" | w s1 vs sz where "forwarded_value src S sz ?ssa = (w, s1)"
      "rewrite (vars s1) (unat i) (EVar w) = Some vs" "ssa' = s1\<lparr>vars := vs\<rparr>"
    by (auto simp: apply_load_def Let_def split: bind_splits prod.splits if_splits)
  then show ?thesis
  proof cases
    case 1
    then show ?thesis using m by simp
  next
    case 2
    have "\<forall>v \<in> set (vars s1). wf_origins (origins v)" using f[OF m[of "Some (LoadAccess ?sp S bnd)"], of S sz] 2(1) by simp
    from rewrite_wf[OF 2(2) this] show ?thesis by (simp add: 2(3))
  qed
qed

lemma evidence_in:
  assumes "values_in n st" "evidence_at cc st vs v p = (S, bnd)" "i \<in> set S"
  shows "unat i < n"
  using assms by (force simp: evidence_at_def load_evidence_of_def values_in_def dest: map_of_SomeD split: if_splits option.splits)

definition table_kept :: "SsaCfg \<Rightarrow> SsaCfg \<Rightarrow> bool" where
  "table_kept ssa ssa' \<longleftrightarrow> vtable_ok (vars ssa') \<and> ssa_blocks ssa' = ssa_blocks ssa \<and> length (vars ssa) \<le> length (vars ssa')"

lemma table_kept_trans: "table_kept a b \<Longrightarrow> table_kept b c \<Longrightarrow> table_kept a c"
  by (simp add: table_kept_def)

lemma apply_load_step:
  assumes ok: "vtable_ok (vars ssa)" and v: "vec_get (vars ssa) (unat i) = Some v" "expr v = ELoad p"
    and st: "state_ok st" "values_in (length (vars ssa)) st"
  shows "yields (apply_load src cc st i p ssa) (table_kept ssa)"
proof -
  from apply_load_total[OF v(1) st(1) vtable_evidence[OF ok], of src cc p] obtain ssa' where
    a: "apply_load src cc st i p ssa = Some ssa'" "evidence_bounded (vars ssa')" by blast
  have g: "ssa_blocks ssa' = ssa_blocks ssa" "length (vars ssa) \<le> length (vars ssa')"
    using apply_load_advances[OF v a(1)] by auto
  have i: "unat i < length (vars ssa)" using v(1) by (simp add: vec_simps)
  have refs: "all_in (vars ssa) (collect_expr_refs (expr x))" if "x \<in> set (vars ssa)" for x
    using ok that by (auto simp: vtable_ok_def all_in_def)
  obtain S bnd where e: "evidence_at cc st (vars ssa) v p = (S, bnd)" by fastforce
  have S: "all_in (vars ssa) S" using evidence_in[OF st(2) e] by (auto simp: all_in_def in_table_def)
  have "\<forall>x \<in> set (vars ssa'). all_in (vars ssa') (collect_expr_refs (expr x))"
    using v(1) a(1) e
  proof (cases rule: apply_load_spec)
    case none
    have "v \<in> set (vars ssa)" using v(1) by (auto simp: vec_simps)
    then show ?thesis
      using refs none(3) set_update_subset_insert[of "vars ssa" "unat i"] by (fastforce simp: all_in_def in_table_def)
  next
    case (some u v' l new)
    have l: "length (vars ssa') = length (vars ssa) + length new" using some(4) by simp
    have longer: "all_in (vars ssa') js" if "all_in (vars ssa) js" for js
      using that l by (auto simp: all_in_def in_table_def)
    have u: "in_table (vars ssa') u"
      using some(10) longer[OF S] l unat_of_nat_le[of "length (vars ssa)"] by (auto simp: in_table_def)
    have new: "\<forall>x \<in> set new. all_in (vars ssa') (collect_expr_refs (expr x))"
      using some(10) longer[OF S] by auto
    have "x = v' \<or> x \<in> set (vars ssa) \<or> x \<in> set new" if "x \<in> set (vars ssa')" for x
      using that some(4) set_update_subset_insert[of "vars ssa @ new" "unat i" v'] by auto
    then show ?thesis
      using longer[OF refs] new u some(5) by fastforce
  qed
  with a apply_load_wf[OF a(1) i] ok have "vtable_ok (vars ssa')"
    by (auto simp: vtable_ok_def entry_ok_def evidence_bounded_iff all_in_def)
  with a g show ?thesis by (simp add: yields_Some table_kept_def)
qed

lemma all_in_longer: "all_in vs is \<Longrightarrow> length vs \<le> length vs' \<Longrightarrow> all_in vs' is"
  by (auto simp: all_in_def in_table_def)

lemma stmt_ok_longer: "stmt_ok vs s \<Longrightarrow> length vs \<le> length vs' \<Longrightarrow> stmt_ok vs' s"
  using all_in_longer[of vs _ vs'] by (auto simp: stmt_ok_def)

lemma values_in_mono: "values_in n st \<Longrightarrow> n \<le> k \<Longrightarrow> values_in k st"
  by (force simp: values_in_def)

lemma apply_stmts_step:
  "vtable_ok (vars ssa) \<Longrightarrow> list_all (stmt_ok (vars ssa)) ss \<Longrightarrow> state_ok st \<Longrightarrow> values_in (length (vars ssa)) st \<Longrightarrow>
   yields (apply_stmts src cc ss (st, ssa)) (\<lambda>r. table_kept ssa (snd r))"
proof (induction ss arbitrary: st ssa)
  case Nil
  then show ?case by (simp add: yields_Some table_kept_def)
next
  case (Cons s ss)
  have s: "\<forall>i \<in> set (def_of s). unat i < length (vars ssa)"
    using Cons.prems(2) by (auto simp: stmt_ok_def all_in_def in_table_def)
  have one: "yields (apply_stmt src cc s (st, ssa)) (\<lambda>r. table_kept ssa (snd r) \<and> state_ok (fst r) \<and> values_in (length (vars (snd r))) (fst r))"
  proof (cases "\<exists>i p. s = Assign i \<and> expr (ssa_var ssa i) = ELoad p")
    case True
    then obtain i p where i: "s = Assign i" "expr (ssa_var ssa i) = ELoad p" by blast
    from ssa_var_load[OF i(2)] obtain v where v: "vec_get (vars ssa) (unat i) = Some v" "expr v = ELoad p" .
    from apply_load_step[OF Cons.prems(1) v Cons.prems(3,4), of src cc] obtain ssa1 where
      a: "apply_load src cc st i p ssa = Some ssa1" "table_kept ssa ssa1" by (auto simp: yields_def)
    have "values_in (length (vars ssa1)) (step ssa1 cc s st)"
      using values_in_step[OF values_in_mono[OF Cons.prems(4)]] a(2) s by (fastforce simp: table_kept_def)
    moreover have "apply_stmt src cc s (st, ssa) = Some (step ssa1 cc s st, ssa1)" using i a(1) by (simp add: apply_stmt_def)
    ultimately show ?thesis using state_ok_step[OF Cons.prems(3), of ssa1 cc s] a(2) by (simp add: yields_def)
  next
    case False
    then have "apply_stmt src cc s (st, ssa) = Some (step ssa cc s st, ssa)"
      by (cases s) (auto simp: apply_stmt_def split: Expr.splits)
    then show ?thesis
      using state_ok_step[OF Cons.prems(3)] values_in_step[OF Cons.prems(4) s] Cons.prems(1)
      by (simp add: yields_Some table_kept_def)
  qed
  show ?case
    unfolding apply_stmts.simps
  proof (rule yields_bind, rule yields_mono[OF one])
    fix r assume r: "table_kept ssa (snd r) \<and> state_ok (fst r) \<and> values_in (length (vars (snd r))) (fst r)"
    have "list_all (stmt_ok (vars (snd r))) ss"
      using Cons.prems(2) r stmt_ok_longer[of "vars ssa" _ "vars (snd r)"] by (simp add: table_kept_def list_all_iff)
    with Cons.IH[of "snd r" "fst r"] r have "yields (apply_stmts src cc ss (fst r, snd r)) (\<lambda>q. table_kept (snd r) (snd q))"
      by (simp add: table_kept_def)
    then show "yields (apply_stmts src cc ss r) (\<lambda>q. table_kept ssa (snd q))"
      using r table_kept_trans by (auto elim!: yields_mono)
  qed
qed

lemma apply_blocks_step:
  "vtable_ok (vars ssa) \<Longrightarrow> stmts_in ssa \<Longrightarrow>
   \<forall>e \<in> set es. fst e < length (ssa_blocks ssa) \<and> state_ok (snd e) \<and> values_in (length (vars ssa)) (snd e) \<Longrightarrow>
   yields (apply_blocks src cc es ssa) (table_kept ssa)"
proof (induction es arbitrary: ssa)
  case Nil
  then show ?case by (simp add: yields_Some table_kept_def)
next
  case (Cons e es)
  let ?blk = "ssa_blocks ssa ! fst e"
  have e: "fst e < length (ssa_blocks ssa)" "state_ok (snd e)" "values_in (length (vars ssa)) (snd e)" using Cons.prems(3) by auto
  then have "list_all (stmt_ok (vars ssa)) (stmts ?blk)" using Cons.prems(2) by (simp add: stmts_in_def)
  from apply_stmts_step[OF Cons.prems(1) this e(2,3), of src cc] obtain st1 ssa1 where
    a: "apply_stmts src cc (stmts ?blk) (snd e, ssa) = Some (st1, ssa1)" "table_kept ssa ssa1"
    by (auto simp: yields_def)
  have "stmts_in ssa1"
    using Cons.prems(2) a(2) stmt_ok_longer[of "vars ssa" _ "vars ssa1"] by (auto simp: stmts_in_def table_kept_def list_all_iff)
  moreover have "\<forall>e \<in> set es. fst e < length (ssa_blocks ssa1) \<and> state_ok (snd e) \<and> values_in (length (vars ssa1)) (snd e)"
    using Cons.prems(3) a(2) values_in_mono[of "length (vars ssa)" _ "length (vars ssa1)"] by (simp add: table_kept_def)
  moreover have "vtable_ok (vars ssa1)" using a(2) by (simp add: table_kept_def)
  ultimately have "yields (apply_blocks src cc es ssa1) (table_kept ssa1)" by (intro Cons.IH)
  then have "yields (apply_blocks src cc es ssa1) (table_kept ssa)" by (rule yields_mono) (rule table_kept_trans[OF a(2)])
  then show ?case using e(1) a(1) by (simp add: vec_get_def)
qed

lemma forward_step:
  assumes "layout_ok ssa cfg" "vtable_ok (vars ssa)" "stmts_in ssa"
  shows "yields (forward src ssa cfg cc) (table_kept ssa)"
proof -
  obtain entries ssa1 where r: "reaching_stores ssa cfg cc = Some (entries, ssa1)" "length entries = length (blocks cfg)"
      "\<forall>b < length (blocks cfg). stmts_in ssa \<longrightarrow> values_in (length (vars ssa)) (entries ! b)"
      "vars ssa1 = vars ssa" "ssa_blocks ssa1 = ssa_blocks ssa"
    using named.reaching_holds[OF assms(1), of cc] by blast
  have b: "\<forall>b < length (blocks cfg). state_ok (entries ! b)"
    using bounded.reaching_holds[OF assms(1), of cc] r(1) by auto
  have "fst e < length (ssa_blocks ssa1) \<and> state_ok (snd e) \<and> values_in (length (vars ssa1)) (snd e)"
    if "e \<in> set (enumerate 0 entries)" for e
    using enumerate_entries[OF that] r b assms by (simp add: layout_ok_def)
  then have es: "\<forall>e \<in> set (enumerate 0 entries). fst e < length (ssa_blocks ssa1) \<and> state_ok (snd e) \<and>
      values_in (length (vars ssa1)) (snd e)" by blast
  have "vtable_ok (vars ssa1)" "stmts_in ssa1" using assms(2,3) r(4,5) by (simp_all add: stmts_in_def)
  from apply_blocks_step[OF this es, of src cc] have "yields (apply_blocks src cc (enumerate 0 entries) ssa1) (table_kept ssa1)" .
  then show ?thesis using r by (auto simp: forward_def yields_def table_kept_def)
qed

end
