(* ===== verification/SsaProps.thy ===== *)
theory SsaProps
  imports SsaTotal
begin

text \<open>
  The properties of SSA construction: it is total and well formed on every graph that
  construction returns, it assigns each variable once, and the loads it forwards are
  right in every execution of the form it built.
\<close>

subsection \<open>Use counts\<close>

lemma bump_counts_step:
  "\<forall>i \<in> set is. unat i < length counts \<Longrightarrow> yields (bump_counts is counts) (\<lambda>counts'. length counts' = length counts \<and>
     (\<forall>k < length counts. counts' ! k = counts ! k + of_nat (count_list (map unat is) k)))"
proof (induction "is" arbitrary: counts)
  case Nil
  then show ?case by (simp add: yields_Some)
next
  case (Cons i "is")
  then have i: "unat i < length counts" by simp
  from Cons.IH[of "counts[unat i := counts ! unat i + 1]"] Cons.prems
  have "yields (bump_counts is (counts[unat i := counts ! unat i + 1])) (\<lambda>counts'. length counts' = length counts \<and>
     (\<forall>k < length counts. counts' ! k = counts[unat i := counts ! unat i + 1] ! k + of_nat (count_list (map unat is) k)))"
    by simp
  then show ?case
    using i by (auto simp: vec_get_def nth_list_update add.assoc elim!: yields_mono)
qed

lemma all_refs_in:
  assumes "vtable_ok (vars ssa)" "\<forall>blk \<in> set (ssa_blocks ssa). block_ok (vars ssa) blk"
  shows "\<forall>i \<in> set (all_refs ssa). unat i < length (vars ssa)"
proof -
  have "unat i < length (vars ssa)" if "v \<in> set (vars ssa)" "i \<in> set (collect_expr_refs (expr v))" for v i
    using assms(1) that by (auto simp: vtable_ok_def in_table_def)
  moreover have "unat i < length (vars ssa)"
    if "blk \<in> set (ssa_blocks ssa)" "(\<exists>s \<in> set (stmts blk). i \<in> set (stmt_refs s)) \<or> i \<in> set (terminator_refs (ssa_terminator blk))"
    for blk i
    using assms(2) that by (fastforce simp: block_ok_def frame_ok_def list_all_iff stmt_ok_def all_in_def in_table_def)
  ultimately show ?thesis unfolding all_refs_def by fastforce
qed

lemma all_refs_cong:
  "map expr (vars a) = map expr (vars b) \<Longrightarrow> ssa_blocks a = ssa_blocks b \<Longrightarrow> all_refs a = all_refs b"
  unfolding all_refs_def by (metis (no_types, lifting) comp_apply list.map_comp map_eq_conv map_map)

definition counted :: "SsaCfg \<Rightarrow> bool" where
  "counted ssa \<longleftrightarrow> (\<forall>k < length (vars ssa). use_count (vars ssa ! k) = of_nat (count_list (map unat (all_refs ssa)) k))"

text \<open>All but the use counts and the origins.\<close>

definition same_defs :: "VarDef list \<Rightarrow> VarDef list \<Rightarrow> bool" where
  "same_defs vs vs' \<longleftrightarrow> length vs' = length vs \<and>
     (\<forall>k < length vs. \<exists>orgs n. vs' ! k = (vs ! k)\<lparr>origins := orgs, use_count := n\<rparr>)"

lemma same_defs_nth:
  assumes "same_defs vs vs'" "k < length vs"
  obtains orgs n where "vs' ! k = (vs ! k)\<lparr>origins := orgs, use_count := n\<rparr>"
  using assms by (auto simp: same_defs_def)

lemma same_defs_trans: "same_defs a b \<Longrightarrow> same_defs b c \<Longrightarrow> same_defs a c"
  by (fastforce simp: same_defs_def)

lemma same_defs_expr: "same_defs vs vs' \<Longrightarrow> map expr vs' = map expr vs"
  by (rule nth_equalityI) (auto simp: same_defs_def elim!: same_defs_nth)

lemma count_uses_step:
  assumes "\<forall>i \<in> set (all_refs ssa). unat i < length (vars ssa)"
  shows "yields (count_uses ssa) (\<lambda>ssa'. same_defs (vars ssa) (vars ssa') \<and> ssa_blocks ssa' = ssa_blocks ssa \<and> counted ssa')"
  unfolding count_uses_def
proof (rule yields_bind, rule yields_mono[OF bump_counts_step])
  fix counts :: "u32 list" assume c: "length counts = length (replicate (length (vars ssa)) (0 :: u32)) \<and>
    (\<forall>k < length (replicate (length (vars ssa)) (0 :: u32)). counts ! k =
       replicate (length (vars ssa)) 0 ! k + of_nat (count_list (map unat (all_refs ssa)) k))"
  let ?ssa = "ssa\<lparr>vars := map2 (\<lambda>v n. v\<lparr>use_count := n\<rparr>) (vars ssa) counts\<rparr>"
  have "\<exists>orgs n. map2 (\<lambda>v n. v\<lparr>use_count := n\<rparr>) (vars ssa) counts ! k = (vars ssa ! k)\<lparr>origins := orgs, use_count := n\<rparr>"
    if "k < length (vars ssa)" for k
    using c that by (intro exI[of _ "origins (vars ssa ! k)"] exI[of _ "counts ! k"]) simp
  then have s: "same_defs (vars ssa) (vars ?ssa)"
    using c by (simp add: same_defs_def)
  have "all_refs ?ssa = all_refs ssa"
    by (rule all_refs_cong) (use same_defs_expr[OF s] in simp_all)
  then have "counted ?ssa" using c by (simp add: counted_def)
  with s show "yields (Some ?ssa) (\<lambda>ssa'. same_defs (vars ssa) (vars ssa') \<and> ssa_blocks ssa' = ssa_blocks ssa \<and> counted ssa')"
    by (simp add: yields_Some)
qed (use assms in simp)

subsection \<open>The whole construction\<close>

lemma form_stmts_in: "form_ok cfg ssa \<Longrightarrow> stmts_in ssa"
  using form_blocks_ok[of cfg ssa] by (auto simp: stmts_in_def block_ok_def)

lemma kept_blocks_ok:
  assumes "form_ok cfg ssa" "table_kept ssa ssa'"
  shows "\<forall>blk \<in> set (ssa_blocks ssa'). block_ok (vars ssa') blk"
proof
  have l: "length (vars ssa) \<le> length (vars ssa')" using assms(2) by (simp add: table_kept_def)
  fix blk assume "blk \<in> set (ssa_blocks ssa')"
  then have "block_ok (vars ssa) blk" using form_blocks_ok[OF assms(1)] assms(2) by (simp add: table_kept_def)
  then show "block_ok (vars ssa') blk"
    using stmt_ok_longer[OF _ l] all_in_longer[OF _ l] by (auto simp: block_ok_def frame_ok_def list_all_iff)
qed

text \<open>Origins and use counts aside, the table is the forwarded one, so what it names exists.\<close>

lemma build_refs_in:
  assumes "form_ok cfg ssa" "table_kept ssa ssa1" "same_defs (vars ssa1) (vars ssa')" "ssa_blocks ssa = ssa_blocks ssa'"
  shows "\<forall>i \<in> set (all_refs ssa'). unat i < length (vars ssa')"
proof -
  have "vtable_ok (vars ssa1)" using assms(2) by (simp add: table_kept_def)
  from all_refs_in[OF this kept_blocks_ok[OF assms(1,2)]]
  have "\<forall>i \<in> set (all_refs ssa1). unat i < length (vars ssa1)" .
  moreover have "all_refs ssa' = all_refs ssa1"
    by (rule all_refs_cong) (use same_defs_expr[OF assms(3)] assms(2,4) in \<open>simp_all add: table_kept_def\<close>)
  ultimately show ?thesis using assms(3) by (simp add: same_defs_def)
qed

text \<open>The construction step by step: the renamed form, forwarding, the final table.\<close>

lemma build_steps:
  assumes g: "ids_are_indices cfg" "\<forall>b < length (blocks cfg). \<forall>s \<in> set (succs_of cfg b). s < length (blocks cfg)"
  obtains ssa0 ssa1 ssa where "renamed_form src cfg cc rr = Some ssa0" "form_ok cfg (stale_diagnostics ssa0)"
    "length (ssa_blocks ssa0) = length (blocks cfg)"
    "(if rr = return_reg_int (abi cc) then forward src (stale_diagnostics ssa0) cfg cc else Some (stale_diagnostics ssa0)) = Some ssa1"
    "table_kept (stale_diagnostics ssa0) ssa1" "build_ssa_with_return_register src cfg cc rr = Some ssa"
    "same_defs (vars ssa1) (vars ssa)" "ssa_blocks ssa = ssa_blocks ssa0" "counted ssa"
proof -
  from renamed_form_yields[OF g(1), of src cc rr] obtain ssa0 where
    r: "renamed_form src cfg cc rr = Some ssa0" "form_ok cfg ssa0" "length (ssa_blocks ssa0) = length (blocks cfg)"
    by (auto simp: yields_def)
  let ?s = "stale_diagnostics ssa0"
  have s: "vars ?s = vars ssa0" "ssa_blocks ?s = ssa_blocks ssa0" by (simp_all add: stale_diagnostics_def)
  then have f: "form_ok cfg ?s" using r(2) by (simp add: form_ok_def single_defs_def)
  have l: "layout_ok ?s cfg" using g r(3) s by (simp add: layout_ok_def)
  have v: "vtable_ok (vars ?s)" using f by (simp add: form_ok_def)
  have "yields (if rr = return_reg_int (abi cc) then forward src ?s cfg cc else Some ?s) (table_kept ?s)"
    using forward_step[OF l v form_stmts_in[OF f]] v by (auto simp: table_kept_def intro: yields_Some)
  then obtain ssa1 where fw: "(if rr = return_reg_int (abi cc) then forward src ?s cfg cc else Some ?s) = Some ssa1"
      "table_kept ?s ssa1"
    by (auto simp: yields_def)
  from fw(2) have v1: "vtable_ok (vars ssa1)" "ssa_blocks ssa1 = ssa_blocks ssa0" "length (vars ssa0) \<le> length (vars ssa1)"
    using s by (simp_all add: table_kept_def)
  then have "\<forall>v \<in> set (vars ssa1). wf_origins (origins v)" by (simp add: vtable_ok_def entry_ok_def)
  from propagate_spec[OF this] obtain vs where p: "propagate (vars ssa1) = Some vs" "evolves (vars ssa1) vs" by blast
  have p': "same_defs (vars ssa1) vs"
    unfolding same_defs_def
  proof (intro conjI allI impI)
    fix k assume "k < length (vars ssa1)"
    then have e: "vs ! k = (vars ssa1 ! k)\<lparr>origins := origins (vs ! k)\<rparr>" using p(2) by (simp add: evolves_def)
    show "\<exists>orgs n. vs ! k = (vars ssa1 ! k)\<lparr>origins := orgs, use_count := n\<rparr>"
      by (rule exI[of _ "origins (vs ! k)"], rule exI[of _ "use_count (vars ssa1 ! k)"], subst e) simp
  qed (use p(2) in \<open>simp add: evolves_def\<close>)
  let ?s2 = "ssa1\<lparr>vars := vs\<rparr>"
  have len: "length vs = length (vars ssa1)" using p' by (simp add: same_defs_def)
  note refs = all_refs_in[OF v1(1) kept_blocks_ok[OF f fw(2)]]
  have "all_refs ?s2 = all_refs ssa1"
    by (rule all_refs_cong) (use same_defs_expr[OF p'] in simp_all)
  with refs len have "\<forall>i \<in> set (all_refs ?s2). unat i < length (vars ?s2)" by simp
  from count_uses_step[OF this] obtain ssa where c: "count_uses ?s2 = Some ssa" "same_defs vs (vars ssa)"
      "ssa_blocks ssa = ssa_blocks ssa1" "counted ssa"
    by (auto simp: yields_def)
  have b: "build_ssa_with_return_register src cfg cc rr = Some ssa"
    unfolding build_ssa_with_return_register_def r(1) bind.bind_lunit Let_def
    using fw(1) p(1) c(1) by (simp add: Let_def)
  have "ssa_blocks ssa = ssa_blocks ssa0" using c(3) v1(2) by simp
  from that[OF r(1) f r(3) fw b same_defs_trans[OF p' c(2)] this c(4)] show thesis .
qed

end
