(* ===== verification/SsaCorrect.thy ===== *)
theory SsaCorrect
  imports SsaProps
begin

text \<open>
  The properties of SSA construction, on every graph that construction from instructions
  returns: it is total and well formed, each variable has one defining statement, and the
  loads it resolves read, in every execution of the renamed form, a store they name.
\<close>

subsection \<open>One defining statement\<close>

lemma defs_at:
  "k < length ss \<Longrightarrow> i \<in> set (def_of (ss ! k)) \<Longrightarrow> i \<in> set (defs_of ss)"
  by (auto simp: defs_of_def)

lemma distinct_def_position:
  "distinct (defs_of ss) \<Longrightarrow> k < length ss \<Longrightarrow> l < length ss \<Longrightarrow> i \<in> set (def_of (ss ! k)) \<Longrightarrow> i \<in> set (def_of (ss ! l)) \<Longrightarrow> k = l"
proof (induction ss arbitrary: k l)
  case (Cons s ss)
  then show ?case
    using defs_at[of _ ss i] by (cases k; cases l) auto
qed simp

lemma one_def_unique:
  assumes "one_def (ssa_blocks (prog w))" "stmt_at w b j s" "stmt_at w b' j' s'" "i \<in> set (def_of s)" "i \<in> set (def_of s')"
  shows "b = b' \<and> j = j'"
proof -
  let ?bs = "ssa_blocks (prog w)"
  have b: "b < length ?bs" "b' < length ?bs" and j: "j < length (stmts (?bs ! b))" "j' < length (stmts (?bs ! b'))"
    and s: "stmts (?bs ! b) ! j = s" "stmts (?bs ! b') ! j' = s'"
    using assms(2,3) by (auto simp: stmt_at_def vec_simps)
  have i: "i \<in> set (block_defs (?bs ! b))" "i \<in> set (block_defs (?bs ! b'))"
    using defs_at[OF j(1)] defs_at[OF j(2)] s assms(4,5) by (auto simp: block_defs_def)
  then have "b = b'" using assms(1) b unfolding one_def_def by blast
  moreover have "distinct (defs_of (stmts (?bs ! b)))"
    using assms(1) b by (simp add: one_def_def block_defs_def)
  ultimately show ?thesis
    using distinct_def_position[of "stmts (?bs ! b)" j j' i] j s assms(4,5) by simp
qed

lemma one_def_distinct:
  "one_def bs \<Longrightarrow> distinct (concat (map block_defs bs))"
proof (induction bs rule: rev_induct)
  case (snoc b bs)
  have "one_def bs"
    unfolding one_def_def
  proof (intro conjI allI impI)
    fix k assume "k < length bs"
    then show "distinct (block_defs (bs ! k))"
      using snoc.prems by (auto simp: one_def_def nth_append dest: spec[of _ k])
  next
    fix k l assume "k < length bs" "l < length bs" "k \<noteq> l"
    then show "set (block_defs (bs ! k)) \<inter> set (block_defs (bs ! l)) = {}"
      using snoc.prems unfolding one_def_def by (metis length_append_singleton less_SucI nth_append)
  qed
  moreover have "distinct (block_defs b)"
    using snoc.prems unfolding one_def_def by (metis length_append_singleton lessI nth_append_length)
  moreover have "set (block_defs c) \<inter> set (block_defs b) = {}" if "c \<in> set bs" for c
  proof -
    from that obtain k where k: "k < length bs" "bs ! k = c" by (auto simp: in_set_conv_nth)
    then have "set (block_defs ((bs @ [b]) ! k)) \<inter> set (block_defs ((bs @ [b]) ! length bs)) = {}"
      using snoc.prems unfolding one_def_def by (metis length_append_singleton less_SucI lessI less_not_refl)
    then show ?thesis using k by (simp add: nth_append)
  qed
  ultimately show ?case using snoc.IH by fastforce
qed simp

text \<open>A well-formed form meets what the analysis of its memory asks of the shape of stores.\<close>

lemma form_shape:
  assumes f: "form_ok (graph w) (prog w)" and n: "length (vars (prog w)) \<le> 2 ^ 32"
  shows "stores_ok w" "single_assign w"
proof -
  have sd: "single_defs (prog w)" using f n by (simp add: form_ok_def)
  then have od: "one_def (ssa_blocks (prog w))" by (simp add: single_defs_def)
  note u = one_def_unique[OF od]
  show "single_assign w"
    unfolding single_assign_def using u[of _ _ "Assign _" _ _ "Assign _"] by fastforce
  show "stores_ok w"
    unfolding stores_ok_def
  proof (intro allI impI conjI)
    fix b j addr v assume s: "stmt_at w b j (StoreStmt addr v)"
    then have "\<exists>blk. vec_get (ssa_blocks (prog w)) b = Some blk \<and> StoreStmt addr v \<in> set (stmts blk)"
      by (metis stmt_at_def nth_mem)
    then obtain blk where blk: "vec_get (ssa_blocks (prog w)) b = Some blk" "StoreStmt addr v \<in> set (stmts blk)"
      by blast
    then have m: "blk \<in> set (ssa_blocks (prog w))" by (auto simp: vec_simps)
    then have "store_copies (vars (prog w)) (stmts blk)" "list_all (stmt_ok (vars (prog w))) (stmts blk)"
      using sd form_blocks_ok[OF f m] by (auto simp: single_defs_def list_all_iff block_ok_def)
    then have "is_copy (expr (vars (prog w) ! unat v))" "unat v < length (vars (prog w))"
      using blk(2) by (auto simp: store_copies_def list_all_iff stmt_ok_def all_in_def in_table_def)
    then show "\<exists>d u. vec_get (vars (prog w)) (unat v) = Some d \<and> expr d = EVar u"
      by (cases "expr (vars (prog w) ! unat v)") (auto simp: vec_get_def)
    fix b' j'
    show "addr' = addr" if "stmt_at w b' j' (StoreStmt addr' v)" for addr'
      using u[OF s that] s that by (auto simp: stmt_at_def)
    show "\<not> stmt_at w b' j' (Assign v)"
      using u[OF s, of b' j' "Assign v"] s by (auto simp: stmt_at_def)
    show "\<not> stmt_at w b' j' (CallStmt t args (Some v))" for t args
      using u[OF s, of b' j' "CallStmt t args (Some v)"] s by (auto simp: stmt_at_def)
    show "out_of (ssa_terminator blk') \<noteq> Some v" if "vec_get (ssa_blocks (prog w)) b' = Some blk'" for blk'
      using form_blocks_ok[OF f, of blk'] that by (auto simp: block_ok_def frame_ok_def vec_simps)
  qed
qed

lemma same_defs_advances: "same_defs vs vs' \<Longrightarrow> advances vs vs'"
  by (fastforce simp: same_defs_def advances_def vec_simps)

lemma same_defs_var:
  assumes "same_defs (vars a) (vars b)"
  shows "expr (ssa_var b i) = expr (ssa_var a i)" "memory (ssa_var b i) = memory (ssa_var a i)"
  using assms by (fastforce simp: same_defs_def ssa_var_def vec_get_def)+

subsection \<open>Properties\<close>

lemma graph_shape:
  "ids_are_indices (build_cfg_with_memory instructions mem)"
  "\<forall>b < length (blocks (build_cfg_with_memory instructions mem)).
     \<forall>s \<in> set (succs_of (build_cfg_with_memory instructions mem) b). s < length (blocks (build_cfg_with_memory instructions mem))"
  using build_graph_ok[of instructions mem] by blast+

text \<open>
  C3. SSA construction is total and well formed on every graph construction returns: no
  index is out of range and nothing diverges, the blocks are those of the graph with their
  addresses and edges, every variable that a definition, a statement or a terminator names
  exists, and the use counts are exact, modulo their 32 bits.
\<close>

theorem build_ssa_wf:
  assumes "cfg = build_cfg_with_memory instructions mem"
  shows "\<exists>ssa. build_ssa_with_return_register src cfg cc rr = Some ssa \<and>
    map ssa_block_id (ssa_blocks ssa) = [0..<length (blocks cfg)] \<and>
    map ssa_block_addr (ssa_blocks ssa) = map block_addr (blocks cfg) \<and>
    map (term_edges \<circ> ssa_terminator) (ssa_blocks ssa) = map (succs_of cfg) [0..<length (blocks cfg)] \<and>
    (\<forall>i \<in> set (all_refs ssa) \<union> set (concat (map block_defs (ssa_blocks ssa))). unat i < length (vars ssa)) \<and>
    (\<forall>k < length (vars ssa). use_count (vars ssa ! k) = of_nat (count_list (map unat (all_refs ssa)) k))"
proof -
  note g = graph_shape[of instructions mem, folded assms]
  from build_steps[OF g, of src cc rr] obtain ssa0 ssa1 ssa where
    s: "form_ok cfg (stale_diagnostics ssa0)" "length (ssa_blocks ssa0) = length (blocks cfg)"
      "table_kept (stale_diagnostics ssa0) ssa1" "build_ssa_with_return_register src cfg cc rr = Some ssa"
      "same_defs (vars ssa1) (vars ssa)" "ssa_blocks ssa = ssa_blocks ssa0" "counted ssa" by blast
  let ?s = "stale_diagnostics ssa0"
  have b: "ssa_blocks ?s = ssa_blocks ssa" using s(6) by (simp add: stale_diagnostics_def)
  have len: "length (vars ?s) \<le> length (vars ssa)" using s(3,5) by (simp add: table_kept_def same_defs_def)
  have p: "placed cfg (vars ?s) k (ssa_blocks ssa ! k)" if "k < length (blocks cfg)" for k
    using s(1,2,6) b that by (simp add: form_ok_def)
  have l: "length (ssa_blocks ssa) = length (blocks cfg)" using s(2,6) by simp
  have "map ssa_block_id (ssa_blocks ssa) = [0..<length (blocks cfg)]"
      "map ssa_block_addr (ssa_blocks ssa) = map block_addr (blocks cfg)"
      "map (term_edges \<circ> ssa_terminator) (ssa_blocks ssa) = map (succs_of cfg) [0..<length (blocks cfg)]"
    using p l by (auto simp: placed_def intro!: nth_equalityI)
  moreover have "unat i < length (vars ssa)" if "i \<in> set (all_refs ssa)" for i
    using build_refs_in[OF s(1,3,5) b] that by blast
  moreover have "unat i < length (vars ssa)" if "i \<in> set (block_defs blk)" "blk \<in> set (ssa_blocks ssa)" for i blk
    using block_defs_in[OF form_blocks_ok[OF s(1)]] that b len by fastforce
  ultimately show ?thesis using s(4,7) unfolding counted_def by auto
qed

text \<open>
  C4. Single assignment. While the table of variables fits into the 32 bits of an
  identifier, no variable of the constructed form is defined by two statements, in one
  block or in two.
\<close>

theorem build_ssa_single_assignment:
  assumes "build_ssa_with_return_register src (build_cfg_with_memory instructions mem) cc rr = Some ssa"
    and "length (vars ssa) \<le> 2 ^ 32"
  shows "distinct (concat (map block_defs (ssa_blocks ssa)))"
proof -
  from build_steps[OF graph_shape, of src instructions mem cc rr] obtain ssa0 ssa1 where
    s: "form_ok (build_cfg_with_memory instructions mem) (stale_diagnostics ssa0)" "table_kept (stale_diagnostics ssa0) ssa1"
      "same_defs (vars ssa1) (vars ssa)" "ssa_blocks ssa = ssa_blocks ssa0"
    using assms(1) by (metis option.inject)
  then have "length (vars (stale_diagnostics ssa0)) \<le> 2 ^ 32"
    using assms(2) by (simp add: table_kept_def same_defs_def)
  then have "one_def (ssa_blocks (stale_diagnostics ssa0))" using s(1) by (simp add: form_ok_def single_defs_def)
  then show ?thesis using one_def_distinct s(4) by (simp add: stale_diagnostics_def)
qed

text \<open>
  C2. The loads of the constructed form are sound, where addresses are exact. Take the
  renamed form of a built graph, with at most \<open>2 ^ 32\<close> variables, and an environment in which
  the addresses its stores and loads access are exact in the finished table
  (\<open>exact_table\<close>): where such an address resolves, the widths from the pointer to its base
  agree, a constant base lies within its width, and a frame register's value plus the
  displacement stays in the address space. Then in any execution of the form along its
  edges, a load that the result of the whole construction records as reading known stores
  yields the current value of one of them, and its definition has become a copy of that
  store's value or of the phi of all of them. What forwarding asks of the shape of the form
  (one assignment, copied store values, layout) is not assumed: renaming provides it.
\<close>

theorem built_loads_sound:
  assumes "graph w = build_cfg_with_memory instructions mem"
    and "renamed_form src (graph w) (conv w) (return_reg_int (abi (conv w))) = Some form0" "prog w = stale_diagnostics form0"
    and "build_ssa_with_cc src (graph w) (conv w) = Some ssa"
    and "exact_table w (vars ssa)" "length (vars ssa) \<le> 2 ^ 32"
    and "at_point w b j c" "stmt_at w b j (Assign i)" "exec w (Assign i) c d"
    and "expr (ssa_var (prog w) i) = ELoad p" "memory (ssa_var ssa i) = Some (LoadAccess sp S None)"
  shows "(\<exists>s \<in> set S. env d i = env d s) \<and>
    (\<exists>u. expr (ssa_var ssa i) = EVar u \<and> (S = [u] \<or> expr (ssa_var ssa u) = EPhi S))"
proof -
  note g = graph_shape[of instructions mem, folded assms(1)]
  from build_steps[OF g, of src "conv w" "return_reg_int (abi (conv w))"] assms(2,3,4) obtain ssa1 where
    s: "form_ok (graph w) (prog w)" "length (ssa_blocks form0) = length (blocks (graph w))"
      "forward src (prog w) (graph w) (conv w) = Some ssa1" "same_defs (vars ssa1) (vars ssa)"
      "table_kept (prog w) ssa1"
    by (auto simp: build_ssa_with_cc_def)
  have n: "length (vars ssa1) \<le> 2 ^ 32" "length (vars (prog w)) \<le> 2 ^ 32"
    using s(4,5) assms(6) by (simp_all add: table_kept_def same_defs_def)
  note shape = form_shape[OF s(1) n(2)]
  have l: "layout_ok (prog w) (graph w)"
    using g s(2) assms(3) by (simp add: layout_ok_def stale_diagnostics_def)
  have t: "exact_table w (vars ssa1)"
    using exact_table_advance[OF same_defs_advances[OF s(4)] assms(5)] .
  have m: "memory (ssa_var ssa1 i) = Some (LoadAccess sp S None)"
    using assms(11) same_defs_var[OF s(4)] by simp
  from claim_reads[OF forward_claims[OF shape l s(3) t n(1) assms(8,10)] assms(7-9) m]
  show ?thesis using same_defs_var[OF s(4)] by simp
qed

subsection \<open>A push and a pop\<close>

definition push_pop :: "(u64 \<times> Instruction) list" where
  "push_pop =
     [(0x1000, new_instruction 3 [] [Store Ram (register 16 4) (constant_vn 7 4), Load (register 0 4) Ram (register 16 4)]),
      (0x1003, new_instruction 1 [] [Return (register 0x288 8)])]"

definition table_view :: "SsaCfg \<Rightarrow> _" where
  "table_view s = (map (\<lambda>v. (expr v, memory v, var_size v, space (varnode v), offset (varnode v), call_return v)) (vars s),
     map stmts (ssa_blocks s), map ssa_terminator (ssa_blocks s))"

lemma push_pop_form:
  "map_option table_view (renamed_form None (build_cfg push_pop) Cdecl32 (return_reg_int (abi Cdecl32))) = Some
    ([(EUnknown, None, 4, Register, 16, False), (EConst 7 4, None, 4, Const, 7, False),
      (EVar 1, Some (StoreAccess Ram), 4, Unique, 4076863490, False),
      (ELoad 0, Some (LoadAccess Ram [] (Some UnmodeledMemory)), 4, Register, 0, False)],
     [[StoreStmt 0 2, Assign 3]], [SReturn (Some 3)])"
  by code_simp

lemma push_pop_ssa:
  "map_option (\<lambda>s. (table_view s, map use_count (vars s))) (build_ssa_with_cc None (build_cfg push_pop) Cdecl32) = Some
    (([(EUnknown, None, 4, Register, 16, False), (EConst 7 4, None, 4, Const, 7, False),
      (EVar 1, Some (StoreAccess Ram), 4, Unique, 4076863490, False),
      (EVar 2, Some (LoadAccess Ram [2] None), 4, Register, 0, False)],
     [[StoreStmt 0 2, Assign 3]], [SReturn (Some 3)]), [1, 1, 2, 1])"
  by code_simp

theorem build_ssa_wf_witness:
  "\<exists>ssa. build_ssa_with_return_register None (build_cfg push_pop) Cdecl32 None = Some ssa \<and>
    map ssa_block_id (ssa_blocks ssa) = [0..<length (blocks (build_cfg push_pop))]"
  using build_ssa_wf[OF refl, of None push_pop "\<lambda>va len. None" Cdecl32 None] by (auto simp: build_cfg_def)

theorem build_ssa_single_assignment_witness:
  "\<exists>ssa. build_ssa_with_cc None (build_cfg push_pop) Cdecl32 = Some ssa \<and> distinct (concat (map block_defs (ssa_blocks ssa)))"
proof -
  obtain ssa where s: "build_ssa_with_cc None (build_cfg push_pop) Cdecl32 = Some ssa" "length (map use_count (vars ssa)) = 4"
    using push_pop_ssa by (auto simp del: length_map)
  then have "length (vars ssa) = 4" by simp
  then show ?thesis
    using build_ssa_single_assignment[of None push_pop "\<lambda>va len. None" Cdecl32 "return_reg_int (abi Cdecl32)" ssa] s(1)
    by (simp add: build_cfg_def build_ssa_with_cc_def)
qed

definition push_world :: "SsaCfg \<Rightarrow> (nat \<times> int \<times> nat) world" where
  "push_world form0 = \<lparr>encode = \<lambda>n x k. (n, x, k), base_of = \<lambda>_. 0x1000, prog = stale_diagnostics form0,
     graph = build_cfg push_pop, conv = Cdecl32\<rparr>"

theorem built_loads_sound_witness:
  "\<exists>form0 c d. at_point (push_world form0) 0 1 c \<and> exec (push_world form0) (Assign 3) c d \<and> env d 3 = env d 2 \<and> env d 2 = 7"
proof -
  obtain form0 where f: "renamed_form None (build_cfg push_pop) Cdecl32 (return_reg_int (abi Cdecl32)) = Some form0"
      "table_view form0 = ([(EUnknown, None, 4, Register, 16, False), (EConst 7 4, None, 4, Const, 7, False),
      (EVar 1, Some (StoreAccess Ram), 4, Unique, 4076863490, False),
      (ELoad 0, Some (LoadAccess Ram [] (Some UnmodeledMemory)), 4, Register, 0, False)],
     [[StoreStmt 0 2, Assign 3]], [SReturn (Some 3)])"
    using push_pop_form by auto
  obtain ssa where s: "build_ssa_with_cc None (build_cfg push_pop) Cdecl32 = Some ssa"
      "table_view ssa = ([(EUnknown, None, 4, Register, 16, False), (EConst 7 4, None, 4, Const, 7, False),
      (EVar 1, Some (StoreAccess Ram), 4, Unique, 4076863490, False),
      (EVar 2, Some (LoadAccess Ram [2] None), 4, Register, 0, False)],
     [[StoreStmt 0 2, Assign 3]], [SReturn (Some 3)])"
    using push_pop_ssa by auto
  let ?w = "push_world form0"
  have sel: "prog ?w = stale_diagnostics form0" "graph ?w = build_cfg push_pop" "conv ?w = Cdecl32"
    "base_of ?w = (\<lambda>_. 0x1000)" "encode ?w = (\<lambda>n x k. (n, x, k))"
    "vars (stale_diagnostics form0) = vars form0" "ssa_blocks (stale_diagnostics form0) = ssa_blocks form0"
    by (simp_all add: push_world_def stale_diagnostics_def)
  obtain v0 v1 v2 v3 where vs: "vars form0 = [v0, v1, v2, v3]"
    and e: "expr v0 = EUnknown" "space (varnode v0) = Register" "offset (varnode v0) = 16" "\<not> call_return v0" "var_size v0 = 4"
      "expr v1 = EConst 7 4" "var_size v1 = 4" "expr v2 = EVar 1" "var_size v2 = 4" "memory v2 = Some (StoreAccess Ram)"
      "expr v3 = ELoad 0" "var_size v3 = 4" "memory v3 = Some (LoadAccess Ram [] (Some UnmodeledMemory))"
    using f(2) by (auto simp: table_view_def map_eq_Cons_conv)
  obtain blk where blk: "ssa_blocks form0 = [blk]" "stmts blk = [StoreStmt 0 2, Assign 3]"
    using f(2) by (auto simp: table_view_def map_eq_Cons_conv)
  obtain u0 u1 u2 u3 where us: "vars ssa = [u0, u1, u2, u3]" "memory u3 = Some (LoadAccess Ram [2] None)"
    and u: "expr u0 = EUnknown" "expr u1 = EConst 7 4" "expr u2 = EVar 1" "expr u3 = EVar 2"
      "var_size u0 = 4" "var_size u1 = 4" "var_size u2 = 4" "var_size u3 = 4"
    using s(2) by (auto simp: table_view_def map_eq_Cons_conv)
  have var: "vec_get (vars form0) (unat (0::VarId)) = Some v0" "vec_get (vars form0) (unat (1::VarId)) = Some v1"
    "vec_get (vars form0) (unat (2::VarId)) = Some v2" "vec_get (vars form0) (unat (3::VarId)) = Some v3"
    by (simp_all add: vs vec_get_def)
  have ssa: "ssa_var (prog ?w) 2 = v2" "ssa_var (prog ?w) 3 = v3" "memory (ssa_var ssa 3) = Some (LoadAccess Ram [2] None)"
    using var us by (simp_all add: ssa_var_def sel vec_get_def)
  have size: "size_in ?w 2 = 4" "size_in ?w 3 = 4" using e ssa by (simp_all add: size_in_def)
  have t: "exact_table ?w (vars ssa)"
    using u by (intro copying_exact) (simp_all add: copying_def us sel)
  have sp: "value_in ?w c 0 0x1000" for c
    using addr_value.frame[OF var(1), of "frame_registers Cdecl32" "\<lambda>_. 0x1000"] e
    by (simp add: value_in_def sel is_frame_def take_bit_eq_mod)
  have one: "addr_value (vars form0) (frame_registers Cdecl32) (\<lambda>_. 0x1000) h 1 (take_bit (8 * unat (var_size v1)) (uint (7::u64)))" for h
    by (rule addr_value.const[OF var(2) e(6)])
  have seven: "value_in ?w c 2 7" for c
    using addr_value.copy[OF var(3) e(8) one] e by (simp add: value_in_def sel take_bit_eq_mod)
  let ?c0 = "\<lparr>env = \<lambda>_. 0, ram = \<lambda>_. (0, 0, 0), seen = \<lambda>_. {}\<rparr> :: (nat \<times> int \<times> nat) config"
  let ?c1 = "?c0\<lparr>env := (env ?c0)(2 := 7), ram := write_bytes ?w 0x1000 (unat (size_in ?w 2)) 7 (ram ?c0)\<rparr>"
  have st: "exec ?w (StoreStmt 0 2) ?c0 ?c1"
    using exec.store[OF sp seven, of ?c0] e(10) by (simp add: ssa other_space_def)
  have "entry (graph ?w) = 0" using build_graph_ok[of push_pop "\<lambda>va len. None"] by (simp add: sel build_cfg_def)
  then have r0: "reach ?w 0 ?c0" using reach.start[of ?c0 ?w] by simp
  have "execs ?w ([] @ [StoreStmt 0 2]) ?c0 ?c1" by (rule execs.snoc[OF execs.none st])
  then have p: "at_point ?w 0 1 ?c1"
    unfolding at_point_def using r0 blk by (intro exI[of _ blk] exI[of _ ?c0]) (simp add: sel vec_get_def)
  have "\<forall>y. 0 \<le> y \<and> y < 2 ^ (8 * unat (size_in ?w 3)) \<and> spells ?w 0x1000 (unat (size_in ?w 3)) y (ram ?c1) \<longrightarrow> 7 = y"
    by (auto simp: spells_def write_bytes_def size sel) (metis zero_less_numeral)
  then obtain d where d: "exec ?w (Assign 3) ?c1 d" "env d 2 = 7"
    using exec.load[where w = ?w and i = 3 and p = 0 and c = ?c1 and a = "0x1000" and x = 7] sp e
    by (auto simp: ssa load_space_def)
  have sa: "stmt_at ?w 0 1 (Assign 3)" using blk by (simp add: stmt_at_def sel vec_get_def)
  have "\<exists>s \<in> set [2]. env d 3 = env d s"
    using built_loads_sound[where w = ?w and src = None and instructions = push_pop and mem = "\<lambda>va len. None" and p = 0,
        OF _ _ sel(1) _ t _ p sa d(1) _ ssa(3)] f s us e ssa(2) by (simp add: sel(2,3) build_cfg_def)
  then have "env d 3 = env d 2" by simp
  then show ?thesis using p d by blast
qed

end
