(* ===== verification/SsaRegisters.thy ===== *)
theory SsaRegisters
  imports SsaProps
begin

unbundle bit_operations_syntax

text \<open>
  Registers of several widths at one offset: a one or two byte write inserts its bytes
  into the wider registers that are known. The examples at the end show what the scheme
  does not keep in step: narrower aliases, reads of a narrower register, and the outputs of
  user operations.
\<close>

lemma clear_low:
  fixes x :: int
  shows "x AND NOT (mask n) = x - x mod 2 ^ n"
proof -
  have "(x AND NOT (mask n)) + take_bit n x = (x AND NOT (mask n)) OR take_bit n x"
    by (rule disjunctive_add_eq_or) (rule bit_eqI, auto simp: bit_simps)
  also have "\<dots> = x"
    by (rule bit_eqI) (auto simp: bit_simps)
  finally show ?thesis by (simp add: take_bit_eq_mod)
qed

lemma insert_low:
  fixes x y :: u64
  assumes "n < 64" "uint y < 2 ^ n"
  shows "uint ((x AND NOT (mask n)) OR y) = uint x - uint x mod 2 ^ n + uint y"
proof -
  have y: "\<not> bit (uint y) k" if "n \<le> k" for k
  proof -
    have "take_bit n (uint y) = uint y" using assms(2) by (simp add: take_bit_int_eq_self)
    then show ?thesis using that by (metis bit_take_bit_iff not_less)
  qed
  have "uint ((x AND NOT (mask n)) OR y) = (uint x AND NOT (mask n)) OR uint y"
    by (rule bit_eqI) (auto simp: bit_simps bit_uint_iff dest: bit_imp_le_length)
  also have "\<dots> = (uint x AND NOT (mask n)) + uint y"
    by (rule disjunctive_add_eq_or [symmetric]) (rule bit_eqI, use y in \<open>auto simp: bit_simps not_le\<close>)
  finally show ?thesis by (simp add: clear_low)
qed

lemma high_mask_values:
  "high_mask 4 1 = 0xFFFFFF00" "high_mask 4 2 = 0xFFFF0000"
  "high_mask 8 1 = NOT (mask 8)" "high_mask 8 2 = NOT (mask 16)"
  "mask 32 AND high_mask 4 1 = mask 32 AND NOT (mask 8)" "mask 32 AND high_mask 4 2 = mask 32 AND NOT (mask 16)"
  by code_simp+

subsection \<open>The merge\<close>

lemma mark_synthetic_expr: "mark_synthetic is ssa = Some ssa' \<Longrightarrow> map expr (vars ssa') = map expr (vars ssa)"
proof (induction "is" arbitrary: ssa)
  case (Cons i "is")
  then obtain v where v: "unat i < length (vars ssa)" "v = vars ssa ! unat i"
      "mark_synthetic is (ssa\<lparr>vars := (vars ssa)[unat i := set_synthetic v]\<rparr>) = Some ssa'"
    by (auto simp: update_var_def vec_simps split: bind_splits)
  then have "map expr (vars ssa') = map expr ((vars ssa)[unat i := set_synthetic v])" using Cons.IH[OF v(3)] by simp
  also have "\<dots> = map expr (vars ssa)"
    using v(1,2) by (intro nth_equalityI) (auto simp: nth_list_update set_synthetic_def)
  finally show ?case .
qed simp

lemma new_var_expr: "new_var src vn e sz ssa = (i, ssa') \<Longrightarrow> i = of_nat (length (vars ssa)) \<and> map expr (vars ssa') = map expr (vars ssa) @ [e]"
  using new_var_fields by fastforce

text \<open>The four entries a merge of \<open>i\<close> into \<open>old\<close> appends to a table of \<open>n\<close>.\<close>

definition merge_entries_at :: "nat \<Rightarrow> u64 \<Rightarrow> u32 \<Rightarrow> VarId \<Rightarrow> VarId \<Rightarrow> Expr list" where
  "merge_entries_at n msk parent old i =
     [EConst msk parent, EBinOp BAnd old (of_nat n), EUnaryOp UZext i, EBinOp BOr (of_nat (n + 1)) (of_nat (n + 2))]"

lemma merge_parent_result:
  assumes "merge_parent src out i parent (ssa, m) = Some (ssa', m')"
  shows "if parent \<le> vsize out \<or> map_of m (reg_sub out parent) = None then ssa' = ssa \<and> m' = m
    else map expr (vars ssa') = map expr (vars ssa) @
           merge_entries_at (length (vars ssa)) (high_mask parent (vsize out)) parent (the (map_of m (reg_sub out parent))) i \<and>
         m' = map_insert (reg_sub out parent) (of_nat (length (vars ssa) + 3)) m"
proof (cases "parent \<le> vsize out \<or> map_of m (reg_sub out parent) = None")
  case True
  then show ?thesis using assms by (auto simp: merge_parent_def split: if_splits)
next
  case False
  then obtain old where old: "map_of m (reg_sub out parent) = Some old" by blast
  let ?vn = "reg_sub out parent" and ?mask = "high_mask parent (vsize out)"
  obtain k ssa1 where n1: "new_var src (constant_vn ?mask parent) (EConst ?mask parent) parent ssa = (k, ssa1)" by fastforce
  obtain h ssa2 where n2: "new_var src ?vn (EBinOp BAnd old k) parent ssa1 = (h, ssa2)" by fastforce
  obtain z ssa3 where n3: "new_var src ?vn (EUnaryOp UZext i) parent ssa2 = (z, ssa3)" by fastforce
  obtain r ssa4 where n4: "new_var src ?vn (EBinOp BOr h z) parent ssa3 = (r, ssa4)" by fastforce
  note e = new_var_expr[OF n1] new_var_expr[OF n2] new_var_expr[OF n3] new_var_expr[OF n4]
  have l: "length (vars ssa1) = length (vars ssa) + 1" "length (vars ssa2) = length (vars ssa) + 2" "length (vars ssa3) = length (vars ssa) + 3"
    using arg_cong[where f = length] e by (metis length_map length_append_singleton Suc_eq_plus1 add_Suc_right numeral_2_eq_2 numeral_3_eq_3 One_nat_def add.commute plus_1_eq_Suc)+
  from assms False old have f: "mark_synthetic [k, h, z, r] ssa4 = Some ssa'" "m' = map_insert ?vn r m"
    by (auto simp: merge_parent_def Let_def n1 n2 n3 n4 simp del: mark_synthetic.simps split: bind_splits)
  show ?thesis
    using mark_synthetic_expr[OF f(1)] e l f(2) False old by (simp add: merge_entries_at_def)
qed

subsection \<open>Its value\<close>

definition agrees :: "(VarId \<Rightarrow> u64) \<Rightarrow> Expr \<Rightarrow> u64 \<Rightarrow> bool" where
  "agrees val_of e x \<longleftrightarrow> (case e of
     EConst c s \<Rightarrow> x = c
   | EBinOp k a b \<Rightarrow> (k = BAnd \<longrightarrow> x = val_of a AND val_of b) \<and> (k = BOr \<longrightarrow> x = val_of a OR val_of b)
   | EUnaryOp k a \<Rightarrow> (k = UZext \<longrightarrow> x = val_of a)
   | _ \<Rightarrow> True)"

definition all_agree :: "(VarId \<Rightarrow> u64) \<Rightarrow> Expr list \<Rightarrow> bool" where
  "all_agree val_of es \<longleftrightarrow> (\<forall>j < length es. agrees val_of (es ! j) (val_of (of_nat j)))"

lemma merged_value:
  assumes "all_agree val_of es" "es = pre @ merge_entries_at (length pre) msk parent old i @ post"
  shows "val_of (of_nat (length pre + 3)) = (val_of old AND msk) OR val_of i"
proof -
  let ?n = "length pre"
  have e: "es ! ?n = EConst msk parent" "es ! (?n + 1) = EBinOp BAnd old (of_nat ?n)" "es ! (?n + 2) = EUnaryOp UZext i"
    "es ! (?n + 3) = EBinOp BOr (of_nat (?n + 1)) (of_nat (?n + 2))"
    by (simp_all add: assms(2) merge_entries_at_def nth_append)
  have l: "?n + j < length es" if "j \<le> 3" for j
    using that by (simp add: assms(2) merge_entries_at_def)
  have "val_of (of_nat ?n) = msk" "val_of (of_nat (?n + 1)) = val_of old AND val_of (of_nat ?n)" "val_of (of_nat (?n + 2)) = val_of i"
    "val_of (of_nat (?n + 3)) = val_of (of_nat (?n + 1)) OR val_of (of_nat (?n + 2))"
    using assms(1) l[of 0] l[of 1] l[of 2] l[of 3] e unfolding all_agree_def agrees_def by fastforce+
  then show ?thesis by simp
qed

lemma inserted_value:
  fixes x y :: u64
  assumes p: "parent = 4 \<or> parent = 8" and n: "sz = 1 \<or> sz = 2"
    and x: "uint x < 2 ^ (8 * unat parent)" and y: "uint y < 2 ^ (8 * unat sz)"
  shows "uint ((x AND high_mask parent sz) OR y) = uint x - uint x mod 2 ^ (8 * unat sz) + uint y"
proof -
  have m: "x AND high_mask parent sz = x AND NOT (mask (8 * unat sz))"
  proof (cases "parent = 8")
    case True
    then show ?thesis using n by (auto simp: high_mask_values)
  next
    case False
    then have 4: "parent = 4" using p by simp
    then have "uint x < 2 ^ 32" using x by simp
    then have "take_bit 32 (uint x) = uint x" by (intro take_bit_int_eq_self) simp_all
    then have "take_bit 32 x = x" by (simp add: word_uint_eq_iff unsigned_take_bit_eq)
    then have "x AND high_mask 4 sz = take_bit 32 x AND high_mask 4 sz" by simp
    also have "\<dots> = take_bit 32 x AND NOT (mask (8 * unat sz))"
      using n by (elim disjE) (simp_all add: high_mask_values(5,6) take_bit_eq_mask[of 32 x] and.assoc)
    finally show ?thesis using \<open>take_bit 32 x = x\<close> 4 by simp
  qed
  have "8 * unat sz < 64" using n by auto
  from insert_low[OF this y, of x] show ?thesis by (simp add: m)
qed

lemma propagate_write_result:
  assumes "propagate_write src out i (ssa, current) = Some (ssa', current')"
    and "space out = Register" "vsize out = 1 \<or> vsize out = 2" "parent = 4 \<or> parent = 8"
    and "map_of current (reg_sub out parent) = Some old"
  shows "\<exists>pre post. map expr (vars ssa') = pre @ merge_entries_at (length pre) (high_mask parent (vsize out)) parent old i @ post \<and>
    map_of current' (reg_sub out parent) = Some (of_nat (length pre + 3))"
proof -
  let ?m = "map_insert out i current"
  obtain ssa1 m1 where s: "merge_parent src out i 4 (ssa, ?m) = Some (ssa1, m1)" "merge_parent src out i 8 (ssa1, m1) = Some (ssa', current')"
    using assms(1-3) by (auto simp: propagate_write_def Let_def split: bind_splits)
  have ne: "out \<noteq> reg_sub out 4" "out \<noteq> reg_sub out 8" "\<not> 4 \<le> vsize out" "\<not> 8 \<le> vsize out" "reg_sub out 4 \<noteq> reg_sub out 8"
    using assms(3) by (auto simp: reg_sub_def word_le_nat_alt dest!: arg_cong[where f = vsize])
  note r4 = merge_parent_result[OF s(1)] and r8 = merge_parent_result[OF s(2)]
  have l: "length (vars ssa) = length (map expr (vars ssa))" "length (vars ssa1) = length (map expr (vars ssa1))" by simp_all
  show ?thesis
  proof (cases "parent = 4")
    case True
    with assms(5) ne have 1: "map expr (vars ssa1) = map expr (vars ssa) @
           merge_entries_at (length (vars ssa)) (high_mask 4 (vsize out)) 4 old i"
        "m1 = map_insert (reg_sub out 4) (of_nat (length (vars ssa) + 3)) ?m"
      using r4 by auto
    moreover obtain post where "map expr (vars ssa') = map expr (vars ssa1) @ post"
        "map_of current' (reg_sub out 4) = map_of m1 (reg_sub out 4)"
      using r8 ne by (fastforce split: if_splits)
    ultimately show ?thesis
      unfolding True by (intro exI[of _ "map expr (vars ssa)"] exI[of _ post]) simp
  next
    case False
    then have 8: "parent = 8" using assms(4) by simp
    have "map_of m1 (reg_sub out 8) = Some old"
      using r4 ne assms(5) 8 by (auto split: if_splits)
    then have "map expr (vars ssa') = map expr (vars ssa1) @ merge_entries_at (length (vars ssa1)) (high_mask 8 (vsize out)) 8 old i"
      "current' = map_insert (reg_sub out 8) (of_nat (length (vars ssa1) + 3)) m1"
      using r8 ne by auto
    then show ?thesis
      unfolding 8 by (intro exI[of _ "map expr (vars ssa1)"] exI[of _ "[]"]) simp
  qed
qed

text \<open>
  C9. A one or two byte write to a register inserts its bytes into the four and the eight
  byte register at the same offset, where these are known: whatever values agree with the
  defining expressions of the table, the variable such a register then holds has the new low
  bytes and the old bytes above them. The two byte register is not among them: it keeps its
  old value (\<open>byte_write_leaves_word\<close>).
\<close>

theorem narrow_write_inserts:
  assumes "propagate_write src out i (ssa, current) = Some (ssa', current')"
    and "space out = Register" "vsize out = 1 \<or> vsize out = 2" "parent = 4 \<or> parent = 8"
    and "map_of current (reg_sub out parent) = Some old"
    and "all_agree val_of (map expr (vars ssa'))"
    and "uint (val_of old) < 2 ^ (8 * unat parent)" "uint (val_of i) < 2 ^ (8 * unat (vsize out))"
  shows "\<exists>m. map_of current' (reg_sub out parent) = Some m \<and>
    uint (val_of m) = uint (val_of old) - uint (val_of old) mod 2 ^ (8 * unat (vsize out)) + uint (val_of i)"
proof -
  from propagate_write_result[OF assms(1-5)] obtain pre post where
    p: "map expr (vars ssa') = pre @ merge_entries_at (length pre) (high_mask parent (vsize out)) parent old i @ post"
      "map_of current' (reg_sub out parent) = Some (of_nat (length pre + 3))" by blast
  show ?thesis
    using p(2) inserted_value[OF assms(4,3,7,8)] by (simp only: merged_value[OF assms(6) p(1)] option.inject ex_simps simp_thms)
qed

text \<open>\<open>mov eax, 0x12345678; mov al, 1\<close>, just after the expression of the second write.\<close>

definition al_scope :: scope where
  "al_scope = (\<lparr>ssa_blocks = [], vars = [(blank_vardef 4)\<lparr>expr := EConst 0x12345678 4\<rparr>, (blank_vardef 1)\<lparr>expr := EConst 1 1\<rparr>],
     ssa_entry = 0, ssa_diagnostics = []\<rparr>, [(register 0 4, 0)])"

lemma first_six: "P 0 \<Longrightarrow> P 1 \<Longrightarrow> P 2 \<Longrightarrow> P 3 \<Longrightarrow> P 4 \<Longrightarrow> P 5 \<Longrightarrow> j < 6 \<Longrightarrow> P (j :: nat)"
proof -
  assume p: "P 0" "P 1" "P 2" "P 3" "P 4" "P 5" and "j < 6"
  then have "j \<in> {0, 1, 2, 3, 4, 5}" by auto
  with p show "P j" by blast
qed

theorem narrow_write_inserts_witness:
  "\<exists>ssa' current' m. propagate_write None (register 0 1) 1 al_scope = Some (ssa', current') \<and>
    map_of current' (register 0 4) = Some m \<and>
    uint ((\<lambda>i. [0x12345678, 1, 0xFFFFFF00, 0x12345600, 1, 0x12345601 :: u64] ! unat i) m) = 0x12345601"
proof -
  let ?val = "\<lambda>i :: VarId. [0x12345678, 1, 0xFFFFFF00, 0x12345600, 1, 0x12345601 :: u64] ! unat i"
  have "map_option (\<lambda>s. (map expr (vars (fst s)), map_of (snd s) (register 0 4))) (propagate_write None (register 0 1) 1 al_scope) = Some
    ([EConst 0x12345678 4, EConst 1 1, EConst 0xFFFFFF00 4, EBinOp BAnd 0 2, EUnaryOp UZext 1, EBinOp BOr 3 4], Some 5)"
    by code_simp
  then obtain ssa' current' where p: "propagate_write None (register 0 1) 1 (fst al_scope, snd al_scope) = Some (ssa', current')"
      "map expr (vars ssa') = [EConst 0x12345678 4, EConst 1 1, EConst 0xFFFFFF00 4, EBinOp BAnd 0 2, EUnaryOp UZext 1, EBinOp BOr 3 4]"
    by auto
  have "all_agree ?val (map expr (vars ssa'))"
    unfolding p(2) all_agree_def by (intro allI impI, rule first_six) (simp_all add: agrees_def)
  from narrow_write_inserts[OF p(1) _ _ _ _ this, of 4 0] p(1) show ?thesis
    by (auto simp: al_scope_def register_def reg_sub_def)
qed

subsection \<open>What the scheme does not keep\<close>

text \<open>The defining expressions, the statements and the exits of a function of two instructions.\<close>

definition outcome :: "PcodeOp list \<Rightarrow> (Expr list \<times> Stmt list list \<times> SsaTerminator list) option" where
  "outcome ops = map_option (\<lambda>s. (map expr (vars s), map stmts (ssa_blocks s), map ssa_terminator (ssa_blocks s)))
     (build_ssa_with_cc None (build_cfg [(0x1000, new_instruction 3 [] ops), (0x1003, new_instruction 1 [] [Return (register 0x288 8)])])
       Cdecl32)"

text \<open>
  A user operation with an output is dropped, \<open>get_output\<close> having no case for it: the
  register keeps the value it had, and the function returns the five.
\<close>

lemma user_output_dropped: "process_op (CallOther (Some out) f inputs) origin w = Some w"
  by (simp add: process_op_def get_output_def)

lemma user_output_stale:
  "outcome [Copy (register 0 4) (constant_vn 5 4), CallOther (Some (register 0 4)) 7 []] =
     Some ([EConst 5 4, EVar 0], [[Assign 1]], [SReturn (Some 1)])"
  by code_simp

text \<open>\<open>mov ecx, 0x1234; movzx eax, cl\<close> returns an extension of all of \<open>ecx\<close>.\<close>

lemma narrow_read_whole:
  "outcome [Copy (register 4 4) (constant_vn 0x1234 4), IntZext (register 0 4) (register 4 1)] =
     Some ([EConst 0x1234 4, EVar 0, EUnaryOp UZext 1], [[Assign 1, Assign 2]], [SReturn (Some 2)])"
  by code_simp

text \<open>\<open>mov cx, 0x1234; mov cl, 1; movzx eax, cx\<close> returns the \<open>cx\<close> from before the byte write.\<close>

lemma byte_write_leaves_word:
  "propagate_write src out i (ssa, current) = Some (ssa', current') \<Longrightarrow> vsize out = 1 \<Longrightarrow>
     map_of current' (reg_sub out 2) = map_of current (reg_sub out 2)"
  by (auto simp: propagate_write_def merge_parent_def Let_def reg_sub_def split: if_splits option.splits bind_splits prod.splits
      dest!: arg_cong[where f = vsize])

lemma byte_write_stale:
  "outcome [Copy (register 4 2) (constant_vn 0x1234 2), Copy (register 4 1) (constant_vn 1 1), IntZext (register 0 4) (register 4 2)] =
     Some ([EConst 0x1234 2, EVar 0, EConst 1 1, EVar 2, EUnaryOp UZext 1], [[Assign 1, Assign 3, Assign 4]], [SReturn (Some 4)])"
  by code_simp

end
