(* ===== verification/Slice.thy ===== *)
theory Slice
  imports SsaBuild
begin

text \<open>
  The bounded backward traversal of an SSA form, \<^verbatim>\<open>rsleigh-decompile/src/slice.rs\<close>: from a
  root variable along the dependencies of definitions, breadth first, with limits on the
  nodes, the depth, the recorded inputs and the blocks. A \<open>HashMap\<close> is an association
  list, a \<open>HashSet\<close> a list of its elements, a \<open>BTreeSet\<close> an ascending list. The left result
  is \<open>Err\<close>; \<open>None\<close> is a panic.
\<close>

definition MAX_NODES :: usize where
  "MAX_NODES = 256"

definition MAX_DEPTH :: usize where
  "MAX_DEPTH = 32"

definition MAX_INPUTS :: usize where
  "MAX_INPUTS = 2048"

record SliceInput =
  input_var :: VarId
  stop_reason :: "string option"

record SliceNode =
  node_var :: VarId
  node_depth :: usize
  block_ids :: "BlockId list"
  node_kind :: string
  node_origins :: Origins
  node_memory :: "Access option"
  origins_unavailable :: "string option"
  node_size :: u32
  constant_value :: "u64 option"
  parameter :: "string option"
  inputs :: "SliceInput list"
  inputs_total :: usize
  node_boundary :: "string option"

record SliceBlock =
  slice_block_id :: BlockId
  slice_block_address :: string

record BackwardSlice =
  slice_root :: VarId
  slice_nodes :: "SliceNode list"
  slice_blocks :: "SliceBlock list"
  slice_truncated :: bool
  slice_complete :: bool
  max_nodes :: usize
  max_depth :: usize
  max_inputs :: usize

subsection \<open>Definition sites\<close>

record slice_sites =
  definitions :: "(VarId \<times> BlockId list) list"
  call_outputs :: "VarId list"

definition sites_of :: "slice_sites \<Rightarrow> VarId \<Rightarrow> BlockId list" where
  "sites_of d v = (case map_of (definitions d) v of Some bs \<Rightarrow> bs | None \<Rightarrow> [])"

definition add_site :: "BlockId \<Rightarrow> VarId \<Rightarrow> slice_sites \<Rightarrow> slice_sites" where
  "add_site b v d = d\<lparr>definitions := map_insert v (insort_insert b (sites_of d v)) (definitions d)\<rparr>"

definition add_call_site :: "BlockId \<Rightarrow> VarId \<Rightarrow> slice_sites \<Rightarrow> slice_sites" where
  "add_call_site b v d = add_site b v (d\<lparr>call_outputs := List.insert v (call_outputs d)\<rparr>)"

primrec stmt_sites :: "BlockId \<Rightarrow> Stmt \<Rightarrow> slice_sites \<Rightarrow> slice_sites" where
  "stmt_sites b (Assign v) d = add_site b v d"
| "stmt_sites b (StoreStmt addr val) d = d"
| "stmt_sites b (CallStmt target args out) d = (case out of Some v \<Rightarrow> add_call_site b v d | None \<Rightarrow> d)"

definition terminator_sites :: "BlockId \<Rightarrow> SsaTerminator \<Rightarrow> slice_sites \<Rightarrow> slice_sites" where
  "terminator_sites b t d = (case t of
     SCall target args (Some v) fallthrough \<Rightarrow> add_call_site b v d
   | _ \<Rightarrow> d)"

definition block_sites :: "SsaBlock \<Rightarrow> slice_sites \<Rightarrow> slice_sites" where
  "block_sites blk d = terminator_sites (ssa_block_id blk) (ssa_terminator blk)
     (fold (stmt_sites (ssa_block_id blk)) (stmts blk) d)"

definition collect_sites :: "SsaCfg \<Rightarrow> slice_sites" where
  "collect_sites ssa = fold block_sites (ssa_blocks ssa) \<lparr>definitions = [], call_outputs = []\<rparr>"

subsection \<open>Dependencies\<close>

primrec debug_binop :: "BinOpKind \<Rightarrow> string" where
  "debug_binop BAdd = ''Add''" | "debug_binop BSub = ''Sub''" | "debug_binop BMult = ''Mult''"
| "debug_binop BDiv = ''Div''" | "debug_binop BSDiv = ''SDiv''" | "debug_binop BRem = ''Rem''"
| "debug_binop BSRem = ''SRem''" | "debug_binop BAnd = ''And''" | "debug_binop BOr = ''Or''"
| "debug_binop BXor = ''Xor''" | "debug_binop BLsl = ''Lsl''" | "debug_binop BLsr = ''Lsr''"
| "debug_binop BAsr = ''Asr''" | "debug_binop BEq = ''Eq''" | "debug_binop BNotEq = ''NotEq''"
| "debug_binop BLess = ''Less''" | "debug_binop BLessEq = ''LessEq''" | "debug_binop BSLess = ''SLess''"
| "debug_binop BSLessEq = ''SLessEq''" | "debug_binop BCarry = ''Carry''" | "debug_binop BSCarry = ''SCarry''"
| "debug_binop BSBorrow = ''SBorrow''" | "debug_binop BBoolAnd = ''BoolAnd''" | "debug_binop BBoolOr = ''BoolOr''"
| "debug_binop BBoolXor = ''BoolXor''" | "debug_binop BFloatAdd = ''FloatAdd''" | "debug_binop BFloatSub = ''FloatSub''"
| "debug_binop BFloatMult = ''FloatMult''" | "debug_binop BFloatDiv = ''FloatDiv''" | "debug_binop BFloatEq = ''FloatEq''"
| "debug_binop BFloatNotEq = ''FloatNotEq''" | "debug_binop BFloatLess = ''FloatLess''"
| "debug_binop BFloatLessEq = ''FloatLessEq''"

primrec debug_unop :: "UnaryOpKind \<Rightarrow> string" where
  "debug_unop UNeg = ''Neg''" | "debug_unop UNot = ''Not''" | "debug_unop UZext = ''Zext''"
| "debug_unop USext = ''Sext''" | "debug_unop UBoolNot = ''BoolNot''" | "debug_unop UFloatNeg = ''FloatNeg''"
| "debug_unop UFloatAbs = ''FloatAbs''" | "debug_unop UFloatSqrt = ''FloatSqrt''" | "debug_unop UFloatNan = ''FloatNan''"
| "debug_unop UInt2Float = ''Int2Float''" | "debug_unop UFloat2Float = ''Float2Float''" | "debug_unop UTrunc = ''Trunc''"
| "debug_unop UFloatCeil = ''FloatCeil''" | "debug_unop UFloatFloor = ''FloatFloor''" | "debug_unop UFloatRound = ''FloatRound''"
| "debug_unop UPopcount = ''Popcount''" | "debug_unop ULzcount = ''Lzcount''"

text \<open>The kind of a definition, the variables it reads and the boundary it is by itself.\<close>

definition describe :: "VarDef \<Rightarrow> string \<times> VarId list \<times> string option" where
  "describe v = (case expr v of
     EVar a \<Rightarrow> (''var'', [a], None)
   | EConst c w \<Rightarrow> (''constant'', [], None)
   | EBinOp k a b \<Rightarrow> (''binary.'' @ debug_binop k, [a, b], None)
   | EUnaryOp k a \<Rightarrow> (''unary.'' @ debug_unop k, [a], None)
   | EPhi is \<Rightarrow> (''phi'', is, None)
   | ETernary c a b \<Rightarrow> (''ternary'', [c, a, b], None)
   | ELoad a \<Rightarrow> (''load'', [a], Some ''unmodeled_memory'')
   | EFieldAccess a off \<Rightarrow> (''field_access'', [a], Some ''unmodeled_memory'')
   | EUserOp f is \<Rightarrow> (''user_op'', is, Some ''unmodeled_user_op'')
   | EUnknown \<Rightarrow> if param_name v \<noteq> None then (''parameter'', [], Some ''external_input'')
                 else (''unknown'', [], Some ''unknown_value''))"

definition add_missing :: "VarId list \<Rightarrow> VarId list \<Rightarrow> VarId list" where
  "add_missing stores ds = fold (\<lambda>s ds. if s \<in> set ds then ds else ds @ [s]) stores ds"

definition reads_memory :: "Expr \<Rightarrow> bool" where
  "reads_memory e = (case e of ELoad a \<Rightarrow> True | EFieldAccess a off \<Rightarrow> True | _ \<Rightarrow> False)"

text \<open>With the stores a load is known to read, and the boundary of its evidence.\<close>

definition dependencies :: "VarDef \<Rightarrow> VarId list" where
  "dependencies v = (case memory v of
     Some (LoadAccess sp stores bnd) \<Rightarrow> add_missing stores (fst (snd (describe v)))
   | _ \<Rightarrow> fst (snd (describe v)))"

definition boundary_of :: "slice_sites \<Rightarrow> VarId \<Rightarrow> VarDef \<Rightarrow> string option" where
  "boundary_of d i v =
     (let own = snd (snd (describe v));
          own = (case memory v of
              Some (LoadAccess sp stores (Some bnd)) \<Rightarrow> if reads_memory (expr v) then Some (boundary_as_str bnd) else own
            | _ \<Rightarrow> own)
      in if call_return v \<or> i \<in> set (call_outputs d) then Some ''unmodeled_call'' else own)"

subsection \<open>The traversal\<close>

record slice_state =
  seen_vars :: "VarId list"
  pending :: "(VarId \<times> usize) list"
  out_nodes :: "SliceNode list"
  site_blocks :: "BlockId list"
  edges_used :: usize
  was_truncated :: bool
  is_complete :: bool

record slice_env =
  slice_vars :: "VarDef list"
  slice_defs :: slice_sites
  node_limit :: usize
  depth_limit :: usize

text \<open>One input of a node: why it is not followed, if it is not.\<close>

definition visit_input :: "slice_env \<Rightarrow> string option \<Rightarrow> usize \<Rightarrow> VarId \<Rightarrow> slice_state \<Rightarrow> string option \<times> slice_state" where
  "visit_input e bnd depth i st =
     (case bnd of
        Some reason \<Rightarrow> (Some reason, st)
      | None \<Rightarrow>
          if length (slice_vars e) \<le> unat i then (Some ''missing_variable'', st)
          else if i \<in> set (seen_vars st) then (None, st)
          else if depth_limit e \<le> depth then (Some ''depth_limit'', st\<lparr>was_truncated := True\<rparr>)
          else if node_limit e \<le> length (seen_vars st) then (Some ''node_limit'', st\<lparr>was_truncated := True\<rparr>)
          else (None, st\<lparr>seen_vars := i # seen_vars st, pending := pending st @ [(i, depth + 1)]\<rparr>))"

primrec visit_inputs :: "slice_env \<Rightarrow> string option \<Rightarrow> usize \<Rightarrow> VarId list \<Rightarrow> slice_state \<Rightarrow> SliceInput list \<times> slice_state" where
  "visit_inputs e bnd depth [] st = ([], st)"
| "visit_inputs e bnd depth (i # is) st =
     (let (reason, st) = visit_input e bnd depth i (st\<lparr>edges_used := Suc (edges_used st)\<rparr>);
          st = (if reason \<noteq> None then st\<lparr>is_complete := False\<rparr> else st);
          (rest, st) = visit_inputs e bnd depth is st
      in (\<lparr>input_var = i, stop_reason = reason\<rparr> # rest, st))"

primrec visit_sites :: "BlockId list \<Rightarrow> slice_state \<Rightarrow> BlockId list \<times> slice_state" where
  "visit_sites [] st = ([], st)"
| "visit_sites (b # bs) st =
     (if b \<in> set (site_blocks st) \<or> length (site_blocks st) < MAX_NODES
      then (let (rest, st) = visit_sites bs (st\<lparr>site_blocks := insort_insert b (site_blocks st)\<rparr>) in (b # rest, st))
      else visit_sites bs (st\<lparr>was_truncated := True, is_complete := False\<rparr>))"

definition origins_missing :: "VarDef \<Rightarrow> string option" where
  "origins_missing v =
     (if operations (origins v) \<noteq> [] then None
      else if expr v = EUnknown then Some ''external_or_unknown_value''
      else if synthetic (origins v) then Some ''synthetic_definition''
      else Some ''source_not_retained'')"

definition constant_in :: "Expr \<Rightarrow> u64 option" where
  "constant_in e = (case e of EConst c w \<Rightarrow> Some c | _ \<Rightarrow> None)"

definition visit_node :: "slice_env \<Rightarrow> VarId \<Rightarrow> usize \<Rightarrow> VarDef \<Rightarrow> slice_state \<Rightarrow> slice_state" where
  "visit_node e i depth v st =
     (let bnd = boundary_of (slice_defs e) i v;
          st = (if bnd \<noteq> None then st\<lparr>is_complete := False\<rparr> else st);
          deps = dependencies v;
          (ins, st) = visit_inputs e bnd depth (take (MAX_INPUTS - edges_used st) deps) st;
          st = (if length ins < length deps then st\<lparr>was_truncated := True, is_complete := False\<rparr> else st);
          (sites, st) = visit_sites (sites_of (slice_defs e) i) st
      in st\<lparr>out_nodes := out_nodes st @ [\<lparr>node_var = i, node_depth = depth, block_ids = sites, node_kind = fst (describe v),
             node_origins = origins v, node_memory = memory v, origins_unavailable = origins_missing v,
             node_size = var_size v, constant_value = constant_in (expr v), parameter = map_option (take 256) (param_name v),
             inputs = ins, inputs_total = length deps, node_boundary = bnd\<rparr>]\<rparr>)"

text \<open>What is left: the variables that may still be seen, and those that are queued.\<close>

definition work_left :: "slice_env \<Rightarrow> slice_state \<Rightarrow> nat" where
  "work_left e st = (node_limit e - length (seen_vars st)) + length (pending st)"

lemma visit_input_work: "work_left e (snd (visit_input e bnd depth i st)) \<le> work_left e st"
  by (auto simp: visit_input_def work_left_def split: option.split)

lemma work_left_fields [simp]:
  "work_left e (st\<lparr>edges_used := n\<rparr>) = work_left e st" "work_left e (st\<lparr>was_truncated := a\<rparr>) = work_left e st"
  "work_left e (st\<lparr>is_complete := c\<rparr>) = work_left e st" "work_left e (st\<lparr>out_nodes := ns\<rparr>) = work_left e st"
  "work_left e (st\<lparr>site_blocks := bs\<rparr>) = work_left e st" "work_left e (st\<lparr>was_truncated := a, is_complete := c\<rparr>) = work_left e st"
  by (simp_all add: work_left_def)

lemma visit_inputs_work: "work_left e (snd (visit_inputs e bnd depth is st)) \<le> work_left e st"
proof (induction "is" arbitrary: st)
  case (Cons i "is")
  obtain r st1 where v: "visit_input e bnd depth i (st\<lparr>edges_used := Suc (edges_used st)\<rparr>) = (r, st1)" by fastforce
  let ?st = "if r \<noteq> None then st1\<lparr>is_complete := False\<rparr> else st1"
  have "work_left e ?st \<le> work_left e st"
    using visit_input_work[of e bnd depth i "st\<lparr>edges_used := Suc (edges_used st)\<rparr>"] v by simp
  with Cons.IH[of ?st] have "work_left e (snd (visit_inputs e bnd depth is ?st)) \<le> work_left e st" by (rule le_trans)
  then show ?case using v by (cases "r = None") (auto simp: Let_def split: prod.splits)
qed simp

lemma visit_sites_work: "work_left e (snd (visit_sites bs st)) = work_left e st"
proof (induction bs arbitrary: st)
  case (Cons b bs)
  show ?case
    using Cons[of "st\<lparr>site_blocks := insort_insert b (site_blocks st)\<rparr>"] Cons[of "st\<lparr>was_truncated := True, is_complete := False\<rparr>"]
    by (auto simp: Let_def split: prod.splits)
qed simp

lemma visit_node_work: "work_left e (visit_node e i depth v st) \<le> work_left e st"
proof -
  let ?bnd = "boundary_of (slice_defs e) i v"
  let ?st = "if ?bnd \<noteq> None then st\<lparr>is_complete := False\<rparr> else st"
  obtain ins st1 where v: "visit_inputs e ?bnd depth (take (MAX_INPUTS - edges_used ?st) (dependencies v)) ?st = (ins, st1)" by fastforce
  have w: "work_left e st1 \<le> work_left e st"
    using visit_inputs_work[of e ?bnd depth "take (MAX_INPUTS - edges_used ?st) (dependencies v)" ?st] v by (simp split: if_splits)
  obtain bs st2 where s: "visit_sites (sites_of (slice_defs e) i)
      (if length ins < length (dependencies v) then st1\<lparr>was_truncated := True, is_complete := False\<rparr> else st1) = (bs, st2)" by fastforce
  have "work_left e st2 = work_left e st1"
    using visit_sites_work[of e "sites_of (slice_defs e) i"
        "if length ins < length (dependencies v) then st1\<lparr>was_truncated := True, is_complete := False\<rparr> else st1"] s by (simp split: if_splits)
  then show ?thesis using v s w by (simp add: visit_node_def Let_def)
qed

function slice_loop :: "slice_env \<Rightarrow> slice_state \<Rightarrow> slice_state option" where
  "slice_loop e st = (case pending st of
     [] \<Rightarrow> Some st
   | (i, depth) # q \<Rightarrow> (case vec_get (slice_vars e) (unat i) of
       None \<Rightarrow> None
     | Some v \<Rightarrow> slice_loop e (visit_node e i depth v (st\<lparr>pending := q\<rparr>))))"
  by pat_completeness auto
termination
proof (relation "measure (\<lambda>(e, st). work_left e st)")
  fix e :: slice_env and st :: slice_state and x q i depth v
  assume "pending st = x # q" "(i, depth) = x" "vec_get (slice_vars e) (unat i) = Some v"
  then have "work_left e (st\<lparr>pending := q\<rparr>) < work_left e st" by (simp add: work_left_def)
  with visit_node_work[of e i depth v "st\<lparr>pending := q\<rparr>"]
  show "((e, visit_node e i depth v (st\<lparr>pending := q\<rparr>)), e, st) \<in> measure (\<lambda>(e, st). work_left e st)" by simp
qed simp

declare slice_loop.simps [simp del]

definition find_block :: "SsaCfg \<Rightarrow> BlockId \<Rightarrow> SliceBlock option" where
  "find_block ssa b = map_option (\<lambda>blk. \<lparr>slice_block_id = b, slice_block_address = format_hex (ssa_block_addr blk)\<rparr>)
     (List.find (\<lambda>blk. ssa_block_id blk = b) (ssa_blocks ssa))"

definition missing_root :: "VarId \<Rightarrow> string" where
  "missing_root root = ''SSA variable '' @ radix_digits 10 (uint root) @ '' does not exist''"

definition slice_start :: "VarId \<Rightarrow> slice_state" where
  "slice_start root = \<lparr>seen_vars = [root], pending = [(root, 0)], out_nodes = [], site_blocks = [], edges_used = 0,
     was_truncated = False, is_complete = True\<rparr>"

definition backward_slice :: "SsaCfg \<Rightarrow> VarId \<Rightarrow> usize \<Rightarrow> usize \<Rightarrow> (string + BackwardSlice) option" where
  "backward_slice ssa root nodes_max depth_max =
     (if length (vars ssa) \<le> unat root then Some (Inl (missing_root root))
      else if nodes_max = 0 then Some (Inl ''max_nodes must be positive'')
      else let nodes_max = min nodes_max MAX_NODES;
               depth_max = min depth_max MAX_DEPTH;
               e = \<lparr>slice_vars = vars ssa, slice_defs = collect_sites ssa, node_limit = nodes_max, depth_limit = depth_max\<rparr>
           in do {
             st \<leftarrow> slice_loop e (slice_start root);
             Some (Inr \<lparr>slice_root = root, slice_nodes = out_nodes st, slice_blocks = List.map_filter (find_block ssa) (site_blocks st),
               slice_truncated = was_truncated st, slice_complete = is_complete st, max_nodes = nodes_max, max_depth = depth_max,
               max_inputs = MAX_INPUTS\<rparr>)
           })"

end
