(* ===== verification/SliceProps.thy ===== *)
theory SliceProps
  imports Slice
begin

text \<open>
  The slice against the dependence relation: every node of a slice is reachable from the
  root along dependencies, at the distance its depth says, no variable is listed twice,
  the limits hold, and a slice that calls itself complete is exactly the reachable set.
\<close>

definition deps_in :: "VarDef list \<Rightarrow> VarId \<Rightarrow> VarId list" where
  "deps_in vs i = (case vec_get vs (unat i) of Some v \<Rightarrow> dependencies v | None \<Rightarrow> [])"

definition depends :: "VarDef list \<Rightarrow> (VarId \<times> VarId) set" where
  "depends vs = {(a, b). b \<in> set (deps_in vs a)}"

definition all_followed :: "SliceInput list \<Rightarrow> bool" where
  "all_followed ins \<longleftrightarrow> (\<forall>x \<in> set ins. stop_reason x = None)"

subsection \<open>The inputs of a node\<close>

text \<open>The traversal has moved on: \<open>new\<close> was seen for the first time, at one level below.\<close>

definition visits :: "slice_env \<Rightarrow> usize \<Rightarrow> slice_state \<Rightarrow> slice_state \<Rightarrow> VarId list \<Rightarrow> bool" where
  "visits e depth st st' new \<longleftrightarrow>
     set (seen_vars st') = set (seen_vars st) \<union> set new \<and> length (seen_vars st') = length (seen_vars st) + length new \<and>
     pending st' = pending st @ map (\<lambda>i. (i, Suc depth)) new \<and> distinct new \<and> set new \<inter> set (seen_vars st) = {} \<and>
     (\<forall>i \<in> set new. unat i < length (slice_vars e)) \<and> (new \<noteq> [] \<longrightarrow> depth < depth_limit e) \<and>
     (length (seen_vars st) \<le> node_limit e \<longrightarrow> length (seen_vars st') \<le> node_limit e) \<and>
     out_nodes st' = out_nodes st \<and> site_blocks st' = site_blocks st \<and> (was_truncated st \<longrightarrow> was_truncated st')"

lemma visits_refl: "visits e depth st st []"
  by (simp add: visits_def)

lemma visits_trans:
  "visits e depth a b new \<Longrightarrow> visits e depth b c new' \<Longrightarrow> visits e depth a c (new @ new')"
  unfolding visits_def by (elim conjE, intro conjI) (simp_all add: Un_assoc, blast+)

lemma visits_flags:
  "visits e depth st (st'\<lparr>is_complete := f\<rparr>) new = visits e depth st st' new"
  "visits e depth (st\<lparr>edges_used := n\<rparr>) st' new = visits e depth st st' new"
  by (simp_all add: visits_def)

lemma visit_input_spec:
  assumes "visit_input e bnd depth i st = (r, st')"
  shows "\<exists>new. visits e depth st st' new \<and> set new \<subseteq> {i} \<and> edges_used st' = edges_used st \<and>
    is_complete st' = is_complete st \<and> (r = None \<longrightarrow> was_truncated st' = was_truncated st \<and> i \<in> set (seen_vars st'))"
proof -
  consider (stay) "st' = st" "r = None \<longrightarrow> i \<in> set (seen_vars st)" | (cut) "st' = st\<lparr>was_truncated := True\<rparr>" "r \<noteq> None"
    | (new) "st' = st\<lparr>seen_vars := i # seen_vars st, pending := pending st @ [(i, depth + 1)]\<rparr>"
        "i \<notin> set (seen_vars st)" "unat i < length (slice_vars e)" "depth < depth_limit e" "length (seen_vars st) < node_limit e"
    using assms by (auto simp: visit_input_def split: option.splits if_splits)
  then show ?thesis
  proof cases
    case stay
    then show ?thesis by (intro exI[of _ "[]"]) (simp add: visits_refl)
  next
    case cut
    then show ?thesis by (intro exI[of _ "[]"]) (cases r; simp add: visits_def)
  next
    case new
    then show ?thesis by (intro exI[of _ "[i]"]) (auto simp: visits_def)
  qed
qed

lemma visit_inputs_spec:
  assumes "visit_inputs e bnd depth is st = (ins, st')"
  shows "\<exists>new. visits e depth st st' new \<and> set new \<subseteq> set is \<and> edges_used st' = edges_used st + length is \<and>
    map input_var ins = is \<and> (is_complete st' \<longleftrightarrow> is_complete st \<and> all_followed ins) \<and>
    (all_followed ins \<longrightarrow> was_truncated st' = was_truncated st) \<and>
    (\<forall>x \<in> set ins. stop_reason x = None \<longrightarrow> input_var x \<in> set (seen_vars st'))"
  using assms
proof (induction "is" arbitrary: st ins)
  case Nil
  then show ?case by (auto simp: visits_refl all_followed_def intro!: exI[of _ "[]"])
next
  case (Cons i "is")
  obtain r st1 where v: "visit_input e bnd depth i (st\<lparr>edges_used := Suc (edges_used st)\<rparr>) = (r, st1)" by fastforce
  let ?st = "if r \<noteq> None then st1\<lparr>is_complete := False\<rparr> else st1"
  obtain rest st2 where w: "visit_inputs e bnd depth is ?st = (rest, st2)" by fastforce
  have res: "ins = \<lparr>input_var = i, stop_reason = r\<rparr> # rest" "st2 = st'"
    using Cons.prems v w by (cases r; simp add: Let_def)+
  note w = w[unfolded res(2)]
  from visit_input_spec[OF v] obtain n1 where
    n1: "visits e depth st st1 n1" "set n1 \<subseteq> {i}" "edges_used st1 = Suc (edges_used st)" "is_complete st1 = is_complete st"
      "r = None \<longrightarrow> was_truncated st1 = was_truncated st \<and> i \<in> set (seen_vars st1)"
    by (auto simp: visits_flags)
  from Cons.IH[OF w] obtain n2 where
    n2: "visits e depth ?st st' n2" "set n2 \<subseteq> set is" "edges_used st' = edges_used ?st + length is" "map input_var rest = is"
      "is_complete st' \<longleftrightarrow> is_complete ?st \<and> all_followed rest" "all_followed rest \<longrightarrow> was_truncated st' = was_truncated ?st"
      "\<forall>x \<in> set rest. stop_reason x = None \<longrightarrow> input_var x \<in> set (seen_vars st')" by blast
  have g: "visits e depth st ?st n1" using n1(1) by (simp add: visits_flags)
  have "set (seen_vars st1) \<subseteq> set (seen_vars st')" using n2(1) by (auto simp: visits_def split: if_splits)
  then show ?case
    using visits_trans[OF g n2(1)] n1 n2 res by (intro exI[of _ "n1 @ n2"]) (auto simp: all_followed_def split: if_splits)
qed

lemma visit_sites_spec:
  assumes "visit_sites bs st = (sites, st')"
  shows "seen_vars st' = seen_vars st \<and> pending st' = pending st \<and> out_nodes st' = out_nodes st \<and> edges_used st' = edges_used st \<and>
    (was_truncated st \<longrightarrow> was_truncated st') \<and>
    ((is_complete st \<longrightarrow> \<not> was_truncated st) \<longrightarrow> (is_complete st' \<longleftrightarrow> is_complete st \<and> \<not> was_truncated st')) \<and>
    (length (site_blocks st) \<le> MAX_NODES \<longrightarrow> length (site_blocks st') \<le> MAX_NODES) \<and>
    set sites \<subseteq> set bs \<and> set sites \<union> set (site_blocks st) \<subseteq> set (site_blocks st')"
  using assms
proof (induction bs arbitrary: st sites)
  case (Cons b bs)
  show ?case
  proof (cases "b \<in> set (site_blocks st) \<or> length (site_blocks st) < MAX_NODES")
    case True
    let ?st = "st\<lparr>site_blocks := insort_insert b (site_blocks st)\<rparr>"
    obtain rest st2 where v: "visit_sites bs ?st = (rest, st2)" by fastforce
    then have res: "sites = b # rest" "st2 = st'" using Cons.prems True by simp_all
    have "length (site_blocks st) \<le> MAX_NODES \<longrightarrow> length (insort_insert b (site_blocks st)) \<le> MAX_NODES"
      using True by (cases "b \<in> set (site_blocks st)") (simp_all add: insort_insert_triv insort_insert_insort)
    then show ?thesis using Cons.IH[OF v[unfolded res(2)]] res(1) by (auto simp: set_insort_insert)
  next
    case False
    then show ?thesis
      using Cons.IH[of "st\<lparr>was_truncated := True, is_complete := False\<rparr>" sites] Cons.prems by auto
  qed
qed auto

text \<open>What is offered to the traversal is seen, unless a limit is reached; at a limit nothing is added.\<close>

lemma visit_inputs_covers:
  assumes "visit_inputs e None depth is st = (ins, st')" "depth < depth_limit e" "i \<in> set is" "unat i < length (slice_vars e)"
  shows "i \<in> set (seen_vars st') \<or> node_limit e \<le> length (seen_vars st')"
  using assms(1,3)
proof (induction "is" arbitrary: st ins)
  case (Cons j "is")
  obtain r st1 where v: "visit_input e None depth j (st\<lparr>edges_used := Suc (edges_used st)\<rparr>) = (r, st1)" by fastforce
  let ?st = "if r \<noteq> None then st1\<lparr>is_complete := False\<rparr> else st1"
  obtain rest where w: "visit_inputs e None depth is ?st = (rest, st')"
    using Cons.prems(1) v by (cases r) (auto simp: Let_def split: prod.splits)
  show ?case
  proof (cases "i \<in> set is")
    case True
    then show ?thesis using Cons.IH[OF w] by blast
  next
    case False
    then have "j = i" using Cons.prems(2) by simp
    then have "i \<in> set (seen_vars ?st) \<or> node_limit e \<le> length (seen_vars ?st)"
      using v assms(2,4) by (auto simp: visit_input_def split: if_splits)
    moreover from visit_inputs_spec[OF w] obtain new where "visits e depth ?st st' new" by blast
    ultimately show ?thesis by (auto simp: visits_def)
  qed
qed simp

lemma visits_none:
  assumes "visits e depth st st' new" "node_limit e \<le> length (seen_vars st)" "length (seen_vars st) \<le> node_limit e"
  shows "new = []"
  using assms by (auto simp: visits_def)

subsection \<open>The loop\<close>

definition node_ok :: "slice_env \<Rightarrow> VarId \<Rightarrow> SliceNode \<Rightarrow> bool" where
  "node_ok e root n \<longleftrightarrow> (\<exists>v. vec_get (slice_vars e) (unat (node_var n)) = Some v \<and>
     node_depth n \<le> depth_limit e \<and> (root, node_var n) \<in> depends (slice_vars e) ^^ node_depth n \<and>
     node_boundary n = boundary_of (slice_defs e) (node_var n) v \<and> inputs_total n = length (dependencies v) \<and>
     map input_var (inputs n) = take (length (inputs n)) (dependencies v))"

definition pending_ok :: "slice_env \<Rightarrow> VarId \<Rightarrow> VarId \<times> usize \<Rightarrow> bool" where
  "pending_ok e root p \<longleftrightarrow> unat (fst p) < length (slice_vars e) \<and> snd p \<le> depth_limit e \<and>
     (root, fst p) \<in> depends (slice_vars e) ^^ snd p"

text \<open>A node that is followed in full.\<close>

definition closed_node :: "SliceNode \<Rightarrow> bool" where
  "closed_node n \<longleftrightarrow> node_boundary n = None \<and> length (inputs n) = inputs_total n \<and> all_followed (inputs n)"

definition slice_ok :: "slice_env \<Rightarrow> VarId \<Rightarrow> slice_state \<Rightarrow> bool" where
  "slice_ok e root st \<longleftrightarrow>
     distinct (map node_var (out_nodes st) @ map fst (pending st)) \<and>
     set (map node_var (out_nodes st) @ map fst (pending st)) = set (seen_vars st) \<and>
     length (seen_vars st) = length (out_nodes st) + length (pending st) \<and> length (seen_vars st) \<le> node_limit e \<and>
     root \<in> set (seen_vars st) \<and> (\<forall>n \<in> set (out_nodes st). node_ok e root n) \<and> (\<forall>p \<in> set (pending st). pending_ok e root p) \<and>
     edges_used st = sum_list (map (length \<circ> inputs) (out_nodes st)) \<and> edges_used st \<le> MAX_INPUTS \<and>
     length (site_blocks st) \<le> MAX_NODES \<and>
     (\<forall>n \<in> set (out_nodes st). \<forall>x \<in> set (inputs n). stop_reason x = None \<longrightarrow> input_var x \<in> set (seen_vars st)) \<and>
     (is_complete st \<longleftrightarrow> \<not> was_truncated st \<and> (\<forall>n \<in> set (out_nodes st). closed_node n)) \<and>
     (\<not> was_truncated st \<longrightarrow> (\<forall>n \<in> set (out_nodes st). length (inputs n) = inputs_total n))"

lemma visit_node_ok:
  assumes ok: "slice_ok e root st" and q: "pending st = (i, depth) # q" and v: "vec_get (slice_vars e) (unat i) = Some v"
  shows "slice_ok e root (visit_node e i depth v (st\<lparr>pending := q\<rparr>))"
proof -
  let ?bnd = "boundary_of (slice_defs e) i v" and ?deps = "dependencies v"
  let ?st0 = "st\<lparr>pending := q\<rparr>"
  let ?st1 = "if ?bnd \<noteq> None then ?st0\<lparr>is_complete := False\<rparr> else ?st0"
  obtain ins st2 where i: "visit_inputs e ?bnd depth (take (MAX_INPUTS - edges_used ?st1) ?deps) ?st1 = (ins, st2)" by fastforce
  let ?st3 = "if length ins < length ?deps then st2\<lparr>was_truncated := True, is_complete := False\<rparr> else st2"
  obtain sites st4 where s: "visit_sites (sites_of (slice_defs e) i) ?st3 = (sites, st4)" by fastforce
  let ?n = "\<lparr>node_var = i, node_depth = depth, block_ids = sites, node_kind = fst (describe v),
             node_origins = origins v, node_memory = memory v, origins_unavailable = origins_missing v,
             node_size = var_size v, constant_value = constant_in (expr v), parameter = map_option (take 256) (param_name v),
             inputs = ins, inputs_total = length ?deps, node_boundary = ?bnd\<rparr>"
  have res: "visit_node e i depth v ?st0 = st4\<lparr>out_nodes := out_nodes st4 @ [?n]\<rparr>"
    by (simp only: visit_node_def Let_def i s prod.case)
  have ok': "distinct (map node_var (out_nodes st) @ i # map fst q)"
      "set (map node_var (out_nodes st) @ i # map fst q) = set (seen_vars st)"
      "length (seen_vars st) = length (out_nodes st) + Suc (length q)" "length (seen_vars st) \<le> node_limit e"
      "root \<in> set (seen_vars st)" "\<forall>n \<in> set (out_nodes st). node_ok e root n" "\<forall>p \<in> set q. pending_ok e root p"
      "edges_used st = sum_list (map (length \<circ> inputs) (out_nodes st))" "edges_used st \<le> MAX_INPUTS"
      "length (site_blocks st) \<le> MAX_NODES"
      "\<forall>n \<in> set (out_nodes st). \<forall>x \<in> set (inputs n). stop_reason x = None \<longrightarrow> input_var x \<in> set (seen_vars st)"
      "is_complete st \<longleftrightarrow> \<not> was_truncated st \<and> (\<forall>n \<in> set (out_nodes st). closed_node n)"
      "\<not> was_truncated st \<longrightarrow> (\<forall>n \<in> set (out_nodes st). length (inputs n) = inputs_total n)"
    and pi: "unat i < length (slice_vars e)" "depth \<le> depth_limit e" "(root, i) \<in> depends (slice_vars e) ^^ depth"
    using ok q by (simp_all add: slice_ok_def pending_ok_def)
  have st1: "seen_vars ?st1 = seen_vars st" "pending ?st1 = q" "out_nodes ?st1 = out_nodes st" "site_blocks ?st1 = site_blocks st"
    "edges_used ?st1 = edges_used st" "was_truncated ?st1 = was_truncated st" "is_complete ?st1 \<longleftrightarrow> is_complete st \<and> ?bnd = None"
    by (simp_all split: if_split)
  from visit_inputs_spec[OF i, unfolded st1(5)] obtain new where
    vis: "visits e depth ?st1 st2 new" and sub: "set new \<subseteq> set (take (MAX_INPUTS - edges_used st) ?deps)"
    and ed: "edges_used st2 = edges_used st + length (take (MAX_INPUTS - edges_used st) ?deps)"
    and ins: "map input_var ins = take (MAX_INPUTS - edges_used st) ?deps"
    and co: "is_complete st2 \<longleftrightarrow> is_complete ?st1 \<and> all_followed ins" "all_followed ins \<longrightarrow> was_truncated st2 = was_truncated ?st1"
    and fol: "\<forall>x \<in> set ins. stop_reason x = None \<longrightarrow> input_var x \<in> set (seen_vars st2)" by blast
  note vis' = vis[unfolded visits_def st1]
  have li: "length ins = min (MAX_INPUTS - edges_used st) (length ?deps)" using arg_cong[OF ins, of length] by simp
  have st3: "seen_vars ?st3 = seen_vars st2" "pending ?st3 = pending st2" "out_nodes ?st3 = out_nodes st2"
    "site_blocks ?st3 = site_blocks st2" "edges_used ?st3 = edges_used st2"
    "was_truncated ?st3 \<longleftrightarrow> was_truncated st2 \<or> length ins < length ?deps" "is_complete ?st3 \<longleftrightarrow> is_complete st2 \<and> \<not> length ins < length ?deps"
    by (simp_all split: if_split)
  note s4 = visit_sites_spec[OF s, unfolded st3]
  have st4: "seen_vars st4 = seen_vars st2" "pending st4 = q @ map (\<lambda>i. (i, Suc depth)) new" "out_nodes st4 = out_nodes st"
    "edges_used st4 = edges_used st2" "length (site_blocks st4) \<le> MAX_NODES"
    using s4 vis' ok'(10) by simp_all
  have complete: "is_complete st4 \<longleftrightarrow> \<not> was_truncated st4 \<and> (\<forall>n \<in> set (out_nodes st). closed_node n) \<and> closed_node ?n"
  proof -
    define A where "A \<longleftrightarrow> (\<forall>n \<in> set (out_nodes st). closed_node n)"
    define full where "full \<longleftrightarrow> \<not> length ins < length ?deps"
    have c: "closed_node ?n \<longleftrightarrow> ?bnd = None \<and> full \<and> all_followed ins"
      using li by (auto simp: closed_node_def full_def)
    have a: "is_complete st \<longleftrightarrow> \<not> was_truncated st \<and> A" using ok'(12) by (simp add: A_def)
    have t: "was_truncated st \<longrightarrow> was_truncated st2" using vis' by blast
    have s: "was_truncated st2 \<or> \<not> full \<longrightarrow> was_truncated st4"
      "(is_complete st2 \<and> full \<longrightarrow> \<not> (was_truncated st2 \<or> \<not> full)) \<longrightarrow> (is_complete st4 \<longleftrightarrow> (is_complete st2 \<and> full) \<and> \<not> was_truncated st4)"
      using s4 by (simp_all add: full_def)
    show ?thesis
      unfolding c A_def[symmetric] using a t s co[unfolded st1(6,7)] by argo
  qed
  have seen: "set (seen_vars st4) = set (seen_vars st) \<union> set new" "length (seen_vars st4) = length (seen_vars st) + length new"
    "distinct new" "set new \<inter> set (seen_vars st) = {}" "length (seen_vars st4) \<le> node_limit e"
    using vis' st4(1) ok'(4) by simp_all
  have pend: "pending_ok e root (j, Suc depth)" if j: "j \<in> set new" for j
  proof -
    have "j \<in> set ?deps" using sub j by (auto dest: in_set_takeD)
    then have "(i, j) \<in> depends (slice_vars e)" using v by (simp add: depends_def deps_in_def)
    then show ?thesis using pi(3) vis' j by (auto simp: pending_ok_def)
  qed
  have n: "node_ok e root ?n" using v pi ins li by (simp add: node_ok_def min_def split: if_splits)
  have edges: "edges_used st4 = sum_list (map (length \<circ> inputs) (out_nodes st)) + length ins" "edges_used st4 \<le> MAX_INPUTS"
    using st4(4) ed li ok'(8,9) by (simp_all add: min.commute)
  have dist: "distinct (map node_var (out_nodes st) @ i # map fst q @ new)"
    using ok'(1,2) seen(3,4) by auto
  show ?thesis
    unfolding res slice_ok_def
  proof (intro conjI)
    let ?st = "st4\<lparr>out_nodes := out_nodes st4 @ [?n]\<rparr>"
    show "distinct (map node_var (out_nodes ?st) @ map fst (pending ?st))" using dist st4 by (simp add: comp_def)
    show "set (map node_var (out_nodes ?st) @ map fst (pending ?st)) = set (seen_vars ?st)"
      using ok'(2) seen(1) st4 by (simp add: comp_def image_image) blast
    show "length (seen_vars ?st) = length (out_nodes ?st) + length (pending ?st)" using ok'(3) seen(2) st4 by simp
    show "length (seen_vars ?st) \<le> node_limit e" using seen(5) by simp
    show "root \<in> set (seen_vars ?st)" using ok'(5) seen(1) by simp
    show "\<forall>n \<in> set (out_nodes ?st). node_ok e root n" using ok'(6) n st4 by simp
    show "\<forall>p \<in> set (pending ?st). pending_ok e root p" using ok'(7) pend st4 by auto
    show "edges_used ?st = sum_list (map (length \<circ> inputs) (out_nodes ?st))" "edges_used ?st \<le> MAX_INPUTS" using edges st4 by simp_all
    show "length (site_blocks ?st) \<le> MAX_NODES" using st4 by simp
    show "\<forall>n \<in> set (out_nodes ?st). \<forall>x \<in> set (inputs n). stop_reason x = None \<longrightarrow> input_var x \<in> set (seen_vars ?st)"
      using ok'(11) fol seen(1) st4 by simp
    show "is_complete ?st \<longleftrightarrow> \<not> was_truncated ?st \<and> (\<forall>n \<in> set (out_nodes ?st). closed_node n)" using complete st4 by auto
    have "\<not> was_truncated st4 \<longrightarrow> \<not> was_truncated st \<and> length ins = length ?deps" using s4 vis' li by auto
    then show "\<not> was_truncated ?st \<longrightarrow> (\<forall>n \<in> set (out_nodes ?st). length (inputs n) = inputs_total n)" using ok'(13) st4 by auto
  qed
qed

lemma slice_loop_ok:
  "slice_ok e root st \<Longrightarrow> \<exists>st'. slice_loop e st = Some st' \<and> slice_ok e root st' \<and> pending st' = []"
proof (induction e st rule: slice_loop.induct)
  case (1 e st)
  show ?case
  proof (cases "pending st")
    case Nil
    then show ?thesis using 1 by (subst slice_loop.simps) simp
  next
    case (Cons p q)
    obtain i depth where p: "p = (i, depth)" by fastforce
    have "pending_ok e root p" using 1(2) Cons by (simp add: slice_ok_def)
    then obtain v where v: "vec_get (slice_vars e) (unat i) = Some v" by (auto simp: pending_ok_def p vec_get_def)
    from visit_node_ok[OF 1(2) Cons[unfolded p] v] 1(1)[OF Cons p[symmetric] v]
    show ?thesis using Cons p v by (subst slice_loop.simps) simp
  qed
qed

lemma slice_start_ok:
  "unat root < length (slice_vars e) \<Longrightarrow> 0 < node_limit e \<Longrightarrow> slice_ok e root (slice_start root)"
  by (simp add: slice_ok_def slice_start_def pending_ok_def MAX_NODES_def MAX_INPUTS_def)

definition slice_env_of :: "SsaCfg \<Rightarrow> usize \<Rightarrow> usize \<Rightarrow> slice_env" where
  "slice_env_of ssa n d = \<lparr>slice_vars = vars ssa, slice_defs = collect_sites ssa, node_limit = min n MAX_NODES, depth_limit = min d MAX_DEPTH\<rparr>"

lemma backward_slice_result:
  assumes "unat root < length (vars ssa)" "0 < n"
  obtains st where "slice_ok (slice_env_of ssa n d) root st" "pending st = []"
    "backward_slice ssa root n d = Some (Inr \<lparr>slice_root = root, slice_nodes = out_nodes st,
       slice_blocks = List.map_filter (find_block ssa) (site_blocks st), slice_truncated = was_truncated st,
       slice_complete = is_complete st, max_nodes = min n MAX_NODES, max_depth = min d MAX_DEPTH, max_inputs = MAX_INPUTS\<rparr>)"
proof -
  let ?e = "slice_env_of ssa n d"
  have "slice_ok ?e root (slice_start root)"
    using slice_start_ok[of root ?e] assms by (simp add: slice_env_of_def MAX_NODES_def)
  from slice_loop_ok[OF this] obtain st where "slice_loop ?e (slice_start root) = Some st" "slice_ok ?e root st" "pending st = []"
    by blast
  then show thesis using that assms by (simp add: backward_slice_def Let_def slice_env_of_def not_le)
qed

lemma backward_slice_total:
  "unat root < length (vars ssa) \<Longrightarrow> 0 < n \<Longrightarrow> \<exists>s. backward_slice ssa root n d = Some (Inr s)"
  using backward_slice_result[of root ssa n d] by metis

subsection \<open>Distances\<close>

text \<open>The steps the traversal may take: dependencies that exist, of definitions that are no boundary.\<close>

definition traversed :: "slice_env \<Rightarrow> (VarId \<times> VarId) set" where
  "traversed e = {(a, b). unat b < length (slice_vars e) \<and> (\<exists>v. vec_get (slice_vars e) (unat a) = Some v \<and>
     boundary_of (slice_defs e) a v = None \<and> b \<in> set (dependencies v))}"

definition nearest :: "(VarId \<times> VarId) set \<Rightarrow> VarId \<Rightarrow> VarId \<times> usize \<Rightarrow> bool" where
  "nearest T root p \<longleftrightarrow> (root, fst p) \<in> T ^^ snd p \<and> (\<forall>k < snd p. (root, fst p) \<notin> T ^^ k)"

definition entries_of :: "slice_state \<Rightarrow> (VarId \<times> usize) list" where
  "entries_of st = map (\<lambda>n. (node_var n, node_depth n)) (out_nodes st) @ pending st"

definition layered :: "slice_env \<Rightarrow> VarId \<Rightarrow> slice_state \<Rightarrow> bool" where
  "layered e root st \<longleftrightarrow>
     (\<forall>p \<in> set (entries_of st). nearest (traversed e) root p) \<and> sorted (map snd (entries_of st)) \<and>
     (\<forall>p \<in> set (pending st). snd p \<le> Suc (snd (hd (pending st)))) \<and>
     (\<forall>n \<in> set (out_nodes st). \<forall>b. (node_var n, b) \<in> traversed e \<longrightarrow> node_depth n < depth_limit e \<longrightarrow>
        b \<in> set (seen_vars st) \<or> node_limit e \<le> length (seen_vars st) \<or> MAX_INPUTS \<le> edges_used st)"

lemma visit_inputs_boundary:
  "visit_inputs e (Some r) depth is st = (ins, st') \<Longrightarrow> seen_vars st' = seen_vars st"
  by (induction "is" arbitrary: st ins) (auto simp: visit_input_def Let_def split: prod.splits)

definition node_effect :: "slice_env \<Rightarrow> VarId \<Rightarrow> usize \<Rightarrow> (VarId \<times> usize) list \<Rightarrow> slice_state \<Rightarrow> slice_state \<Rightarrow> SliceNode \<Rightarrow> VarId list \<Rightarrow> bool" where
  "node_effect e i depth q st st' n new \<longleftrightarrow>
     out_nodes st' = out_nodes st @ [n] \<and> node_var n = i \<and> node_depth n = depth \<and>
     pending st' = q @ map (\<lambda>j. (j, Suc depth)) new \<and> set (seen_vars st') = set (seen_vars st) \<union> set new \<and>
     length (seen_vars st) \<le> length (seen_vars st') \<and> edges_used st \<le> edges_used st' \<and>
     (\<forall>j \<in> set new. (i, j) \<in> traversed e \<and> j \<notin> set (seen_vars st)) \<and>
     (new \<noteq> [] \<longrightarrow> depth < depth_limit e \<and> length (seen_vars st) < node_limit e \<and> edges_used st < MAX_INPUTS) \<and>
     (\<forall>b. (i, b) \<in> traversed e \<longrightarrow> depth < depth_limit e \<longrightarrow>
        b \<in> set (seen_vars st') \<or> node_limit e \<le> length (seen_vars st') \<or> MAX_INPUTS \<le> edges_used st')"

lemma visit_node_effect:
  assumes v: "vec_get (slice_vars e) (unat i) = Some v" and l: "length (seen_vars st) \<le> node_limit e" "edges_used st \<le> MAX_INPUTS"
  shows "\<exists>n new. node_effect e i depth q st (visit_node e i depth v (st\<lparr>pending := q\<rparr>)) n new"
proof -
  let ?bnd = "boundary_of (slice_defs e) i v" and ?deps = "dependencies v"
  let ?st0 = "st\<lparr>pending := q\<rparr>"
  let ?st1 = "if ?bnd \<noteq> None then ?st0\<lparr>is_complete := False\<rparr> else ?st0"
  let ?is = "take (MAX_INPUTS - edges_used st) ?deps"
  have st1: "seen_vars ?st1 = seen_vars st" "pending ?st1 = q" "out_nodes ?st1 = out_nodes st" "edges_used ?st1 = edges_used st"
    by (simp_all split: if_split)
  obtain ins st2 where i: "visit_inputs e ?bnd depth ?is ?st1 = (ins, st2)" by fastforce
  let ?st3 = "if length ins < length ?deps then st2\<lparr>was_truncated := True, is_complete := False\<rparr> else st2"
  obtain sites st4 where s: "visit_sites (sites_of (slice_defs e) i) ?st3 = (sites, st4)" by fastforce
  let ?n = "\<lparr>node_var = i, node_depth = depth, block_ids = sites, node_kind = fst (describe v),
             node_origins = origins v, node_memory = memory v, origins_unavailable = origins_missing v,
             node_size = var_size v, constant_value = constant_in (expr v), parameter = map_option (take 256) (param_name v),
             inputs = ins, inputs_total = length ?deps, node_boundary = ?bnd\<rparr>"
  have res: "visit_node e i depth v ?st0 = st4\<lparr>out_nodes := out_nodes st4 @ [?n]\<rparr>"
    using i s by (simp only: visit_node_def Let_def st1(4) prod.case)
  from visit_inputs_spec[OF i, unfolded st1(4)] obtain new where
    vis: "visits e depth ?st1 st2 new" and sub: "set new \<subseteq> set ?is" and ed: "edges_used st2 = edges_used st + length ?is" by blast
  note vis' = vis[unfolded visits_def st1]
  have st3: "seen_vars ?st3 = seen_vars st2" "pending ?st3 = pending st2" "out_nodes ?st3 = out_nodes st2" "edges_used ?st3 = edges_used st2"
    by (simp_all split: if_split)
  have st4: "seen_vars st4 = seen_vars st2" "pending st4 = q @ map (\<lambda>i. (i, Suc depth)) new" "out_nodes st4 = out_nodes st" "edges_used st4 = edges_used st2"
    using visit_sites_spec[OF s, unfolded st3] vis' by simp_all
  have step: "(i, j) \<in> traversed e \<longleftrightarrow> unat j < length (slice_vars e) \<and> ?bnd = None \<and> j \<in> set ?deps" for j
    using v by (auto simp: traversed_def)
  have some: "depth < depth_limit e \<and> length (seen_vars st) < node_limit e \<and> edges_used st < MAX_INPUTS \<and> ?bnd = None" if "new \<noteq> []"
  proof -
    have "?is \<noteq> []" using sub that by auto
    then have "edges_used st < MAX_INPUTS" by auto
    moreover have "length (seen_vars st) < node_limit e" using visits_none[OF vis] that l(1) st1(1) by (metis not_less)
    moreover have "?bnd = None"
    proof (rule ccontr)
      assume "?bnd \<noteq> None"
      then have "seen_vars st2 = seen_vars st" using visit_inputs_boundary i st1(1) by (metis not_Some_eq)
      then show False using vis' that by simp
    qed
    ultimately show ?thesis using vis' that by blast
  qed
  have new: "(i, j) \<in> traversed e \<and> j \<notin> set (seen_vars st)" if "j \<in> set new" for j
  proof -
    have "new \<noteq> []" using that by auto
    then have "?bnd = None" using some by blast
    moreover have "unat j < length (slice_vars e)" "j \<notin> set (seen_vars st)" using vis' that by auto
    moreover have "j \<in> set ?deps" using sub that by (auto dest: in_set_takeD)
    ultimately show ?thesis unfolding step by blast
  qed
  have cover: "b \<in> set (seen_vars st2) \<or> node_limit e \<le> length (seen_vars st2) \<or> MAX_INPUTS \<le> edges_used st2"
    if b: "(i, b) \<in> traversed e" "depth < depth_limit e" for b
  proof (cases "b \<in> set ?is")
    case True
    then show ?thesis using visit_inputs_covers[OF _ b(2)] i b(1) step by metis
  next
    case False
    then have "MAX_INPUTS - edges_used st < length ?deps" using b(1) step by (metis not_less take_all)
    then have "MAX_INPUTS \<le> edges_used st2" using ed by simp
    then show ?thesis by blast
  qed
  show ?thesis
    unfolding res node_effect_def using st4 vis' ed some new cover by (intro exI[of _ ?n] exI[of _ new]) auto
qed

text \<open>Everything no farther from the root than a queued variable was seen when nothing was cut off.\<close>

lemma seen_within:
  assumes lay: "layered e root st" and ok: "slice_ok e root st" and q: "pending st = (i, depth) # q"
    and room: "depth \<le> depth_limit e" "length (seen_vars st) < node_limit e" "edges_used st < MAX_INPUTS"
  shows "k \<le> depth \<Longrightarrow> (root, x) \<in> traversed e ^^ k \<Longrightarrow> x \<in> set (seen_vars st)"
proof (induction k arbitrary: x)
  case 0
  then show ?case using ok by (simp add: slice_ok_def)
next
  case (Suc k)
  from Suc.prems(2) obtain y where y: "(root, y) \<in> traversed e ^^ k" "(y, x) \<in> traversed e" by auto
  have "y \<in> set (seen_vars st)" using Suc.IH[OF _ y(1)] Suc.prems(1) by simp
  moreover have "set (map node_var (out_nodes st) @ map fst (pending st)) = set (seen_vars st)" using ok unfolding slice_ok_def by blast
  moreover have "map node_var (out_nodes st) @ map fst (pending st) = map fst (entries_of st)" by (simp add: entries_of_def)
  ultimately have "y \<in> fst ` set (entries_of st)" by (metis list.set_map)
  then obtain dy where dy: "(y, dy) \<in> set (entries_of st)" by auto
  then have "nearest (traversed e) root (y, dy)" using lay by (auto simp: layered_def)
  then have "dy \<le> k" using y(1) by (auto simp: nearest_def not_less[symmetric])
  then have lt: "dy < depth" using Suc.prems(1) by simp
  have "(y, dy) \<notin> set (pending st)"
  proof
    assume "(y, dy) \<in> set (pending st)"
    moreover have "sorted (map snd (pending st))" using lay by (simp add: layered_def entries_of_def sorted_append)
    ultimately have "depth \<le> dy" using q by auto
    then show False using lt by simp
  qed
  then obtain n where "n \<in> set (out_nodes st)" "node_var n = y" "node_depth n = dy" using dy by (auto simp: entries_of_def)
  then show ?case using lay y(2) lt room by (auto simp: layered_def)
qed

lemma layered_step:
  assumes lay: "layered e root st" and ok: "slice_ok e root st" and q: "pending st = (i, depth) # q"
    and n: "node_effect e i depth q st st' n new"
  shows "layered e root st'"
proof -
  note N = n[unfolded node_effect_def]
  have split: "entries_of st' = entries_of st @ map (\<lambda>j. (j, Suc depth)) new"
    using N q by (simp add: entries_of_def)
  have i: "nearest (traversed e) root (i, depth)" "depth \<le> depth_limit e"
    using lay ok q by (simp_all add: layered_def entries_of_def slice_ok_def pending_ok_def)
  have top: "d \<le> Suc depth" if "(x, d) \<in> set (entries_of st)" for x d
  proof -
    have "sorted (map snd (entries_of st))" "\<forall>p \<in> set (pending st). snd p \<le> Suc depth" using lay q by (auto simp: layered_def)
    then show ?thesis using that q by (auto simp: entries_of_def sorted_append)
  qed
  have near: "nearest (traversed e) root (j, Suc depth)" if j: "j \<in> set new" for j
  proof -
    from N j have e: "(i, j) \<in> traversed e" "j \<notin> set (seen_vars st)" and room: "length (seen_vars st) < node_limit e" "edges_used st < MAX_INPUTS"
      by auto
    have "(root, j) \<in> traversed e ^^ Suc depth" using i(1) e(1) by (auto simp: nearest_def)
    moreover have "(root, j) \<notin> traversed e ^^ k" if "k < Suc depth" for k
      using seen_within[OF lay ok q i(2) room, of k j] that e(2) by auto
    ultimately show ?thesis by (simp add: nearest_def)
  qed
  have "sorted (map snd (entries_of st'))"
    unfolding split using lay top by (auto simp: layered_def sorted_append comp_def map_replicate_const)
  moreover have "\<forall>p \<in> set (pending st'). snd p \<le> Suc (snd (hd (pending st')))"
  proof -
    have h: "\<forall>p \<in> set (pending st'). depth \<le> snd p \<and> snd p \<le> Suc depth"
      using lay N q by (auto simp: layered_def entries_of_def sorted_append)
    then have "pending st' \<noteq> [] \<Longrightarrow> depth \<le> snd (hd (pending st'))" by simp
    then show ?thesis using h by (cases "pending st'") force+
  qed
  moreover have "b \<in> set (seen_vars st') \<or> node_limit e \<le> length (seen_vars st') \<or> MAX_INPUTS \<le> edges_used st'"
    if m: "m \<in> set (out_nodes st')" "(node_var m, b) \<in> traversed e" "node_depth m < depth_limit e" for m b
  proof (cases "m \<in> set (out_nodes st)")
    case True
    then have "b \<in> set (seen_vars st) \<or> node_limit e \<le> length (seen_vars st) \<or> MAX_INPUTS \<le> edges_used st"
      using lay m(2,3) unfolding layered_def by blast
    then show ?thesis using N by auto
  next
    case False
    then have "m = n" using N m(1) by simp
    then show ?thesis using N m(2,3) by blast
  qed
  ultimately show ?thesis
    using lay near unfolding layered_def split by auto
qed

lemma slice_loop_layered:
  "slice_ok e root st \<Longrightarrow> layered e root st \<Longrightarrow> slice_loop e st = Some st' \<Longrightarrow> layered e root st'"
proof (induction e st rule: slice_loop.induct)
  case (1 e st)
  show ?case
  proof (cases "pending st")
    case Nil
    then show ?thesis using 1(3,4) by (subst (asm) slice_loop.simps) simp
  next
    case (Cons p q)
    obtain i depth where p: "p = (i, depth)" by fastforce
    have "pending_ok e root p" using 1(2) Cons by (simp add: slice_ok_def)
    then obtain v where v: "vec_get (slice_vars e) (unat i) = Some v" by (auto simp: pending_ok_def p vec_get_def)
    have "length (seen_vars st) \<le> node_limit e" "edges_used st \<le> MAX_INPUTS" using 1(2) by (simp_all add: slice_ok_def)
    from visit_node_effect[OF v this] layered_step[OF 1(3,2) Cons[unfolded p]]
    have "layered e root (visit_node e i depth v (st\<lparr>pending := q\<rparr>))" by blast
    moreover have "slice_loop e (visit_node e i depth v (st\<lparr>pending := q\<rparr>)) = Some st'"
      using 1(4) Cons p v by (subst (asm) slice_loop.simps) simp
    ultimately show ?thesis using 1(1)[OF Cons p[symmetric] v] visit_node_ok[OF 1(2) Cons[unfolded p] v] by blast
  qed
qed

lemma slice_start_layered: "layered e root (slice_start root)"
  by (simp add: layered_def slice_start_def entries_of_def nearest_def)

text \<open>The steps of a form, whatever the limits of the slice.\<close>

definition slice_steps :: "SsaCfg \<Rightarrow> (VarId \<times> VarId) set" where
  "slice_steps ssa = {(a, b). unat b < length (vars ssa) \<and> (\<exists>v. vec_get (vars ssa) (unat a) = Some v \<and>
     boundary_of (collect_sites ssa) a v = None \<and> b \<in> set (dependencies v))}"

lemma slice_steps_depends: "slice_steps ssa \<subseteq> depends (vars ssa)"
  by (auto simp: slice_steps_def depends_def deps_in_def)

lemma backward_slice_nearest:
  assumes "unat root < length (vars ssa)" "0 < n" "backward_slice ssa root n d = Some (Inr s)" "x \<in> set (slice_nodes s)"
  shows "nearest (slice_steps ssa) root (node_var x, node_depth x)"
proof -
  let ?e = "slice_env_of ssa n d"
  have start: "slice_ok ?e root (slice_start root)"
    using slice_start_ok[of root ?e] assms(1,2) by (simp add: slice_env_of_def MAX_NODES_def)
  from slice_loop_ok[OF start] obtain st where st: "slice_loop ?e (slice_start root) = Some st" by blast
  have "slice_nodes s = out_nodes st"
    using st assms(1-3) by (auto simp: backward_slice_def Let_def slice_env_of_def not_le)
  moreover have "layered ?e root st" by (rule slice_loop_layered[OF start slice_start_layered st])
  moreover have "traversed ?e = slice_steps ssa" by (simp add: traversed_def slice_steps_def slice_env_of_def)
  ultimately show ?thesis using assms(4) by (auto simp: layered_def entries_of_def)
qed

subsection \<open>Properties\<close>

text \<open>
  C15. Slicing is total and within its limits. From an existing root and a positive node
  limit it returns a slice, for every table, cyclic or not: no variable is listed twice,
  there are at most as many nodes as asked and never more than 256, no deeper than asked
  and never deeper than 32, with at most 2048 inputs over all nodes. The depth of a node is its distance from the
  root: it is reached in that many steps along dependencies that exist, of definitions
  that are no boundary, and in no fewer, also where a limit has cut the slice off.
\<close>

theorem backward_slice_bounds:
  assumes "unat root < length (vars ssa)" "0 < n"
  shows "\<exists>s. backward_slice ssa root n d = Some (Inr s) \<and> distinct (map node_var (slice_nodes s)) \<and>
    length (slice_nodes s) \<le> min n 256 \<and> sum_list (map (length \<circ> inputs) (slice_nodes s)) \<le> 2048 \<and>
    (\<forall>x \<in> set (slice_nodes s). node_depth x \<le> min d 32 \<and> (root, node_var x) \<in> slice_steps ssa ^^ node_depth x \<and>
       (\<forall>k < node_depth x. (root, node_var x) \<notin> slice_steps ssa ^^ k))"
proof -
  from backward_slice_result[OF assms, of d] obtain st where
    s: "slice_ok (slice_env_of ssa n d) root st" "pending st = []"
      "backward_slice ssa root n d = Some (Inr \<lparr>slice_root = root, slice_nodes = out_nodes st,
       slice_blocks = List.map_filter (find_block ssa) (site_blocks st), slice_truncated = was_truncated st,
       slice_complete = is_complete st, max_nodes = min n MAX_NODES, max_depth = min d MAX_DEPTH, max_inputs = MAX_INPUTS\<rparr>)" .
  have "\<forall>x \<in> set (out_nodes st). node_depth x \<le> min d 32" using s(1) by (auto simp: slice_ok_def node_ok_def slice_env_of_def MAX_DEPTH_def)
  moreover have "\<forall>x \<in> set (out_nodes st). nearest (slice_steps ssa) root (node_var x, node_depth x)"
    using backward_slice_nearest[OF assms s(3)] by simp
  moreover have "distinct (map node_var (out_nodes st))" "length (out_nodes st) \<le> min n 256"
    "sum_list (map (length \<circ> inputs) (out_nodes st)) \<le> 2048"
    using s(1,2) by (simp_all add: slice_ok_def slice_env_of_def MAX_NODES_def MAX_INPUTS_def)
  ultimately show ?thesis using s(3) by (simp add: nearest_def)
qed

text \<open>
  C8. A slice that reports itself complete is exactly what it promises: it was not
  truncated, its nodes are all variables reachable from the root along dependencies, and
  each of them has a definition that is no boundary, with every dependency followed. It
  reports itself complete whenever it was not truncated and no node is a boundary or has
  an input it did not follow.
\<close>

theorem backward_slice_complete:
  assumes "unat root < length (vars ssa)" "0 < n" "backward_slice ssa root n d = Some (Inr s)"
  shows "(slice_complete s \<longleftrightarrow> \<not> slice_truncated s \<and> (\<forall>x \<in> set (slice_nodes s). closed_node x)) \<and>
    (slice_complete s \<longrightarrow> node_var ` set (slice_nodes s) = {v. (root, v) \<in> (depends (vars ssa))\<^sup>*} \<and>
       (\<forall>x \<in> set (slice_nodes s). map input_var (inputs x) = deps_in (vars ssa) (node_var x)))"
proof -
  from backward_slice_result[OF assms(1,2), of d] obtain st where
    st: "slice_ok (slice_env_of ssa n d) root st" "pending st = []"
    and s: "slice_nodes s = out_nodes st" "slice_truncated s = was_truncated st" "slice_complete s = is_complete st"
    using assms(3) by (metis BackwardSlice.select_convs(2,4,5) option.inject sum.inject(2))
  note ok = st(1)[unfolded slice_ok_def st(2), simplified]
  let ?D = "depends (vars ssa)"
  have seen: "node_var ` set (out_nodes st) = set (seen_vars st)" using ok by blast
  have iff: "is_complete st \<longleftrightarrow> \<not> was_truncated st \<and> (\<forall>x \<in> set (out_nodes st). closed_node x)" using ok by blast
  have reach: "(root, node_var x) \<in> ?D\<^sup>*" if "x \<in> set (out_nodes st)" for x
    using ok that by (auto simp: node_ok_def slice_env_of_def intro: relpow_imp_rtrancl)
  have ins: "map input_var (inputs x) = deps_in (vars ssa) (node_var x) \<and> set (deps_in (vars ssa) (node_var x)) \<subseteq> set (seen_vars st)"
    if c: "is_complete st" and x: "x \<in> set (out_nodes st)" for x
  proof -
    have "closed_node x" using iff c x by blast
    moreover have "node_ok (slice_env_of ssa n d) root x" using ok x by blast
    ultimately have i: "map input_var (inputs x) = deps_in (vars ssa) (node_var x)" "all_followed (inputs x)"
      by (auto simp: closed_node_def node_ok_def deps_in_def slice_env_of_def)
    then have "\<forall>y \<in> set (inputs x). input_var y \<in> set (seen_vars st)" using ok x by (auto simp: all_followed_def)
    then show ?thesis using i(1) by (metis image_subsetI list.set_map)
  qed
  have "{v. (root, v) \<in> ?D\<^sup>*} \<subseteq> set (seen_vars st)" if c: "is_complete st"
  proof
    fix v assume "v \<in> {v. (root, v) \<in> ?D\<^sup>*}"
    then have "(root, v) \<in> ?D\<^sup>*" by simp
    then show "v \<in> set (seen_vars st)"
    proof induction
      case base
      then show ?case using ok by blast
    next
      case (step a b)
      then obtain x where "x \<in> set (out_nodes st)" "node_var x = a" using seen by (metis imageE)
      then show ?case using ins[OF c] step(2) by (fastforce simp: depends_def)
    qed
  qed
  moreover have "set (seen_vars st) \<subseteq> {v. (root, v) \<in> ?D\<^sup>*}" unfolding seen[symmetric] using reach by blast
  ultimately have "is_complete st \<longrightarrow> set (seen_vars st) = {v. (root, v) \<in> ?D\<^sup>*}" by blast
  then show ?thesis unfolding s seen using iff ins by blast
qed

text \<open>A loop: a phi of a constant and a copy of the phi.\<close>

definition loop_table :: SsaCfg where
  "loop_table = \<lparr>ssa_blocks = [\<lparr>ssa_block_id = 0, ssa_block_addr = 0x1000, stmts = [Assign 0, Assign 1, Assign 2],
       ssa_terminator = SReturn None\<rparr>],
     vars = [(blank_vardef 0)\<lparr>expr := EPhi [1, 2]\<rparr>, (blank_vardef 1)\<lparr>expr := EConst 7 8\<rparr>, (blank_vardef 2)\<lparr>expr := EVar 0\<rparr>],
     ssa_entry = 0, ssa_diagnostics = []\<rparr>"

theorem backward_slice_bounds_witness:
  "\<exists>s. backward_slice loop_table 0 300 40 = Some (Inr s) \<and> length (slice_nodes s) \<le> 256"
  using backward_slice_bounds[of 0 loop_table 300 40] by (auto simp: loop_table_def)

lemma loop_slice:
  "map_option (map_sum id (\<lambda>s. (map node_var (slice_nodes s), slice_complete s, slice_truncated s, map slice_block_address (slice_blocks s))))
     (backward_slice loop_table 0 10 10) = Some (Inr ([0, 1, 2], True, False, [''0x1000'']))"
  by code_simp

theorem backward_slice_complete_witness:
  "{v. (0, v) \<in> (depends (vars loop_table))\<^sup>*} = {0, 1, 2}"
proof -
  obtain s where s: "backward_slice loop_table 0 10 10 = Some (Inr s)" "map node_var (slice_nodes s) = [0, 1, 2]" "slice_complete s"
  proof -
    obtain r where "backward_slice loop_table 0 10 10 = Some r"
      "map_sum id (\<lambda>s. (map node_var (slice_nodes s), slice_complete s, slice_truncated s, map slice_block_address (slice_blocks s))) r =
       Inr ([0, 1, 2], True, False, [''0x1000''])"
      using loop_slice by blast
    then show thesis using that by (cases r) simp_all
  qed
  have "node_var ` set (slice_nodes s) = {0, 1, 2}" using arg_cong[OF s(2), of set] by simp
  with backward_slice_complete[OF _ _ s(1)] s(3) show ?thesis by (simp add: loop_table_def)
qed

end
