(* ===== verification/Selector.thy ===== *)
theory Selector
  imports SliceProps
begin

text \<open>
  The choice of a slice's root by its meaning, \<^verbatim>\<open>rsleigh-decompile/src/slice/selector.rs\<close>: an
  argument of a call, the value of a return or the condition of a branch at an
  instruction, found in the block that ends with it. The left result is a
  \<open>SelectionError\<close>; \<open>None\<close> is the panic of an unreachable arm.
\<close>

datatype Selector =
    Variable VarId
  | CallArgument u64 usize
  | ReturnValue "u64 option"
  | Condition u64

record Selection =
  selector :: Selector
  selected_root :: VarId
  instruction_address :: "string option"
  calling_convention :: string
  interpretation_of :: string

record SelectionError =
  error_code :: string
  error_message :: string
  error_candidates :: "string list"

type_synonym selection_result = "SelectionError + Selection"

definition selection_error :: "string \<Rightarrow> string \<Rightarrow> SelectionError" where
  "selection_error code msg = \<lparr>error_code = code, error_message = msg, error_candidates = []\<rparr>"

primrec debug_cc :: "CallingConv \<Rightarrow> string" where
  "debug_cc SysV = ''SysV''" | "debug_cc Win64 = ''Win64''" | "debug_cc Cdecl32 = ''Cdecl32''"
| "debug_cc Stdcall32 = ''Stdcall32''" | "debug_cc Thiscall32 = ''Thiscall32''" | "debug_cc Fastcall32 = ''Fastcall32''"
| "debug_cc AArch64 = ''AArch64''" | "debug_cc Arm32 = ''Arm32''" | "debug_cc GoAmd64 = ''GoAmd64''"

definition selected :: "Selector \<Rightarrow> CallingConv \<Rightarrow> VarId \<Rightarrow> u64 option \<Rightarrow> string \<Rightarrow> Selection" where
  "selected sel cc root addr what = \<lparr>selector = sel, selected_root = root, instruction_address = map_option format_hex addr,
     calling_convention = debug_cc cc, interpretation_of = what\<rparr>"

primrec selector_address :: "Selector \<Rightarrow> u64 option" where
  "selector_address (Variable v) = None"
| "selector_address (CallArgument a n) = Some a"
| "selector_address (ReturnValue a) = a"
| "selector_address (Condition a) = Some a"

type_synonym listing = "(u64 \<times> PcodeOp list) list"

text \<open>The last instruction of a block: the greatest address in its range, the last one of several.\<close>

definition last_site :: "listing \<Rightarrow> u64 \<Rightarrow> u64 option \<Rightarrow> (u64 \<times> PcodeOp list) option" where
  "last_site instructions start stop_at =
     (case filter (\<lambda>e. start \<le> fst e \<and> (case stop_at of Some s \<Rightarrow> fst e < s | None \<Rightarrow> True)) instructions of
        [] \<Rightarrow> None
      | e # es \<Rightarrow> Some (fold (\<lambda>e best. if fst best \<le> fst e then e else best) es e))"

definition is_return_op :: "PcodeOp \<Rightarrow> bool" where
  "is_return_op op = (case op of Return d \<Rightarrow> True | BranchInd d \<Rightarrow> True | _ \<Rightarrow> False)"

definition is_ram_cbranch :: "PcodeOp \<Rightarrow> bool" where
  "is_ram_cbranch op = (case op of CBranch dest cond \<Rightarrow> space dest = Ram | _ \<Rightarrow> False)"

definition compatible :: "Selector \<Rightarrow> SsaTerminator \<Rightarrow> PcodeOp list \<Rightarrow> bool" where
  "compatible sel t inst = (case (sel, t) of
     (CallArgument a n, SCall target args out b) \<Rightarrow> list_ex is_call_op inst
   | (ReturnValue a, SReturn v) \<Rightarrow> list_ex is_return_op inst
   | (Condition a, SCBranch cond taken fallthrough) \<Rightarrow> list_ex is_ram_cbranch inst
   | _ \<Rightarrow> False)"

text \<open>The blocks in order of address, each with the address of the next.\<close>

primrec site_candidates :: "Selector \<Rightarrow> listing \<Rightarrow> SsaBlock list \<Rightarrow> (u64 \<times> SsaBlock) list" where
  "site_candidates sel instructions [] = []"
| "site_candidates sel instructions (blk # blks) =
     (case last_site instructions (ssa_block_addr blk) (case blks of [] \<Rightarrow> None | b # bs \<Rightarrow> Some (ssa_block_addr b)) of
        None \<Rightarrow> []
      | Some (site, inst) \<Rightarrow>
          if (case selector_address sel of Some a \<Rightarrow> a \<noteq> site | None \<Rightarrow> False) then []
          else if compatible sel (ssa_terminator blk) inst then [(site, blk)] else [])
     @ site_candidates sel instructions blks"

definition no_site :: "Selector \<Rightarrow> SelectionError" where
  "no_site sel = selection_error (if selector_address sel \<noteq> None then ''unsupported_root'' else ''missing_target'')
     ''no matching call, return, or conditional-branch root at the requested site''"

definition not_recovered :: "usize \<Rightarrow> CallingConv \<Rightarrow> SelectionError" where
  "not_recovered n cc = selection_error ''unsupported_root''
     (''argument '' @ radix_digits 10 (int n) @ '' was not recovered under '' @ debug_cc cc)"

text \<open>An argument by its ABI register, or by position where the convention has none.\<close>

definition argument_root :: "SsaCfg \<Rightarrow> CallingConv \<Rightarrow> usize \<Rightarrow> VarId list \<Rightarrow> SelectionError + VarId" where
  "argument_root ssa cc n args =
     (let registers = int_args (abi cc) in
      if registers = []
      then (case vec_get args n of Some v \<Rightarrow> Inr v | None \<Rightarrow> Inl (not_recovered n cc))
      else case vec_get registers n of
        None \<Rightarrow> Inl (selection_error ''unsupported_root'' ''argument is outside supported integer register slots'')
      | Some off \<Rightarrow>
          (case List.find (\<lambda>i. case vec_get (vars ssa) (unat i) of
               Some v \<Rightarrow> space (varnode v) = Register \<and> offset (varnode v) = off
             | None \<Rightarrow> False) args of
             Some v \<Rightarrow> Inr v
           | None \<Rightarrow> Inl (not_recovered n cc)))"

definition root_at :: "SsaCfg \<Rightarrow> Selector \<Rightarrow> CallingConv \<Rightarrow> u64 \<Rightarrow> SsaTerminator \<Rightarrow> selection_result option" where
  "root_at ssa sel cc site t = (case (sel, t) of
     (CallArgument a n, SCall target args out b) \<Rightarrow>
       Some (map_sum id (\<lambda>root. selected sel cc root (Some site)
         ''zero-based integer/pointer ABI argument; recovery is not a callee signature proof'') (argument_root ssa cc n args))
   | (ReturnValue a, SReturn v) \<Rightarrow> Some (case v of
         None \<Rightarrow> Inl (selection_error ''unsupported_root''
           ''return site has no recovered value (void or unknown return convention)'')
       | Some root \<Rightarrow> Inr (selected sel cc root (Some site)
           ''recovered return value at the selected instruction; does not establish reachability''))
   | (Condition a, SCBranch cond taken fallthrough) \<Rightarrow> Some (Inr (selected sel cc cond (Some site)
       ''nonzero condition selects the taken edge; expression dependence, not control dependence''))
   | _ \<Rightarrow> None)"

definition ambiguous :: "(u64 \<times> SsaBlock) list \<Rightarrow> SelectionError" where
  "ambiguous cs = \<lparr>error_code = ''ambiguous_target'', error_message = ''multiple return sites; select one with --at ADDRESS'',
     error_candidates = map (format_hex \<circ> fst) cs\<rparr>"

definition absent_instruction :: "u64 \<Rightarrow> SelectionError" where
  "absent_instruction a = selection_error ''missing_target'' (''instruction '' @ format_hex a @ '' is absent from this snapshot'')"

definition missing_variable :: "VarId \<Rightarrow> SelectionError" where
  "missing_variable v = selection_error ''missing_target'' (missing_root v)"

definition select_site :: "SsaCfg \<Rightarrow> listing \<Rightarrow> Selector \<Rightarrow> CallingConv \<Rightarrow> selection_result option" where
  "select_site ssa instructions sel cc =
     (case site_candidates sel instructions (sort_key ssa_block_addr (ssa_blocks ssa)) of
        [] \<Rightarrow> Some (Inl (no_site sel))
      | [(site, blk)] \<Rightarrow> root_at ssa sel cc site (ssa_terminator blk)
      | cs \<Rightarrow> Some (Inl (ambiguous cs)))"

definition resolve_operations :: "SsaCfg \<Rightarrow> listing \<Rightarrow> Selector \<Rightarrow> CallingConv \<Rightarrow> selection_result option" where
  "resolve_operations ssa instructions sel cc = (case sel of
     Variable v \<Rightarrow> Some (if unat v < length (vars ssa) then Inr (selected sel cc v None ''snapshot-local SSA variable'')
                        else Inl (missing_variable v))
   | _ \<Rightarrow> (case selector_address sel of
        Some a \<Rightarrow> if a \<in> fst ` set instructions then select_site ssa instructions sel cc
                  else Some (Inl (absent_instruction a))
      | None \<Rightarrow> select_site ssa instructions sel cc))"

definition resolve_selector :: "SsaCfg \<Rightarrow> (u64 \<times> Instruction) list \<Rightarrow> Selector \<Rightarrow> CallingConv \<Rightarrow> selection_result option" where
  "resolve_selector ssa instructions sel cc = resolve_operations ssa (map (\<lambda>e. (fst e, inst_ops (snd e))) instructions) sel cc"

subsection \<open>Properties\<close>

lemma last_site_greatest:
  assumes "last_site instructions start stop_at = Some (a, inst)"
  shows "(a, inst) \<in> set instructions \<and> start \<le> a \<and> (\<forall>s. stop_at = Some s \<longrightarrow> a < s) \<and>
    (\<forall>e \<in> set instructions. start \<le> fst e \<longrightarrow> (\<forall>s. stop_at = Some s \<longrightarrow> fst e < s) \<longrightarrow> fst e \<le> a)"
proof -
  let ?P = "\<lambda>e :: u64 \<times> PcodeOp list. start \<le> fst e \<and> (case stop_at of Some s \<Rightarrow> fst e < s | None \<Rightarrow> True)"
  let ?f = "\<lambda>(e :: u64 \<times> PcodeOp list) best. if fst best \<le> fst e then e else best"
  have best: "fold ?f es b \<in> insert b (set es) \<and> (\<forall>x \<in> insert b (set es). fst x \<le> fst (fold ?f es b))" for es b
  proof (induction es arbitrary: b)
    case (Cons e es)
    show ?case
    proof (cases "fst b \<le> fst e")
      case True
      then show ?thesis using Cons[of e] order_trans[OF True] by simp
    next
      case False
      then have "fst e \<le> fst b" by simp
      then show ?thesis using Cons[of b] False order_trans[of "fst e" "fst b"] by simp blast
    qed
  qed simp
  obtain e es where es: "filter ?P instructions = e # es" "(a, inst) = fold ?f es e"
    using assms by (auto simp: last_site_def split: list.splits)
  have s: "set (filter ?P instructions) = insert e (set es)" by (simp add: es(1))
  have "(a, inst) \<in> set (filter ?P instructions) \<and> (\<forall>x \<in> set (filter ?P instructions). fst x \<le> a)"
    unfolding s using best[where es = es and b = e] es(2) by (metis fst_conv)
  then show ?thesis by (auto split: option.splits)
qed

text \<open>
  The addresses of a block reach to the next block; its site is the greatest address of
  an instruction among them.
\<close>

definition in_block :: "SsaBlock set \<Rightarrow> SsaBlock \<Rightarrow> u64 \<Rightarrow> bool" where
  "in_block B blk a \<longleftrightarrow> ssa_block_addr blk \<le> a \<and> (\<forall>b \<in> B. ssa_block_addr blk < ssa_block_addr b \<longrightarrow> a < ssa_block_addr b)"

definition site_of_block :: "SsaBlock set \<Rightarrow> listing \<Rightarrow> SsaBlock \<Rightarrow> u64 \<Rightarrow> bool" where
  "site_of_block B instructions blk site \<longleftrightarrow> in_block B blk site \<and>
     (\<forall>e \<in> set instructions. in_block B blk (fst e) \<longrightarrow> fst e \<le> site)"

lemma site_candidates_sound:
  assumes "sorted (map ssa_block_addr blks)" "(site, blk) \<in> set (site_candidates sel instructions blks)"
  shows "blk \<in> set blks \<and> (\<exists>inst. (site, inst) \<in> set instructions \<and> compatible sel (ssa_terminator blk) inst) \<and>
    site_of_block (set blks) instructions blk site \<and> (\<forall>a. selector_address sel = Some a \<longrightarrow> site = a)"
  using assms
proof (induction blks)
  case (Cons b blks)
  let ?l = "last_site instructions (ssa_block_addr b) (case blks of [] \<Rightarrow> None | b # bs \<Rightarrow> Some (ssa_block_addr b))"
  show ?case
  proof (cases "(site, blk) \<in> set (site_candidates sel instructions blks)")
    case True
    from Cons.IH[OF _ True] Cons.prems(1) have ih: "blk \<in> set blks"
      "\<exists>inst. (site, inst) \<in> set instructions \<and> compatible sel (ssa_terminator blk) inst"
      "site_of_block (set blks) instructions blk site" "\<forall>a. selector_address sel = Some a \<longrightarrow> site = a" by simp_all
    have "\<not> ssa_block_addr blk < ssa_block_addr b" using Cons.prems(1) ih(1) by (auto simp: not_less)
    then have "in_block (set (b # blks)) blk = in_block (set blks) blk" by (simp add: in_block_def fun_eq_iff)
    then show ?thesis using ih by (simp add: site_of_block_def)
  next
    case False
    obtain site' inst where l': "?l = Some (site', inst)"
      using Cons.prems False by (cases ?l) fastforce+
    then have l: "?l = Some (site, inst)" "blk = b" "compatible sel (ssa_terminator b) inst"
        "\<not> (case selector_address sel of Some a \<Rightarrow> a \<noteq> site | None \<Rightarrow> False)"
      using Cons.prems False by (auto split: if_splits)
    note g = last_site_greatest[OF l(1)]
    have next': "site < ssa_block_addr c" if "c \<in> set blks" for c
      using that g Cons.prems(1) by (cases blks) (auto intro: less_le_trans)
    have "in_block (set (b # blks)) b site" using g next' by (simp add: in_block_def)
    moreover have "fst x \<le> site" if x: "x \<in> set instructions" "in_block (set (b # blks)) b (fst x)" for x
    proof -
      have "fst x < s" if "(case blks of [] \<Rightarrow> None | c # cs \<Rightarrow> Some (ssa_block_addr c)) = Some s" for s
      proof -
        from that obtain c cs where c: "blks = c # cs" "s = ssa_block_addr c" by (cases blks) auto
        have "ssa_block_addr b < ssa_block_addr c" using next'[of c] g c by (auto intro: le_less_trans)
        then show ?thesis using x(2) c by (simp add: in_block_def)
      qed
      then show ?thesis using g x by (simp add: in_block_def)
    qed
    ultimately have "site_of_block (set (b # blks)) instructions b site" by (simp add: site_of_block_def)
    moreover have "\<forall>a. selector_address sel = Some a \<longrightarrow> site = a" using l(4) by auto
    ultimately show ?thesis using l(2,3) g by auto
  qed
qed simp

text \<open>What later stages keep of a terminator: the variables it names exist, arguments included.\<close>

primrec operands :: "SsaTerminator \<Rightarrow> VarId list" where
  "operands (SFallthrough b) = []"
| "operands (SBranch b) = []"
| "operands (SCBranch cond taken fallthrough) = [cond]"
| "operands (SCall target args out b) = args"
| "operands (SReturn v) = (case v of Some i \<Rightarrow> [i] | None \<Rightarrow> [])"
| "operands (SIndirect v) = [v]"

definition in_register :: "SsaCfg \<Rightarrow> u64 \<Rightarrow> VarId \<Rightarrow> bool" where
  "in_register ssa off i \<longleftrightarrow> (\<exists>v. vec_get (vars ssa) (unat i) = Some v \<and> space (varnode v) = Register \<and> offset (varnode v) = off)"

text \<open>
  What the selector names at a terminator: an argument by its register, the first one in
  that register, or by its position where the convention passes none in registers; the
  value returned; the condition.
\<close>

definition names_operand :: "SsaCfg \<Rightarrow> CallingConv \<Rightarrow> Selector \<Rightarrow> SsaTerminator \<Rightarrow> VarId \<Rightarrow> bool" where
  "names_operand ssa cc sel t i \<longleftrightarrow> (case (sel, t) of
     (CallArgument a n, SCall target args out b) \<Rightarrow>
       if int_args (abi cc) = [] then n < length args \<and> args ! n = i
       else n < length (int_args (abi cc)) \<and> (\<exists>k < length args. args ! k = i \<and> in_register ssa (int_args (abi cc) ! n) i \<and>
         (\<forall>j < k. \<not> in_register ssa (int_args (abi cc) ! n) (args ! j)))
   | (ReturnValue a, SReturn v) \<Rightarrow> v = Some i
   | (Condition a, SCBranch cond taken fallthrough) \<Rightarrow> i = cond
   | _ \<Rightarrow> False)"

lemma names_operand_in: "names_operand ssa cc sel t i \<Longrightarrow> i \<in> set (operands t)"
  by (cases sel; cases t) (auto simp: names_operand_def split: if_splits)

lemma argument_root_names:
  assumes "argument_root ssa cc n args = Inr v"
  shows "names_operand ssa cc (CallArgument a n) (SCall target args out b) v"
proof (cases "int_args (abi cc) = []")
  case True
  then show ?thesis using assms by (auto simp: argument_root_def names_operand_def vec_simps split: option.splits if_splits)
next
  case False
  have reg: "(case vec_get (vars ssa) (unat i) of Some v \<Rightarrow> space (varnode v) = Register \<and> offset (varnode v) = off | None \<Rightarrow> False) =
      in_register ssa off i" for off and i :: VarId by (auto simp: in_register_def split: option.splits)
  from assms False obtain off where "vec_get (int_args (abi cc)) n = Some off" "List.find (in_register ssa off) args = Some v"
    by (auto simp: argument_root_def Let_def reg split: option.splits)
  then show ?thesis using False by (auto simp: names_operand_def find_Some_iff vec_simps split: if_splits)
qed

lemma root_at_operand:
  assumes "compatible sel t inst"
  shows "\<exists>r. root_at ssa sel cc site t = Some r \<and> (\<forall>s. r = Inr s \<longrightarrow> names_operand ssa cc sel t (selected_root s) \<and>
    instruction_address s = Some (format_hex site))"
proof -
  consider (arg) a n target args out b where "sel = CallArgument a n" "t = SCall target args out b"
    | (ret) a v where "sel = ReturnValue a" "t = SReturn v" | (cond) a c x y where "sel = Condition a" "t = SCBranch c x y"
    using assms by (cases sel; cases t; simp add: compatible_def)
  then show ?thesis
  proof cases
    case arg
    then show ?thesis
      using argument_root_names[of ssa cc n args] by (cases "argument_root ssa cc n args") (auto simp: root_at_def selected_def)
  qed (auto simp: root_at_def selected_def names_operand_def split: option.splits)
qed

text \<open>The block whose site was selected, by its site and what the site's instruction is.\<close>

definition picks_operand :: "SsaCfg \<Rightarrow> listing \<Rightarrow> Selector \<Rightarrow> CallingConv \<Rightarrow> Selection \<Rightarrow> bool" where
  "picks_operand ssa instructions sel cc s \<longleftrightarrow> (\<exists>blk \<in> set (ssa_blocks ssa). \<exists>(site, inst) \<in> set instructions.
     site_of_block (set (ssa_blocks ssa)) instructions blk site \<and> compatible sel (ssa_terminator blk) inst \<and>
     (\<forall>a. selector_address sel = Some a \<longrightarrow> site = a) \<and> instruction_address s = Some (format_hex site) \<and>
     names_operand ssa cc sel (ssa_terminator blk) (selected_root s))"

text \<open>
  C19. Selection never reaches an unreachable arm, and what it selects can be sliced: if
  the operands of the terminators exist in the table, the selected root does, so a
  backward slice from it returns for every positive limit. A selected argument, return
  value or condition belongs to the terminator of a block whose last instruction, the
  greatest address from the block's own up to the next block's, is of the matching kind
  and at the requested address if one was given, and is the one reported. It is the
  returned value, the condition, or the argument in the register the convention assigns
  to the requested index, by position where the convention has no such registers.
\<close>

theorem selection_sliceable:
  assumes "\<forall>blk \<in> set (ssa_blocks ssa). \<forall>i \<in> set (operands (ssa_terminator blk)). unat i < length (vars ssa)"
  shows "\<exists>r. resolve_operations ssa instructions sel cc = Some r \<and> (\<forall>s. r = Inr s \<longrightarrow>
    (\<forall>n d. 0 < n \<longrightarrow> (\<exists>sl. backward_slice ssa (selected_root s) n d = Some (Inr sl))) \<and>
    (sel \<noteq> Variable (selected_root s) \<longrightarrow> picks_operand ssa instructions sel cc s))"
proof -
  have site: "\<exists>r. select_site ssa instructions sel cc = Some r \<and> (\<forall>s. r = Inr s \<longrightarrow> picks_operand ssa instructions sel cc s)"
  proof -
    let ?cs = "site_candidates sel instructions (sort_key ssa_block_addr (ssa_blocks ssa))"
    consider "?cs = []" | site blk where "?cs = [(site, blk)]" | x y zs where "?cs = x # y # zs"
      by (metis list.exhaust surj_pair)
    then show ?thesis
    proof cases
      case (2 site blk)
      from 2 have "(site, blk) \<in> set ?cs" by simp
      from site_candidates_sound[OF _ this] obtain inst where
        c: "blk \<in> set (ssa_blocks ssa)" "(site, inst) \<in> set instructions" "site_of_block (set (ssa_blocks ssa)) instructions blk site"
          "compatible sel (ssa_terminator blk) inst" "\<forall>a. selector_address sel = Some a \<longrightarrow> site = a" by auto
      from root_at_operand[OF c(4), of ssa cc site] obtain r where
        r: "root_at ssa sel cc site (ssa_terminator blk) = Some r"
          "\<forall>s. r = Inr s \<longrightarrow> names_operand ssa cc sel (ssa_terminator blk) (selected_root s) \<and> instruction_address s = Some (format_hex site)"
        by blast
      have "select_site ssa instructions sel cc = Some r" using 2 r(1) by (simp add: select_site_def)
      moreover have "\<forall>s. r = Inr s \<longrightarrow> picks_operand ssa instructions sel cc s" using r(2) c unfolding picks_operand_def by blast
      ultimately show ?thesis by blast
    qed (auto simp: select_site_def)
  qed
  have "\<exists>r. resolve_operations ssa instructions sel cc = Some r \<and> (\<forall>s. r = Inr s \<longrightarrow>
      unat (selected_root s) < length (vars ssa) \<and> (sel \<noteq> Variable (selected_root s) \<longrightarrow> picks_operand ssa instructions sel cc s))"
  proof (cases "\<exists>v. sel = Variable v")
    case True
    then show ?thesis by (auto simp: resolve_operations_def selected_def)
  next
    case False
    then have "resolve_operations ssa instructions sel cc = select_site ssa instructions sel cc \<or>
        (\<exists>er. resolve_operations ssa instructions sel cc = Some (Inl er))"
      by (cases sel) (auto simp: resolve_operations_def split: option.split)
    moreover have "unat (selected_root s) < length (vars ssa)" if "picks_operand ssa instructions sel cc s" for s
      using that assms names_operand_in unfolding picks_operand_def by blast
    ultimately show ?thesis
    proof (elim disjE)
      assume e: "resolve_operations ssa instructions sel cc = select_site ssa instructions sel cc"
        and i: "\<And>s. picks_operand ssa instructions sel cc s \<Longrightarrow> unat (selected_root s) < length (vars ssa)"
      show ?thesis unfolding e using site i by meson
    qed auto
  qed
  then obtain r where r: "resolve_operations ssa instructions sel cc = Some r"
    "\<And>s. r = Inr s \<Longrightarrow> unat (selected_root s) < length (vars ssa)"
    "\<And>s. r = Inr s \<Longrightarrow> sel \<noteq> Variable (selected_root s) \<longrightarrow> picks_operand ssa instructions sel cc s" by blast
  have "\<exists>sl. backward_slice ssa (selected_root s) n d = Some (Inr sl)" if "r = Inr s" "0 < n" for s n d
    using backward_slice_total[OF r(2)[OF that(1)] that(2)] by blast
  with r show ?thesis by blast
qed

definition branch_form :: SsaCfg where
  "branch_form = \<lparr>ssa_blocks = [\<lparr>ssa_block_id = 0, ssa_block_addr = 0x1000, stmts = [Assign 1], ssa_terminator = SCBranch 1 0 0\<rparr>],
     vars = [(blank_vardef 0)\<lparr>expr := EConst 7 8\<rparr>, (blank_vardef 1)\<lparr>expr := EUnaryOp UBoolNot 0\<rparr>], ssa_entry = 0, ssa_diagnostics = []\<rparr>"

definition branch_listing :: listing where
  "branch_listing = [(0x1000, [BoolNot (register 0x206 1) (constant_vn 7 8)]), (0x1003, [CBranch (ram 0x1000 8) (register 0x206 1)])]"

theorem selection_sliceable_witness:
  "\<exists>s sl. resolve_operations branch_form branch_listing (Condition 0x1003) SysV = Some (Inr s) \<and>
    selected_root s = 1 \<and> backward_slice branch_form (selected_root s) 10 10 = Some (Inr sl)"
proof -
  have e: "map_option (map_sum error_code selected_root) (resolve_operations branch_form branch_listing (Condition 0x1003) SysV) = Some (Inr 1)"
    by code_simp
  have ok: "\<forall>blk \<in> set (ssa_blocks branch_form). \<forall>i \<in> set (operands (ssa_terminator blk)). unat i < length (vars branch_form)"
    by (simp add: branch_form_def)
  from e obtain r where r: "resolve_operations branch_form branch_listing (Condition 0x1003) SysV = Some r"
    "map_sum error_code selected_root r = Inr 1" by auto
  then obtain s where s: "r = Inr s" "selected_root s = 1" by (cases r) auto
  from selection_sliceable[OF ok, of branch_listing "Condition 0x1003" SysV] r(1) s(1)
  have "\<exists>sl. backward_slice branch_form (selected_root s) 10 10 = Some (Inr sl)" by auto
  with r(1) s show ?thesis by blast
qed

end
