(* ===== verification/CallGraph.thy ===== *)
theory CallGraph
  imports SsaBuild
begin

unbundle bit_operations_syntax

text \<open>
  The static call graph, \<^verbatim>\<open>rsleigh-decompile/src/callgraph.rs\<close>: the edges of a set of
  functions in SSA form, with indirect calls resolved through definitions and through
  tables of pointers in the image, the strongly connected components of its direct calls
  by Tarjan's algorithm, and the call that made a value. Stacks have their top first; the
  recursion of \<open>tarjan_visit\<close> is bounded by fuel, and \<open>None\<close> is a panic or fuel run out.
\<close>

type_synonym FuncId = u64

datatype CalleeRef =
    DirectCallee FuncId
  | ImportCallee string u64
  | IndirectCallee

record CallEdge =
  callee :: CalleeRef
  call_site :: u64

record CallGraph =
  funcs :: "FuncId list"
  call_edges :: "(FuncId \<times> CallEdge list) list"

definition empty_graph :: CallGraph where
  "empty_graph = \<lparr>funcs = [], call_edges = []\<rparr>"

definition edges_from :: "CallGraph \<Rightarrow> FuncId \<Rightarrow> CallEdge list" where
  "edges_from g f = (case map_of (call_edges g) f of Some es \<Rightarrow> es | None \<Rightarrow> [])"

definition add_function :: "FuncId \<Rightarrow> CallGraph \<Rightarrow> CallGraph" where
  "add_function f g = (if f \<in> set (funcs g) then g
     else g\<lparr>funcs := funcs g @ [f], call_edges := map_insert f (edges_from g f) (call_edges g)\<rparr>)"

definition add_edge :: "FuncId \<Rightarrow> CallEdge \<Rightarrow> CallGraph \<Rightarrow> CallGraph" where
  "add_edge f e g = g\<lparr>call_edges := map_insert f (edges_from g f @ [e]) (call_edges g)\<rparr>"

primrec direct_target :: "CalleeRef \<Rightarrow> FuncId option" where
  "direct_target (DirectCallee f) = Some f"
| "direct_target (ImportCallee name addr) = None"
| "direct_target IndirectCallee = None"

definition direct_successors :: "CallGraph \<Rightarrow> FuncId \<Rightarrow> FuncId list" where
  "direct_successors g f = fold (\<lambda>e out. case direct_target (callee e) of
     Some t \<Rightarrow> if t \<in> set out then out else out @ [t]
   | None \<Rightarrow> out) (edges_from g f) []"

subsection \<open>Strongly connected components\<close>

record TarjanState =
  index_counter :: u32
  tarjan_stack :: "FuncId list"
  indices :: "FuncId \<Rightarrow> u32 option"
  lowlinks :: "FuncId \<Rightarrow> u32 option"
  on_stack :: "FuncId \<Rightarrow> bool option"
  components :: "FuncId list list"

definition tarjan_start :: TarjanState where
  "tarjan_start = \<lparr>index_counter = 0, tarjan_stack = [], indices = Map.empty, lowlinks = Map.empty,
     on_stack = Map.empty, components = []\<rparr>"

definition enter_node :: "FuncId \<Rightarrow> TarjanState \<Rightarrow> TarjanState" where
  "enter_node x st = st\<lparr>indices := (indices st)(x \<mapsto> index_counter st), lowlinks := (lowlinks st)(x \<mapsto> index_counter st),
     index_counter := index_counter st + 1, tarjan_stack := x # tarjan_stack st, on_stack := (on_stack st)(x \<mapsto> True)\<rparr>"

definition lower :: "FuncId \<Rightarrow> u32 \<Rightarrow> TarjanState \<Rightarrow> TarjanState option" where
  "lower x n st = do {
     cur \<leftarrow> lowlinks st x;
     Some (st\<lparr>lowlinks := (lowlinks st)(x \<mapsto> min cur n)\<rparr>)
   }"

text \<open>The members in the order they come off the stack; \<open>None\<close> is the empty stack.\<close>

primrec pop_until :: "FuncId \<Rightarrow> FuncId list \<Rightarrow> (FuncId list \<times> FuncId list) option" where
  "pop_until x [] = None"
| "pop_until x (w # ws) =
     (if w = x then Some ([w], ws)
      else do { (component, rest) \<leftarrow> pop_until x ws; Some (w # component, rest) })"

definition leave_node :: "FuncId \<Rightarrow> TarjanState \<Rightarrow> TarjanState option" where
  "leave_node x st = do {
     low \<leftarrow> lowlinks st x;
     idx \<leftarrow> indices st x;
     if low = idx
     then do {
       (component, rest) \<leftarrow> pop_until x (tarjan_stack st);
       Some (st\<lparr>tarjan_stack := rest, on_stack := (\<lambda>w. if w \<in> set component then Some False else on_stack st w),
                components := components st @ [component]\<rparr>)
     }
     else Some st
   }"

fun tarjan_visit :: "nat \<Rightarrow> CallGraph \<Rightarrow> FuncId \<Rightarrow> TarjanState \<Rightarrow> TarjanState option"
and visit_successors :: "nat \<Rightarrow> CallGraph \<Rightarrow> FuncId \<Rightarrow> FuncId list \<Rightarrow> TarjanState \<Rightarrow> TarjanState option" where
  "tarjan_visit 0 g x st = None"
| "tarjan_visit (Suc n) g x st = do {
     st \<leftarrow> visit_successors n g x (direct_successors g x) (enter_node x st);
     leave_node x st
   }"
| "visit_successors n g x [] st = Some st"
| "visit_successors n g x (s # ss) st = do {
     st \<leftarrow> (if indices st s = None
        then do {
          st \<leftarrow> tarjan_visit n g s st;
          low \<leftarrow> lowlinks st s;
          lower x low st
        }
        else if on_stack st s = Some True
        then do {
          idx \<leftarrow> indices st s;
          lower x idx st
        }
        else Some st);
     visit_successors n g x ss st
   }"

text \<open>Fuel for one visit per function or target.\<close>

definition tarjan_fuel :: "CallGraph \<Rightarrow> nat" where
  "tarjan_fuel g = length (funcs g) + length (concat (map snd (call_edges g)))"

primrec visit_all :: "nat \<Rightarrow> CallGraph \<Rightarrow> FuncId list \<Rightarrow> TarjanState \<Rightarrow> TarjanState option" where
  "visit_all n g [] st = Some st"
| "visit_all n g (x # xs) st = do {
     st \<leftarrow> (if indices st x = None then tarjan_visit n g x st else Some st);
     visit_all n g xs st
   }"

definition tarjan_sccs :: "CallGraph \<Rightarrow> FuncId list list option" where
  "tarjan_sccs g = map_option components (visit_all (tarjan_fuel g) g (funcs g) tarjan_start)"

definition is_recursive :: "FuncId list list \<Rightarrow> FuncId \<Rightarrow> CallGraph \<Rightarrow> bool" where
  "is_recursive comps f g = (case List.find (\<lambda>c. f \<in> set c) comps of
     None \<Rightarrow> False
   | Some c \<Rightarrow> length c > 1 \<or> list_ex (\<lambda>e. direct_target (callee e) = Some f) (edges_from g f))"

subsection \<open>The image\<close>

record ImageView =
  data :: "8 word list"
  segs :: "(u64 \<times> u64 \<times> u64) list"
  ptr_size :: "8 word"

definition va_to_offset :: "ImageView \<Rightarrow> u64 \<Rightarrow> nat option" where
  "va_to_offset img va =
     (case List.find (\<lambda>(seg_va, sz, file_off). seg_va \<le> va \<and> va < saturating_add_u64 seg_va sz) (segs img) of
        Some (seg_va, sz, file_off) \<Rightarrow> Some (unat (saturating_add_u64 file_off (va - seg_va)))
      | None \<Rightarrow> None)"

definition le_bytes :: "8 word list \<Rightarrow> u64" where
  "le_bytes bs = foldr (\<lambda>b acc. ucast b OR push_bit 8 acc) bs 0"

definition read_ptr :: "ImageView \<Rightarrow> u64 \<Rightarrow> u64 option" where
  "read_ptr img va = do {
     off \<leftarrow> va_to_offset img va;
     if ptr_size img = 4 \<or> ptr_size img = 8
     then (let n = unat (ptr_size img) in
       if off + n \<le> length (data img) then Some (le_bytes (take n (drop off (data img)))) else None)
     else None
   }"

subsection \<open>Indirect calls\<close>

text \<open>Through copies, sixteen of them at most.\<close>

primrec drill_var :: "VarDef list \<Rightarrow> nat \<Rightarrow> VarDef option \<Rightarrow> VarDef option" where
  "drill_var vs 0 d = (case d of
     Some v \<Rightarrow> (case expr v of EVar i \<Rightarrow> None | _ \<Rightarrow> Some v)
   | None \<Rightarrow> None)"
| "drill_var vs (Suc left) d = (case d of
     Some v \<Rightarrow> (case expr v of EVar i \<Rightarrow> drill_var vs left (vec_get vs (unat i)) | _ \<Rightarrow> Some v)
   | None \<Rightarrow> None)"

definition drill :: "VarDef list \<Rightarrow> VarId \<Rightarrow> VarDef option" where
  "drill vs i = drill_var vs 16 (vec_get vs (unat i))"

definition table_base :: "VarDef list \<Rightarrow> ImageView \<Rightarrow> VarId \<Rightarrow> u64 option" where
  "table_base vs img i = do {
     d \<leftarrow> drill vs i;
     (case expr d of
        EConst c w \<Rightarrow> Some c
      | ELoad inner \<Rightarrow> do {
          slot \<leftarrow> drill vs inner;
          (case expr slot of EConst slot_va w \<Rightarrow> read_ptr img slot_va | _ \<Rightarrow> None)
        }
      | _ \<Rightarrow> None)
   }"

definition is_const_var :: "VarDef list \<Rightarrow> VarId \<Rightarrow> u64 \<Rightarrow> bool" where
  "is_const_var vs k c = (case vec_get vs (unat k) of
     Some v \<Rightarrow> (case expr v of EConst c' w \<Rightarrow> c' = c | _ \<Rightarrow> False)
   | None \<Rightarrow> False)"

definition is_index_term :: "VarDef list \<Rightarrow> u64 \<Rightarrow> VarId \<Rightarrow> bool" where
  "is_index_term vs stride i = (case drill vs i of
     None \<Rightarrow> False
   | Some d \<Rightarrow> (case expr d of
        EBinOp kind a k \<Rightarrow>
          if kind = BMult then is_const_var vs k stride
          else if kind = BLsl \<and> stride = 4 then is_const_var vs k 2
          else if kind = BLsl \<and> stride = 8 then is_const_var vs k 3
          else False
      | _ \<Rightarrow> False))"

primrec table_entries :: "ImageView \<Rightarrow> u64 \<Rightarrow> u64 \<Rightarrow> nat \<Rightarrow> u64 list \<Rightarrow> u64 list" where
  "table_entries img stride entry_va 0 out = out"
| "table_entries img stride entry_va (Suc left) out = (case read_ptr img entry_va of
     None \<Rightarrow> out
   | Some p \<Rightarrow> if p = 0 then out
       else table_entries img stride (entry_va + stride) left (if p \<in> set out then out else out @ [p]))"

definition last_definition :: "VarDef list \<Rightarrow> Varnode \<Rightarrow> VarDef option" where
  "last_definition vs vn = List.find (\<lambda>d. varnode d = vn) (rev vs)"

definition table_va_of :: "VarDef list \<Rightarrow> ImageView \<Rightarrow> Varnode \<Rightarrow> u64 option" where
  "table_va_of vs img target_vn = do {
     target_def \<leftarrow> drill_var vs 16 (last_definition vs target_vn);
     outer \<leftarrow> (case expr target_def of ELoad v \<Rightarrow> drill vs v | _ \<Rightarrow> None);
     (case expr outer of
        EBinOp kind lhs rhs \<Rightarrow>
          let stride = ucast (ptr_size img) in
          if kind \<noteq> BAdd then None
          else if is_index_term vs stride rhs then table_base vs img lhs
          else if is_index_term vs stride lhs then table_base vs img rhs
          else None
      | _ \<Rightarrow> None)
   }"

definition resolve_vtable_targets :: "Varnode \<Rightarrow> VarDef list \<Rightarrow> ImageView \<Rightarrow> nat \<Rightarrow> u64 list" where
  "resolve_vtable_targets target_vn vs img cap = (case table_va_of vs img target_vn of
     None \<Rightarrow> []
   | Some table_va \<Rightarrow> table_entries img (ucast (ptr_size img)) table_va cap [])"

type_synonym import_map = "(u64 \<times> string) list"

definition imported :: "import_map \<Rightarrow> u64 \<Rightarrow> bool" where
  "imported imps a \<longleftrightarrow> map_of imps a \<noteq> None"

definition masked :: "u64 \<Rightarrow> u64" where
  "masked a = a AND 0x0FFFFFFF"

definition constant_address :: "import_map \<Rightarrow> u64 \<Rightarrow> u64" where
  "constant_address imps c = (if imported imps c then c else if imported imps (masked c) then masked c else c)"

definition slot_address :: "import_map \<Rightarrow> VarDef list \<Rightarrow> VarId \<Rightarrow> u64 option" where
  "slot_address imps vs a = (case vec_get vs (unat a) of
     Some d \<Rightarrow> (case expr d of
        EConst slot w \<Rightarrow> if imported imps slot then Some slot else if imported imps (masked slot) then Some (masked slot) else None
      | _ \<Rightarrow> None)
   | None \<Rightarrow> None)"

function resolve_stack :: "import_map \<Rightarrow> VarDef list \<Rightarrow> VarId list \<Rightarrow> VarId list \<Rightarrow> u64 option" where
  "resolve_stack imps vs visited [] = None"
| "resolve_stack imps vs visited (i # stk) =
     (if i \<in> set visited then resolve_stack imps vs visited stk
      else if length (i # visited) > 32 then resolve_stack imps vs (i # visited) stk
      else case vec_get vs (unat i) of
        None \<Rightarrow> resolve_stack imps vs (i # visited) stk
      | Some d \<Rightarrow> (case expr d of
          EConst c w \<Rightarrow> Some (constant_address imps c)
        | EVar inner \<Rightarrow> resolve_stack imps vs (i # visited) (inner # stk)
        | ELoad a \<Rightarrow> (case slot_address imps vs a of
            Some found \<Rightarrow> Some found
          | None \<Rightarrow> resolve_stack imps vs (i # visited) stk)
        | _ \<Rightarrow> resolve_stack imps vs (i # visited) stk))"
  by pat_completeness auto
termination
  by (relation "measure (\<lambda>(imps, vs, visited, stk). 2 * (33 - length visited) + length stk)") auto

text \<open>The definitions of the varnode, collected from the last and so popped from the first.\<close>

definition resolve_via_vars :: "Varnode \<Rightarrow> VarDef list \<Rightarrow> import_map \<Rightarrow> u64 option" where
  "resolve_via_vars target_vn vs imps =
     resolve_stack imps vs [] (map var_id (filter (\<lambda>d. varnode d = target_vn) vs))"

subsection \<open>Building the graph\<close>

definition classify_addr :: "import_map \<Rightarrow> FuncId list \<Rightarrow> u64 \<Rightarrow> CalleeRef" where
  "classify_addr imps func_set addr = (case map_of imps addr of
     Some name \<Rightarrow> ImportCallee name addr
   | None \<Rightarrow> if addr \<in> set func_set then DirectCallee addr else IndirectCallee)"

definition edge_to :: "CalleeRef \<Rightarrow> CallEdge" where
  "edge_to c = \<lparr>callee = c, call_site = 0\<rparr>"

definition resolved_target :: "CallTarget \<Rightarrow> VarDef list \<Rightarrow> import_map \<Rightarrow> u64 option" where
  "resolved_target target vs imps = (case target of
     Direct addr \<Rightarrow> Some addr
   | IndirectTarget vn \<Rightarrow> resolve_via_vars vn vs imps)"

definition table_targets :: "CallTarget \<Rightarrow> VarDef list \<Rightarrow> ImageView option \<Rightarrow> nat \<Rightarrow> u64 list" where
  "table_targets target vs view cap = (case (target, view) of
     (IndirectTarget vn, Some img) \<Rightarrow> resolve_vtable_targets vn vs img cap
   | _ \<Rightarrow> [])"

definition classify_edges :: "CallTarget \<Rightarrow> VarDef list \<Rightarrow> import_map \<Rightarrow> FuncId list \<Rightarrow> ImageView option \<Rightarrow> nat \<Rightarrow> CallEdge list" where
  "classify_edges target vs imps func_set view cap = (case resolved_target target vs imps of
     Some addr \<Rightarrow> [edge_to (classify_addr imps func_set addr)]
   | None \<Rightarrow>
       let entries = table_targets target vs view cap in
       if entries \<noteq> [] then map (edge_to \<circ> classify_addr imps func_set) entries else [edge_to IndirectCallee])"

definition VTABLE_CAP :: nat where
  "VTABLE_CAP = 64"

definition add_new_edge :: "FuncId \<Rightarrow> CallEdge \<Rightarrow> CallEdge list \<times> CallGraph \<Rightarrow> CallEdge list \<times> CallGraph" where
  "add_new_edge caller e s = (case s of (seen_edges, g) \<Rightarrow>
     if e \<in> set seen_edges then s else (e # seen_edges, add_edge caller e g))"

definition block_targets :: "SsaBlock \<Rightarrow> CallTarget list" where
  "block_targets blk =
     List.map_filter (\<lambda>s. case s of CallStmt target args out \<Rightarrow> Some target | _ \<Rightarrow> None) (stmts blk) @
     (case ssa_terminator blk of SCall target args out b \<Rightarrow> [target] | _ \<Rightarrow> [])"

definition add_caller :: "FuncId list \<Rightarrow> import_map \<Rightarrow> ImageView option \<Rightarrow> FuncId \<times> SsaCfg \<Rightarrow> CallGraph \<Rightarrow> CallGraph" where
  "add_caller func_set imps view f g = (case f of (caller, ssa) \<Rightarrow>
     snd (fold (\<lambda>target s. fold (add_new_edge caller) (classify_edges target (vars ssa) imps func_set view VTABLE_CAP) s)
       (concat (map block_targets (ssa_blocks ssa))) ([], g)))"

definition build_call_graph_with_image :: "(FuncId \<times> SsaCfg) list \<Rightarrow> import_map \<Rightarrow> ImageView option \<Rightarrow> CallGraph" where
  "build_call_graph_with_image fs imps view =
     fold (add_caller (map fst fs) imps view) fs (fold (add_function \<circ> fst) fs empty_graph)"

definition build_call_graph :: "(FuncId \<times> SsaCfg) list \<Rightarrow> import_map \<Rightarrow> CallGraph" where
  "build_call_graph fs imps = build_call_graph_with_image fs imps None"

subsection \<open>The call that made a value\<close>

record DependencyCall =
  target_address :: "u64 option"
  import_name :: "string option"
  call_origin :: OperationOrigin
  confidence :: string
  resolution :: string
  arguments :: "(nat \<times> VarId) list"

type_synonym operation_at = "OperationOrigin \<Rightarrow> PcodeOp option"

definition is_call_origin :: "operation_at \<Rightarrow> OperationOrigin list \<Rightarrow> OperationOrigin \<Rightarrow> bool" where
  "is_call_origin operation value_origins org \<longleftrightarrow> org \<in> set value_origins \<and>
     (case operation org of Some op \<Rightarrow> is_call_op op | None \<Rightarrow> False)"

primrec call_candidates :: "SsaCfg \<Rightarrow> operation_at \<Rightarrow> OperationOrigin list \<Rightarrow> SsaBlock list \<Rightarrow>
    (CallTarget \<times> VarId list \<times> OperationOrigin) list option" where
  "call_candidates ssa operation value_origins [] = Some []"
| "call_candidates ssa operation value_origins (blk # blks) = (case ssa_terminator blk of
     SCall target args (Some out) b \<Rightarrow> do {
       v \<leftarrow> vec_get (vars ssa) (unat out);
       rest \<leftarrow> call_candidates ssa operation value_origins blks;
       (case filter (is_call_origin operation value_origins) (operations (origins v)) of
          [org] \<Rightarrow> Some ((target, args, org) # rest)
        | _ \<Rightarrow> Some rest)
     }
   | _ \<Rightarrow> call_candidates ssa operation value_origins blks)"

definition position_of :: "'a list \<Rightarrow> 'a \<Rightarrow> nat option" where
  "position_of xs x = List.find (\<lambda>i. xs ! i = x) [0..<length xs]"

primrec slot_arguments :: "SsaCfg \<Rightarrow> u64 list \<Rightarrow> VarId list \<Rightarrow> (nat \<times> VarId) list \<Rightarrow> (nat \<times> VarId) list option" where
  "slot_arguments ssa registers [] m = Some m"
| "slot_arguments ssa registers (a # as) m = do {
     v \<leftarrow> vec_get (vars ssa) (unat a);
     slot_arguments ssa registers as
       (if space (varnode v) = Register
        then (case position_of registers (offset (varnode v)) of Some slot \<Rightarrow> btree_insert slot a m | None \<Rightarrow> m)
        else m)
   }"

definition call_arguments :: "SsaCfg \<Rightarrow> CallingConv \<Rightarrow> VarId list \<Rightarrow> (nat \<times> VarId) list option" where
  "call_arguments ssa cc args =
     (let registers = int_args (abi cc)
      in if registers = [] then Some (List.enumerate 0 args) else slot_arguments ssa registers args [])"

definition is_raw_call :: "PcodeOp option \<Rightarrow> bool" where
  "is_raw_call op = (case op of Some (Call dest) \<Rightarrow> space dest = Ram | _ \<Rightarrow> False)"

definition import_of :: "CallEdge \<Rightarrow> string option" where
  "import_of e = (case callee e of ImportCallee name addr \<Rightarrow> Some name | _ \<Rightarrow> None)"

definition describe_call :: "SsaCfg \<Rightarrow> import_map \<Rightarrow> operation_at \<Rightarrow> CallTarget \<Rightarrow> OperationOrigin \<Rightarrow>
    (nat \<times> VarId) list \<Rightarrow> DependencyCall option" where
  "describe_call ssa imps operation target org slots = (case target of
     IndirectTarget vn \<Rightarrow> Some \<lparr>target_address = None, import_name = None, call_origin = org, confidence = ''unknown'',
       resolution = ''unresolved_indirect'', arguments = slots\<rparr>
   | Direct a \<Rightarrow> do {
       edge \<leftarrow> vec_get (classify_edges target (vars ssa) imps [a] None 0) 0;
       let raw = is_raw_call (operation org);
       Some \<lparr>target_address = Some a, import_name = import_of edge, call_origin = org,
         confidence = (if raw then ''direct'' else ''heuristic''),
         resolution = (if raw then ''raw_direct_call'' else ''cfg_resolved_indirect''), arguments = slots\<rparr>
     })"

definition dependency_call :: "SsaCfg \<Rightarrow> VarId \<Rightarrow> CallingConv \<Rightarrow> import_map \<Rightarrow> operation_at \<Rightarrow> (string + DependencyCall) option" where
  "dependency_call ssa x cc imps operation = do {
     v \<leftarrow> vec_get (vars ssa) (unat x);
     candidates \<leftarrow> call_candidates ssa operation (operations (origins v)) (ssa_blocks ssa);
     (case candidates of
        [] \<Rightarrow> Some (Inl ''unknown_call'')
      | [(target, args, org)] \<Rightarrow> do {
          slots \<leftarrow> call_arguments ssa cc args;
          call \<leftarrow> describe_call ssa imps operation target org slots;
          Some (Inr call)
        }
      | _ \<Rightarrow> Some (Inl ''ambiguous_call''))
   }"

end
