(* ===== verification/TarjanInv.thy ===== *)
theory TarjanInv
  imports CallGraph
begin

text \<open>
  What Tarjan's algorithm maintains: the invariant of its state, relative to the functions
  whose visit has begun and not ended, what a visit leaves alone, what it promises, and
  that each step of a visit keeps it.
\<close>

definition direct_calls :: "CallGraph \<Rightarrow> (FuncId \<times> FuncId) set" where
  "direct_calls g = {(x, y). y \<in> set (direct_successors g x)}"

definition called :: "CallGraph \<Rightarrow> FuncId set" where
  "called g = (direct_calls g)\<^sup>* `` set (funcs g)"

lemma set_direct_successors: "set (direct_successors g f) = {t. \<exists>e \<in> set (edges_from g f). direct_target (callee e) = Some t}"
proof -
  have "set (fold (\<lambda>e out. case direct_target (callee e) of Some t \<Rightarrow> if t \<in> set out then out else out @ [t] | None \<Rightarrow> out) es out) =
      set out \<union> {t. \<exists>e \<in> set es. direct_target (callee e) = Some t}" for es :: "CallEdge list" and out
    by (induction es arbitrary: out) (auto split: option.split)
  then show ?thesis by (simp add: direct_successors_def)
qed

lemma direct_calls_iff: "(x, y) \<in> direct_calls g \<longleftrightarrow> (\<exists>e \<in> set (edges_from g x). direct_target (callee e) = Some y)"
  by (simp add: direct_calls_def set_direct_successors)

lemma called_closed: "x \<in> called g \<Longrightarrow> (x, y) \<in> (direct_calls g)\<^sup>* \<Longrightarrow> y \<in> called g"
  unfolding called_def by (meson ImageE ImageI rtrancl_trans)

lemma called_step: "x \<in> called g \<Longrightarrow> (x, y) \<in> direct_calls g \<Longrightarrow> y \<in> called g"
  using called_closed by blast

lemma called_bounds: "finite (called g) \<and> card (called g) \<le> tarjan_fuel g"
proof -
  let ?ts = "concat (map (\<lambda>e. case direct_target (callee e) of Some t \<Rightarrow> [t] | None \<Rightarrow> []) (concat (map snd (call_edges g))))"
  have "length (concat (map (\<lambda>e. case direct_target (callee e) of Some t \<Rightarrow> [t] | None \<Rightarrow> []) es)) \<le> length es" for es :: "CallEdge list"
    by (induction es) (auto split: option.split)
  then have "length (funcs g @ ?ts) \<le> tarjan_fuel g" by (simp add: tarjan_fuel_def)
  moreover have "called g \<subseteq> set (funcs g @ ?ts)"
  proof
    fix y assume "y \<in> called g"
    then obtain x where x: "x \<in> set (funcs g)" "(x, y) \<in> (direct_calls g)\<^sup>*" by (auto simp: called_def)
    from x(2) show "y \<in> set (funcs g @ ?ts)"
    proof (cases rule: rtranclE)
      case (step z)
      then obtain e where e: "e \<in> set (edges_from g z)" "direct_target (callee e) = Some y" unfolding direct_calls_iff by blast
      then have "\<exists>es. map_of (call_edges g) z = Some es \<and> e \<in> set es"
        by (cases "map_of (call_edges g) z") (simp_all add: edges_from_def)
      then obtain es where es: "(z, es) \<in> set (call_edges g)" "e \<in> set es" using map_of_SomeD by fast
      then have "e \<in> set (concat (map snd (call_edges g)))" by force
      then have "y \<in> set ?ts" using e(2) unfolding set_concat set_map by (intro UN_I[where a = "[y]"] rev_image_eqI) auto
      then show ?thesis by simp
    qed (use x in simp)
  qed
  then have "finite (called g)" "card (called g) \<le> card (set (funcs g @ ?ts))"
    using finite_set by (blast intro: finite_subset, blast intro: card_mono)
  moreover have "card (set (funcs g @ ?ts)) \<le> length (funcs g @ ?ts)" by (rule card_length)
  ultimately show ?thesis by linarith
qed

subsection \<open>The invariant\<close>

abbreviation visited :: "TarjanState \<Rightarrow> FuncId set" where
  "visited st \<equiv> dom (indices st)"

abbreviation idx :: "TarjanState \<Rightarrow> FuncId \<Rightarrow> u32" where
  "idx st x \<equiv> the (indices st x)"

abbreviation low :: "TarjanState \<Rightarrow> FuncId \<Rightarrow> u32" where
  "low st x \<equiv> the (lowlinks st x)"

text \<open>Each list is a strongly connected component, and calls lead to itself or to earlier ones.\<close>

definition sccs_ok :: "CallGraph \<Rightarrow> FuncId list list \<Rightarrow> bool" where
  "sccs_ok g cs \<longleftrightarrow>
     (\<forall>c \<in> set cs. \<forall>x \<in> set c. set c = {y. (x, y) \<in> (direct_calls g)\<^sup>* \<and> (y, x) \<in> (direct_calls g)\<^sup>*}) \<and>
     (\<forall>i < length cs. direct_calls g `` set (cs ! i) \<subseteq> set (concat (take (Suc i) cs)))"

definition tarjan_inv :: "CallGraph \<Rightarrow> FuncId set \<Rightarrow> TarjanState \<Rightarrow> bool" where
  "tarjan_inv g G st \<longleftrightarrow>
     visited st \<subseteq> called g \<and> unat (index_counter st) = card (visited st) \<and>
     (\<forall>x \<in> visited st. idx st x < index_counter st \<and> lowlinks st x \<noteq> None) \<and>
     visited st = set (tarjan_stack st) \<union> set (concat (components st)) \<and>
     distinct (tarjan_stack st @ concat (components st)) \<and>
     (\<forall>x. on_stack st x = Some True \<longleftrightarrow> x \<in> set (tarjan_stack st)) \<and>
     sorted_wrt (\<lambda>a b. idx st b < idx st a) (tarjan_stack st) \<and>
     G \<subseteq> set (tarjan_stack st) \<and>
     direct_calls g `` (visited st - G) \<subseteq> visited st \<and>
     (\<forall>x \<in> set (tarjan_stack st). \<exists>r \<in> G. idx st r \<le> idx st x \<and> (x, r) \<in> (direct_calls g)\<^sup>*) \<and>
     (\<forall>r \<in> G. \<forall>x \<in> set (tarjan_stack st). idx st r \<le> idx st x \<longrightarrow> (r, x) \<in> (direct_calls g)\<^sup>*) \<and>
     sccs_ok g (components st)"

lemma tarjan_invD:
  assumes "tarjan_inv g G st"
  shows "visited st \<subseteq> called g" "unat (index_counter st) = card (visited st)"
    "x \<in> visited st \<Longrightarrow> idx st x < index_counter st" "x \<in> visited st \<Longrightarrow> lowlinks st x \<noteq> None"
    "visited st = set (tarjan_stack st) \<union> set (concat (components st))"
    "distinct (tarjan_stack st @ concat (components st))"
    "on_stack st x = Some True \<longleftrightarrow> x \<in> set (tarjan_stack st)"
    "sorted_wrt (\<lambda>a b. idx st b < idx st a) (tarjan_stack st)"
    "G \<subseteq> set (tarjan_stack st)" "direct_calls g `` (visited st - G) \<subseteq> visited st"
    "x \<in> set (tarjan_stack st) \<Longrightarrow> \<exists>r \<in> G. idx st r \<le> idx st x \<and> (x, r) \<in> (direct_calls g)\<^sup>*"
    "r \<in> G \<Longrightarrow> x \<in> set (tarjan_stack st) \<Longrightarrow> idx st r \<le> idx st x \<Longrightarrow> (r, x) \<in> (direct_calls g)\<^sup>*"
    "sccs_ok g (components st)"
  using assms unfolding tarjan_inv_def by blast+

text \<open>What lies below a function on the stack was found before it.\<close>

lemma below_less:
  assumes "tarjan_inv g G st" "tarjan_stack st = new @ p # S0"
  shows "w \<in> set S0 \<Longrightarrow> idx st w < idx st p" "y \<in> set new \<Longrightarrow> idx st p < idx st y" "w \<in> set S0 \<Longrightarrow> w \<notin> set (new @ [p])"
  using tarjan_invD(6,8)[OF assms(1)] unfolding assms(2) by (auto simp: sorted_wrt_append)

lemma tarjan_inv_start: "tarjan_inv g {} tarjan_start"
  by (simp add: tarjan_inv_def tarjan_start_def sccs_ok_def)

text \<open>Components are never left: what a member reaches is in a component too.\<close>

lemma sccs_closed:
  assumes "sccs_ok g cs" "x \<in> set (concat cs)" "(x, y) \<in> (direct_calls g)\<^sup>*"
  shows "y \<in> set (concat cs)"
  using assms(3,2)
proof (induction rule: rtrancl_induct)
  case (step y z)
  then obtain c where "c \<in> set cs" "y \<in> set c" by auto
  then obtain i where "i < length cs" "y \<in> set (cs ! i)" by (metis in_set_conv_nth)
  then have "z \<in> set (concat (take (Suc i) cs))" using step assms(1) unfolding sccs_ok_def by blast
  then show ?case using set_take_subset[of "Suc i" cs] by auto
qed

subsection \<open>What a visit leaves alone\<close>

definition extends :: "TarjanState \<Rightarrow> TarjanState \<Rightarrow> bool" where
  "extends st st' \<longleftrightarrow> (\<forall>x \<in> visited st. indices st' x = indices st x \<and> lowlinks st' x = lowlinks st x)"

lemma extends_refl: "extends st st"
  by (simp add: extends_def)

lemma extends_visited: "extends st st' \<Longrightarrow> visited st \<subseteq> visited st'"
  unfolding extends_def by (metis domIff subsetI)

lemma extends_trans: "extends a b \<Longrightarrow> extends b c \<Longrightarrow> extends a c"
  using extends_visited[of a b] unfolding extends_def by (intro ballI) (simp add: subset_iff domIff)

definition visit_post :: "CallGraph \<Rightarrow> FuncId set \<Rightarrow> FuncId \<Rightarrow> TarjanState \<Rightarrow> TarjanState \<Rightarrow> bool" where
  "visit_post g G x st st' \<longleftrightarrow> tarjan_inv g G st' \<and> extends st st' \<and> x \<in> visited st' \<and>
     (\<exists>new. tarjan_stack st' = new @ tarjan_stack st \<and> set new \<inter> visited st = {} \<and>
       (\<forall>y \<in> set new. \<forall>w \<in> set (tarjan_stack st). (y, w) \<in> direct_calls g \<longrightarrow> low st' x \<le> idx st w)) \<and>
     ((\<exists>w \<in> set (tarjan_stack st). idx st w = low st' x \<and> (x, w) \<in> (direct_calls g)\<^sup>*) \<or> index_counter st \<le> low st' x)"

text \<open>
  Between two calls of \<open>p\<close>, whose frame lies on the stack \<open>S0\<close>, with the calls \<open>D\<close> done and
  the low link \<open>l\<close>: it is the index of \<open>p\<close> or of a function below that \<open>p\<close> reaches, and bounds
  every call so far from the frame to a function below.
\<close>

definition succ_inv :: "CallGraph \<Rightarrow> FuncId set \<Rightarrow> FuncId \<Rightarrow> FuncId list \<Rightarrow> FuncId set \<Rightarrow> u32 \<Rightarrow> TarjanState \<Rightarrow> bool" where
  "succ_inv g G p S0 D l st \<longleftrightarrow> tarjan_inv g (insert p G) st \<and> G \<subseteq> set S0 \<and>
     (\<exists>new. tarjan_stack st = new @ p # S0 \<and>
       (\<forall>y \<in> set new. \<forall>w \<in> set S0. (y, w) \<in> direct_calls g \<longrightarrow> l \<le> idx st w)) \<and>
     l \<le> idx st p \<and> (l = idx st p \<or> (\<exists>w \<in> set S0. idx st w = l \<and> (p, w) \<in> (direct_calls g)\<^sup>*)) \<and>
     D \<subseteq> visited st \<and> (\<forall>s \<in> D \<inter> set S0. l \<le> idx st s)"

subsection \<open>Entering\<close>

lemma enter_inv:
  assumes inv: "tarjan_inv g G st" and x: "x \<in> called g" "x \<notin> visited st" "\<forall>p \<in> G. (p, x) \<in> (direct_calls g)\<^sup>*"
    and small: "card (called g) < 2 ^ 32"
  shows "tarjan_inv g (insert x G) (enter_node x st)"
proof -
  note d = tarjan_invD[OF inv]
  let ?c = "index_counter st"
  have fin: "finite (visited st)" using d(1) called_bounds finite_subset by blast
  have "card (insert x (visited st)) \<le> card (called g)" using d(1) x(1) called_bounds by (intro card_mono) auto
  then have "Suc (unat ?c) < 2 ^ 32" using d(2) fin x(2) small by simp
  then have c: "unat (?c + 1) = Suc (unat ?c)" by (simp add: unat_word_ariths)
  have less: "?c < ?c + 1" using c by (simp add: word_less_nat_alt)
  have fresh: "y \<noteq> x \<and> idx st y < ?c \<and> idx st y < ?c + 1 \<and> idx st y \<noteq> ?c" if "y \<in> visited st" for y
    using that x(2) d(3)[OF that] less by force
  have stack: "y \<in> visited st" if "y \<in> set (tarjan_stack st)" for y using that d(5) by simp
  have gray: "r \<in> visited st" if "r \<in> G" for r using that d(9) stack by blast
  let ?s = "enter_node x st"
  have e: "indices ?s = (indices st)(x \<mapsto> ?c)" "lowlinks ?s = (lowlinks st)(x \<mapsto> ?c)" "index_counter ?s = ?c + 1"
    "tarjan_stack ?s = x # tarjan_stack st" "on_stack ?s = (on_stack st)(x \<mapsto> True)" "components ?s = components st"
    by (simp_all add: enter_node_def)
  have v: "visited ?s = insert x (visited st)" by (simp add: e)
  have ix: "idx ?s x = ?c" "y \<in> visited st \<Longrightarrow> idx ?s y = idx st y" for y using x(2) by (auto simp: e)
  have "visited ?s \<subseteq> called g" using d(1) x(1) v by simp
  moreover have "unat (index_counter ?s) = card (visited ?s)" using c d(2) fin x(2) by (simp add: e(3) v)
  moreover have "\<forall>y \<in> visited ?s. idx ?s y < index_counter ?s \<and> lowlinks ?s y \<noteq> None"
    using less fresh ix d(4) unfolding v by (auto simp: e(2,3))
  moreover have "visited ?s = set (tarjan_stack ?s) \<union> set (concat (components ?s))" using d(5) by (simp add: v e(4,6))
  moreover have "distinct (tarjan_stack ?s @ concat (components ?s))" using d(5,6) x(2) by (simp add: e(4,6))
  moreover have "\<forall>y. on_stack ?s y = Some True \<longleftrightarrow> y \<in> set (tarjan_stack ?s)" using d(7) by (simp add: e(4,5))
  moreover have "sorted_wrt (\<lambda>a b. idx ?s b < idx ?s a) (tarjan_stack st)"
    using d(8) by (rule sorted_wrt_mono_rel[rotated]) (simp add: ix stack)
  then have "sorted_wrt (\<lambda>a b. idx ?s b < idx ?s a) (tarjan_stack ?s)" by (simp add: e(4) ix stack fresh)
  moreover have "insert x G \<subseteq> set (tarjan_stack ?s)" using d(9) by (auto simp: e(4))
  moreover have "direct_calls g `` (visited ?s - insert x G) \<subseteq> visited ?s" using d(10) unfolding v by blast
  moreover have "\<forall>y \<in> set (tarjan_stack ?s). \<exists>r \<in> insert x G. idx ?s r \<le> idx ?s y \<and> (y, r) \<in> (direct_calls g)\<^sup>*"
    using d(11) by (auto simp: e(4) ix gray stack)
  moreover have "(r, y) \<in> (direct_calls g)\<^sup>*" if "r \<in> insert x G" "y \<in> set (tarjan_stack ?s)" "idx ?s r \<le> idx ?s y" for r y
  proof (cases "y = x")
    case True
    then show ?thesis using that(1) x(3) by blast
  next
    case False
    then have y: "y \<in> set (tarjan_stack st)" using that(2) by (simp add: e(4))
    then have "r \<noteq> x" using that(3) fresh[OF stack[OF y]] by (auto simp: ix stack)
    then show ?thesis using that(1,3) d(12)[of r y] y gray by (simp add: ix stack)
  qed
  moreover have "sccs_ok g (components ?s)" using d(13) by (simp add: e(6))
  ultimately show ?thesis unfolding tarjan_inv_def by blast
qed

lemma enter_extends: "x \<notin> visited st \<Longrightarrow> extends st (enter_node x st)"
  by (auto simp: extends_def enter_node_def)

lemma enter_succ_inv:
  assumes "tarjan_inv g G st" "x \<in> called g" "x \<notin> visited st" "\<forall>p \<in> G. (p, x) \<in> (direct_calls g)\<^sup>*" "card (called g) < 2 ^ 32"
  shows "succ_inv g G x (tarjan_stack st) {} (low (enter_node x st) x) (enter_node x st)"
  using enter_inv[OF assms] tarjan_invD(9)[OF assms(1)] by (simp add: succ_inv_def) (simp add: enter_node_def)

subsection \<open>One call\<close>

lemma succ_invE:
  assumes "succ_inv g G p S0 D l st"
  obtains new where "tarjan_inv g (insert p G) st" "G \<subseteq> set S0" "tarjan_stack st = new @ p # S0"
    "\<forall>y \<in> set new. \<forall>w \<in> set S0. (y, w) \<in> direct_calls g \<longrightarrow> l \<le> idx st w" "l \<le> idx st p"
    "l = idx st p \<or> (\<exists>w \<in> set S0. idx st w = l \<and> (p, w) \<in> (direct_calls g)\<^sup>*)"
    "D \<subseteq> visited st" "\<forall>s \<in> D \<inter> set S0. l \<le> idx st s"
  using assms unfolding succ_inv_def by blast

lemma tarjan_inv_relow:
  assumes "tarjan_inv g G st" "indices st' = indices st" "index_counter st' = index_counter st"
    "tarjan_stack st' = tarjan_stack st" "on_stack st' = on_stack st" "components st' = components st"
    "\<And>x. x \<in> visited st \<Longrightarrow> lowlinks st' x \<noteq> None"
  shows "tarjan_inv g G st'"
proof -
  from assms(7) have "\<forall>x \<in> visited st. idx st x < index_counter st \<and> lowlinks st' x \<noteq> None"
    using tarjan_invD(3)[OF assms(1)] by blast
  then show ?thesis using assms(1) unfolding tarjan_inv_def assms(2-6) by blast
qed

lemma lower_step:
  assumes "succ_inv g G p S0 D (min (low st p) n) st"
  shows "\<exists>st'. lower p n st = Some st' \<and> succ_inv g G p S0 D (low st' p) st' \<and> indices st' = indices st \<and>
    (\<forall>st0. extends st0 st \<longrightarrow> p \<notin> visited st0 \<longrightarrow> extends st0 st')"
proof -
  from assms have inv: "tarjan_inv g (insert p G) st" by (simp add: succ_inv_def)
  let ?st = "st\<lparr>lowlinks := (lowlinks st)(p \<mapsto> min (low st p) n)\<rparr>"
  have "p \<in> visited st" using tarjan_invD(5,9)[OF inv] by auto
  from tarjan_invD(4)[OF inv this] have l: "lower p n st = Some ?st" by (auto simp: lower_def)
  have "tarjan_inv g (insert p G) ?st" using tarjan_invD(4)[OF inv] by (intro tarjan_inv_relow[OF inv]) auto
  then have "succ_inv g G p S0 D (low ?st p) ?st" using assms by (simp add: succ_inv_def)
  with l show ?thesis by (auto simp: extends_def)
qed

lemma seen_step:
  assumes inv: "succ_inv g G p S0 D (low st p) st" and s: "(p, s) \<in> direct_calls g" "s \<in> set (tarjan_stack st)"
  shows "succ_inv g G p S0 (insert s D) (min (low st p) (idx st s)) st"
proof -
  from inv obtain new where n: "tarjan_inv g (insert p G) st" "G \<subseteq> set S0" "tarjan_stack st = new @ p # S0"
    "\<forall>y \<in> set new. \<forall>w \<in> set S0. (y, w) \<in> direct_calls g \<longrightarrow> low st p \<le> idx st w" "low st p \<le> idx st p"
    "low st p = idx st p \<or> (\<exists>w \<in> set S0. idx st w = low st p \<and> (p, w) \<in> (direct_calls g)\<^sup>*)"
    "D \<subseteq> visited st" "\<forall>s \<in> D \<inter> set S0. low st p \<le> idx st s" by (rule succ_invE)
  have "s \<in> set S0" if "idx st s < low st p"
    using s(2) that n(5) below_less(2)[OF n(1,3), of s] unfolding n(3) by fastforce
  moreover have "s \<in> visited st" using s(2) tarjan_invD(5)[OF n(1)] by simp
  moreover have "(p, s) \<in> (direct_calls g)\<^sup>*" using s(1) by blast
  moreover define l where "l = min (low st p) (idx st s)"
  then have l: "l \<le> low st p" "l \<le> idx st s" "l = low st p \<or> l = idx st s \<and> idx st s < low st p" by (auto simp: min_def)
  ultimately have "l = idx st p \<or> (\<exists>w \<in> set S0. idx st w = l \<and> (p, w) \<in> (direct_calls g)\<^sup>*)" using n(6) by metis
  moreover have "\<forall>y \<in> set new. \<forall>w \<in> set S0. (y, w) \<in> direct_calls g \<longrightarrow> l \<le> idx st w" using n(4) order_trans[OF l(1)] by blast
  moreover have "l \<le> idx st p" using l(1) n(5) by (rule order_trans)
  moreover have "\<forall>t \<in> insert s D \<inter> set S0. l \<le> idx st t" using n(8) order_trans[OF l(1)] l(2) by blast
  moreover have "insert s D \<subseteq> visited st" using n(7) \<open>s \<in> visited st\<close> by simp
  ultimately show ?thesis unfolding succ_inv_def l_def using n(1-3) by blast
qed

lemma left_step:
  assumes "succ_inv g G p S0 D (low st p) st" "s \<in> visited st" "s \<notin> set (tarjan_stack st)"
  shows "succ_inv g G p S0 (insert s D) (low st p) st"
  using assms unfolding succ_inv_def by auto

lemma visit_step:
  assumes inv: "succ_inv g G p S0 D (low st p) st" and s: "(p, s) \<in> direct_calls g" "s \<notin> visited st"
    and post: "visit_post g (insert p G) s st st1"
  shows "succ_inv g G p S0 (insert s D) (min (low st1 p) (low st1 s)) st1"
proof -
  from inv obtain new where n: "tarjan_inv g (insert p G) st" "G \<subseteq> set S0" "tarjan_stack st = new @ p # S0"
    "\<forall>y \<in> set new. \<forall>w \<in> set S0. (y, w) \<in> direct_calls g \<longrightarrow> low st p \<le> idx st w" "low st p \<le> idx st p"
    "low st p = idx st p \<or> (\<exists>w \<in> set S0. idx st w = low st p \<and> (p, w) \<in> (direct_calls g)\<^sup>*)"
    "D \<subseteq> visited st" "\<forall>s \<in> D \<inter> set S0. low st p \<le> idx st s" by (rule succ_invE)
  from post obtain new1 where q: "tarjan_inv g (insert p G) st1" "extends st st1" "s \<in> visited st1"
    "tarjan_stack st1 = new1 @ tarjan_stack st"
    "\<forall>y \<in> set new1. \<forall>w \<in> set (tarjan_stack st). (y, w) \<in> direct_calls g \<longrightarrow> low st1 s \<le> idx st w"
    "(\<exists>w \<in> set (tarjan_stack st). idx st w = low st1 s \<and> (s, w) \<in> (direct_calls g)\<^sup>*) \<or> index_counter st \<le> low st1 s"
    unfolding visit_post_def by blast
  have old: "y \<in> visited st \<Longrightarrow> idx st1 y = idx st y \<and> low st1 y = low st y \<and> y \<in> visited st1" for y
    using q(2) extends_visited[OF q(2)] unfolding extends_def by auto
  have S: "set (new @ p # S0) \<subseteq> visited st" using tarjan_invD(5)[OF n(1)] n(3) by auto
  then have pv: "p \<in> visited st" and S0: "set S0 \<subseteq> visited st" and nv: "set new \<subseteq> visited st" by auto
  let ?l = "min (low st1 p) (low st1 s)"
  have "\<exists>w \<in> set S0. idx st1 w = low st1 s \<and> (p, w) \<in> (direct_calls g)\<^sup>*" if lt: "low st1 s < low st1 p"
  proof -
    have lp: "low st1 s < idx st p" using lt old[OF pv] n(5) by auto
    then have "\<not> index_counter st \<le> low st1 s" using tarjan_invD(3)[OF n(1) pv] by auto
    then obtain w where w: "w \<in> set (tarjan_stack st)" "idx st w = low st1 s" "(s, w) \<in> (direct_calls g)\<^sup>*" using q(6) by blast
    have "w \<in> set S0" using w(1,2) lp below_less(2)[OF n(1,3), of w] unfolding n(3) by fastforce
    moreover have "(p, w) \<in> (direct_calls g)\<^sup>*" using s(1) w(3) by (rule converse_rtrancl_into_rtrancl)
    moreover have "idx st1 w = idx st w" using \<open>w \<in> set S0\<close> old S0 by blast
    ultimately show ?thesis using w(2) by metis
  qed
  moreover have "low st1 p = idx st1 p \<or> (\<exists>w \<in> set S0. idx st1 w = low st1 p \<and> (p, w) \<in> (direct_calls g)\<^sup>*)"
    using n(6)
  proof
    assume "\<exists>w \<in> set S0. idx st w = low st p \<and> (p, w) \<in> (direct_calls g)\<^sup>*"
    then obtain w where w: "w \<in> set S0" "idx st w = low st p" "(p, w) \<in> (direct_calls g)\<^sup>*" by blast
    moreover have "idx st1 w = idx st w" using w(1) old S0 by blast
    ultimately show ?thesis using old[OF pv] by metis
  qed (use old[OF pv] in simp)
  ultimately have l: "?l = idx st1 p \<or> (\<exists>w \<in> set S0. idx st1 w = ?l \<and> (p, w) \<in> (direct_calls g)\<^sup>*)"
    by (cases "low st1 s < low st1 p") (simp_all add: min_def not_less)
  have frame: "?l \<le> idx st1 w" if "y \<in> set (new1 @ new)" "w \<in> set S0" "(y, w) \<in> direct_calls g" for y w
  proof -
    have w: "idx st1 w = idx st w" using old that(2) S0 by blast
    from that(1) consider "y \<in> set new1" | "y \<in> set new" by auto
    then show ?thesis
    proof cases
      case 1
      then have "low st1 s \<le> idx st w" using q(5) that(2,3) n(3) by simp
      then show ?thesis using w by (simp add: min.coboundedI2)
    next
      case 2
      then have "low st p \<le> idx st w" using n(4) that(2,3) by blast
      then show ?thesis using w old[OF pv] by (simp add: min.coboundedI1)
    qed
  qed
  have stk: "tarjan_stack st1 = (new1 @ new) @ p # S0" by (simp add: q(4) n(3))
  have lp: "?l \<le> idx st1 p" using n(5) old[OF pv] by (simp add: min.coboundedI1)
  have dv: "insert s D \<subseteq> visited st1" using n(7) q(3) extends_visited[OF q(2)] by blast
  have dl: "?l \<le> idx st1 t" if "t \<in> insert s D \<inter> set S0" for t
  proof -
    have "t \<in> visited st" using that S0 by blast
    moreover have "low st p \<le> idx st t" using that n(8) s(2) \<open>t \<in> visited st\<close> by blast
    ultimately show ?thesis using old[of t] old[OF pv] by (metis min.coboundedI1)
  qed
  show ?thesis unfolding succ_inv_def using q(1) n(2) stk frame lp l dv dl by blast
qed

subsection \<open>Leaving\<close>

lemma pop_until_append: "x \<notin> set new \<Longrightarrow> pop_until x (new @ x # rest) = Some (new @ [x], rest)"
  by (induction new) auto

lemma sccs_ok_snoc:
  assumes "sccs_ok g cs" "\<And>x. x \<in> set c \<Longrightarrow> set c = {y. (x, y) \<in> (direct_calls g)\<^sup>* \<and> (y, x) \<in> (direct_calls g)\<^sup>*}"
    "direct_calls g `` set c \<subseteq> set (concat cs) \<union> set c"
  shows "sccs_ok g (cs @ [c])"
proof -
  have "direct_calls g `` set ((cs @ [c]) ! i) \<subseteq> set (concat (take (Suc i) (cs @ [c])))" if "i < Suc (length cs)" for i
  proof (cases "i = length cs")
    case True
    then show ?thesis using assms(3) by simp
  next
    case False
    then have "i < length cs" using that by simp
    then show ?thesis using assms(1) by (simp add: sccs_ok_def nth_append)
  qed
  then show ?thesis using assms(1,2) unfolding sccs_ok_def by simp
qed

text \<open>The frame of a function whose low link is its own index is a component.\<close>

lemma frame_component:
  assumes inv: "succ_inv g G p S0 D (low st p) st" and D: "direct_calls g `` {p} \<subseteq> D" and root: "low st p = idx st p"
    and stk: "tarjan_stack st = new @ p # S0"
  shows "sccs_ok g (components st @ [new @ [p]])"
proof -
  let ?T = "set (new @ [p])" and ?C = "set (concat (components st))"
  from inv obtain new' where n: "tarjan_inv g (insert p G) st" "G \<subseteq> set S0" "tarjan_stack st = new' @ p # S0"
    "\<forall>y \<in> set new'. \<forall>w \<in> set S0. (y, w) \<in> direct_calls g \<longrightarrow> low st p \<le> idx st w"
    "D \<subseteq> visited st" "\<forall>s \<in> D \<inter> set S0. low st p \<le> idx st s" by (rule succ_invE)
  have "p \<notin> set new" "p \<notin> set new'" using below_less(2)[OF n(1) stk] below_less(2)[OF n(1,3)] by blast+
  then have "new' = new" using n(3) stk by (simp add: append_Cons_eq_iff)
  note n = n[unfolded this]
  have vis: "visited st = ?T \<union> set S0 \<union> ?C" using tarjan_invD(5)[OF n(1)] stk by auto
  have ok: "sccs_ok g (components st)" using n(1) by (rule tarjan_invD(13))
  have closed: "z \<in> ?T \<union> ?C" if "y \<in> ?T \<union> ?C" "(y, z) \<in> direct_calls g" for y z
  proof (cases "y \<in> ?C")
    case True
    then show ?thesis using sccs_closed[OF ok] that(2) by blast
  next
    case False
    then have y: "y \<in> set new \<or> y = p" using that(1) by auto
    have z: "z \<in> visited st"
    proof (cases "y = p")
      case True
      then show ?thesis using that(2) D n(5) by blast
    next
      case False
      then have "y \<notin> insert p G" using y below_less(3)[OF n(1,3), of y] n(2) by auto
      then show ?thesis using tarjan_invD(10)[OF n(1)] that vis by blast
    qed
    have "z \<notin> set S0"
    proof
      assume z0: "z \<in> set S0"
      then have "low st p \<le> idx st z" using y that(2) n(4,6) D by blast
      then show False using below_less(1)[OF n(1,3) z0] root by auto
    qed
    then show ?thesis using z vis by blast
  qed
  have reach: "z \<in> ?T \<union> ?C" if "y \<in> ?T" "(y, z) \<in> (direct_calls g)\<^sup>*" for y z
    using that(2,1) by (induction rule: rtrancl_induct) (use closed in blast)+
  have T: "y \<in> set (tarjan_stack st) \<and> idx st p \<le> idx st y" if "y \<in> ?T" for y
    using that below_less(2)[OF n(1,3), of y] stk by auto
  have down: "(p, y) \<in> (direct_calls g)\<^sup>*" if "y \<in> ?T" for y
    using tarjan_invD(12)[OF n(1), of p y] T[OF that] by blast
  have S0: "w \<notin> ?T \<union> ?C" if "w \<in> set S0" for w
    using that below_less(3)[OF n(1,3)] tarjan_invD(6)[OF n(1)] stk by auto
  have up: "(y, p) \<in> (direct_calls g)\<^sup>*" if "y \<in> ?T" for y
  proof -
    from tarjan_invD(11)[OF n(1), of y] T[OF that] obtain r where r: "r \<in> insert p G" "(y, r) \<in> (direct_calls g)\<^sup>*" by blast
    then have "r \<in> ?T \<union> ?C" using reach that by blast
    then have "r = p" using r(1) n(2) S0 by blast
    with r show ?thesis by simp
  qed
  have "?T = {z. (y, z) \<in> (direct_calls g)\<^sup>* \<and> (z, y) \<in> (direct_calls g)\<^sup>*}" if y: "y \<in> ?T" for y
  proof (intro equalityI subsetI)
    fix z assume "z \<in> ?T"
    then show "z \<in> {z. (y, z) \<in> (direct_calls g)\<^sup>* \<and> (z, y) \<in> (direct_calls g)\<^sup>*}"
      using up down y rtrancl_trans[of _ p "direct_calls g"] by blast
  next
    fix z assume "z \<in> {z. (y, z) \<in> (direct_calls g)\<^sup>* \<and> (z, y) \<in> (direct_calls g)\<^sup>*}"
    then have z: "(y, z) \<in> (direct_calls g)\<^sup>*" "(z, y) \<in> (direct_calls g)\<^sup>*" by simp_all
    have "z \<notin> ?C" using sccs_closed[OF ok _ z(2)] y tarjan_invD(6)[OF n(1)] stk by auto
    then show "z \<in> ?T" using reach[OF y z(1)] by blast
  qed
  moreover have "direct_calls g `` ?T \<subseteq> ?C \<union> ?T" using closed by blast
  ultimately show ?thesis by (intro sccs_ok_snoc[OF ok])
qed

end
