(* ===== verification/CallGraphProps.thy ===== *)
theory CallGraphProps
  imports TarjanInv
begin

text \<open>
  Tarjan's algorithm finds the strongly connected components of the direct calls in
  reverse topological order, and says of exactly the recursive functions that they are
  recursive.
\<close>

lemma tarjan_inv_regray:
  assumes "tarjan_inv g G' st" "G \<subseteq> set (tarjan_stack st)" "direct_calls g `` (visited st - G) \<subseteq> visited st"
    "\<And>x. x \<in> set (tarjan_stack st) \<Longrightarrow> \<exists>r \<in> G. idx st r \<le> idx st x \<and> (x, r) \<in> (direct_calls g)\<^sup>*"
    "\<And>r x. r \<in> G \<Longrightarrow> x \<in> set (tarjan_stack st) \<Longrightarrow> idx st r \<le> idx st x \<Longrightarrow> (r, x) \<in> (direct_calls g)\<^sup>*"
  shows "tarjan_inv g G st"
proof -
  from assms(4) have "\<forall>x \<in> set (tarjan_stack st). \<exists>r \<in> G. idx st r \<le> idx st x \<and> (x, r) \<in> (direct_calls g)\<^sup>*" by blast
  moreover from assms(5) have "\<forall>r \<in> G. \<forall>x \<in> set (tarjan_stack st). idx st r \<le> idx st x \<longrightarrow> (r, x) \<in> (direct_calls g)\<^sup>*" by blast
  ultimately show ?thesis using assms(1-3) unfolding tarjan_inv_def by (elim conjE, intro conjI)
qed

lemma leave_step:
  assumes inv: "succ_inv g G p (tarjan_stack st0) D (low st p) st" and D: "direct_calls g `` {p} \<subseteq> D"
    and st0: "tarjan_inv g G st0" "extends st0 st" "p \<notin> visited st0" "idx st p = index_counter st0"
  shows "\<exists>st'. leave_node p st = Some st' \<and> visit_post g G p st0 st'"
proof -
  let ?S0 = "tarjan_stack st0"
  from inv obtain new where n: "tarjan_inv g (insert p G) st" "G \<subseteq> set ?S0" "tarjan_stack st = new @ p # ?S0"
    "\<forall>y \<in> set new. \<forall>w \<in> set ?S0. (y, w) \<in> direct_calls g \<longrightarrow> low st p \<le> idx st w" "low st p \<le> idx st p"
    "low st p = idx st p \<or> (\<exists>w \<in> set ?S0. idx st w = low st p \<and> (p, w) \<in> (direct_calls g)\<^sup>*)"
    "D \<subseteq> visited st" "\<forall>s \<in> D \<inter> set ?S0. low st p \<le> idx st s" by (rule succ_invE)
  note d = tarjan_invD[OF n(1)]
  have pv: "p \<in> visited st" using d(5) n(3) by simp
  have old: "y \<in> visited st0 \<Longrightarrow> idx st y = idx st0 y" for y using st0(2) by (simp add: extends_def)
  have S0: "w \<in> visited st0" if "w \<in> set ?S0" for w using that tarjan_invD(5)[OF st0(1)] by simp
  have fresh: "y \<notin> visited st0" if "y \<in> set (new @ [p])" for y
  proof
    assume y: "y \<in> visited st0"
    have "idx st p \<le> idx st y" using that below_less(2)[OF n(1,3), of y] by auto
    moreover have "idx st y < idx st p" using old[OF y] tarjan_invD(3)[OF st0(1) y] st0(4) by simp
    ultimately show False by simp
  qed
  obtain l i where li: "lowlinks st p = Some l" "indices st p = Some i" using pv d(4)[OF pv] by auto
  show ?thesis
  proof (cases "low st p = idx st p")
    case False
    then have leave: "leave_node p st = Some st" using li by (simp add: leave_node_def)
    from False n(6) obtain w where w: "w \<in> set ?S0" "idx st w = low st p" "(p, w) \<in> (direct_calls g)\<^sup>*" by blast
    have lw: "idx st w < idx st p" using below_less(1)[OF n(1,3) w(1)] .
    have wS: "w \<in> set (tarjan_stack st)" using w(1) n(3) by simp
    from d(11)[OF wS] obtain r where r: "r \<in> insert p G" "idx st r \<le> idx st w" "(w, r) \<in> (direct_calls g)\<^sup>*" by blast
    then have rG: "r \<in> G" using lw by auto
    have up: "\<exists>r \<in> G. idx st r \<le> idx st x \<and> (x, r) \<in> (direct_calls g)\<^sup>*" if x: "x \<in> set (tarjan_stack st)" for x
    proof -
      from d(11)[OF x] obtain q where q: "q \<in> insert p G" "idx st q \<le> idx st x" "(x, q) \<in> (direct_calls g)\<^sup>*" by blast
      show ?thesis
      proof (cases "q = p")
        case True
        then have "(x, r) \<in> (direct_calls g)\<^sup>*" using q(3) w(3) r(3) by (meson rtrancl_trans)
        moreover have "idx st r \<le> idx st x" using r(2) lw q(2) True by simp
        ultimately show ?thesis using rG by blast
      qed (use q in blast)
    qed
    have cl: "direct_calls g `` (visited st - G) \<subseteq> visited st" using d(10) D n(7) by blast
    have gray: "G \<subseteq> set (tarjan_stack st)" using d(9) by blast
    have inv: "tarjan_inv g G st" by (rule tarjan_inv_regray[OF n(1) gray cl up]) (simp_all add: d(12))
    have edges: "low st p \<le> idx st0 u" if "y \<in> set (new @ [p])" "u \<in> set ?S0" "(y, u) \<in> direct_calls g" for y u
    proof -
      have "low st p \<le> idx st u"
      proof (cases "y = p")
        case True
        then show ?thesis using that(2,3) D n(8) by blast
      next
        case False
        then show ?thesis using that n(4) by simp
      qed
      then show ?thesis using old[OF S0[OF that(2)]] by simp
    qed
    have "tarjan_stack st = (new @ [p]) @ ?S0" using n(3) by simp
    moreover have "set (new @ [p]) \<inter> visited st0 = {}" using fresh by blast
    moreover have "\<exists>w \<in> set ?S0. idx st0 w = low st p \<and> (p, w) \<in> (direct_calls g)\<^sup>*" using w old[OF S0[OF w(1)]] by metis
    ultimately have "visit_post g G p st0 st"
      unfolding visit_post_def using inv st0(2) pv edges by (intro conjI exI[of _ "new @ [p]"] disjI1 ballI impI) assumption+
    with leave show ?thesis by blast
  next
    case True
    let ?st = "st\<lparr>tarjan_stack := ?S0, on_stack := (\<lambda>w. if w \<in> set (new @ [p]) then Some False else on_stack st w),
      components := components st @ [new @ [p]]\<rparr>"
    have pn: "p \<notin> set new" using below_less(2)[OF n(1,3)] by blast
    have leave: "leave_node p st = Some ?st"
      using li True pop_until_append[OF pn, of ?S0] n(3) by (simp add: leave_node_def)
    have sel: "indices ?st = indices st" "index_counter ?st = index_counter st" "lowlinks ?st = lowlinks st"
      "tarjan_stack ?st = ?S0" "components ?st = components st @ [new @ [p]]" by simp_all
    have on: "on_stack ?st x = Some True \<longleftrightarrow> x \<in> set ?S0" for x
      using d(7)[of x] below_less(3)[OF n(1,3), of x] n(3) by auto
    have v: "visited st = set ?S0 \<union> set (concat (components st @ [new @ [p]]))" using d(5) n(3) by auto
    have dis: "distinct (?S0 @ concat (components st @ [new @ [p]]))" using d(6) n(3) by auto
    have sorted: "sorted_wrt (\<lambda>a b. idx st b < idx st a) ?S0" using d(8) n(3) by (simp add: sorted_wrt_append)
    have cl: "direct_calls g `` (visited st - G) \<subseteq> visited st" using d(10) D n(7) by blast
    have up: "\<exists>r \<in> G. idx st r \<le> idx st x \<and> (x, r) \<in> (direct_calls g)\<^sup>*" if x: "x \<in> set ?S0" for x
      using d(11)[of x] x n(3) below_less(1)[OF n(1,3) x] by fastforce
    have down: "(r, x) \<in> (direct_calls g)\<^sup>*" if "r \<in> G" "x \<in> set ?S0" "idx st r \<le> idx st x" for r x
      using d(12)[of r x] that n(3) by auto
    have "tarjan_inv g G ?st"
      unfolding tarjan_inv_def sel using d(1,2,3,4) v dis on sorted n(2) cl up down frame_component[OF inv D True n(3)] by blast
    moreover have "extends st0 ?st" using st0(2) unfolding extends_def sel .
    ultimately have "visit_post g G p st0 ?st"
      unfolding visit_post_def sel using pv True st0(4) by (intro conjI exI[of _ "[]"]) simp_all
    with leave show ?thesis by blast
  qed
qed

subsection \<open>Visits\<close>

lemma card_shrinks:
  assumes "x \<in> called g" "x \<notin> visited st" "card (called g - visited st) \<le> Suc n"
  shows "card (called g - visited (enter_node x st)) \<le> n"
proof -
  have "called g - visited (enter_node x st) = (called g - visited st) - {x}" by (auto simp: enter_node_def)
  then show ?thesis using assms called_bounds[of g] by (simp add: card_Diff_singleton)
qed

lemma card_extends: "extends st st' \<Longrightarrow> card (called g - visited st) \<le> n \<Longrightarrow> card (called g - visited st') \<le> n"
  using extends_visited[of st st'] card_mono[of "called g - visited st" "called g - visited st'"] called_bounds[of g] by fastforce

definition visits_to :: "CallGraph \<Rightarrow> nat \<Rightarrow> bool" where
  "visits_to g n \<longleftrightarrow> (\<forall>G x st. tarjan_inv g G st \<longrightarrow> x \<in> called g \<longrightarrow> x \<notin> visited st \<longrightarrow>
     (\<forall>p \<in> G. (p, x) \<in> (direct_calls g)\<^sup>*) \<longrightarrow> card (called g - visited st) \<le> n \<longrightarrow>
     (\<exists>st'. tarjan_visit n g x st = Some st' \<and> visit_post g G x st st'))"

lemma visits_toD:
  assumes "visits_to g n" "tarjan_inv g G st" "x \<in> called g" "x \<notin> visited st" "\<forall>p \<in> G. (p, x) \<in> (direct_calls g)\<^sup>*"
    "card (called g - visited st) \<le> n"
  shows "\<exists>st'. tarjan_visit n g x st = Some st' \<and> visit_post g G x st st'"
  using assms unfolding visits_to_def by blast

text \<open>One round of the loop over the calls of \<open>p\<close>.\<close>

definition call_step :: "nat \<Rightarrow> CallGraph \<Rightarrow> FuncId \<Rightarrow> FuncId \<Rightarrow> TarjanState \<Rightarrow> TarjanState option" where
  "call_step n g x s st =
     (if indices st s = None
        then do {
          st \<leftarrow> tarjan_visit n g s st;
          low \<leftarrow> lowlinks st s;
          lower x low st
        }
        else if on_stack st s = Some True
        then do {
          idx \<leftarrow> indices st s;
          lower x idx st
        }
        else Some st)"

lemma visit_successors_step: "visit_successors n g x (s # ss) st = Option.bind (call_step n g x s st) (visit_successors n g x ss)"
  by (simp add: call_step_def)

lemma call_step_ok:
  assumes v: "visits_to g n" and inv: "succ_inv g G p S0 D (low st p) st" and st0: "extends st0 st" "p \<notin> visited st0"
    and p: "p \<in> called g" "(p, s) \<in> direct_calls g" "card (called g - visited st) \<le> n"
  shows "\<exists>st'. call_step n g p s st = Some st' \<and> succ_inv g G p S0 (insert s D) (low st' p) st' \<and> extends st0 st' \<and>
    idx st' p = idx st p \<and> visited st \<subseteq> visited st'"
proof -
  from inv obtain new where n: "tarjan_inv g (insert p G) st" "G \<subseteq> set S0" "tarjan_stack st = new @ p # S0" by (rule succ_invE)
  note d = tarjan_invD[OF n(1)]
  have pv: "p \<in> visited st" using d(5) n(3) by simp
  consider (new) "s \<notin> visited st" | (seen) "s \<in> visited st" "s \<in> set (tarjan_stack st)" | (left) "s \<in> visited st" "s \<notin> set (tarjan_stack st)" by blast
  then show ?thesis
  proof cases
    case new
    have "(q, s) \<in> (direct_calls g)\<^sup>*" if "q \<in> insert p G" for q
    proof -
      have "idx st q \<le> idx st p" using that n(2) below_less(1)[OF n(1,3), of q] by auto
      then have "(q, p) \<in> (direct_calls g)\<^sup>*" using d(12)[OF that, of p] n(3) by simp
      then show ?thesis using p(2) by (rule rtrancl_into_rtrancl)
    qed
    then obtain st1 where st1: "tarjan_visit n g s st = Some st1" "visit_post g (insert p G) s st st1"
      using visits_toD[OF v n(1) called_step[OF p(1,2)] new _ p(3)] by blast
    then have ext: "extends st st1" and inv1: "tarjan_inv g (insert p G) st1" and s1: "s \<in> visited st1" by (simp_all add: visit_post_def)
    from tarjan_invD(4)[OF inv1 s1] obtain l where l: "lowlinks st1 s = Some l" by blast
    from lower_step[OF visit_step[OF inv p(2) new st1(2)]] obtain st2 where st2: "lower p (low st1 s) st1 = Some st2"
      "succ_inv g G p S0 (insert s D) (low st2 p) st2" "indices st2 = indices st1"
      "\<forall>st0. extends st0 st1 \<longrightarrow> p \<notin> visited st0 \<longrightarrow> extends st0 st2" by blast
    have "call_step n g p s st = Some st2" using new st1(1) l st2(1) by (simp add: call_step_def domIff)
    moreover have "extends st0 st2" using st2(4) extends_trans[OF st0(1) ext] st0(2) by blast
    moreover have "idx st2 p = idx st p" using ext pv st2(3) by (simp add: extends_def)
    moreover have "visited st \<subseteq> visited st2" using extends_visited[OF ext] st2(3) by simp
    ultimately show ?thesis using st2(2) by blast
  next
    case seen
    from lower_step[OF seen_step[OF inv p(2) seen(2)]] obtain st2 where st2: "lower p (idx st s) st = Some st2"
      "succ_inv g G p S0 (insert s D) (low st2 p) st2" "indices st2 = indices st"
      "\<forall>st0. extends st0 st \<longrightarrow> p \<notin> visited st0 \<longrightarrow> extends st0 st2" by blast
    have "call_step n g p s st = Some st2" using seen d(7)[of s] st2(1) by (auto simp: call_step_def)
    then show ?thesis using st2 st0 by auto
  next
    case left
    have "call_step n g p s st = Some st" using left d(7)[of s] by (auto simp: call_step_def)
    then show ?thesis using left_step[OF inv left] st0(1) by blast
  qed
qed

lemma successors_correct:
  assumes v: "visits_to g n" and st0: "p \<notin> visited st0" and p: "p \<in> called g"
  shows "succ_inv g G p S0 D (low st p) st \<Longrightarrow> extends st0 st \<Longrightarrow> set ss \<subseteq> direct_calls g `` {p} \<Longrightarrow>
      card (called g - visited st) \<le> n \<Longrightarrow>
      \<exists>st'. visit_successors n g p ss st = Some st' \<and> succ_inv g G p S0 (D \<union> set ss) (low st' p) st' \<and> extends st0 st' \<and> idx st' p = idx st p"
proof (induction ss arbitrary: st D)
  case (Cons s ss)
  have "(p, s) \<in> direct_calls g" using Cons.prems(3) by auto
  from call_step_ok[OF v Cons.prems(1,2) st0 p this Cons.prems(4)] obtain st1 where
    st1: "call_step n g p s st = Some st1" "succ_inv g G p S0 (insert s D) (low st1 p) st1" "extends st0 st1"
      "idx st1 p = idx st p" "visited st \<subseteq> visited st1" by blast
  have "card (called g - visited st1) \<le> card (called g - visited st)"
    using st1(5) called_bounds[of g] by (intro card_mono) auto
  then have "card (called g - visited st1) \<le> n" using Cons.prems(4) by simp
  from Cons.IH[OF st1(2,3) _ this] Cons.prems(3) obtain st2 where
    st2: "visit_successors n g p ss st1 = Some st2" "succ_inv g G p S0 (insert s D \<union> set ss) (low st2 p) st2" "extends st0 st2"
      "idx st2 p = idx st1 p" by auto
  have "insert s D \<union> set ss = D \<union> set (s # ss)" by simp
  with st2(2) have "succ_inv g G p S0 (D \<union> set (s # ss)) (low st2 p) st2" by (rule back_subst[where P = "\<lambda>X. succ_inv g G p S0 X (low st2 p) st2"])
  moreover have "visit_successors n g p (s # ss) st = Some st2" using st1(1) st2(1) unfolding visit_successors_step by simp
  ultimately show ?case using st2(3,4) st1(4) by auto
qed simp

lemma visit_correct:
  assumes small: "card (called g) < 2 ^ 32"
  shows "visits_to g n"
proof (induction n)
  case 0
  have "\<not> card (called g - visited st) \<le> 0" if "x \<in> called g" "x \<notin> visited st" for x st
    using that called_bounds[of g] by auto
  then show ?case unfolding visits_to_def by blast
next
  case (Suc n)
  show ?case unfolding visits_to_def
  proof (intro allI impI)
    fix G x st
    assume a: "tarjan_inv g G st" "x \<in> called g" "x \<notin> visited st" "\<forall>p \<in> G. (p, x) \<in> (direct_calls g)\<^sup>*"
      "card (called g - visited st) \<le> Suc n"
    let ?e = "enter_node x st"
    have ss: "set (direct_successors g x) \<subseteq> direct_calls g `` {x}" by (auto simp: direct_calls_def)
    from successors_correct[OF Suc a(3,2) enter_succ_inv[OF a(1-4) small] enter_extends[OF a(3)] ss card_shrinks[OF a(2,3,5)]]
    obtain st1 where st1: "visit_successors n g x (direct_successors g x) ?e = Some st1"
      "succ_inv g G x (tarjan_stack st) ({} \<union> set (direct_successors g x)) (low st1 x) st1" "extends st st1" "idx st1 x = idx ?e x" by blast
    have "direct_calls g `` {x} \<subseteq> {} \<union> set (direct_successors g x)" by (auto simp: direct_calls_def)
    moreover have "idx st1 x = index_counter st" using st1(4) by (simp add: enter_node_def)
    ultimately obtain st' where "leave_node x st1 = Some st'" "visit_post g G x st st'"
      using leave_step[OF st1(2) _ a(1) st1(3) a(3)] by blast
    then show "\<exists>st'. tarjan_visit (Suc n) g x st = Some st' \<and> visit_post g G x st st'" using st1(1) by simp
  qed
qed

lemma no_gray_no_stack: "tarjan_inv g {} st \<Longrightarrow> tarjan_stack st = []"
  using tarjan_invD(11)[of g "{}" st] by (cases "tarjan_stack st") force+

lemma visit_all_correct:
  assumes v: "visits_to g n" and n: "card (called g) \<le> n"
  shows "tarjan_inv g {} st \<Longrightarrow> set xs \<subseteq> called g \<Longrightarrow>
    \<exists>st'. visit_all n g xs st = Some st' \<and> tarjan_inv g {} st' \<and> visited st \<union> set xs \<subseteq> visited st'"
proof (induction xs arbitrary: st)
  case (Cons x xs)
  have "\<exists>st1. (if indices st x = None then tarjan_visit n g x st else Some st) = Some st1 \<and> tarjan_inv g {} st1 \<and>
      visited st \<subseteq> visited st1 \<and> x \<in> visited st1"
  proof (cases "x \<in> visited st")
    case False
    have "card (called g - visited st) \<le> n" using n card_mono[of "called g" "called g - visited st"] called_bounds[of g] by fastforce
    with False visits_toD[OF v Cons.prems(1), of x] Cons.prems(2) obtain st1 where
      "tarjan_visit n g x st = Some st1" "visit_post g {} x st st1" by auto
    then show ?thesis using False extends_visited[of st st1] by (auto simp: visit_post_def)
  qed (use Cons.prems in auto)
  then obtain st1 where st1: "(if indices st x = None then tarjan_visit n g x st else Some st) = Some st1" "tarjan_inv g {} st1"
    "visited st \<subseteq> visited st1" "x \<in> visited st1" by blast
  from Cons.IH[OF st1(2)] Cons.prems(2) obtain st2 where
    "visit_all n g xs st1 = Some st2" "tarjan_inv g {} st2" "visited st1 \<union> set xs \<subseteq> visited st2" by auto
  then show ?case using st1 by auto
qed simp

text \<open>The result of the algorithm, with its laws apart.\<close>

lemma tarjan_result:
  assumes "tarjan_fuel g < 2 ^ 32"
  obtains cs where "tarjan_sccs g = Some cs" "distinct (concat cs)" "set (concat cs) = called g" "sccs_ok g cs"
proof -
  have small: "card (called g) < 2 ^ 32" using assms called_bounds[of g] by linarith
  have "set (funcs g) \<subseteq> called g" by (auto simp: called_def)
  with visit_all_correct[OF visit_correct[OF small] conjunct2[OF called_bounds] tarjan_inv_start] obtain st where
    st: "visit_all (tarjan_fuel g) g (funcs g) tarjan_start = Some st" "tarjan_inv g {} st" "set (funcs g) \<subseteq> visited st" by blast
  have v: "visited st = set (concat (components st))" using tarjan_invD(5)[OF st(2)] no_gray_no_stack[OF st(2)] by simp
  have ok: "sccs_ok g (components st)" using st(2) by (rule tarjan_invD(13))
  have "called g \<subseteq> set (concat (components st))"
    using sccs_closed[OF ok] st(3) unfolding v called_def by blast
  then have "set (concat (components st)) = called g" using tarjan_invD(1)[OF st(2)] v by blast
  moreover have "distinct (concat (components st))" using tarjan_invD(6)[OF st(2)] by simp
  ultimately show thesis using that[of "components st"] st(1) ok by (simp add: tarjan_sccs_def)
qed

subsection \<open>Properties of the components\<close>

text \<open>
  C16. While the functions and edges of a graph can be counted in 32 bits, Tarjan's
  algorithm returns, without popping an empty stack and within the fuel, a partition of
  the functions reachable from the graph's along direct calls; each part is exactly the
  set of functions mutually reachable with any of its members, and every call from a part
  leads to itself or to an earlier one, so that callees precede their callers.
\<close>

theorem tarjan_sccs_correct:
  assumes "tarjan_fuel g < 2 ^ 32"
  shows "\<exists>cs. tarjan_sccs g = Some cs \<and> distinct (concat cs) \<and> set (concat cs) = (direct_calls g)\<^sup>* `` set (funcs g) \<and>
    (\<forall>c \<in> set cs. \<forall>x \<in> set c. set c = {y. (x, y) \<in> (direct_calls g)\<^sup>* \<and> (y, x) \<in> (direct_calls g)\<^sup>*}) \<and>
    (\<forall>i < length cs. \<forall>x \<in> set (cs ! i). \<forall>y. (x, y) \<in> direct_calls g \<longrightarrow> (\<exists>j \<le> i. y \<in> set (cs ! j)))"
proof -
  obtain cs where cs: "tarjan_sccs g = Some cs" "distinct (concat cs)" "set (concat cs) = called g" "sccs_ok g cs"
    using assms by (rule tarjan_result)
  have "\<exists>j \<le> i. y \<in> set (cs ! j)" if "i < length cs" "x \<in> set (cs ! i)" "(x, y) \<in> direct_calls g" for i x y
  proof -
    have "y \<in> set (concat (take (Suc i) cs))" using that cs(4) unfolding sccs_ok_def by blast
    then obtain c where "c \<in> set (take (Suc i) cs)" "y \<in> set c" by auto
    then obtain j where "j < Suc i" "cs ! j = c" using that(1) by (auto simp: in_set_conv_nth)
    with \<open>y \<in> set c\<close> show ?thesis by (auto simp: less_Suc_eq_le)
  qed
  with cs show ?thesis unfolding sccs_ok_def called_def by blast
qed

text \<open>
  C22. With the components the algorithm returns, a function is reported recursive exactly
  when it is reachable from the graph's functions and calls itself, directly or through
  others.
\<close>

theorem is_recursive_iff:
  assumes "tarjan_fuel g < 2 ^ 32" "tarjan_sccs g = Some cs"
  shows "is_recursive cs f g \<longleftrightarrow> f \<in> (direct_calls g)\<^sup>* `` set (funcs g) \<and> (f, f) \<in> (direct_calls g)\<^sup>+"
proof (cases "f \<in> called g")
  case False
  have "set (concat cs) = called g" using assms(2) tarjan_result[OF assms(1)] by (metis option.inject)
  with False have "List.find (\<lambda>c. f \<in> set c) cs = None" by (auto simp: find_None_iff)
  with False show ?thesis by (simp add: is_recursive_def called_def)
next
  case True
  have r: "distinct (concat cs)" "set (concat cs) = called g" "sccs_ok g cs"
    using assms(2) tarjan_result[OF assms(1)] by (metis option.inject)+
  from True r(2) have "List.find (\<lambda>c. f \<in> set c) cs \<noteq> None" by (auto simp: find_None_iff)
  then obtain c where c: "List.find (\<lambda>c. f \<in> set c) cs = Some c" by blast
  then have m: "c \<in> set cs" "f \<in> set c" by (auto simp: find_Some_iff)
  have scc: "set c = {y. (f, y) \<in> (direct_calls g)\<^sup>* \<and> (y, f) \<in> (direct_calls g)\<^sup>*}" using r(3) m unfolding sccs_ok_def by blast
  have d: "distinct c" using r(1) m(1) by (auto simp: distinct_concat_iff)
  have self: "list_ex (\<lambda>e. direct_target (callee e) = Some f) (edges_from g f) \<longleftrightarrow> (f, f) \<in> direct_calls g"
    by (auto simp: list_ex_iff direct_calls_iff)
  have "length c > 1 \<or> (f, f) \<in> direct_calls g \<longleftrightarrow> (f, f) \<in> (direct_calls g)\<^sup>+"
  proof
    assume "length c > 1 \<or> (f, f) \<in> direct_calls g"
    then show "(f, f) \<in> (direct_calls g)\<^sup>+"
    proof
      assume "length c > 1"
      then have "set c \<noteq> {f}" using d distinct_card[OF d] by auto
      then obtain y where "y \<in> set c" "y \<noteq> f" using m(2) by blast
      then have "(f, y) \<in> (direct_calls g)\<^sup>+" "(y, f) \<in> (direct_calls g)\<^sup>*" using scc by (auto simp: rtrancl_eq_or_trancl)
      then show ?thesis by (rule trancl_rtrancl_trancl)
    qed blast
  next
    assume "(f, f) \<in> (direct_calls g)\<^sup>+"
    then obtain z where z: "(f, z) \<in> direct_calls g" "(z, f) \<in> (direct_calls g)\<^sup>*" by (blast dest: tranclD)
    then have "z \<in> set c" using scc by blast
    then have "z = f \<or> length c > 1" using m(2) by (cases c; cases "tl c") auto
    then show "length c > 1 \<or> (f, f) \<in> direct_calls g" using z(1) by blast
  qed
  then show ?thesis using True c self by (simp add: is_recursive_def called_def)
qed

text \<open>Functions 1 and 2 call each other, and 2 calls 3.\<close>

definition mutual_graph :: CallGraph where
  "mutual_graph = fold (\<lambda>(a, b). add_edge a \<lparr>callee = DirectCallee b, call_site = 0\<rparr>) [(1, 2), (2, 1), (2, 3)]
     (fold add_function [1, 2, 3] empty_graph)"

theorem tarjan_sccs_correct_witness: "\<exists>cs. tarjan_sccs mutual_graph = Some cs \<and> distinct (concat cs)"
proof -
  have "tarjan_fuel mutual_graph = 6" by code_simp
  then show ?thesis using tarjan_sccs_correct[of mutual_graph] by auto
qed

theorem is_recursive_iff_witness: "is_recursive [[3], [2, 1]] 1 mutual_graph \<and> (1, 1) \<in> (direct_calls mutual_graph)\<^sup>+"
proof -
  have "tarjan_fuel mutual_graph = 6" by code_simp
  then have "tarjan_fuel mutual_graph < 2 ^ 32" by simp
  moreover have "tarjan_sccs mutual_graph = Some [[3], [2, 1]]" by code_simp
  moreover have "is_recursive [[3], [2, 1]] 1 mutual_graph" by code_simp
  ultimately show ?thesis using is_recursive_iff[of mutual_graph "[[3], [2, 1]]" 1] by blast
qed

end
