(* ===== verification/CallGraphEdges.thy ===== *)
theory CallGraphEdges
  imports CallGraphProps SsaOps
begin

text \<open>
  What the construction of the call graph puts into it, and what the call is that
  \<open>dependency_call\<close> finds for a value.
\<close>

subsection \<open>What construction puts into the graph\<close>

definition caller_edges :: "(FuncId \<times> SsaCfg) list \<Rightarrow> import_map \<Rightarrow> ImageView option \<Rightarrow> SsaCfg \<Rightarrow> CallEdge list" where
  "caller_edges fs imps view ssa = concat (map (\<lambda>t. classify_edges t (vars ssa) imps (map fst fs) view VTABLE_CAP)
     (concat (map block_targets (ssa_blocks ssa))))"

lemma edges_from_insert: "edges_from (g\<lparr>call_edges := map_insert f es (call_edges g)\<rparr>) x = (if x = f then es else edges_from g x)"
  by (simp add: edges_from_def map_of_insert)

lemma edges_from_funcs: "edges_from (g\<lparr>funcs := fs, call_edges := es\<rparr>) x = edges_from (g\<lparr>call_edges := es\<rparr>) x"
  by (simp add: edges_from_def)

lemma edges_from_add [simp]:
  "edges_from (add_function f g) x = edges_from g x"
  "edges_from (add_edge f e g) x = (if x = f then edges_from g f @ [e] else edges_from g x)"
  by (auto simp: add_function_def add_edge_def edges_from_insert edges_from_funcs)

lemma funcs_add_edge [simp]: "funcs (add_edge f e g) = funcs g"
  by (simp add: add_edge_def)

lemma add_functions:
  "distinct (funcs g) \<Longrightarrow> distinct (funcs (fold (add_function \<circ> fst) fs g)) \<and>
    set (funcs (fold (add_function \<circ> fst) fs g)) = set (funcs g) \<union> fst ` set fs \<and>
    edges_from (fold (add_function \<circ> fst) fs g) x = edges_from g x"
proof (induction fs arbitrary: g)
  case (Cons f fs)
  have "distinct (funcs (add_function (fst f) g))" "set (funcs (add_function (fst f) g)) = insert (fst f) (set (funcs g))"
    using Cons.prems by (auto simp: add_function_def)
  with Cons.IH[of "add_function (fst f) g"] show ?case by auto
qed simp

lemma add_new_edges:
  "\<exists>new. edges_from (snd (fold (add_new_edge c) es (sn, g))) c = edges_from g c @ new \<and> distinct new \<and> set new = set es - set sn \<and>
    funcs (snd (fold (add_new_edge c) es (sn, g))) = funcs g \<and>
    (\<forall>x. x \<noteq> c \<longrightarrow> edges_from (snd (fold (add_new_edge c) es (sn, g))) x = edges_from g x)"
proof (induction es arbitrary: sn g)
  case (Cons e es)
  show ?case
  proof (cases "e \<in> set sn")
    case True
    then show ?thesis using Cons[of sn g] by (simp add: add_new_edge_def insert_absorb insert_Diff_if)
  next
    case False
    from Cons[of "e # sn" "add_edge c e g"] obtain new where
      "edges_from (snd (fold (add_new_edge c) es (e # sn, add_edge c e g))) c = edges_from g c @ e # new"
      "distinct new" "set new = set es - set (e # sn)" "funcs (snd (fold (add_new_edge c) es (e # sn, add_edge c e g))) = funcs g"
      "\<forall>x. x \<noteq> c \<longrightarrow> edges_from (snd (fold (add_new_edge c) es (e # sn, add_edge c e g))) x = edges_from g x" by auto
    moreover have "add_new_edge c e (sn, g) = (e # sn, add_edge c e g)" using False by (simp add: add_new_edge_def)
    ultimately show ?thesis using False by (intro exI[of _ "e # new"]) auto
  qed
qed simp

lemma fold_fold: "fold (\<lambda>t. fold f (h t)) ts s = fold f (concat (map h ts)) s"
  by (induction ts arbitrary: s) auto

lemma add_caller_edges:
  "\<exists>new. edges_from (add_caller (map fst fs) imps view (c, ssa) g) c = edges_from g c @ new \<and> distinct new \<and>
    set new = set (caller_edges fs imps view ssa) \<and> funcs (add_caller (map fst fs) imps view (c, ssa) g) = funcs g \<and>
    (\<forall>x. x \<noteq> c \<longrightarrow> edges_from (add_caller (map fst fs) imps view (c, ssa) g) x = edges_from g x)"
  using add_new_edges[of c "caller_edges fs imps view ssa" "[]" g]
  by (simp add: add_caller_def fold_fold caller_edges_def)

lemma add_callers:
  "funcs (fold (add_caller (map fst fs) imps view) ds g) = funcs g \<and>
   set (edges_from (fold (add_caller (map fst fs) imps view) ds g) x) =
     set (edges_from g x) \<union> (\<Union>(f, ssa) \<in> {d \<in> set ds. fst d = x}. set (caller_edges fs imps view ssa)) \<and>
   (edges_from g x = [] \<longrightarrow> distinct (map fst ds) \<longrightarrow> distinct (edges_from (fold (add_caller (map fst fs) imps view) ds g) x)) \<and>
   (x \<notin> fst ` set ds \<longrightarrow> edges_from (fold (add_caller (map fst fs) imps view) ds g) x = edges_from g x)"
proof (induction ds arbitrary: g)
  case (Cons d ds)
  obtain c ssa where d: "d = (c, ssa)" by fastforce
  let ?g = "add_caller (map fst fs) imps view (c, ssa) g"
  from add_caller_edges[of fs imps view c ssa g] obtain new where
    new: "edges_from ?g c = edges_from g c @ new" "distinct new" "set new = set (caller_edges fs imps view ssa)"
      "funcs ?g = funcs g" "\<forall>x. x \<noteq> c \<longrightarrow> edges_from ?g x = edges_from g x" by blast
  note IH = Cons[of ?g]
  show ?case
  proof (cases "x = c")
    case True
    have "{d' \<in> set (d # ds). fst d' = x} = insert (c, ssa) {d' \<in> set ds. fst d' = x}" using d True by auto
    moreover have "distinct (edges_from (fold (add_caller (map fst fs) imps view) ds ?g) c)"
      if "edges_from g c = []" "distinct (map fst (d # ds))"
    proof -
      have "c \<notin> fst ` set ds" using that(2) d by auto
      then have "edges_from (fold (add_caller (map fst fs) imps view) ds ?g) c = edges_from ?g c" using IH True by blast
      then show ?thesis using new(1,2) that(1) by simp
    qed
    ultimately show ?thesis using IH new(1,3,4) d True by auto
  next
    case False
    have "{d' \<in> set (d # ds). fst d' = x} = {d' \<in> set ds. fst d' = x}" using d False by auto
    then show ?thesis using IH new(4,5) d False by auto
  qed
qed simp

lemma build_edges:
  "distinct (funcs (build_call_graph_with_image fs imps view)) \<and> set (funcs (build_call_graph_with_image fs imps view)) = fst ` set fs \<and>
   set (edges_from (build_call_graph_with_image fs imps view) x) =
     (\<Union>(f, ssa) \<in> {d \<in> set fs. fst d = x}. set (caller_edges fs imps view ssa)) \<and>
   (distinct (map fst fs) \<longrightarrow> distinct (edges_from (build_call_graph_with_image fs imps view) x))"
proof -
  let ?g = "fold (add_function \<circ> fst) fs empty_graph"
  have "distinct (funcs ?g)" "set (funcs ?g) = fst ` set fs" "edges_from ?g x = []"
    using add_functions[of empty_graph fs x] by (simp_all add: empty_graph_def edges_from_def)
  then show ?thesis using add_callers[of fs imps view fs ?g x] by (simp add: build_call_graph_with_image_def)
qed

lemma classify_edges_callee:
  assumes "e \<in> set (classify_edges t vs imps fset view cap)"
  shows "call_site e = 0 \<and> (\<forall>y. direct_target (callee e) = Some y \<longrightarrow> y \<in> set fset \<and> map_of imps y = None)"
proof -
  have "direct_target (classify_addr imps fset a) = Some y \<Longrightarrow> y \<in> set fset \<and> map_of imps y = None" for a y
    by (auto simp: classify_addr_def split: option.splits if_splits)
  then show ?thesis using assms
    by (auto simp: classify_edges_def edge_to_def Let_def split: option.splits if_splits)
qed

text \<open>
  C23. The call graph over a set of functions is exact: its functions are the given ones,
  each once; the edges of a function are those its call statements and call terminators
  are classified to, each once where no function is given twice; a direct edge leads to a
  given function that is not an import; and the strongly connected components partition
  the given functions.
\<close>

theorem call_graph_exact:
  assumes "g = build_call_graph_with_image fs imps view"
  shows "distinct (funcs g) \<and> set (funcs g) = fst ` set fs \<and>
    (\<forall>x e. e \<in> set (edges_from g x) \<longleftrightarrow> (\<exists>ssa blk t. (x, ssa) \<in> set fs \<and> blk \<in> set (ssa_blocks ssa) \<and> t \<in> set (block_targets blk) \<and>
       e \<in> set (classify_edges t (vars ssa) imps (map fst fs) view VTABLE_CAP))) \<and>
    (distinct (map fst fs) \<longrightarrow> (\<forall>x. distinct (edges_from g x))) \<and>
    (\<forall>x y. (x, y) \<in> direct_calls g \<longrightarrow> y \<in> fst ` set fs \<and> map_of imps y = None) \<and>
    (tarjan_fuel g < 2 ^ 32 \<longrightarrow> (\<exists>cs. tarjan_sccs g = Some cs \<and> distinct (concat cs) \<and> set (concat cs) = fst ` set fs))"
proof -
  note b = build_edges[of fs imps view, folded assms]
  have edges: "e \<in> set (edges_from g x) \<longleftrightarrow> (\<exists>ssa blk t. (x, ssa) \<in> set fs \<and> blk \<in> set (ssa_blocks ssa) \<and> t \<in> set (block_targets blk) \<and>
       e \<in> set (classify_edges t (vars ssa) imps (map fst fs) view VTABLE_CAP))" for x e
    using b[of x] by (auto simp: caller_edges_def)
  have direct: "y \<in> fst ` set fs \<and> map_of imps y = None" if "(x, y) \<in> direct_calls g" for x y
  proof -
    from that obtain e where e: "e \<in> set (edges_from g x)" "direct_target (callee e) = Some y" unfolding direct_calls_iff by blast
    from e(1) obtain t and ssa :: SsaCfg where "e \<in> set (classify_edges t (vars ssa) imps (map fst fs) view VTABLE_CAP)" unfolding edges by blast
    from classify_edges_callee[OF this] e(2) show ?thesis by simp
  qed
  have fs: "set (funcs g) = fst ` set fs" using b[of 0] by (elim conjE)
  have closed: "y \<in> fst ` set fs" if "(x, y) \<in> (direct_calls g)\<^sup>*" "x \<in> fst ` set fs" for x y
    using that by (induction rule: rtrancl_induct) (use direct in blast)+
  have "called g = fst ` set fs" unfolding called_def fs using closed by blast
  then have sccs: "tarjan_fuel g < 2 ^ 32 \<longrightarrow> (\<exists>cs. tarjan_sccs g = Some cs \<and> distinct (concat cs) \<and> set (concat cs) = fst ` set fs)"
    using tarjan_result[of g] by metis
  have funcs: "distinct (funcs g)" using b[of 0] by (elim conjE)
  have once: "distinct (map fst fs) \<longrightarrow> (\<forall>x. distinct (edges_from g x))" using b by blast
  show ?thesis by (intro conjI allI impI, rule funcs, rule fs, rule edges) (use direct once sccs in simp_all)
qed

text \<open>One function that calls through a register, sets it again and calls through it again.\<close>

definition twice_caller :: SsaCfg where
  "twice_caller = \<lparr>ssa_blocks = [
     \<lparr>ssa_block_id = 0, ssa_block_addr = 0x1000, stmts = [Assign 0], ssa_terminator = SCall (IndirectTarget (register 0 8)) [] None 1\<rparr>,
     \<lparr>ssa_block_id = 1, ssa_block_addr = 0x1010, stmts = [Assign 1], ssa_terminator = SCall (IndirectTarget (register 0 8)) [] None 2\<rparr>,
     \<lparr>ssa_block_id = 2, ssa_block_addr = 0x1020, stmts = [], ssa_terminator = SReturn None\<rparr>],
   vars = [(blank_vardef 0)\<lparr>varnode := register 0 8, expr := EConst 0x2000 8\<rparr>, (blank_vardef 1)\<lparr>varnode := register 0 8, expr := EConst 0x3000 8\<rparr>],
   ssa_entry = 0, ssa_diagnostics = []\<rparr>"

definition leaf_function :: SsaCfg where
  "leaf_function = \<lparr>ssa_blocks = [\<lparr>ssa_block_id = 0, ssa_block_addr = 0, stmts = [], ssa_terminator = SReturn None\<rparr>], vars = [],
     ssa_entry = 0, ssa_diagnostics = []\<rparr>"

definition twice_program :: "(FuncId \<times> SsaCfg) list" where
  "twice_program = [(0x1000, twice_caller), (0x2000, leaf_function), (0x3000, leaf_function)]"

lemma twice_fuel: "tarjan_fuel (build_call_graph_with_image twice_program [] None) = 4"
  by code_simp

theorem call_graph_exact_witness:
  "\<exists>cs. tarjan_sccs (build_call_graph_with_image twice_program [] None) = Some cs \<and> set (concat cs) = {0x1000, 0x2000, 0x3000}"
proof -
  have "tarjan_fuel (build_call_graph_with_image twice_program [] None) < 2 ^ 32" by (simp add: twice_fuel)
  then have "\<exists>cs. tarjan_sccs (build_call_graph_with_image twice_program [] None) = Some cs \<and> distinct (concat cs) \<and>
      set (concat cs) = fst ` set twice_program"
    by (rule call_graph_exact[OF refl, THEN conjunct2, THEN conjunct2, THEN conjunct2, THEN conjunct2, THEN conjunct2, rule_format])
  then show ?thesis by (elim ex_forward) (simp add: twice_program_def)
qed

text \<open>Both calls are resolved to the first value of the register: no edge leads to the second.\<close>

lemma second_register_value_lost:
  "edges_from (build_call_graph twice_program []) 0x1000 = [\<lparr>callee = DirectCallee 0x2000, call_site = 0\<rparr>]"
  by code_simp

text \<open>No edge knows its call site.\<close>

lemma call_sites_zero: "e \<in> set (edges_from (build_call_graph_with_image fs imps view) x) \<Longrightarrow> call_site e = 0"
  using build_edges[of fs imps view x] classify_edges_callee by (fastforce simp: caller_edges_def)

subsection \<open>The call of a value\<close>

lemma call_candidates_sound:
  "call_candidates ssa operation vo blks = Some cs \<Longrightarrow> (target, args, org) \<in> set cs \<Longrightarrow>
    is_call_origin operation vo org \<and> (\<exists>blk \<in> set blks. \<exists>out b. ssa_terminator blk = SCall target args (Some out) b \<and>
      unat out < length (vars ssa) \<and> org \<in> set (operations (origins (vars ssa ! unat out))))"
proof (induction blks arbitrary: cs)
  case (Cons blk blks)
  show ?case
  proof (cases "\<exists>t a out b. ssa_terminator blk = SCall t a (Some out) b")
    case False
    then have "call_candidates ssa operation vo blks = Some cs"
      using Cons.prems(1) by (auto split: SsaTerminator.splits option.splits)
    then show ?thesis using Cons.IH Cons.prems(2) by fastforce
  next
    case True
    then obtain t a out b where t: "ssa_terminator blk = SCall t a (Some out) b" by blast
    let ?os = "filter (is_call_origin operation vo) (operations (origins (vars ssa ! unat out)))"
    from Cons.prems(1) t obtain rest where rest: "unat out < length (vars ssa)" "call_candidates ssa operation vo blks = Some rest"
      "cs = rest \<or> (\<exists>o'. ?os = [o'] \<and> cs = (t, a, o') # rest)"
      by (auto simp: vec_simps split: Option.bind_splits list.splits)
    show ?thesis
    proof (cases "(target, args, org) \<in> set rest")
      case True
      then show ?thesis using Cons.IH[OF rest(2)] by fastforce
    next
      case False
      then have os: "?os = [org]" "target = t" "args = a" using rest(3) Cons.prems(2) by auto
      then have "org \<in> set ?os" by simp
      then have "is_call_origin operation vo org" "org \<in> set (operations (origins (vars ssa ! unat out)))" by simp_all
      then show ?thesis using os t rest(1) by auto
    qed
  qed
qed simp

lemma vec_get_at: "i < length xs \<Longrightarrow> vec_get xs i = Some (xs ! i)"
  by (simp add: vec_simps)

lemma call_candidates_total:
  "(\<And>blk t a out b. blk \<in> set blks \<Longrightarrow> ssa_terminator blk = SCall t a (Some out) b \<Longrightarrow> unat out < length (vars ssa)) \<Longrightarrow>
    \<exists>cs. call_candidates ssa operation vo blks = Some cs"
proof (induction blks)
  case (Cons blk blks)
  then obtain rest where "call_candidates ssa operation vo blks = Some rest" by fastforce
  moreover have "unat out < length (vars ssa)" if "ssa_terminator blk = SCall t a (Some out) b" for t a out b
    using Cons.prems[OF _ that] by simp
  ultimately show ?case by (auto simp: vec_get_at split: SsaTerminator.split option.split list.split)
qed simp

definition at_slot :: "SsaCfg \<Rightarrow> u64 list \<Rightarrow> nat \<Rightarrow> VarId \<Rightarrow> bool" where
  "at_slot ssa registers n i \<longleftrightarrow> n < length registers \<and> space (varnode (vars ssa ! unat i)) = Register \<and>
     offset (varnode (vars ssa ! unat i)) = registers ! n"

text \<open>
  Every argument in its slot: by position where the convention passes no integers in
  registers; otherwise each is in the register of its slot, and every argument that is in
  one of the registers has its slot filled.
\<close>

definition in_slots :: "SsaCfg \<Rightarrow> CallingConv \<Rightarrow> VarId list \<Rightarrow> (nat \<times> VarId) list \<Rightarrow> bool" where
  "in_slots ssa cc args m \<longleftrightarrow>
     (if int_args (abi cc) = [] then m = map (\<lambda>n. (n, args ! n)) [0..<length args]
      else (\<forall>(n, i) \<in> set m. i \<in> set args \<and> at_slot ssa (int_args (abi cc)) n i) \<and>
        (\<forall>i \<in> set args. space (varnode (vars ssa ! unat i)) = Register \<longrightarrow>
           offset (varnode (vars ssa ! unat i)) \<in> set (int_args (abi cc)) \<longrightarrow>
           (\<exists>n j. (n, j) \<in> set m \<and> at_slot ssa (int_args (abi cc)) n i)))"

lemma in_slots_args: "in_slots ssa cc args m \<Longrightarrow> (n, i) \<in> set m \<Longrightarrow> i \<in> set args"
  by (auto simp: in_slots_def split: if_splits)

lemma slot_keys: "fst ` set (btree_insert k v m) = insert k (fst ` set m)"
  using btree_insert_keys[of k v m] by simp

lemma position_of_Some: "position_of xs x = Some n \<Longrightarrow> n < length xs \<and> xs ! n = x"
  by (auto simp: position_of_def find_Some_iff)

lemma position_of_mem: "x \<in> set xs \<Longrightarrow> \<exists>n. position_of xs x = Some n"
  by (cases "position_of xs x") (auto simp: position_of_def find_None_iff in_set_conv_nth)

lemma slot_arguments_spec:
  "\<forall>a \<in> set args. unat a < length (vars ssa) \<Longrightarrow>
    \<exists>m'. slot_arguments ssa registers args m = Some m' \<and> fst ` set m \<subseteq> fst ` set m' \<and>
      (\<forall>(n, i) \<in> set m'. (n, i) \<in> set m \<or> i \<in> set args \<and> at_slot ssa registers n i) \<and>
      (\<forall>i \<in> set args. space (varnode (vars ssa ! unat i)) = Register \<longrightarrow> offset (varnode (vars ssa ! unat i)) \<in> set registers \<longrightarrow>
         (\<exists>n. n \<in> fst ` set m' \<and> at_slot ssa registers n i))"
proof (induction args arbitrary: m)
  case (Cons a args)
  let ?v = "vars ssa ! unat a"
  let ?m = "if space (varnode ?v) = Register
    then (case position_of registers (offset (varnode ?v)) of Some slot \<Rightarrow> btree_insert slot a m | None \<Rightarrow> m) else m"
  have at: "at_slot ssa registers n a" if "space (varnode ?v) = Register" "position_of registers (offset (varnode ?v)) = Some n" for n
    using that position_of_Some[OF that(2)] by (simp add: at_slot_def)
  then have m: "(n, i) \<in> set m \<or> i = a \<and> at_slot ssa registers n i" if "(n, i) \<in> set ?m" for n i
    using that set_btree_insert[of _ a m] by (auto split: if_splits option.splits)
  have keys: "fst ` set m \<subseteq> fst ` set ?m" by (auto simp: slot_keys split: option.split)
  have here: "\<exists>n. n \<in> fst ` set ?m \<and> at_slot ssa registers n a"
    if r: "space (varnode ?v) = Register" "offset (varnode ?v) \<in> set registers"
  proof -
    from position_of_mem[OF r(2)] obtain n where n: "position_of registers (offset (varnode ?v)) = Some n" ..
    then show ?thesis using at[OF r(1) n] r(1) by (intro exI[of _ n]) (simp add: slot_keys)
  qed
  have "\<forall>a \<in> set args. unat a < length (vars ssa)" using Cons.prems by simp
  from Cons.IH[OF this, of ?m] obtain m' where
    m': "slot_arguments ssa registers args ?m = Some m'" "fst ` set ?m \<subseteq> fst ` set m'"
      "\<forall>(n, i) \<in> set m'. (n, i) \<in> set ?m \<or> i \<in> set args \<and> at_slot ssa registers n i"
      "\<forall>i \<in> set args. space (varnode (vars ssa ! unat i)) = Register \<longrightarrow> offset (varnode (vars ssa ! unat i)) \<in> set registers \<longrightarrow>
         (\<exists>n. n \<in> fst ` set m' \<and> at_slot ssa registers n i)" by (elim exE conjE)
  have "slot_arguments ssa registers (a # args) m = Some m'" using m'(1) Cons.prems by (simp add: vec_get_at)
  moreover have "\<forall>(n, i) \<in> set m'. (n, i) \<in> set m \<or> i \<in> set (a # args) \<and> at_slot ssa registers n i" using m'(3) m by fastforce
  moreover have "fst ` set m \<subseteq> fst ` set m'" using keys m'(2) by (rule subset_trans)
  moreover have "\<forall>i \<in> set (a # args). space (varnode (vars ssa ! unat i)) = Register \<longrightarrow> offset (varnode (vars ssa ! unat i)) \<in> set registers \<longrightarrow>
         (\<exists>n. n \<in> fst ` set m' \<and> at_slot ssa registers n i)"
  proof (intro ballI impI)
    fix i assume i: "i \<in> set (a # args)" "space (varnode (vars ssa ! unat i)) = Register" "offset (varnode (vars ssa ! unat i)) \<in> set registers"
    show "\<exists>n. n \<in> fst ` set m' \<and> at_slot ssa registers n i"
    proof (cases "i = a")
      case True
      then obtain n where "n \<in> fst ` set ?m" "at_slot ssa registers n a" using here i(2,3) by blast
      then show ?thesis using m'(2) True by blast
    qed (use m'(4) i in simp)
  qed
  ultimately show ?case by (intro exI[of _ m'] conjI)
qed simp

lemma call_arguments_spec:
  assumes "\<forall>a \<in> set args. unat a < length (vars ssa)"
  shows "\<exists>m. call_arguments ssa cc args = Some m \<and> in_slots ssa cc args m"
proof (cases "int_args (abi cc) = []")
  case True
  have "List.enumerate 0 args = map (\<lambda>n. (n, args ! n)) [0..<length args]"
    by (rule nth_equalityI) (simp_all add: nth_enumerate_eq)
  then show ?thesis using True by (simp add: call_arguments_def in_slots_def)
next
  case False
  from slot_arguments_spec[OF assms, of "int_args (abi cc)" "[]"] obtain m where
    "slot_arguments ssa (int_args (abi cc)) args [] = Some m"
    "\<forall>(n, i) \<in> set m. (n, i) \<in> set [] \<or> i \<in> set args \<and> at_slot ssa (int_args (abi cc)) n i"
    "\<forall>i \<in> set args. space (varnode (vars ssa ! unat i)) = Register \<longrightarrow> offset (varnode (vars ssa ! unat i)) \<in> set (int_args (abi cc)) \<longrightarrow>
       (\<exists>n. n \<in> fst ` set m \<and> at_slot ssa (int_args (abi cc)) n i)" by (elim exE conjE)
  then show ?thesis using False by (fastforce simp: call_arguments_def in_slots_def)
qed

definition direct_address :: "CallTarget \<Rightarrow> u64 option" where
  "direct_address t = (case t of Direct a \<Rightarrow> Some a | IndirectTarget vn \<Rightarrow> None)"

lemma describe_call_spec:
  "\<exists>c. describe_call ssa imps operation target org slots = Some c \<and> call_origin c = org \<and> arguments c = slots \<and>
    target_address c = direct_address target \<and>
    (resolution c = ''raw_direct_call'' \<longleftrightarrow> direct_address target \<noteq> None \<and> is_raw_call (operation org)) \<and>
    import_name c = Option.bind (direct_address target) (map_of imps)"
  by (cases target)
    (auto simp: describe_call_def direct_address_def classify_edges_def resolved_target_def vec_get_at classify_addr_def
      import_of_def edge_to_def Let_def split: option.split)

lemma dependency_call_result:
  assumes "unat x < length (vars ssa)"
    and "\<forall>blk \<in> set (ssa_blocks ssa). \<forall>t a out b. ssa_terminator blk = SCall t a (Some out) b \<longrightarrow> (\<forall>i \<in> insert out (set a). unat i < length (vars ssa))"
  shows "\<exists>r. dependency_call ssa x cc imps operation = Some r \<and> (\<forall>c. r = Inr c \<longrightarrow>
    (\<exists>op. operation (call_origin c) = Some op \<and> is_call_op op) \<and>
    (\<exists>blk \<in> set (ssa_blocks ssa). \<exists>target args out b. ssa_terminator blk = SCall target args (Some out) b \<and>
       call_origin c \<in> set (operations (origins (vars ssa ! unat out))) \<inter> set (operations (origins (vars ssa ! unat x))) \<and>
       in_slots ssa cc args (arguments c) \<and>
       target_address c = direct_address target \<and> import_name c = Option.bind (direct_address target) (map_of imps) \<and>
       (resolution c = ''raw_direct_call'' \<longleftrightarrow> direct_address target \<noteq> None \<and> is_raw_call (operation (call_origin c)))))"
proof -
  let ?vo = "operations (origins (vars ssa ! unat x))"
  obtain cs where cs: "call_candidates ssa operation ?vo (ssa_blocks ssa) = Some cs"
    using call_candidates_total[of "ssa_blocks ssa" ssa operation ?vo] assms(2) by blast
  show ?thesis
  proof (cases "\<exists>target args org. cs = [(target, args, org)]")
    case False
    then have "\<exists>e. dependency_call ssa x cc imps operation = Some (Inl e)"
      using cs assms(1) by (cases cs; cases "tl cs") (auto simp: dependency_call_def vec_get_at)
    then show ?thesis by blast
  next
    case True
    then obtain target args org where one: "cs = [(target, args, org)]" by blast
    from call_candidates_sound[OF cs, of target args org] one obtain blk out b where
      k: "is_call_origin operation ?vo org" "blk \<in> set (ssa_blocks ssa)" "ssa_terminator blk = SCall target args (Some out) b"
        "org \<in> set (operations (origins (vars ssa ! unat out)))" by auto
    have "\<forall>a \<in> set args. unat a < length (vars ssa)" using assms(2) k(2,3) by blast
    from call_arguments_spec[OF this, of cc] obtain m where m: "call_arguments ssa cc args = Some m"
      "in_slots ssa cc args m" by blast
    from describe_call_spec[of ssa imps operation target org m] obtain c where
      c: "describe_call ssa imps operation target org m = Some c" "call_origin c = org" "arguments c = m"
        "target_address c = direct_address target" "import_name c = Option.bind (direct_address target) (map_of imps)"
        "resolution c = ''raw_direct_call'' \<longleftrightarrow> direct_address target \<noteq> None \<and> is_raw_call (operation org)" by blast
    have "dependency_call ssa x cc imps operation = Some (Inr c)"
      using cs one m(1) c(1) assms(1) by (simp add: dependency_call_def vec_get_at)
    moreover have "\<exists>op. operation org = Some op \<and> is_call_op op" "org \<in> set ?vo"
      using k(1) by (auto simp: is_call_origin_def split: option.splits)
    ultimately show ?thesis using k(2-4) m(2) c(2-6) by (intro exI[of _ "Inr c"] conjI allI impI) (auto intro!: bexI[of _ blk])
  qed
qed

text \<open>
  C24. Where the operands of the terminators and the value exist, the call of a value is
  found without a panic. A call that is reported ends a block of the form, and its origin
  is a raw call operation that both its result and the value come from. Its arguments are
  those of that call: all of them, slot \<open>n\<close> holding the argument at position \<open>n\<close>, where the
  convention passes no integers in registers; otherwise each is in the register of its
  slot, and no slot whose register holds an argument is left out. The target is the direct one of the terminator, the import the
  one registered for it, and it counts as a raw direct call exactly if the operation
  itself is a call to that memory address.
\<close>

theorem dependency_call_sound:
  assumes "unat x < length (vars ssa)"
    and "\<forall>blk \<in> set (ssa_blocks ssa). \<forall>t a out b. ssa_terminator blk = SCall t a (Some out) b \<longrightarrow> (\<forall>i \<in> insert out (set a). unat i < length (vars ssa))"
  shows "\<exists>r. dependency_call ssa x cc imps operation = Some r \<and> (\<forall>c. r = Inr c \<longrightarrow>
    (\<exists>op. operation (call_origin c) = Some op \<and> is_call_op op) \<and>
    (\<exists>blk \<in> set (ssa_blocks ssa). \<exists>target args out b. ssa_terminator blk = SCall target args (Some out) b \<and>
       call_origin c \<in> set (operations (origins (vars ssa ! unat out))) \<inter> set (operations (origins (vars ssa ! unat x))) \<and>
       in_slots ssa cc args (arguments c) \<and>
       target_address c = direct_address target \<and> import_name c = Option.bind (direct_address target) (map_of imps) \<and>
       (resolution c = ''raw_direct_call'' \<longleftrightarrow> direct_address target \<noteq> None \<and> is_raw_call (operation (call_origin c)))))"
  by (rule dependency_call_result[OF assms])

definition puts_result :: SsaCfg where
  "puts_result = \<lparr>ssa_blocks = [\<lparr>ssa_block_id = 0, ssa_block_addr = 0x1000, stmts = [Assign 0], ssa_terminator = SCall (Direct 0x2000) [0] (Some 1) 1\<rparr>],
     vars = [(blank_vardef 0)\<lparr>varnode := register 0x30 8\<rparr>,
       (blank_vardef 1)\<lparr>origins := \<lparr>operations = [\<lparr>instruction_address = 0x1003, operation_index = 0\<rparr>], truncated = False, synthetic = False\<rparr>\<rparr>],
     ssa_entry = 0, ssa_diagnostics = []\<rparr>"

theorem dependency_call_sound_witness:
  "\<exists>r. dependency_call puts_result 1 SysV [(0x2000, ''puts'')] (\<lambda>_. Some (Call \<lparr>space = Ram, offset = 0x2000, vsize = 8\<rparr>)) = Some r"
proof -
  have "unat (1 :: VarId) < length (vars puts_result)" by (simp add: puts_result_def)
  moreover have "\<forall>blk \<in> set (ssa_blocks puts_result). \<forall>t a out b. ssa_terminator blk = SCall t a (Some out) b \<longrightarrow>
      (\<forall>i \<in> insert out (set a). unat i < length (vars puts_result))" by (simp add: puts_result_def)
  ultimately show ?thesis using dependency_call_sound[of 1 puts_result] by blast
qed

end
