(* ===== verification/RegionMap.thy ===== *)
theory RegionMap
  imports Slice
begin

text \<open>
  The region classifier of \<^verbatim>\<open>rsleigh-decompile/src/region.rs\<close>: every variable of a form gets
  a region, the interned site its value is thought to point into. The exact locations of
  the same file are in the theory \<open>Region\<close>. Hash maps are association lists.
\<close>

datatype AllocSite =
    ParamSite nat
  | StackFrame
  | GlobalSite u64
  | HeapSite u64
  | ConstSite u64
  | UnknownSite u32

record RegionMap =
  by_var :: "u32 list"
  sites :: "AllocSite list"
  intern :: "(AllocSite \<times> u32) list"

definition no_region :: u32 where
  "no_region = 0xFFFFFFFF"

definition region_of :: "RegionMap \<Rightarrow> VarId \<Rightarrow> u32" where
  "region_of m v = (case vec_get (by_var m) (unat v) of Some r \<Rightarrow> r | None \<Rightarrow> no_region)"

definition site_of :: "RegionMap \<Rightarrow> u32 \<Rightarrow> AllocSite option" where
  "site_of m r = vec_get (sites m) (unat r)"

definition add_region_site :: "AllocSite \<Rightarrow> RegionMap \<Rightarrow> u32 \<times> RegionMap" where
  "add_region_site s m = (let r = word_of_nat (length (sites m))
     in (r, m\<lparr>sites := sites m @ [s], intern := map_insert s r (intern m)\<rparr>))"

definition intern_site :: "AllocSite \<Rightarrow> RegionMap \<Rightarrow> u32 \<times> RegionMap" where
  "intern_site s m = (case map_of (intern m) s of Some r \<Rightarrow> (r, m) | None \<Rightarrow> add_region_site s m)"

definition site_of_var :: "VarId \<Rightarrow> RegionMap \<Rightarrow> AllocSite option" where
  "site_of_var v m = do {
     r \<leftarrow> vec_get (by_var m) (unat v);
     if r = no_region then None
     else do {
       s \<leftarrow> vec_get (sites m) (unat r);
       (case s of UnknownSite u \<Rightarrow> None | _ \<Rightarrow> Some s)
     }
   }"

subsection \<open>Spilled values\<close>

text \<open>The canonical spelling of an address, seventeen levels deep at most.\<close>

definition or_unknown :: "string option \<Rightarrow> string" where
  "or_unknown k = (case k of Some s \<Rightarrow> s | None \<Rightarrow> ''?'')"

definition decimal :: "'w::len word \<Rightarrow> string" where
  "decimal w = radix_digits 10 (uint w)"

primrec canon_key :: "VarDef list \<Rightarrow> nat \<Rightarrow> VarId \<Rightarrow> string option" where
  "canon_key vs 0 v = None"
| "canon_key vs (Suc left) v = do {
     d \<leftarrow> vec_get vs (unat v);
     (case expr d of
        EVar inner \<Rightarrow> canon_key vs left inner
      | EConst c w \<Rightarrow> Some (''C'' @ decimal c @ ''.'' @ decimal w)
      | EBinOp op a b \<Rightarrow> Some (''B'' @ debug_binop op @ ''('' @ or_unknown (canon_key vs left a) @ '','' @ or_unknown (canon_key vs left b) @ '')'')
      | EUnaryOp op a \<Rightarrow> Some (''U'' @ debug_unop op @ ''('' @ or_unknown (canon_key vs left a) @ '')'')
      | _ \<Rightarrow> Some (''V'' @ debug_space (space (varnode d)) @ ''/'' @ decimal (offset (varnode d)) @ ''/'' @ decimal (vsize (varnode d))))
   }"

definition addr_canon_local :: "VarDef list \<Rightarrow> VarId \<Rightarrow> string option" where
  "addr_canon_local vs v = canon_key vs 17 v"

record SpillMap =
  by_canon :: "(string \<times> VarId) list"
  by_varnode :: "(Varnode \<times> VarId) list"

definition spill_stmt :: "VarDef list \<Rightarrow> Stmt \<Rightarrow> SpillMap \<Rightarrow> SpillMap" where
  "spill_stmt vs s m = (case s of
     StoreStmt addr val \<Rightarrow>
       (let m = (case addr_canon_local vs addr of Some key \<Rightarrow> m\<lparr>by_canon := map_insert key val (by_canon m)\<rparr> | None \<Rightarrow> m)
        in case vec_get vs (unat addr) of
             Some d \<Rightarrow> m\<lparr>by_varnode := map_insert (varnode d) val (by_varnode m)\<rparr>
           | None \<Rightarrow> m)
   | _ \<Rightarrow> m)"

definition build_spill_map :: "SsaCfg \<Rightarrow> SpillMap" where
  "build_spill_map ssa = fold (spill_stmt (vars ssa)) (concat (map stmts (ssa_blocks ssa))) \<lparr>by_canon = [], by_varnode = []\<rparr>"

definition spill_lookup :: "SpillMap \<Rightarrow> VarDef list \<Rightarrow> VarId \<Rightarrow> VarId option" where
  "spill_lookup m vs addr =
     (case Option.bind (addr_canon_local vs addr) (map_of (by_canon m)) of
        Some v \<Rightarrow> Some v
      | None \<Rightarrow> (case vec_get vs (unat addr) of Some d \<Rightarrow> map_of (by_varnode m) (varnode d) | None \<Rightarrow> None))"

subsection \<open>Calls\<close>

definition direct_return :: "CallTarget \<Rightarrow> VarId option \<Rightarrow> (VarId \<times> u64) list \<Rightarrow> (VarId \<times> u64) list" where
  "direct_return target out m = (case (target, out) of (Direct a, Some v) \<Rightarrow> map_insert v a m | _ \<Rightarrow> m)"

definition stmt_return :: "Stmt \<Rightarrow> (VarId \<times> u64) list \<Rightarrow> (VarId \<times> u64) list" where
  "stmt_return s m = (case s of CallStmt target args out \<Rightarrow> direct_return target out m | _ \<Rightarrow> m)"

definition block_returns :: "SsaBlock \<Rightarrow> (VarId \<times> u64) list \<Rightarrow> (VarId \<times> u64) list" where
  "block_returns blk m = (let m = fold stmt_return (stmts blk) m
     in case ssa_terminator blk of SCall target args out b \<Rightarrow> direct_return target out m | _ \<Rightarrow> m)"

definition collect_heap_returns :: "SsaCfg \<Rightarrow> (VarId \<times> u64) list" where
  "collect_heap_returns ssa = fold block_returns (ssa_blocks ssa) []"

subsection \<open>Classification\<close>

text \<open>\<open>parse::<u8>\<close>: decimal digits after an optional plus sign, at most 255.\<close>

definition digit_value :: "char \<Rightarrow> nat option" where
  "digit_value c = (if c \<in> set ''0123456789'' then Some (of_char c - 48) else None)"

primrec parse_digits :: "string \<Rightarrow> nat \<Rightarrow> nat option" where
  "parse_digits [] n = Some n"
| "parse_digits (c # cs) n = (case digit_value c of
     None \<Rightarrow> None
   | Some d \<Rightarrow> if 255 < 10 * n + d then None else parse_digits cs (10 * n + d))"

definition parse_u8 :: "string \<Rightarrow> nat option" where
  "parse_u8 s = (case s of
     [] \<Rightarrow> None
   | c # cs \<Rightarrow> if c = CHR ''+'' then (if cs = [] then None else parse_digits cs 0) else parse_digits s 0)"

definition param_slot :: "string option \<Rightarrow> nat option" where
  "param_slot name = do {
     s \<leftarrow> name;
     if take 6 s = ''param_'' then parse_u8 (drop 6 s) else None
   }"

definition first_site :: "RegionMap \<Rightarrow> VarId list \<Rightarrow> AllocSite option" where
  "first_site m is = (case List.map_filter (\<lambda>i. site_of_var i m) is of [] \<Rightarrow> None | s # ss \<Rightarrow> Some s)"

text \<open>What a spilled value has, or else what the address has.\<close>

definition spilled_site :: "RegionMap \<Rightarrow> VarId option \<Rightarrow> VarId \<Rightarrow> AllocSite option" where
  "spilled_site m stored addr = (case Option.bind stored (\<lambda>v. site_of_var v m) of
     Some s \<Rightarrow> Some s
   | None \<Rightarrow> site_of_var addr m)"

definition field_key :: "VarDef list \<Rightarrow> VarId \<Rightarrow> u64 \<Rightarrow> string" where
  "field_key vs base off = ''BAdd('' @ or_unknown (addr_canon_local vs base) @ '',C'' @ decimal off @ ''.8)''"

definition classify :: "VarDef \<Rightarrow> RegionMap \<Rightarrow> (VarId \<times> u64) list \<Rightarrow> VarId \<Rightarrow> VarDef list \<Rightarrow> SpillMap \<Rightarrow> AllocSite option" where
  "classify d m heap_returns i vs spills = (case param_slot (param_name d) of
     Some n \<Rightarrow> Some (ParamSite n)
   | None \<Rightarrow>
       if call_return d then map_option HeapSite (map_of heap_returns i)
       else case expr d of
         EConst c w \<Rightarrow> Some (if space (varnode d) = Ram \<and> c \<noteq> 0 then GlobalSite c else ConstSite c)
       | EVar inner \<Rightarrow> site_of_var inner m
       | EBinOp op a b \<Rightarrow> first_site m [a, b]
       | EUnaryOp op a \<Rightarrow> site_of_var a m
       | EFieldAccess base off \<Rightarrow> spilled_site m (map_of (by_canon spills) (field_key vs base off)) base
       | ELoad addr \<Rightarrow> spilled_site m (spill_lookup spills vs addr) addr
       | EPhi is \<Rightarrow> first_site m is
       | EUnknown \<Rightarrow> if space (varnode d) = Register then Some StackFrame else None
       | _ \<Rightarrow> None)"

subsection \<open>Inference\<close>

definition infer_var :: "SsaCfg \<Rightarrow> (VarId \<times> u64) list \<Rightarrow> SpillMap \<Rightarrow> nat \<Rightarrow> RegionMap \<times> bool \<Rightarrow> RegionMap \<times> bool" where
  "infer_var ssa heap_returns spills i s =
     (let (m, changed) = s;
          (new, m) = (case classify (vars ssa ! i) m heap_returns (word_of_nat i) (vars ssa) spills of
              Some site \<Rightarrow> intern_site site m
            | None \<Rightarrow> (no_region, m))
      in if new \<noteq> by_var m ! i then (m\<lparr>by_var := (by_var m)[i := new]\<rparr>, True) else (m, changed))"

definition infer_pass :: "SsaCfg \<Rightarrow> (VarId \<times> u64) list \<Rightarrow> SpillMap \<Rightarrow> RegionMap \<Rightarrow> RegionMap \<times> bool" where
  "infer_pass ssa heap_returns spills m = fold (infer_var ssa heap_returns spills) [0..<length (vars ssa)] (m, False)"

primrec infer_passes :: "nat \<Rightarrow> SsaCfg \<Rightarrow> (VarId \<times> u64) list \<Rightarrow> SpillMap \<Rightarrow> RegionMap \<Rightarrow> RegionMap" where
  "infer_passes 0 ssa heap_returns spills m = m"
| "infer_passes (Suc left) ssa heap_returns spills m =
     (let (m, changed) = infer_pass ssa heap_returns spills m
      in if changed then infer_passes left ssa heap_returns spills m else m)"

text \<open>What is left gets a region of its own.\<close>

definition fill_unknown :: "nat \<Rightarrow> RegionMap \<Rightarrow> RegionMap" where
  "fill_unknown i m = (if by_var m ! i = no_region
     then (let (r, m) = add_region_site (UnknownSite (word_of_nat i)) m in m\<lparr>by_var := (by_var m)[i := r]\<rparr>)
     else m)"

definition infer_regions :: "SsaCfg \<Rightarrow> RegionMap" where
  "infer_regions ssa =
     (let m = infer_passes 4 ssa (collect_heap_returns ssa) (build_spill_map ssa)
            \<lparr>by_var = replicate (length (vars ssa)) no_region, sites = [], intern = []\<rparr>
      in fold fill_unknown [0..<length (vars ssa)] m)"

end
