(* ===== verification/RegionProps.thy ===== *)
theory RegionProps
  imports RegionMap SsaOps
begin

text \<open>
  The regions of the classifier are interned sites, one region for each site, and a value
  of unknown site has a region of its own. What two regions say of aliasing is less than
  the documentation of the file claims.
\<close>

subsection \<open>The interner\<close>

text \<open>Sites are numbered once each, and every region given out is the number of a site.\<close>

definition interned :: "nat \<Rightarrow> RegionMap \<Rightarrow> bool" where
  "interned n m \<longleftrightarrow> length (by_var m) = n \<and> distinct (sites m) \<and>
     (\<forall>s r. map_of (intern m) s = Some r \<longleftrightarrow> unat r < length (sites m) \<and> sites m ! unat r = s) \<and>
     (\<forall>r \<in> set (by_var m). r = no_region \<or> unat r < length (sites m)) \<and>
     length (sites m) < 2 ^ 32"

lemma add_region_site_ok:
  assumes "interned n m" "s \<notin> set (sites m)" "Suc (length (sites m)) < 2 ^ 32"
  shows "\<exists>r m'. add_region_site s m = (r, m') \<and> interned n m' \<and> unat r = length (sites m) \<and> sites m' = sites m @ [s] \<and> by_var m' = by_var m"
proof -
  have u: "unat (word_of_nat (length (sites m)) :: u32) = length (sites m)" using assms(3) by (simp add: unat_of_nat take_bit_nat_eq_self)
  have "map_of (map_insert s (word_of_nat (length (sites m))) (intern m)) t = Some r \<longleftrightarrow>
      unat r < Suc (length (sites m)) \<and> (sites m @ [s]) ! unat r = t" for t r
  proof (cases "t = s")
    case True
    have "map_of (intern m) s = None" using assms(1,2) by (cases "map_of (intern m) s") (auto simp: interned_def)
    have "unat r < length (sites m) \<Longrightarrow> sites m ! unat r \<noteq> s" using assms(2) by (metis nth_mem)
    moreover from u have "unat r = length (sites m) \<Longrightarrow> word_of_nat (length (sites m)) = r" by (simp add: word_unat_eq_iff)
    ultimately show ?thesis using True u by (auto simp: nth_append less_Suc_eq)
  next
    case False
    then show ?thesis using assms(1) by (auto simp: interned_def nth_append less_Suc_eq)
  qed
  then have "interned n (snd (add_region_site s m))"
    using assms by (auto simp: interned_def add_region_site_def Let_def)
  then show ?thesis using u by (simp add: add_region_site_def Let_def)
qed

lemma intern_site_ok:
  assumes "interned n m" "Suc (length (sites m)) < 2 ^ 32"
  shows "\<exists>r m'. intern_site s m = (r, m') \<and> interned n m' \<and> unat r < length (sites m') \<and> sites m' ! unat r = s \<and>
    length (sites m') \<le> Suc (length (sites m)) \<and> set (sites m') \<subseteq> insert s (set (sites m)) \<and> by_var m' = by_var m"
proof (cases "map_of (intern m) s")
  case (Some r)
  then have "unat r < length (sites m) \<and> sites m ! unat r = s" using assms(1) unfolding interned_def by blast
  then show ?thesis using Some assms(1) by (auto simp: intern_site_def)
next
  case None
  have "s \<notin> set (sites m)"
  proof
    assume "s \<in> set (sites m)"
    then obtain k where k: "k < length (sites m)" "sites m ! k = s" by (auto simp: in_set_conv_nth)
    have "unat (word_of_nat k :: u32) = k" using k(1) assms(2) by (simp add: unat_of_nat take_bit_nat_eq_self)
    then have "map_of (intern m) s = Some (word_of_nat k)" using k assms(1) unfolding interned_def by metis
    with None show False by simp
  qed
  from add_region_site_ok[OF assms(1) this assms(2)] None show ?thesis by (auto simp: intern_site_def)
qed

lemma interned_update: "interned n m \<Longrightarrow> r = no_region \<or> unat r < length (sites m) \<Longrightarrow> interned n (m\<lparr>by_var := (by_var m)[i := r]\<rparr>)"
  using set_update_subset_insert[of "by_var m" i r] by (auto simp: interned_def)

lemma known_of_var: "site_of_var v m \<noteq> Some (UnknownSite u)"
  by (auto simp: site_of_var_def split: Option.bind_splits if_splits AllocSite.splits)

lemma known_first: "first_site m is \<noteq> Some (UnknownSite u)"
proof
  assume "first_site m is = Some (UnknownSite u)"
  then have "UnknownSite u \<in> set (List.map_filter (\<lambda>i. site_of_var i m) is)" by (auto simp: first_site_def split: list.splits)
  then show False using known_of_var by (auto simp: map_filter_def)
qed

lemma known_spilled: "spilled_site m stored addr \<noteq> Some (UnknownSite u)"
proof
  assume "spilled_site m stored addr = Some (UnknownSite u)"
  then consider "Option.bind stored (\<lambda>v. site_of_var v m) = Some (UnknownSite u)" | "site_of_var addr m = Some (UnknownSite u)"
    by (auto simp: spilled_site_def split: option.splits)
  then show False using known_of_var by cases (auto split: Option.bind_splits)
qed

lemma known_classify: "classify d m hs i vs sp \<noteq> Some (UnknownSite u)"
  using known_of_var known_first known_spilled
  by (auto simp: classify_def split: option.split Expr.split if_split)

subsection \<open>Inference\<close>

definition infer_ok :: "nat \<Rightarrow> nat \<Rightarrow> RegionMap \<Rightarrow> bool" where
  "infer_ok n k m \<longleftrightarrow> interned n m \<and> length (sites m) \<le> k \<and> (\<forall>u. UnknownSite u \<notin> set (sites m))"

lemma infer_var_ok:
  assumes "infer_ok n k m" "Suc k < 2 ^ 32"
  shows "infer_ok n (Suc k) (fst (infer_var ssa hs sp i (m, c)))"
proof (cases "classify (vars ssa ! i) m hs (word_of_nat i) (vars ssa) sp")
  case None
  then show ?thesis using assms(1) by (auto simp: infer_var_def infer_ok_def intro: interned_update)
next
  case (Some s)
  have s: "\<forall>u. s \<noteq> UnknownSite u" using known_classify Some by metis
  from assms have m: "interned n m" "Suc (length (sites m)) < 2 ^ 32" by (auto simp: infer_ok_def)
  from intern_site_ok[OF m, of s] obtain r m' where r: "intern_site s m = (r, m')" "interned n m'" "unat r < length (sites m')"
    "length (sites m') \<le> Suc (length (sites m))" "set (sites m') \<subseteq> insert s (set (sites m))" by blast
  have "infer_ok n (Suc k) m'" using r(2,4,5) s assms(1) by (auto simp: infer_ok_def)
  then show ?thesis using Some r(1,3) by (auto simp: infer_var_def infer_ok_def intro: interned_update)
qed

lemma infer_fold_ok:
  "infer_ok n k m \<Longrightarrow> k + length is < 2 ^ 32 \<Longrightarrow> infer_ok n (k + length is) (fst (fold (infer_var ssa hs sp) is (m, c)))"
proof (induction "is" arbitrary: k m c)
  case (Cons i "is")
  obtain m' c' where s: "infer_var ssa hs sp i (m, c) = (m', c')" by fastforce
  then have "infer_ok n (Suc k) m'" using infer_var_ok[OF Cons.prems(1), of ssa hs sp i c] Cons.prems(2) by simp
  with Cons.IH[of "Suc k" m' c'] Cons.prems(2) s show ?case by simp
qed simp

lemma infer_passes_ok:
  "infer_ok (length (vars ssa)) k m \<Longrightarrow> k + left * length (vars ssa) < 2 ^ 32 \<Longrightarrow>
    infer_ok (length (vars ssa)) (k + left * length (vars ssa)) (infer_passes left ssa hs sp m)"
proof (induction left arbitrary: k m)
  case (Suc left)
  let ?n = "length (vars ssa)"
  obtain m' c where p: "infer_pass ssa hs sp m = (m', c)" by fastforce
  have ok: "infer_ok ?n (k + ?n) m'"
    using infer_fold_ok[OF Suc.prems(1), of "[0..<?n]" ssa hs sp False] Suc.prems(2) p by (simp add: infer_pass_def)
  then have "infer_ok ?n (k + Suc left * ?n) m'" by (auto simp: infer_ok_def)
  moreover have "infer_ok ?n (k + Suc left * ?n) (infer_passes left ssa hs sp m')"
    using Suc.IH[OF ok] Suc.prems(2) by (simp add: algebra_simps)
  ultimately show ?case using p by simp
qed simp

lemma infer_start: "infer_ok n 0 \<lparr>by_var = replicate n no_region, sites = [], intern = []\<rparr>"
  by (auto simp: infer_ok_def interned_def)

text \<open>Filling up: before \<open>i\<close> every variable has a region, and the unknown ones are its own.\<close>

definition filled :: "nat \<Rightarrow> nat \<Rightarrow> nat \<Rightarrow> RegionMap \<Rightarrow> bool" where
  "filled n k i m \<longleftrightarrow> interned n m \<and> length (sites m) \<le> k + i \<and>
     (\<forall>j < i. by_var m ! j \<noteq> no_region) \<and>
     (\<forall>j < n. \<forall>u. by_var m ! j \<noteq> no_region \<longrightarrow> sites m ! unat (by_var m ! j) = UnknownSite u \<longrightarrow> j < i \<and> u = word_of_nat j) \<and>
     (\<forall>u. UnknownSite u \<in> set (sites m) \<longrightarrow> unat u < i)"

lemma filled_start:
  assumes "infer_ok n k m"
  shows "filled n k 0 m"
proof -
  have "sites m ! unat (by_var m ! j) \<noteq> UnknownSite u" if "j < n" "by_var m ! j \<noteq> no_region" for j u
  proof -
    have "by_var m ! j \<in> set (by_var m)" using that(1) assms by (auto simp: infer_ok_def interned_def)
    then have "unat (by_var m ! j) < length (sites m)" using that(2) assms by (auto simp: infer_ok_def interned_def)
    then show ?thesis using assms nth_mem unfolding infer_ok_def by metis
  qed
  then show ?thesis using assms by (auto simp: filled_def infer_ok_def)
qed

lemma fill_unknown_ok:
  assumes f: "filled n k i m" and i: "i < n" and small: "k + n < 2 ^ 32"
  shows "filled n k (Suc i) (fill_unknown i m)"
proof (cases "by_var m ! i = no_region")
  case False
  then show ?thesis using f i by (auto simp: fill_unknown_def filled_def less_Suc_eq)
next
  case True
  from f have m: "interned n m" "length (sites m) \<le> k + i" by (simp_all add: filled_def)
  have u: "unat (word_of_nat i :: u32) = i" using i small by (simp add: unat_of_nat take_bit_nat_eq_self)
  have fresh: "UnknownSite (word_of_nat i) \<notin> set (sites m)" using f u by (auto simp: filled_def)
  have lt: "Suc (length (sites m)) < 2 ^ 32" using m(2) i small by simp
  from add_region_site_ok[OF m(1) fresh lt] obtain r m' where r: "add_region_site (UnknownSite (word_of_nat i)) m = (r, m')"
    "interned n m'" "unat r = length (sites m)" "sites m' = sites m @ [UnknownSite (word_of_nat i)]" "by_var m' = by_var m" by blast
  have rn: "r \<noteq> no_region" using r(3) lt by (auto simp: no_region_def)
  let ?m = "m'\<lparr>by_var := (by_var m)[i := r]\<rparr>"
  have "fill_unknown i m = ?m" using True r(1,5) by (simp add: fill_unknown_def)
  moreover have "interned n ?m" using interned_update[OF r(2), of r i] r(3-5) by simp
  moreover have len: "length (by_var m) = n" using m(1) by (simp add: interned_def)
  moreover have "j < Suc i \<and> w = word_of_nat j"
    if j: "j < n" "(by_var m)[i := r] ! j \<noteq> no_region" "(sites m @ [UnknownSite (word_of_nat i)]) ! unat ((by_var m)[i := r] ! j) = UnknownSite w" for j w
  proof (cases "j = i")
    case True
    then show ?thesis using j(3) r(3) i len by simp
  next
    case False
    then have b: "by_var m ! j \<noteq> no_region" using j(2) by simp
    have "by_var m ! j \<in> set (by_var m)" using j(1) len by simp
    then have "unat (by_var m ! j) < length (sites m)" using b m(1) by (auto simp: interned_def)
    then have "sites m ! unat (by_var m ! j) = UnknownSite w" using j(3) False by (simp add: nth_append)
    then have "j < i \<and> w = word_of_nat j" using f b j(1) unfolding filled_def by blast
    then show ?thesis by simp
  qed
  moreover have "(by_var m)[i := r] ! j \<noteq> no_region" if "j < Suc i" for j
    using that f rn i len by (cases "j = i") (auto simp: filled_def)
  moreover have "unat w < Suc i" if "UnknownSite w \<in> set (sites m) \<union> {UnknownSite (word_of_nat i)}" for w
    using that f u by (auto simp: filled_def less_Suc_eq)
  ultimately show ?thesis using m(2) r(4) unfolding filled_def by auto
qed

lemma fill_all: "j \<le> n \<Longrightarrow> filled n k 0 m \<Longrightarrow> k + n < 2 ^ 32 \<Longrightarrow> filled n k j (fold fill_unknown [0..<j] m)"
  by (induction j) (simp_all add: fill_unknown_ok)

subsection \<open>Properties\<close>

text \<open>
  C29. Every variable gets the region of a site; two variables have the same region
  exactly if their sites are the same; and a variable of unknown site shares its region
  with no other.
\<close>

theorem regions_interned:
  assumes "5 * length (vars ssa) < 2 ^ 32" "m = infer_regions ssa" "i < length (vars ssa)" "j < length (vars ssa)"
  shows "\<exists>s. site_of m (region_of m (word_of_nat i)) = Some s \<and>
    (region_of m (word_of_nat i) = region_of m (word_of_nat j) \<longleftrightarrow> site_of m (region_of m (word_of_nat j)) = Some s) \<and>
    (\<forall>u. s = UnknownSite u \<longrightarrow> region_of m (word_of_nat i) = region_of m (word_of_nat j) \<longrightarrow> i = j)"
proof -
  let ?n = "length (vars ssa)"
  have "infer_ok ?n (0 + 4 * ?n) (infer_passes 4 ssa (collect_heap_returns ssa) (build_spill_map ssa)
      \<lparr>by_var = replicate ?n no_region, sites = [], intern = []\<rparr>)"
    using assms(1) by (intro infer_passes_ok infer_start) simp
  then have "filled ?n (4 * ?n) ?n m"
    using fill_all[OF le_refl filled_start] assms(1,2) by (simp add: infer_regions_def Let_def)
  then have m: "interned ?n m" "\<forall>j < ?n. by_var m ! j \<noteq> no_region"
    "\<forall>j < ?n. \<forall>u. by_var m ! j \<noteq> no_region \<longrightarrow> sites m ! unat (by_var m ! j) = UnknownSite u \<longrightarrow> u = word_of_nat j"
    by (auto simp: filled_def)
  have u: "unat (word_of_nat k :: u32) = k" if "k < ?n" for k using that assms(1) by (simp add: unat_of_nat take_bit_nat_eq_self)
  have len: "length (by_var m) = ?n" using m(1) by (simp add: interned_def)
  have reg: "region_of m (word_of_nat k) = by_var m ! k" if "k < ?n" for k
    using that u[OF that] len by (simp add: region_of_def vec_get_def)
  have lt: "unat (by_var m ! k) < length (sites m)" if "k < ?n" for k
  proof -
    have "by_var m ! k \<in> set (by_var m)" using that len by simp
    then show ?thesis using m(1,2) that by (auto simp: interned_def)
  qed
  have site: "site_of m (by_var m ! k) = Some (sites m ! unat (by_var m ! k))" if "k < ?n" for k
    using lt[OF that] by (simp add: site_of_def vec_get_def)
  have "distinct (sites m)" using m(1) by (simp add: interned_def)
  then have eq: "by_var m ! i = by_var m ! j \<longleftrightarrow> sites m ! unat (by_var m ! j) = sites m ! unat (by_var m ! i)"
    using nth_eq_iff_index_eq[OF _ lt[OF assms(4)] lt[OF assms(3)]] by (auto simp: word_unat_eq_iff)
  have own: "i = j" if "sites m ! unat (by_var m ! i) = UnknownSite w" "by_var m ! i = by_var m ! j" for w
  proof -
    have "sites m ! unat (by_var m ! j) = UnknownSite w" using that by simp
    from m(3)[rule_format, OF assms(4) m(2)[rule_format, OF assms(4)] this] have "w = word_of_nat j" .
    moreover from m(3)[rule_format, OF assms(3) m(2)[rule_format, OF assms(3)] that(1)] have "w = word_of_nat i" .
    ultimately have "unat (word_of_nat i :: u32) = unat (word_of_nat j :: u32)" by simp
    then show ?thesis using u[OF assms(3)] u[OF assms(4)] by simp
  qed
  show ?thesis
    unfolding reg[OF assms(3)] reg[OF assms(4)] site[OF assms(3)] site[OF assms(4)] option.inject eq
    using own eq by (intro exI[of _ "sites m ! unat (by_var m ! i)"] conjI allI impI refl) blast
qed

text \<open>
  A phi of the two parameters has the region of the first of them. Its value may be the
  second, whose region is another one.
\<close>

definition phi_form :: SsaCfg where
  "phi_form = \<lparr>ssa_blocks = [], vars = [(blank_vardef 0)\<lparr>param_name := Some ''param_0''\<rparr>,
     (blank_vardef 1)\<lparr>param_name := Some ''param_1''\<rparr>, (blank_vardef 2)\<lparr>expr := EPhi [0, 1]\<rparr>], ssa_entry = 0, ssa_diagnostics = []\<rparr>"

lemma phi_form_regions: "by_var (infer_regions phi_form) = [0, 1, 0]" "sites (infer_regions phi_form) = [ParamSite 0, ParamSite 1]"
  by code_simp+

theorem regions_interned_witness:
  "site_of (infer_regions phi_form) (region_of (infer_regions phi_form) 2) = Some (ParamSite 0) \<and>
    region_of (infer_regions phi_form) 2 = region_of (infer_regions phi_form) 0"
proof -
  have n: "length (vars phi_form) = 3" by (simp add: phi_form_def)
  have r: "region_of (infer_regions phi_form) 2 = 0" "region_of (infer_regions phi_form) 0 = 0"
    by (simp_all add: region_of_def vec_get_def phi_form_regions)
  from regions_interned[of phi_form "infer_regions phi_form" 2 0] obtain s where
    "site_of (infer_regions phi_form) 0 = Some s" by (auto simp: n r)
  then show ?thesis using r by (simp add: site_of_def vec_get_def phi_form_regions)
qed

lemma phi_may_alias_other_region:
  "region_of (infer_regions phi_form) 2 \<noteq> region_of (infer_regions phi_form) 1"
  by (simp add: region_of_def vec_get_def phi_form_regions)

text \<open>Two calls of one function give values of one region, whatever the function does.\<close>

definition two_calls :: SsaCfg where
  "two_calls = \<lparr>ssa_blocks = [\<lparr>ssa_block_id = 0, ssa_block_addr = 0x1000,
       stmts = [CallStmt (Direct 0x2000) [] (Some 0), CallStmt (Direct 0x2000) [] (Some 1)], ssa_terminator = SReturn None\<rparr>],
     vars = [(blank_vardef 0)\<lparr>call_return := True\<rparr>, (blank_vardef 1)\<lparr>call_return := True\<rparr>], ssa_entry = 0, ssa_diagnostics = []\<rparr>"

lemma allocations_share_region:
  "by_var (infer_regions two_calls) = [0, 0]" "sites (infer_regions two_calls) = [HeapSite 0x2000]"
  by code_simp+

end
