(* ===== verification/Summary.thy ===== *)
theory Summary
  imports CallGraph Slice
begin

text \<open>
  What a caller needs to know of a function to follow its result,
  \<^verbatim>\<open>rsleigh-decompile/src/function_summary.rs\<close>, \<open>dependency_summary\<close>: the variables that hold
  its parameters, the values it returns, and whether it does something else that could
  be seen. \<open>None\<close> is a panic. The stack of the closure has its top first.
\<close>

record DependencySummary =
  parameters :: "(VarId \<times> usize) list"
  returns :: "VarId list"
  unsupported_side_effects :: bool

subsection \<open>Parameters\<close>

definition register_slot :: "CallingConv \<Rightarrow> VarDef \<Rightarrow> usize option" where
  "register_slot cc v =
     (if expr v = EUnknown \<and> \<not> call_return v \<and> operations (origins v) = [] \<and> space (varnode v) = Register
      then position_of (int_args (abi cc)) (offset (varnode v)) else None)"

definition shift_stack :: "u64 \<Rightarrow> ExactLocation \<Rightarrow> ExactLocation option" where
  "shift_stack off l = (case l of
     StackLoc base displacement sz \<Rightarrow>
       if uint off < 2 ^ 63 \<and> in_i64 (displacement + uint off) then Some (StackLoc base (displacement + uint off) sz) else None
   | GlobalLoc a sz \<Rightarrow> None)"

definition read_location :: "VarDef list \<Rightarrow> CallingConv \<Rightarrow> VarDef \<Rightarrow> ExactLocation option" where
  "read_location vs cc v = (case expr v of
     ELoad ptr \<Rightarrow> exact_location vs ptr (var_size v) cc
   | EFieldAccess base off \<Rightarrow> Option.bind (exact_location vs base (var_size v) cc) (shift_stack off)
   | _ \<Rightarrow> None)"

text \<open>Whether a stack location is relative to the incoming value of a register. Its base is a variable of the table.\<close>

definition based_on :: "VarDef list \<Rightarrow> VarId \<Rightarrow> u64 \<Rightarrow> bool" where
  "based_on vs base reg = (case vec_get vs (unat base) of Some v \<Rightarrow> offset (varnode v) = reg | None \<Rightarrow> False)"

definition stack_slot :: "VarDef list \<Rightarrow> CallingConv \<Rightarrow> VarDef \<Rightarrow> usize option" where
  "stack_slot vs cc v =
     (if cc = Cdecl32 \<or> cc = Stdcall32
      then (case read_location vs cc v of
          Some (StackLoc base displacement sz) \<Rightarrow>
            if based_on vs base 16 \<and> 4 \<le> displacement \<and> displacement mod 4 = 0 \<and> displacement \<le> 128
            then Some (nat ((displacement - 4) div 4)) else None
        | _ \<Rightarrow> None)
      else None)"

definition insert_slot :: "VarId \<Rightarrow> usize option \<Rightarrow> (VarId \<times> usize) list \<Rightarrow> (VarId \<times> usize) list" where
  "insert_slot i slot m = (case slot of Some s \<Rightarrow> map_insert i s m | None \<Rightarrow> m)"

definition parameter_slots :: "VarDef list \<Rightarrow> CallingConv \<Rightarrow> (VarId \<times> usize) list" where
  "parameter_slots vs cc =
     fold (\<lambda>v m. insert_slot (var_id v) (stack_slot vs cc v) (insert_slot (var_id v) (register_slot cc v) m)) vs []"

subsection \<open>Returns and side effects\<close>

primrec stack_pointer :: "CallingConv \<Rightarrow> u64" where
  "stack_pointer SysV = 32" | "stack_pointer Win64 = 32" | "stack_pointer GoAmd64 = 32"
| "stack_pointer AArch64 = 8" | "stack_pointer Arm32 = 84" | "stack_pointer Cdecl32 = 16"
| "stack_pointer Stdcall32 = 16" | "stack_pointer Thiscall32 = 16" | "stack_pointer Fastcall32 = 16"

definition returned_values :: "SsaCfg \<Rightarrow> VarId list" where
  "returned_values ssa = fold (\<lambda>blk out. case ssa_terminator blk of
     SReturn (Some v) \<Rightarrow> if v \<in> set out then out else out @ [v]
   | _ \<Rightarrow> out) (ssa_blocks ssa) []"

definition is_local_store :: "VarDef list \<Rightarrow> CallingConv \<Rightarrow> VarId \<Rightarrow> u32 \<Rightarrow> bool" where
  "is_local_store vs cc addr sz = (case exact_location vs addr sz cc of
     Some (StackLoc base displacement sz) \<Rightarrow>
       based_on vs base (stack_pointer cc) \<and> in_i64 (displacement + uint sz) \<and> displacement + uint sz \<le> 0
   | _ \<Rightarrow> False)"

primrec stmt_escapes :: "VarDef list \<Rightarrow> CallingConv \<Rightarrow> Stmt \<Rightarrow> bool option" where
  "stmt_escapes vs cc (Assign i) = map_option (\<lambda>v. case expr v of EUserOp f is \<Rightarrow> True | _ \<Rightarrow> False) (vec_get vs (unat i))"
| "stmt_escapes vs cc (StoreStmt addr val) = map_option (\<lambda>v. \<not> is_local_store vs cc addr (var_size v)) (vec_get vs (unat val))"
| "stmt_escapes vs cc (CallStmt target args out) = Some False"

primrec any_escape :: "VarDef list \<Rightarrow> CallingConv \<Rightarrow> Stmt list \<Rightarrow> bool option" where
  "any_escape vs cc [] = Some False"
| "any_escape vs cc (s # ss) = do {
     this \<leftarrow> stmt_escapes vs cc s;
     rest \<leftarrow> any_escape vs cc ss;
     Some (this \<or> rest)
   }"

text \<open>What the returned values are made of.\<close>

function ref_closure :: "VarDef list \<Rightarrow> VarId list \<Rightarrow> VarId list \<Rightarrow> VarId list" where
  "ref_closure vs deps [] = deps"
| "ref_closure vs deps (i # stk) =
     (if i \<in> set deps then ref_closure vs deps stk
      else ref_closure vs (i # deps)
        ((case vec_get vs (unat i) of Some v \<Rightarrow> rev (collect_expr_refs (expr v)) | None \<Rightarrow> []) @ stk))"
  by pat_completeness auto
termination
proof (relation "(\<lambda>(vs, deps, stk). card (UNIV - set deps)) <*mlex*> measure (\<lambda>(vs, deps, stk). length stk)")
  fix vs :: "VarDef list" and deps stk :: "VarId list" and i assume "i \<notin> set deps"
  then have "card (UNIV - set (i # deps)) < card (UNIV - set deps)" by (intro psubset_card_mono) auto
  then show "((vs, i # deps, (case vec_get vs (unat i) of Some v \<Rightarrow> rev (collect_expr_refs (expr v)) | None \<Rightarrow> []) @ stk), vs, deps, i # stk)
      \<in> (\<lambda>(vs, deps, stk). card (UNIV - set deps)) <*mlex*> measure (\<lambda>(vs, deps, stk). length stk)"
    by (simp add: mlex_iff)
qed (simp_all add: mlex_iff wf_mlex)

definition call_results :: "SsaBlock \<Rightarrow> VarId option list" where
  "call_results blk =
     List.map_filter (\<lambda>s. case s of CallStmt target args out \<Rightarrow> Some out | _ \<Rightarrow> None) (stmts blk) @
     (case ssa_terminator blk of SCall target args out b \<Rightarrow> [out] | _ \<Rightarrow> [])"

text \<open>A call whose result the returned values do not need has an effect of its own.\<close>

definition unneeded :: "VarId list \<Rightarrow> VarId option \<Rightarrow> bool" where
  "unneeded deps out = (case out of Some v \<Rightarrow> v \<notin> set deps | None \<Rightarrow> True)"

definition dependency_summary :: "SsaCfg \<Rightarrow> CallingConv \<Rightarrow> DependencySummary option" where
  "dependency_summary ssa cc = do {
     let rets = returned_values ssa;
     escapes \<leftarrow> any_escape (vars ssa) cc (concat (map stmts (ssa_blocks ssa)));
     let deps = ref_closure (vars ssa) [] (rev rets);
     Some \<lparr>parameters = parameter_slots (vars ssa) cc, returns = rets,
       unsupported_side_effects = (escapes \<or> list_ex (unneeded deps) (concat (map call_results (ssa_blocks ssa))))\<rparr>
   }"

end
