(* ===== verification/Interproc.thy ===== *)
theory Interproc
  imports Summary
begin

text \<open>
  Dependencies across calls, \<^verbatim>\<open>rsleigh-decompile/src/slice/interprocedural.rs\<close>: local slices
  stitched together over contexts, one for each call that is followed. A context's
  arguments are references into its caller, so the traversal is context sensitive. The
  functions a caller loads are an argument; \<open>None\<close> is a panic inside the traversal, which
  \<open>backward\<close> reports as an error. Charges of the execution budget are left out.
\<close>

record SliceFunction =
  fn_ssa :: SsaCfg
  fn_operation :: operation_at

record Limits =
  lim_nodes :: usize
  lim_depth :: usize
  lim_call_depth :: usize
  lim_functions :: usize
  lim_work :: usize

definition bounded :: "Limits \<Rightarrow> Limits" where
  "bounded l = \<lparr>lim_nodes = min (lim_nodes l) MAX_NODES, lim_depth = min (lim_depth l) MAX_DEPTH,
     lim_call_depth = min (lim_call_depth l) 8, lim_functions = min (lim_functions l) 32, lim_work = min (lim_work l) 1000000\<rparr>"

record Reference =
  ref_context :: usize
  ref_var :: VarId

record Link =
  link_kind :: string
  link_target :: Reference
  link_stop :: "string option"

record Node =
  local_node :: SliceNode
  node_context :: usize
  node_function :: u64
  links :: "Link list"
  node_call :: "DependencyCall option"

record Context =
  context_number :: usize
  context_function :: u64
  caller_context :: "usize option"
  context_origin :: "OperationOrigin option"
  call_depth :: usize

record Frame =
  frame_function :: SliceFunction
  caller_arguments :: "(usize \<times> Reference) list"

record InterSlice =
  inter_root :: VarId
  inter_nodes :: "Node list"
  inter_blocks :: "(SliceBlock \<times> usize) list"
  inter_contexts :: "Context list"
  inter_complete :: bool
  inter_truncated :: bool
  inter_limits :: Limits
  functions_visited :: usize
  contexts_created :: usize
  traversal_work :: usize
  inter_stops :: "string list"

record inter_state =
  found_nodes :: "Node list"
  found_blocks :: "(SliceBlock \<times> usize) list"
  contexts :: "Context list"
  cut :: bool
  work_done :: usize
  stops :: "string list"
  frames :: "Frame list"
  summaries :: "(u64 \<times> DependencySummary) list"
  functions_seen :: "u64 list"
  visited_refs :: "Reference list"
  jobs :: "(Reference \<times> usize) list"
  inputs_used :: usize
  blocks_seen :: "(usize \<times> BlockId) list"

record inter_env =
  env_cc :: CallingConv
  env_imports :: import_map
  env_limits :: Limits
  env_load :: "u64 \<Rightarrow> string + SliceFunction"

definition stop :: "string \<Rightarrow> inter_state \<Rightarrow> inter_state" where
  "stop reason st = st\<lparr>cut := True, stops := stops st @ [reason]\<rparr>"

definition charge_work :: "Limits \<Rightarrow> usize \<Rightarrow> inter_state \<Rightarrow> bool \<times> inter_state" where
  "charge_work l amount st =
     (if lim_work l - work_done st < amount
      then (False, if ''traversal_work_limit'' \<in> set (stops st) then st\<lparr>cut := True\<rparr> else stop ''traversal_work_limit'' st)
      else (True, st\<lparr>work_done := work_done st + amount\<rparr>))"

definition scan_cost :: "SsaCfg \<Rightarrow> usize" where
  "scan_cost ssa = length (vars ssa) + sum_list (map (\<lambda>b. 1 + length (stmts b)) (ssa_blocks ssa))"

definition summary_for :: "CallingConv \<Rightarrow> u64 \<Rightarrow> SsaCfg \<Rightarrow> inter_state \<Rightarrow> (DependencySummary \<times> inter_state) option" where
  "summary_for cc a ssa st = (case map_of (summaries st) a of
     Some s \<Rightarrow> Some (s, st)
   | None \<Rightarrow> do {
       s \<leftarrow> dependency_summary ssa cc;
       Some (s, st\<lparr>summaries := map_insert a s (summaries st)\<rparr>)
     })"

definition add_block :: "usize \<Rightarrow> SliceBlock \<Rightarrow> inter_state \<Rightarrow> inter_state" where
  "add_block ctx b st =
     (if (ctx, slice_block_id b) \<in> set (blocks_seen st) then st
      else let st = st\<lparr>blocks_seen := (ctx, slice_block_id b) # blocks_seen st\<rparr>
           in if length (found_blocks st) < MAX_NODES then st\<lparr>found_blocks := found_blocks st @ [(b, ctx)]\<rparr>
              else stop ''block_limit'' st)"

subsection \<open>Following a call\<close>

definition set_boundary :: "string option \<Rightarrow> Node \<Rightarrow> Node" where
  "set_boundary b n = n\<lparr>local_node := (local_node n)\<lparr>node_boundary := b\<rparr>\<rparr>"

definition link_to :: "string \<Rightarrow> Reference \<Rightarrow> Link" where
  "link_to kind r = \<lparr>link_kind = kind, link_target = r, link_stop = None\<rparr>"

text \<open>A parameter is what the caller passes; where the caller passes it in memory, the address is not followed.\<close>

definition bind_parameter :: "usize \<Rightarrow> Node \<Rightarrow> inter_state \<Rightarrow> (Node \<times> inter_state) option" where
  "bind_parameter slot n st = do {
     frame \<leftarrow> vec_get (frames st) (node_context n);
     (case map_of (caller_arguments frame) slot of
        Some actual \<Rightarrow> Some
          (n\<lparr>local_node := (local_node n)\<lparr>node_boundary := None, inputs := [], inputs_total := 0\<rparr>,
             links := links n @ [link_to ''argument_binding'' actual]\<rparr>,
           st\<lparr>jobs := jobs st @ [(actual, node_depth (local_node n) + 1)]\<rparr>)
      | None \<Rightarrow> Some (set_boundary (Some ''missing_call_argument'') n, st))
   }"

text \<open>The functions of a context and of its callers; callers have smaller numbers.\<close>

primrec ancestor_functions :: "nat \<Rightarrow> Context list \<Rightarrow> usize \<Rightarrow> u64 list option" where
  "ancestor_functions 0 cs i = None"
| "ancestor_functions (Suc left) cs i = do {
     c \<leftarrow> vec_get cs i;
     (case caller_context c of
        None \<Rightarrow> Some [context_function c]
      | Some p \<Rightarrow> map_option ((#) (context_function c)) (ancestor_functions left cs p))
   }"

definition call_refusal :: "Limits \<Rightarrow> DependencyCall \<Rightarrow> usize \<Rightarrow> u64 list \<Rightarrow> inter_state \<Rightarrow> string option" where
  "call_refusal l call next_depth ancestors st =
     (if import_name call \<noteq> None then Some ''external_call''
      else if target_address call = None then Some ''unknown_call''
      else if lim_nodes l \<le> length (found_nodes st) + 1 then Some ''node_limit''
      else if lim_call_depth l < next_depth then Some ''call_depth_limit''
      else if target_address call \<in> Some ` set ancestors then Some ''recursion_limit''
      else None)"

definition summary_refusal :: "Limits \<Rightarrow> DependencySummary \<Rightarrow> inter_state \<Rightarrow> string option" where
  "summary_refusal l s st =
     (if unsupported_side_effects s then Some ''unsupported_side_effects''
      else if returns s = [] then Some ''unsupported_return''
      else if lim_nodes l \<le> length (contexts st) then Some ''context_limit''
      else None)"

definition push_context :: "u64 \<Rightarrow> SliceFunction \<Rightarrow> DependencyCall \<Rightarrow> usize \<Rightarrow> DependencySummary \<Rightarrow> Node \<Rightarrow> inter_state \<Rightarrow> Node \<times> inter_state" where
  "push_context target target_fn call next_depth s n st =
     (let i = length (contexts st);
          rets = map (\<lambda>v. \<lparr>ref_context = i, ref_var = v\<rparr>) (returns s)
      in (n\<lparr>links := links n @ map (link_to ''call_return'') rets\<rparr>,
          st\<lparr>contexts := contexts st @ [\<lparr>context_number = i, context_function = target, caller_context = Some (node_context n),
               context_origin = Some (call_origin call), call_depth = next_depth\<rparr>],
             frames := frames st @ [\<lparr>frame_function = target_fn,
               caller_arguments = map (\<lambda>(slot, v). (slot, \<lparr>ref_context = node_context n, ref_var = v\<rparr>)) (arguments call)\<rparr>],
             jobs := jobs st @ map (\<lambda>r. (r, node_depth (local_node n) + 1)) rets\<rparr>))"

text \<open>The refusal, if the callee cannot be entered.\<close>

definition enter_callee :: "inter_env \<Rightarrow> u64 \<Rightarrow> DependencyCall \<Rightarrow> usize \<Rightarrow> Node \<Rightarrow> inter_state \<Rightarrow> (string option \<times> Node \<times> inter_state) option" where
  "enter_callee e target call next_depth n st =
     (let l = env_limits e in
      if target \<notin> set (functions_seen st) \<and> lim_functions l \<le> length (functions_seen st) then Some (Some ''function_limit'', n, st)
      else (case charge_work l 1 st of
          (False, st) \<Rightarrow> Some (Some ''traversal_work_limit'', n, st)
        | (True, st) \<Rightarrow>
            let st = st\<lparr>functions_seen := List.insert target (functions_seen st)\<rparr>
            in case env_load e target of
                Inl err \<Rightarrow> Some (Some ''function_unavailable'', n, st\<lparr>stops := stops st @ [err]\<rparr>)
              | Inr target_fn \<Rightarrow> (case charge_work l (scan_cost (fn_ssa target_fn)) st of
                    (False, st) \<Rightarrow> Some (Some ''traversal_work_limit'', n, st)
                  | (True, st) \<Rightarrow> do {
                      (s, st) \<leftarrow> summary_for (env_cc e) target (fn_ssa target_fn) st;
                      (case summary_refusal l s st of
                         Some reason \<Rightarrow> Some (Some reason, n, st)
                       | None \<Rightarrow> Some (None, push_context target target_fn call next_depth s n st))
                    })))"

definition is_limit :: "string option \<Rightarrow> bool" where
  "is_limit reason \<longleftrightarrow> reason \<in> Some ` set [''call_depth_limit'', ''recursion_limit'', ''function_limit'',
     ''traversal_work_limit'', ''context_limit'', ''node_limit'']"

definition follow_call :: "inter_env \<Rightarrow> Node \<Rightarrow> inter_state \<Rightarrow> (Node \<times> inter_state) option" where
  "follow_call e n st = do {
     frame \<leftarrow> vec_get (frames st) (node_context n);
     let f = frame_function frame;
     found \<leftarrow> dependency_call (fn_ssa f) (node_var (local_node n)) (env_cc e) (env_imports e) (fn_operation f);
     (case found of
        Inl reason \<Rightarrow> Some (set_boundary (Some reason) n, st)
      | Inr call \<Rightarrow> do {
          c \<leftarrow> vec_get (contexts st) (node_context n);
          ancestors \<leftarrow> ancestor_functions (length (contexts st)) (contexts st) (node_context n);
          (reason, n, st) \<leftarrow> (case (call_refusal (env_limits e) call (call_depth c + 1) ancestors st, target_address call) of
             (None, Some target) \<Rightarrow> enter_callee e target call (call_depth c + 1) n st
           | (reason, _) \<Rightarrow> Some (reason, n, st));
          Some ((set_boundary reason n)\<lparr>node_call := Some call\<rparr>, if is_limit reason then st\<lparr>cut := True\<rparr> else st)
        })
   }"

subsection \<open>Nodes and jobs\<close>

definition finish_node :: "inter_env \<Rightarrow> Node \<Rightarrow> inter_state \<Rightarrow> inter_state" where
  "finish_node e n st =
     (let (ok, st) = charge_work (env_limits e) (length (links n)) st;
          n = (if ok then n else set_boundary (Some ''traversal_work_limit'') n);
          available = MAX_INPUTS - inputs_used st;
          (n, st) = (if available < length (links n)
             then ((set_boundary (Some ''input_limit'') n)\<lparr>links := take available (links n)\<rparr>, st\<lparr>cut := True\<rparr>)
             else (n, st))
      in st\<lparr>inputs_used := inputs_used st + length (links n), found_nodes := found_nodes st @ [n]\<rparr>)"

definition place_node :: "inter_env \<Rightarrow> usize \<Rightarrow> u64 \<Rightarrow> usize \<Rightarrow> SliceNode \<Rightarrow> inter_state \<Rightarrow> inter_state option" where
  "place_node e ctx a depth n st = do {
     let n = n\<lparr>node_depth := node_depth n + depth\<rparr>;
     let available = MAX_INPUTS - inputs_used st;
     let (n, st) = (if available < length (inputs n) then (n\<lparr>inputs := take available (inputs n)\<rparr>, stop ''input_limit'' st) else (n, st));
     let st = st\<lparr>inputs_used := inputs_used st + length (inputs n)\<rparr>;
     s \<leftarrow> map_of (summaries st) a;
     let out = \<lparr>local_node = n, node_context = ctx, node_function = a, links = [], node_call = None\<rparr>;
     (out, st) \<leftarrow> (case (map_of (parameters s) (node_var n), ctx \<noteq> 0) of
        (Some slot, True) \<Rightarrow> bind_parameter slot out st
      | _ \<Rightarrow> if node_boundary n = Some ''unmodeled_call'' then follow_call e out st else Some (out, st));
     Some (finish_node e out st)
   }"

primrec visit_nodes :: "inter_env \<Rightarrow> usize \<Rightarrow> u64 \<Rightarrow> usize \<Rightarrow> SliceNode list \<Rightarrow> inter_state \<Rightarrow> inter_state option" where
  "visit_nodes e ctx a depth [] st = Some st"
| "visit_nodes e ctx a depth (n # ns) st =
     (let r = \<lparr>ref_context = ctx, ref_var = node_var n\<rparr> in
      if r \<in> set (visited_refs st) then visit_nodes e ctx a depth ns st
      else (case charge_work (env_limits e) (1 + length (inputs n)) (st\<lparr>visited_refs := r # visited_refs st\<rparr>) of
          (False, st) \<Rightarrow> Some st
        | (True, st) \<Rightarrow> do {
            st \<leftarrow> place_node e ctx a depth n st;
            if MAX_INPUTS \<le> inputs_used st then Some (stop ''input_limit'' st)
            else visit_nodes e ctx a depth ns st
          }))"

text \<open>One job; the flag says that the traversal ends with it.\<close>

definition run_job :: "inter_env \<Rightarrow> Reference \<Rightarrow> usize \<Rightarrow> inter_state \<Rightarrow> (string + bool \<times> inter_state) option" where
  "run_job e r depth st =
     (let l = env_limits e in
      if r \<in> set (visited_refs st) then Some (Inr (False, st))
      else if lim_depth l < depth then Some (Inr (False, stop ''depth_limit'' st))
      else if lim_nodes l \<le> length (found_nodes st) then Some (Inr (False, stop ''node_limit'' st))
      else do {
        c \<leftarrow> vec_get (contexts st) (ref_context r);
        frame \<leftarrow> vec_get (frames st) (ref_context r);
        let ssa = fn_ssa (frame_function frame);
        (case charge_work l (scan_cost ssa) st of
           (False, st) \<Rightarrow> Some (Inr (True, st))
         | (True, st) \<Rightarrow> do {
             (s, st) \<leftarrow> summary_for (env_cc e) (context_function c) ssa st;
             sliced \<leftarrow> backward_slice ssa (ref_var r) (lim_nodes l - length (found_nodes st)) (lim_depth l - depth);
             (case sliced of
                Inl err \<Rightarrow> Some (Inl err)
              | Inr part \<Rightarrow> do {
                  let st = st\<lparr>cut := cut st \<or> slice_truncated part\<rparr>;
                  let st = fold (add_block (ref_context r)) (slice_blocks part) st;
                  st \<leftarrow> visit_nodes e (ref_context r) (context_function c) depth (slice_nodes part) st;
                  Some (Inr (False, st))
                })
           })
      })"

subsection \<open>The traversal ends\<close>

text \<open>A node is found, or nothing is queued.\<close>

definition grown :: "inter_state \<Rightarrow> inter_state \<Rightarrow> bool" where
  "grown st st' \<longleftrightarrow> length (found_nodes st) < length (found_nodes st') \<or>
     length (found_nodes st') = length (found_nodes st) \<and> jobs st' = jobs st"

lemma grown_refl: "grown st st"
  by (simp add: grown_def)

lemma grown_trans: "grown a b \<Longrightarrow> grown b c \<Longrightarrow> grown a c"
  by (auto simp: grown_def)

lemma charge_work_same:
  "charge_work l n st = (ok, st') \<Longrightarrow> found_nodes st' = found_nodes st \<and> jobs st' = jobs st"
  by (auto simp: charge_work_def stop_def split: if_splits)

lemma summary_for_same:
  "summary_for cc a ssa st = Some (s, st') \<Longrightarrow> found_nodes st' = found_nodes st \<and> jobs st' = jobs st"
  by (auto simp: summary_for_def split: option.splits Option.bind_splits)

lemma add_block_same: "found_nodes (add_block ctx b st) = found_nodes st \<and> jobs (add_block ctx b st) = jobs st"
  by (simp add: add_block_def stop_def Let_def)

lemma add_blocks_same: "found_nodes (fold (add_block ctx) bs st) = found_nodes st \<and> jobs (fold (add_block ctx) bs st) = jobs st"
  by (induction bs arbitrary: st) (simp_all add: add_block_same)

lemma bind_parameter_found: "bind_parameter slot n st = Some (n', st') \<Longrightarrow> found_nodes st' = found_nodes st"
  by (auto simp: bind_parameter_def split: option.splits Option.bind_splits)

lemma enter_callee_found: "enter_callee e target call d n st = Some (reason, n', st') \<Longrightarrow> found_nodes st' = found_nodes st"
  by (auto simp: enter_callee_def push_context_def Let_def split: if_splits prod.splits bool.splits sum.splits option.splits Option.bind_splits
      dest!: charge_work_same summary_for_same)

lemma follow_call_found: "follow_call e n st = Some (n', st') \<Longrightarrow> found_nodes st' = found_nodes st"
  by (auto simp: follow_call_def Let_def split: if_splits prod.splits sum.splits option.splits Option.bind_splits dest!: enter_callee_found)

lemma finish_node_found: "length (found_nodes (finish_node e n st)) = Suc (length (found_nodes st))"
  by (auto simp: finish_node_def Let_def split: prod.split dest!: charge_work_same)

lemma place_node_found:
  assumes "place_node e ctx a d n st = Some st'"
  shows "length (found_nodes st') = Suc (length (found_nodes st))"
  using assms
  by (auto simp: place_node_def Let_def stop_def finish_node_found split: if_splits prod.splits bool.splits option.splits Option.bind_splits
    dest!: bind_parameter_found follow_call_found)

lemma visit_nodes_grown: "visit_nodes e ctx a d ns st = Some st' \<Longrightarrow> grown st st'"
proof (induction ns arbitrary: st)
  case (Cons n ns)
  let ?r = "\<lparr>ref_context = ctx, ref_var = node_var n\<rparr>"
  show ?case
  proof (cases "?r \<in> set (visited_refs st)")
    case True
    then show ?thesis using Cons by simp
  next
    case False
    obtain ok st1 where c: "charge_work (env_limits e) (1 + length (inputs n)) (st\<lparr>visited_refs := ?r # visited_refs st\<rparr>) = (ok, st1)" by fastforce
    from charge_work_same[OF c] have same: "found_nodes st1 = found_nodes st" "jobs st1 = jobs st" by simp_all
    show ?thesis
    proof (cases ok)
      case True
      then obtain st2 where st2: "place_node e ctx a d n st1 = Some st2"
        "(if MAX_INPUTS \<le> inputs_used st2 then Some (stop ''input_limit'' st2) else visit_nodes e ctx a d ns st2) = Some st'"
        using Cons.prems False c by (auto split: Option.bind_splits)
      have "grown st st2" using place_node_found[OF st2(1)] same by (simp add: grown_def)
      moreover have "grown st2 st'" using st2(2) Cons.IH[of st2] by (auto simp: grown_def stop_def split: if_splits)
      ultimately show ?thesis by (rule grown_trans)
    qed (use Cons.prems False c same in \<open>simp add: grown_def\<close>)
  qed
qed (simp add: grown_refl)

lemma run_job_grown:
  assumes "run_job e r d st = Some (Inr (b, st'))"
  shows "grown st st' \<and> (jobs st' = jobs st \<and> found_nodes st' = found_nodes st \<or> length (found_nodes st) < lim_nodes (env_limits e))"
  using assms
  by (auto simp: run_job_def Let_def stop_def add_blocks_same grown_def
    split: if_splits prod.splits bool.splits sum.splits Option.bind_splits
    dest!: charge_work_same summary_for_same visit_nodes_grown)

lemma job_decreases:
  assumes "jobs st = p # q" "run_job e r d (st\<lparr>jobs := q\<rparr>) = Some (Inr (again, st'))"
  shows "((e, st'), e, st) \<in> (\<lambda>(e, st). lim_nodes (env_limits e) - length (found_nodes st)) <*mlex*> measure (\<lambda>(e, st). length (jobs st))"
  using run_job_grown[OF assms(2)] assms(1) by (auto simp: mlex_iff grown_def)

function job_loop :: "inter_env \<Rightarrow> inter_state \<Rightarrow> (string + inter_state) option" where
  "job_loop e st = (case jobs st of
     [] \<Rightarrow> Some (Inr st)
   | (r, depth) # q \<Rightarrow> (case run_job e r depth (st\<lparr>jobs := q\<rparr>) of
       None \<Rightarrow> None
     | Some (Inl err) \<Rightarrow> Some (Inl err)
     | Some (Inr (True, st)) \<Rightarrow> Some (Inr st)
     | Some (Inr (False, st)) \<Rightarrow> job_loop e st))"
  by pat_completeness auto
termination
  by (relation "(\<lambda>(e, st). lim_nodes (env_limits e) - length (found_nodes st)) <*mlex*> measure (\<lambda>(e, st). length (jobs st))")
    (simp add: wf_mlex, auto intro: job_decreases)

declare job_loop.simps [simp del]

subsection \<open>The result\<close>

text \<open>An input or link to a variable that was not reached stops there.\<close>

definition included_refs :: "Node list \<Rightarrow> Reference list" where
  "included_refs ns = map (\<lambda>n. \<lparr>ref_context = node_context n, ref_var = node_var (local_node n)\<rparr>) ns"

definition mark_input :: "Reference list \<Rightarrow> usize \<Rightarrow> SliceInput \<Rightarrow> SliceInput" where
  "mark_input included ctx i =
     (if stop_reason i = None \<and> \<lparr>ref_context = ctx, ref_var = input_var i\<rparr> \<notin> set included
      then i\<lparr>stop_reason := Some ''traversal_limit''\<rparr> else i)"

definition mark_link :: "Reference list \<Rightarrow> Link \<Rightarrow> Link" where
  "mark_link included k = (if link_target k \<notin> set included then k\<lparr>link_stop := Some ''traversal_limit''\<rparr> else k)"

definition mark_node :: "Reference list \<Rightarrow> Node \<Rightarrow> Node" where
  "mark_node included n = n\<lparr>
     local_node := (local_node n)\<lparr>inputs := map (mark_input included (node_context n)) (inputs (local_node n))\<rparr>,
     links := map (mark_link included) (links n)\<rparr>"

definition resolved_node :: "Node \<Rightarrow> bool" where
  "resolved_node n \<longleftrightarrow> node_boundary (local_node n) = None \<and>
     list_all (\<lambda>i. stop_reason i = None) (inputs (local_node n)) \<and> list_all (\<lambda>k. link_stop k = None) (links n)"

definition inter_result :: "VarId \<Rightarrow> Limits \<Rightarrow> inter_state \<Rightarrow> InterSlice" where
  "inter_result root l st =
     (let ns = map (mark_node (included_refs (found_nodes st))) (found_nodes st)
      in \<lparr>inter_root = root, inter_nodes = ns, inter_blocks = found_blocks st, inter_contexts = contexts st,
          inter_complete = (\<not> cut st \<and> stops st = [] \<and> list_all resolved_node ns), inter_truncated = cut st, inter_limits = l,
          functions_visited = length (functions_seen st), contexts_created = length (contexts st), traversal_work = work_done st,
          inter_stops = stops st\<rparr>)"

definition inter_start :: "u64 \<Rightarrow> VarId \<Rightarrow> SliceFunction \<Rightarrow> inter_state" where
  "inter_start a root f = \<lparr>found_nodes = [], found_blocks = [],
     contexts = [\<lparr>context_number = 0, context_function = a, caller_context = None, context_origin = None, call_depth = 0\<rparr>],
     cut = False, work_done = 0, stops = [], frames = [\<lparr>frame_function = f, caller_arguments = []\<rparr>], summaries = [],
     functions_seen = [a], visited_refs = [], jobs = [(\<lparr>ref_context = 0, ref_var = root\<rparr>, 0)], inputs_used = 0, blocks_seen = []\<rparr>"

definition backward :: "u64 \<Rightarrow> VarId \<Rightarrow> SliceFunction \<Rightarrow> CallingConv \<Rightarrow> import_map \<Rightarrow> Limits \<Rightarrow>
    (u64 \<Rightarrow> string + SliceFunction) \<Rightarrow> string + InterSlice" where
  "backward a root f cc imps limits load =
     (let l = bounded limits in
      if lim_nodes l = 0 \<or> lim_functions l = 0 then Inl ''node and function limits must be positive''
      else (case job_loop \<lparr>env_cc = cc, env_imports = imps, env_limits = l, env_load = load\<rparr> (inter_start a root f) of
          None \<Rightarrow> Inl ''dependency traversal panicked''
        | Some (Inl err) \<Rightarrow> Inl err
        | Some (Inr st) \<Rightarrow> Inr (inter_result root l st)))"

end
