(* ===== verification/InterprocInv.thy ===== *)
theory InterprocInv
  imports Interproc SliceProps CallGraphEdges
begin

text \<open>
  What the traversal across calls maintains: contexts form a tree in which no function
  calls itself, references stay inside the tables of their contexts, summaries are those
  of the functions, the limits hold, and a node without a boundary has all its
  dependencies queued. Each step keeps this and does not panic on functions whose
  operands exist.
\<close>

subsection \<open>Functions whose operands exist\<close>

primrec stmt_operands :: "Stmt \<Rightarrow> VarId list" where
  "stmt_operands (Assign v) = [v]"
| "stmt_operands (StoreStmt addr val) = [val]"
| "stmt_operands (CallStmt target args out) = []"

primrec term_operands :: "SsaTerminator \<Rightarrow> VarId list" where
  "term_operands (SFallthrough b) = []"
| "term_operands (SBranch b) = []"
| "term_operands (SCBranch cond taken fallthrough) = []"
| "term_operands (SCall target args out b) = args @ (case out of Some v \<Rightarrow> [v] | None \<Rightarrow> [])"
| "term_operands (SReturn v) = (case v of Some i \<Rightarrow> [i] | None \<Rightarrow> [])"
| "term_operands (SIndirect v) = []"

definition sliceable :: "SsaCfg \<Rightarrow> bool" where
  "sliceable ssa \<longleftrightarrow> (\<forall>blk \<in> set (ssa_blocks ssa). \<forall>i \<in> set (term_operands (ssa_terminator blk)) \<union> set (concat (map stmt_operands (stmts blk))).
     unat i < length (vars ssa))"

lemma any_escape_total: "\<forall>s \<in> set ss. \<forall>i \<in> set (stmt_operands s). unat i < length vs \<Longrightarrow> \<exists>b. any_escape vs cc ss = Some b"
proof (induction ss)
  case (Cons s ss)
  have "\<exists>b. stmt_escapes vs cc s = Some b" using Cons.prems by (cases s) (auto simp: vec_get_at)
  with Cons show ?case by auto
qed (rule exI[of _ False], simp)

lemma set_returned_values: "set (returned_values ssa) = {v. \<exists>blk \<in> set (ssa_blocks ssa). ssa_terminator blk = SReturn (Some v)}"
proof -
  have "set (fold (\<lambda>blk out. case ssa_terminator blk of SReturn (Some v) \<Rightarrow> if v \<in> set out then out else out @ [v] | _ \<Rightarrow> out) blks out) =
      set out \<union> {v. \<exists>blk \<in> set blks. ssa_terminator blk = SReturn (Some v)}" for blks :: "SsaBlock list" and out
    by (induction blks arbitrary: out) (auto split: SsaTerminator.split option.split)
  then show ?thesis by (simp add: returned_values_def)
qed

lemma dependency_summary_total:
  assumes "sliceable ssa"
  shows "\<exists>s. dependency_summary ssa cc = Some s \<and> (\<forall>v \<in> set (returns s). unat v < length (vars ssa))"
proof -
  have "\<exists>b. any_escape (vars ssa) cc (concat (map stmts (ssa_blocks ssa))) = Some b"
    using assms by (intro any_escape_total) (auto simp: sliceable_def)
  moreover have "unat v < length (vars ssa)" if "v \<in> set (returned_values ssa)" for v
  proof -
    from that obtain blk where "blk \<in> set (ssa_blocks ssa)" "ssa_terminator blk = SReturn (Some v)" unfolding set_returned_values by blast
    then show ?thesis using assms unfolding sliceable_def by force
  qed
  ultimately show ?thesis by (auto simp: dependency_summary_def Let_def)
qed

lemma sliceable_calls:
  "sliceable ssa \<Longrightarrow> \<forall>blk \<in> set (ssa_blocks ssa). \<forall>t a out b. ssa_terminator blk = SCall t a (Some out) b \<longrightarrow>
    (\<forall>i \<in> insert out (set a). unat i < length (vars ssa))"
  unfolding sliceable_def by force

lemma dependency_call_total:
  assumes "sliceable ssa" "unat x < length (vars ssa)"
  shows "\<exists>r. dependency_call ssa x cc imps operation = Some r \<and> (\<forall>c. r = Inr c \<longrightarrow> (\<forall>(n, i) \<in> set (arguments c). unat i < length (vars ssa)))"
proof -
  let ?P = "\<lambda>c. \<exists>blk \<in> set (ssa_blocks ssa). \<exists>target args out b. ssa_terminator blk = SCall target args (Some out) b \<and>
        in_slots ssa cc args (arguments c)"
  have "\<exists>r. dependency_call ssa x cc imps operation = Some r \<and> (\<forall>c. r = Inr c \<longrightarrow> ?P c)"
    using dependency_call_result[OF assms(2) sliceable_calls[OF assms(1)], of cc imps operation] by (elim ex_forward) blast
  then obtain r where r: "dependency_call ssa x cc imps operation = Some r" "\<And>c. r = Inr c \<Longrightarrow> ?P c" by blast
  have "unat i < length (vars ssa)" if c: "r = Inr c" and m: "(n, i) \<in> set (arguments c)" for c n i
  proof -
    from r(2)[OF c] obtain blk target args out b where "blk \<in> set (ssa_blocks ssa)" "ssa_terminator blk = SCall target args (Some out) b"
      "in_slots ssa cc args (arguments c)" by blast
    then show ?thesis using sliceable_calls[OF assms(1)] in_slots_args m by blast
  qed
  with r(1) show ?thesis by blast
qed

subsection \<open>Contexts\<close>

definition fn_at :: "inter_env \<Rightarrow> u64 \<Rightarrow> SliceFunction \<Rightarrow> u64 \<Rightarrow> SliceFunction option" where
  "fn_at e a0 f0 a = (if a = a0 then Some f0 else case env_load e a of Inr f \<Rightarrow> Some f | Inl err \<Rightarrow> None)"

abbreviation fn_of :: "inter_state \<Rightarrow> usize \<Rightarrow> SliceFunction" where
  "fn_of st k \<equiv> frame_function (frames st ! k)"

definition ref_ok :: "inter_state \<Rightarrow> Reference \<Rightarrow> bool" where
  "ref_ok st r \<longleftrightarrow> ref_context r < length (contexts st) \<and> unat (ref_var r) < length (vars (fn_ssa (fn_of st (ref_context r))))"

text \<open>Context \<open>k\<close> is entered by a call that context \<open>p\<close> makes, with that call's arguments.\<close>

definition entered_by :: "inter_env \<Rightarrow> inter_state \<Rightarrow> usize \<Rightarrow> usize \<Rightarrow> bool" where
  "entered_by e st p k \<longleftrightarrow> (\<exists>x c. dependency_call (fn_ssa (fn_of st p)) x (env_cc e) (env_imports e) (fn_operation (fn_of st p)) = Some (Inr c) \<and>
     context_origin (contexts st ! k) = Some (call_origin c) \<and> target_address c = Some (context_function (contexts st ! k)) \<and>
     caller_arguments (frames st ! k) = map (\<lambda>(slot, v). (slot, \<lparr>ref_context = p, ref_var = v\<rparr>)) (arguments c))"

definition context_ok :: "inter_env \<Rightarrow> u64 \<Rightarrow> SliceFunction \<Rightarrow> inter_state \<Rightarrow> usize \<Rightarrow> bool" where
  "context_ok e a0 f0 st k \<longleftrightarrow>
     context_number (contexts st ! k) = k \<and> call_depth (contexts st ! k) \<le> lim_call_depth (env_limits e) \<and>
     fn_at e a0 f0 (context_function (contexts st ! k)) = Some (fn_of st k) \<and>
     (k = 0 \<longrightarrow> caller_context (contexts st ! k) = None \<and> call_depth (contexts st ! k) = 0) \<and>
     (0 < k \<longrightarrow> (\<exists>p < k. caller_context (contexts st ! k) = Some p \<and> call_depth (contexts st ! k) = Suc (call_depth (contexts st ! p)) \<and>
        entered_by e st p k)) \<and>
     (\<forall>(slot, r) \<in> set (caller_arguments (frames st ! k)). ref_ok st r) \<and>
     (\<exists>as. ancestor_functions (length (contexts st)) (contexts st) k = Some as \<and> distinct as \<and> a0 \<in> set as)"

definition env_ok :: "inter_env \<Rightarrow> u64 \<Rightarrow> SliceFunction \<Rightarrow> inter_state \<Rightarrow> bool" where
  "env_ok e a0 f0 st \<longleftrightarrow>
     length (frames st) = length (contexts st) \<and> length (contexts st) \<le> lim_nodes (env_limits e) \<and>
     (\<forall>k < length (contexts st). context_ok e a0 f0 st k) \<and>
     (\<forall>a s. map_of (summaries st) a = Some s \<longrightarrow> (\<exists>f. fn_at e a0 f0 a = Some f \<and> dependency_summary (fn_ssa f) (env_cc e) = Some s)) \<and>
     (\<forall>(r, d) \<in> set (jobs st). ref_ok st r) \<and>
     work_done st \<le> lim_work (env_limits e) \<and> length (functions_seen st) \<le> lim_functions (env_limits e) \<and>
     length (found_blocks st) \<le> MAX_NODES"

lemma env_okD:
  assumes "env_ok e a0 f0 st"
  shows "length (frames st) = length (contexts st)" "length (contexts st) \<le> lim_nodes (env_limits e)"
    "k < length (contexts st) \<Longrightarrow> context_ok e a0 f0 st k"
    "map_of (summaries st) a = Some s \<Longrightarrow> \<exists>f. fn_at e a0 f0 a = Some f \<and> dependency_summary (fn_ssa f) (env_cc e) = Some s"
    "(r, d) \<in> set (jobs st) \<Longrightarrow> ref_ok st r" "work_done st \<le> lim_work (env_limits e)"
    "length (functions_seen st) \<le> lim_functions (env_limits e)" "length (found_blocks st) \<le> MAX_NODES"
  using assms unfolding env_ok_def by blast+

text \<open>The traversal has moved on, without placing a node.\<close>

definition keeps :: "inter_state \<Rightarrow> inter_state \<Rightarrow> bool" where
  "keeps st st' \<longleftrightarrow> (\<exists>cs. contexts st' = contexts st @ cs) \<and> (\<exists>fs. frames st' = frames st @ fs) \<and>
     map_of (summaries st) \<subseteq>\<^sub>m map_of (summaries st') \<and> (cut st \<longrightarrow> cut st') \<and> set (jobs st) \<subseteq> set (jobs st') \<and>
     found_nodes st' = found_nodes st \<and> visited_refs st' = visited_refs st \<and> inputs_used st' = inputs_used st"

lemma keeps_refl: "keeps st st"
  by (simp add: keeps_def)

lemma keeps_trans: "keeps a b \<Longrightarrow> keeps b c \<Longrightarrow> keeps a c"
  unfolding keeps_def by (elim conjE exE, intro conjI) (auto intro: map_le_trans)

lemma keeps_nth:
  assumes "keeps st st'" "length (frames st) = length (contexts st)" "k < length (contexts st)"
  shows "contexts st' ! k = contexts st ! k" "frames st' ! k = frames st ! k" "k < length (contexts st')"
  using assms by (auto simp: keeps_def nth_append)

lemma ref_ok_keeps: "ref_ok st r \<Longrightarrow> keeps st st' \<Longrightarrow> length (frames st) = length (contexts st) \<Longrightarrow> ref_ok st' r"
  using keeps_nth[of st st' "ref_context r"] by (auto simp: ref_ok_def)

text \<open>Chains of callers do not depend on the bound, nor on later contexts.\<close>

lemma ancestor_functions_stable:
  assumes "\<And>k p. k < length cs \<Longrightarrow> caller_context (cs ! k) = Some p \<Longrightarrow> p < k" "k < length cs" "k < n" "k < n'"
  shows "ancestor_functions n' (cs @ ds) k = ancestor_functions n cs k"
  using assms(2-4)
proof (induction k arbitrary: n n' rule: less_induct)
  case (less k)
  obtain m m' where n: "n = Suc m" "n' = Suc m'" using less.prems by (cases n; cases n') auto
  have c: "vec_get (cs @ ds) k = Some (cs ! k)" "vec_get cs k = Some (cs ! k)" using less.prems(1) by (simp_all add: vec_get_def nth_append)
  show ?case
  proof (cases "caller_context (cs ! k)")
    case None
    then show ?thesis using c n by simp
  next
    case (Some p)
    then have p: "p < k" using assms(1) less.prems(1) by blast
    have "ancestor_functions m' (cs @ ds) p = ancestor_functions m cs p" by (rule less.IH[OF p]) (use p less.prems n in auto)
    then show ?thesis using c n Some by simp
  qed
qed

lemma callers_below:
  assumes "env_ok e a0 f0 st" "k < length (contexts st)" "caller_context (contexts st ! k) = Some p"
  shows "p < k"
  using env_okD(3)[OF assms(1,2)] assms(3) by (cases "k = 0") (auto simp: context_ok_def)

lemma context_ok_keeps:
  assumes "env_ok e a0 f0 st" "keeps st st'" "k < length (contexts st)"
  shows "context_ok e a0 f0 st' k"
proof -
  note len = env_okD(1)[OF assms(1)]
  note nth = keeps_nth[OF assms(2) len]
  from env_okD(3)[OF assms(1,3)] have k: "context_ok e a0 f0 st k" .
  obtain cs where cs: "contexts st' = contexts st @ cs" using assms(2) by (auto simp: keeps_def)
  have "ancestor_functions (length (contexts st')) (contexts st') k = ancestor_functions (length (contexts st)) (contexts st) k"
    unfolding cs by (rule ancestor_functions_stable) (use callers_below[OF assms(1)] assms(3) in auto)
  moreover have "\<exists>p < k. caller_context (contexts st' ! k) = Some p \<and> call_depth (contexts st' ! k) = Suc (call_depth (contexts st' ! p)) \<and>
        entered_by e st' p k" if "0 < k"
  proof -
    from k that obtain p where p: "p < k" "caller_context (contexts st ! k) = Some p"
      "call_depth (contexts st ! k) = Suc (call_depth (contexts st ! p))" "entered_by e st p k" unfolding context_ok_def by blast
    then show ?thesis using nth[OF assms(3)] nth[of p] assms(3) unfolding entered_by_def by auto
  qed
  moreover have "\<forall>(slot, r) \<in> set (caller_arguments (frames st' ! k)). ref_ok st' r"
    using k nth[OF assms(3)] ref_ok_keeps[OF _ assms(2) len] unfolding context_ok_def by auto
  ultimately show ?thesis using k unfolding context_ok_def nth(1,2)[OF assms(3)] by metis
qed

lemma env_ok_keeps:
  assumes "env_ok e a0 f0 st" "keeps st st'" "contexts st' = contexts st" "frames st' = frames st"
    "\<And>a s. map_of (summaries st') a = Some s \<Longrightarrow> \<exists>f. fn_at e a0 f0 a = Some f \<and> dependency_summary (fn_ssa f) (env_cc e) = Some s"
    "\<And>r d. (r, d) \<in> set (jobs st') \<Longrightarrow> ref_ok st r" "work_done st' \<le> lim_work (env_limits e)"
    "length (functions_seen st') \<le> lim_functions (env_limits e)" "length (found_blocks st') \<le> MAX_NODES"
  shows "env_ok e a0 f0 st'"
proof -
  have "context_ok e a0 f0 st' k" if "k < length (contexts st')" for k
    using context_ok_keeps[OF assms(1,2)] that assms(3) by simp
  moreover have "ref_ok st' r" if "(r, d) \<in> set (jobs st')" for r d using assms(6)[OF that] by (simp add: ref_ok_def assms(3,4))
  ultimately show ?thesis using env_okD(1,2)[OF assms(1)] assms unfolding env_ok_def by (intro conjI) auto
qed

lemma charge_fields:
  assumes "charge_work l n st = (ok, st')"
  shows "contexts st' = contexts st" "frames st' = frames st" "summaries st' = summaries st" "jobs st' = jobs st"
    "functions_seen st' = functions_seen st" "found_blocks st' = found_blocks st" "found_nodes st' = found_nodes st"
    "visited_refs st' = visited_refs st" "inputs_used st' = inputs_used st" "cut st' \<longleftrightarrow> cut st \<or> \<not> ok"
    "work_done st \<le> lim_work l \<Longrightarrow> work_done st' \<le> lim_work l"
  using assms by (auto simp: charge_work_def stop_def split: if_splits)

lemma charge_keeps:
  assumes "charge_work (env_limits e) n st = (ok, st')"
  shows "keeps st st'" "env_ok e a0 f0 st \<Longrightarrow> env_ok e a0 f0 st'"
proof -
  show k: "keeps st st'" using charge_fields[OF assms] by (simp add: keeps_def)
  show "env_ok e a0 f0 st'" if "env_ok e a0 f0 st"
    using charge_fields[OF assms] env_okD[OF that] by (intro env_ok_keeps[OF that k]) auto
qed

lemma stop_keeps: "keeps st (stop reason st)" "env_ok e a0 f0 st \<Longrightarrow> env_ok e a0 f0 (stop reason st)"
proof -
  show k: "keeps st (stop reason st)" by (simp add: keeps_def stop_def)
  show "env_ok e a0 f0 (stop reason st)" if "env_ok e a0 f0 st"
    using env_okD[OF that] by (intro env_ok_keeps[OF that k]) (auto simp: stop_def)
qed

lemma flags_keeps: "keeps st (st\<lparr>cut := cut st \<or> b\<rparr>)" "env_ok e a0 f0 st \<Longrightarrow> env_ok e a0 f0 (st\<lparr>cut := b'\<rparr>)"
  "env_ok e a0 f0 st \<Longrightarrow> env_ok e a0 f0 (st\<lparr>stops := ss\<rparr>)" "keeps st (st\<lparr>stops := ss\<rparr>)"
  by (simp_all add: keeps_def env_ok_def context_ok_def ref_ok_def entered_by_def)

definition world_ok :: "inter_env \<Rightarrow> u64 \<Rightarrow> SliceFunction \<Rightarrow> bool" where
  "world_ok e a0 f0 \<longleftrightarrow> (\<forall>a f. fn_at e a0 f0 a = Some f \<longrightarrow> sliceable (fn_ssa f))"

lemma summary_for_spec:
  assumes ok: "env_ok e a0 f0 st" and w: "world_ok e a0 f0" and f: "fn_at e a0 f0 a = Some f"
  shows "\<exists>s st'. summary_for (env_cc e) a (fn_ssa f) st = Some (s, st') \<and> keeps st st' \<and> env_ok e a0 f0 st' \<and>
    map_of (summaries st') a = Some s \<and> contexts st' = contexts st \<and> frames st' = frames st \<and> cut st' = cut st \<and>
    (\<forall>v \<in> set (returns s). unat v < length (vars (fn_ssa f)))"
proof -
  from w f have "sliceable (fn_ssa f)" by (simp add: world_ok_def)
  from dependency_summary_total[OF this] obtain s where
    s: "dependency_summary (fn_ssa f) (env_cc e) = Some s" "\<forall>v \<in> set (returns s). unat v < length (vars (fn_ssa f))" by blast
  show ?thesis
  proof (cases "map_of (summaries st) a")
    case None
    let ?st = "st\<lparr>summaries := map_insert a s (summaries st)\<rparr>"
    have k: "keeps st ?st" using None by (auto simp: keeps_def map_le_def)
    have "env_ok e a0 f0 ?st" using env_okD[OF ok] s(1) f by (intro env_ok_keeps[OF ok k]) (auto split: if_splits)
    then show ?thesis using None s k by (simp add: summary_for_def)
  next
    case (Some s')
    then have "s' = s" using env_okD(4)[OF ok Some] f s(1) by auto
    then show ?thesis using Some s ok by (simp add: summary_for_def keeps_refl)
  qed
qed

lemma add_block_keeps:
  assumes "env_ok e a0 f0 st"
  shows "keeps st (add_block c b st) \<and> env_ok e a0 f0 (add_block c b st)"
proof -
  have k: "keeps st (add_block c b st)" by (auto simp: keeps_def add_block_def stop_def Let_def)
  moreover have "env_ok e a0 f0 (add_block c b st)"
  proof -
    let ?st = "add_block c b st"
    have "contexts ?st = contexts st" "frames ?st = frames st" "summaries ?st = summaries st" "jobs ?st = jobs st"
      "work_done ?st = work_done st" "functions_seen ?st = functions_seen st"
      "length (found_blocks st) \<le> MAX_NODES \<Longrightarrow> length (found_blocks ?st) \<le> MAX_NODES"
      by (simp_all add: add_block_def stop_def Let_def)
    then show ?thesis using env_okD[OF assms] by (intro env_ok_keeps[OF assms k]) auto
  qed
  ultimately show ?thesis by blast
qed

lemma add_blocks_keeps: "env_ok e a0 f0 st \<Longrightarrow> keeps st (fold (add_block c) bs st) \<and> env_ok e a0 f0 (fold (add_block c) bs st)"
proof (induction bs arbitrary: st)
  case (Cons b bs)
  then show ?case using add_block_keeps[OF Cons.prems, of c b] keeps_trans by fastforce
qed (simp add: keeps_refl)

subsection \<open>Parameters and calls\<close>

definition same_node :: "Node \<Rightarrow> Node \<Rightarrow> bool" where
  "same_node n n' \<longleftrightarrow> node_context n' = node_context n \<and> node_function n' = node_function n \<and>
     node_var (local_node n') = node_var (local_node n) \<and> node_depth (local_node n') = node_depth (local_node n)"

lemma bind_parameter_spec:
  assumes ok: "env_ok e a0 f0 st" and k: "node_context n < length (contexts st)" and l: "links n = []"
  shows "\<exists>n' st'. bind_parameter slot n st = Some (n', st') \<and> keeps st st' \<and> env_ok e a0 f0 st' \<and> same_node n n' \<and>
    length (inputs (local_node n')) \<le> length (inputs (local_node n)) \<and>
    (node_boundary (local_node n') = None \<longrightarrow> inputs (local_node n') = [] \<and> (\<exists>actual. map_of (caller_arguments (frames st ! node_context n)) slot = Some actual \<and>
       map link_target (links n') = [actual]))"
proof -
  have f: "vec_get (frames st) (node_context n) = Some (frames st ! node_context n)" using k env_okD(1)[OF ok] by (simp add: vec_get_at)
  show ?thesis
  proof (cases "map_of (caller_arguments (frames st ! node_context n)) slot")
    case None
    then show ?thesis using f ok by (auto simp: bind_parameter_def set_boundary_def same_node_def keeps_refl)
  next
    case (Some actual)
    let ?st = "st\<lparr>jobs := jobs st @ [(actual, node_depth (local_node n) + 1)]\<rparr>"
    have "ref_ok st actual" using env_okD(3)[OF ok k] map_of_SomeD[OF Some] unfolding context_ok_def by blast
    then have "env_ok e a0 f0 ?st" using env_okD[OF ok] by (intro env_ok_keeps[OF ok]) (auto simp: keeps_def)
    moreover have "keeps st ?st" by (auto simp: keeps_def)
    ultimately show ?thesis using f Some l by (auto simp: bind_parameter_def same_node_def link_to_def)
  qed
qed

definition call_linked :: "inter_state \<Rightarrow> DependencyCall \<Rightarrow> Node \<Rightarrow> bool" where
  "call_linked st c n \<longleftrightarrow> (\<exists>j s. j < length (contexts st) \<and> caller_context (contexts st ! j) = Some (node_context n) \<and>
     context_origin (contexts st ! j) = Some (call_origin c) \<and> target_address c = Some (context_function (contexts st ! j)) \<and>
     map_of (summaries st) (context_function (contexts st ! j)) = Some s \<and> \<not> unsupported_side_effects s \<and> returns s \<noteq> [] \<and>
     map link_target (links n) = map (\<lambda>v. \<lparr>ref_context = j, ref_var = v\<rparr>) (returns s))"

lemma push_context_spec:
  assumes ok: "env_ok e a0 f0 st" and n: "node_context n < length (contexts st)" "links n = []"
    and as: "ancestor_functions (length (contexts st)) (contexts st) (node_context n) = Some as" "target \<notin> set as"
    and t: "fn_at e a0 f0 target = Some f"
    and s: "map_of (summaries st) target = Some sm" "\<forall>v \<in> set (returns sm). unat v < length (vars (fn_ssa f))"
    and c: "dependency_call (fn_ssa (fn_of st (node_context n))) x (env_cc e) (env_imports e) (fn_operation (fn_of st (node_context n))) = Some (Inr call)"
      "target_address call = Some target" "\<forall>(m, i) \<in> set (arguments call). unat i < length (vars (fn_ssa (fn_of st (node_context n))))"
    and d: "d = Suc (call_depth (contexts st ! node_context n))" "d \<le> lim_call_depth (env_limits e)" "length (contexts st) < lim_nodes (env_limits e)"
    and p: "push_context target f call d sm n st = (n', st')"
  shows "keeps st st' \<and> env_ok e a0 f0 st' \<and> same_node n n' \<and> local_node n' = local_node n \<and>
    (\<not> unsupported_side_effects sm \<longrightarrow> returns sm \<noteq> [] \<longrightarrow> call_linked st' call n')"
proof -
  let ?k = "node_context n" and ?i = "length (contexts st)"
  let ?c = "\<lparr>context_number = ?i, context_function = target, caller_context = Some ?k, context_origin = Some (call_origin call), call_depth = d\<rparr>"
  let ?f = "\<lparr>frame_function = f, caller_arguments = map (\<lambda>(slot, v). (slot, \<lparr>ref_context = ?k, ref_var = v\<rparr>)) (arguments call)\<rparr>"
  let ?rets = "map (\<lambda>v. \<lparr>ref_context = ?i, ref_var = v\<rparr>) (returns sm)"
  have st': "st' = st\<lparr>contexts := contexts st @ [?c], frames := frames st @ [?f],
      jobs := jobs st @ map (\<lambda>r. (r, node_depth (local_node n) + 1)) ?rets\<rparr>"
    and n': "n' = n\<lparr>links := map (link_to ''call_return'') ?rets\<rparr>"
    using p n(2) by (simp_all add: push_context_def Let_def)
  note len = env_okD(1)[OF ok]
  have keeps: "keeps st st'" by (auto simp: keeps_def st')
  note nth = keeps_nth[OF keeps len]
  have new: "contexts st' ! ?i = ?c" "frames st' ! ?i = ?f" "length (contexts st') = Suc ?i" "length (frames st') = Suc ?i"
    using len by (simp_all add: st' nth_append)
  have args: "\<forall>(slot, r) \<in> set (caller_arguments ?f). ref_ok st' r"
    using c(3) n(1) nth[OF n(1)] by (fastforce simp: ref_ok_def)
  have anc: "ancestor_functions ?i (contexts st') ?k = Some as"
    using ancestor_functions_stable[OF callers_below[OF ok] n(1) n(1) n(1), of "[?c]"] as(1) by (simp add: st')
  have "context_ok e a0 f0 st ?k" using env_okD(3)[OF ok n(1)] .
  then have das: "distinct as" "a0 \<in> set as" using as(1) by (auto simp: context_ok_def)
  have vg: "vec_get (contexts st') ?i = Some ?c" using new(1,3) by (simp add: vec_get_at)
  have "ancestor_functions (length (contexts st')) (contexts st') ?i = Some (target # as)" using vg anc by (simp add: new(3))
  moreover have "entered_by e st' ?k ?i"
    unfolding entered_by_def new nth[OF n(1)] using c(1,2) by auto
  ultimately have "context_ok e a0 f0 st' ?i"
    using n(1) d(1,2) t args das as(2) nth[OF n(1)] unfolding context_ok_def new by auto
  then have ctx: "context_ok e a0 f0 st' j" if "j < length (contexts st')" for j
    using context_ok_keeps[OF ok keeps, of j] that new(3) by (cases "j = ?i") auto
  have rets: "ref_ok st' r" if "r \<in> set ?rets" for r using that s(2) new by (auto simp: ref_ok_def)
  have "ref_ok st' r" if j: "(r, q) \<in> set (jobs st')" for r q
  proof -
    from j have "(r, q) \<in> set (jobs st) \<or> r \<in> set ?rets" by (auto simp: st')
    then show ?thesis using rets ref_ok_keeps[OF env_okD(5)[OF ok] keeps len] by blast
  qed
  then have "env_ok e a0 f0 st'"
    using ctx new(3,4) d(3) env_okD(4,6-8)[OF ok] unfolding env_ok_def by (intro conjI) (auto simp: st')
  moreover have "call_linked st' call n'" if "\<not> unsupported_side_effects sm" "returns sm \<noteq> []"
    unfolding call_linked_def using that new s(1) c(2) by (intro exI[of _ ?i] exI[of _ sm]) (simp add: n' st' link_to_def)
  ultimately show ?thesis using keeps by (simp add: n' same_node_def)
qed

lemma call_refusal_None:
  assumes "call_refusal l call d ancestors st = None"
  shows "\<exists>target. target_address call = Some target \<and> target \<notin> set ancestors \<and> d \<le> lim_call_depth l"
  using assms by (cases "target_address call") (auto simp: call_refusal_def split: if_splits)

lemma enter_callee_spec:
  assumes ok: "env_ok e a0 f0 st" and w: "world_ok e a0 f0" and n: "node_context n < length (contexts st)" "links n = []"
    and as: "ancestor_functions (length (contexts st)) (contexts st) (node_context n) = Some as" "target \<notin> set as" "a0 \<in> set as"
    and c: "dependency_call (fn_ssa (fn_of st (node_context n))) x (env_cc e) (env_imports e) (fn_operation (fn_of st (node_context n))) = Some (Inr call)"
      "target_address call = Some target" "\<forall>(m, i) \<in> set (arguments call). unat i < length (vars (fn_ssa (fn_of st (node_context n))))"
    and d: "d = Suc (call_depth (contexts st ! node_context n))" "d \<le> lim_call_depth (env_limits e)"
  shows "\<exists>reason n' st'. enter_callee e target call d n st = Some (reason, n', st') \<and> keeps st st' \<and> env_ok e a0 f0 st' \<and> same_node n n' \<and>
    local_node n' = local_node n \<and> (reason = None \<longrightarrow> call_linked st' call n')"
proof -
  let ?l = "env_limits e"
  have refl: "same_node n n" by (simp add: same_node_def)
  show ?thesis
  proof (cases "target \<notin> set (functions_seen st) \<and> lim_functions ?l \<le> length (functions_seen st)")
    case True
    then show ?thesis using ok refl by (simp add: enter_callee_def Let_def keeps_refl)
  next
    case room: False
    obtain ok1 st1 where c1: "charge_work ?l 1 st = (ok1, st1)" by fastforce
    note f1 = charge_fields[OF c1] and k1 = charge_keeps[OF c1]
    show ?thesis
    proof (cases ok1)
      case False
      then show ?thesis using c1 k1(1) k1(2)[OF ok] refl room by (auto simp: enter_callee_def Let_def)
    next
      case True
      let ?st2 = "st1\<lparr>functions_seen := List.insert target (functions_seen st1)\<rparr>"
      have k2: "keeps st1 ?st2" by (simp add: keeps_def)
      have "length (List.insert target (functions_seen st1)) \<le> lim_functions ?l"
        using room env_okD(7)[OF ok] f1(5) by (auto simp: List.insert_def)
      then have ok2: "env_ok e a0 f0 ?st2" using env_okD[OF k1(2)[OF ok]] by (intro env_ok_keeps[OF k1(2)[OF ok] k2]) auto
      have k02: "keeps st ?st2" by (rule keeps_trans[OF k1(1) k2])
      show ?thesis
      proof (cases "env_load e target")
        case (Inl err)
        let ?st3 = "?st2\<lparr>stops := stops ?st2 @ [err]\<rparr>"
        have "keeps st ?st3" by (rule keeps_trans[OF k02 flags_keeps(4)])
        moreover have "env_ok e a0 f0 ?st3" by (rule flags_keeps(3)[OF ok2])
        ultimately show ?thesis using c1 True room Inl refl by (auto simp: enter_callee_def Let_def)
      next
        case (Inr f)
        have t: "fn_at e a0 f0 target = Some f" using Inr as(2,3) by (auto simp: fn_at_def)
        obtain ok3 st3 where c3: "charge_work ?l (scan_cost (fn_ssa f)) ?st2 = (ok3, st3)" by fastforce
        note f3 = charge_fields[OF c3] and k3 = charge_keeps[OF c3]
        have k03: "keeps st st3" by (rule keeps_trans[OF k02 k3(1)])
        show ?thesis
        proof (cases ok3)
          case False
          then show ?thesis using c1 True room Inr c3 k03 k3(2)[OF ok2] refl by (auto simp: enter_callee_def Let_def)
        next
          case ok3: True
          from summary_for_spec[OF k3(2)[OF ok2] w t] obtain s st4 where
            s: "summary_for (env_cc e) target (fn_ssa f) st3 = Some (s, st4)" "keeps st3 st4" "env_ok e a0 f0 st4"
              "map_of (summaries st4) target = Some s" "contexts st4 = contexts st3" "frames st4 = frames st3"
              "\<forall>v \<in> set (returns s). unat v < length (vars (fn_ssa f))" by blast
          have k04: "keeps st st4" by (rule keeps_trans[OF k03 s(2)])
          have same: "contexts st4 = contexts st" "frames st4 = frames st" using s(5,6) f3(1,2) f1(1,2) by simp_all
          have step: "enter_callee e target call d n st = (case summary_refusal ?l s st4 of
              Some reason \<Rightarrow> Some (Some reason, n, st4) | None \<Rightarrow> Some (None, push_context target f call d s n st4))"
            using c1 True room Inr c3 ok3 s(1) by (auto simp: enter_callee_def Let_def)
          show ?thesis
          proof (cases "summary_refusal ?l s st4")
            case (Some reason)
            then show ?thesis using step k04 s(3) refl by auto
          next
            case None
            then have r: "\<not> unsupported_side_effects s" "returns s \<noteq> []" "length (contexts st4) < lim_nodes ?l"
              by (auto simp: summary_refusal_def split: if_splits)
            obtain n' st' where p: "push_context target f call d s n st4 = (n', st')" by fastforce
            from push_context_spec[OF s(3) _ n(2) _ as(2) t s(4,7) _ c(2) _ _ d(2) r(3) p] n(1) as(1) c(1,3) d(1)
            have "keeps st4 st' \<and> env_ok e a0 f0 st' \<and> same_node n n' \<and> local_node n' = local_node n \<and> call_linked st' call n'"
              using r(1,2) unfolding same by blast
            then show ?thesis using step None p keeps_trans[OF k04] by auto
          qed
        qed
      qed
    qed
  qed
qed

text \<open>The node is what the call returns.\<close>

definition node_call_is :: "inter_env \<Rightarrow> inter_state \<Rightarrow> Node \<Rightarrow> DependencyCall \<Rightarrow> bool" where
  "node_call_is e st n c \<longleftrightarrow> dependency_call (fn_ssa (fn_of st (node_context n))) (node_var (local_node n)) (env_cc e) (env_imports e)
     (fn_operation (fn_of st (node_context n))) = Some (Inr c)"

lemma follow_call_spec:
  assumes ok: "env_ok e a0 f0 st" and w: "world_ok e a0 f0" and n: "node_context n < length (contexts st)" "links n = []"
    and v: "unat (node_var (local_node n)) < length (vars (fn_ssa (fn_of st (node_context n))))"
  shows "\<exists>n' st'. follow_call e n st = Some (n', st') \<and> keeps st st' \<and> env_ok e a0 f0 st' \<and> same_node n n' \<and>
    inputs (local_node n') = inputs (local_node n) \<and> (node_boundary (local_node n') = None \<longrightarrow> (\<exists>c. node_call n' = Some c \<and> node_call_is e st n c \<and> call_linked st' c n'))"
proof -
  let ?k = "node_context n" and ?l = "env_limits e"
  let ?f = "fn_of st ?k"
  have k: "vec_get (frames st) ?k = Some (frames st ! ?k)" "vec_get (contexts st) ?k = Some (contexts st ! ?k)"
    using n(1) env_okD(1)[OF ok] by (simp_all add: vec_get_at)
  from env_okD(3)[OF ok n(1)] obtain as where as: "ancestor_functions (length (contexts st)) (contexts st) ?k = Some as" "a0 \<in> set as"
    and f: "fn_at e a0 f0 (context_function (contexts st ! ?k)) = Some ?f" unfolding context_ok_def by blast
  from f w have "sliceable (fn_ssa ?f)" by (simp add: world_ok_def)
  from dependency_call_total[OF this v, of "env_cc e" "env_imports e" "fn_operation ?f"] obtain r where
    r: "dependency_call (fn_ssa ?f) (node_var (local_node n)) (env_cc e) (env_imports e) (fn_operation ?f) = Some r"
      "\<And>c. r = Inr c \<Longrightarrow> \<forall>(m, i) \<in> set (arguments c). unat i < length (vars (fn_ssa ?f))" by blast
  show ?thesis
  proof (cases r)
    case (Inl reason)
    then show ?thesis using r k ok by (auto simp: follow_call_def Let_def set_boundary_def same_node_def keeps_refl)
  next
    case (Inr call)
    let ?d = "call_depth (contexts st ! ?k) + 1"
    let ?step = "\<lambda>(reason, m, st'). Some ((set_boundary reason m)\<lparr>node_call := Some call\<rparr>, if is_limit reason then st'\<lparr>cut := True\<rparr> else st')"
    have fold: "follow_call e n st = Option.bind (case (call_refusal ?l call ?d as st, target_address call) of
             (None, Some target) \<Rightarrow> enter_callee e target call ?d n st
           | (reason, _) \<Rightarrow> Some (reason, n, st)) ?step"
      using k as(1) r(1) Inr by (simp add: follow_call_def Let_def)
    have fin: "\<exists>n' st''. ?step (reason, m, st') = Some (n', st'') \<and> keeps st st'' \<and> env_ok e a0 f0 st'' \<and> same_node n n' \<and>
        inputs (local_node n') = inputs (local_node n) \<and> (node_boundary (local_node n') = None \<longrightarrow> (\<exists>c. node_call n' = Some c \<and> node_call_is e st n c \<and> call_linked st'' c n'))"
      if "keeps st st'" "env_ok e a0 f0 st'" "same_node n m" "local_node m = local_node n" "reason = None \<longrightarrow> call_linked st' call m" for reason m st'
    proof -
      have "keeps st (st'\<lparr>cut := True\<rparr>)" using keeps_trans[OF that(1) flags_keeps(1)[of st' True]] by simp
      moreover have "call_linked (st'\<lparr>cut := True\<rparr>) call m = call_linked st' call m" "call_linked (st'\<lparr>cut := True\<rparr>) call ((set_boundary reason m)\<lparr>node_call := Some call\<rparr>) = call_linked st' call m"
        "call_linked st' call ((set_boundary reason m)\<lparr>node_call := Some call\<rparr>) = call_linked st' call m"
        by (simp_all add: call_linked_def set_boundary_def)
      ultimately show ?thesis using that flags_keeps(2)[OF that(2), of True] r(1) Inr by (auto simp: set_boundary_def same_node_def node_call_is_def)
    qed
    show ?thesis
    proof (cases "call_refusal ?l call ?d as st")
      case (Some reason)
      have "\<exists>n' st''. ?step (Some reason, n, st) = Some (n', st'') \<and> keeps st st'' \<and> env_ok e a0 f0 st'' \<and> same_node n n' \<and>
        inputs (local_node n') = inputs (local_node n) \<and> (node_boundary (local_node n') = None \<longrightarrow> (\<exists>c. node_call n' = Some c \<and> node_call_is e st n c \<and> call_linked st'' c n'))"
        by (rule fin) (use ok in \<open>simp_all add: keeps_refl same_node_def\<close>)
      then show ?thesis using fold Some by simp
    next
      case None
      from call_refusal_None[OF None] obtain target where t: "target_address call = Some target" "target \<notin> set as" "?d \<le> lim_call_depth ?l" by blast
      from enter_callee_spec[OF ok w n as(1) t(2) as(2) r(1)[unfolded Inr] t(1) r(2)[OF Inr] _ t(3)] obtain reason m st' where
        m: "enter_callee e target call ?d n st = Some (reason, m, st')" "keeps st st'" "env_ok e a0 f0 st'" "same_node n m"
          "local_node m = local_node n" "reason = None \<longrightarrow> call_linked st' call m" by auto
      from fin[OF m(2-6)] show ?thesis using fold None t(1) m(1) by simp
    qed
  qed
qed

end
