(* ===== verification/InterprocRun.thy ===== *)
theory InterprocRun
  imports InterprocInv
begin

text \<open>
  The nodes of the traversal across calls: what each of them records of its dependencies,
  and that placing nodes, running jobs and the loop keep this, within the limits and
  without a panic.
\<close>

subsection \<open>What a node records\<close>

definition boundary_in :: "SsaCfg \<Rightarrow> VarId \<Rightarrow> string option \<Rightarrow> bool" where
  "boundary_in ssa i b \<longleftrightarrow> (\<exists>v. vec_get (vars ssa) (unat i) = Some v \<and> boundary_of (collect_sites ssa) i v = b)"

text \<open>The dependencies of the definition itself, which is neither the result of a call nor another boundary.\<close>

definition plain_followed :: "inter_env \<Rightarrow> u64 \<Rightarrow> SliceFunction \<Rightarrow> Context list \<Rightarrow> Node \<Rightarrow> bool" where
  "plain_followed e a0 f0 cs n \<longleftrightarrow> links n = [] \<and>
     (\<exists>f s. fn_at e a0 f0 (context_function (cs ! node_context n)) = Some f \<and> dependency_summary (fn_ssa f) (env_cc e) = Some s \<and>
        (node_context n = 0 \<or> map_of (parameters s) (node_var (local_node n)) = None) \<and>
        boundary_in (fn_ssa f) (node_var (local_node n)) None \<and>
        map input_var (inputs (local_node n)) = deps_in (vars (fn_ssa f)) (node_var (local_node n)))"

text \<open>The argument of the call that entered the node's context, a value of the caller.\<close>

definition argument_followed :: "inter_env \<Rightarrow> u64 \<Rightarrow> SliceFunction \<Rightarrow> Context list \<Rightarrow> Node \<Rightarrow> bool" where
  "argument_followed e a0 f0 cs n \<longleftrightarrow> inputs (local_node n) = [] \<and>
     (\<exists>f s p g x c slot v. fn_at e a0 f0 (context_function (cs ! node_context n)) = Some f \<and> dependency_summary (fn_ssa f) (env_cc e) = Some s \<and>
        map_of (parameters s) (node_var (local_node n)) = Some slot \<and>
        p < length cs \<and> caller_context (cs ! node_context n) = Some p \<and> fn_at e a0 f0 (context_function (cs ! p)) = Some g \<and>
        dependency_call (fn_ssa g) x (env_cc e) (env_imports e) (fn_operation g) = Some (Inr c) \<and>
        context_origin (cs ! node_context n) = Some (call_origin c) \<and> target_address c = Some (context_function (cs ! node_context n)) \<and>
        map_of (arguments c) slot = Some v \<and> map link_target (links n) = [\<lparr>ref_context = p, ref_var = v\<rparr>])"

text \<open>The results of the function that the node's call enters, in a context of their own.\<close>

definition call_followed :: "inter_env \<Rightarrow> u64 \<Rightarrow> SliceFunction \<Rightarrow> Context list \<Rightarrow> Node \<Rightarrow> bool" where
  "call_followed e a0 f0 cs n \<longleftrightarrow>
     (\<exists>f c j g s. fn_at e a0 f0 (context_function (cs ! node_context n)) = Some f \<and> node_call n = Some c \<and>
        boundary_in (fn_ssa f) (node_var (local_node n)) (Some ''unmodeled_call'') \<and>
        dependency_call (fn_ssa f) (node_var (local_node n)) (env_cc e) (env_imports e) (fn_operation f) = Some (Inr c) \<and>
        map input_var (inputs (local_node n)) = deps_in (vars (fn_ssa f)) (node_var (local_node n)) \<and>
        j < length cs \<and> caller_context (cs ! j) = Some (node_context n) \<and> context_origin (cs ! j) = Some (call_origin c) \<and>
        target_address c = Some (context_function (cs ! j)) \<and> fn_at e a0 f0 (context_function (cs ! j)) = Some g \<and>
        dependency_summary (fn_ssa g) (env_cc e) = Some s \<and> \<not> unsupported_side_effects s \<and> returns s \<noteq> [] \<and>
        map link_target (links n) = map (\<lambda>v. \<lparr>ref_context = j, ref_var = v\<rparr>) (returns s))"

definition followed :: "inter_env \<Rightarrow> u64 \<Rightarrow> SliceFunction \<Rightarrow> Context list \<Rightarrow> Node \<Rightarrow> bool" where
  "followed e a0 f0 cs n \<longleftrightarrow> plain_followed e a0 f0 cs n \<or> argument_followed e a0 f0 cs n \<or> call_followed e a0 f0 cs n"

lemma followed_append:
  "followed e a0 f0 cs n \<Longrightarrow> node_context n < length cs \<Longrightarrow> followed e a0 f0 (cs @ ds) n"
  unfolding followed_def plain_followed_def argument_followed_def call_followed_def
  by (elim disjE conjE exE) (rule disjI1; fastforce simp: nth_append | rule disjI2; rule disjI1; fastforce simp: nth_append | rule disjI2; rule disjI2; fastforce simp: nth_append)+

definition node_ref :: "Node \<Rightarrow> Reference" where
  "node_ref n = \<lparr>ref_context = node_context n, ref_var = node_var (local_node n)\<rparr>"

text \<open>Where nothing was cut off, a node without a boundary has its dependencies.\<close>

definition node_inv :: "inter_env \<Rightarrow> u64 \<Rightarrow> SliceFunction \<Rightarrow> inter_state \<Rightarrow> Node \<Rightarrow> bool" where
  "node_inv e a0 f0 st n \<longleftrightarrow> node_context n < length (contexts st) \<and>
     node_function n = context_function (contexts st ! node_context n) \<and> node_depth (local_node n) \<le> lim_depth (env_limits e) \<and>
     (\<not> cut st \<longrightarrow> node_boundary (local_node n) = None \<longrightarrow> followed e a0 f0 (contexts st) n)"

subsection \<open>Later states\<close>

definition moves_on :: "inter_state \<Rightarrow> inter_state \<Rightarrow> bool" where
  "moves_on st st' \<longleftrightarrow> (\<exists>cs. contexts st' = contexts st @ cs) \<and> (\<exists>fs. frames st' = frames st @ fs) \<and>
     map_of (summaries st) \<subseteq>\<^sub>m map_of (summaries st') \<and> (cut st \<longrightarrow> cut st') \<and> set (jobs st) \<subseteq> set (jobs st') \<and>
     set (visited_refs st) \<subseteq> set (visited_refs st')"

lemma moves_on_refl: "moves_on st st"
  by (simp add: moves_on_def)

lemma moves_on_trans: "moves_on a b \<Longrightarrow> moves_on b c \<Longrightarrow> moves_on a c"
  unfolding moves_on_def by (elim conjE exE, intro conjI) (auto intro: map_le_trans)

lemma keeps_moves_on: "keeps a b \<Longrightarrow> moves_on a b"
  by (simp add: keeps_def moves_on_def)

lemma moves_on_nth:
  assumes "moves_on st st'" "length (frames st) = length (contexts st)" "k < length (contexts st)"
  shows "contexts st' ! k = contexts st ! k" "frames st' ! k = frames st ! k" "k < length (contexts st')"
  using assms by (auto simp: moves_on_def nth_append)

lemma node_inv_moves_on: "node_inv e a0 f0 st n \<Longrightarrow> moves_on st st' \<Longrightarrow> node_inv e a0 f0 st' n"
  using followed_append[of e a0 f0 "contexts st" n] by (auto simp: node_inv_def moves_on_def nth_append)

lemma env_ok_fields [simp]:
  "env_ok e a0 f0 (st\<lparr>found_nodes := ns\<rparr>) = env_ok e a0 f0 st" "env_ok e a0 f0 (st\<lparr>inputs_used := i\<rparr>) = env_ok e a0 f0 st"
  "env_ok e a0 f0 (st\<lparr>visited_refs := rs\<rparr>) = env_ok e a0 f0 st"
  "env_ok e a0 f0 (st\<lparr>inputs_used := i, found_nodes := ns\<rparr>) = env_ok e a0 f0 st"
  "env_ok e a0 f0 (st\<lparr>found_nodes := ns, inputs_used := i\<rparr>) = env_ok e a0 f0 st"
  by (simp_all add: env_ok_def context_ok_def ref_ok_def entered_by_def)

subsection \<open>Placing a node\<close>

definition places :: "inter_env \<Rightarrow> u64 \<Rightarrow> SliceFunction \<Rightarrow> inter_state \<Rightarrow> inter_state \<Rightarrow> Node \<Rightarrow> bool" where
  "places e a0 f0 st st' n \<longleftrightarrow> moves_on st st' \<and> env_ok e a0 f0 st' \<and> found_nodes st' = found_nodes st @ [n] \<and>
     visited_refs st' = visited_refs st \<and> inputs_used st' \<le> MAX_INPUTS \<and>
     inputs_used st + length (inputs (local_node n)) + length (links n) \<le> inputs_used st'"

lemma finish_node_spec:
  assumes ok: "env_ok e a0 f0 st" and used: "inputs_used st \<le> MAX_INPUTS"
  shows "\<exists>n'. same_node n n' \<and> inputs (local_node n') = inputs (local_node n) \<and> moves_on st (finish_node e n st) \<and>
    env_ok e a0 f0 (finish_node e n st) \<and> contexts (finish_node e n st) = contexts st \<and>
    found_nodes (finish_node e n st) = found_nodes st @ [n'] \<and> visited_refs (finish_node e n st) = visited_refs st \<and>
    inputs_used (finish_node e n st) = inputs_used st + length (links n') \<and> inputs_used (finish_node e n st) \<le> MAX_INPUTS \<and>
    (cut (finish_node e n st) \<or> n' = n)"
proof -
  obtain ok1 st1 where c: "charge_work (env_limits e) (length (links n)) st = (ok1, st1)" by fastforce
  note f = charge_fields[OF c] and k = charge_keeps[OF c]
  let ?n = "if ok1 then n else set_boundary (Some ''traversal_work_limit'') n"
  let ?room = "MAX_INPUTS - inputs_used st"
  have n: "links ?n = links n" "same_node n ?n" "inputs (local_node ?n) = inputs (local_node n)" "ok1 \<Longrightarrow> ?n = n"
    by (simp_all add: set_boundary_def same_node_def)
  show ?thesis
  proof (cases "?room < length (links n)")
    case True
    let ?m = "(set_boundary (Some ''input_limit'') ?n)\<lparr>links := take ?room (links n)\<rparr>"
    let ?st = "st1\<lparr>cut := True, inputs_used := inputs_used st1 + length (links ?m), found_nodes := found_nodes st1 @ [?m]\<rparr>"
    have "finish_node e n st = ?st" using c True f(9) n(1) by (simp add: finish_node_def Let_def)
    moreover have "moves_on st ?st" using keeps_moves_on[OF k(1)] by (simp add: moves_on_def)
    moreover have "env_ok e a0 f0 ?st" using flags_keeps(2)[OF k(2)[OF ok], of True] by simp
    moreover have "same_node n ?m \<and> inputs (local_node ?m) = inputs (local_node n)" by (simp add: set_boundary_def same_node_def)
    ultimately show ?thesis using f(1,7-9) True used by (intro exI[of _ ?m]) simp
  next
    case False
    let ?st = "st1\<lparr>inputs_used := inputs_used st1 + length (links ?n), found_nodes := found_nodes st1 @ [?n]\<rparr>"
    have "finish_node e n st = ?st" using c False f(9) n(1) by (simp add: finish_node_def Let_def)
    moreover have "moves_on st ?st" using keeps_moves_on[OF k(1)] by (simp add: moves_on_def)
    moreover have "env_ok e a0 f0 ?st" using k(2)[OF ok] by simp
    ultimately show ?thesis using f(1,7-10) False used n by (intro exI[of _ ?n]) auto
  qed
qed

text \<open>A node in one of the three ways it is completed.\<close>

lemma argument_bound:
  assumes ok: "env_ok e a0 f0 st" and k: "node_context n < length (contexts st)" "node_context n \<noteq> 0"
    and s: "map_of (summaries st) (context_function (contexts st ! node_context n)) = Some s" "map_of (parameters s) (node_var (local_node n)) = Some slot"
    and a: "map_of (caller_arguments (frames st ! node_context n)) slot = Some actual" "map link_target (links n) = [actual]" "inputs (local_node n) = []"
  shows "argument_followed e a0 f0 (contexts st) n"
proof -
  let ?k = "node_context n"
  have ck: "context_ok e a0 f0 st ?k" using env_okD(3)[OF ok k(1)] .
  then obtain p where p: "p < ?k" "caller_context (contexts st ! ?k) = Some p" "entered_by e st p ?k" and f: "fn_at e a0 f0 (context_function (contexts st ! ?k)) = Some (fn_of st ?k)"
    using k(2) by (auto simp: context_ok_def)
  have g: "fn_at e a0 f0 (context_function (contexts st ! p)) = Some (fn_of st p)"
    using env_okD(3)[OF ok less_trans[OF p(1) k(1)]] by (simp add: context_ok_def)
  have s': "dependency_summary (fn_ssa (fn_of st ?k)) (env_cc e) = Some s" using env_okD(4)[OF ok s(1)] f by auto
  from p(3) obtain x c where c: "dependency_call (fn_ssa (fn_of st p)) x (env_cc e) (env_imports e) (fn_operation (fn_of st p)) = Some (Inr c)"
    "context_origin (contexts st ! ?k) = Some (call_origin c)" "target_address c = Some (context_function (contexts st ! ?k))"
    "caller_arguments (frames st ! ?k) = map (\<lambda>(slot, v). (slot, \<lparr>ref_context = p, ref_var = v\<rparr>)) (arguments c)"
    unfolding entered_by_def by blast
  have "map_of (map (\<lambda>(slot, v). (slot, \<lparr>ref_context = p, ref_var = v\<rparr>)) (arguments c)) slot
      = map_option (\<lambda>v. \<lparr>ref_context = p, ref_var = v\<rparr>) (map_of (arguments c) slot)" by (simp add: map_of_map)
  then obtain v where v: "map_of (arguments c) slot = Some v" "actual = \<lparr>ref_context = p, ref_var = v\<rparr>"
    using a(1) c(4) by auto
  show ?thesis
    unfolding argument_followed_def using f s' s(2) p(1,2) k(1) g c(1-3) v a(2,3)
    by (intro conjI exI[of _ "fn_of st ?k"] exI[of _ s] exI[of _ p] exI[of _ "fn_of st p"] exI[of _ x] exI[of _ c] exI[of _ slot] exI[of _ v]) auto
qed

lemma call_entered:
  assumes ok: "env_ok e a0 f0 st" "env_ok e a0 f0 st'" "keeps st st'" and k: "node_context n < length (contexts st)"
    and same: "same_node n n'" "inputs (local_node n') = inputs (local_node n)"
    and i: "map input_var (inputs (local_node n)) = deps_in (vars (fn_ssa (fn_of st (node_context n)))) (node_var (local_node n))"
    and b: "boundary_in (fn_ssa (fn_of st (node_context n))) (node_var (local_node n)) (Some ''unmodeled_call'')"
    and c: "node_call n' = Some c" "node_call_is e st n c" "call_linked st' c n'"
  shows "call_followed e a0 f0 (contexts st') n'"
proof -
  have f: "fn_at e a0 f0 (context_function (contexts st' ! node_context n)) = Some (fn_of st (node_context n))"
    using env_okD(3)[OF ok(1) k] keeps_nth(1)[OF ok(3) env_okD(1)[OF ok(1)] k] by (simp add: context_ok_def)
  from c(3) obtain j s where j: "j < length (contexts st')" "caller_context (contexts st' ! j) = Some (node_context n')"
     "context_origin (contexts st' ! j) = Some (call_origin c)" "target_address c = Some (context_function (contexts st' ! j))"
     "map_of (summaries st') (context_function (contexts st' ! j)) = Some s" "\<not> unsupported_side_effects s" "returns s \<noteq> []"
     "map link_target (links n') = map (\<lambda>v. \<lparr>ref_context = j, ref_var = v\<rparr>) (returns s)" unfolding call_linked_def by blast
  from env_okD(4)[OF ok(2) j(5)] obtain g where "fn_at e a0 f0 (context_function (contexts st' ! j)) = Some g"
    "dependency_summary (fn_ssa g) (env_cc e) = Some s" by blast
  then show ?thesis
    unfolding call_followed_def using f b c(1,2) same i j
    by (intro exI[of _ "fn_of st (node_context n)"] exI[of _ c] exI[of _ j] exI[of _ g] exI[of _ s]) (simp add: same_node_def node_call_is_def)
qed

lemma complete_node_spec:
  assumes ok: "env_ok e a0 f0 st" and w: "world_ok e a0 f0" and k: "node_context n < length (contexts st)" and l: "links n = []"
    and v: "unat (node_var (local_node n)) < length (vars (fn_ssa (fn_of st (node_context n))))"
    and s: "map_of (summaries st) (context_function (contexts st ! node_context n)) = Some s"
    and i: "\<not> cut st \<Longrightarrow> map input_var (inputs (local_node n)) = deps_in (vars (fn_ssa (fn_of st (node_context n)))) (node_var (local_node n))"
    and b: "boundary_in (fn_ssa (fn_of st (node_context n))) (node_var (local_node n)) (node_boundary (local_node n))"
  shows "\<exists>n' st'. (case (map_of (parameters s) (node_var (local_node n)), node_context n \<noteq> 0) of
        (Some slot, True) \<Rightarrow> bind_parameter slot n st
      | _ \<Rightarrow> if node_boundary (local_node n) = Some ''unmodeled_call'' then follow_call e n st else Some (n, st)) = Some (n', st') \<and>
    keeps st st' \<and> env_ok e a0 f0 st' \<and> same_node n n' \<and> length (inputs (local_node n')) \<le> length (inputs (local_node n)) \<and>
    (\<not> cut st \<longrightarrow> node_boundary (local_node n') = None \<longrightarrow> followed e a0 f0 (contexts st') n')"
    (is "\<exists>n' st'. ?step = Some (n', st') \<and> ?P n' st'")
proof -
  let ?k = "node_context n" and ?v = "node_var (local_node n)"
  have f: "fn_at e a0 f0 (context_function (contexts st ! ?k)) = Some (fn_of st ?k)"
    using env_okD(3)[OF ok k] by (simp add: context_ok_def)
  have s': "dependency_summary (fn_ssa (fn_of st ?k)) (env_cc e) = Some s" using env_okD(4)[OF ok s] f by auto
  consider (argument) slot where "map_of (parameters s) ?v = Some slot" "?k \<noteq> 0"
    | (call) "map_of (parameters s) ?v = None \<or> ?k = 0" "node_boundary (local_node n) = Some ''unmodeled_call''"
    | (plain) "map_of (parameters s) ?v = None \<or> ?k = 0" "node_boundary (local_node n) \<noteq> Some ''unmodeled_call''" by (cases "map_of (parameters s) ?v") auto
  then show ?thesis
  proof cases
    case argument
    from bind_parameter_spec[OF ok k l, of slot] obtain n' st' where
      d: "bind_parameter slot n st = Some (n', st')" "keeps st st'" "env_ok e a0 f0 st'" "same_node n n'"
        "length (inputs (local_node n')) \<le> length (inputs (local_node n))"
        "node_boundary (local_node n') = None \<longrightarrow> inputs (local_node n') = [] \<and>
           (\<exists>actual. map_of (caller_arguments (frames st ! ?k)) slot = Some actual \<and> map link_target (links n') = [actual])" by (elim exE conjE)
    note nth = keeps_nth[OF d(2) env_okD(1)[OF ok] k]
    have same: "node_context n' = ?k" "node_var (local_node n') = ?v" using d(4) by (simp_all add: same_node_def)
    have "followed e a0 f0 (contexts st') n'" if none: "node_boundary (local_node n') = None"
    proof -
      from mp[OF d(6) none] obtain actual where a: "map_of (caller_arguments (frames st ! ?k)) slot = Some actual" "map link_target (links n') = [actual]"
        "inputs (local_node n') = []" by (elim conjE exE)
      have "map_of (summaries st') (context_function (contexts st' ! ?k)) = Some s"
        using s nth(1) d(2) by (auto simp: keeps_def map_le_def dom_def)
      then have "argument_followed e a0 f0 (contexts st') n'"
        using argument_bound[OF d(3), of n' s slot actual] same nth argument a by simp
      then show ?thesis by (simp add: followed_def)
    qed
    then show ?thesis using argument d by auto
  next
    case call
    from follow_call_spec[OF ok w k l v] obtain n' st' where
      d: "follow_call e n st = Some (n', st')" "keeps st st'" "env_ok e a0 f0 st'" "same_node n n'" "inputs (local_node n') = inputs (local_node n)"
        "node_boundary (local_node n') = None \<longrightarrow> (\<exists>c. node_call n' = Some c \<and> node_call_is e st n c \<and> call_linked st' c n')" by (elim exE conjE)
    have "followed e a0 f0 (contexts st') n'" if "\<not> cut st" "node_boundary (local_node n') = None"
      using call_entered[OF ok d(3,2) k d(4,5) i[OF that(1)] b[unfolded call(2)]] mp[OF d(6) that(2)] by (auto simp: followed_def)
    then show ?thesis using call d by (auto split: option.split)
  next
    case plain
    have "plain_followed e a0 f0 (contexts st) n" if "\<not> cut st" "node_boundary (local_node n) = None"
      using f s' l plain(1) i[OF that(1)] b[unfolded that(2)] by (auto simp: plain_followed_def)
    then have "?P n st" using ok by (simp add: keeps_refl same_node_def followed_def)
    then show ?thesis using plain by (auto split: option.split)
  qed
qed

definition slice_in :: "inter_env \<Rightarrow> inter_state \<Rightarrow> usize \<Rightarrow> usize \<Rightarrow> SliceNode \<Rightarrow> bool" where
  "slice_in e st ctx depth n \<longleftrightarrow> unat (node_var n) < length (vars (fn_ssa (fn_of st ctx))) \<and> node_depth n + depth \<le> lim_depth (env_limits e) \<and>
     boundary_in (fn_ssa (fn_of st ctx)) (node_var n) (node_boundary n) \<and>
     (\<not> cut st \<longrightarrow> map input_var (inputs n) = deps_in (vars (fn_ssa (fn_of st ctx))) (node_var n))"

lemma place_node_spec:
  assumes ok: "env_ok e a0 f0 st" and w: "world_ok e a0 f0" and k: "ctx < length (contexts st)"
    and a: "a = context_function (contexts st ! ctx)" "map_of (summaries st) a = Some s"
    and n: "slice_in e st ctx depth n" and used: "inputs_used st \<le> MAX_INPUTS"
  shows "\<exists>st' n'. place_node e ctx a depth n st = Some st' \<and> places e a0 f0 st st' n' \<and> node_ref n' = \<lparr>ref_context = ctx, ref_var = node_var n\<rparr> \<and>
    node_inv e a0 f0 st' n'"
proof -
  let ?room = "MAX_INPUTS - inputs_used st"
  define m where "m = n\<lparr>node_depth := node_depth n + depth, inputs := take ?room (inputs n)\<rparr>"
  define out where "out = \<lparr>local_node = m, node_context = ctx, node_function = a, links = [], node_call = None\<rparr>"
  define st1 where "st1 = (if ?room < length (inputs n) then stop ''input_limit'' st else st)"
  define st2 where "st2 = st1\<lparr>inputs_used := inputs_used st1 + length (inputs m)\<rparr>"
  have k1: "keeps st st1" "env_ok e a0 f0 st1" "cut st1 \<longleftrightarrow> cut st \<or> ?room < length (inputs n)"
    using stop_keeps(1) stop_keeps(2)[OF ok] ok by (simp_all add: st1_def keeps_refl) (simp add: stop_def)
  have same1: "contexts st1 = contexts st" "frames st1 = frames st" "summaries st1 = summaries st" "inputs_used st1 = inputs_used st"
    by (simp_all add: st1_def stop_def)
  have ok2: "env_ok e a0 f0 st2" using k1(2) by (simp add: st2_def)
  have ext2: "moves_on st st2" using keeps_moves_on[OF k1(1)] by (simp add: moves_on_def st2_def)
  have full: "map input_var (inputs m) = deps_in (vars (fn_ssa (fn_of st ctx))) (node_var n)" if "\<not> cut st2"
    using n k1(3) that by (simp add: slice_in_def m_def st2_def)
  have step: "place_node e ctx a depth n st = do {
      (out', st') \<leftarrow> (case (map_of (parameters s) (node_var (local_node out)), node_context out \<noteq> 0) of
        (Some slot, True) \<Rightarrow> bind_parameter slot out st2
      | _ \<Rightarrow> if node_boundary (local_node out) = Some ''unmodeled_call'' then follow_call e out st2 else Some (out, st2));
      Some (finish_node e out' st')}"
  proof -
    let ?n = "n\<lparr>node_depth := node_depth n + depth\<rparr>"
    have "(if ?room < length (inputs ?n) then (?n\<lparr>inputs := take ?room (inputs ?n)\<rparr>, stop ''input_limit'' st) else (?n, st)) = (m, st1)"
      by (simp add: m_def st1_def)
    then have "place_node e ctx a depth n st = do {
        s \<leftarrow> map_of (summaries st2) a;
        (out', st') \<leftarrow> (case (map_of (parameters s) (node_var m), ctx \<noteq> 0) of
          (Some slot, True) \<Rightarrow> bind_parameter slot out st2
        | _ \<Rightarrow> if node_boundary m = Some ''unmodeled_call'' then follow_call e out st2 else Some (out, st2));
        Some (finish_node e out' st')}"
      unfolding out_def st2_def by (simp only: place_node_def Let_def prod.case)
    moreover have "map_of (summaries st2) a = Some s" "node_context out = ctx" "local_node out = m" using a(2) same1(3) by (simp_all add: st2_def out_def)
    ultimately show ?thesis by (simp only: bind.bind_lunit)
  qed
  have "\<exists>n' st'. (case (map_of (parameters s) (node_var (local_node out)), node_context out \<noteq> 0) of
        (Some slot, True) \<Rightarrow> bind_parameter slot out st2
      | _ \<Rightarrow> if node_boundary (local_node out) = Some ''unmodeled_call'' then follow_call e out st2 else Some (out, st2)) = Some (n', st') \<and>
    keeps st2 st' \<and> env_ok e a0 f0 st' \<and> same_node out n' \<and> length (inputs (local_node n')) \<le> length (inputs (local_node out)) \<and>
    (\<not> cut st2 \<longrightarrow> node_boundary (local_node n') = None \<longrightarrow> followed e a0 f0 (contexts st') n')"
  proof (rule complete_node_spec[OF ok2 w])
    show "node_context out < length (contexts st2)" "links out = []" using k same1 by (simp_all add: out_def st2_def)
    show "unat (node_var (local_node out)) < length (vars (fn_ssa (fn_of st2 (node_context out))))"
      using n same1 by (simp add: out_def m_def st2_def slice_in_def)
    show "map_of (summaries st2) (context_function (contexts st2 ! node_context out)) = Some s" using a same1 by (simp add: out_def st2_def)
    show "map input_var (inputs (local_node out)) = deps_in (vars (fn_ssa (fn_of st2 (node_context out)))) (node_var (local_node out))" if "\<not> cut st2"
      using full[OF that] same1 by (simp add: out_def m_def st2_def)
    show "boundary_in (fn_ssa (fn_of st2 (node_context out))) (node_var (local_node out)) (node_boundary (local_node out))"
      using n same1 by (simp add: out_def m_def st2_def slice_in_def)
  qed
  then obtain n3 st3 where c: "(case (map_of (parameters s) (node_var (local_node out)), node_context out \<noteq> 0) of
        (Some slot, True) \<Rightarrow> bind_parameter slot out st2
      | _ \<Rightarrow> if node_boundary (local_node out) = Some ''unmodeled_call'' then follow_call e out st2 else Some (out, st2)) = Some (n3, st3)"
    "keeps st2 st3" "env_ok e a0 f0 st3" "same_node out n3" "length (inputs (local_node n3)) \<le> length (inputs (local_node out))"
    "\<not> cut st2 \<longrightarrow> node_boundary (local_node n3) = None \<longrightarrow> followed e a0 f0 (contexts st3) n3" by (elim exE conjE)
  have used3: "inputs_used st3 = inputs_used st + length (inputs m)" "found_nodes st3 = found_nodes st" "visited_refs st3 = visited_refs st"
    "cut st2 \<longrightarrow> cut st3"
    using c(2) k1(1) same1 by (simp_all add: keeps_def st2_def)
  have "inputs_used st3 \<le> MAX_INPUTS" using used3(1) used by (simp add: m_def)
  from finish_node_spec[OF c(3) this, where n = n3] obtain n4 where f: "same_node n3 n4" "inputs (local_node n4) = inputs (local_node n3)"
    "moves_on st3 (finish_node e n3 st3)" "env_ok e a0 f0 (finish_node e n3 st3)" "contexts (finish_node e n3 st3) = contexts st3"
    "found_nodes (finish_node e n3 st3) = found_nodes st3 @ [n4]" "visited_refs (finish_node e n3 st3) = visited_refs st3"
    "inputs_used (finish_node e n3 st3) = inputs_used st3 + length (links n4)" "inputs_used (finish_node e n3 st3) \<le> MAX_INPUTS"
    "cut (finish_node e n3 st3) \<or> n4 = n3" by (elim exE conjE)
  let ?st = "finish_node e n3 st3"
  have ext: "moves_on st ?st" by (rule moves_on_trans[OF ext2 moves_on_trans[OF keeps_moves_on[OF c(2)] f(3)]])
  have same: "node_context n4 = ctx" "node_function n4 = a" "node_var (local_node n4) = node_var n" "node_depth (local_node n4) = node_depth n + depth"
    using c(4) f(1) by (simp_all add: same_node_def out_def m_def)
  have "places e a0 f0 st ?st n4"
    using ext f used3 c(5) by (simp add: places_def out_def)
  moreover have "node_inv e a0 f0 ?st n4"
  proof -
    have nth: "contexts ?st ! ctx = contexts st ! ctx" "ctx < length (contexts ?st)" using moves_on_nth[OF ext env_okD(1)[OF ok] k] by simp_all
    have "followed e a0 f0 (contexts ?st) n4" if "\<not> cut ?st" "node_boundary (local_node n4) = None"
    proof -
      have "n4 = n3" "\<not> cut st2" using that(1) f(3,10) used3(4) by (auto simp: moves_on_def)
      then show ?thesis using c(6) that(2) f(5) by simp
    qed
    then show ?thesis using nth same a(1) n by (simp add: node_inv_def slice_in_def)
  qed
  ultimately show ?thesis using step c(1) same by (intro exI[of _ ?st] exI[of _ n4]) (simp add: node_ref_def)
qed

subsection \<open>Jobs\<close>

definition run_ok :: "inter_env \<Rightarrow> u64 \<Rightarrow> SliceFunction \<Rightarrow> inter_state \<Rightarrow> bool" where
  "run_ok e a0 f0 st \<longleftrightarrow> env_ok e a0 f0 st \<and> (\<forall>n \<in> set (found_nodes st). node_inv e a0 f0 st n) \<and>
     distinct (map node_ref (found_nodes st)) \<and> set (map node_ref (found_nodes st)) \<subseteq> set (visited_refs st) \<and>
     (\<not> cut st \<longrightarrow> set (visited_refs st) \<subseteq> set (map node_ref (found_nodes st))) \<and> inputs_used st \<le> MAX_INPUTS \<and>
     sum_list (map (\<lambda>n. length (inputs (local_node n)) + length (links n)) (found_nodes st)) \<le> inputs_used st"

lemma run_ok_same:
  assumes "run_ok e a0 f0 st" "keeps st st'" "env_ok e a0 f0 st'"
  shows "run_ok e a0 f0 st'"
  using assms node_inv_moves_on[OF _ keeps_moves_on[OF assms(2)]] by (auto simp: run_ok_def keeps_def)

lemma run_ok_places:
  assumes ok: "run_ok e a0 f0 st" and r: "r \<notin> set (visited_refs st)"
    and st: "found_nodes st1 = found_nodes st" "visited_refs st1 = r # visited_refs st" "inputs_used st1 = inputs_used st" "moves_on st st1"
    and p: "places e a0 f0 st1 st2 n" "node_ref n = r" "node_inv e a0 f0 st2 n"
  shows "run_ok e a0 f0 st2"
proof -
  have m: "moves_on st st2" using moves_on_trans[OF st(4)] p(1) by (simp add: places_def)
  have "r \<notin> set (map node_ref (found_nodes st))" using ok r by (auto simp: run_ok_def)
  moreover have "\<not> cut st2 \<longrightarrow> \<not> cut st" using m by (auto simp: moves_on_def)
  ultimately show ?thesis
    using ok st p node_inv_moves_on[OF _ m] by (auto simp: run_ok_def places_def)
qed

lemma visit_nodes_spec:
  assumes "run_ok e a0 f0 st" "world_ok e a0 f0" "ctx < length (contexts st)" "a = context_function (contexts st ! ctx)"
    "map_of (summaries st) a = Some s" "\<forall>n \<in> set ns. slice_in e st ctx depth n" "length (found_nodes st) + length ns \<le> N"
  shows "\<exists>st'. visit_nodes e ctx a depth ns st = Some st' \<and> run_ok e a0 f0 st' \<and> moves_on st st' \<and> length (found_nodes st') \<le> N \<and>
    (cut st' \<or> (\<forall>n \<in> set ns. \<lparr>ref_context = ctx, ref_var = node_var n\<rparr> \<in> set (visited_refs st')))"
  using assms
proof (induction ns arbitrary: st)
  case Nil
  then show ?case by (simp add: moves_on_refl)
next
  case (Cons n ns)
  let ?r = "\<lparr>ref_context = ctx, ref_var = node_var n\<rparr>"
  note ok = Cons.prems(1)
  have env: "env_ok e a0 f0 st" using ok by (simp add: run_ok_def)
  have later: "\<exists>st'. visit_nodes e ctx a depth ns st1 = Some st' \<and> run_ok e a0 f0 st' \<and> moves_on st st' \<and> length (found_nodes st') \<le> N \<and>
      (cut st' \<or> (\<forall>n \<in> set (n # ns). \<lparr>ref_context = ctx, ref_var = node_var n\<rparr> \<in> set (visited_refs st')))"
    if st1: "run_ok e a0 f0 st1" "moves_on st st1" "length (found_nodes st1) + length ns \<le> N" "?r \<in> set (visited_refs st1)" for st1
  proof -
    note nth = moves_on_nth[OF st1(2) env_okD(1)[OF env] Cons.prems(3)]
    have "map_of (summaries st1) a = Some s" using Cons.prems(5) st1(2) by (auto simp: moves_on_def map_le_def dom_def)
    moreover have "\<forall>n \<in> set ns. slice_in e st1 ctx depth n" using Cons.prems(6) st1(2) nth by (auto simp: slice_in_def moves_on_def)
    ultimately obtain st' where st': "visit_nodes e ctx a depth ns st1 = Some st'" "run_ok e a0 f0 st'" "moves_on st1 st'" "length (found_nodes st') \<le> N"
        "cut st' \<or> (\<forall>n \<in> set ns. \<lparr>ref_context = ctx, ref_var = node_var n\<rparr> \<in> set (visited_refs st'))"
      using Cons.IH[OF st1(1) Cons.prems(2)] nth Cons.prems(4) st1(3) by auto
    have "?r \<in> set (visited_refs st')" using st'(3) st1(4) by (auto simp: moves_on_def)
    then show ?thesis using st' moves_on_trans[OF st1(2) st'(3)] by auto
  qed
  show ?case
  proof (cases "?r \<in> set (visited_refs st)")
    case True
    then show ?thesis using later[OF ok moves_on_refl] Cons.prems(7) by simp
  next
    case new: False
    let ?st0 = "st\<lparr>visited_refs := ?r # visited_refs st\<rparr>"
    obtain ok1 st1 where c: "charge_work (env_limits e) (1 + length (inputs n)) ?st0 = (ok1, st1)" by fastforce
    note f = charge_fields[OF c, simplified] and k = charge_keeps[OF c, simplified]
    have env1: "env_ok e a0 f0 st1" using k(2) env by simp
    have m1: "moves_on st st1" using f by (auto simp: moves_on_def)
    show ?thesis
    proof (cases ok1)
      case False
      have "run_ok e a0 f0 st1" using ok env1 f False node_inv_moves_on[OF _ m1] by (auto simp: run_ok_def)
      then show ?thesis using c False new m1 f(7,10) Cons.prems(7) by auto
    next
      case True
      note nth = moves_on_nth[OF m1 env_okD(1)[OF env] Cons.prems(3)]
      have "slice_in e st1 ctx depth n" using Cons.prems(6) f True nth by (auto simp: slice_in_def)
      moreover have "inputs_used st1 \<le> MAX_INPUTS" using ok f by (simp add: run_ok_def)
      ultimately obtain st2 n2 where p: "place_node e ctx a depth n st1 = Some st2" "places e a0 f0 st1 st2 n2" "node_ref n2 = ?r" "node_inv e a0 f0 st2 n2"
        using place_node_spec[OF env1 Cons.prems(2) nth(3), of a s depth n] nth(1) Cons.prems(4,5) f(3) by auto
      have ok2: "run_ok e a0 f0 st2" by (rule run_ok_places[OF ok new f(7,8,9) m1 p(2-4)])
      have m2: "moves_on st st2" using moves_on_trans[OF m1] p(2) by (simp add: places_def)
      have l: "length (found_nodes st2) + length ns \<le> N" using p(2) f(7) Cons.prems(7) by (simp add: places_def)
      have v: "?r \<in> set (visited_refs st2)" using p(2) f(8) by (simp add: places_def)
      show ?thesis
      proof (cases "MAX_INPUTS \<le> inputs_used st2")
        case True
        have "run_ok e a0 f0 (stop ''input_limit'' st2)"
          using run_ok_same[OF ok2 stop_keeps(1) stop_keeps(2)] ok2 by (simp add: run_ok_def)
        moreover have "moves_on st (stop ''input_limit'' st2)" by (rule moves_on_trans[OF m2 keeps_moves_on[OF stop_keeps(1)]])
        moreover have "cut (stop ''input_limit'' st2)" "length (found_nodes (stop ''input_limit'' st2)) \<le> N" using l by (simp_all add: stop_def)
        ultimately show ?thesis using c \<open>ok1\<close> new p(1) True by simp
      next
        case False
        then show ?thesis using later[OF ok2 m2 l v] c \<open>ok1\<close> new p(1) by simp
      qed
    qed
  qed
qed

text \<open>What the local slice hands over.\<close>

lemma local_slice:
  assumes "unat root < length (vars ssa)" "0 < n"
  shows "\<exists>part. backward_slice ssa root n d = Some (Inr part) \<and> length (slice_nodes part) \<le> n \<and>
    root \<in> node_var ` set (slice_nodes part) \<and>
    (\<forall>x \<in> set (slice_nodes part). unat (node_var x) < length (vars ssa) \<and> node_depth x \<le> d \<and> boundary_in ssa (node_var x) (node_boundary x) \<and>
       (\<not> slice_truncated part \<longrightarrow> map input_var (inputs x) = deps_in (vars ssa) (node_var x)))"
proof -
  from backward_slice_result[OF assms, of d] obtain st where
    st: "slice_ok (slice_env_of ssa n d) root st" "pending st = []"
    and part: "backward_slice ssa root n d = Some (Inr \<lparr>slice_root = root, slice_nodes = out_nodes st,
       slice_blocks = List.map_filter (find_block ssa) (site_blocks st), slice_truncated = was_truncated st,
       slice_complete = is_complete st, max_nodes = min n MAX_NODES, max_depth = min d MAX_DEPTH, max_inputs = MAX_INPUTS\<rparr>)" .
  note ok = st(1)[unfolded slice_ok_def st(2), simplified]
  have "unat (node_var x) < length (vars ssa) \<and> node_depth x \<le> d \<and> boundary_in ssa (node_var x) (node_boundary x) \<and>
      (\<not> was_truncated st \<longrightarrow> map input_var (inputs x) = deps_in (vars ssa) (node_var x))" if x: "x \<in> set (out_nodes st)" for x
  proof -
    have n: "node_ok (slice_env_of ssa n d) root x" and t: "\<not> was_truncated st \<longrightarrow> length (inputs x) = inputs_total x" using ok x by blast+
    from n obtain v where "vec_get (vars ssa) (unat (node_var x)) = Some v" "node_depth x \<le> d"
      "node_boundary x = boundary_of (collect_sites ssa) (node_var x) v" "inputs_total x = length (dependencies v)"
      "map input_var (inputs x) = take (length (inputs x)) (dependencies v)" by (auto simp: node_ok_def slice_env_of_def)
    with t show ?thesis by (auto simp: deps_in_def boundary_in_def vec_get_def split: if_splits)
  qed
  moreover have "length (out_nodes st) \<le> n" "root \<in> node_var ` set (out_nodes st)"
    using ok by (simp_all add: slice_env_of_def)
  ultimately show ?thesis using part by (intro exI conjI) (assumption | simp)+
qed

lemma run_job_spec:
  assumes ok: "run_ok e a0 f0 st" and w: "world_ok e a0 f0" and r: "ref_ok st r" and l: "length (found_nodes st) \<le> lim_nodes (env_limits e)"
  shows "\<exists>b st'. run_job e r depth st = Some (Inr (b, st')) \<and> run_ok e a0 f0 st' \<and> moves_on st st' \<and>
    length (found_nodes st') \<le> lim_nodes (env_limits e) \<and> (b \<longrightarrow> cut st') \<and> (cut st' \<or> r \<in> set (visited_refs st'))"
proof -
  let ?l = "env_limits e" and ?k = "ref_context r"
  have env: "env_ok e a0 f0 st" using ok by (simp add: run_ok_def)
  have halt: "run_ok e a0 f0 (stop reason st) \<and> moves_on st (stop reason st) \<and> found_nodes (stop reason st) = found_nodes st \<and> cut (stop reason st)" for reason
    using run_ok_same[OF ok stop_keeps(1) stop_keeps(2)[OF env]] keeps_moves_on[OF stop_keeps(1)] by (simp add: stop_def)
  consider (seen) "r \<in> set (visited_refs st)" | (deep) "r \<notin> set (visited_refs st)" "lim_depth ?l < depth"
    | (full) "r \<notin> set (visited_refs st)" "\<not> lim_depth ?l < depth" "lim_nodes ?l \<le> length (found_nodes st)"
    | (go) "r \<notin> set (visited_refs st)" "\<not> lim_depth ?l < depth" "\<not> lim_nodes ?l \<le> length (found_nodes st)" by blast
  then show ?thesis
  proof cases
    case seen
    then show ?thesis using ok l by (intro exI[of _ False]) (simp add: run_job_def Let_def moves_on_refl)
  next
    case deep
    then show ?thesis using halt[of "''depth_limit''"] l by (intro exI[of _ False]) (simp add: run_job_def Let_def)
  next
    case full
    then show ?thesis using halt[of "''node_limit''"] l by (intro exI[of _ False]) (simp add: run_job_def Let_def)
  next
    case go
    have k: "?k < length (contexts st)" "unat (ref_var r) < length (vars (fn_ssa (fn_of st ?k)))" using r by (simp_all add: ref_ok_def)
    have get: "vec_get (contexts st) ?k = Some (contexts st ! ?k)" "vec_get (frames st) ?k = Some (frames st ! ?k)"
      using k(1) env_okD(1)[OF env] by (simp_all add: vec_get_at)
    have f: "fn_at e a0 f0 (context_function (contexts st ! ?k)) = Some (fn_of st ?k)" using env_okD(3)[OF env k(1)] by (simp add: context_ok_def)
    let ?ssa = "fn_ssa (fn_of st ?k)"
    obtain ok1 st1 where c: "charge_work ?l (scan_cost ?ssa) st = (ok1, st1)" by fastforce
    note f1 = charge_fields[OF c] and k1 = charge_keeps[OF c]
    show ?thesis
    proof (cases ok1)
      case False
      then show ?thesis using go get c run_ok_same[OF ok k1(1) k1(2)[OF env]] keeps_moves_on[OF k1(1)] f1(7,10) l by (auto simp: run_job_def Let_def)
    next
      case True
      from summary_for_spec[OF k1(2)[OF env] w f] obtain s st2 where
        s: "summary_for (env_cc e) (context_function (contexts st ! ?k)) ?ssa st1 = Some (s, st2)" "keeps st1 st2" "env_ok e a0 f0 st2"
          "map_of (summaries st2) (context_function (contexts st ! ?k)) = Some s" by (elim exE conjE)
      have n0: "0 < lim_nodes ?l - length (found_nodes st)" using go(3) by simp
      from local_slice[OF k(2) n0, of "lim_depth ?l - depth"] obtain part where
        p: "backward_slice ?ssa (ref_var r) (lim_nodes ?l - length (found_nodes st)) (lim_depth ?l - depth) = Some (Inr part)"
          "length (slice_nodes part) \<le> lim_nodes ?l - length (found_nodes st)" "ref_var r \<in> node_var ` set (slice_nodes part)"
          "\<forall>x \<in> set (slice_nodes part). unat (node_var x) < length (vars ?ssa) \<and> node_depth x \<le> lim_depth ?l - depth \<and> boundary_in ?ssa (node_var x) (node_boundary x) \<and>
             (\<not> slice_truncated part \<longrightarrow> map input_var (inputs x) = deps_in (vars ?ssa) (node_var x))" by (elim exE conjE)
      let ?st3 = "st2\<lparr>cut := cut st2 \<or> slice_truncated part\<rparr>"
      let ?st4 = "fold (add_block ?k) (slice_blocks part) ?st3"
      have k2: "keeps st st2" by (rule keeps_trans[OF k1(1) s(2)])
      have k3: "keeps st ?st3" by (rule keeps_trans[OF k2 flags_keeps(1)])
      note b = add_blocks_keeps[OF flags_keeps(2)[OF s(3), of "cut st2 \<or> slice_truncated part"], of ?k "slice_blocks part"]
      have k4: "keeps st ?st4" using keeps_trans[OF k3] b by blast
      have ok4: "run_ok e a0 f0 ?st4" using run_ok_same[OF ok k4] b by blast
      note nth = keeps_nth[OF k4 env_okD(1)[OF env] k(1)]
      have found: "found_nodes st2 = found_nodes st" "found_nodes ?st4 = found_nodes st" using k2 k4 by (simp_all add: keeps_def)
      have cut4: "cut ?st4" if "slice_truncated part" using b that by (simp add: keeps_def)
      have sum4: "map_of (summaries ?st4) (context_function (contexts st ! ?k)) = Some s"
        using b s(4) by (auto simp: keeps_def map_le_def dom_def)
      have "\<forall>n \<in> set (slice_nodes part). slice_in e ?st4 ?k depth n"
        using p(4) nth(2) cut4 go(2) by (auto simp: slice_in_def)
      moreover have "length (found_nodes ?st4) + length (slice_nodes part) \<le> lim_nodes ?l" using p(2) found l by simp
      ultimately obtain st5 where v: "visit_nodes e ?k (context_function (contexts st ! ?k)) depth (slice_nodes part) ?st4 = Some st5" "run_ok e a0 f0 st5"
          "moves_on ?st4 st5" "length (found_nodes st5) \<le> lim_nodes ?l"
          "cut st5 \<or> (\<forall>n \<in> set (slice_nodes part). \<lparr>ref_context = ?k, ref_var = node_var n\<rparr> \<in> set (visited_refs st5))"
        using visit_nodes_spec[OF ok4 w nth(3), of "context_function (contexts st ! ?k)" s "slice_nodes part" depth "lim_nodes ?l"] sum4 nth(1) by auto
      have "cut st5 \<or> r \<in> set (visited_refs st5)"
      proof -
        from p(3) obtain x where "x \<in> set (slice_nodes part)" "ref_var r = node_var x" by blast
        moreover have "r = \<lparr>ref_context = ?k, ref_var = ref_var r\<rparr>" by simp
        ultimately show ?thesis using v(5) by metis
      qed
      moreover have "run_job e r depth st = Some (Inr (False, st5))"
        using go get c True s(1) p(1) v(1) found(1) by (simp add: run_job_def Let_def)
      ultimately show ?thesis using v(2,4) moves_on_trans[OF keeps_moves_on[OF k4] v(3)] by blast
    qed
  qed
qed

lemma job_loop_spec:
  assumes "run_ok e a0 f0 st" "world_ok e a0 f0" "length (found_nodes st) \<le> lim_nodes (env_limits e)"
  shows "\<exists>st'. job_loop e st = Some (Inr st') \<and> run_ok e a0 f0 st' \<and> length (found_nodes st') \<le> lim_nodes (env_limits e) \<and>
    (\<exists>cs. contexts st' = contexts st @ cs) \<and> (cut st \<longrightarrow> cut st') \<and> (cut st' \<or> fst ` set (jobs st) \<union> set (visited_refs st) \<subseteq> set (visited_refs st'))"
  using assms
proof (induction e st rule: job_loop.induct)
  case (1 e st)
  show ?case
  proof (cases "jobs st")
    case Nil
    then show ?thesis using 1(2-4) by (subst job_loop.simps) simp
  next
    case (Cons p q)
    obtain r depth where p: "p = (r, depth)" by fastforce
    let ?st = "st\<lparr>jobs := q\<rparr>"
    have env: "env_ok e a0 f0 st" using 1(2) by (simp add: run_ok_def)
    have r: "ref_ok ?st r" using env_okD(5)[OF env, of r depth] Cons p by (simp add: ref_ok_def)
    have "env_ok e a0 f0 ?st" using env Cons by (simp add: env_ok_def context_ok_def ref_ok_def entered_by_def)
    then have ok: "run_ok e a0 f0 ?st" using 1(2) by (simp add: run_ok_def node_inv_def)
    from run_job_spec[OF ok 1(3) r, of depth] obtain b st1 where
      j: "run_job e r depth ?st = Some (Inr (b, st1))" "run_ok e a0 f0 st1" "moves_on ?st st1" "length (found_nodes st1) \<le> lim_nodes (env_limits e)"
        "b \<longrightarrow> cut st1" "cut st1 \<or> r \<in> set (visited_refs st1)" using 1(4) by auto
    show ?thesis
    proof (cases b)
      case True
      then show ?thesis using j Cons p by (subst job_loop.simps) (auto simp: moves_on_def)
    next
      case False
      from 1(1)[OF Cons p[symmetric] j(1) refl refl] j(2,4) 1(3) False obtain st' where
        st': "job_loop e st1 = Some (Inr st')" "run_ok e a0 f0 st'" "length (found_nodes st') \<le> lim_nodes (env_limits e)"
          "\<exists>cs. contexts st' = contexts st1 @ cs" "cut st1 \<longrightarrow> cut st'"
          "cut st' \<or> fst ` set (jobs st1) \<union> set (visited_refs st1) \<subseteq> set (visited_refs st')" by auto
      have "job_loop e st = Some (Inr st')" using Cons p j(1) False st'(1) by (subst job_loop.simps) simp
      moreover have m: "fst ` set (jobs st) \<subseteq> insert r (fst ` set (jobs st1))" "set (visited_refs st) \<subseteq> set (visited_refs st1)"
        "\<exists>cs. contexts st1 = contexts st @ cs" "cut st \<longrightarrow> cut st1" using j(3) Cons p by (auto simp: moves_on_def)
      moreover have "\<exists>cs. contexts st' = contexts st @ cs" using st'(4) m(3) by (elim exE) simp
      moreover have "cut st' \<or> fst ` set (jobs st) \<union> set (visited_refs st) \<subseteq> set (visited_refs st')"
        using st'(5,6) m(1,2) j(6) by blast
      ultimately show ?thesis using st'(2,3,5) by blast
    qed
  qed
qed

end
