(* ===== verification/InterprocProps.thy ===== *)
theory InterprocProps
  imports InterprocRun
begin

text \<open>
  The limits of the traversal across calls, and what a complete result promises: the root
  and, for every node, all that it depends on are in it.
\<close>

definition inter_env_of :: "CallingConv \<Rightarrow> import_map \<Rightarrow> Limits \<Rightarrow> (u64 \<Rightarrow> string + SliceFunction) \<Rightarrow> inter_env" where
  "inter_env_of cc imps limits load = \<lparr>env_cc = cc, env_imports = imps, env_limits = bounded limits, env_load = load\<rparr>"

lemma inter_start_ok:
  assumes "unat root < length (vars (fn_ssa f))" "0 < lim_nodes (env_limits e)" "0 < lim_functions (env_limits e)"
  shows "run_ok e a f (inter_start a root f)"
proof -
  have "env_ok e a f (inter_start a root f)"
    using assms by (simp add: env_ok_def context_ok_def ref_ok_def inter_start_def fn_at_def vec_get_def)
  then show ?thesis by (simp add: run_ok_def inter_start_def)
qed

lemma backward_result:
  assumes "unat root < length (vars (fn_ssa f))" "sliceable (fn_ssa f)" "\<forall>b g. load b = Inr g \<longrightarrow> sliceable (fn_ssa g)"
    "0 < lim_nodes limits" "0 < lim_functions limits"
  obtains st where "backward a root f cc imps limits load = Inr (inter_result root (bounded limits) st)"
    "run_ok (inter_env_of cc imps limits load) a f st" "length (found_nodes st) \<le> lim_nodes (bounded limits)"
    "\<not> cut st \<Longrightarrow> \<lparr>ref_context = 0, ref_var = root\<rparr> \<in> set (visited_refs st)"
proof -
  let ?e = "inter_env_of cc imps limits load"
  have pos: "0 < lim_nodes (bounded limits)" "0 < lim_functions (bounded limits)"
    using assms(4,5) by (simp_all add: bounded_def MAX_NODES_def)
  have "world_ok ?e a f" using assms(2,3) by (auto simp: world_ok_def fn_at_def inter_env_of_def split: if_splits sum.splits)
  moreover have "run_ok ?e a f (inter_start a root f)" using inter_start_ok[OF assms(1)] pos by (simp add: inter_env_of_def)
  ultimately obtain st where st: "job_loop ?e (inter_start a root f) = Some (Inr st)" "run_ok ?e a f st" "length (found_nodes st) \<le> lim_nodes (bounded limits)"
    "cut st \<or> fst ` set (jobs (inter_start a root f)) \<union> set (visited_refs (inter_start a root f)) \<subseteq> set (visited_refs st)"
    using job_loop_spec[of ?e a f "inter_start a root f"] by (auto simp: inter_env_of_def inter_start_def)
  show thesis
  proof (rule that[of st])
    show "backward a root f cc imps limits load = Inr (inter_result root (bounded limits) st)"
      using st(1) pos by (simp add: backward_def Let_def inter_env_of_def)
    show "\<not> cut st \<Longrightarrow> \<lparr>ref_context = 0, ref_var = root\<rparr> \<in> set (visited_refs st)" using st(4) by (simp add: inter_start_def)
  qed (fact st(2,3))+
qed

text \<open>Marking changes neither what a node is nor what it depends on.\<close>

lemma mark_node_fields [simp]:
  "node_context (mark_node rs n) = node_context n" "node_call (mark_node rs n) = node_call n" "node_function (mark_node rs n) = node_function n"
  "node_var (local_node (mark_node rs n)) = node_var (local_node n)" "node_depth (local_node (mark_node rs n)) = node_depth (local_node n)"
  "node_boundary (local_node (mark_node rs n)) = node_boundary (local_node n)"
  "map input_var (inputs (local_node (mark_node rs n))) = map input_var (inputs (local_node n))"
  "map link_target (links (mark_node rs n)) = map link_target (links n)"
  "length (inputs (local_node (mark_node rs n))) = length (inputs (local_node n))" "length (links (mark_node rs n)) = length (links n)"
  by (simp_all add: mark_node_def mark_input_def mark_link_def)

lemma followed_mark: "followed e a0 f0 cs (mark_node rs n) = followed e a0 f0 cs n"
proof -
  have "links (mark_node rs n) = [] \<longleftrightarrow> links n = []" "inputs (local_node (mark_node rs n)) = [] \<longleftrightarrow> inputs (local_node n) = []"
    by (simp_all flip: length_0_conv)
  then show ?thesis unfolding followed_def plain_followed_def argument_followed_def call_followed_def by simp
qed

lemma included_refs_mark: "included_refs (map (mark_node rs) ns) = map node_ref ns"
  by (simp add: included_refs_def node_ref_def)

lemma resolved_mark:
  assumes "resolved_node (mark_node rs n)"
  shows "node_boundary (local_node n) = None" "i \<in> set (inputs (local_node n)) \<Longrightarrow> \<lparr>ref_context = node_context n, ref_var = input_var i\<rparr> \<in> set rs"
    "k \<in> set (links n) \<Longrightarrow> link_target k \<in> set rs"
proof -
  have r: "node_boundary (local_node n) = None" "\<forall>i \<in> set (inputs (local_node n)). stop_reason (mark_input rs (node_context n) i) = None"
    "\<forall>k \<in> set (links n). link_stop (mark_link rs k) = None"
    using assms by (simp_all add: resolved_node_def mark_node_def list_all_iff)
  show "node_boundary (local_node n) = None" by (fact r(1))
  show "\<lparr>ref_context = node_context n, ref_var = input_var i\<rparr> \<in> set rs" if "i \<in> set (inputs (local_node n))"
    using bspec[OF r(2) that] by (simp add: mark_input_def split: if_splits)
  show "link_target k \<in> set rs" if "k \<in> set (links n)"
    using bspec[OF r(3) that] by (simp add: mark_link_def split: if_splits)
qed

subsection \<open>Properties\<close>

text \<open>
  C14. Slicing across calls is total and within its limits. From an existing root, with
  functions whose operands exist and positive limits, it returns a slice, whatever the
  functions call, recursion included: no value of a context is listed twice; there are no
  more nodes and contexts than asked and never more than 256, nor more blocks than 256;
  no node deeper than asked or than 32; at most 2048 inputs and links together; at most 32
  functions; calls nested at most 8 deep; and at most a million units of work. No function
  occurs twice on a chain of calls that is followed.
\<close>

theorem interprocedural_bounds:
  assumes "unat root < length (vars (fn_ssa f))" "sliceable (fn_ssa f)" "\<forall>b g. load b = Inr g \<longrightarrow> sliceable (fn_ssa g)"
    "0 < lim_nodes limits" "0 < lim_functions limits"
  shows "\<exists>s. backward a root f cc imps limits load = Inr s \<and> distinct (included_refs (inter_nodes s)) \<and>
    length (inter_nodes s) \<le> min (lim_nodes limits) 256 \<and> length (inter_contexts s) \<le> min (lim_nodes limits) 256 \<and> length (inter_blocks s) \<le> 256 \<and>
    sum_list (map (\<lambda>n. length (inputs (local_node n)) + length (links n)) (inter_nodes s)) \<le> 2048 \<and>
    functions_visited s \<le> min (lim_functions limits) 32 \<and> traversal_work s \<le> min (lim_work limits) 1000000 \<and>
    (\<forall>n \<in> set (inter_nodes s). node_context n < length (inter_contexts s) \<and> node_depth (local_node n) \<le> min (lim_depth limits) 32) \<and>
    (\<forall>k < length (inter_contexts s). call_depth (inter_contexts s ! k) \<le> min (lim_call_depth limits) 8 \<and>
       (\<exists>as. ancestor_functions (length (inter_contexts s)) (inter_contexts s) k = Some as \<and> distinct as))"
proof -
  from backward_result[OF assms, of a cc imps] obtain st where
    b: "backward a root f cc imps limits load = Inr (inter_result root (bounded limits) st)"
    and ok: "run_ok (inter_env_of cc imps limits load) a f st" and l: "length (found_nodes st) \<le> lim_nodes (bounded limits)" by blast
  have env: "env_ok (inter_env_of cc imps limits load) a f st" using ok by (simp add: run_ok_def)
  note e = env_okD[OF env]
  have "distinct (map node_ref (found_nodes st))" "sum_list (map (\<lambda>n. length (inputs (local_node n)) + length (links n)) (found_nodes st)) \<le> 2048"
    "\<forall>n \<in> set (found_nodes st). node_context n < length (contexts st) \<and> node_depth (local_node n) \<le> min (lim_depth limits) 32"
    using ok by (auto simp: run_ok_def node_inv_def MAX_INPUTS_def inter_env_of_def bounded_def MAX_DEPTH_def)
  moreover have "\<forall>k < length (contexts st). call_depth (contexts st ! k) \<le> min (lim_call_depth limits) 8 \<and>
       (\<exists>as. ancestor_functions (length (contexts st)) (contexts st) k = Some as \<and> distinct as)"
    using e(3) by (fastforce simp: context_ok_def inter_env_of_def bounded_def)
  moreover have "length (found_nodes st) \<le> min (lim_nodes limits) 256" "length (contexts st) \<le> min (lim_nodes limits) 256"
    "length (found_blocks st) \<le> 256" "length (functions_seen st) \<le> min (lim_functions limits) 32" "work_done st \<le> min (lim_work limits) 1000000"
    using l e(2,6-8) by (simp_all add: inter_env_of_def bounded_def MAX_NODES_def)
  ultimately show ?thesis
    unfolding b by (simp add: inter_result_def Let_def included_refs_mark comp_def)
qed

text \<open>
  C13. A slice across calls that reports itself complete leaves nothing open. The root
  exists, the functions' operands do, and the limits are positive. Then the slice was not
  cut off and records no stop; the root is in it; and for every node, all the inputs, in
  the node's context, and all the targets of its links, in theirs, are in it too. These
  are what the node depends on: for a definition that is neither the result of a call nor
  another boundary, the dependencies of the definition; for a parameter of a context that
  a call has entered, the argument that this call passes, in the caller's context; and for
  the result of a call, what the function it calls returns, in a context entered by that
  call, of a function that has no other effects.
\<close>

theorem interprocedural_complete:
  assumes "unat root < length (vars (fn_ssa f))" "sliceable (fn_ssa f)" "\<forall>b g. load b = Inr g \<longrightarrow> sliceable (fn_ssa g)"
    "0 < lim_nodes limits" "0 < lim_functions limits" "backward a root f cc imps limits load = Inr s" "inter_complete s"
  shows "\<not> inter_truncated s \<and> inter_stops s = [] \<and> \<lparr>ref_context = 0, ref_var = root\<rparr> \<in> set (included_refs (inter_nodes s)) \<and>
    (\<forall>n \<in> set (inter_nodes s). node_boundary (local_node n) = None \<and>
       (\<forall>i \<in> set (inputs (local_node n)). \<lparr>ref_context = node_context n, ref_var = input_var i\<rparr> \<in> set (included_refs (inter_nodes s))) \<and>
       (\<forall>k \<in> set (links n). link_target k \<in> set (included_refs (inter_nodes s))) \<and>
       followed (inter_env_of cc imps limits load) a f (inter_contexts s) n)"
proof -
  let ?e = "inter_env_of cc imps limits load"
  from backward_result[OF assms(1-5), of a cc imps] obtain st where
    b: "backward a root f cc imps limits load = Inr (inter_result root (bounded limits) st)" and ok: "run_ok ?e a f st"
    and root: "\<not> cut st \<Longrightarrow> \<lparr>ref_context = 0, ref_var = root\<rparr> \<in> set (visited_refs st)" by blast
  let ?rs = "included_refs (found_nodes st)"
  have rs: "?rs = map node_ref (found_nodes st)" by (simp add: included_refs_def node_ref_def)
  have s: "inter_nodes s = map (mark_node ?rs) (found_nodes st)" "inter_truncated s = cut st" "inter_stops s = stops st" "inter_contexts s = contexts st"
    and c: "\<not> cut st" "stops st = []" "\<forall>n \<in> set (found_nodes st). resolved_node (mark_node ?rs n)"
    using assms(6,7) b by (auto simp: inter_result_def Let_def list_all_iff)
  have refs: "included_refs (inter_nodes s) = ?rs" unfolding s(1) included_refs_mark rs ..
  have "\<lparr>ref_context = 0, ref_var = root\<rparr> \<in> set ?rs" using root[OF c(1)] ok c(1) unfolding rs run_ok_def by blast
  moreover have "node_boundary (local_node m) = None \<and>
       (\<forall>i \<in> set (inputs (local_node m)). \<lparr>ref_context = node_context m, ref_var = input_var i\<rparr> \<in> set ?rs) \<and>
       (\<forall>k \<in> set (links m). link_target k \<in> set ?rs) \<and> followed ?e a f (contexts st) m"
    if m: "m \<in> set (inter_nodes s)" for m
  proof -
    from m obtain n where n: "n \<in> set (found_nodes st)" "m = mark_node ?rs n" unfolding s(1) by auto
    note r = resolved_mark[OF c(3)[rule_format, OF n(1)]]
    have "node_inv ?e a f st n" using ok n(1) by (simp add: run_ok_def)
    then have "followed ?e a f (contexts st) m" using c(1) r(1) unfolding n(2) followed_mark by (simp add: node_inv_def)
    moreover have "input_var ` set (inputs (local_node m)) = input_var ` set (inputs (local_node n))"
      "link_target ` set (links m) = link_target ` set (links n)"
      by (simp_all only: n(2) set_map[symmetric] mark_node_fields)
    moreover have "\<forall>v \<in> input_var ` set (inputs (local_node n)). \<lparr>ref_context = node_context m, ref_var = v\<rparr> \<in> set ?rs"
      "\<forall>t \<in> link_target ` set (links n). t \<in> set ?rs" using r(2,3) by (auto simp: n(2))
    moreover have "node_boundary (local_node m) = None" using r(1) by (simp add: n(2))
    ultimately show ?thesis by (metis imageI)
  qed
  ultimately show ?thesis using c(1,2) by (simp add: s(2-4) refs)
qed

text \<open>A function that doubles its parameter, and one that calls it with a constant and returns the result.\<close>

definition doubling :: SliceFunction where
  "doubling = \<lparr>fn_ssa = \<lparr>ssa_blocks = [\<lparr>ssa_block_id = 0, ssa_block_addr = 0x2000, stmts = [Assign 0, Assign 1], ssa_terminator = SReturn (Some 1)\<rparr>],
       vars = [(blank_vardef 0)\<lparr>varnode := register 56 8\<rparr>, (blank_vardef 1)\<lparr>expr := EBinOp BAdd 0 0\<rparr>], ssa_entry = 0, ssa_diagnostics = []\<rparr>,
     fn_operation = (\<lambda>_. None)\<rparr>"

definition doubled_seven :: SliceFunction where
  "doubled_seven = \<lparr>fn_ssa = \<lparr>ssa_blocks =
         [\<lparr>ssa_block_id = 0, ssa_block_addr = 0x1000, stmts = [Assign 0], ssa_terminator = SCall (Direct 0x2000) [0] (Some 1) 1\<rparr>,
          \<lparr>ssa_block_id = 1, ssa_block_addr = 0x1008, stmts = [], ssa_terminator = SReturn (Some 1)\<rparr>],
       vars = [(blank_vardef 0)\<lparr>varnode := register 56 8, expr := EConst 7 8\<rparr>,
         (blank_vardef 1)\<lparr>varnode := register 0 8, call_return := True,
            origins := \<lparr>operations = [\<lparr>instruction_address = 0x1003, operation_index = 0\<rparr>], truncated = False, synthetic = False\<rparr>\<rparr>],
       ssa_entry = 0, ssa_diagnostics = []\<rparr>,
     fn_operation = (\<lambda>_. Some (Call \<lparr>space = Ram, offset = 0x2000, vsize = 8\<rparr>))\<rparr>"

definition load_doubling :: "u64 \<Rightarrow> string + SliceFunction" where
  "load_doubling a = (if a = 0x2000 then Inr doubling else Inl ''no such function'')"

definition doubling_limits :: Limits where
  "doubling_limits = \<lparr>lim_nodes = 40, lim_depth = 10, lim_call_depth = 3, lim_functions = 4, lim_work = 100\<rparr>"

lemma doubled_seven_hyps:
  "unat (1 :: VarId) < length (vars (fn_ssa doubled_seven))" "sliceable (fn_ssa doubled_seven)" "\<forall>b g. load_doubling b = Inr g \<longrightarrow> sliceable (fn_ssa g)"
  "0 < lim_nodes doubling_limits" "0 < lim_functions doubling_limits"
  by (simp_all add: doubled_seven_def doubling_def load_doubling_def doubling_limits_def sliceable_def)

lemma doubled_seven_run:
  "map_option (map_sum id (\<lambda>s. (map (\<lambda>n. (node_context n, node_var (local_node n), map link_target (links n))) (inter_nodes s), inter_complete s, functions_visited s)))
     (map_option (map_sum id (inter_result 1 doubling_limits)) (job_loop \<lparr>env_cc = SysV, env_imports = [], env_limits = doubling_limits, env_load = load_doubling\<rparr>
       (inter_start 0x1000 1 doubled_seven))) =
   Some (Inr ([(0, 1, [\<lparr>ref_context = 1, ref_var = 1\<rparr>]), (1, 1, []), (1, 0, [\<lparr>ref_context = 0, ref_var = 0\<rparr>]), (0, 0, [])], True, 2))"
  by code_simp

theorem interprocedural_bounds_witness:
  "\<exists>s. backward 0x1000 1 doubled_seven SysV [] doubling_limits load_doubling = Inr s \<and> length (inter_nodes s) \<le> 40"
  using interprocedural_bounds[OF doubled_seven_hyps, where a = "0x1000" and cc = SysV and imps = "[]"] by (auto simp: doubling_limits_def)

theorem interprocedural_complete_witness:
  "\<exists>s. backward 0x1000 1 doubled_seven SysV [] doubling_limits load_doubling = Inr s \<and> inter_complete s \<and>
     \<lparr>ref_context = 0, ref_var = 1\<rparr> \<in> set (included_refs (inter_nodes s))"
proof -
  have l: "bounded doubling_limits = doubling_limits" by (simp add: bounded_def doubling_limits_def MAX_NODES_def MAX_DEPTH_def)
  let ?run = "job_loop \<lparr>env_cc = SysV, env_imports = [], env_limits = doubling_limits, env_load = load_doubling\<rparr> (inter_start 0x1000 1 doubled_seven)"
  from doubled_seven_run obtain st where st: "?run = Some (Inr st)" "inter_complete (inter_result 1 doubling_limits st)"
    by (cases ?run) (auto split: sum.splits simp: map_sum_def)
  then have s: "backward 0x1000 1 doubled_seven SysV [] doubling_limits load_doubling = Inr (inter_result 1 doubling_limits st)"
    using doubled_seven_hyps(4,5) by (simp add: backward_def Let_def l)
  from interprocedural_complete[OF doubled_seven_hyps s st(2)] s st(2) show ?thesis by blast
qed

end
