(* ===== verification/Spec2Isabelle.thy ===== *)
theory Spec2Isabelle
  imports PeepholeProps DominatorsCorrect Budget ProvenanceProps CfgEdgesProps JumpTableProps CfgSwitch MemoryProps SsaCorrect SsaRegisters Selector CallGraphEdges RegionProps InterprocProps
begin

text \<open>
  A verification development for rsleigh, a decompiler in Rust. Machine code is decoded
  into lists of P-code operations, one list per instruction; the decompiler core takes it
  from there, and that core is what is modelled:

    instructions --(peephole optimiser)--> P-code --(construction, with jump tables and
    indirect calls resolved)--> control flow graph --(edge classification, dominators)-->
    --(renaming, phis)--> SSA form --(forwarding of stores to loads, propagation of
    origins, use counts)--> the form the later stages fold and print.

  Theories and sources, in the order of the data flow. Definitions carry the names of the
  code; parts of a function that are definitions of their own are documented where they
  are declared.

  \<^item> \<open>Prelude\<close>: fallible indexing (\<open>vec_get\<close>, \<open>None\<close> being a panic), saturating and
    shifting arithmetic at its width, shared lemma collections.
  \<^item> \<open>Pcode\<close>, \<open>PcodeFold\<close>, \<open>PcodeSem\<close>: \<^verbatim>\<open>pcode-ir/src/lib.rs\<close>, operations and operand access, the
    constant folder; \<open>PcodeSem\<close> gives the operations a meaning to state properties against.
  \<^item> \<open>Peephole\<close> (the four passes of \<open>optimize\<close>), \<open>PeepholeSound\<close>, \<open>PeepholeCorrect\<close>,
    \<open>PeepholeWf\<close>, \<open>PeepholeProps\<close>: the optimiser of the same file; that it keeps lists well
    formed, and that it preserves the meaning of straight code under the conditions stated
    there. \<open>PeepholeWf\<close> has the locale \<open>kept_by_passes\<close> of what all passes keep.
  \<^item> \<open>Ir\<close>: \<^verbatim>\<open>rsleigh-decompile/src/ir.rs\<close>, the data of graphs and SSA forms, checked variable access.
  \<^item> \<open>CfgGraph\<close>, \<open>CfgEdges\<close>, \<open>CfgEdgesProps\<close>: \<^verbatim>\<open>cfg.rs\<close>, successors, predecessors, the DFS
    classification of edges; \<open>Dominators\<close>, \<open>DomTree\<close>, \<open>DominatorsCorrect\<close>: \<^verbatim>\<open>dominators.rs\<close>, the
    fixed points and their equality with dominance by paths.
  \<^item> \<open>JumpTable\<close>, \<open>JumpTableProps\<close>: \<^verbatim>\<open>jump_table.rs\<close>, the bounded search for a guarded table.
  \<^item> \<open>CfgResolve\<close>, \<open>CfgBuild\<close>, \<open>CfgBuildProps\<close>, \<open>CfgSwitch\<close>: construction of the graph in
    \<^verbatim>\<open>cfg.rs\<close>: leaders, synthetic blocks for tail calls and switches, indirect calls.
  \<^item> \<open>Provenance\<close>, \<open>ProvenanceProps\<close>: \<^verbatim>\<open>provenance.rs\<close>, bounded sets of origins, the worklist that
    propagates them.
  \<^item> \<open>Region\<close>, \<open>RegionSound\<close>: the exact half of \<^verbatim>\<open>region.rs\<close>, the location of an address;
    \<open>RegionMap\<close>, \<open>RegionProps\<close>: the coarse half, the regions of all variables.
  \<^item> \<open>Memory\<close>, \<open>MemoryFlow\<close>, \<open>MemoryRun\<close>, \<open>MemorySound\<close>, \<open>MemoryForward\<close>, \<open>MemoryTable\<close>,
    \<open>MemoryProps\<close>: \<^verbatim>\<open>memory.rs\<close>, the reaching-store analysis and the rewriting of loads.
    \<open>MemoryFlow\<close> has the locale \<open>flow_invariant\<close> of what the iteration preserves, with an
    interpretation per invariant; \<open>MemoryRun\<close> the executions it is sound for.
  \<^item> \<open>Ssa\<close>, \<open>SsaBuild\<close>: \<^verbatim>\<open>ssa.rs\<close>, single operations, calls and terminators below, instructions,
    passes, phis and use counts above; the calling conventions of \<^verbatim>\<open>fold.rs\<close>. \<open>SsaOps\<close> has the
    calculus of results (\<open>yields\<close>) and the invariants of tables and maps; \<open>SsaSteps\<close>,
    \<open>SsaTerm\<close>, \<open>SsaPasses\<close>, \<open>SsaPhi\<close> and \<open>SsaTotal\<close> carry them through operations,
    terminators, passes, phi insertion and forwarding; \<open>SsaProps\<close> composes the steps,
    \<open>SsaCorrect\<close> and \<open>SsaRegisters\<close> have the properties.
  \<^item> \<open>Slice\<close>, \<open>SliceProps\<close>: \<^verbatim>\<open>slice.rs\<close>, the bounded backward traversal from a variable of the
    form, and that a slice that calls itself complete is the closure of its root;
    \<open>Selector\<close>: \<^verbatim>\<open>slice/selector.rs\<close>, roots chosen by instruction.
  \<^item> \<open>CallGraph\<close>: \<^verbatim>\<open>callgraph.rs\<close>, the call graph over several forms and the components of
    its direct calls; \<open>TarjanInv\<close> has the invariant of the algorithm, relative to the visits
    that have not ended, \<open>CallGraphProps\<close> its correctness, \<open>CallGraphEdges\<close> what construction
    puts into the graph and the call that made a value.
  \<^item> \<open>Summary\<close>: \<^verbatim>\<open>function_summary.rs\<close>, \<open>dependency_summary\<close>, the parameters, results and side
    effects of a function; \<open>Interproc\<close>: \<^verbatim>\<open>slice/interprocedural.rs\<close>, slices stitched together
    over the calls they depend on, with the proof that the traversal ends. \<open>InterprocInv\<close> has
    the tree of contexts that entering a call keeps, \<open>InterprocRun\<close> what nodes record and
    that jobs keep it within the limits, \<open>InterprocProps\<close> the limits and what a complete
    result promises.
  \<^item> \<open>Budget\<close>: \<^verbatim>\<open>budget.rs\<close>, charging, stops, scopes and guards.

  Conventions. \<open>None\<close> is a panic (an index out of range, an unwrap) or, in a loop that need
  not end, divergence; that an operation returns is always a theorem of its own.
  Arithmetic is that of a release build: it wraps at its width. An ordered map or set is
  a sorted list without duplicates, a hash map an association list; the code sorts, or
  selects a unique extreme, wherever the iteration order of a hash map could be seen. The
  thread-local source of an operation is an argument. Calls of the budget inside the
  other components are left out there: they do not touch data, they only unwind, and
  \<open>Budget\<close> models what they do. Text is ASCII.

  Bounds, all the code's own: 64 steps when resolving an address, 64 rounds per block in
  the iteration of the reaching stores, after which every block is given the empty state
  and a diagnostic, at most 1024 locations and eight stores per location, 32 origins per
  variable, four passes of renaming, 256 nodes, 256 blocks, 32 steps and 2048 inputs per
  slice, across calls also 256 contexts, 32 functions and 8 nested calls, 64 entries of a pointer table, 32 bits for the identifiers of variables and for
  the indices of Tarjan's algorithm. The fuel of that algorithm is the model's own: the
  number of functions and edges, which its correctness shows to be enough. Where a result
  depends on one (unique definitions while the identifiers do not wrap) the property says
  so; elsewhere running out of a bound is the code's own fallback and not an artefact.

  What the lemmas show. Totality and well-formedness at every stage, for the output of
  the stage before: construction gives a graph whose blocks and edges are in range, on
  which edge classification, dominators and SSA construction all return; what the SSA
  form names exists, and is defined once. Soundness of the analyses against executions:
  the constant folder and the optimiser against the meaning of P-code, dominators
  against paths, exact locations against addresses, forwarding against the runs of the
  form, and, composing them, the loads of the form construction finally returns; slices
  against the dependence relation of the form. Where the code relies on something it does
  not check, the property has it as a hypothesis and its text names it: for the optimiser
  the widths of folded constants and what passes 2 and 4 step over (\<open>optimize_safe\<close>), for
  exact locations, and all that rests on them, consistent widths and a frame that does not
  wrap around the address space, of the accessed addresses only (\<open>address_ok\<close>,
  \<open>exact_table\<close>). Examples next to the properties show that these are needed. Some
  properties state what the code does where that is not what its comments say; they are
  the findings of the manifest.

  Not modelled: the decoders (generated at build time from the processor specifications
  and absent from the sources), the SLEIGH compiler that generates them (parsers over a
  third-party combinator library, output as token streams), the folding and printing
  stages after SSA (heuristics over names, idioms and text), readers of object files
  (third-party crates), detectors (tables of patterns), solver-driven exploration, and the
  command line. The manifest lists each with its reason.
\<close>

subsection \<open>The graph analyses on built graphs\<close>

lemma out_edges_all:
  assumes "b < length (blocks cfg)" "\<forall>s \<in> set (succs_of cfg b). s < length (blocks cfg)"
  shows "out_edges cfg b = map (Pair b) (succs_of cfg b)"
  using assms(2) by (simp add: out_edges_def)

text \<open>
  C18. On every graph that construction returns for a nonempty instruction list, from any
  image, the analyses of the graph return without a panic and without diverging:
  predecessors, the edge classification, which covers every edge of every block,
  dominators and post-dominators, with an entry per block.
\<close>

theorem graph_analyses_total:
  assumes "instructions \<noteq> []" "cfg = build_cfg_with_memory instructions mem"
  shows "(\<exists>preds. predecessors cfg = Some preds \<and> length preds = length (blocks cfg)) \<and>
    (\<exists>es. classified_edges cfg = Some es \<and>
       mset (map edge_pair es) = mset (concat (map (\<lambda>b. map (Pair b) (succs_of cfg b)) [0..<length (blocks cfg)]))) \<and>
    (\<exists>doms. compute_dominators cfg = Some doms \<and> length doms = length (blocks cfg)) \<and>
    (\<exists>pdoms. compute_post_dominators cfg = Some pdoms \<and> length pdoms = length (blocks cfg))"
proof -
  have w: "ids_are_indices cfg" "entry cfg = 0" "blocks cfg \<noteq> []"
    "\<forall>b < length (blocks cfg). \<forall>s \<in> set (succs_of cfg b). s < length (blocks cfg)"
    using build_graph_ok[of instructions mem] assms by auto
  have e: "entry cfg < length (blocks cfg)" using w(2,3) by simp
  have "map (out_edges cfg) [0..<length (blocks cfg)] = map (\<lambda>b. map (Pair b) (succs_of cfg b)) [0..<length (blocks cfg)]"
    using w(4) by (intro map_cong) (auto simp: out_edges_all)
  then show ?thesis
    using predecessors_spec[OF w(1)] classified_once[OF w(1)] compute_dominators_spec[OF w(1) e]
      compute_post_dominators_spec[of cfg] by metis
qed

theorem graph_analyses_total_witness:
  "\<exists>doms. compute_dominators (build_cfg cold_example) = Some doms \<and> length doms = length (blocks (build_cfg cold_example))"
  using graph_analyses_total[of cold_example "build_cfg cold_example" "\<lambda>va len. None"]
  by (simp add: build_cfg_def cold_example_def)

end
